(* ===== verification/Prelude.thy ===== *)
theory Prelude
  imports Main "HOL-Library.Word" "HOL-Library.Monad_Syntax"
begin

text \<open>
  Shared vocabulary of the development.  A plaintext vector of the framework is a list of
  machine words (\<open>vec\<close>); elementwise loops are \<^const>\<open>map2\<close>.  This theory holds the
  collections of simplification rules, the XOR algebra of words and of vectors, and the
  homomorphism principle that every local (communication-free) step of a boolean
  protocol rests on.
\<close>

unbundle bit_operations_syntax

named_theorems vec_simps "lengths and elements of vector operations"

named_theorems share_simps "how local operations act on a sharing"

type_synonym 'a vec = "'a word list"

section \<open>XOR of words and of vectors\<close>

definition vxor :: "'a::len vec \<Rightarrow> 'a vec \<Rightarrow> 'a vec" where
  "vxor x y = map2 (XOR) x y"

definition vadd :: "'a::len vec \<Rightarrow> 'a vec \<Rightarrow> 'a vec" where
  "vadd x y = map2 (+) x y"

definition vxor_all :: "nat \<Rightarrow> 'a::len vec list \<Rightarrow> 'a vec" where
  "vxor_all m xs = foldr vxor xs (replicate m 0)"

definition vadd_all :: "nat \<Rightarrow> 'a::len vec list \<Rightarrow> 'a vec" where
  "vadd_all m xs = foldr vadd xs (replicate m 0)"

definition xor_hom :: "nat \<Rightarrow> nat \<Rightarrow> ('a::len vec \<Rightarrow> 'a vec) \<Rightarrow> bool" where
  "xor_hom m m' F \<longleftrightarrow> (\<forall>x. length x = m \<longrightarrow> length (F x) = m') \<and>
     (\<forall>x y. length x = m \<longrightarrow> length y = m \<longrightarrow> F (vxor x y) = vxor (F x) (F y))"

definition xor_hom2 :: "nat \<Rightarrow> nat \<Rightarrow> nat \<Rightarrow> ('a::len vec \<Rightarrow> 'a vec \<Rightarrow> 'a vec) \<Rightarrow> bool" where
  "xor_hom2 m1 m2 m' F \<longleftrightarrow>
     (\<forall>x y. length x = m1 \<longrightarrow> length y = m2 \<longrightarrow> length (F x y) = m') \<and>
     (\<forall>x x' y y'. length x = m1 \<longrightarrow> length x' = m1 \<longrightarrow> length y = m2 \<longrightarrow> length y' = m2 \<longrightarrow>
        F (vxor x x') (vxor y y') = vxor (F x y) (F x' y'))"

lemma length_vxor [simp, vec_simps]: "length (vxor x y) = min (length x) (length y)"
  by (simp add: vxor_def)

lemma length_vadd [simp, vec_simps]: "length (vadd x y) = min (length x) (length y)"
  by (simp add: vadd_def)

lemma nth_vxor [simp, vec_simps]:
  "i < length x \<Longrightarrow> i < length y \<Longrightarrow> vxor x y ! i = x ! i XOR y ! i"
  by (simp add: vxor_def)

lemma nth_vadd [simp, vec_simps]:
  "i < length x \<Longrightarrow> i < length y \<Longrightarrow> vadd x y ! i = x ! i + y ! i"
  by (simp add: vadd_def)

lemma length_vxor_all [simp]: "\<forall>x \<in> set xs. length x = m \<Longrightarrow> length (vxor_all m xs) = m"
  by (induction xs) (auto simp: vxor_all_def)

lemma length_vadd_all [simp]: "\<forall>x \<in> set xs. length x = m \<Longrightarrow> length (vadd_all m xs) = m"
  by (induction xs) (auto simp: vadd_all_def)

lemma vxor_all_Nil [simp]: "vxor_all m [] = replicate m 0"
  by (simp add: vxor_all_def)

lemma vxor_all_Cons [simp]: "vxor_all m (x # xs) = vxor x (vxor_all m xs)"
  by (simp add: vxor_all_def)

lemma vadd_all_Nil [simp]: "vadd_all m [] = replicate m 0"
  by (simp add: vadd_all_def)

lemma vadd_all_Cons [simp]: "vadd_all m (x # xs) = vadd x (vadd_all m xs)"
  by (simp add: vadd_all_def)

lemma vec_eqI:
  assumes "length x = length y" and "\<And>i. i < length x \<Longrightarrow> x ! i = y ! i"
  shows "x = y"
  using assms by (rule nth_equalityI)

lemma vxor_zero [simp]: "length x = m \<Longrightarrow> vxor x (replicate m 0) = x"
  by (rule vec_eqI) auto

lemma vadd_zero [simp]: "length x = m \<Longrightarrow> vadd x (replicate m 0) = x"
  by (rule vec_eqI) auto

lemma vxor_self [simp]: "vxor x x = replicate (length x) 0"
  by (rule vec_eqI) auto

lemma vxor_swap:
  "length a = m \<Longrightarrow> length b = m \<Longrightarrow> length c = m \<Longrightarrow> length d = m \<Longrightarrow>
   vxor (vxor a b) (vxor c d) = vxor (vxor a c) (vxor b d)"
  by (rule vec_eqI) (auto simp: ac_simps)

lemma nth_vxor_all:
  "\<forall>x \<in> set xs. length x = m \<Longrightarrow> i < m \<Longrightarrow> vxor_all m xs ! i = foldr (XOR) (map (\<lambda>x. x ! i) xs) 0"
  by (induction xs) auto

lemma nth_vadd_all:
  "\<forall>x \<in> set xs. length x = m \<Longrightarrow> i < m \<Longrightarrow> vadd_all m xs ! i = sum_list (map (\<lambda>x. x ! i) xs)"
  by (induction xs) auto

section \<open>Homomorphisms of the XOR group of vectors\<close>

lemma xor_hom_length: "xor_hom m m' F \<Longrightarrow> length x = m \<Longrightarrow> length (F x) = m'"
  by (simp add: xor_hom_def)

lemma xor_hom2_length:
  "xor_hom2 m1 m2 m' F \<Longrightarrow> length x = m1 \<Longrightarrow> length y = m2 \<Longrightarrow> length (F x y) = m'"
  by (simp add: xor_hom2_def)

lemma xor_hom_zero:
  assumes "xor_hom m m' F"
  shows "F (replicate m 0) = replicate m' 0"
proof -
  have "F (vxor (replicate m 0) (replicate m 0)) = vxor (F (replicate m 0)) (F (replicate m 0))"
    using assms unfolding xor_hom_def by (metis length_replicate)
  then show ?thesis using assms by (simp add: xor_hom_def)
qed

lemma xor_hom2_zero:
  assumes "xor_hom2 m1 m2 m' F"
  shows "F (replicate m1 0) (replicate m2 0) = replicate m' 0"
proof -
  let ?z = "replicate m1 0" and ?w = "replicate m2 0"
  have "F (vxor ?z ?z) (vxor ?w ?w) = vxor (F ?z ?w) (F ?z ?w)"
    using assms unfolding xor_hom2_def by (metis length_replicate)
  then show ?thesis using assms by (simp add: xor_hom2_def)
qed

lemma xor_hom_vxor_all:
  assumes "xor_hom m m' F" and "\<forall>x \<in> set xs. length x = m"
  shows "vxor_all m' (map F xs) = F (vxor_all m xs)"
  using assms(2)
proof (induction xs)
  case Nil
  then show ?case using xor_hom_zero [OF assms(1)] by simp
next
  case (Cons x xs)
  then show ?case using assms(1) by (simp add: xor_hom_def)
qed

lemma xor_hom2_vxor_all:
  assumes "xor_hom2 m1 m2 m' F" and "length xs = length ys"
    and "\<forall>x \<in> set xs. length x = m1" and "\<forall>y \<in> set ys. length y = m2"
  shows "vxor_all m' (map2 F xs ys) = F (vxor_all m1 xs) (vxor_all m2 ys)"
  using assms(2-4)
proof (induction xs ys rule: list_induct2)
  case Nil
  then show ?case using xor_hom2_zero [OF assms(1)] by simp
next
  case (Cons x xs y ys)
  then show ?case using assms(1) by (simp add: xor_hom2_def)
qed

lemma xor_hom_map:
  assumes "\<And>x y. f (x XOR y) = f x XOR f y"
  shows "xor_hom m m (map f)"
  using assms by (auto simp: xor_hom_def intro!: vec_eqI)

lemma xor_hom2_vxor: "xor_hom2 m m m vxor"
  by (auto simp: xor_hom2_def intro: vxor_swap)

lemma bit_word_eqI:
  fixes x y :: "'a::len word"
  assumes "\<And>i. i < LENGTH('a) \<Longrightarrow> bit x i = bit y i"
  shows "x = y"
  using assms by (rule bit_word_eqI)

end
