(* ===== verification/Bit_Primitives.thy ===== *)
theory Bit_Primitives
  imports Prelude
begin

text \<open>
  The bit helpers of \<open>core/containers/mapping_access_vector.h\<close> (\<open>getBit\<close>, \<open>setBit\<close>, \<open>clrBit\<close>,
  \<open>setBitValue\<close>, \<open>setBitMask\<close>) and \<open>math::div_ceil\<close>.  An element of the signed integer
  type \<open>T\<close> of \<open>LENGTH('a)\<close> bits is a word.  Every helper is characterised by its bits.
\<close>

section \<open>Definitions\<close>

definition div_ceil :: "nat \<Rightarrow> nat \<Rightarrow> nat" where
  "div_ceil x y = (x + y - 1) div y"

definition getBit :: "'a::len word \<Rightarrow> nat \<Rightarrow> 'a word" where
  "getBit share bitIndex = drop_bit bitIndex share AND 1"

definition setBit :: "'a::len word \<Rightarrow> 'a word \<Rightarrow> nat \<Rightarrow> 'a word" where
  "setBit share b bitIndex = (share AND NOT (push_bit bitIndex 1)) OR push_bit bitIndex b"

definition clrBit :: "'a::len word \<Rightarrow> nat \<Rightarrow> 'a word" where
  "clrBit share bitIndex = share AND NOT (push_bit bitIndex 1)"

definition setBitValue :: "'a::len word \<Rightarrow> 'a word \<Rightarrow> nat \<Rightarrow> 'a word" where
  "setBitValue share value bitIndex = clrBit share bitIndex OR push_bit bitIndex value"

definition setBitMask :: "'a::len word \<Rightarrow> bool \<Rightarrow> 'a word \<Rightarrow> 'a word" where
  "setBitMask share value m = (share AND NOT m) OR ((- of_bool value) AND m)"

fun bit_width :: "nat \<Rightarrow> nat" where
  "bit_width x = (if x = 0 then 0 else Suc (bit_width (x div 2)))"

section \<open>Bit-level behaviour\<close>

lemma getBit_of_bool [simp]: "getBit x i = of_bool (bit x i)"
  by (rule bit_word_eqI) (auto simp: getBit_def bit_simps)

lemma bit_of_bool_word [simp]: "bit (of_bool b :: 'a::len word) i = (b \<and> i = 0)"
  by (auto simp: bit_simps)

lemma bit_clrBit: "bit (clrBit x i) j = (bit x j \<and> j \<noteq> i)"
  by (auto simp: clrBit_def bit_simps dest: bit_imp_le_length)

lemma bit_setBitValue:
  "bit (setBitValue x (of_bool b) i :: 'a::len word) j =
     (if j = i then b \<and> i < LENGTH('a) else bit x j)"
  by (auto simp: setBitValue_def bit_clrBit bit_simps dest: bit_imp_le_length)

lemma setBit_eq_setBitValue: "setBit x v i = setBitValue x v i"
  by (simp add: setBit_def setBitValue_def clrBit_def)

lemma setBitMask_cases: "setBitMask x v m = (if v then x OR m else x AND NOT m)"
  by (rule bit_word_eqI) (auto simp: setBitMask_def bit_simps)

lemma div_ceil_bounds:
  assumes "0 < y"
  shows "x \<le> div_ceil x y * y" and "div_ceil x y * y < x + y"
proof -
  have e: "div_ceil x y * y = (x + y - 1) - (x + y - 1) mod y"
    unfolding div_ceil_def by (simp add: minus_mod_eq_div_mult)
  have "(x + y - 1) mod y < y" using assms by simp
  with assms show "x \<le> div_ceil x y * y" and "div_ceil x y * y < x + y"
    unfolding e by linarith+
qed

lemma div_ceil_less_iff: "0 < y \<Longrightarrow> i < div_ceil x y \<longleftrightarrow> i * y < x"
proof -
  assume y: "0 < y"
  show ?thesis
  proof
    assume "i < div_ceil x y"
    then have "Suc i * y \<le> div_ceil x y * y" by (intro mult_right_mono) auto
    with div_ceil_bounds(2) [OF y, of x] show "i * y < x" by simp
  next
    assume "i * y < x"
    with div_ceil_bounds(1) [OF y, of x] have "i * y < div_ceil x y * y" by linarith
    then show "i < div_ceil x y" by simp
  qed
qed

lemma div_ceil_div: "0 < w \<Longrightarrow> div_ceil m w = m div w + (if m mod w > 0 then 1 else 0)"
proof -
  assume w: "0 < w"
  have "m + w - 1 = (m mod w + w - 1) + m div w * w"
    using div_mult_mod_eq [of m w] w by linarith
  then have "div_ceil m w = m div w + (m mod w + w - 1) div w"
    unfolding div_ceil_def using w by (simp only: div_mult_self1)
  moreover have "(m mod w + w - 1) div w = (if m mod w > 0 then 1 else 0)"
  proof (cases "m mod w > 0")
    case True
    then have "(m mod w + w - 1) div w = Suc 0"
      using w mod_less_divisor [OF w, of m] by (intro div_nat_eqI) auto
    with True show ?thesis by simp
  qed (use w in simp)
  ultimately show ?thesis by simp
qed

declare bit_width.simps [simp del]

lemma bit_width_bound: "x < 2 ^ bit_width x"
proof (induction x rule: bit_width.induct)
  case (1 x)
  show ?case
  proof (cases "x = 0")
    case False
    with 1 have "x div 2 < 2 ^ bit_width (x div 2)" by simp
    with False show ?thesis by (subst bit_width.simps) simp
  qed (simp add: bit_width.simps)
qed

lemma bit_width_least: "x < 2 ^ n \<Longrightarrow> bit_width x \<le> n"
proof (induction x arbitrary: n rule: bit_width.induct)
  case (1 x)
  show ?case
  proof (cases "x = 0")
    case False
    with "1.prems" obtain n' where n: "n = Suc n'" by (cases n) auto
    with "1.prems" have "x div 2 < 2 ^ n'" by simp
    with "1.IH" False have "bit_width (x div 2) \<le> n'" by simp
    with False n show ?thesis by (subst bit_width.simps) simp
  qed (simp add: bit_width.simps)
qed

end
