(* ===== verification/Randomness.thy ===== *)
theory Randomness
  imports Bit_Primitives
begin

text \<open>
  Shared randomness (\<open>core/random\<close>).  A pseudorandom generator is a seed and a nonce; its block
  function (libsodium's AES-256-GCM over an all-zero message) is the parameter \<open>aes\<close> of every
  definition, and the only thing assumed of it is that it fills the requested number of bytes.
  \<open>fillBytes\<close> and \<open>getNextBuffered\<close> split a request into batches and advance the nonce once per
  batch.  A \<open>CommonPRGManager\<close> holds one party's generators: the objects themselves are the
  store, addressed by the place that created them, and the tables by relative rank and by
  group hold pointers, so that the two-party setup can register one object twice.
\<close>

section \<open>Generators (\<open>prg_algorithm.h\<close>)\<close>

type_synonym 's cipher = "'s \<Rightarrow> 64 word \<Rightarrow> nat \<Rightarrow> 8 word list"

record 's prg =
  seed :: 's
  nonce :: "64 word"

definition MAX_AES_QUERY_BYTES :: nat where
  "MAX_AES_QUERY_BYTES = 2 ^ 20"

definition aesGenerateValues :: "'s cipher \<Rightarrow> nat \<Rightarrow> 's prg \<Rightarrow> 8 word list \<times> 's prg" where
  "aesGenerateValues aes len g = (aes (seed g) (nonce g) len, g\<lparr>nonce := nonce g + 1\<rparr>)"

definition incrementNonce :: "'s prg \<Rightarrow> 's prg" where
  "incrementNonce g = g\<lparr>nonce := nonce g + 1\<rparr>"

primrec fillBytes_loop :: "'s cipher \<Rightarrow> nat \<Rightarrow> nat \<Rightarrow> 's prg \<Rightarrow> 8 word list \<times> 's prg" where
  "fillBytes_loop aes 0 bytes_remaining g = ([], g)"
| "fillBytes_loop aes (Suc batches) bytes_remaining g =
     (let batch_bytes = min bytes_remaining MAX_AES_QUERY_BYTES;
          (dest, g) = aesGenerateValues aes batch_bytes g;
          (rest, g) = fillBytes_loop aes batches (bytes_remaining - batch_bytes) g
      in (dest @ rest, g))"

definition fillBytes :: "'s cipher \<Rightarrow> nat \<Rightarrow> 's prg \<Rightarrow> 8 word list \<times> 's prg" where
  "fillBytes aes bytes g =
     fillBytes_loop aes
       (bytes div MAX_AES_QUERY_BYTES + (if bytes mod MAX_AES_QUERY_BYTES \<noteq> 0 then 1 else 0)) bytes g"

definition sizeof :: "'a::len itself \<Rightarrow> nat" where
  "sizeof _ = (LENGTH('a) + 7) div 8"

text \<open>An element is copied out of the byte buffer in little-endian order.\<close>

fun of_bytes :: "8 word list \<Rightarrow> 'a::len word" where
  "of_bytes [] = 0"
| "of_bytes (b # bs) = ucast b OR push_bit 8 (of_bytes bs)"

definition max_elements_in_buffer :: "'a::len itself \<Rightarrow> nat" where
  "max_elements_in_buffer t = MAX_AES_QUERY_BYTES div sizeof t"

function getNextBuffered :: "'s cipher \<Rightarrow> nat \<Rightarrow> 's prg \<Rightarrow> 'a::len vec \<times> 's prg" where
  "getNextBuffered aes elements_remaining g =
     (if elements_remaining = 0 \<or> max_elements_in_buffer TYPE('a) = 0 then ([], g)
      else
        let elements_this_batch = min (max_elements_in_buffer TYPE('a)) elements_remaining;
            (buffer, g) = fillBytes aes (elements_this_batch * sizeof TYPE('a)) g;
            nums = map (\<lambda>i. of_bytes (take (sizeof TYPE('a)) (drop (i * sizeof TYPE('a)) buffer)))
                     [0..<elements_this_batch];
            (rest, g) = getNextBuffered aes (elements_remaining - elements_this_batch) g
        in (nums @ rest, g))"
  by pat_completeness auto
termination
  by (relation "measure (\<lambda>(aes, r, g). r)") auto

declare getNextBuffered.simps [simp del]

definition getNext :: "'s cipher \<Rightarrow> nat \<Rightarrow> 's prg \<Rightarrow> ('a::len vec \<times> 's prg) option" where
  "getNext aes size_n g =
     (if sizeof TYPE('a) \<le> MAX_AES_QUERY_BYTES then Some (getNextBuffered aes size_n g) else None)"

section \<open>One party's generators (\<open>common_prg.h\<close>)\<close>

datatype prg_obj = LocalPRG | RelPRG nat | GroupPRG "nat list"

record 's manager =
  num_parties :: nat
  rank :: nat
  store :: "prg_obj \<Rightarrow> 's prg"
  common_prgs :: "prg_obj option list"
  common_prg_group_map :: "nat list \<Rightarrow> prg_obj option"

definition manager_new :: "nat \<Rightarrow> nat \<Rightarrow> 's \<Rightarrow> 's manager" where
  "manager_new n r key =
     \<lparr>num_parties = n, rank = r, store = (\<lambda>_. \<lparr>seed = key, nonce = 0\<rparr>),
      common_prgs = (replicate n None)[0 := Some LocalPRG], common_prg_group_map = (\<lambda>_. None)\<rparr>"

definition rel_index :: "nat \<Rightarrow> int \<Rightarrow> nat" where
  "rel_index n relative_rank = nat ((int n + relative_rank) mod int n)"

definition add_rel :: "prg_obj \<Rightarrow> int \<Rightarrow> 's manager \<Rightarrow> 's manager" where
  "add_rel obj relative_rank m =
     m\<lparr>common_prgs := (common_prgs m)[rel_index (num_parties m) relative_rank := Some obj]\<rparr>"

definition add_group :: "prg_obj \<Rightarrow> nat list \<Rightarrow> 's manager \<Rightarrow> 's manager" where
  "add_group obj grp m =
     (case common_prg_group_map m grp of
        Some _ \<Rightarrow> m
      | None \<Rightarrow> m\<lparr>common_prg_group_map := (common_prg_group_map m)(grp := Some obj)\<rparr>)"

definition get_rel :: "'s manager \<Rightarrow> int \<Rightarrow> prg_obj option" where
  "get_rel m relative_rank = common_prgs m ! rel_index (num_parties m) relative_rank"

definition get_group :: "'s manager \<Rightarrow> nat list \<Rightarrow> prg_obj option" where
  "get_group m grp = (if grp = [] then common_prgs m ! 0 else common_prg_group_map m grp)"

definition draw :: "'s cipher \<Rightarrow> prg_obj option \<Rightarrow> nat \<Rightarrow> 's manager \<Rightarrow> ('a::len vec \<times> 's manager) option" where
  "draw aes ptr size_n m = do {
     obj \<leftarrow> ptr;
     (nums, g) \<leftarrow> getNext aes size_n (store m obj);
     Some (nums, m\<lparr>store := (store m)(obj := g)\<rparr>)
   }"

section \<open>Zero sharings (\<open>zero_sharing_generator.h\<close>)\<close>

definition arithmeticFlip :: "'s manager \<Rightarrow> bool" where
  "arithmeticFlip m = (num_parties m = 2 \<and> rank m = 0)"

definition returnPlaintextZero :: "'s manager \<Rightarrow> bool" where
  "returnPlaintextZero m = (num_parties m = 1)"

definition getNextArithmetic :: "'s cipher \<Rightarrow> nat \<Rightarrow> 's manager \<Rightarrow> ('a::len vec \<times> 's manager) option" where
  "getNextArithmetic aes size_n m =
     (if returnPlaintextZero m then Some (replicate size_n 0, m)
      else do {
        (nums, m) \<leftarrow> draw aes (get_rel m (- 1)) size_n m;
        (next, m) \<leftarrow> draw aes (get_rel m 1) size_n m;
        m \<leftarrow> (if num_parties m = 4
               then do {
                 obj \<leftarrow> get_rel m 2;
                 Some (m\<lparr>store := (store m)(obj := incrementNonce (store m obj))\<rparr>)
               }
               else Some m);
        let nums = map2 (-) nums next;
        let nums = (if arithmeticFlip m then map uminus nums else nums);
        Some (nums, m)
      })"

definition getNextBinary :: "'s cipher \<Rightarrow> nat \<Rightarrow> 's manager \<Rightarrow> ('a::len vec \<times> 's manager) option" where
  "getNextBinary aes size_n m =
     (if returnPlaintextZero m then Some (replicate size_n 0, m)
      else do {
        (prev, m) \<leftarrow> draw aes (get_rel m (- 1)) size_n m;
        (next, m) \<leftarrow> draw aes (get_rel m 1) size_n m;
        Some (map2 (XOR) prev next, m)
      })"

text \<open>
  The single-element versions.  The arithmetic one draws both numbers and never combines them:
  the result is the caller's old value, negated by party 0 of two.
\<close>

definition draw1 :: "'s cipher \<Rightarrow> prg_obj option \<Rightarrow> 's manager \<Rightarrow> ('a::len word \<times> 's manager) option" where
  "draw1 aes ptr m = do {
     obj \<leftarrow> ptr;
     let (buf, g) = fillBytes aes (sizeof TYPE('a)) (store m obj);
     Some (of_bytes buf, m\<lparr>store := (store m)(obj := g)\<rparr>)
   }"

definition getNextArithmetic1 :: "'s cipher \<Rightarrow> 'a::len word \<Rightarrow> 's manager \<Rightarrow> ('a word \<times> 's manager) option" where
  "getNextArithmetic1 aes num m =
     (if returnPlaintextZero m then Some (0, m)
      else do {
        (prev :: 'a word, m) \<leftarrow> draw1 aes (get_rel m (- 1)) m;
        (next :: 'a word, m) \<leftarrow> draw1 aes (get_rel m 1) m;
        Some (if arithmeticFlip m then - num else num, m)
      })"

definition getNextBinary1 :: "'s cipher \<Rightarrow> 'a::len word \<Rightarrow> 's manager \<Rightarrow> ('a word \<times> 's manager) option" where
  "getNextBinary1 aes num m =
     (if returnPlaintextZero m then Some (0, m)
      else do {
        (prev, m) \<leftarrow> draw1 aes (get_rel m (- 1)) m;
        (next, m) \<leftarrow> draw1 aes (get_rel m 1) m;
        Some (prev XOR next, m)
      })"

text \<open>Group zero sharings: all vectors but the last are drawn, the last one balances them.\<close>

primrec group_loop ::
  "'s cipher \<Rightarrow> ('a::len word \<Rightarrow> 'a word \<Rightarrow> 'a word) \<Rightarrow> prg_obj option \<Rightarrow> nat \<Rightarrow> nat \<Rightarrow> 'a vec \<Rightarrow> 's manager
    \<Rightarrow> ('a vec list \<times> 's manager) option" where
  "group_loop aes f ptr size_n 0 last_v m = Some ([last_v], m)"
| "group_loop aes f ptr size_n (Suc i) last_v m = do {
     (v, m) \<leftarrow> draw aes ptr size_n m;
     (vs, m) \<leftarrow> group_loop aes f ptr size_n i (map2 f last_v v) m;
     Some (v # vs, m)
   }"

definition groupGetNextArithmetic ::
  "'s cipher \<Rightarrow> nat \<Rightarrow> nat \<Rightarrow> nat list \<Rightarrow> 's manager \<Rightarrow> ('a::len vec list \<times> 's manager) option" where
  "groupGetNextArithmetic aes nums_size size_n grp m =
     (if nums_size = 0 then None
      else group_loop aes (-) (get_group m grp) size_n (nums_size - 1) (replicate size_n 0) m)"

definition groupGetNextBinary ::
  "'s cipher \<Rightarrow> nat \<Rightarrow> nat \<Rightarrow> nat list \<Rightarrow> 's manager \<Rightarrow> ('a::len vec list \<times> 's manager) option" where
  "groupGetNextBinary aes nums_size size_n grp m =
     (if nums_size = 0 then None
      else group_loop aes (XOR) (get_group m grp) size_n (nums_size - 1) (replicate size_n 0) m)"

section \<open>Lengths and nonces\<close>

definition cipher_ok :: "'a::len itself \<Rightarrow> 's cipher \<Rightarrow> bool" where
  "cipher_ok t aes \<longleftrightarrow>
     sizeof t \<le> MAX_AES_QUERY_BYTES \<and> (\<forall>s c len. length (aes s c len) = len)"

definition rnd :: "'s cipher \<Rightarrow> nat \<Rightarrow> 's prg \<Rightarrow> 'a::len vec" where
  "rnd aes size_n g = fst (getNextBuffered aes size_n g)"

definition adv :: "'a::len itself \<Rightarrow> 's cipher \<Rightarrow> nat \<Rightarrow> 's prg \<Rightarrow> 's prg" where
  "adv _ aes size_n g = snd (getNextBuffered aes size_n g :: 'a vec \<times> 's prg)"

lemma sizeof_pos [simp]: "0 < sizeof (t :: 'a::len itself)"
proof -
  have "8 \<le> LENGTH('a) + 7" using len_gt_0 [where 'a = 'a] by linarith
  then show ?thesis by (simp add: sizeof_def div_greater_zero_iff)
qed

lemma max_elements_pos: "sizeof t \<le> MAX_AES_QUERY_BYTES \<Longrightarrow> 0 < max_elements_in_buffer t"
  by (simp add: max_elements_in_buffer_def div_greater_zero_iff)

lemma seed_aesGenerateValues [simp]: "seed (snd (aesGenerateValues aes len g)) = seed g"
  by (simp add: aesGenerateValues_def)

lemma fillBytes_small:
  "0 < bytes \<Longrightarrow> bytes \<le> MAX_AES_QUERY_BYTES \<Longrightarrow>
   fillBytes aes bytes g = (aes (seed g) (nonce g) bytes, g\<lparr>nonce := nonce g + 1\<rparr>)"
  by (cases "bytes = MAX_AES_QUERY_BYTES")
    (auto simp: fillBytes_def aesGenerateValues_def MAX_AES_QUERY_BYTES_def)

lemma batch_fits:
  "n \<le> max_elements_in_buffer t \<Longrightarrow> n * sizeof t \<le> MAX_AES_QUERY_BYTES"
  unfolding max_elements_in_buffer_def
  by (metis div_times_less_eq_dividend mult_le_mono1 order_trans)

lemma getNextBuffered_facts:
  fixes nums :: "'a::len vec"
  assumes "sizeof TYPE('a) \<le> MAX_AES_QUERY_BYTES" and "getNextBuffered aes n g = (nums, g')"
  shows "length nums = n \<and> seed g' = seed g \<and>
    nonce g' = nonce g + of_nat (div_ceil n (max_elements_in_buffer TYPE('a)))"
  using assms(2)
proof (induction n arbitrary: g nums g' rule: less_induct)
  case (less n)
  let ?M = "max_elements_in_buffer TYPE('a)"
  have M: "0 < ?M" using assms(1) by (rule max_elements_pos)
  show ?case
  proof (cases "n = 0")
    case True
    then show ?thesis using less.prems M
      by (subst (asm) getNextBuffered.simps) (auto simp: div_ceil_def)
  next
    case False
    let ?b = "min ?M n"
    have b: "0 < ?b" "?b \<le> n" "?b * sizeof TYPE('a) \<le> MAX_AES_QUERY_BYTES"
      using False M batch_fits [of ?b "TYPE('a)"] by simp_all
    let ?g = "g\<lparr>nonce := nonce g + 1\<rparr>"
    have fb: "fillBytes aes (?b * sizeof TYPE('a)) g = (aes (seed g) (nonce g) (?b * sizeof TYPE('a)), ?g)"
      using b by (intro fillBytes_small) simp_all
    obtain rest h where r: "getNextBuffered aes (n - ?b) ?g = (rest :: 'a vec, h)" by fastforce
    have lt: "n - ?b < n" using b by simp
    note IH = less.IH [OF lt r]
    have eq: "length nums = ?b + length rest" "g' = h"
      using less.prems False M fb r
      by (auto simp: getNextBuffered.simps [of aes n g] Let_def simp del: upt_Suc)
    have "div_ceil n ?M = Suc (div_ceil (n - ?b) ?M)"
    proof (cases "n \<le> ?M")
      case True
      then have "div_ceil n ?M = 1"
        using False M by (simp add: div_ceil_def div_nat_eqI)
      then show ?thesis using True M by (simp add: div_ceil_def)
    next
      case False
      then have "(n + ?M - 1) div ?M = Suc ((n - ?M + ?M - 1) div ?M)"
        using M by (subst le_div_geq) simp_all
      then show ?thesis using False by (simp add: div_ceil_def)
    qed
    then show ?thesis using IH eq b by (simp add: algebra_simps)
  qed
qed

lemma length_rnd [simp]: "cipher_ok TYPE('a::len) aes \<Longrightarrow> length (rnd aes n g :: 'a vec) = n"
  using getNextBuffered_facts [of aes n g] unfolding rnd_def cipher_ok_def
  by (metis prod.collapse)

lemma seed_adv [simp]: "cipher_ok TYPE('a::len) aes \<Longrightarrow> seed (adv TYPE('a) aes n g) = seed g"
  using getNextBuffered_facts [of aes n g] unfolding adv_def cipher_ok_def
  by (metis prod.collapse)

lemma nonce_adv:
  "cipher_ok TYPE('a::len) aes \<Longrightarrow> nonce (adv TYPE('a) aes n g)
     = nonce g + of_nat (div_ceil n (max_elements_in_buffer TYPE('a)))"
  using getNextBuffered_facts [of aes n g] unfolding adv_def cipher_ok_def
  by (metis prod.collapse)

lemma draw_Some:
  assumes "cipher_ok TYPE('a::len) aes"
  shows "draw aes (Some obj) n m =
    Some (rnd aes n (store m obj) :: 'a vec, m\<lparr>store := (store m)(obj := adv TYPE('a) aes n (store m obj))\<rparr>)"
  using assms by (simp add: draw_def getNext_def rnd_def adv_def cipher_ok_def case_prod_beta)

lemma draw_None [simp]: "draw aes None n m = None"
  by (simp add: draw_def)

lemma group_loop_sum:
  assumes "cipher_ok TYPE('a::len) aes"
  shows "\<exists>vs m'. group_loop aes f (Some obj) n i (v :: 'a vec) m = Some (vs, m') \<and> length vs = Suc i \<and>
    (length v = n \<longrightarrow> (\<forall>u \<in> set vs. length u = n)) \<and>
    last vs = foldl (map2 f) v (butlast vs)"
proof (induction i arbitrary: v m)
  case (Suc i)
  let ?r = "rnd aes n (store m obj) :: 'a vec"
  from Suc [of "map2 f v ?r" "m\<lparr>store := (store m)(obj := adv TYPE('a) aes n (store m obj))\<rparr>"]
  show ?case using assms by (fastforce simp: draw_Some)
qed simp

end
