(* ===== verification/Communication.thy ===== *)
theory Communication
  imports Randomness "HOL-Library.Signed_Division"
begin

text \<open>
  The state all parties of a protocol run share in this development (\<open>world\<close>): every party's
  randomness manager, one first-in-first-out channel per ordered pair of parties and every
  party's count of sent bytes.  \<open>sendShares\<close>, \<open>receiveShares\<close> and \<open>exchangeShares\<close> follow
  \<open>core/communication/mpi_communicator.h\<close>: ranks are relative to the calling party, a message
  longer than the receive buffer is an error, a shorter one fills a prefix, and receiving from
  an empty channel blocks for ever (\<open>None\<close>).
\<close>

section \<open>Channels\<close>

record (overloaded) ('a, 's) world =
  mgrs :: "'s manager list"
  chan :: "nat \<Rightarrow> nat \<Rightarrow> 'a::len vec list"
  bytes_sent :: "nat \<Rightarrow> nat"

text \<open>The \<open>%\<close> of the source truncates: for a sum below zero that the number of parties does not divide the rank is
  negative, which no MPI process has.  \<open>valid_rank\<close> says that this does not happen; an exchange or a receive
  with an invalid rank is an error.  The protocols send to relative ranks above \<open>- numParties\<close> only, all valid.\<close>

definition rank_of :: "nat \<Rightarrow> nat \<Rightarrow> int \<Rightarrow> int" where
  "rank_of numParties currentId rel = (int numParties + rel + int currentId) smod int numParties"

definition valid_rank :: "nat \<Rightarrow> nat \<Rightarrow> int \<Rightarrow> bool" where
  "valid_rank numParties currentId rel \<longleftrightarrow> 0 \<le> rank_of numParties currentId rel"

definition abs_rank :: "nat \<Rightarrow> nat \<Rightarrow> int \<Rightarrow> nat" where
  "abs_rank numParties currentId rel = nat (rank_of numParties currentId rel)"

definition sendShares ::
  "nat \<Rightarrow> nat \<Rightarrow> 'a::len vec \<Rightarrow> int \<Rightarrow> ('a, 's) world \<Rightarrow> ('a, 's) world" where
  "sendShares n p v rel w =
     (let to_ind = abs_rank n p rel
      in w\<lparr>bytes_sent := (bytes_sent w)(p := bytes_sent w p + sizeof TYPE('a) * length v),
           chan := (chan w)(p := (chan w p)(to_ind := chan w p to_ind @ [v]))\<rparr>)"

definition receiveShares ::
  "nat \<Rightarrow> nat \<Rightarrow> 'a::len vec \<Rightarrow> int \<Rightarrow> ('a, 's) world \<Rightarrow> ('a vec \<times> ('a, 's) world) option" where
  "receiveShares n p buf rel w =
     (let from_ind = abs_rank n p rel in
      if \<not> valid_rank n p rel then None
      else case chan w from_ind p of
        [] \<Rightarrow> None
      | v # vs \<Rightarrow>
          if length v \<le> length buf
          then Some (v @ drop (length v) buf, w\<lparr>chan := (chan w)(from_ind := (chan w from_ind)(p := vs))\<rparr>)
          else None)"

text \<open>One call of \<open>exchangeShares\<close> at every party: all sends are posted, then all receives complete.\<close>

primrec send_all :: "nat \<Rightarrow> int \<Rightarrow> nat \<Rightarrow> 'a::len vec list \<Rightarrow> ('a, 's) world \<Rightarrow> ('a, 's) world" where
  "send_all n rel p [] w = w"
| "send_all n rel p (v # vs) w = send_all n rel (Suc p) vs (sendShares n p v rel w)"

primrec recv_all ::
  "nat \<Rightarrow> int \<Rightarrow> nat \<Rightarrow> 'a::len vec list \<Rightarrow> ('a, 's) world \<Rightarrow> ('a vec list \<times> ('a, 's) world) option" where
  "recv_all n rel p [] w = Some ([], w)"
| "recv_all n rel p (b # bs) w = do {
     (r, w) \<leftarrow> receiveShares n p b rel w;
     (rs, w) \<leftarrow> recv_all n rel (Suc p) bs w;
     Some (r # rs, w)
   }"

definition exchangeShares ::
  "nat \<Rightarrow> 'a::len vec list \<Rightarrow> 'a vec list \<Rightarrow> int \<Rightarrow> int \<Rightarrow> ('a, 's) world \<Rightarrow> ('a vec list \<times> ('a, 's) world) option" where
  "exchangeShares n sent received to_id from_id w =
     (if list_all2 (\<lambda>s r. length s \<le> length r) sent received \<and>
        (\<forall>p \<in> set [0..<n]. valid_rank n p to_id \<and> valid_rank n p from_id)
      then recv_all n from_id 0 received (send_all n to_id 0 sent w)
      else None)"

section \<open>A matched exchange rotates the vectors\<close>

definition quiet :: "('a::len, 's) world \<Rightarrow> bool" where
  "quiet w \<longleftrightarrow> chan w = (\<lambda>_ _. [])"

definition tally :: "nat \<Rightarrow> nat \<Rightarrow> ('a::len, 's) world \<Rightarrow> ('a, 's) world" where
  "tally n m w = w\<lparr>bytes_sent := (\<lambda>p. bytes_sent w p + (if p < n then sizeof TYPE('a) * m else 0))\<rparr>"

lemma abs_rank_less [simp]: "0 < n \<Longrightarrow> abs_rank n p r < n"
proof -
  assume "0 < n"
  then have "(int n + r + int p) smod int n < int n" using smod_int_range [of "int n" "int n + r + int p"] by simp
  then show ?thesis using \<open>0 < n\<close> by (simp add: abs_rank_def rank_of_def nat_less_iff)
qed

lemma valid_rank_geq: "- int n \<le> rel \<Longrightarrow> valid_rank n p rel"
  by (cases "n = 0") (simp_all add: valid_rank_def rank_of_def smod_mod_positive)

lemma valid_rank_to [simp]: "valid_rank n p (int q - int p)"
  by (cases "n = 0") (simp_all add: valid_rank_def rank_of_def smod_mod_positive)

text \<open>On valid ranks the truncated and the floored remainder agree.\<close>

lemma abs_rank_mod:
  assumes "valid_rank n p rel"
  shows "abs_rank n p rel = nat ((int n + rel + int p) mod int n)"
proof (cases "0 \<le> int n + rel + int p")
  case True
  then show ?thesis by (simp add: abs_rank_def rank_of_def smod_mod_positive)
next
  case False
  then have "(int n + rel + int p) smod int n = 0"
    using assms smod_int_compares(4) [of "int n + rel + int p" "int n"]
    by (cases "n = 0") (simp_all add: valid_rank_def rank_of_def)
  then have "int n dvd int n + rel + int p" by (simp add: smod_int_alt_def dvd_eq_mod_eq_0 [symmetric] split: if_splits) (use False in simp)
  then show ?thesis using \<open>_ smod _ = 0\<close> by (simp add: abs_rank_def rank_of_def)
qed

lemmas rank_simps = valid_rank_geq abs_rank_mod

lemma abs_rank_inverse:
  assumes "p < n" and "int n dvd to_id + from_id" and "- int n \<le> to_id" and "- int n \<le> from_id"
  shows "abs_rank n (abs_rank n p from_id) to_id = p"
proof -
  have "int (abs_rank n p from_id) = (int n + from_id + int p) mod int n"
    using assms(1,4) by (simp add: rank_simps)
  then have "int (abs_rank n (abs_rank n p from_id) to_id)
      = (int n + to_id + (int n + from_id + int p) mod int n) mod int n"
    using assms(1,3) by (simp add: rank_simps)
  also have "\<dots> = (int n + to_id + (int n + from_id + int p)) mod int n"
    by (rule mod_add_right_eq)
  also have "int n + to_id + (int n + from_id + int p) = int p + ((to_id + from_id) + 2 * int n)"
    by simp
  also have "(int p + ((to_id + from_id) + 2 * int n)) mod int n = int p mod int n"
    using assms(2) by (auto elim!: dvdE simp flip: distrib_left mult.commute [of "int n"])
  also have "\<dots> = int p" using assms(1) by simp
  finally show ?thesis by simp
qed

lemma sendShares_simps [simp]:
  fixes v :: "'a::len vec"
  shows "mgrs (sendShares n p v r w) = mgrs w"
    and "bytes_sent (sendShares n p v r w) a = bytes_sent w a + (if a = p then sizeof TYPE('a) * length v else 0)"
    and "chan (sendShares n p v r w) a b = (if a = p \<and> b = abs_rank n p r then chan w a b @ [v] else chan w a b)"
  by (simp_all add: sendShares_def Let_def)

lemma mgrs_send_all [simp]: "mgrs (send_all n r p vs w) = mgrs w"
  by (induction vs arbitrary: p w) simp_all

lemma bytes_send_all:
  fixes vs :: "'a::len vec list"
  assumes "\<forall>v \<in> set vs. length v = m"
  shows "bytes_sent (send_all n r p vs w) a =
      bytes_sent w a + (if p \<le> a \<and> a < p + length vs then sizeof TYPE('a) * m else 0)"
  using assms by (induction vs arbitrary: p w) auto

lemma chan_send_all:
  assumes "\<And>a b. p \<le> a \<Longrightarrow> chan w a b = []"
  shows "chan (send_all n r p vs w) a b =
      (if p \<le> a \<and> a < p + length vs \<and> b = abs_rank n a r then [vs ! (a - p)] else chan w a b)"
  using assms
proof (induction vs arbitrary: p w)
  case (Cons v vs)
  have e: "\<And>a b. Suc p \<le> a \<Longrightarrow> chan (sendShares n p v r w) a b = []"
    using Cons.prems by simp
  consider "a = p" | "Suc p \<le> a" | "a < p" by linarith
  then show ?case
  proof cases
    case 1
    then show ?thesis using Cons.IH [of "Suc p", OF e] Cons.prems [of p b] by auto
  next
    case 2
    then have "a - p = Suc (a - Suc p)" by simp
    then show ?thesis using 2 Cons.IH [of "Suc p", OF e] by auto
  next
    case 3
    then show ?thesis using Cons.IH [of "Suc p", OF e] by auto
  qed
qed simp

lemma world_eqI:
  fixes w w' :: "('a::len, 's) world"
  assumes "mgrs w = mgrs w'" and "chan w = chan w'" and "bytes_sent w = bytes_sent w'"
  shows "w = w'"
  using assms by (cases w; cases w') simp

lemma recv_all_rotate:
  fixes sent bufs :: "'a::len vec list"
  assumes d: "int n dvd to_id + from_id" "- int n \<le> to_id" "- int n \<le> from_id" and "0 < n"
    and "\<And>a b. chan w a b = (if a < n \<and> b = abs_rank n a to_id \<and> p \<le> b then [sent ! a] else [])"
    and "length bufs = n - p" and "p \<le> n" and "length sent = n"
    and "\<forall>v \<in> set sent. length v = m" and "\<forall>v \<in> set bufs. length v = m"
  shows "recv_all n from_id p bufs w =
     Some (map (\<lambda>q. sent ! abs_rank n q from_id) [p..<n], w\<lparr>chan := (\<lambda>_ _. [])\<rparr>)"
  using assms(5-)
proof (induction bufs arbitrary: p w)
  case Nil
  then have "p = n" by simp
  have "chan w = (\<lambda>_ _. [])"
    using Nil.prems(1) assms(4) \<open>p = n\<close> by (auto simp: fun_eq_iff dest: abs_rank_less leD)
  then have "w\<lparr>chan := (\<lambda>_ _. [])\<rparr> = w" by (cases w) simp
  with \<open>p = n\<close> show ?case by simp
next
  case (Cons b bs)
  then have p: "p < n" by simp
  let ?q = "abs_rank n p from_id"
  have q: "?q < n" "abs_rank n ?q to_id = p" using assms(4) abs_rank_inverse [OF p d] by simp_all
  have ch: "chan w ?q p = [sent ! ?q]" using Cons.prems(1) q by simp
  let ?w = "w\<lparr>chan := (chan w)(?q := (chan w ?q)(p := []))\<rparr>"
  have "length (sent ! ?q) = length b" using Cons.prems(4,5,6) q by simp
  then have r: "receiveShares n p b from_id w = Some (sent ! ?q, ?w)"
    using ch valid_rank_geq [OF d(3)] by (simp add: receiveShares_def Let_def)
  have inj: "a = ?q" if "a < n" "abs_rank n a to_id = p" for a
    using abs_rank_inverse [OF that(1), of from_id to_id] d that(2) by (simp add: add.commute)
  have c: "chan ?w a b = (if a < n \<and> b = abs_rank n a to_id \<and> Suc p \<le> b then [sent ! a] else [])" for a b
  proof (cases "a = ?q \<and> b = p")
    case True
    then show ?thesis by simp
  next
    case False
    then have "chan ?w a b = (if a < n \<and> b = abs_rank n a to_id \<and> p \<le> b then [sent ! a] else [])"
      using Cons.prems(1) [of a b] by auto
    moreover have "a < n \<Longrightarrow> b = abs_rank n a to_id \<Longrightarrow> b \<noteq> p" using False inj [of a] by blast
    ultimately show ?thesis by (auto simp: Suc_le_eq le_less)
  qed
  have "recv_all n from_id (Suc p) bs ?w =
      Some (map (\<lambda>q. sent ! abs_rank n q from_id) [Suc p..<n], ?w\<lparr>chan := (\<lambda>_ _. [])\<rparr>)"
    by (rule Cons.IH [OF c]) (use Cons.prems p in auto)
  then show ?case using r p by (simp add: upt_conv_Cons)
qed

lemma exchange_rotate:
  fixes sent bufs :: "'a::len vec list" and w :: "('a, 's) world"
  assumes "int n dvd to_id + from_id" and "- int n \<le> to_id" and "- int n \<le> from_id" and "0 < n" and q: "quiet w"
    and "length sent = n" and "length bufs = n"
    and "\<forall>v \<in> set sent. length v = m" and "\<forall>v \<in> set bufs. length v = m"
  shows "exchangeShares n sent bufs to_id from_id w =
     Some (map (\<lambda>p. sent ! abs_rank n p from_id) [0..<n], tally n m w)"
proof -
  let ?w = "send_all n to_id 0 sent w"
  have none: "chan w a b = []" for a b using q by (simp add: quiet_def)
  have c: "chan ?w a b = (if a < n \<and> b = abs_rank n a to_id \<and> 0 \<le> b then [sent ! a] else [])" for a b
    using chan_send_all [of 0 w n to_id sent a b] none assms(6) by simp
  have r: "recv_all n from_id 0 bufs ?w =
      Some (map (\<lambda>p. sent ! abs_rank n p from_id) [0..<n], ?w\<lparr>chan := (\<lambda>_ _. [])\<rparr>)"
    by (rule recv_all_rotate [OF assms(1-4) c, where m = m]) (use assms in simp_all)
  have b: "bytes_sent ?w = (\<lambda>p. bytes_sent w p + (if p < n then sizeof TYPE('a) * m else 0))"
    using assms(6) by (simp add: fun_eq_iff bytes_send_all [OF assms(8)])
  have "?w\<lparr>chan := (\<lambda>_ _. [])\<rparr> = tally n m w"
    using b q by (intro world_eqI) (simp_all add: tally_def quiet_def)
  moreover have "list_all2 (\<lambda>s r. length s \<le> length r) sent bufs"
    using assms(6-9) by (simp add: list_all2_conv_all_nth)
  ultimately show ?thesis using r assms(2,3) by (simp add: exchangeShares_def valid_rank_geq)
qed

lemma tally_simps [simp]:
  "mgrs (tally n m w) = mgrs w" "chan (tally n m w) = chan w" "quiet (tally n m w) = quiet w"
  by (simp_all add: tally_def quiet_def)

lemma bytes_tally_cong:
  fixes w w' :: "('a::len, 's) world"
  shows "bytes_sent w = bytes_sent w' \<Longrightarrow> bytes_sent (tally n m w) = bytes_sent (tally n m w')"
  by (simp add: tally_def)

lemma exchange_unmatched:
  fixes sent bufs :: "'a::len vec list" and w :: "('a, 's) world"
  assumes "\<not> int n dvd to_id + from_id" and "0 < n" and "quiet w" and "length sent = n" and "length bufs = n"
  shows "exchangeShares n sent bufs to_id from_id w = None"
proof (cases "\<forall>p < n. valid_rank n p to_id \<and> valid_rank n p from_id")
  case False
  then show ?thesis by (auto simp: exchangeShares_def)
next
  case True
  let ?a = "abs_rank n 0 from_id"
  have v: "valid_rank n 0 from_id" "valid_rank n ?a to_id" using True assms(2) by simp_all
  have "int (abs_rank n ?a to_id) = (int n + to_id + (int n + from_id) mod int n) mod int n"
    using assms(2) unfolding abs_rank_mod [OF v(2)] by (simp add: abs_rank_mod [OF v(1)])
  also have "\<dots> = (int n + to_id + (int n + from_id)) mod int n" by (rule mod_add_right_eq)
  also have "\<dots> = (to_id + from_id + 2 * int n) mod int n" by (simp add: algebra_simps)
  also have "\<dots> = (to_id + from_id) mod int n" by simp
  finally have "abs_rank n ?a to_id \<noteq> 0" using assms(1) by (auto simp: dvd_eq_mod_eq_0)
  then have "chan (send_all n to_id 0 sent w) ?a 0 = []"
    using chan_send_all [of 0 w n to_id sent ?a 0] assms(3) by (simp add: quiet_def)
  moreover obtain b bs where "bufs = b # bs" using assms(2,5) by (cases bufs) auto
  ultimately show ?thesis by (simp add: exchangeShares_def receiveShares_def Let_def)
qed

text \<open>Communication draws no randomness.\<close>

lemma mgrs_tally [simp]: "mgrs (tally n m w) = mgrs w"
  by (simp add: tally_def)

lemma receive_mgrs: "receiveShares n p buf r w = Some (v, w') \<Longrightarrow> mgrs w' = mgrs w"
  by (auto simp: receiveShares_def Let_def split: list.splits if_splits)

lemma recv_all_mgrs: "recv_all n r p bufs w = Some (vs, w') \<Longrightarrow> mgrs w' = mgrs w"
  by (induction bufs arbitrary: p w vs) (auto simp: bind_eq_Some_conv dest: receive_mgrs)

lemma exchange_mgrs: "exchangeShares n sent bufs t f w = Some (vs, w') \<Longrightarrow> mgrs w' = mgrs w"
  by (auto simp: exchangeShares_def dest: recv_all_mgrs split: if_splits)

end
