(* ===== verification/Setup.thy ===== *)
theory Setup
  imports Communication
begin

text \<open>
  Agreement on shared keys (\<open>backend/common/rand_setup.h\<close>).  All parties run the set-up together:
  the key bytes travel as \<open>int8_t\<close> vectors over the same channels as shares.  A key that
  \<open>aesKeyGen\<close> draws at a party is the parameter \<open>keygen\<close>, applied to the party and to the place of
  the call.  The theorems say that the set-up ends with no message in flight and that the holders of
  a generator agree on its state.
\<close>

section \<open>Group keys\<close>

datatype key_call = LocalKey | GroupKey "nat list" | PairKey

type_synonym key = "8 word list"

type_synonym keygen = "nat \<Rightarrow> key_call \<Rightarrow> key"

definition KEYBYTES :: nat where
  "KEYBYTES = 32"

definition new_prg :: "'s \<Rightarrow> 's prg" where
  "new_prg sd = \<lparr>seed = sd, nonce = 0\<rparr>"

text \<open>\<open>std::map::insert\<close> keeps the generator that is already registered for the group.\<close>

definition install_group :: "nat list \<Rightarrow> 's \<Rightarrow> 's manager \<Rightarrow> 's manager" where
  "install_group grp sd m =
     (case common_prg_group_map m grp of
        Some _ \<Rightarrow> m
      | None \<Rightarrow> add_group (GroupPRG grp) grp (m\<lparr>store := (store m)(GroupPRG grp := new_prg sd)\<rparr>))"

definition install_rel :: "nat \<Rightarrow> 's \<Rightarrow> 's manager \<Rightarrow> 's manager" where
  "install_rel relative_rank sd m =
     add_rel (RelPRG relative_rank) (int relative_rank)
       (m\<lparr>store := (store m)(RelPRG relative_rank := new_prg sd)\<rparr>)"

definition upd_mgr :: "nat \<Rightarrow> ('s manager \<Rightarrow> 's manager) \<Rightarrow> ('a::len, 's) world \<Rightarrow> ('a, 's) world" where
  "upd_mgr p f w = w\<lparr>mgrs := (mgrs w)[p := f (mgrs w ! p)]\<rparr>"

definition seed_exchange :: "nat \<Rightarrow> nat \<Rightarrow> nat \<Rightarrow> key \<Rightarrow> (8, key) world \<Rightarrow> (key \<times> (8, key) world) option" where
  "seed_exchange n lowest other sd w = do {
     let w = sendShares n lowest sd (int other - int lowest) w;
     let w = sendShares n other (replicate KEYBYTES 0) (int lowest - int other) w;
     (_, w) \<leftarrow> receiveShares n lowest (replicate KEYBYTES 0) (int other - int lowest) w;
     receiveShares n other (replicate KEYBYTES 0) (int lowest - int other) w
   }"

primrec seed_loop :: "nat \<Rightarrow> nat list \<Rightarrow> nat \<Rightarrow> key \<Rightarrow> nat list \<Rightarrow> (8, key) world \<Rightarrow> (8, key) world option" where
  "seed_loop n grp lowest sd [] w = Some w"
| "seed_loop n grp lowest sd (other # others) w = do {
     (remote, w) \<leftarrow> seed_exchange n lowest other sd w;
     seed_loop n grp lowest sd others (upd_mgr other (install_group grp remote) w)
   }"

definition create_common_prg_among_group ::
  "nat \<Rightarrow> keygen \<Rightarrow> nat list \<Rightarrow> (8, key) world \<Rightarrow> (8, key) world option" where
  "create_common_prg_among_group n keygen grp w =
     (case grp of
        [] \<Rightarrow> Some w
      | lowest # others \<Rightarrow> do {
          let sd = keygen lowest (GroupKey grp);
          w \<leftarrow> seed_loop n grp lowest sd others w;
          Some (upd_mgr lowest (install_group grp sd) w)
        })"

primrec create_groups :: "nat \<Rightarrow> keygen \<Rightarrow> nat list list \<Rightarrow> (8, key) world \<Rightarrow> (8, key) world option" where
  "create_groups n keygen [] w = Some w"
| "create_groups n keygen (g # gs) w = do {
     w \<leftarrow> create_common_prg_among_group n keygen g w;
     create_groups n keygen gs w
   }"

section \<open>Relative keys\<close>

definition setup_3pc_local :: "key \<Rightarrow> key \<Rightarrow> nat \<Rightarrow> key manager \<Rightarrow> key manager" where
  "setup_3pc_local local_key remote_key me m =
     foldl (\<lambda>m j. if j = me then m
                  else let relative_rank = (3 + j - me) mod 3
                       in install_rel relative_rank (if relative_rank = 1 then local_key else remote_key) m)
       m [0..<3]"

definition setup_3pc_common_prgs :: "keygen \<Rightarrow> (8, key) world \<Rightarrow> (8, key) world option" where
  "setup_3pc_common_prgs keygen w = do {
     let locals = map (\<lambda>p. keygen p PairKey) [0..<3];
     (remotes, w) \<leftarrow> exchangeShares 3 locals (replicate 3 (replicate KEYBYTES 0)) 1 (- 1) w;
     Some (foldl (\<lambda>w p. upd_mgr p (setup_3pc_local (locals ! p) (remotes ! p) p) w) w [0..<3])
   }"

definition setup_2pc_local :: "'s manager \<Rightarrow> 's manager option" where
  "setup_2pc_local m = do {
     common_prg \<leftarrow> get_group m [0, 1];
     Some (add_rel common_prg 1 m)
   }"

definition setup_2pc_common_prgs :: "(8, key) world \<Rightarrow> (8, key) world option" where
  "setup_2pc_common_prgs w = do {
     m0 \<leftarrow> setup_2pc_local (mgrs w ! 0);
     m1 \<leftarrow> setup_2pc_local (mgrs w ! 1);
     Some (w\<lparr>mgrs := [m0, m1]\<rparr>)
   }"

text \<open>
  In the four-party set-up a key is held by three parties; the table entry of relative rank \<open>r\<close> holds
  the key that the party at rank \<open>r\<close> does not know.  The schedule lists the iterations \<open>(rank, j)\<close>
  of the parties' loops; every party runs its own iterations in ascending order.
\<close>

definition setup_4pc_step :: "keygen \<Rightarrow> nat \<times> nat \<Rightarrow> (8, key) world \<Rightarrow> (8, key) world option" where
  "setup_4pc_step keygen = (\<lambda>(me, j) w.
     if j = me then Some w
     else let relative_rank = (4 + j - me) mod 4; local_key = keygen me PairKey; buf = replicate KEYBYTES 0
       in if relative_rank = 1 then
            Some (upd_mgr me (install_rel 1 local_key)
              (sendShares 4 me local_key (- 2) (sendShares 4 me local_key (- 1) w)))
          else do {
            (remote, w) \<leftarrow> receiveShares 4 me buf (if relative_rank = 2 then 1 else 2) w;
            Some (upd_mgr me (install_rel relative_rank remote) w)
          })"

primrec run_schedule :: "('i \<Rightarrow> 'w \<Rightarrow> 'w option) \<Rightarrow> 'i list \<Rightarrow> 'w \<Rightarrow> 'w option" where
  "run_schedule step [] w = Some w"
| "run_schedule step (i # is) w = do { w \<leftarrow> step i w; run_schedule step is w }"

definition schedule_4pc :: "(nat \<times> nat) list" where
  "schedule_4pc = [(0, 0), (0, 1), (3, 0), (1, 0), (1, 1), (1, 2), (2, 0), (2, 1), (2, 2), (2, 3),
     (0, 2), (0, 3), (1, 3), (3, 1), (3, 2), (3, 3)]"

definition setup_4pc_common_prgs :: "keygen \<Rightarrow> (8, key) world \<Rightarrow> (8, key) world option" where
  "setup_4pc_common_prgs keygen w = run_schedule (setup_4pc_step keygen) schedule_4pc w"

definition setup_random_generation :: "nat \<Rightarrow> keygen \<Rightarrow> nat list list \<Rightarrow> (8, key) world option" where
  "setup_random_generation n keygen groups = do {
     let w = \<lparr>mgrs = map (\<lambda>p. manager_new n p (keygen p LocalKey)) [0..<n],
              chan = (\<lambda>_ _. []), bytes_sent = (\<lambda>_. 0)\<rparr>;
     w \<leftarrow> create_groups n keygen (groups @ [ [0..<n] ]) w;
     if n = 2 then setup_2pc_common_prgs w
     else if n = 3 then setup_3pc_common_prgs keygen w
     else if n = 4 then setup_4pc_common_prgs keygen w
     else Some w
   }"

section \<open>Agreement on group keys\<close>

definition keys_ok :: "keygen \<Rightarrow> bool" where
  "keys_ok keygen \<longleftrightarrow> (\<forall>p c. length (keygen p c) = KEYBYTES)"

definition group_ok :: "nat \<Rightarrow> nat list \<Rightarrow> bool" where
  "group_ok n grp \<longleftrightarrow> sorted_wrt (<) grp \<and> (\<forall>p \<in> set grp. p < n)"

definition installed :: "nat list \<Rightarrow> 's \<Rightarrow> nat set \<Rightarrow> 's manager list \<Rightarrow> 's manager list" where
  "installed grp sd A ms = map (\<lambda>p. if p \<in> A then install_group grp sd (ms ! p) else ms ! p) [0..<length ms]"

lemma length_installed [simp]: "length (installed grp sd A ms) = length ms"
  by (simp add: installed_def)

lemma nth_installed [simp]:
  "p < length ms \<Longrightarrow> installed grp sd A ms ! p = (if p \<in> A then install_group grp sd (ms ! p) else ms ! p)"
  by (simp add: installed_def)

lemma installed_insert:
  assumes "p < length ms" and "p \<notin> A"
  shows "(installed grp sd A ms)[p := install_group grp sd (installed grp sd A ms ! p)] = installed grp sd (insert p A) ms"
  by (rule nth_equalityI) (use assms in \<open>auto simp: nth_list_update\<close>)

lemma abs_rank_diff: "a < n \<Longrightarrow> b < n \<Longrightarrow> abs_rank n a (int b - int a) = b"
  by (simp add: rank_simps)

lemma seed_exchange_run:
  assumes "quiet w" and "a < n" and "b < n" and "a \<noteq> b" and "length sd = KEYBYTES"
  shows "\<exists>w'. seed_exchange n a b sd w = Some (sd, w') \<and> quiet w' \<and> mgrs w' = mgrs w"
proof -
  let ?z = "replicate KEYBYTES 0"
  let ?w1 = "sendShares n b ?z (int a - int b) (sendShares n a sd (int b - int a) w)"
  let ?w2 = "?w1\<lparr>chan := (chan ?w1)(b := (chan ?w1 b)(a := []))\<rparr>"
  let ?w3 = "?w2\<lparr>chan := (chan ?w2)(a := (chan ?w2 a)(b := []))\<rparr>"
  have r: "abs_rank n a (int b - int a) = b" "abs_rank n b (int a - int b) = a"
    using assms by (simp_all add: abs_rank_diff)
  have none: "chan w x y = []" for x y using assms(1) by (simp add: quiet_def)
  have c: "chan ?w1 b a = [?z]" "chan ?w2 a b = [sd]" using r none assms(4) by simp_all
  have 1: "receiveShares n a ?z (int b - int a) ?w1 = Some (?z, ?w2)"
    using c(1) r by (simp add: receiveShares_def valid_rank_geq Let_def)
  have 2: "receiveShares n b ?z (int a - int b) ?w2 = Some (sd, ?w3)"
    using c(2) r assms(5) by (simp add: receiveShares_def valid_rank_geq Let_def)
  have "seed_exchange n a b sd w = Some (sd, ?w3)"
    unfolding seed_exchange_def Let_def using 1 2 by simp
  moreover have "quiet ?w3" using none r by (auto simp: quiet_def fun_eq_iff)
  ultimately show ?thesis by auto
qed

lemma seed_loop_run:
  assumes "quiet w" and "a < n" and "\<forall>b \<in> set bs. b < n \<and> b \<noteq> a" and "distinct bs" and "length sd = KEYBYTES"
    and "mgrs w = installed grp sd A ms" and "length ms = n" and "A \<inter> set bs = {}"
  shows "\<exists>w'. seed_loop n grp a sd bs w = Some w' \<and> quiet w' \<and> mgrs w' = installed grp sd (A \<union> set bs) ms"
  using assms
proof (induction bs arbitrary: w A)
  case (Cons b bs)
  then obtain w1 where w1: "seed_exchange n a b sd w = Some (sd, w1)" "quiet w1" "mgrs w1 = mgrs w"
    using seed_exchange_run [of w a n b sd] by auto
  let ?w = "upd_mgr b (install_group grp sd) w1"
  have "mgrs ?w = installed grp sd (insert b A) ms"
    using installed_insert [of b ms A grp sd] w1(3) Cons.prems by (simp add: upd_mgr_def)
  moreover have "quiet ?w" using w1(2) by (simp add: upd_mgr_def quiet_def)
  ultimately obtain w' where "seed_loop n grp a sd bs ?w = Some w'" "quiet w'"
    "mgrs w' = installed grp sd (insert b A \<union> set bs) ms"
    using Cons.IH [of ?w "insert b A"] Cons.prems by auto
  with w1(1) show ?case by auto
qed auto

lemma create_group_run:
  assumes "quiet w" and "length (mgrs w) = n" and "group_ok n grp" and "keys_ok keygen"
  shows "\<exists>w' sd. create_common_prg_among_group n keygen grp w = Some w' \<and> quiet w' \<and>
    mgrs w' = installed grp sd (set grp) (mgrs w)"
proof (cases grp)
  case Nil
  then show ?thesis using assms(1) by (auto simp: create_common_prg_among_group_def installed_def map_nth)
next
  case (Cons a bs)
  let ?sd = "keygen a (GroupKey grp)"
  have g: "a < n" "\<forall>b \<in> set bs. b < n \<and> b \<noteq> a" "distinct bs" "a \<notin> set bs"
    using assms(3) Cons by (auto simp: group_ok_def strict_sorted_iff)
  have "mgrs w = installed grp ?sd {} (mgrs w)" by (simp add: installed_def map_nth)
  then obtain w' where w': "seed_loop n grp a ?sd bs w = Some w'" "quiet w'"
    "mgrs w' = installed grp ?sd (set bs) (mgrs w)"
    using seed_loop_run [OF assms(1) g(1-3), of ?sd grp "{}" "mgrs w"] assms(2,4) by (auto simp: keys_ok_def)
  have "mgrs (upd_mgr a (install_group grp ?sd) w') = installed grp ?sd (set grp) (mgrs w)"
    using installed_insert [of a "mgrs w" "set bs" grp ?sd] w'(3) g assms(2) Cons by (simp add: upd_mgr_def)
  moreover have "quiet (upd_mgr a (install_group grp ?sd) w')" using w'(2) by (simp add: upd_mgr_def quiet_def)
  moreover have "create_common_prg_among_group n keygen grp w = Some (upd_mgr a (install_group grp ?sd) w')"
    using w'(1) Cons by (simp add: create_common_prg_among_group_def)
  ultimately show ?thesis by blast
qed

definition groups_agree :: "'s manager list \<Rightarrow> bool" where
  "groups_agree ms \<longleftrightarrow> (\<forall>g p q. p \<in> set g \<longrightarrow> q \<in> set g \<longrightarrow> p < length ms \<longrightarrow> q < length ms \<longrightarrow>
     common_prg_group_map (ms ! p) g = common_prg_group_map (ms ! q) g \<and>
     (common_prg_group_map (ms ! p) g \<noteq> None \<longrightarrow>
        common_prg_group_map (ms ! p) g = Some (GroupPRG g) \<and> store (ms ! p) (GroupPRG g) = store (ms ! q) (GroupPRG g)))"

definition tables_new :: "nat \<Rightarrow> 's manager list \<Rightarrow> bool" where
  "tables_new n ms \<longleftrightarrow> length ms = n \<and> (\<forall>p < n. num_parties (ms ! p) = n \<and> rank (ms ! p) = p \<and>
     common_prgs (ms ! p) = (replicate n None)[0 := Some LocalPRG])"

lemma install_group_simps [simp]:
  "num_parties (install_group grp sd m) = num_parties m" "rank (install_group grp sd m) = rank m"
  "common_prgs (install_group grp sd m) = common_prgs m"
  "g \<noteq> grp \<Longrightarrow> common_prg_group_map (install_group grp sd m) g = common_prg_group_map m g"
  "g \<noteq> grp \<Longrightarrow> store (install_group grp sd m) (GroupPRG g) = store m (GroupPRG g)"
  "common_prg_group_map (install_group grp sd m) grp =
     (case common_prg_group_map m grp of None \<Rightarrow> Some (GroupPRG grp) | Some z \<Rightarrow> Some z)"
  "store (install_group grp sd m) (GroupPRG grp) =
     (case common_prg_group_map m grp of None \<Rightarrow> new_prg sd | Some z \<Rightarrow> store m (GroupPRG grp))"
  by (simp_all add: install_group_def add_group_def split: option.split)

lemma groups_agree_installed:
  assumes "groups_agree ms"
  shows "groups_agree (installed grp sd (set grp) ms)"
  unfolding groups_agree_def
proof (intro allI impI)
  fix g p q
  assume a: "p \<in> set g" "q \<in> set g" "p < length (installed grp sd (set grp) ms)"
    "q < length (installed grp sd (set grp) ms)"
  then have l: "p < length ms" "q < length ms" by simp_all
  note o = assms [unfolded groups_agree_def, rule_format, OF a(1,2) l]
  let ?I = "installed grp sd (set grp) ms"
  show "common_prg_group_map (?I ! p) g = common_prg_group_map (?I ! q) g \<and>
     (common_prg_group_map (?I ! p) g \<noteq> None \<longrightarrow>
        common_prg_group_map (?I ! p) g = Some (GroupPRG g) \<and> store (?I ! p) (GroupPRG g) = store (?I ! q) (GroupPRG g))"
  proof (cases "g = grp")
    case True
    then show ?thesis using a l o by (cases "common_prg_group_map (ms ! p) g") auto
  next
    case False
    then show ?thesis using l o by simp
  qed
qed

lemma create_groups_run:
  assumes "quiet w" and "tables_new n (mgrs w)" and "groups_agree (mgrs w)" and "\<forall>g \<in> set gs. group_ok n g"
    and "keys_ok keygen"
  shows "\<exists>w'. create_groups n keygen gs w = Some w' \<and> quiet w' \<and> tables_new n (mgrs w') \<and> groups_agree (mgrs w') \<and>
    (\<forall>g p. p \<in> set g \<longrightarrow> p < n \<longrightarrow> g \<in> set gs \<or> common_prg_group_map (mgrs w ! p) g \<noteq> None \<longrightarrow>
       common_prg_group_map (mgrs w' ! p) g \<noteq> None)"
  using assms
proof (induction gs arbitrary: w)
  case (Cons g gs)
  have len: "length (mgrs w) = n" using Cons.prems(2) by (simp add: tables_new_def)
  obtain w1 sd where w1: "create_common_prg_among_group n keygen g w = Some w1" "quiet w1"
    "mgrs w1 = installed g sd (set g) (mgrs w)"
    using create_group_run [OF Cons.prems(1) len _ Cons.prems(5), of g] Cons.prems(4) by auto
  have t: "tables_new n (mgrs w1)" using Cons.prems(2) by (auto simp: w1(3) tables_new_def)
  obtain w' where w': "create_groups n keygen gs w1 = Some w'" "quiet w'" "tables_new n (mgrs w')"
    "groups_agree (mgrs w')"
    "\<forall>h p. p \<in> set h \<longrightarrow> p < n \<longrightarrow> h \<in> set gs \<or> common_prg_group_map (mgrs w1 ! p) h \<noteq> None \<longrightarrow>
       common_prg_group_map (mgrs w' ! p) h \<noteq> None"
    using Cons.IH [OF w1(2) t] groups_agree_installed [OF Cons.prems(3)] Cons.prems(4,5) w1(3) by auto
  have "common_prg_group_map (mgrs w1 ! p) h \<noteq> None"
    if "p \<in> set h" "p < n" "h = g \<or> common_prg_group_map (mgrs w ! p) h \<noteq> None" for h p
    using that len by (cases "h = g") (auto simp: w1(3) split: option.split)
  with w1(1) w' show ?case by auto
qed simp

end
