(* ===== verification/Vector_Ops.thy ===== *)
theory Vector_Ops
  imports Bit_Primitives "HOL-Library.Signed_Division"
begin

text \<open>
  The value-level operations of \<open>Vector<T>\<close> (\<open>core/containers/mapping_access_vector.h\<close>):
  each takes the elements of the current batch and returns the elements of a freshly
  allocated vector (or the new elements of \<open>this\<close>).  \<open>T\<close> is a signed integer type of
  \<open>LENGTH('a)\<close> bits (\<open>MAX_BITS_NUMBER\<close>): a right shift is arithmetic, \<open><\<close> is signed, division
  truncates.  The section on homomorphisms shows which operations are linear over XOR: those
  are the ones a boolean protocol may run on each share separately.
\<close>

section \<open>Elementwise operators\<close>

definition vec_op :: "('a::len word \<Rightarrow> 'a word \<Rightarrow> 'a word) \<Rightarrow> 'a vec \<Rightarrow> 'a vec \<Rightarrow> 'a vec" where
  "vec_op f x y = map2 f x y"

definition vec_unop :: "('a::len word \<Rightarrow> 'a word) \<Rightarrow> 'a vec \<Rightarrow> 'a vec" where
  "vec_unop f x = map f x"

definition vec_elem_op :: "('a::len word \<Rightarrow> 'a word \<Rightarrow> 'a word) \<Rightarrow> 'a vec \<Rightarrow> 'a word \<Rightarrow> 'a vec" where
  "vec_elem_op f x c = map (\<lambda>a. f a c) x"

definition sdiv_w :: "'a::len word \<Rightarrow> 'a word \<Rightarrow> 'a word" where
  "sdiv_w x y = word_of_int (sint x sdiv sint y)"

definition smod_w :: "'a::len word \<Rightarrow> 'a word \<Rightarrow> 'a word" where
  "smod_w x y = word_of_int (sint x smod sint y)"

definition lnot_w :: "'a::len word \<Rightarrow> 'a word" where
  "lnot_w x = of_bool (x = 0)"

definition bit_arithmetic_right_shift :: "nat \<Rightarrow> 'a::len vec \<Rightarrow> 'a vec" where
  "bit_arithmetic_right_shift shift_size v = map (signed_drop_bit shift_size) v"

definition bit_logical_right_shift :: "nat \<Rightarrow> 'a::len vec \<Rightarrow> 'a vec" where
  "bit_logical_right_shift shift_size v = map (drop_bit shift_size) v"

definition bit_left_shift :: "nat \<Rightarrow> 'a::len vec \<Rightarrow> 'a vec" where
  "bit_left_shift shift_size v = map (push_bit shift_size) v"

definition popcount :: "'a::len word \<Rightarrow> nat" where
  "popcount x = length (filter (bit x) [0..<LENGTH('a)])"

definition bit_xor :: "'a::len vec \<Rightarrow> 'a vec" where
  "bit_xor v = map (\<lambda>x. of_nat (popcount x) AND 1) v"

definition mask_vec :: "'a::len word \<Rightarrow> 'a vec \<Rightarrow> 'a vec" where
  "mask_vec n v = map (\<lambda>x. x AND n) v"

definition ltz_vec :: "'a::len vec \<Rightarrow> 'a vec" where
  "ltz_vec v = map (\<lambda>x. of_bool (sint x < 0)) v"

definition extend_lsb :: "'a::len vec \<Rightarrow> 'a vec" where
  "extend_lsb v = map (\<lambda>x. - (x AND 1)) v"

section \<open>Packing single bits\<close>

definition pack_word :: "'a::len vec \<Rightarrow> nat \<Rightarrow> nat \<Rightarrow> nat \<Rightarrow> 'a word" where
  "pack_word source position j total_bits =
     foldl (\<lambda>r p. r OR push_bit p (getBit (source ! (j + p)) position)) 0
       [0..<min LENGTH('a) (total_bits - j)]"

definition pack_from :: "'a::len vec \<Rightarrow> 'a vec \<Rightarrow> nat \<Rightarrow> 'a vec" where
  "pack_from this source position =
     (let total_bits = min (length this * LENGTH('a)) (length source)
      in map (\<lambda>i. if i * LENGTH('a) < total_bits
                  then pack_word source position (i * LENGTH('a)) total_bits
                  else this ! i) [0..<length this])"

definition unpack_from :: "'a::len vec \<Rightarrow> 'a vec \<Rightarrow> nat \<Rightarrow> 'a vec" where
  "unpack_from this source position =
     map (\<lambda>k. setBitValue (this ! k)
                (getBit (source ! (k div LENGTH('a))) (k mod LENGTH('a))) position)
       [0..<length this]"

definition bit_decomposition :: "'a::len vec \<Rightarrow> 'a vec list" where
  "bit_decomposition v =
     (let n = length v; k = LENGTH('a); m = div_ceil n k
      in map (\<lambda>b. map (\<lambda>c. foldl (\<lambda>out j. out OR push_bit j (getBit (v ! (c * k + j)) b)) 0
                               [0..<(if c * k + k \<le> n then k else n - c * k)]) [0..<m])
           [0..<k])"

section \<open>Lengths and bits\<close>

lemmas elementwise_defs =
  vec_op_def vec_unop_def vec_elem_op_def bit_arithmetic_right_shift_def
  bit_logical_right_shift_def bit_left_shift_def bit_xor_def mask_vec_def ltz_vec_def
  extend_lsb_def

lemma length_elementwise [simp, vec_simps]:
  "length (vec_op f x y) = min (length x) (length y)"
  "length (vec_unop g x) = length x"
  "length (vec_elem_op f x c) = length x"
  "length (bit_arithmetic_right_shift s x) = length x"
  "length (bit_logical_right_shift s x) = length x"
  "length (bit_left_shift s x) = length x"
  "length (bit_xor x) = length x"
  "length (mask_vec w x) = length x"
  "length (ltz_vec x) = length x"
  "length (extend_lsb x) = length x"
  by (simp_all add: elementwise_defs)

lemma length_pack_from [simp, vec_simps]: "length (pack_from t s i) = length t"
  by (simp add: pack_from_def Let_def)

lemma length_unpack_from [simp, vec_simps]: "length (unpack_from t s i) = length t"
  by (simp add: unpack_from_def)

lemma bit_or_fold:
  "bit (foldl (\<lambda>r p. r OR push_bit p (of_bool (f p))) (0 :: 'a::len word) [0..<n]) b
     = (b < n \<and> b < LENGTH('a) \<and> f b)"
  by (induction n) (auto simp: bit_simps less_Suc_eq dest: bit_imp_le_length)

lemma bit_pack_word:
  "bit (pack_word s pos j t :: 'a::len word) b
     = (b < LENGTH('a) \<and> j + b < t \<and> bit (s ! (j + b)) pos)"
  unfolding pack_word_def getBit_of_bool bit_or_fold by auto

lemma mod_mult_less: "(k::nat) < n \<Longrightarrow> 0 < w \<Longrightarrow> k div w * w < n"
  by (metis div_times_less_eq_dividend le_less_trans)

lemma pack_from_bit:
  assumes "length t * LENGTH('a::len) \<ge> length s" and "k < length s"
  shows "bit (pack_from (t :: 'a vec) s pos ! (k div LENGTH('a))) (k mod LENGTH('a))
     = bit (s ! k) pos"
proof -
  let ?w = "LENGTH('a)"
  have "k div ?w * ?w < length s" using assms(2) by (rule mod_mult_less) simp
  moreover have "k div ?w < length t"
    using assms by (simp add: less_mult_imp_div_less)
  ultimately show ?thesis
    using assms by (simp add: pack_from_def Let_def bit_pack_word min_absorb2)
qed

lemma unpack_from_bit:
  "k < length t \<Longrightarrow> j < LENGTH('a::len) \<Longrightarrow> bit (unpack_from (t :: 'a vec) s pos ! k) j
     = (if j = pos then bit (s ! (k div LENGTH('a))) (k mod LENGTH('a)) else bit (t ! k) j)"
  by (simp add: unpack_from_def bit_setBitValue)

lemma length_bit_decomposition [simp, vec_simps]:
  "length (bit_decomposition (v :: 'a::len vec)) = LENGTH('a)"
  by (simp add: bit_decomposition_def Let_def)

lemma nth_bit_decomposition:
  assumes "b < LENGTH('a::len)"
  shows "bit_decomposition (v :: 'a vec) ! b
     = pack_from (replicate (div_ceil (length v) LENGTH('a)) 0) v b"
proof -
  have m: "min (div_ceil (length v) LENGTH('a) * LENGTH('a)) (length v) = length v"
    using div_ceil_bounds(1) [of "LENGTH('a)" "length v"] by simp
  have s: "(if c * LENGTH('a) + LENGTH('a) \<le> length v then LENGTH('a) else length v - c * LENGTH('a))
     = min LENGTH('a) (length v - c * LENGTH('a))" for c
    by auto
  show ?thesis
    unfolding bit_decomposition_def pack_from_def pack_word_def Let_def length_replicate m s
    using assms by (auto simp: div_ceil_less_iff)
qed

lemma popcount_bits: "popcount (x :: 'a::len word) = card {i. i < LENGTH('a) \<and> bit x i}"
  unfolding popcount_def by (subst distinct_card [symmetric]) (auto simp: atLeast0LessThan)

lemma nth_bit_xor: "i < length v \<Longrightarrow> bit_xor v ! i = of_bool (odd (popcount (v ! i)))"
  by (simp add: bit_xor_def and_one_eq mod_2_eq_odd)

lemma bit_ltz: "(sint (x :: 'a::len word) < 0) = bit x (LENGTH('a) - Suc 0)"
  by (simp add: bit_last_iff)

lemma bit_extend: "bit (- (x AND 1) :: 'a::len word) i = (i < LENGTH('a) \<and> bit x 0)"
proof (cases "bit x 0")
  case True
  then have "x AND 1 = 1" by (simp add: and_one_eq bit_0 odd_iff_mod_2_eq_one)
  with True show ?thesis by (simp add: bit_simps)
next
  case False
  then have "x AND 1 = 0" by (simp add: and_one_eq bit_0 even_iff_mod_2_eq_zero)
  with False show ?thesis by simp
qed

section \<open>Linear operations\<close>

lemma odd_count_xor:
  "odd (length (filter (bit (x XOR y)) is)) =
     (odd (length (filter (bit x) is)) \<noteq> odd (length (filter (bit y) is)))"
  by (induction "is") (auto simp: bit_simps)

lemma popcount_lsb: "of_nat (popcount x) AND 1 = (of_bool (odd (popcount x)) :: 'a::len word)"
  by (simp add: and_one_eq mod_2_eq_odd)

lemma xor_hom_elementwise:
  "xor_hom m m (bit_arithmetic_right_shift s)"
  "xor_hom m m (bit_logical_right_shift s)"
  "xor_hom m m (bit_left_shift s)"
  "xor_hom m m (mask_vec w)"
  "xor_hom m m ltz_vec"
  "xor_hom m m extend_lsb"
  "xor_hom m m bit_xor"
proof -
  show "xor_hom m m (bit_arithmetic_right_shift s)"
    unfolding bit_arithmetic_right_shift_def [abs_def]
    by (rule xor_hom_map, rule bit_word_eqI) (auto simp: bit_simps)
  show "xor_hom m m (bit_logical_right_shift s)"
    unfolding bit_logical_right_shift_def [abs_def]
    by (rule xor_hom_map, rule bit_word_eqI) (auto simp: bit_simps)
  show "xor_hom m m (bit_left_shift s)"
    unfolding bit_left_shift_def [abs_def]
    by (rule xor_hom_map, rule bit_word_eqI) (auto simp: bit_simps)
  show "xor_hom m m (mask_vec w)"
    unfolding mask_vec_def [abs_def]
    by (rule xor_hom_map, rule bit_word_eqI) (auto simp: bit_simps)
  show "xor_hom m m ltz_vec"
    unfolding ltz_vec_def [abs_def]
    by (rule xor_hom_map) (auto simp: bit_ltz bit_simps)
  show "xor_hom m m extend_lsb"
    unfolding extend_lsb_def [abs_def]
    by (rule xor_hom_map, rule bit_word_eqI) (auto simp: bit_extend bit_xor_iff)
  show "xor_hom m m bit_xor"
    unfolding bit_xor_def [abs_def] popcount_lsb
    by (rule xor_hom_map) (auto simp: popcount_def odd_count_xor)
qed

lemma xor_hom_pack:
  assumes "length t * LENGTH('a::len) \<ge> m" and "0 < m \<Longrightarrow> length t = div_ceil m LENGTH('a)"
    and "m = 0 \<Longrightarrow> t = []"
  shows "xor_hom m (length t) (\<lambda>v. pack_from (t :: 'a vec) v pos)"
proof -
  let ?w = "LENGTH('a)"
  have q: "i * ?w < m" if "i < length t" for i
    using that assms by (cases "m = 0") (auto simp: div_ceil_less_iff)
  show ?thesis
    unfolding xor_hom_def
  proof (intro conjI allI impI)
    fix x y :: "'a vec" assume l: "length x = m" "length y = m"
    show "pack_from t (vxor x y) pos = vxor (pack_from t x pos) (pack_from t y pos)"
    proof (rule vec_eqI)
      fix i assume i: "i < length (pack_from t (vxor x y) pos)"
      then have "i * ?w < m" by (simp add: q)
      then show "pack_from t (vxor x y) pos ! i = vxor (pack_from t x pos) (pack_from t y pos) ! i"
        using i l assms(1)
        by (intro bit_word_eqI) (auto simp: pack_from_def Let_def bit_pack_word bit_simps min_absorb2)
    qed simp
  qed simp
qed

lemma xor_hom2_unpack:
  assumes "m1 \<le> m2 * LENGTH('a::len)"
  shows "xor_hom2 m1 m2 m1 (\<lambda>t s. unpack_from (t :: 'a vec) s pos)"
  unfolding xor_hom2_def
proof (intro conjI allI impI)
  fix t t' s s' :: "'a vec"
  assume l: "length t = m1" "length t' = m1" "length s = m2" "length s' = m2"
  show "unpack_from (vxor t t') (vxor s s') pos = vxor (unpack_from t s pos) (unpack_from t' s' pos)"
  proof (rule vec_eqI)
    fix i assume i: "i < length (unpack_from (vxor t t') (vxor s s') pos)"
    have "i div LENGTH('a) < m2"
      using i l assms by (simp add: less_mult_imp_div_less)
    then show "unpack_from (vxor t t') (vxor s s') pos ! i
        = vxor (unpack_from t s pos) (unpack_from t' s' pos) ! i"
      using i l by (intro bit_word_eqI) (auto simp: unpack_from_bit bit_simps)
  qed (simp add: l)
qed simp

lemmas xor_homs = xor_hom_elementwise

end
