(* ===== verification/EVector.thy ===== *)
theory EVector
  imports Vector_Ops
begin

text \<open>
  \<open>EVector\<close> (\<open>core/containers/e_vector.h\<close>): one party's view of a shared vector, a column per
  share it holds and the fixed-point precision of the whole vector.  The macros of the
  header that replicate a \<open>Vector\<close> operation over the columns are the functions
  \<open>apply_return\<close>, \<open>apply_to\<close>, \<open>apply_input\<close>, \<open>evec_op\<close>, \<open>evec_elem_op\<close> and \<open>evec_unop\<close>.
  An assignment \<open>z = e\<close> copies the elements and the precision of \<open>e\<close>, so an output parameter
  that is assigned as a whole is a returned value here.  The second half defines a sharing
  among all parties (one \<open>EVector\<close> per party) with replication, and how it is opened.
\<close>

section \<open>One party's view\<close>

record (overloaded) 'a evec =
  cols :: "'a::len vec list"
  prec :: nat

definition evec_new :: "nat \<Rightarrow> nat \<Rightarrow> 'a::len evec" where
  "evec_new rep sz = \<lparr>cols = replicate rep (replicate sz 0), prec = 0\<rparr>"

definition evec_size :: "'a::len evec \<Rightarrow> nat" where
  "evec_size e = length (cols e ! 0)"

definition col :: "nat \<Rightarrow> 'a::len evec \<Rightarrow> 'a vec" where
  "col c e = cols e ! c"

definition setPrecision :: "nat \<Rightarrow> 'a::len evec \<Rightarrow> 'a evec" where
  "setPrecision q e = e\<lparr>prec := q\<rparr>"

definition matchPrecision :: "'a::len evec \<Rightarrow> 'a evec \<Rightarrow> 'a evec" where
  "matchPrecision e other = e\<lparr>prec := prec other\<rparr>"

definition construct_like :: "'a::len evec \<Rightarrow> nat \<Rightarrow> 'a evec" where
  "construct_like e sz = (evec_new (length (cols e)) sz)\<lparr>prec := prec e\<rparr>"

definition apply_return :: "('a::len vec \<Rightarrow> 'a vec) \<Rightarrow> 'a evec \<Rightarrow> 'a evec" where
  "apply_return F e = \<lparr>cols = map F (cols e), prec = prec e\<rparr>"

definition apply_to :: "('a::len vec \<Rightarrow> 'a vec) \<Rightarrow> 'a evec \<Rightarrow> 'a evec" where
  "apply_to F e = e\<lparr>cols := map F (cols e)\<rparr>"

definition apply_input :: "('a::len vec \<Rightarrow> 'a vec \<Rightarrow> 'a vec) \<Rightarrow> 'a evec \<Rightarrow> 'a evec \<Rightarrow> 'a evec" where
  "apply_input F e other = e\<lparr>cols := map2 F (cols e) (cols other)\<rparr>"

definition apply_input_return ::
  "('a::len vec \<Rightarrow> 'a vec \<Rightarrow> 'a vec) \<Rightarrow> 'a evec \<Rightarrow> 'a evec \<Rightarrow> 'a evec" where
  "apply_input_return F e other = \<lparr>cols = map2 F (cols e) (cols other), prec = prec e\<rparr>"

definition evec_bit_decomposition :: "'a::len evec \<Rightarrow> 'a evec list" where
  "evec_bit_decomposition e =
     (let temp = map bit_decomposition (cols e)
      in map (\<lambda>j. \<lparr>cols = map (\<lambda>t. t ! j) temp, prec = prec e\<rparr>) [0..<length (temp ! 0)])"

definition evec_op :: "('a::len word \<Rightarrow> 'a word \<Rightarrow> 'a word) \<Rightarrow> 'a evec \<Rightarrow> 'a evec \<Rightarrow> 'a evec" where
  "evec_op f x y = \<lparr>cols = map2 (vec_op f) (cols x) (cols y), prec = prec x\<rparr>"

definition evec_elem_op :: "('a::len word \<Rightarrow> 'a word \<Rightarrow> 'a word) \<Rightarrow> 'a evec \<Rightarrow> 'a word \<Rightarrow> 'a evec" where
  "evec_elem_op f x c = \<lparr>cols = map (\<lambda>v. vec_elem_op f v c) (cols x), prec = prec x\<rparr>"

definition evec_unop :: "('a::len word \<Rightarrow> 'a word) \<Rightarrow> 'a evec \<Rightarrow> 'a evec" where
  "evec_unop f x = \<lparr>cols = map (vec_unop f) (cols x), prec = prec x\<rparr>"

section \<open>Sharings among all parties\<close>

type_synonym 'a sharing = "'a evec list"

definition share_out :: "nat \<Rightarrow> nat \<Rightarrow> 'a::len vec list \<Rightarrow> 'a sharing" where
  "share_out k q xs =
     map (\<lambda>p. \<lparr>cols = map (\<lambda>j. xs ! ((p + j) mod length xs)) [0..<k], prec = q\<rparr>) [0..<length xs]"

definition shares :: "'a::len sharing \<Rightarrow> 'a vec list" where
  "shares S = map (col 0) S"

definition is_sharing :: "nat \<Rightarrow> nat \<Rightarrow> nat \<Rightarrow> nat \<Rightarrow> 'a::len sharing \<Rightarrow> bool" where
  "is_sharing n k q m S \<longleftrightarrow>
     length S = n \<and> S = share_out k q (shares S) \<and> (\<forall>x \<in> set (shares S). length x = m)"

definition reveal_b :: "'a::len sharing \<Rightarrow> 'a vec" where
  "reveal_b S = vxor_all (evec_size (S ! 0)) (shares S)"

definition reveal_a :: "'a::len sharing \<Rightarrow> 'a vec" where
  "reveal_a S = vadd_all (evec_size (S ! 0)) (shares S)"

section \<open>Lemmas on sharings\<close>

lemma length_share_out [simp]: "length (share_out k q xs) = length xs"
  by (simp add: share_out_def)

lemma nth_share_out:
  "p < length xs \<Longrightarrow>
   share_out k q xs ! p = \<lparr>cols = map (\<lambda>j. xs ! ((p + j) mod length xs)) [0..<k], prec = q\<rparr>"
  by (simp add: share_out_def)

lemma shares_share_out [simp]: "0 < k \<Longrightarrow> shares (share_out k q xs) = xs"
  by (rule nth_equalityI) (simp_all add: shares_def nth_share_out col_def)

lemma is_sharing_share_out:
  "0 < k \<Longrightarrow> is_sharing n k q m (share_out k q xs) \<longleftrightarrow> length xs = n \<and> (\<forall>x \<in> set xs. length x = m)"
  by (simp add: is_sharing_def)

lemma is_sharingE:
  assumes "is_sharing n k q m S"
  obtains xs where "S = share_out k q xs" and "length xs = n" and "\<forall>x \<in> set xs. length x = m"
proof (rule that)
  show "S = share_out k q (shares S)" "length (shares S) = n" "\<forall>x \<in> set (shares S). length x = m"
    using assms by (simp_all add: is_sharing_def shares_def)
qed

lemma is_sharing_length: "is_sharing n k q m S \<Longrightarrow> length S = n"
  by (simp add: is_sharing_def)

lemma evec_size_share_out:
  assumes "0 < k" and "p < length xs" and "\<forall>x \<in> set xs. length x = m"
  shows "evec_size (share_out k q xs ! p) = m"
  using assms by (simp add: evec_size_def nth_share_out)

lemma is_sharing_size:
  assumes "is_sharing n k q m S" and "0 < k" and "p < n"
  shows "evec_size (S ! p) = m"
  using assms by (elim is_sharingE) (simp add: evec_size_share_out)

lemma is_sharing_prec: "is_sharing n k q m S \<Longrightarrow> p < n \<Longrightarrow> prec (S ! p) = q"
  by (elim is_sharingE) (simp add: nth_share_out)

lemma is_sharing_ncols: "is_sharing n k q m S \<Longrightarrow> p < n \<Longrightarrow> length (cols (S ! p)) = k"
  by (elim is_sharingE) (simp add: nth_share_out)

lemma column_length:
  assumes "is_sharing n k q m X" and "e \<in> set X" and "c \<in> set (cols e)"
  shows "length c = m"
proof -
  from assms(1) obtain xs where xs: "X = share_out k q xs" "length xs = n" "\<forall>x \<in> set xs. length x = m"
    by (elim is_sharingE)
  then have "length xs \<noteq> 0" using assms(2) by (auto simp: share_out_def)
  then have "xs ! (i mod length xs) \<in> set xs" for i by simp
  then have "c \<in> set xs" using assms(2,3) xs(1) by (auto simp: share_out_def)
  then show ?thesis using xs by simp
qed

lemma reveal_b_share_out:
  assumes "0 < k" and "0 < length xs" and "\<forall>x \<in> set xs. length x = m"
  shows "reveal_b (share_out k q xs) = vxor_all m xs"
  unfolding reveal_b_def evec_size_share_out [OF assms] using assms(1) by simp

lemma reveal_a_share_out:
  assumes "0 < k" and "0 < length xs" and "\<forall>x \<in> set xs. length x = m"
  shows "reveal_a (share_out k q xs) = vadd_all m xs"
  unfolding reveal_a_def evec_size_share_out [OF assms] using assms(1) by simp

lemma length_reveal [simp]:
  assumes "is_sharing n k q m S" and "0 < k" and "0 < n"
  shows "length (reveal_b S) = m" and "length (reveal_a S) = m"
  using assms is_sharing_size [of n k q m S 0]
  by (simp_all add: reveal_b_def reveal_a_def is_sharing_def)

lemma map_share_out:
  assumes "\<And>e. F e = \<lparr>cols = map f (cols e), prec = g (prec e)\<rparr>"
  shows "map F (share_out k q xs) = share_out k (g q) (map f xs)"
proof (rule nth_equalityI)
  fix p assume "p < length (map F (share_out k q xs))"
  then have p: "p < length xs" by simp
  then have "(p + j) mod length xs < length xs" for j by (intro mod_less_divisor) auto
  with p show "map F (share_out k q xs) ! p = share_out k (g q) (map f xs) ! p"
    by (simp add: nth_share_out assms)
qed simp

lemma map2_share_out:
  assumes "\<And>e e'. F e e' = \<lparr>cols = map2 f (cols e) (cols e'), prec = prec e\<rparr>"
    and "length xs = length ys"
  shows "map2 F (share_out k q xs) (share_out k q' ys) = share_out k q (map2 f xs ys)"
proof (rule nth_equalityI)
  fix p assume "p < length (map2 F (share_out k q xs) (share_out k q' ys))"
  then have p: "p < length xs" "p < length ys" using assms(2) by simp_all
  then have m: "(p + j) mod length xs < length xs" for j by (intro mod_less_divisor) auto
  show "map2 F (share_out k q xs) (share_out k q' ys) ! p = share_out k q (map2 f xs ys) ! p"
    using p m assms by (auto simp: nth_share_out intro!: nth_equalityI)
qed (simp add: assms)

lemma apply_return_share_out [share_simps]:
  "map (apply_return F) (share_out k q xs) = share_out k q (map F xs)"
  using map_share_out [of "apply_return F" F "\<lambda>q. q"] by (simp add: apply_return_def)

lemma apply_to_share_out [share_simps]:
  "map (apply_to F) (share_out k q xs) = share_out k q (map F xs)"
  using map_share_out [of "apply_to F" F "\<lambda>q. q"] by (simp add: apply_to_def)

lemma setPrecision_share_out [share_simps]:
  "map (setPrecision q') (share_out k q xs) = share_out k q' xs"
  using map_share_out [of "setPrecision q'" "\<lambda>v. v" "\<lambda>_. q'"] by (simp add: setPrecision_def)

lemma apply_input_share_out [share_simps]:
  "length xs = length ys \<Longrightarrow>
   map2 (apply_input F) (share_out k q xs) (share_out k q' ys) = share_out k q (map2 F xs ys)"
  by (rule map2_share_out) (simp_all add: apply_input_def)

lemma evec_op_share_out [share_simps]:
  "length xs = length ys \<Longrightarrow>
   map2 (evec_op f) (share_out k q xs) (share_out k q' ys) = share_out k q (map2 (vec_op f) xs ys)"
  by (rule map2_share_out) (simp_all add: evec_op_def)

lemma evec_elem_op_share_out [share_simps]:
  "map (\<lambda>e. evec_elem_op f e c) (share_out k q xs) = share_out k q (map (\<lambda>v. vec_elem_op f v c) xs)"
  using map_share_out [of "\<lambda>e. evec_elem_op f e c" "\<lambda>v. vec_elem_op f v c" "\<lambda>q. q"]
  by (simp add: evec_elem_op_def)

lemma evec_unop_share_out [share_simps]:
  "map (evec_unop f) (share_out k q xs) = share_out k q (map (vec_unop f) xs)"
  using map_share_out [of "evec_unop f" "vec_unop f" "\<lambda>q. q"] by (simp add: evec_unop_def)

lemma construct_like_share_out [share_simps]:
  "map (\<lambda>e. construct_like e s) (share_out k q xs) = share_out k q (map (\<lambda>_. replicate s 0) xs)"
proof -
  have "map (\<lambda>e. construct_like e s) (share_out k q xs)
      = map (\<lambda>e. \<lparr>cols = map (\<lambda>_. replicate s 0) (cols e), prec = prec e\<rparr>) (share_out k q xs)"
    by (rule map_cong) (simp_all add: construct_like_def evec_new_def map_replicate_const)
  also have "\<dots> = share_out k q (map (\<lambda>_. replicate s 0) xs)"
    by (rule map_share_out) (rule refl)
  finally show ?thesis .
qed

lemma bit_decomposition_share_out:
  assumes "0 < k" and "b < LENGTH('a::len)"
  shows "map (\<lambda>e. evec_bit_decomposition e ! b) (share_out k q (xs :: 'a vec list))
     = share_out k q (map (\<lambda>v. bit_decomposition v ! b) xs)"
proof -
  have "evec_bit_decomposition e ! b = \<lparr>cols = map (\<lambda>v. bit_decomposition v ! b) (cols e), prec = prec e\<rparr>"
    if "cols e \<noteq> []" for e :: "'a evec"
    using that assms(2) by (simp add: evec_bit_decomposition_def Let_def)
  then have "map (\<lambda>e. evec_bit_decomposition e ! b) (share_out k q xs)
      = map (\<lambda>e. \<lparr>cols = map (\<lambda>v. bit_decomposition v ! b) (cols e), prec = prec e\<rparr>) (share_out k q xs)"
    using assms(1) by (auto simp: share_out_def)
  also have "\<dots> = share_out k q (map (\<lambda>v. bit_decomposition v ! b) xs)"
    by (rule map_share_out) (rule refl)
  finally show ?thesis .
qed

text \<open>
  Opening commutes with a local operation that is linear over XOR: the statement every
  communication-free boolean primitive is an instance of.
\<close>

lemma reveal_b_linear:
  assumes "is_sharing n k q m S" and "0 < k" and "0 < n" and "xor_hom m m' F"
    and "T = map (apply_return F) S \<or> T = map (apply_to F) S"
  shows "is_sharing n k q m' T" and "reveal_b T = F (reveal_b S)"
proof -
  from assms(1) obtain xs where xs: "S = share_out k q xs" "length xs = n" "\<forall>x \<in> set xs. length x = m"
    by (elim is_sharingE)
  with assms(5) have T: "T = share_out k q (map F xs)"
    by (auto simp: apply_return_share_out apply_to_share_out)
  have l: "\<forall>x \<in> set (map F xs). length x = m'"
    using xs(3) assms(4) by (auto simp: xor_hom_length)
  show "is_sharing n k q m' T"
    using T l xs(2) assms(2) by (simp add: is_sharing_share_out)
  have "reveal_b T = vxor_all m' (map F xs)"
    unfolding T using l xs(2) assms(2,3) by (intro reveal_b_share_out) simp_all
  also have "\<dots> = F (vxor_all m xs)" by (rule xor_hom_vxor_all [OF assms(4) xs(3)])
  also have "vxor_all m xs = reveal_b S"
    unfolding xs(1) using xs assms(2,3) by (intro reveal_b_share_out [symmetric]) simp_all
  finally show "reveal_b T = F (reveal_b S)" .
qed

lemma reveal_b_linear2:
  assumes "is_sharing n k q m1 S" and "is_sharing n k q' m2 S'" and "0 < k" and "0 < n"
    and "xor_hom2 m1 m2 m' F" and "T = map2 (apply_input F) S S'"
  shows "is_sharing n k q m' T" and "reveal_b T = F (reveal_b S) (reveal_b S')"
proof -
  from assms(1) obtain xs where xs: "S = share_out k q xs" "length xs = n" "\<forall>x \<in> set xs. length x = m1"
    by (elim is_sharingE)
  from assms(2) obtain ys where ys: "S' = share_out k q' ys" "length ys = n" "\<forall>y \<in> set ys. length y = m2"
    by (elim is_sharingE)
  have T: "T = share_out k q (map2 F xs ys)"
    using assms(6) xs ys by (simp add: apply_input_share_out)
  have l: "\<forall>x \<in> set (map2 F xs ys). length x = m'"
    using xs(3) ys(3) xor_hom2_length [OF assms(5)]
    by (auto elim!: in_set_zipE)
  show "is_sharing n k q m' T"
    using T l xs(2) ys(2) assms(3) by (simp add: is_sharing_share_out)
  have "reveal_b T = vxor_all m' (map2 F xs ys)"
    unfolding T using l xs(2) ys(2) assms(3,4) by (intro reveal_b_share_out) simp_all
  also have "\<dots> = F (vxor_all m1 xs) (vxor_all m2 ys)"
    using assms(5) xs ys by (intro xor_hom2_vxor_all) simp_all
  also have "vxor_all m1 xs = reveal_b S"
    unfolding xs(1) using xs assms(3,4) by (intro reveal_b_share_out [symmetric]) simp_all
  also have "vxor_all m2 ys = reveal_b S'"
    unfolding ys(1) using ys assms(3,4) by (intro reveal_b_share_out [symmetric]) simp_all
  finally show "reveal_b T = F (reveal_b S) (reveal_b S')" .
qed

end
