(* ===== verification/Protocol.thy ===== *)
theory Protocol
  imports EVector
begin

text \<open>
  The abstract class \<open>Protocol\<close> (\<open>core/protocols/interface/protocol.h\<close>).  A record of
  operations stands for the virtual methods every secure protocol implements; the methods
  with a default body are definitions over that record.  An operation acts on the joint state
  of all parties: a sharing is the list of the parties' \<open>EVector\<close>s, \<open>'st\<close> is the parties'
  randomness state, and \<open>None\<close> is a thrown exception.  Methods without communication act on
  each party's columns separately.
\<close>

section \<open>Virtual methods\<close>

record (overloaded) ('a, 'st) protocol =
  v_and_b :: "'a::len sharing \<Rightarrow> 'a sharing \<Rightarrow> 'st \<Rightarrow> ('a sharing \<times> 'st) option"
  v_not_b :: "'a::len sharing \<Rightarrow> 'a sharing"
  v_not_b_1 :: "'a::len sharing \<Rightarrow> 'a sharing"
  v_multiply_a :: "'a::len sharing \<Rightarrow> 'a sharing \<Rightarrow> 'st \<Rightarrow> ('a sharing \<times> 'st) option"
  v_b2a_bit :: "'a::len sharing \<Rightarrow> 'st \<Rightarrow> ('a sharing \<times> 'st) option"
  v_redistribute_shares_b :: "'a::len sharing \<Rightarrow> 'st \<Rightarrow> (('a sharing \<times> 'a sharing) \<times> 'st) option"
  v_div_const_a :: "'a::len sharing \<Rightarrow> 'a word \<Rightarrow> 'st \<Rightarrow> (('a sharing \<times> 'a sharing) \<times> 'st) option"

section \<open>Local methods\<close>

definition handle_precision :: "'a::len sharing \<Rightarrow> 'a sharing \<Rightarrow> 'a sharing \<Rightarrow> 'a sharing option" where
  "handle_precision x y z =
     (if map prec x \<noteq> map prec y then None else Some (map2 matchPrecision z x))"

definition add_a :: "'a::len sharing \<Rightarrow> 'a sharing \<Rightarrow> 'a sharing" where
  "add_a x y = map2 (evec_op (+)) x y"

definition sub_a :: "'a::len sharing \<Rightarrow> 'a sharing \<Rightarrow> 'a sharing" where
  "sub_a x y = map2 (evec_op (-)) x y"

definition neg_a :: "'a::len sharing \<Rightarrow> 'a sharing" where
  "neg_a x = map (evec_unop uminus) x"

definition xor_b :: "'a::len sharing \<Rightarrow> 'a sharing \<Rightarrow> 'a sharing" where
  "xor_b x y = map2 (evec_op (XOR)) x y"

definition p_pack_from :: "'a::len sharing \<Rightarrow> 'a sharing \<Rightarrow> nat \<Rightarrow> 'a sharing" where
  "p_pack_from source destination pos =
     map2 (apply_input (\<lambda>t s. pack_from t s pos)) destination source"

definition p_unpack_from :: "'a::len sharing \<Rightarrow> 'a sharing \<Rightarrow> nat \<Rightarrow> 'a sharing" where
  "p_unpack_from source destination pos =
     map2 (apply_input (\<lambda>t s. unpack_from t s pos)) destination source"

definition p_bit_arithmetic_right_shift :: "'a::len sharing \<Rightarrow> nat \<Rightarrow> 'a sharing" where
  "p_bit_arithmetic_right_shift x s = map (apply_return (bit_arithmetic_right_shift s)) x"

definition p_bit_logical_right_shift :: "'a::len sharing \<Rightarrow> nat \<Rightarrow> 'a sharing" where
  "p_bit_logical_right_shift x s = map (apply_return (bit_logical_right_shift s)) x"

definition p_bit_left_shift :: "'a::len sharing \<Rightarrow> nat \<Rightarrow> 'a sharing" where
  "p_bit_left_shift x s = map (apply_return (bit_left_shift s)) x"

definition p_bit_xor :: "'a::len sharing \<Rightarrow> 'a sharing" where
  "p_bit_xor x = map (apply_return bit_xor) x"

definition p_extend_lsb :: "'a::len sharing \<Rightarrow> 'a sharing" where
  "p_extend_lsb x = map (apply_return extend_lsb) x"

definition p_mask :: "'a::len sharing \<Rightarrow> 'a word \<Rightarrow> 'a sharing" where
  "p_mask x n = map (apply_to (mask_vec n)) x"

definition p_ltz :: "'a::len sharing \<Rightarrow> 'a sharing" where
  "p_ltz x = map (apply_return ltz_vec) x"

definition p_construct_like :: "'a::len sharing \<Rightarrow> nat \<Rightarrow> 'a sharing" where
  "p_construct_like x s = map (\<lambda>e. construct_like e s) x"

definition p_setPrecision :: "nat \<Rightarrow> 'a::len sharing \<Rightarrow> 'a sharing" where
  "p_setPrecision q x = map (setPrecision q) x"

definition p_decomp :: "'a::len sharing \<Rightarrow> nat \<Rightarrow> 'a sharing" where
  "p_decomp x i = map (\<lambda>e. evec_bit_decomposition e ! i) x"

definition sh_size :: "'a::len sharing \<Rightarrow> nat" where
  "sh_size x = evec_size (x ! 0)"

definition compressed_size :: "'a::len sharing \<Rightarrow> nat" where
  "compressed_size x =
     sh_size x div LENGTH('a) + (if sh_size x mod LENGTH('a) > 0 then 1 else 0)"

section \<open>Default methods over the virtual ones\<close>

definition inplace_invert_b :: "('a::len, 'st) protocol \<Rightarrow> 'a sharing \<Rightarrow> 'a sharing" where
  "inplace_invert_b P x = v_not_b P x"

definition or_b ::
  "('a::len, 'st) protocol \<Rightarrow> 'a sharing \<Rightarrow> 'a sharing \<Rightarrow> 'st \<Rightarrow> ('a sharing \<times> 'st) option" where
  "or_b P x y st = do {
     let tmp1 = v_not_b P x;
     let tmp2 = v_not_b P y;
     (tmp1, st) \<leftarrow> v_and_b P tmp1 tmp2 st;
     Some (v_not_b P tmp1, st)
   }"

definition truncate_default :: "('a::len, 'st) protocol \<Rightarrow> 'a sharing \<Rightarrow> 'st \<Rightarrow> ('a sharing \<times> 'st) option" where
  "truncate_default P x st =
     (let precision = prec (x ! 0) in
      if precision = 0 then Some (x, st)
      else if 31 < precision then None
      else do {
        let divisor = scast (push_bit precision (1 :: 32 word));
        ((res, err), st) \<leftarrow> v_div_const_a P x divisor st;
        Some (p_setPrecision precision res, st)
      })"

section \<open>What the local methods do to a sharing\<close>

lemma xor_sharing [share_simps]:
  assumes "is_sharing n k q m X" and "is_sharing n k q' m Y" and "0 < k" and "0 < n"
  shows "is_sharing n k q m (xor_b X Y)" and "reveal_b (xor_b X Y) = vxor (reveal_b X) (reveal_b Y)"
proof -
  have e: "xor_b X Y = map2 (apply_input vxor) X Y"
    unfolding xor_b_def by (rule map_cong) (auto simp: evec_op_def apply_input_def vec_op_def vxor_def intro: map_cong)
  show "is_sharing n k q m (xor_b X Y)" "reveal_b (xor_b X Y) = vxor (reveal_b X) (reveal_b Y)"
    using reveal_b_linear2 [OF assms xor_hom2_vxor e] by simp_all
qed

lemma shift_sharing:
  assumes "is_sharing n k q m X" and "0 < k" and "0 < n"
  shows "is_sharing n k q m (p_bit_arithmetic_right_shift X s)"
    "reveal_b (p_bit_arithmetic_right_shift X s) = bit_arithmetic_right_shift s (reveal_b X)"
    "is_sharing n k q m (p_bit_logical_right_shift X s)"
    "reveal_b (p_bit_logical_right_shift X s) = bit_logical_right_shift s (reveal_b X)"
    "is_sharing n k q m (p_bit_left_shift X s)"
    "reveal_b (p_bit_left_shift X s) = bit_left_shift s (reveal_b X)"
  using reveal_b_linear [OF assms xor_hom_elementwise(1) disjI1, OF p_bit_arithmetic_right_shift_def]
    reveal_b_linear [OF assms xor_hom_elementwise(2) disjI1, OF p_bit_logical_right_shift_def]
    reveal_b_linear [OF assms xor_hom_elementwise(3) disjI1, OF p_bit_left_shift_def]
  by simp_all

lemma bitfun_sharing:
  assumes "is_sharing n k q m X" and "0 < k" and "0 < n"
  shows "is_sharing n k q m (p_mask X w)" "reveal_b (p_mask X w) = mask_vec w (reveal_b X)"
    "is_sharing n k q m (p_ltz X)" "reveal_b (p_ltz X) = ltz_vec (reveal_b X)"
    "is_sharing n k q m (p_extend_lsb X)" "reveal_b (p_extend_lsb X) = extend_lsb (reveal_b X)"
    "is_sharing n k q m (p_bit_xor X)" "reveal_b (p_bit_xor X) = bit_xor (reveal_b X)"
  using reveal_b_linear [OF assms xor_hom_elementwise(4) disjI2, OF p_mask_def]
    reveal_b_linear [OF assms xor_hom_elementwise(5) disjI1, OF p_ltz_def]
    reveal_b_linear [OF assms xor_hom_elementwise(6) disjI1, OF p_extend_lsb_def]
    reveal_b_linear [OF assms xor_hom_elementwise(7) disjI1, OF p_bit_xor_def]
  by simp_all

lemma compressed_size_div_ceil:
  fixes X :: "'a::len sharing"
  assumes "is_sharing n k q m X" and "0 < k" and "0 < n"
  shows "compressed_size X = div_ceil m LENGTH('a)"
proof -
  have "sh_size X = m" using assms by (simp add: sh_size_def is_sharing_size)
  then show ?thesis by (simp add: compressed_size_def div_ceil_div)
qed

lemma pack_sharing:
  fixes X :: "'a::len sharing"
  assumes "is_sharing n k q m X" and "is_sharing n k q' c D" and "c = div_ceil m LENGTH('a)"
    and "0 < k" and "0 < n"
  shows "is_sharing n k q' c (p_pack_from X D pos)"
    and "j < m \<Longrightarrow> bit (reveal_b (p_pack_from X D pos) ! (j div LENGTH('a))) (j mod LENGTH('a))
        = bit (reveal_b X ! j) pos"
proof -
  let ?w = "LENGTH('a)" and ?F = "\<lambda>t s :: 'a vec. pack_from t s pos"
  have c: "m \<le> c * ?w" using assms(3) by (simp add: div_ceil_bounds)
  have z: "i * ?w < m" if "i < c" for i using that assms(3) by (simp add: div_ceil_less_iff)
  have hom: "xor_hom2 c m c ?F"
    unfolding xor_hom2_def
  proof (intro conjI allI impI)
    fix t t' s s' :: "'a vec"
    assume l: "length t = c" "length t' = c" "length s = m" "length s' = m"
    show "pack_from (vxor t t') (vxor s s') pos = vxor (pack_from t s pos) (pack_from t' s' pos)"
    proof (rule vec_eqI)
      fix i assume i: "i < length (pack_from (vxor t t') (vxor s s') pos)"
      then have "i * ?w < m" by (simp add: z l)
      then show "pack_from (vxor t t') (vxor s s') pos ! i
          = vxor (pack_from t s pos) (pack_from t' s' pos) ! i"
        using i l c
        by (intro bit_word_eqI) (auto simp: pack_from_def Let_def bit_pack_word bit_simps min_absorb2)
    qed (simp add: l)
  qed simp
  note r = reveal_b_linear2 [OF assms(2,1,4,5) hom p_pack_from_def]
  show "is_sharing n k q' c (p_pack_from X D pos)" by (rule r)
  assume "j < m"
  then show "bit (reveal_b (p_pack_from X D pos) ! (j div ?w)) (j mod ?w) = bit (reveal_b X ! j) pos"
    using r(2) c length_reveal(1) [OF assms(1,4,5)] length_reveal(1) [OF assms(2,4,5)]
    by (simp add: pack_from_bit)
qed

lemma unpack_sharing:
  fixes X :: "'a::len sharing"
  assumes "is_sharing n k q c X" and "is_sharing n k q' m D" and "c = div_ceil m LENGTH('a)"
    and "0 < k" and "0 < n"
  shows "is_sharing n k q' m (p_unpack_from X D pos)"
    and "j < m \<Longrightarrow> i < LENGTH('a) \<Longrightarrow> bit (reveal_b (p_unpack_from X D pos) ! j) i
        = (if i = pos then bit (reveal_b X ! (j div LENGTH('a))) (j mod LENGTH('a))
           else bit (reveal_b D ! j) i)"
proof -
  have "m \<le> c * LENGTH('a)" using assms(3) by (simp add: div_ceil_bounds)
  note r = reveal_b_linear2 [OF assms(2,1,4,5) xor_hom2_unpack [OF this] p_unpack_from_def]
  show "is_sharing n k q' m (p_unpack_from X D pos)" by (rule r)
  assume "j < m" "i < LENGTH('a)"
  then show "bit (reveal_b (p_unpack_from X D pos) ! j) i
      = (if i = pos then bit (reveal_b X ! (j div LENGTH('a))) (j mod LENGTH('a))
         else bit (reveal_b D ! j) i)"
    using r(2) length_reveal(1) [OF assms(2,4,5)] by (simp add: unpack_from_bit)
qed

lemma construct_sharing:
  assumes "is_sharing n k q m X" and "0 < k" and "0 < n"
  shows "is_sharing n k q s (p_construct_like X s)"
    and "reveal_b (p_construct_like X s) = replicate s 0"
proof -
  from assms(1) obtain xs where xs: "X = share_out k q xs" "length xs = n" by (elim is_sharingE)
  have e: "p_construct_like X s = share_out k q (map (\<lambda>_. replicate s 0) xs)"
    unfolding p_construct_like_def xs(1) by (rule construct_like_share_out)
  show "is_sharing n k q s (p_construct_like X s)"
    unfolding e using assms xs by (simp add: is_sharing_share_out)
  have "vxor_all s (map (\<lambda>_. replicate s 0) ys) = replicate s 0" for ys :: "'b list"
    by (induction ys) auto
  then show "reveal_b (p_construct_like X s) = replicate s 0"
    unfolding e using assms xs by (subst reveal_b_share_out [where m = s]) auto
qed

lemma setPrecision_sharing:
  assumes "is_sharing n k q m X" and "0 < k" and "0 < n"
  shows "is_sharing n k q' m (p_setPrecision q' X)" and "reveal_b (p_setPrecision q' X) = reveal_b X"
    and "reveal_a (p_setPrecision q' X) = reveal_a X"
proof -
  from assms(1) obtain xs where xs: "X = share_out k q xs" "length xs = n" "\<forall>x \<in> set xs. length x = m"
    by (elim is_sharingE)
  have e: "p_setPrecision q' X = share_out k q' xs"
    unfolding p_setPrecision_def xs(1) by (rule setPrecision_share_out)
  show "is_sharing n k q' m (p_setPrecision q' X)"
    unfolding e using assms xs by (simp add: is_sharing_share_out)
  have "xs \<noteq> []" using xs(2) assms(3) by auto
  then show "reveal_b (p_setPrecision q' X) = reveal_b X" "reveal_a (p_setPrecision q' X) = reveal_a X"
    using e xs(1,3) assms(2)
    by (simp_all add: reveal_b_share_out [where m = m] reveal_a_share_out [where m = m])
qed

lemma decomp_sharing:
  fixes X :: "'a::len sharing"
  assumes "is_sharing n k q m X" and "0 < k" and "0 < n" and "i < LENGTH('a)"
  shows "is_sharing n k q (div_ceil m LENGTH('a)) (p_decomp X i)"
    and "j < m \<Longrightarrow> bit (reveal_b (p_decomp X i) ! (j div LENGTH('a))) (j mod LENGTH('a))
        = bit (reveal_b X ! j) i"
proof -
  let ?c = "div_ceil m LENGTH('a)"
  from assms(1) obtain xs where xs: "X = share_out k q xs" "length xs = n" "\<forall>x \<in> set xs. length x = m"
    by (elim is_sharingE)
  let ?D = "share_out k q (map (\<lambda>_. replicate ?c 0) xs)"
  have D: "is_sharing n k q ?c ?D" using assms(2) xs(2) by (simp add: is_sharing_share_out)
  have "p_decomp X i = share_out k q (map (\<lambda>v. bit_decomposition v ! i) xs)"
    unfolding p_decomp_def xs(1) by (rule bit_decomposition_share_out [OF assms(2,4)])
  also have "map (\<lambda>v. bit_decomposition v ! i) xs
      = map2 (\<lambda>t s. pack_from t s i) (map (\<lambda>_. replicate ?c 0) xs) xs"
    using xs(3) by (auto simp: nth_bit_decomposition [OF assms(4)] intro!: nth_equalityI)
  also have "share_out k q \<dots> = p_pack_from X ?D i"
    unfolding p_pack_from_def xs(1) by (subst apply_input_share_out) simp_all
  finally have e: "p_decomp X i = p_pack_from X ?D i" .
  show "is_sharing n k q ?c (p_decomp X i)"
    and "j < m \<Longrightarrow> bit (reveal_b (p_decomp X i) ! (j div LENGTH('a))) (j mod LENGTH('a))
        = bit (reveal_b X ! j) i"
    unfolding e using pack_sharing [OF assms(1) D refl assms(2,3)] by simp_all
qed

lemma handle_precision_ok:
  assumes "is_sharing n k q m X" and "is_sharing n k q m Y" and "is_sharing n k q' m' Z"
  shows "handle_precision X Y Z = Some (p_setPrecision q Z)"
proof -
  have l: "length X = n" "length Y = n" "length Z = n"
    using assms by (simp_all add: is_sharing_length)
  have "map prec X = map prec Y"
    using assms l by (auto simp: is_sharing_prec intro!: nth_equalityI)
  moreover have "map2 matchPrecision Z X = p_setPrecision q Z"
    using l is_sharing_prec [OF assms(1)]
    by (auto simp: p_setPrecision_def matchPrecision_def setPrecision_def intro!: nth_equalityI)
  ultimately show ?thesis by (simp add: handle_precision_def)
qed

end
