(* ===== verification/Carry.thy ===== *)
theory Carry
  imports Prelude
begin

text \<open>
  Carries of binary addition.  \<open>carry a b c i\<close> is the carry into bit \<open>i\<close> of \<open>a + b + c\<close>, by
  the recurrence the ripple-carry circuit evaluates; \<open>gen\<close> and \<open>propg\<close> are the generate and
  propagate predicates of a window of bits, which the parallel-prefix circuit combines in
  doubling windows.  The lemmas connect both with addition of words.
\<close>

fun carry :: "'a::len word \<Rightarrow> 'a word \<Rightarrow> bool \<Rightarrow> nat \<Rightarrow> bool" where
  "carry a b c 0 = c"
| "carry a b c (Suc i) = ((((carry a b c i) \<noteq> bit a i) \<and> (bit a i \<noteq> bit b i)) \<noteq> bit a i)"

definition gen :: "(nat \<Rightarrow> bool) \<Rightarrow> (nat \<Rightarrow> bool) \<Rightarrow> nat \<Rightarrow> nat \<Rightarrow> bool" where
  "gen g p i d \<longleftrightarrow> (\<exists>t. t < d \<and> t \<le> i \<and> g (i - t) \<and> (\<forall>s < t. p (i - s)))"

definition propg :: "(nat \<Rightarrow> bool) \<Rightarrow> nat \<Rightarrow> nat \<Rightarrow> bool" where
  "propg p i d \<longleftrightarrow> d \<le> Suc i \<and> (\<forall>s < d. p (i - s))"

section \<open>Ripple carries\<close>

lemma nat_add_carry_div:
  fixes x y c :: nat
  assumes "c \<le> 1"
  shows "(x + y + c) div 2 ^ i = x div 2 ^ i + y div 2 ^ i
      + (if 2 ^ i \<le> x mod 2 ^ i + y mod 2 ^ i + c then 1 else 0)"
proof -
  define k :: nat where "k = 2 ^ i"
  have k: "0 < k" by (simp add: k_def)
  have m: "x mod k < k" "y mod k < k" using k by simp_all
  have "x + y + c = (x mod k + y mod k + c) + (x div k + y div k) * k"
    by (metis (no_types, lifting) add.assoc add.commute add_mult_distrib mod_div_decomp mult.commute)
  then have "(x + y + c) div k = (x div k + y div k) + (x mod k + y mod k + c) div k"
    using k by (metis add.commute div_mult_self3 less_numeral_extra(3))
  moreover have "(x mod k + y mod k + c) div k = (if k \<le> x mod k + y mod k + c then 1 else 0)"
  proof (cases "k \<le> x mod k + y mod k + c")
    case True
    moreover have "x mod k + y mod k + c < k + k" using m assms by linarith
    ultimately have "(x mod k + y mod k + c) div k = 1" by (intro div_nat_eqI) simp_all
    with True show ?thesis by simp
  qed simp
  ultimately show ?thesis by (simp add: k_def)
qed

lemma mod_Suc_bit: "(x::nat) mod 2 ^ Suc i = x mod 2 ^ i + (if bit x i then 2 ^ i else 0)"
  by (simp add: mod_mult2_eq power_Suc2 bit_iff_odd mod_2_eq_odd del: power_Suc)

lemma carry_unfold_nat:
  fixes a b :: "'a::len word"
  assumes "i \<le> LENGTH('a)"
  shows "carry a b c i \<longleftrightarrow> 2 ^ i \<le> unat a mod 2 ^ i + unat b mod 2 ^ i + of_bool c"
  using assms
proof (induction i)
  case 0
  then show ?case by simp
next
  case (Suc i)
  define x y where "x = unat a mod 2 ^ i" and "y = unat b mod 2 ^ i"
  have l: "x < 2 ^ i" "y < 2 ^ i" by (simp_all add: x_def y_def)
  have IH: "carry a b c i \<longleftrightarrow> 2 ^ i \<le> x + y + of_bool c"
    using Suc by (simp add: x_def y_def)
  have bits: "bit (unat a) i = bit a i" "bit (unat b) i = bit b i"
    using Suc.prems by (simp_all add: bit_unsigned_iff)
  have "unat a mod 2 ^ Suc i = x + (if bit a i then 2 ^ i else 0)"
       "unat b mod 2 ^ Suc i = y + (if bit b i then 2 ^ i else 0)"
    unfolding mod_Suc_bit bits by (simp_all add: x_def y_def)
  with l IH show ?case by (cases "bit a i"; cases "bit b i") auto
qed

lemma bit_add_carry:
  fixes a b :: "'a::len word"
  assumes "i < LENGTH('a)"
  shows "bit (a + b + of_bool c) i = ((bit a i \<noteq> bit b i) \<noteq> carry a b c i)"
proof -
  have "a + b + of_bool c = word_of_nat (unat a + unat b + of_bool c)"
    by simp
  then have "bit (a + b + of_bool c) i = bit (unat a + unat b + of_bool c) i"
    using assms by (simp only: bit_simps) simp
  also have "\<dots> = odd ((unat a + unat b + of_bool c) div 2 ^ i)"
    by (simp add: bit_iff_odd)
  also have "\<dots> = ((bit (unat a) i \<noteq> bit (unat b) i) \<noteq> carry a b c i)"
    using assms by (subst nat_add_carry_div) (auto simp: carry_unfold_nat bit_iff_odd)
  finally show ?thesis using assms by (simp add: bit_unsigned_iff)
qed

section \<open>Windows of generate and propagate\<close>

lemma gen_one: "gen g p i 1 = g i"
  by (auto simp: gen_def)

lemma propg_one: "propg p i 1 = p i"
  by (auto simp: propg_def)

lemmas window_one = gen_one propg_one gen_one [unfolded One_nat_def] propg_one [unfolded One_nat_def]

lemma propg_add: "propg p i (d + e) \<longleftrightarrow> propg p i d \<and> (e = 0 \<or> d \<le> i \<and> propg p (i - d) e)"
proof -
  have "(\<forall>s < d + e. p (i - s)) \<longleftrightarrow> (\<forall>s < d. p (i - s)) \<and> (\<forall>s < e. p (i - d - s))"
    by (auto simp: less_diff_conv2 dest: spec [of _ "_ + d"])
      (metis add_diff_inverse_nat diff_diff_add nat_add_left_cancel_less)
  then show ?thesis by (auto simp: propg_def)
qed

lemma gen_mono: "gen g p i d \<Longrightarrow> d \<le> d' \<Longrightarrow> gen g p i d'"
  unfolding gen_def by (meson less_le_trans)

lemma gen_add: "gen g p i (d + e) \<longleftrightarrow> gen g p i d \<or> d \<le> i \<and> propg p i d \<and> gen g p (i - d) e"
proof
  assume "gen g p i (d + e)"
  then obtain t where t: "t < d + e" "t \<le> i" "g (i - t)" "\<forall>s < t. p (i - s)"
    by (auto simp: gen_def)
  show "gen g p i d \<or> d \<le> i \<and> propg p i d \<and> gen g p (i - d) e"
  proof (cases "t < d")
    case False
    then have "p (i - d - s)" if "s < t - d" for s
      using t(4) that by (metis diff_diff_left less_diff_conv add.commute)
    with False t have "gen g p (i - d) e"
      by (auto simp: gen_def intro!: exI [of _ "t - d"])
    moreover have "propg p i d" using False t by (auto simp: propg_def)
    ultimately show ?thesis using False t by simp
  qed (use t in \<open>auto simp: gen_def\<close>)
next
  assume "gen g p i d \<or> d \<le> i \<and> propg p i d \<and> gen g p (i - d) e"
  then show "gen g p i (d + e)"
  proof
    assume *: "d \<le> i \<and> propg p i d \<and> gen g p (i - d) e"
    then obtain t where t: "t < e" "t \<le> i - d" "g (i - d - t)" "\<forall>s < t. p (i - d - s)"
      by (auto simp: gen_def)
    have "p (i - s)" if "s < d + t" for s
      using that * t(4) by (cases "s < d") (auto simp: propg_def dest: spec [of _ "s - d"])
    with * t show "gen g p i (d + e)"
      by (auto simp: gen_def intro!: exI [of _ "d + t"])
  qed (simp add: gen_mono)
qed

lemma gen_Suc:
  "gen g p (Suc i) (Suc (Suc d)) \<longleftrightarrow> g (Suc i) \<or> p (Suc i) \<and> gen g p i (Suc d)"
  using gen_add [of g p "Suc i" 1 "Suc d"] by (simp add: window_one)

lemma gen_carry:
  fixes a b :: "'a::len word"
  assumes "i < d" and g0: "g 0 = carry a b c 1"
    and "\<And>j. 0 < j \<Longrightarrow> j \<le> i \<Longrightarrow> g j = (bit a j \<and> bit b j)"
    and "\<And>j. 0 < j \<Longrightarrow> j \<le> i \<Longrightarrow> p j = (bit a j \<noteq> bit b j)"
  shows "gen g p i d = carry a b c (Suc i)"
  using assms(1,3,4)
proof (induction i arbitrary: d)
  case 0
  then show ?case using g0 by (auto simp: gen_def)
next
  case (Suc i)
  then obtain d' where d: "d = Suc (Suc d')" by (metis less_imp_Suc_add Suc_lessE add_Suc)
  have "gen g p i (Suc d') = carry a b c (Suc i)"
    using Suc d by simp
  with Suc.prems show ?case
    by (auto simp: d gen_Suc)
qed

section \<open>Order by the highest differing bit\<close>

definition same_above :: "'a::len word \<Rightarrow> 'a word \<Rightarrow> nat \<Rightarrow> bool" where
  "same_above x y i \<longleftrightarrow> (\<forall>t. i \<le> t \<longrightarrow> t < LENGTH('a) \<longrightarrow> bit x t = bit y t)"

lemma highest_bit_less:
  fixes x y :: "'a::len word"
  assumes "same_above x y (Suc i)" and "bit x i" and "\<not> bit y i"
  shows "uint y < uint x"
proof -
  have i: "i < LENGTH('a)" using assms(2) by (rule bit_imp_le_length)
  have "drop_bit (Suc i) x = drop_bit (Suc i) y"
  proof (rule bit_word_eqI)
    fix t assume "t < LENGTH('a)"
    have "bit x (Suc i + t) = bit y (Suc i + t)"
      using assms(1) unfolding same_above_def by (metis bit_imp_le_length le_add1)
    then show "bit (drop_bit (Suc i) x) t = bit (drop_bit (Suc i) y) t" by (simp add: bit_simps)
  qed
  then have "unat x div 2 ^ Suc i = unat y div 2 ^ Suc i"
    by (metis unsigned_drop_bit_eq drop_bit_eq_div unsigned_take_bit_eq take_bit_word_eq_self order_refl)
  then have d: "unat x div 2 ^ i div 2 = unat y div 2 ^ i div 2"
    by (simp add: div_mult2_eq power_Suc2 del: power_Suc)
  have o: "odd (unat w div 2 ^ i) = bit w i" for w :: "'a word"
    using i by (simp add: bit_unsigned_iff flip: bit_iff_odd)
  have "odd (unat x div 2 ^ i)" "\<not> odd (unat y div 2 ^ i)"
    unfolding o using assms(2,3) by simp_all
  moreover have "a div 2 = b div 2 \<Longrightarrow> odd a \<Longrightarrow> \<not> odd b \<Longrightarrow> b < a" for a b :: nat
    by presburger
  ultimately have "unat y div 2 ^ i < unat x div 2 ^ i" using d by blast
  then have "unat y < unat x" by (meson div_le_mono not_le)
  then show ?thesis by (simp add: word_less_nat_alt flip: word_less_def)
qed

lemma highest_bit_exists:
  fixes x y :: "'a::len word"
  assumes "x \<noteq> y"
  obtains i where "i < LENGTH('a)" and "same_above x y (Suc i)" and "bit x i \<noteq> bit y i"
proof -
  let ?D = "{i. i < LENGTH('a) \<and> bit x i \<noteq> bit y i}"
  have ne: "?D \<noteq> {}" using assms by (auto intro: bit_word_eqI)
  have "Max ?D \<in> ?D" by (rule Max_in) (use ne in simp_all)
  moreover have "same_above x y (Suc (Max ?D))"
    unfolding same_above_def
  proof (intro allI impI, rule ccontr)
    fix t assume t: "Suc (Max ?D) \<le> t" "t < LENGTH('a)" "bit x t \<noteq> bit y t"
    then have "t \<in> ?D" by simp
    then have "t \<le> Max ?D" by (intro Max_ge) simp_all
    with t(1) show False by linarith
  qed
  ultimately show thesis using that by blast
qed

lemma sint_uint_sign:
  "sint (x :: 'a::len word) = uint x - (if bit x (LENGTH('a) - 1) then 2 ^ LENGTH('a) else 0)"
proof -
  have e: "sint x = signed_take_bit (LENGTH('a) - 1) (uint x)" by (simp add: sint_uint)
  have t: "take_bit (Suc (LENGTH('a) - 1)) (uint x) = uint x"
    by (simp add: take_bit_int_eq_self uint_lt2p)
  show ?thesis
    unfolding e signed_take_bit_eq_take_bit_minus t
    by (simp add: bit_uint_iff)
qed

lemma signed_less_iff:
  fixes x y :: "'a::len word"
  assumes "bit x (LENGTH('a) - 1) = bit y (LENGTH('a) - 1)"
  shows "sint y < sint x \<longleftrightarrow>
    (\<exists>i < LENGTH('a) - 1. same_above x y (Suc i) \<and> bit x i \<and> \<not> bit y i)"
proof
  assume "sint y < sint x"
  then have lt: "uint y < uint x" using assms by (simp add: sint_uint_sign)
  then obtain i where i: "i < LENGTH('a)" "same_above x y (Suc i)" "bit x i \<noteq> bit y i"
    by (metis highest_bit_exists less_irrefl)
  have "bit x i"
    using highest_bit_less [of y x i] i lt by (auto simp: same_above_def)
  moreover have "i \<noteq> LENGTH('a) - 1" using i(3) assms by auto
  ultimately show "\<exists>i < LENGTH('a) - 1. same_above x y (Suc i) \<and> bit x i \<and> \<not> bit y i"
    using i by (intro exI [of _ i]) auto
next
  assume "\<exists>i < LENGTH('a) - 1. same_above x y (Suc i) \<and> bit x i \<and> \<not> bit y i"
  then have "uint y < uint x" using highest_bit_less by blast
  then show "sint y < sint x" using assms by (simp add: sint_uint_sign)
qed

lemma signed_less_signs:
  fixes x y :: "'a::len word"
  assumes "bit x (LENGTH('a) - 1) \<noteq> bit y (LENGTH('a) - 1)"
  shows "sint y < sint x \<longleftrightarrow> bit y (LENGTH('a) - 1)"
proof -
  have "a < M \<Longrightarrow> b < M \<Longrightarrow> 0 \<le> a \<Longrightarrow> 0 \<le> b \<Longrightarrow> s \<noteq> t \<Longrightarrow>
      (b - (if t then M else 0) < a - (if s then M else 0)) = t" for a b M :: int and s t
    by (cases s; cases t) auto
  then show ?thesis
    unfolding sint_uint_sign using assms uint_ge_0 uint_lt2p by metis
qed

lemma same_above_0: "same_above x y 0 \<longleftrightarrow> x = y"
  by (auto simp: same_above_def intro: bit_word_eqI)

lemma same_above_step:
  fixes x y :: "'a::len word"
  assumes "i < LENGTH('a)"
  shows "same_above x y i \<longleftrightarrow> same_above x y (Suc i) \<and> bit x i = bit y i"
proof
  assume "same_above x y (Suc i) \<and> bit x i = bit y i"
  then show "same_above x y i"
    unfolding same_above_def by (metis Suc_leI le_neq_implies_less)
qed (use assms in \<open>auto simp: same_above_def\<close>)

end
