(* ===== verification/Vector_Algebra.thy ===== *)
theory Vector_Algebra
  imports Vector_Ops
begin

text \<open>
  Aggregating operations of \<open>Vector<T>\<close> (\<open>core/containers/mapping_access_vector.h\<close>): prefix sums,
  chunked sums, chunked dot products and the row-by-column matrix product (the loop that is
  compiled without the Blaze library).  Each is shown to be additive in every argument, which is
  what lets a linear secret sharing run it on the shares.
\<close>

section \<open>Definitions\<close>

primrec inclusive_scan :: "('a \<Rightarrow> 'a \<Rightarrow> 'a) \<Rightarrow> 'a \<Rightarrow> 'a list \<Rightarrow> 'a list" where
  "inclusive_scan f acc [] = []"
| "inclusive_scan f acc (x # xs) = f acc x # inclusive_scan f (f acc x) xs"

definition vec_prefix_sum :: "'a::len vec \<Rightarrow> 'a vec" where
  "vec_prefix_sum v = (case v of [] \<Rightarrow> [] | x # xs \<Rightarrow> x # inclusive_scan (+) x xs)"

definition aggSize' :: "nat \<Rightarrow> 'a::len vec \<Rightarrow> nat" where
  "aggSize' aggSize v = (if aggSize = 0 then length v else aggSize)"

definition chunkedSum :: "nat \<Rightarrow> 'a::len vec \<Rightarrow> 'a vec" where
  "chunkedSum aggSize v =
     (let a = aggSize' aggSize v; s = length v; newSize = div_ceil s a
      in map (\<lambda>i. foldl (\<lambda>acc j. acc + v ! j) 0 [i * a..<min (i * a + a) s]) [0..<newSize])"

definition dot_product :: "nat \<Rightarrow> 'a::len vec \<Rightarrow> 'a vec \<Rightarrow> 'a vec" where
  "dot_product aggSize v other =
     (let a = aggSize' aggSize v; s = length v; newSize = div_ceil s a
      in map (\<lambda>i. foldl (\<lambda>acc j. acc + v ! j * other ! j) 0 [i * a..<min (i * a + a) s]) [0..<newSize])"

definition matrixRightMultiplyWithColumnMatrixVectorized ::
  "nat \<Rightarrow> nat \<Rightarrow> nat \<Rightarrow> nat \<Rightarrow> 'a::len vec \<Rightarrow> 'a vec \<Rightarrow> 'a vec" where
  "matrixRightMultiplyWithColumnMatrixVectorized lhs_rows lhs_cols rhs_rows rhs_cols v rhs =
     (if lhs_cols = 0 \<or> rhs_rows = 0 then replicate (lhs_rows * rhs_cols) 0
      else concat (map (\<lambda>lhs_row. map (\<lambda>rhs_col.
             foldl (\<lambda>acc k. acc + v ! (lhs_row * lhs_cols + k) * rhs ! (rhs_col * rhs_rows + k)) 0
               [0..<lhs_cols]) [0..<rhs_cols]) [0..<lhs_rows]))"

section \<open>Sums\<close>

lemma foldl_sum: "foldl (\<lambda>acc j. acc + f j) c js = c + sum_list (map f js)" for c :: "'a::comm_monoid_add"
  by (induction js arbitrary: c) (simp_all add: ac_simps)

lemma nth_inclusive_scan:
  "i < length xs \<Longrightarrow> inclusive_scan (+) acc xs ! i = acc + sum_list (take (Suc i) xs)"
  for acc :: "'a::comm_monoid_add"
  by (induction xs arbitrary: i acc) (auto simp: nth_Cons ac_simps split: nat.splits)

lemma length_inclusive_scan [simp]: "length (inclusive_scan f acc xs) = length xs"
  by (induction xs arbitrary: acc) simp_all

lemma length_vec_prefix_sum [simp, vec_simps]: "length (vec_prefix_sum v) = length v"
  by (simp add: vec_prefix_sum_def split: list.splits)

lemma nth_vec_prefix_sum:
  "i < length v \<Longrightarrow> vec_prefix_sum v ! i = sum_list (take (Suc i) v)"
  by (auto simp: vec_prefix_sum_def nth_Cons nth_inclusive_scan split: list.splits nat.splits)

lemma length_dot_product [simp, vec_simps]:
  "length (dot_product a x y) = div_ceil (length x) (aggSize' a x)"
  by (simp add: dot_product_def Let_def)

lemma length_chunkedSum [simp, vec_simps]:
  "length (chunkedSum a x) = div_ceil (length x) (aggSize' a x)"
  by (simp add: chunkedSum_def Let_def)

lemma length_matmul [simp, vec_simps]:
  "length (matrixRightMultiplyWithColumnMatrixVectorized r c r' c' x y) = r * c'"
  by (simp add: matrixRightMultiplyWithColumnMatrixVectorized_def length_concat comp_def sum_list_triv)

lemma nth_dot_product:
  "i < div_ceil (length x) (aggSize' a x) \<Longrightarrow> dot_product a x y ! i =
     (\<Sum>j \<leftarrow> [i * aggSize' a x..<min (i * aggSize' a x + aggSize' a x) (length x)]. x ! j * y ! j)"
  by (simp add: dot_product_def Let_def foldl_sum)

lemma nth_chunkedSum:
  "i < div_ceil (length x) (aggSize' a x) \<Longrightarrow> chunkedSum a x ! i =
     (\<Sum>j \<leftarrow> [i * aggSize' a x..<min (i * aggSize' a x + aggSize' a x) (length x)]. x ! j)"
  by (simp add: chunkedSum_def Let_def foldl_sum)

lemma nth_concat_rows:
  assumes "i < r * c"
  shows "concat (map (\<lambda>a. map (f a) [0..<c]) [0..<r]) ! i = f (i div c) (i mod c)"
  using assms
proof (induction r arbitrary: i)
  case (Suc r)
  have l: "length (concat (map (\<lambda>a. map (f a) [0..<c]) [0..<r])) = r * c"
    by (simp add: length_concat comp_def sum_list_triv)
  show ?case
  proof (cases "i < r * c")
    case True
    then show ?thesis using Suc.IH [of i] l by (simp add: nth_append)
  next
    case False
    with Suc.prems have "i - r * c < c" "i = r * c + (i - r * c)" by auto
    then have "i div c = r" "i mod c = i - r * c"
      by (metis div_mult_self3 div_less add.right_neutral add.commute not_less_zero gr_zeroI,
          metis mod_mult_self3 mod_less)
    then show ?thesis using False l \<open>i - r * c < c\<close> by (simp add: nth_append)
  qed
qed simp

lemma nth_matmul:
  assumes "0 < c" and "0 < r'" and "i < r * c'"
  shows "matrixRightMultiplyWithColumnMatrixVectorized r c r' c' x y ! i =
    (\<Sum>k \<leftarrow> [0..<c]. x ! (i div c' * c + k) * y ! (i mod c' * r' + k))"
  using assms by (simp add: matrixRightMultiplyWithColumnMatrixVectorized_def foldl_sum nth_concat_rows)

section \<open>Additivity in each argument\<close>

definition biadditive :: "nat \<Rightarrow> nat \<Rightarrow> nat \<Rightarrow> ('a::len vec \<Rightarrow> 'a vec \<Rightarrow> 'a vec) \<Rightarrow> bool" where
  "biadditive m1 m2 m' B \<longleftrightarrow>
     (\<forall>x y. length x = m1 \<longrightarrow> length y = m2 \<longrightarrow> length (B x y) = m') \<and>
     (\<forall>x x' y. length x = m1 \<longrightarrow> length x' = m1 \<longrightarrow> length y = m2 \<longrightarrow>
        B (vadd x x') y = vadd (B x y) (B x' y)) \<and>
     (\<forall>x y y'. length x = m1 \<longrightarrow> length y = m2 \<longrightarrow> length y' = m2 \<longrightarrow>
        B x (vadd y y') = vadd (B x y) (B x y'))"

lemma biadditive_mult: "biadditive m m m (vec_op (*))"
  by (auto simp: biadditive_def vec_op_def algebra_simps intro!: vec_eqI)

lemma sum_list_cong: "(\<And>j. j \<in> set js \<Longrightarrow> f j = g j) \<Longrightarrow> (\<Sum>j \<leftarrow> js. f j) = (\<Sum>j \<leftarrow> js. g j)"
  by (metis map_cong)

lemma biadditive_dot:
  "biadditive m m (div_ceil m (if a = 0 then m else a)) (dot_product a :: 'a::len vec \<Rightarrow> _)"
proof -
  define d where "d = (if a = 0 then m else a)"
  have d: "aggSize' a x = d" if "length x = m" for x :: "'a vec"
    using that by (simp add: aggSize'_def d_def)
  have "dot_product a (vadd x x') y = vadd (dot_product a x y) (dot_product a x' y)"
    "dot_product a y (vadd x x') = vadd (dot_product a y x) (dot_product a y x')"
    if "length x = m" "length x' = m" "length y = m" for x x' y :: "'a vec"
  proof -
    have l: "length (vadd x x') = m" using that by simp
    show "dot_product a (vadd x x') y = vadd (dot_product a x y) (dot_product a x' y)"
    proof (rule vec_eqI)
      fix i assume "i < length (dot_product a (vadd x x') y)"
      then have "i < div_ceil m d" using l d [OF l] by simp
      then show "dot_product a (vadd x x') y ! i = vadd (dot_product a x y) (dot_product a x' y) ! i"
        using that l d [OF l] d [OF that(1)] d [OF that(2)]
        by (auto simp: nth_dot_product sum_list_addf [symmetric] distrib_right intro!: sum_list_cong)
    qed (use that l d in simp)
    show "dot_product a y (vadd x x') = vadd (dot_product a y x) (dot_product a y x')"
    proof (rule vec_eqI)
      fix i assume "i < length (dot_product a y (vadd x x'))"
      then have "i < div_ceil m d" using that d [OF that(3)] by simp
      then show "dot_product a y (vadd x x') ! i = vadd (dot_product a y x) (dot_product a y x') ! i"
        using that d [OF that(3)]
        by (auto simp: nth_dot_product sum_list_addf [symmetric] distrib_left intro!: sum_list_cong)
    qed (use that d in simp)
  qed
  moreover have "length (dot_product a x y) = div_ceil m d" if "length x = m" for x y :: "'a vec"
    using that d [OF that] by simp
  ultimately show ?thesis unfolding biadditive_def d_def [symmetric] by simp
qed

lemma biadditive_matmul:
  "biadditive (r * c) (c * c') (r * c')
     (matrixRightMultiplyWithColumnMatrixVectorized r c c c' :: 'a::len vec \<Rightarrow> _)"
proof (cases "c = 0")
  case True
  then show ?thesis
    by (auto simp: biadditive_def matrixRightMultiplyWithColumnMatrixVectorized_def intro!: vec_eqI)
next
  case False
  let ?M = "matrixRightMultiplyWithColumnMatrixVectorized r c c c' :: 'a vec \<Rightarrow> _"
  have b: "i div c' * c + k < r * c" "i mod c' * c + k < c * c'" if "i < r * c'" "k < c" for i k
  proof -
    have "i div c' < r" using that(1) by (simp add: less_mult_imp_div_less)
    then have "Suc (i div c') * c \<le> r * c" by (intro mult_le_mono1) simp
    then show "i div c' * c + k < r * c" using that(2) by simp
    have "i mod c' < c'" using that(1) by (intro mod_less_divisor) (metis mult_0_right not_less_zero gr0I)
    then have "Suc (i mod c') * c \<le> c' * c" by (intro mult_le_mono1) simp
    then show "i mod c' * c + k < c * c'" using that(2) by (simp add: mult.commute)
  qed
  have "?M (vadd x x') y = vadd (?M x y) (?M x' y)"
    if "length x = r * c" "length x' = r * c" for x x' y :: "'a vec"
    using that False b
    by (auto simp: nth_matmul sum_list_addf [symmetric] distrib_right intro!: vec_eqI sum_list_cong)
  moreover have "?M x (vadd y y') = vadd (?M x y) (?M x y')"
    if "length y = c * c'" "length y' = c * c'" for x y y' :: "'a vec"
    using that False b
    by (auto simp: nth_matmul sum_list_addf [symmetric] distrib_left intro!: vec_eqI sum_list_cong)
  ultimately show ?thesis by (simp add: biadditive_def)
qed

end
