(* ===== verification/Replicated_3PC.thy ===== *)
theory Replicated_3PC
  imports Circuits Communication Vector_Algebra
begin

text \<open>
  The semi-honest three-party protocol of Araki et al. (\<open>core/protocols/replicated_3pc.h\<close>).
  Every method is the joint run of the three parties' code: the branches on \<open>partyID\<close> are the
  functions named after a party, run in an order in which every receive finds its message.
  Party \<open>p\<close> holds the columns \<open>x\<^sub>p\<close> and \<open>x\<^sub>p\<^sub>+\<^sub>1\<close>.
\<close>

section \<open>Running local code at the parties\<close>

primrec for_parties ::
  "nat list \<Rightarrow> (nat \<Rightarrow> 's manager \<Rightarrow> ('x \<times> 's manager) option) \<Rightarrow> ('a::len, 's) world
    \<Rightarrow> ('x list \<times> ('a, 's) world) option" where
  "for_parties [] f w = Some ([], w)"
| "for_parties (p # ps) f w = do {
     (x, m) \<leftarrow> f p (mgrs w ! p);
     (xs, w) \<leftarrow> for_parties ps f (w\<lparr>mgrs := (mgrs w)[p := m]\<rparr>);
     Some (x # xs, w)
   }"

definition pair_up :: "'a::len vec list \<Rightarrow> 'a vec list \<Rightarrow> 'a sharing" where
  "pair_up locals remotes = map2 (\<lambda>l r. \<lparr>cols = [l, r], prec = 0\<rparr>) locals remotes"

definition local_terms ::
  "('a::len vec \<Rightarrow> 'a vec \<Rightarrow> 'a vec) \<Rightarrow> ('a vec \<Rightarrow> 'a vec \<Rightarrow> 'a vec) \<Rightarrow> 'a evec \<Rightarrow> 'a evec \<Rightarrow> 'a vec \<Rightarrow> 'a vec" where
  "local_terms add B x y r =
     add (add (add r (B (col 0 x) (col 0 y))) (B (col 0 x) (col 1 y))) (B (col 1 x) (col 0 y))"

definition product_terms ::
  "('a::len vec \<Rightarrow> 'a vec \<Rightarrow> 'a vec) \<Rightarrow> ('a vec \<Rightarrow> 'a vec \<Rightarrow> 'a vec) \<Rightarrow> 'a evec \<Rightarrow> 'a evec \<Rightarrow> 'a vec \<Rightarrow> 'a vec" where
  "product_terms add B x y r =
     add (add (add (B (col 0 x) (col 0 y)) (B (col 0 x) (col 1 y))) (B (col 1 x) (col 0 y))) r"

section \<open>Truncation\<close>

definition truncate_P1 ::
  "'s cipher \<Rightarrow> 'a::len evec \<Rightarrow> ('a, 's) world \<Rightarrow> ('a evec \<times> ('a, 's) world) option" where
  "truncate_P1 aes x w =
     (if prec x = 0 then Some (x, w)
      else do {
        (r, m) \<leftarrow> draw aes (get_rel (mgrs w ! 1) 1) (evec_size x) (mgrs w ! 1);
        let w = w\<lparr>mgrs := (mgrs w)[1 := m]\<rparr>;
        let x0 = bit_arithmetic_right_shift (prec x) (vec_op (+) (col 0 x) (col 1 x));
        let x0 = vec_op (-) x0 r;
        let w = sendShares 3 1 x0 (- 1) w;
        Some (x\<lparr>cols := [x0, r]\<rparr>, w)
      })"

definition truncate_P2 ::
  "'s cipher \<Rightarrow> 'a::len evec \<Rightarrow> ('a, 's) world \<Rightarrow> ('a evec \<times> ('a, 's) world) option" where
  "truncate_P2 aes x w =
     (if prec x = 0 then Some (x, w)
      else do {
        let x1 = bit_arithmetic_right_shift (prec x) (col 1 x);
        (r, m) \<leftarrow> draw aes (get_rel (mgrs w ! 2) (- 1)) (evec_size x) (mgrs w ! 2);
        let w = w\<lparr>mgrs := (mgrs w)[2 := m]\<rparr>;
        Some (x\<lparr>cols := [r, x1]\<rparr>, w)
      })"

definition truncate_P0 :: "'a::len evec \<Rightarrow> ('a, 's) world \<Rightarrow> ('a evec \<times> ('a, 's) world) option" where
  "truncate_P0 x w =
     (if prec x = 0 then Some (x, w)
      else do {
        let x0 = bit_arithmetic_right_shift (prec x) (col 0 x);
        (x1, w) \<leftarrow> receiveShares 3 0 (col 1 x) 1 w;
        Some (x\<lparr>cols := [x0, x1]\<rparr>, w)
      })"

definition rep3_truncate ::
  "'s cipher \<Rightarrow> 'a::len sharing \<Rightarrow> ('a, 's) world \<Rightarrow> ('a sharing \<times> ('a, 's) world) option" where
  "rep3_truncate aes X w = do {
     (x1, w) \<leftarrow> truncate_P1 aes (X ! 1) w;
     (x2, w) \<leftarrow> truncate_P2 aes (X ! 2) w;
     (x0, w) \<leftarrow> truncate_P0 (X ! 0) w;
     Some ([x0, x1, x2], w)
   }"

section \<open>Multiplication and other products\<close>

text \<open>
  \<open>multiply_a\<close>, \<open>dot_product_a\<close> and the matrix product run the same steps around different
  local terms, with \<open>newSize\<close> the size of the result.
\<close>

definition rep3_product ::
  "'s cipher \<Rightarrow> ('a::len evec \<Rightarrow> 'a evec \<Rightarrow> 'a vec \<Rightarrow> 'a vec) \<Rightarrow> nat \<Rightarrow> 'a sharing \<Rightarrow> 'a sharing \<Rightarrow> ('a, 's) world
    \<Rightarrow> ('a sharing \<times> ('a, 's) world) option" where
  "rep3_product aes terms newSize X Y w = do {
     (rs, w) \<leftarrow> for_parties [0, 1, 2] (\<lambda>p m. getNextArithmetic aes newSize m) w;
     let locals = map (\<lambda>p. terms (X ! p) (Y ! p) (rs ! p)) [0, 1, 2];
     (remotes, w) \<leftarrow> exchangeShares 3 locals (replicate 3 (replicate newSize 0)) 2 1 w;
     Z \<leftarrow> handle_precision X Y (pair_up locals remotes);
     rep3_truncate aes Z w
   }"

definition rep3_multiply_a ::
  "'s cipher \<Rightarrow> 'a::len sharing \<Rightarrow> 'a sharing \<Rightarrow> ('a, 's) world \<Rightarrow> ('a sharing \<times> ('a, 's) world) option" where
  "rep3_multiply_a aes X Y w = rep3_product aes (local_terms (vec_op (+)) (vec_op (*))) (sh_size X) X Y w"

definition rep3_dot_product_a ::
  "'s cipher \<Rightarrow> nat \<Rightarrow> 'a::len sharing \<Rightarrow> 'a sharing \<Rightarrow> ('a, 's) world \<Rightarrow> ('a sharing \<times> ('a, 's) world) option" where
  "rep3_dot_product_a aes aggSize X Y w =
     rep3_product aes (product_terms (vec_op (+)) (dot_product aggSize)) (sh_size X div aggSize) X Y w"

definition rep3_matrix_product_a ::
  "'s cipher \<Rightarrow> nat \<Rightarrow> nat \<Rightarrow> nat \<Rightarrow> nat \<Rightarrow> nat \<Rightarrow> 'a::len sharing \<Rightarrow> 'a sharing \<Rightarrow> ('a, 's) world
    \<Rightarrow> ('a sharing \<times> ('a, 's) world) option" where
  "rep3_matrix_product_a aes z_size lhs_rows lhs_cols rhs_rows rhs_cols X Y w =
     rep3_product aes
       (product_terms (vec_op (+))
         (matrixRightMultiplyWithColumnMatrixVectorized lhs_rows lhs_cols rhs_rows rhs_cols))
       z_size X Y w"

section \<open>Division by a public constant\<close>

definition div_local ::
  "'s cipher \<Rightarrow> 'a::len evec \<Rightarrow> 'a word \<Rightarrow> nat \<Rightarrow> 's manager \<Rightarrow> (('a vec \<times> 'a vec) \<times> 's manager) option" where
  "div_local aes x c p m =
     (if p = 0 then do {
        (r, m) \<leftarrow> draw aes (get_rel m 1) (evec_size x) m;
        let x_sum = vec_op (+) (col 0 x) (col 1 x);
        let x_sum_neg = vec_unop (\<lambda>x. of_bool (sint x < 0)) x_sum;
        let res0 = vec_op (-) (vec_op (-) (vec_elem_op sdiv_w x_sum c) r) x_sum_neg;
        (r, m) \<leftarrow> draw aes (get_rel m 1) (evec_size x) m;
        let err0 = vec_op (-) (vec_op (+) (vec_elem_op smod_w x_sum c) (vec_elem_op (*) x_sum_neg c)) r;
        Some ((res0, err0), m)
      }
      else if p = 2 then do {
        let x_sum_neg = vec_unop (\<lambda>x. of_bool (sint x < 0)) (col 0 x);
        let res0 = vec_op (-) (vec_elem_op sdiv_w (col 0 x) c) x_sum_neg;
        let err0 = vec_elem_op (-) (vec_op (+) (vec_elem_op smod_w (col 0 x) c) (vec_elem_op (*) x_sum_neg c)) c;
        Some ((res0, err0), m)
      }
      else do {
        (res0, m) \<leftarrow> draw aes (get_rel m (- 1)) (evec_size x) m;
        (err0, m) \<leftarrow> draw aes (get_rel m (- 1)) (evec_size x) m;
        Some ((res0, err0), m)
      })"

definition rep3_div_const_a ::
  "'s cipher \<Rightarrow> 'a::len sharing \<Rightarrow> 'a word \<Rightarrow> ('a, 's) world
    \<Rightarrow> (('a sharing \<times> 'a sharing) \<times> ('a, 's) world) option" where
  "rep3_div_const_a aes X c w = do {
     (rs, w) \<leftarrow> for_parties [0, 1, 2] (\<lambda>p. div_local aes (X ! p) c p) w;
     let bufs = replicate 3 (replicate (sh_size X) 0);
     (res1, w) \<leftarrow> exchangeShares 3 (map fst rs) bufs 2 1 w;
     (err1, w) \<leftarrow> exchangeShares 3 (map snd rs) bufs 2 1 w;
     Some ((pair_up (map fst rs) res1, pair_up (map snd rs) err1), w)
   }"

section \<open>Boolean operations\<close>

definition rep3_and_b ::
  "'s cipher \<Rightarrow> 'a::len sharing \<Rightarrow> 'a sharing \<Rightarrow> ('a, 's) world \<Rightarrow> ('a sharing \<times> ('a, 's) world) option" where
  "rep3_and_b aes X Y w = do {
     (rs, w) \<leftarrow> for_parties [0, 1, 2] (\<lambda>p m. getNextBinary aes (evec_size (X ! p)) m) w;
     let locals = map (\<lambda>p. local_terms (vec_op (XOR)) (vec_op (AND)) (X ! p) (Y ! p) (rs ! p)) [0, 1, 2];
     (remotes, w) \<leftarrow> exchangeShares 3 locals (replicate 3 (replicate (sh_size X) 0)) 2 1 w;
     Z \<leftarrow> handle_precision X Y (pair_up locals remotes);
     Some (Z, w)
   }"

definition rep3_not_b :: "'a::len sharing \<Rightarrow> 'a sharing" where
  "rep3_not_b X = map (evec_unop NOT) X"

definition rep3_not_b_1 :: "'a::len sharing \<Rightarrow> 'a sharing" where
  "rep3_not_b_1 X = map (\<lambda>x. evec_unop lnot_w (evec_elem_op (AND) x 1)) X"

section \<open>Conversions\<close>

definition b2a_local ::
  "'s cipher \<Rightarrow> 'a::len evec \<Rightarrow> nat \<Rightarrow> 's manager \<Rightarrow> (('a vec \<times> 'a vec) \<times> 's manager) option" where
  "b2a_local aes x p m = do {
     let s0 = apply_to (mask_vec 1) (setPrecision 0 x);
     let s01 = (if p = 0 then vec_op (XOR) (col 1 s0) (col 0 s0) else col 1 s0);
     (s00, m) \<leftarrow> getNextArithmetic aes (evec_size x) m;
     (s10, m) \<leftarrow> getNextArithmetic aes (evec_size x) m;
     let s00 = (if p = 0 then vec_op (+) s00 s01 else s00);
     let s10 = (if p = 1 then vec_op (+) s10 s01 else s10);
     Some ((s00, s10), m)
   }"

definition rep3_b2a_bit ::
  "'s cipher \<Rightarrow> 'a::len sharing \<Rightarrow> ('a, 's) world \<Rightarrow> ('a sharing \<times> ('a, 's) world) option" where
  "rep3_b2a_bit aes X w = do {
     (ss, w) \<leftarrow> for_parties [0, 1, 2] (\<lambda>p. b2a_local aes (X ! p) p) w;
     let bufs = replicate 3 (replicate (sh_size X) 0);
     (s01, w) \<leftarrow> exchangeShares 3 (map fst ss) bufs 2 1 w;
     (s11, w) \<leftarrow> exchangeShares 3 (map snd ss) bufs 2 1 w;
     let s0 = sub_a (pair_up (map fst ss) s01) (pair_up (map snd ss) s11);
     rep3_multiply_a aes s0 s0 w
   }"

definition redistribute_P0 ::
  "'s cipher \<Rightarrow> 'a::len evec \<Rightarrow> ('a, 's) world \<Rightarrow> (('a evec \<times> 'a evec) \<times> ('a, 's) world) option" where
  "redistribute_P0 aes x w = do {
     let m = mgrs w ! 0;
     let vec1 = vec_op (+) (col 0 x) (col 1 x);
     (vec1_x1, m) \<leftarrow> draw aes (get_rel m 1) (evec_size x) m;
     (vec1_x2, m) \<leftarrow> draw aes (get_group m [0, 1, 2]) (evec_size x) m;
     let vec1 = vec_op (XOR) vec1 vec1_x1;
     let vec1 = vec_op (XOR) vec1 vec1_x2;
     (vec2_x0, m) \<leftarrow> draw aes (get_rel m (- 1)) (evec_size x) m;
     (vec2_x1, m) \<leftarrow> draw aes (get_group m [0, 1, 2]) (evec_size x) m;
     let w = sendShares 3 0 vec1 2 (w\<lparr>mgrs := (mgrs w)[0 := m]\<rparr>);
     Some ((\<lparr>cols = [vec1, vec1_x1], prec = 0\<rparr>, \<lparr>cols = [vec2_x0, vec2_x1], prec = 0\<rparr>), w)
   }"

definition redistribute_P2 ::
  "'s cipher \<Rightarrow> 'a::len evec \<Rightarrow> ('a, 's) world \<Rightarrow> (('a evec \<times> 'a evec) \<times> ('a, 's) world) option" where
  "redistribute_P2 aes x w = do {
     let m = mgrs w ! 2;
     (vec1_x2, m) \<leftarrow> draw aes (get_group m [0, 1, 2]) (evec_size x) m;
     (vec2_x0, m) \<leftarrow> draw aes (get_rel m 1) (evec_size x) m;
     (vec2_x1, m) \<leftarrow> draw aes (get_group m [0, 1, 2]) (evec_size x) m;
     let vec2_x2 = vec_op (XOR) (col 0 x) vec2_x0;
     let vec2_x2 = vec_op (XOR) vec2_x2 vec2_x1;
     let w = sendShares 3 2 vec2_x2 2 (w\<lparr>mgrs := (mgrs w)[2 := m]\<rparr>);
     (vec1_x0, w) \<leftarrow> receiveShares 3 2 (replicate (evec_size x) 0) 1 w;
     Some ((\<lparr>cols = [vec1_x2, vec1_x0], prec = 0\<rparr>, \<lparr>cols = [vec2_x2, vec2_x0], prec = 0\<rparr>), w)
   }"

definition redistribute_P1 ::
  "'s cipher \<Rightarrow> 'a::len evec \<Rightarrow> ('a, 's) world \<Rightarrow> (('a evec \<times> 'a evec) \<times> ('a, 's) world) option" where
  "redistribute_P1 aes x w = do {
     let m = mgrs w ! 1;
     (vec1_x1, m) \<leftarrow> draw aes (get_rel m (- 1)) (evec_size x) m;
     (vec1_x2, m) \<leftarrow> draw aes (get_group m [0, 1, 2]) (evec_size x) m;
     (vec2_x1, m) \<leftarrow> draw aes (get_group m [0, 1, 2]) (evec_size x) m;
     (vec2_x2, w) \<leftarrow> receiveShares 3 1 (replicate (evec_size x) 0) 1 (w\<lparr>mgrs := (mgrs w)[1 := m]\<rparr>);
     Some ((\<lparr>cols = [vec1_x1, vec1_x2], prec = 0\<rparr>, \<lparr>cols = [vec2_x1, vec2_x2], prec = 0\<rparr>), w)
   }"

definition rep3_redistribute_shares_b ::
  "'s cipher \<Rightarrow> 'a::len sharing \<Rightarrow> ('a, 's) world \<Rightarrow> (('a sharing \<times> 'a sharing) \<times> ('a, 's) world) option" where
  "rep3_redistribute_shares_b aes X w = do {
     ((r0, q0), w) \<leftarrow> redistribute_P0 aes (X ! 0) w;
     ((r2, q2), w) \<leftarrow> redistribute_P2 aes (X ! 2) w;
     ((r1, q1), w) \<leftarrow> redistribute_P1 aes (X ! 1) w;
     Some (([r0, r1, r2], [q0, q1, q2]), w)
   }"

section \<open>Sharing and opening\<close>

definition rep3_reconstruct_from_a :: "'a::len sharing \<Rightarrow> 'a vec" where
  "rep3_reconstruct_from_a X = vec_op (+) (vec_op (+) (col 0 (X ! 0)) (col 0 (X ! 1))) (col 0 (X ! 2))"

definition rep3_reconstruct_from_b :: "'a::len sharing \<Rightarrow> 'a vec" where
  "rep3_reconstruct_from_b X = vec_op (XOR) (vec_op (XOR) (col 0 (X ! 0)) (col 0 (X ! 1))) (col 0 (X ! 2))"

definition rep3_open ::
  "('a::len word \<Rightarrow> 'a word \<Rightarrow> 'a word) \<Rightarrow> 'a sharing \<Rightarrow> ('a, 's) world \<Rightarrow> ('a vec list \<times> ('a, 's) world) option" where
  "rep3_open f X w = do {
     (shares_3, w) \<leftarrow> exchangeShares 3 (map (col 1) X) (map (\<lambda>x. replicate (evec_size x) 0) X) 2 1 w;
     Some (map2 (\<lambda>x s3. vec_op f (vec_op f (col 0 x) (col 1 x)) s3) X shares_3, w)
   }"

definition rep3_unchecked_open_a ::
  "'a::len sharing \<Rightarrow> ('a, 's) world \<Rightarrow> ('a vec list \<times> ('a, 's) world) option" where
  "rep3_unchecked_open_a X w = rep3_open (+) X w"

definition rep3_unchecked_open_b ::
  "'a::len sharing \<Rightarrow> ('a, 's) world \<Rightarrow> ('a vec list \<times> ('a, 's) world) option" where
  "rep3_unchecked_open_b X w = rep3_open (XOR) X w"

definition rep3_get_shares ::
  "('a::len word \<Rightarrow> 'a word \<Rightarrow> 'a word) \<Rightarrow> 's cipher \<Rightarrow> 'a vec \<Rightarrow> 's manager \<Rightarrow> ('a sharing \<times> 's manager) option" where
  "rep3_get_shares f aes data m = do {
     (share_1, m) \<leftarrow> draw aes (get_group m []) (length data) m;
     (share_2, m) \<leftarrow> draw aes (get_group m []) (length data) m;
     let share_3 = vec_op f (vec_op f data share_1) share_2;
     Some ([\<lparr>cols = [share_1, share_2], prec = 0\<rparr>, \<lparr>cols = [share_2, share_3], prec = 0\<rparr>,
            \<lparr>cols = [share_3, share_1], prec = 0\<rparr>], m)
   }"

definition rep3_get_shares_a :: "'s cipher \<Rightarrow> 'a::len vec \<Rightarrow> 's manager \<Rightarrow> ('a sharing \<times> 's manager) option" where
  "rep3_get_shares_a = rep3_get_shares (-)"

definition rep3_get_shares_b :: "'s cipher \<Rightarrow> 'a::len vec \<Rightarrow> 's manager \<Rightarrow> ('a sharing \<times> 's manager) option" where
  "rep3_get_shares_b = rep3_get_shares (XOR)"

definition receive_columns ::
  "nat \<Rightarrow> nat \<Rightarrow> nat \<Rightarrow> ('a::len, 's) world \<Rightarrow> ('a evec \<times> ('a, 's) world) option" where
  "receive_columns size_n data_party p w = do {
     (s0, w) \<leftarrow> receiveShares 3 p (replicate size_n 0) (int data_party - int p) w;
     (s1, w) \<leftarrow> receiveShares 3 p (replicate size_n 0) (int data_party - int p) w;
     Some (\<lparr>cols = [s0, s1], prec = 0\<rparr>, w)
   }"

definition rep3_secret_share ::
  "('a::len word \<Rightarrow> 'a word \<Rightarrow> 'a word) \<Rightarrow> 's cipher \<Rightarrow> 'a vec \<Rightarrow> nat \<Rightarrow> ('a, 's) world
    \<Rightarrow> ('a sharing \<times> ('a, 's) world) option" where
  "rep3_secret_share f aes data data_party w = do {
     (sh, m) \<leftarrow> rep3_get_shares f aes data (mgrs w ! data_party);
     let w = w\<lparr>mgrs := (mgrs w)[data_party := m]\<rparr>;
     let w = sendShares 3 data_party (col 0 (sh ! 1)) 1 w;
     let w = sendShares 3 data_party (col 1 (sh ! 1)) 1 w;
     let w = sendShares 3 data_party (col 0 (sh ! 2)) 2 w;
     let w = sendShares 3 data_party (col 1 (sh ! 2)) 2 w;
     let p1 = (data_party + 1) mod 3;
     let p2 = (data_party + 2) mod 3;
     (s1, w) \<leftarrow> receive_columns (length data) data_party p1 w;
     (s2, w) \<leftarrow> receive_columns (length data) data_party p2 w;
     Some ((replicate 3 (sh ! 0))[p1 := s1, p2 := s2], w)
   }"

definition rep3_secret_share_a_internal ::
  "'s cipher \<Rightarrow> 'a::len vec \<Rightarrow> nat \<Rightarrow> ('a, 's) world \<Rightarrow> ('a sharing \<times> ('a, 's) world) option" where
  "rep3_secret_share_a_internal = rep3_secret_share (-)"

definition rep3_secret_share_b_internal ::
  "'s cipher \<Rightarrow> 'a::len vec \<Rightarrow> nat \<Rightarrow> ('a, 's) world \<Rightarrow> ('a sharing \<times> ('a, 's) world) option" where
  "rep3_secret_share_b_internal = rep3_secret_share (XOR)"

definition rep3_public_share :: "'a::len vec \<Rightarrow> nat list \<Rightarrow> 'a sharing option" where
  "rep3_public_share x who_knows = do {
     k \<leftarrow> (if who_knows = [] \<or> who_knows = [0, 2] then Some 0
            else if who_knows = [0, 1] then Some 1
            else if who_knows = [1, 2] then Some 2
            else None);
     Some (map (\<lambda>me. \<lparr>cols = [if me mod 3 = k then x else replicate (length x) 0,
                             if (me + 1) mod 3 = k then x else replicate (length x) 0], prec = 0\<rparr>) [0, 1, 2 :: nat])
   }"

definition replicated_3pc :: "'s cipher \<Rightarrow> ('a::len, ('a, 's) world) protocol" where
  "replicated_3pc aes =
     \<lparr>v_and_b = rep3_and_b aes, v_not_b = rep3_not_b,
      v_not_b_1 = rep3_not_b_1, v_multiply_a = rep3_multiply_a aes,
      v_b2a_bit = rep3_b2a_bit aes, v_redistribute_shares_b = rep3_redistribute_shares_b aes,
      v_div_const_a = rep3_div_const_a aes\<rparr>"

end
