(* ===== verification/Circuit_Proofs.thy ===== *)
theory Circuit_Proofs
  imports Circuits
begin

text \<open>
  Correctness of the circuits inside the contract \<open>boolean_protocol\<close>: every circuit returns
  (no exception is thrown on vectors of equal precision), its result is a valid sharing, and
  opening the result gives the plaintext function of the opened inputs.
\<close>

context boolean_protocol
begin

section \<open>One step of the ripple carry\<close>

lemma carry_step:
  fixes A X C :: "'a sharing"
  assumes ok: "ok st" and A: "is_sharing n k q m A" and X: "is_sharing n k q m X"
    and C: "is_sharing n k q' (div_ceil m LENGTH('a)) C" and i: "i < LENGTH('a)"
    and X_eq: "\<And>j. j < m \<Longrightarrow> reveal_b X ! j = reveal_b A ! j XOR bs j"
    and inv: "\<And>j. j < m \<Longrightarrow> packed (reveal_b C) j = carry (reveal_b A ! j) (bs j) c i"
    and S: "S = p_setPrecision r (xor_b C (p_setPrecision r1 (p_decomp A i)))"
    and T: "T = p_setPrecision r (p_setPrecision r2 (p_decomp X i))"
  shows "\<exists>C' st'. v_and_b P S T st = Some (C', st') \<and> ok st' \<and>
    is_sharing n k r (div_ceil m LENGTH('a)) (xor_b C' (p_setPrecision r1 (p_decomp A i))) \<and>
    (\<forall>j < m. packed (reveal_b (xor_b C' (p_setPrecision r1 (p_decomp A i)))) j
          = carry (reveal_b A ! j) (bs j) c (Suc i))"
proof -
  let ?c = "div_ceil m LENGTH('a)"
  let ?a = "p_setPrecision r1 (p_decomp A i)"
  have a: "is_sharing n k r1 ?c ?a" and ar: "reveal_b ?a = reveal_b (p_decomp A i)"
    using setPrecision_sharing [OF decomp_sharing(1) [OF A pos i] pos] by simp_all
  have x: "is_sharing n k r ?c T" and xr: "reveal_b T = reveal_b (p_decomp X i)"
    unfolding T using setPrecision_sharing [OF setPrecision_sharing(1) [OF decomp_sharing(1) [OF X pos i] pos] pos]
      setPrecision_sharing(2) [OF decomp_sharing(1) [OF X pos i] pos] by simp_all
  have ca: "is_sharing n k q' ?c (xor_b C ?a)" by (rule xor_sharing(1) [OF C a pos])
  have s: "is_sharing n k r ?c S" and sr: "reveal_b S = reveal_b (xor_b C ?a)"
    unfolding S using setPrecision_sharing [OF ca pos] by simp_all
  obtain C' st' where z: "v_and_b P S T st = Some (C', st')" "ok st'" "is_sharing n k r ?c C'"
    "reveal_b C' = map2 (AND) (reveal_b S) (reveal_b T)"
    by (rule and_obtains [OF ok s x])
  have a_bit: "packed (reveal_b ?a) j = bit (reveal_b A ! j) i" if "j < m" for j
    unfolding ar by (rule packed_decomp [OF A i that])
  have x_bit: "packed (reveal_b T) j = (bit (reveal_b A ! j) i \<noteq> bit (bs j) i)" if "j < m" for j
    unfolding xr packed_decomp [OF X i that] X_eq [OF that] by (simp add: bit_simps)
  have "packed (reveal_b (xor_b C' ?a)) j = carry (reveal_b A ! j) (bs j) c (Suc i)" if j: "j < m" for j
    using packed_xor [OF z(3) a j] packed_and [OF z(4) s x j] packed_xor [OF C a j]
      a_bit [OF j] x_bit [OF j] inv [OF j] sr by simp
  with z(1,2) xor_sharing(1) [OF z(3) a pos] show ?thesis by blast
qed

lemma add_eq_if_bits:
  assumes "\<And>i. i < LENGTH('a) \<Longrightarrow> bit (w :: 'a word) i = ((bit a i \<noteq> bit b i) \<noteq> carry a b c i)"
  shows "w = a + b + of_bool c"
  using assms by (intro bit_word_eqI) (simp add: bit_add_carry)

lemma is_sharing_a_prec: "is_sharing n k q m A \<Longrightarrow> a_prec A = q"
  using is_sharing_prec [of n k q m A 0] pos by (simp add: a_prec_def)

lemma rca_loop_correct:
  fixes A X C S :: "'a sharing"
  assumes "ok st" and A: "is_sharing n k q m A" and X: "is_sharing n k q m X"
    and "is_sharing n k q' (div_ceil m LENGTH('a)) C" and "is_sharing n k qs m S"
    and X_eq: "\<And>j. j < m \<Longrightarrow> reveal_b X ! j = reveal_b A ! j XOR bs j"
    and "i < LENGTH('a)"
    and "\<And>j. j < m \<Longrightarrow> packed (reveal_b C) j = carry (reveal_b A ! j) (bs j) c i"
    and "\<And>j t. j < m \<Longrightarrow> t < i \<Longrightarrow>
       bit (reveal_b S ! j) t = ((bit (reveal_b A ! j) t \<noteq> bit (bs j) t) \<noteq> carry (reveal_b A ! j) (bs j) c t)"
  shows "\<exists>R st'. rca_loop P A X [i..<LENGTH('a)] C S st = Some (R, st') \<and> ok st' \<and>
     is_sharing n k qs m R \<and>
     (\<forall>j < m. \<forall>t < LENGTH('a). bit (reveal_b R ! j) t
        = ((bit (reveal_b A ! j) t \<noteq> bit (bs j) t) \<noteq> carry (reveal_b A ! j) (bs j) c t))"
  using assms(1,4,5,7-)
proof (induction "LENGTH('a) - i" arbitrary: i C S st q' rule: less_induct)
  case less
  let ?w = "LENGTH('a)" and ?c = "div_ceil m LENGTH('a)"
  let ?x = "p_setPrecision (a_prec A) (p_decomp X i)"
  let ?a = "p_setPrecision (a_prec A) (p_decomp A i)"
  let ?S = "p_unpack_from (xor_b ?x C) S i"
  note i = \<open>i < ?w\<close>
  have x: "is_sharing n k (a_prec A) ?c ?x" and xr: "reveal_b ?x = reveal_b (p_decomp X i)"
    using setPrecision_sharing [OF decomp_sharing(1) [OF X pos i] pos] by simp_all
  have t: "is_sharing n k (a_prec A) ?c (xor_b ?x C)"
    by (rule xor_sharing(1) [OF x less.prems(2) pos])
  have S': "is_sharing n k qs m ?S" by (rule unpack_sharing(1) [OF t less.prems(3) refl pos])
  have bits: "bit (reveal_b ?S ! j) s
      = ((bit (reveal_b A ! j) s \<noteq> bit (bs j) s) \<noteq> carry (reveal_b A ! j) (bs j) c s)"
    if j: "j < m" and s: "s < Suc i" for j s
  proof (cases "s = i")
    case True
    have "bit (reveal_b ?S ! j) i = packed (reveal_b (xor_b ?x C)) j"
      using unpack_sharing(2) [OF t less.prems(3) refl pos j i] by (simp add: packed_def)
    also have "\<dots> = (bit (reveal_b X ! j) i \<noteq> carry (reveal_b A ! j) (bs j) c i)"
      using packed_xor [OF x less.prems(2) j] packed_decomp [OF X i j] less.prems(5) [OF j] xr by simp
    finally show ?thesis using True X_eq [OF j] by (simp add: bit_simps)
  next
    case False
    with s i have "s < ?w" "s < i" by simp_all
    with False show ?thesis
      using unpack_sharing(2) [OF t less.prems(3) refl pos j, of s] less.prems(6) [OF j, of s] by simp
  qed
  have upt: "[i..<?w] = i # [Suc i..<?w]" using i by (rule upt_conv_Cons)
  show ?case
  proof (cases "i = ?w - 1")
    case True
    then have last: "\<And>t. t < ?w \<Longrightarrow> t < Suc i" by simp
    show ?thesis
      unfolding upt using True S' bits last less.prems(1) by (auto simp: Let_def)
  next
    case False
    with i have i': "Suc i < ?w" by simp
    obtain C' st' where z: "v_and_b P (p_setPrecision 0 (xor_b C ?a)) (p_setPrecision 0 ?x) st = Some (C', st')"
      "ok st'" "is_sharing n k 0 ?c (xor_b C' ?a)"
      "\<And>j. j < m \<Longrightarrow> packed (reveal_b (xor_b C' ?a)) j = carry (reveal_b A ! j) (bs j) c (Suc i)"
      using carry_step [where r = 0 and ?r1.0 = "a_prec A" and ?r2.0 = "a_prec A",
            OF less.prems(1) A X less.prems(2) i X_eq less.prems(5) refl refl] by blast
    have "rca_loop P A X [i..<?w] C S st = rca_loop P A X [Suc i..<?w] (xor_b C' ?a) ?S st'"
      unfolding upt using False z(1) by (simp add: Let_def)
    moreover have "?w - Suc i < ?w - i" using i by simp
    ultimately show ?thesis
      using less.hyps [OF _ z(2,3) S' i' z(4) bits] by simp
  qed
qed

theorem ripple_carry_adder_correct:
  fixes A B S :: "'a sharing"
  assumes "ok st" and A: "is_sharing n k q m A" and B: "is_sharing n k qb m B"
    and S: "is_sharing n k qs m S"
  shows "\<exists>R st'. ripple_carry_adder P A B S c st = Some (R, st') \<and> ok st' \<and> is_sharing n k qs m R \<and>
     reveal_b R = map2 (\<lambda>x y. x + y + of_bool c) (reveal_b A) (reveal_b B)"
proof -
  let ?c = "div_ceil m LENGTH('a)" and ?C = "p_construct_like A (compressed_size A)"
  let ?D = "if c then inplace_invert_b P ?C else ?C"
  have cs: "compressed_size A = ?c" by (rule compressed_size_div_ceil [OF A pos])
  have C: "is_sharing n k q ?c ?C" and Cr: "reveal_b ?C = replicate ?c 0"
    using construct_sharing [OF A pos] unfolding cs by simp_all
  have D: "is_sharing n k q ?c ?D"
    using C not_sharing(1) [OF C] by (simp add: inplace_invert_b_def)
  have Db: "packed (reveal_b ?D) j = carry (reveal_b A ! j) (reveal_b B ! j) c 0" if "j < m" for j
    using packed_not [OF C that] packed_zero [of m j] that Cr by (simp add: inplace_invert_b_def)
  have X: "is_sharing n k q m (xor_b A B)" by (rule xor_sharing(1) [OF A B pos])
  have Xe: "reveal_b (xor_b A B) ! j = reveal_b A ! j XOR reveal_b B ! j" if "j < m" for j
    using that xor_sharing(2) [OF A B pos] len [OF A] len [OF B] by simp
  obtain R st' where R: "rca_loop P A (xor_b A B) [0..<LENGTH('a)] ?D S st = Some (R, st')" "ok st'"
    "is_sharing n k qs m R" and bits: "\<And>j t. j < m \<Longrightarrow> t < LENGTH('a) \<Longrightarrow> bit (reveal_b R ! j) t
        = ((bit (reveal_b A ! j) t \<noteq> bit (reveal_b B ! j) t) \<noteq> carry (reveal_b A ! j) (reveal_b B ! j) c t)"
    using rca_loop_correct [OF assms(1) A X D S Xe _ Db] by auto
  have "reveal_b R = map2 (\<lambda>x y. x + y + of_bool c) (reveal_b A) (reveal_b B)"
  proof (rule vec_eqI)
    fix j assume "j < length (reveal_b R)"
    then have j: "j < m" by (simp add: len [OF R(3)])
    show "reveal_b R ! j = map2 (\<lambda>x y. x + y + of_bool c) (reveal_b A) (reveal_b B) ! j"
      using j bits [OF j] len [OF A] len [OF B] by (simp add: add_eq_if_bits)
  qed (simp add: len [OF A] len [OF B] len [OF R(3)])
  with R show ?thesis by (auto simp: ripple_carry_adder_def Let_def)
qed

section \<open>Carry-only circuits: sign of a sum and subtraction-based comparison\<close>

lemma setPrecision_id:
  assumes "is_sharing n k q m X"
  shows "p_setPrecision q X = X"
  using assms by (elim is_sharingE) (simp add: p_setPrecision_def setPrecision_share_out)

lemma compare_loop_correct:
  fixes A X C :: "'a sharing"
  assumes "ok st" and A: "is_sharing n k q m A" and X: "is_sharing n k q m X"
    and "is_sharing n k q (div_ceil m LENGTH('a)) C"
    and X_eq: "\<And>j. j < m \<Longrightarrow> reveal_b X ! j = reveal_b A ! j XOR bs j"
    and "i < LENGTH('a)"
    and "\<And>j. j < m \<Longrightarrow> packed (reveal_b C) j = carry (reveal_b A ! j) (bs j) c i"
  shows "\<exists>R st'. rca_compare_loop P A X [i..<LENGTH('a)] C st = Some (R, st') \<and> ok st' \<and>
     is_sharing n k q (div_ceil m LENGTH('a)) R \<and>
     (\<forall>j < m. packed (reveal_b R) j = carry (reveal_b A ! j) (bs j) c (LENGTH('a) - 1))"
  using assms(1,4,6-)
proof (induction "LENGTH('a) - i" arbitrary: i C st rule: less_induct)
  case less
  let ?w = "LENGTH('a)" and ?c = "div_ceil m LENGTH('a)"
  note i = \<open>i < ?w\<close>
  have upt: "[i..<?w] = i # [Suc i..<?w]" using i by (rule upt_conv_Cons)
  show ?case
  proof (cases "i = ?w - 1")
    case True
    then show ?thesis unfolding upt using less.prems by (simp add: Let_def)
  next
    case False
    with i have i': "Suc i < ?w" by simp
    let ?a = "p_decomp A i" and ?x = "p_decomp X i"
    have a: "p_setPrecision q ?a = ?a" and x: "p_setPrecision q ?x = ?x"
      by (rule setPrecision_id, rule decomp_sharing(1) [OF A pos i])
        (rule setPrecision_id, rule decomp_sharing(1) [OF X pos i])
    have ca: "p_setPrecision q (xor_b C ?a) = xor_b C ?a"
      by (rule setPrecision_id, rule xor_sharing(1) [OF less.prems(2) decomp_sharing(1) [OF A pos i] pos])
    obtain C' st' where z: "v_and_b P (xor_b C ?a) ?x st = Some (C', st')" "ok st'"
      "is_sharing n k q ?c (xor_b C' ?a)"
      "\<And>j. j < m \<Longrightarrow> packed (reveal_b (xor_b C' ?a)) j = carry (reveal_b A ! j) (bs j) c (Suc i)"
      using carry_step [where r = q and ?r1.0 = q and ?r2.0 = q,
            OF less.prems(1) A X less.prems(2) i X_eq less.prems(4) refl refl]
      unfolding a x ca by blast
    have "rca_compare_loop P A X [i..<?w] C st = rca_compare_loop P A X [Suc i..<?w] (xor_b C' ?a) st'"
      unfolding upt using False z(1) by (simp add: Let_def)
    moreover have "?w - Suc i < ?w - i" using i by simp
    ultimately show ?thesis using less.hyps [OF _ z(2,3) i' z(4)] by simp
  qed
qed

lemma rca_sign_loop_eq:
  assumes "i < LENGTH('a)"
  shows "rca_sign_loop P A X [i..<LENGTH('a)] C S st =
     map_option (\<lambda>(R, st'). (xor_b (p_decomp X (LENGTH('a) - 1)) R, st'))
       (rca_compare_loop P A X [i..<LENGTH('a)] C st)"
  using assms
proof (induction "LENGTH('a) - i" arbitrary: i C st rule: less_induct)
  case less
  let ?w = "LENGTH('a)"
  have upt: "[i..<?w] = i # [Suc i..<?w]" using less.prems by (rule upt_conv_Cons)
  show ?case
  proof (cases "i = ?w - 1")
    case False
    with less.prems have "Suc i < ?w" "?w - Suc i < ?w - i" by simp_all
    then show ?thesis unfolding upt using False less.hyps [of "Suc i"]
      by (auto simp: Let_def split: Option.bind_splits)
  next
    case True
    then show ?thesis unfolding upt by (simp add: Let_def)
  qed
qed

lemma initial_carry:
  fixes A :: "'a sharing"
  assumes "is_sharing n k q m A"
  defines "C \<equiv> p_construct_like A (compressed_size A)"
  shows "is_sharing n k q (div_ceil m LENGTH('a)) C"
    and "is_sharing n k q (div_ceil m LENGTH('a)) (inplace_invert_b P C)"
    and "j < m \<Longrightarrow> \<not> packed (reveal_b C) j"
    and "j < m \<Longrightarrow> packed (reveal_b (inplace_invert_b P C)) j"
proof -
  let ?c = "div_ceil m LENGTH('a)"
  have cs: "compressed_size A = ?c" by (rule compressed_size_div_ceil [OF assms(1) pos])
  show C: "is_sharing n k q ?c C" and z: "j < m \<Longrightarrow> \<not> packed (reveal_b C) j"
    using construct_sharing [OF assms(1) pos, of ?c] packed_zero [of m j] unfolding C_def cs by auto
  show "is_sharing n k q ?c (inplace_invert_b P C)"
    using not_sharing(1) [OF C] by (simp add: inplace_invert_b_def)
  show "j < m \<Longrightarrow> packed (reveal_b (inplace_invert_b P C)) j"
    using packed_not [OF C] z by (simp add: inplace_invert_b_def)
qed

theorem packed_sign_correct:
  fixes A B S :: "'a sharing"
  assumes "ok st" and A: "is_sharing n k q m A" and B: "is_sharing n k qb m B"
  shows "\<exists>R st'. ripple_carry_adder_packed_sign P A B S c st = Some (R, st') \<and> ok st' \<and>
     is_sharing n k q (div_ceil m LENGTH('a)) R \<and>
     (\<forall>j < m. packed (reveal_b R) j = (sint (reveal_b A ! j + reveal_b B ! j + of_bool c) < 0))"
proof -
  let ?w = "LENGTH('a)" and ?c = "div_ceil m LENGTH('a)" and ?X = "xor_b A B"
  let ?C = "p_construct_like A (compressed_size A)"
  let ?D = "if c then inplace_invert_b P ?C else ?C"
  have X: "is_sharing n k q m ?X" by (rule xor_sharing(1) [OF A B pos])
  have Xe: "reveal_b ?X ! j = reveal_b A ! j XOR reveal_b B ! j" if "j < m" for j
    using that xor_sharing(2) [OF A B pos] len [OF A] len [OF B] by simp
  have D: "is_sharing n k q ?c ?D" using initial_carry(1,2) [OF A] by simp
  have Db: "packed (reveal_b ?D) j = carry (reveal_b A ! j) (reveal_b B ! j) c 0" if "j < m" for j
    using initial_carry(3,4) [OF A that] by simp
  obtain R st' where R: "rca_compare_loop P A ?X [0..<?w] ?D st = Some (R, st')" "ok st'"
    "is_sharing n k q ?c R"
    "\<And>j. j < m \<Longrightarrow> packed (reveal_b R) j = carry (reveal_b A ! j) (reveal_b B ! j) c (?w - 1)"
    using compare_loop_correct [OF assms(1) A X D Xe _ Db] by auto
  let ?x = "p_decomp ?X (?w - 1)"
  have x: "is_sharing n k q ?c ?x" by (rule decomp_sharing(1) [OF X pos]) simp
  have "packed (reveal_b (xor_b ?x R)) j = (sint (reveal_b A ! j + reveal_b B ! j + of_bool c) < 0)"
    if j: "j < m" for j
    using packed_xor [OF x R(3) j] packed_decomp [OF X _ j, of "?w - 1"] R(4) [OF j] Xe [OF j]
    by (simp add: bit_ltz bit_add_carry bit_simps)
  moreover have "ripple_carry_adder_packed_sign P A B S c st = Some (xor_b ?x R, st')"
    using R(1) by (simp add: ripple_carry_adder_packed_sign_def Let_def rca_sign_loop_eq)
  ultimately show ?thesis using R(2) xor_sharing(1) [OF x R(3) pos] by auto
qed

theorem rca_compare_correct:
  fixes A B S :: "'a sharing"
  assumes "ok st" and A: "is_sharing n k q m A" and B: "is_sharing n k qb m B"
    and S: "is_sharing n k qs m S"
  shows "\<exists>R st'. rca_compare P A B S st = Some (R, st') \<and> ok st' \<and> is_sharing n k qs m R \<and>
     reveal_b R = map2 (\<lambda>x y. of_bool (sint (x - y) < 0)) (reveal_b A) (reveal_b B)"
proof -
  let ?w = "LENGTH('a)" and ?c = "div_ceil m LENGTH('a)"
  let ?N = "v_not_b P B"
  let ?X = "xor_b A ?N" and ?C = "inplace_invert_b P (p_construct_like A (compressed_size A))"
  have N: "is_sharing n k qb m ?N" and Nr: "reveal_b ?N = map NOT (reveal_b B)"
    by (rule not_sharing [OF B])+
  have X: "is_sharing n k q m ?X" by (rule xor_sharing(1) [OF A N pos])
  have Xe: "reveal_b ?X ! j = reveal_b A ! j XOR (NOT (reveal_b B ! j))" if "j < m" for j
    using that xor_sharing(2) [OF A N pos] len [OF A] len [OF B] Nr by simp
  have Db: "packed (reveal_b ?C) j = carry (reveal_b A ! j) (NOT (reveal_b B ! j)) True 0" if "j < m" for j
    using initial_carry(4) [OF A that] by simp
  obtain R st' where R: "rca_compare_loop P A ?X [0..<?w] ?C st = Some (R, st')" "ok st'"
    "is_sharing n k q ?c R"
    "\<And>j. j < m \<Longrightarrow> packed (reveal_b R) j = carry (reveal_b A ! j) (NOT (reveal_b B ! j)) True (?w - 1)"
    using compare_loop_correct [OF assms(1) A X initial_carry(2) [OF A] Xe _ Db] by auto
  let ?x = "p_decomp ?X (?w - 1)"
  have x: "is_sharing n k q ?c ?x" by (rule decomp_sharing(1) [OF X pos]) simp
  have rx: "is_sharing n k q ?c (xor_b R ?x)" by (rule xor_sharing(1) [OF R(3) x pos])
  let ?S = "p_unpack_from (xor_b R ?x) S (?w - 1)"
  have U: "is_sharing n k qs m ?S" by (rule unpack_sharing(1) [OF rx S refl pos])
  have msb: "bit (reveal_b ?S ! j) (?w - 1) = (sint (reveal_b A ! j - reveal_b B ! j) < 0)" if j: "j < m" for j
  proof -
    have e: "reveal_b A ! j - reveal_b B ! j = reveal_b A ! j + NOT (reveal_b B ! j) + of_bool True"
      by (simp add: not_eq_complement)
    have "bit (reveal_b ?S ! j) (?w - 1) = packed (reveal_b (xor_b R ?x)) j"
      using unpack_sharing(2) [OF rx S refl pos j, of "?w - 1"] by (simp add: packed_def)
    also have "\<dots> = bit (reveal_b A ! j + NOT (reveal_b B ! j) + of_bool True) (?w - 1)"
      using packed_xor [OF R(3) x j] packed_decomp [OF X _ j, of "?w - 1"] R(4) [OF j] Xe [OF j]
      by (subst bit_add_carry) (auto simp: bit_simps)
    finally show ?thesis unfolding e by (simp only: bit_ltz) simp
  qed
  have "reveal_b (p_ltz ?S) = map2 (\<lambda>x y. of_bool (sint (x - y) < 0)) (reveal_b A) (reveal_b B)"
    using msb bitfun_sharing(4) [OF U pos] len [OF U] len [OF A] len [OF B]
    by (intro vec_eqI) (simp_all add: ltz_vec_def bit_ltz)
  with R bitfun_sharing(3) [OF U pos] show ?thesis
    by (auto simp: rca_compare_def Let_def)
qed

end

end
