(* ===== verification/Compare_Proofs.thy ===== *)
theory Compare_Proofs
  imports Circuit_Proofs
begin

text \<open>
  Correctness of the parallel-prefix adder, of the equality prefix \<open>bit_same\<close> and of the
  comparison circuits.  The parallel-prefix adder adds a carry-in by XOR-ing the constant 1
  into every share, so its result depends on the parity of the number of shares.
\<close>

context boolean_protocol
begin

section \<open>Elementwise bits of the opened value\<close>

lemma bit_xor_sharing:
  fixes X Y :: "'a sharing"
  assumes "is_sharing n k q m X" and "is_sharing n k q' m Y" and "j < m"
  shows "bit (reveal_b (xor_b X Y) ! j) i = (bit (reveal_b X ! j) i \<noteq> bit (reveal_b Y ! j) i)"
  using assms xor_sharing(2) [OF assms(1,2) pos] len [OF assms(1)] len [OF assms(2)]
  by (simp add: bit_simps)

lemma bit_and_sharing:
  fixes X Y Z :: "'a sharing"
  assumes "reveal_b Z = map2 (AND) (reveal_b X) (reveal_b Y)"
    and "is_sharing n k q m X" and "is_sharing n k q' m Y" and "j < m"
  shows "bit (reveal_b Z ! j) i = (bit (reveal_b X ! j) i \<and> bit (reveal_b Y ! j) i)"
  using assms(1,4) len [OF assms(2)] len [OF assms(3)] by (simp add: bit_simps)

lemma bit_not_sharing:
  fixes X :: "'a sharing"
  assumes "is_sharing n k q m X" and "j < m" and "i < LENGTH('a)"
  shows "bit (reveal_b (v_not_b P X) ! j) i = (\<not> bit (reveal_b X ! j) i)"
  using assms not_sharing(2) [OF assms(1)] len [OF assms(1)] by (simp add: bit_simps)

lemma or_obtains:
  fixes X Y :: "'a sharing"
  assumes "ok st" and X: "is_sharing n k q m X" and Y: "is_sharing n k q m Y"
  obtains Z st' where "or_b P X Y st = Some (Z, st')" "ok st'" "is_sharing n k q m Z"
    "reveal_b Z = map2 (OR) (reveal_b X) (reveal_b Y)"
proof -
  note nX = not_sharing [OF X] and nY = not_sharing [OF Y]
  obtain Z st' where z: "v_and_b P (v_not_b P X) (v_not_b P Y) st = Some (Z, st')" "ok st'"
    "is_sharing n k q m Z" "reveal_b Z = map2 (AND) (map NOT (reveal_b X)) (map NOT (reveal_b Y))"
    using and_obtains [OF assms(1) nX(1) nY(1)] unfolding nX(2) nY(2) by blast
  have "reveal_b (v_not_b P Z) = map2 (OR) (reveal_b X) (reveal_b Y)"
  proof (rule vec_eqI)
    fix j assume "j < length (reveal_b (v_not_b P Z))"
    then have j: "j < m" using not_sharing(2) [OF z(3)] len [OF z(3)] by simp
    show "reveal_b (v_not_b P Z) ! j = map2 (OR) (reveal_b X) (reveal_b Y) ! j"
      using j not_sharing(2) [OF z(3)] z(4) len [OF X] len [OF Y] by simp
  qed (use not_sharing(2) [OF z(3)] len [OF z(3)] len [OF X] len [OF Y] in simp)
  with that z not_sharing(1) [OF z(3)] show thesis by (simp add: or_b_def Let_def)
qed

section \<open>Parallel-prefix adder\<close>

lemma prefix_sum_correct:
  fixes G Q G' Q' :: "'a sharing"
  assumes ok: "ok st" and G: "is_sharing n k q m G" and Q: "is_sharing n k q m Q"
    and G': "is_sharing n k q m G'" and Q': "is_sharing n k q m Q'"
  shows "\<exists>H R st'. prefix_sum P (G, Q) (G', Q') st = Some ((H, R), st') \<and> ok st' \<and>
     is_sharing n k q m H \<and> is_sharing n k q m R \<and>
     (\<forall>j < m. \<forall>i. bit (reveal_b R ! j) i = (bit (reveal_b Q' ! j) i \<and> bit (reveal_b Q ! j) i)) \<and>
     (\<forall>j < m. \<forall>i. bit (reveal_b H ! j) i =
        (bit (reveal_b G ! j) i \<or> bit (reveal_b Q ! j) i \<and> bit (reveal_b G' ! j) i))"
proof -
  obtain R st1 where R: "v_and_b P Q' Q st = Some (R, st1)" "ok st1" "is_sharing n k q m R"
    "reveal_b R = map2 (AND) (reveal_b Q') (reveal_b Q)"
    by (rule and_obtains [OF ok Q' Q])
  obtain U st2 where U: "v_and_b P G' Q st1 = Some (U, st2)" "ok st2" "is_sharing n k q m U"
    "reveal_b U = map2 (AND) (reveal_b G') (reveal_b Q)"
    by (rule and_obtains [OF R(2) G' Q])
  obtain V st3 where V: "v_and_b P G U st2 = Some (V, st3)" "ok st3" "is_sharing n k q m V"
    "reveal_b V = map2 (AND) (reveal_b G) (reveal_b U)"
    by (rule and_obtains [OF U(2) G U(3)])
  have VG: "is_sharing n k q m (xor_b V G)" by (rule xor_sharing(1) [OF V(3) G pos])
  let ?H = "xor_b (xor_b V G) U"
  have H: "is_sharing n k q m ?H" by (rule xor_sharing(1) [OF VG U(3) pos])
  have "bit (reveal_b ?H ! j) i =
        (bit (reveal_b G ! j) i \<or> bit (reveal_b Q ! j) i \<and> bit (reveal_b G' ! j) i)" if j: "j < m" for j i
    using bit_xor_sharing [OF VG U(3) j] bit_xor_sharing [OF V(3) G j]
      bit_and_sharing [OF V(4) G U(3) j] bit_and_sharing [OF U(4) G' Q j] by auto
  moreover have "bit (reveal_b R ! j) i = (bit (reveal_b Q' ! j) i \<and> bit (reveal_b Q ! j) i)"
    if j: "j < m" for j i by (rule bit_and_sharing [OF R(4) Q' Q j])
  ultimately show ?thesis
    using R(1,3) U(1) V(1,2) H by (auto simp: prefix_sum_def Let_def)
qed

lemma bit_left_shift_sharing:
  fixes X :: "'a sharing"
  assumes "is_sharing n k q m X" and "j < m" and "i < LENGTH('a)"
  shows "bit (reveal_b (p_bit_left_shift X s) ! j) i = (s \<le> i \<and> bit (reveal_b X ! j) (i - s))"
  using assms shift_sharing(6) [OF assms(1) pos] len [OF assms(1)]
  by (simp add: bit_left_shift_def bit_simps)

lemma ppa_loop_correct:
  fixes G Q :: "'a sharing"
  assumes "ok st" and "is_sharing n k q m G" and "is_sharing n k q m Q"
    and "\<And>j i. j < m \<Longrightarrow> i < LENGTH('a) \<Longrightarrow> bit (reveal_b G ! j) i = gen (g j) (p j) i (2 ^ l)"
    and "\<And>j i. j < m \<Longrightarrow> i < LENGTH('a) \<Longrightarrow> bit (reveal_b Q ! j) i = propg (p j) i (2 ^ l)"
    and "l \<le> L"
  shows "\<exists>H R st'. ppa_loop P [l..<L] (G, Q) st = Some ((H, R), st') \<and> ok st' \<and>
     is_sharing n k q m H \<and>
     (\<forall>j < m. \<forall>i < LENGTH('a). bit (reveal_b H ! j) i = gen (g j) (p j) i (2 ^ L))"
  using assms
proof (induction "L - l" arbitrary: l G Q st)
  case 0
  then show ?case by auto
next
  case (Suc d)
  let ?G = "p_bit_left_shift G (2 ^ l)" and ?Q = "p_bit_left_shift Q (2 ^ l)"
  have sG: "is_sharing n k q m ?G" and sQ: "is_sharing n k q m ?Q"
    using shift_sharing(5) [OF _ pos] Suc.prems(2,3) by blast+
  obtain H R st' where z: "prefix_sum P (G, Q) (?G, ?Q) st = Some ((H, R), st')" "ok st'"
    "is_sharing n k q m H" "is_sharing n k q m R"
    and r: "\<And>j i. j < m \<Longrightarrow> bit (reveal_b R ! j) i = (bit (reveal_b ?Q ! j) i \<and> bit (reveal_b Q ! j) i)"
    and h: "\<And>j i. j < m \<Longrightarrow> bit (reveal_b H ! j) i =
        (bit (reveal_b G ! j) i \<or> bit (reveal_b Q ! j) i \<and> bit (reveal_b ?G ! j) i)"
    using prefix_sum_correct [OF Suc.prems(1-3) sG sQ] by blast
  have e: "(2::nat) ^ Suc l = 2 ^ l + 2 ^ l" by simp
  have hb: "bit (reveal_b H ! j) i = gen (g j) (p j) i (2 ^ Suc l)"
    and rb: "bit (reveal_b R ! j) i = propg (p j) i (2 ^ Suc l)" if j: "j < m" and i: "i < LENGTH('a)" for j i
  proof -
    have "bit (reveal_b ?G ! j) i = (2 ^ l \<le> i \<and> gen (g j) (p j) (i - 2 ^ l) (2 ^ l))"
      using bit_left_shift_sharing [OF Suc.prems(2) j i] Suc.prems(4) [OF j, of "i - 2 ^ l"] i by auto
    then show "bit (reveal_b H ! j) i = gen (g j) (p j) i (2 ^ Suc l)"
      unfolding e gen_add using h [OF j] Suc.prems(4,5) [OF j i] by auto
    have "bit (reveal_b ?Q ! j) i = (2 ^ l \<le> i \<and> propg (p j) (i - 2 ^ l) (2 ^ l))"
      using bit_left_shift_sharing [OF Suc.prems(3) j i] Suc.prems(5) [OF j, of "i - 2 ^ l"] i by auto
    then show "bit (reveal_b R ! j) i = propg (p j) i (2 ^ Suc l)"
      unfolding e propg_add using r [OF j] Suc.prems(5) [OF j i] by auto
  qed
  have "l < L" "d = L - Suc l" "Suc l \<le> L" using Suc.hyps(2) by simp_all
  then have "ppa_loop P [l..<L] (G, Q) st = ppa_loop P [Suc l..<L] (H, R) st'"
    using z(1) by (simp add: upt_conv_Cons Let_def)
  then show ?case
    using Suc.hyps(1) [OF \<open>d = L - Suc l\<close> z(2-4) hb rb \<open>Suc l \<le> L\<close>] by simp
qed

lemma xor_one_sharing:
  fixes X :: "'a sharing"
  assumes "is_sharing n k q m X"
  shows "is_sharing n k q m (xor_one X)"
    and "reveal_b (xor_one X) = (if odd n then map (\<lambda>x. x XOR 1) (reveal_b X) else reveal_b X)"
proof -
  from assms obtain xs where xs: "X = share_out k q xs" "length xs = n" "\<forall>x \<in> set xs. length x = m"
    by (elim is_sharingE)
  have e: "xor_one X = share_out k q (map (\<lambda>v. vec_elem_op (XOR) v 1) xs)"
    unfolding xor_one_def xs(1) by (rule evec_elem_op_share_out)
  show "is_sharing n k q m (xor_one X)"
    unfolding e using xs(2,3) pos by (simp add: is_sharing_share_out)
  have aux: "vxor_all m (map (\<lambda>v. vec_elem_op (XOR) v 1) ys)
      = (if odd (length ys) then map (\<lambda>x. x XOR 1) (vxor_all m ys) else vxor_all m ys)"
    if "\<forall>y \<in> set ys. length y = m" for ys :: "'a vec list"
    using that
  proof (induction ys)
    case (Cons y ys)
    then show ?case
      by (intro vec_eqI) (auto simp: vec_elem_op_def ac_simps simp flip: xor.assoc)
  qed simp
  have "reveal_b X = vxor_all m xs"
    unfolding xs(1) using xs(2,3) pos by (intro reveal_b_share_out) simp_all
  moreover have "reveal_b (xor_one X) = vxor_all m (map (\<lambda>v. vec_elem_op (XOR) v 1) xs)"
    unfolding e using xs(2,3) pos by (intro reveal_b_share_out) simp_all
  ultimately show "reveal_b (xor_one X) = (if odd n then map (\<lambda>x. x XOR 1) (reveal_b X) else reveal_b X)"
    using aux [OF xs(3)] xs(2) by simp
qed

theorem parallel_prefix_adder_correct:
  fixes A B :: "'a sharing"
  assumes ok: "ok st" and A: "is_sharing n k q m A" and B: "is_sharing n k q m B"
  shows "\<exists>R st'. parallel_prefix_adder P A B c st = Some (R, st') \<and> ok st' \<and> is_sharing n k q m R \<and>
     reveal_b R = map2 (\<lambda>x y. (x + y + of_bool c) XOR of_bool (c \<and> even n)) (reveal_b A) (reveal_b B)"
proof -
  let ?w = "LENGTH('a)" and ?L = "bit_width (LENGTH('a) - 1)"
  let ?p = "xor_b A B"
  have p: "is_sharing n k q m ?p" by (rule xor_sharing(1) [OF A B pos])
  obtain G st1 where G: "v_and_b P A B st = Some (G, st1)" "ok st1" "is_sharing n k q m G"
    "reveal_b G = map2 (AND) (reveal_b A) (reveal_b B)" by (rule and_obtains [OF ok A B])
  have M: "is_sharing n k q m (p_mask ?p 1)" by (rule bitfun_sharing(1) [OF p pos])
  let ?q = "if c then xor_one ?p else ?p" and ?g = "if c then xor_b G (p_mask ?p 1) else G"
  have q: "is_sharing n k q m ?q" using p xor_one_sharing(1) [OF p] by simp
  have g: "is_sharing n k q m ?g" using G(3) xor_sharing(1) [OF G(3) M pos] by simp
  let ?a = "\<lambda>j. reveal_b A ! j" and ?b = "\<lambda>j. reveal_b B ! j"
  have pb: "bit (reveal_b ?p ! j) i = (bit (?a j) i \<noteq> bit (?b j) i)" if "j < m" for j i
    by (rule bit_xor_sharing [OF A B that])
  have qb: "bit (reveal_b ?q ! j) i = ((bit (?a j) i \<noteq> bit (?b j) i) \<noteq> (c \<and> odd n \<and> i = 0))"
    if "j < m" "i < ?w" for j i
    using pb [OF that(1), of i] that xor_one_sharing(2) [OF p] len [OF p] by (auto simp: bit_simps)
  have gb: "bit (reveal_b ?g ! j) i =
      ((bit (?a j) i \<and> bit (?b j) i) \<noteq> (c \<and> i = 0 \<and> bit (?a j) i \<noteq> bit (?b j) i))"
    if "j < m" "i < ?w" for j i
    using pb [OF that(1), of i] that bit_xor_sharing [OF G(3) M that(1), of i]
      bit_and_sharing [OF G(4) A B that(1), of i] bitfun_sharing(2) [OF p pos, of 1] len [OF p]
    by (auto simp: mask_vec_def bit_simps)
  let ?G = "\<lambda>j i. bit (reveal_b ?g ! j) i" and ?Q = "\<lambda>j i. bit (reveal_b ?q ! j) i"
  obtain H R st2 where z: "ppa_loop P [0..<?L] (?g, ?q) st1 = Some ((H, R), st2)" "ok st2"
    "is_sharing n k q m H"
    and hb: "\<And>j i. j < m \<Longrightarrow> i < ?w \<Longrightarrow> bit (reveal_b H ! j) i = gen (?G j) (?Q j) i (2 ^ ?L)"
    using ppa_loop_correct [OF G(2) g q, where g = ?G and p = ?Q and l = 0 and L = ?L]
    by (auto simp: window_one)
  have wide: "?w - 1 < 2 ^ ?L" by (rule bit_width_bound)
  have hc: "bit (reveal_b H ! j) i = carry (?a j) (?b j) c (Suc i)" if j: "j < m" and i: "i < ?w" for j i
    unfolding hb [OF j i]
  proof (rule gen_carry)
    show "i < 2 ^ ?L" using i wide by linarith
    show "?G j 0 = carry (?a j) (?b j) c 1" using gb [OF j, of 0] by auto
    show "?G j t = (bit (?a j) t \<and> bit (?b j) t)" "?Q j t = (bit (?a j) t \<noteq> bit (?b j) t)"
      if "0 < t" "t \<le> i" for t using gb [OF j, of t] qb [OF j, of t] that i by auto
  qed
  let ?S = "xor_b ?q (p_bit_left_shift H 1)"
  have sH: "is_sharing n k q m (p_bit_left_shift H 1)" by (rule shift_sharing(5) [OF z(3) pos])
  have S: "is_sharing n k q m ?S" by (rule xor_sharing(1) [OF q sH pos])
  have "reveal_b ?S ! j = (?a j + ?b j + of_bool c) XOR of_bool (c \<and> even n)" if j: "j < m" for j
  proof (rule bit_word_eqI)
    fix i assume i: "i < ?w"
    have "bit (reveal_b ?S ! j) i = (?Q j i \<noteq> (1 \<le> i \<and> carry (?a j) (?b j) c (Suc (i - 1))))"
      using bit_xor_sharing [OF q sH j, of i] bit_left_shift_sharing [OF z(3) j i, of 1]
        hc [OF j, of "i - 1"] i by auto
    also have "\<dots> = bit ((?a j + ?b j + of_bool c) XOR of_bool (c \<and> even n)) i"
      unfolding bit_xor_iff bit_add_carry [OF i] qb [OF j i] by (cases i) (auto simp: bit_simps)
    finally show "bit (reveal_b ?S ! j) i = bit ((?a j + ?b j + of_bool c) XOR of_bool (c \<and> even n)) i" .
  qed
  then have "reveal_b ?S = map2 (\<lambda>x y. (x + y + of_bool c) XOR of_bool (c \<and> even n)) (reveal_b A) (reveal_b B)"
    using len [OF S] len [OF A] len [OF B] by (intro vec_eqI) simp_all
  moreover have "parallel_prefix_adder P A B c st = Some (?S, st2)"
    using G(1) z(1) by (simp add: parallel_prefix_adder_def ppa_sum_def Let_def split: if_splits)
  ultimately show ?thesis using z(2) S by blast
qed

end

end
