(* ===== verification/Comparison.thy ===== *)
theory Comparison
  imports Compare_Proofs
begin

text \<open>
  Equality and greater-than on boolean sharings.  The equality prefix \<open>bit_same\<close> doubles the
  window of compared bits in every round; its result marks the positions from which two words
  agree upwards.  The first position at which they differ decides the unsigned order, and one
  more round repairs the order for the sign bits.  Both greater-than circuits are shown to
  compute the signed order and equality of the opened words.
\<close>

section \<open>The position where two words start to differ\<close>

lemma same_above_window:
  fixes x y :: "'a::len word"
  assumes "i < LENGTH('a)" and "LENGTH('a) - 1 < N"
  shows "same_above x y i \<longleftrightarrow>
    (\<forall>t < N. bit x (min (i + t) (LENGTH('a) - 1)) = bit y (min (i + t) (LENGTH('a) - 1)))"
proof
  assume "same_above x y i"
  then show "\<forall>t < N. bit x (min (i + t) (LENGTH('a) - 1)) = bit y (min (i + t) (LENGTH('a) - 1))"
    using assms(1) by (auto simp: same_above_def)
next
  assume a: "\<forall>t < N. bit x (min (i + t) (LENGTH('a) - 1)) = bit y (min (i + t) (LENGTH('a) - 1))"
  show "same_above x y i"
    unfolding same_above_def
  proof (intro allI impI)
    fix t assume "i \<le> t" "t < LENGTH('a)"
    then show "bit x t = bit y t"
      using a [rule_format, of "t - i"] assms(2) by (simp add: min_def split: if_splits)
  qed
qed

lemma odd_card_unique:
  assumes "\<And>a b. a \<in> A \<Longrightarrow> b \<in> A \<Longrightarrow> a = b"
  shows "odd (card A) \<longleftrightarrow> A \<noteq> {}"
proof (cases "A = {}")
  case False
  then obtain a where "A = {a}" using assms by blast
  then show ?thesis by simp
qed simp

lemma edge_unique:
  fixes x y :: "'a::len word"
  assumes "same_above x y (Suc a)" "bit x a \<noteq> bit y a" "a < LENGTH('a)"
    and "same_above x y (Suc b)" "bit x b \<noteq> bit y b" "b < LENGTH('a)"
  shows "a = b"
  using assms unfolding same_above_def by (meson Suc_leI linorder_neqE_nat)

lemma min_shift: "min (min (i + s) w + t) w = min (i + (s + t)) (w :: nat)"
  by simp

lemma window_double:
  "(\<forall>t < 2 ^ Suc l. f (min (i + t) w)) \<longleftrightarrow>
   (\<forall>t < 2 ^ l. f (min (i + t) w)) \<and> (\<forall>t < 2 ^ l. f (min (min (i + 2 ^ l) w + t) (w :: nat)))"
proof
  assume a: "\<forall>t < 2 ^ Suc l. f (min (i + t) w)"
  show "(\<forall>t < 2 ^ l. f (min (i + t) w)) \<and> (\<forall>t < 2 ^ l. f (min (min (i + 2 ^ l) w + t) w))"
    unfolding min_shift using a by auto
next
  assume a: "(\<forall>t < 2 ^ l. f (min (i + t) w)) \<and> (\<forall>t < 2 ^ l. f (min (min (i + 2 ^ l) w + t) w))"
  show "\<forall>t < 2 ^ Suc l. f (min (i + t) w)"
  proof (intro allI impI)
    fix t :: nat assume t: "t < 2 ^ Suc l"
    show "f (min (i + t) w)"
    proof (cases "t < 2 ^ l")
      case False
      with t have "2 ^ l + (t - 2 ^ l) = t" "t - 2 ^ l < 2 ^ l" by simp_all
      then show ?thesis using a unfolding min_shift by metis
    qed (use a in blast)
  qed
qed

context boolean_protocol
begin

lemma bit_ars_sharing:
  fixes X :: "'a sharing"
  assumes "is_sharing n k q m X" and "j < m" and "i < LENGTH('a)"
  shows "bit (reveal_b (p_bit_arithmetic_right_shift X s) ! j) i
    = bit (reveal_b X ! j) (min (i + s) (LENGTH('a) - 1))"
proof -
  have "(if LENGTH('a) - s \<le> i \<and> i < LENGTH('a) then LENGTH('a) - 1 else s + i)
      = min (i + s) (LENGTH('a) - 1)" using assms(3) by auto
  then show ?thesis
    using assms shift_sharing(2) [OF assms(1) pos] len [OF assms(1)]
    by (simp add: bit_arithmetic_right_shift_def bit_signed_drop_bit_iff)
qed

section \<open>The equality prefix\<close>

lemma bit_same_loop_correct:
  fixes S :: "'a sharing"
  assumes "ok st" and "is_sharing n k q m S"
    and "\<And>j i. j < m \<Longrightarrow> i < LENGTH('a) \<Longrightarrow>
      bit (reveal_b S ! j) i = (\<forall>t < 2 ^ l. f j (min (i + t) (LENGTH('a) - 1)))"
    and "l \<le> L"
  shows "\<exists>R st'. bit_same_loop P [l..<L] S st = Some (R, st') \<and> ok st' \<and> is_sharing n k q m R \<and>
     (\<forall>j < m. \<forall>i < LENGTH('a). bit (reveal_b R ! j) i =
        (\<forall>t < 2 ^ L. f j (min (i + t) (LENGTH('a) - 1))))"
  using assms
proof (induction "L - l" arbitrary: l S st)
  case 0
  then show ?case by auto
next
  case (Suc d)
  let ?T = "p_bit_arithmetic_right_shift S (2 ^ l)"
  have T: "is_sharing n k q m ?T" by (rule shift_sharing(1) [OF Suc.prems(2) pos])
  obtain Z st' where z: "v_and_b P S ?T st = Some (Z, st')" "ok st'" "is_sharing n k q m Z"
    "reveal_b Z = map2 (AND) (reveal_b S) (reveal_b ?T)"
    by (rule and_obtains [OF Suc.prems(1,2) T])
  have zb: "bit (reveal_b Z ! j) i = (\<forall>t < 2 ^ Suc l. f j (min (i + t) (LENGTH('a) - 1)))"
    if j: "j < m" and i: "i < LENGTH('a)" for j i
  proof -
    have "min (i + 2 ^ l) (LENGTH('a) - 1) < LENGTH('a)" by (simp add: min.strict_coboundedI2)
    then show ?thesis
      unfolding window_double using bit_and_sharing [OF z(4) Suc.prems(2) T j, of i]
        bit_ars_sharing [OF Suc.prems(2) j i] Suc.prems(3) [OF j] i by simp
  qed
  have "l < L" "d = L - Suc l" "Suc l \<le> L" using Suc.hyps(2) by simp_all
  then have "bit_same_loop P [l..<L] S st = bit_same_loop P [Suc l..<L] Z st'"
    using z(1) by (simp add: upt_conv_Cons Let_def)
  then show ?case using Suc.hyps(1) [OF \<open>d = L - Suc l\<close> z(2,3) zb \<open>Suc l \<le> L\<close>] by simp
qed

theorem bit_same_correct:
  fixes X Y :: "'a sharing"
  assumes ok: "ok st" and X: "is_sharing n k q m X" and Y: "is_sharing n k q m Y"
  shows "\<exists>R st'. bit_same P X Y st = Some (R, st') \<and> ok st' \<and> is_sharing n k q m R \<and>
     (\<forall>j < m. \<forall>i < LENGTH('a). bit (reveal_b R ! j) i = same_above (reveal_b X ! j) (reveal_b Y ! j) i)"
proof -
  let ?S = "v_not_b P (xor_b X Y)" and ?L = "bit_width (LENGTH('a) - 1)"
  have XY: "is_sharing n k q m (xor_b X Y)" by (rule xor_sharing(1) [OF X Y pos])
  note S = not_sharing(1) [OF XY]
  let ?f = "\<lambda>j i. bit (reveal_b X ! j) i = bit (reveal_b Y ! j) i"
  have sb: "bit (reveal_b ?S ! j) i = (\<forall>t < 2 ^ 0. ?f j (min (i + t) (LENGTH('a) - 1)))"
    if "j < m" "i < LENGTH('a)" for j i
    using bit_not_sharing [OF XY that] bit_xor_sharing [OF X Y that(1)] that(2)
    by (simp add: min_absorb1)
  have w: "LENGTH('a) - 1 < 2 ^ ?L" by (rule bit_width_bound)
  show ?thesis
    using bit_same_loop_correct [OF ok S sb, of ?L] same_above_window [OF _ w]
    by (auto simp: bit_same_def inplace_invert_b_def Let_def)
qed

lemma mask_lsb:
  fixes X :: "'a sharing"
  assumes X: "is_sharing n k q m X" and "\<And>j. j < m \<Longrightarrow> bit (reveal_b X ! j) 0 = b j"
  shows "is_sharing n k q m (p_mask X 1)"
    and "reveal_b (p_mask X 1) = map (\<lambda>j. of_bool (b j)) [0..<m]"
proof -
  show "is_sharing n k q m (p_mask X 1)" by (rule bitfun_sharing(1) [OF X pos])
  have "x AND 1 = of_bool (bit x 0)" for x :: "'a word"
    by (simp add: and_one_eq mod_2_eq_odd bit_0)
  then show "reveal_b (p_mask X 1) = map (\<lambda>j. of_bool (b j)) [0..<m]"
    using bitfun_sharing(2) [OF X pos] len [OF X] assms(2)
    by (intro vec_eqI) (simp_all add: mask_vec_def)
qed

theorem equal_b_correct:
  fixes X Y :: "'a sharing"
  assumes "ok st" and X: "is_sharing n k q m X" and Y: "is_sharing n k q m Y"
  shows "\<exists>R st'. equal_b P X Y st = Some (R, st') \<and> ok st' \<and> is_sharing n k q m R \<and>
     reveal_b R = map2 (\<lambda>x y. of_bool (x = y)) (reveal_b X) (reveal_b Y)"
proof -
  obtain R st' where R: "bit_same P X Y st = Some (R, st')" "ok st'" "is_sharing n k q m R"
    "\<And>j. j < m \<Longrightarrow> bit (reveal_b R ! j) 0 = same_above (reveal_b X ! j) (reveal_b Y ! j) 0"
    using bit_same_correct [OF assms] by auto
  have "map (\<lambda>j. of_bool (same_above (reveal_b X ! j) (reveal_b Y ! j) 0)) [0..<m]
      = map2 (\<lambda>x y. of_bool (x = y)) (reveal_b X) (reveal_b Y)"
    using len [OF X] len [OF Y] by (intro nth_equalityI) (simp_all add: same_above_0)
  then show ?thesis using R mask_lsb [OF R(3,4)] by (simp add: equal_b_def)
qed

section \<open>The signed order\<close>

lemma edge_bits_correct:
  fixes X E :: "'a sharing"
  assumes ok: "ok st" and X: "is_sharing n k q m X" and E: "is_sharing n k q m E"
    and Eb: "\<And>j i. j < m \<Longrightarrow> i < LENGTH('a) \<Longrightarrow> bit (reveal_b E ! j) i = same_above (reveal_b X ! j) (ys j) i"
  shows "\<exists>R st'. edge_bits P X E st = Some (R, st') \<and> ok st' \<and> is_sharing n k q m R \<and>
     (\<forall>j < m. bit (reveal_b R ! j) 0 = (\<exists>i < LENGTH('a) - 1.
        same_above (reveal_b X ! j) (ys j) (Suc i) \<and> bit (reveal_b X ! j) i \<and> \<not> bit (ys j) i))"
proof -
  let ?S = "p_bit_arithmetic_right_shift E 1"
  have S: "is_sharing n k q m ?S" by (rule shift_sharing(1) [OF E pos])
  have D: "is_sharing n k q m (xor_b ?S E)" by (rule xor_sharing(1) [OF S E pos])
  obtain Z st' where z: "v_and_b P (xor_b ?S E) X st = Some (Z, st')" "ok st'" "is_sharing n k q m Z"
    "reveal_b Z = map2 (AND) (reveal_b (xor_b ?S E)) (reveal_b X)"
    by (rule and_obtains [OF ok D X])
  have zb: "bit (reveal_b Z ! j) i = (i < LENGTH('a) - 1 \<and> same_above (reveal_b X ! j) (ys j) (Suc i) \<and>
      bit (reveal_b X ! j) i \<and> \<not> bit (ys j) i)" if j: "j < m" and i: "i < LENGTH('a)" for j i
  proof -
    have "bit (reveal_b Z ! j) i =
      ((bit (reveal_b E ! j) (min (i + 1) (LENGTH('a) - 1)) \<noteq> bit (reveal_b E ! j) i) \<and> bit (reveal_b X ! j) i)"
      using bit_and_sharing [OF z(4) D X j] bit_xor_sharing [OF S E j] bit_ars_sharing [OF E j i] by simp
    also have "\<dots> = (i < LENGTH('a) - 1 \<and> same_above (reveal_b X ! j) (ys j) (Suc i) \<and>
      bit (reveal_b X ! j) i \<and> \<not> bit (ys j) i)"
      using i Eb [OF j i] Eb [OF j, of "min (i + 1) (LENGTH('a) - 1)"]
        same_above_step [OF i, of "reveal_b X ! j" "ys j"]
      by (cases "i = LENGTH('a) - 1") (auto simp: min_absorb1)
    finally show ?thesis .
  qed
  have "bit (reveal_b (p_bit_xor Z) ! j) 0 = (\<exists>i < LENGTH('a) - 1.
      same_above (reveal_b X ! j) (ys j) (Suc i) \<and> bit (reveal_b X ! j) i \<and> \<not> bit (ys j) i)"
    if j: "j < m" for j
  proof -
    have "bit (reveal_b (p_bit_xor Z) ! j) 0 = odd (popcount (reveal_b Z ! j))"
      using j bitfun_sharing(8) [OF z(3) pos] len [OF z(3)] by (simp add: nth_bit_xor bit_0)
    also have "\<dots> = ({i. i < LENGTH('a) \<and> bit (reveal_b Z ! j) i} \<noteq> {})"
      unfolding popcount_bits by (rule odd_card_unique) (auto simp: zb [OF j] intro: edge_unique)
    finally show ?thesis using zb [OF j] by auto
  qed
  with z(1,2) bitfun_sharing(7) [OF z(3) pos] show ?thesis
    by (auto simp: edge_bits_def Let_def)
qed

lemma packed_pack:
  fixes X D :: "'a sharing"
  assumes X: "is_sharing n k q m X" and D: "is_sharing n k q' (div_ceil m LENGTH('a)) D"
  shows "is_sharing n k q' (div_ceil m LENGTH('a)) (p_pack_from X D i)"
    and "j < m \<Longrightarrow> packed (reveal_b (p_pack_from X D i)) j = bit (reveal_b X ! j) i"
  using pack_sharing [OF X D refl pos] by (simp_all add: packed_def)

lemma packed_or:
  fixes X Y :: "'a sharing"
  assumes "ok st" and X: "is_sharing n k q (div_ceil m LENGTH('a)) X"
    and Y: "is_sharing n k q (div_ceil m LENGTH('a)) Y"
  shows "\<exists>Z st'. or_b P X Y st = Some (Z, st') \<and> ok st' \<and> is_sharing n k q (div_ceil m LENGTH('a)) Z \<and>
    (\<forall>j < m. packed (reveal_b Z) j = (packed (reveal_b X) j \<or> packed (reveal_b Y) j))"
proof -
  obtain Z st' where z: "or_b P X Y st = Some (Z, st')" "ok st'" "is_sharing n k q (div_ceil m LENGTH('a)) Z"
    "reveal_b Z = map2 (OR) (reveal_b X) (reveal_b Y)" by (rule or_obtains [OF assms])
  moreover have "packed (reveal_b Z) j = (packed (reveal_b X) j \<or> packed (reveal_b Y) j)" if "j < m" for j
    using z(4) packed_bound [OF that] len [OF X] len [OF Y] by (simp add: packed_def bit_simps)
  ultimately show ?thesis by blast
qed

lemma sign_fix_correct:
  fixes X Y G :: "'a sharing"
  assumes ok: "ok st" and X: "is_sharing n k q m X" and Y: "is_sharing n k q m Y"
    and G: "is_sharing n k q m G"
    and S1: "is_sharing n k q (div_ceil m LENGTH('a)) S1"
    and S2: "is_sharing n k q (div_ceil m LENGTH('a)) S2"
    and R0: "is_sharing n k q (div_ceil m LENGTH('a)) R0"
    and Gb: "\<And>j. j < m \<Longrightarrow> bit (reveal_b G ! j) 0 = (\<exists>i < LENGTH('a) - 1.
        same_above (reveal_b X ! j) (reveal_b Y ! j) (Suc i) \<and> bit (reveal_b X ! j) i \<and> \<not> bit (reveal_b Y ! j) i)"
  shows "\<exists>R st'. sign_fix P X Y G S1 S2 R0 st = Some (R, st') \<and> ok st' \<and> is_sharing n k q m R \<and>
     (\<forall>j < m. bit (reveal_b R ! j) 0 = (sint (reveal_b Y ! j) < sint (reveal_b X ! j)))"
proof -
  let ?w = "LENGTH('a)"
  let ?s1 = "p_pack_from X S1 (?w - 1)" and ?s2 = "p_pack_from Y S2 (?w - 1)" and ?r = "p_pack_from G R0 0"
  note s1 = packed_pack [OF X S1, where i = "?w - 1"] and s2 = packed_pack [OF Y S2, where i = "?w - 1"]
    and r = packed_pack [OF G R0, where i = 0]
  have a: "is_sharing n k q (div_ceil m ?w) (xor_b ?r ?s2)" by (rule xor_sharing(1) [OF r(1) s2(1) pos])
  have b: "is_sharing n k q (div_ceil m ?w) (xor_b ?s2 ?s1)" by (rule xor_sharing(1) [OF s2(1) s1(1) pos])
  obtain Z st' where z: "or_b P (xor_b ?s2 ?s1) (xor_b ?r ?s2) st = Some (Z, st')" "ok st'"
    "is_sharing n k q (div_ceil m ?w) Z"
    "\<And>j. j < m \<Longrightarrow> packed (reveal_b Z) j =
      (packed (reveal_b (xor_b ?s2 ?s1)) j \<or> packed (reveal_b (xor_b ?r ?s2)) j)"
    using packed_or [OF ok b a] by blast
  have t: "is_sharing n k q (div_ceil m ?w) (xor_b ?s1 Z)" by (rule xor_sharing(1) [OF s1(1) z(3) pos])
  note u = unpack_sharing [OF t G refl pos, where pos = 0]
  have "bit (reveal_b (p_unpack_from (xor_b ?s1 Z) G 0) ! j) 0 = (sint (reveal_b Y ! j) < sint (reveal_b X ! j))"
    if j: "j < m" for j
  proof -
    let ?x = "bit (reveal_b X ! j) (?w - 1)" and ?y = "bit (reveal_b Y ! j) (?w - 1)"
      and ?g = "bit (reveal_b G ! j) 0"
    have "bit (reveal_b (p_unpack_from (xor_b ?s1 Z) G 0) ! j) 0 = packed (reveal_b (xor_b ?s1 Z)) j"
      using u(2) [of j 0] j by (simp add: packed_def)
    also have "\<dots> = (?x \<noteq> ((?y \<noteq> ?x) \<or> (?g \<noteq> ?y)))"
      using packed_xor [OF s1(1) z(3) j] z(4) [OF j] packed_xor [OF s2(1) s1(1) j]
        packed_xor [OF r(1) s2(1) j] s1(2) [OF j] s2(2) [OF j] r(2) [OF j] by simp
    also have "\<dots> = (sint (reveal_b Y ! j) < sint (reveal_b X ! j))"
    proof (cases "?x = ?y")
      case True
      then show ?thesis using signed_less_iff [OF True] Gb [OF j] by auto
    next
      case False
      then show ?thesis using signed_less_signs [OF False] by auto
    qed
    finally show ?thesis .
  qed
  with z(1,2) u(1) show ?thesis by (auto simp: sign_fix_def Let_def)
qed

lemma compare_outputs:
  fixes X Y E H :: "'a sharing"
  assumes X: "is_sharing n k q m X" and Y: "is_sharing n k q m Y"
    and E: "is_sharing n k q m E"
      "\<And>j i. j < m \<Longrightarrow> i < LENGTH('a) \<Longrightarrow> bit (reveal_b E ! j) i = same_above (reveal_b X ! j) (reveal_b Y ! j) i"
    and H: "is_sharing n k q m H"
      "\<And>j. j < m \<Longrightarrow> bit (reveal_b H ! j) 0 = (sint (reveal_b Y ! j) < sint (reveal_b X ! j))"
  shows "is_sharing n k q m (p_mask E 1)" and "is_sharing n k q m (p_mask H 1)"
    and "reveal_b (p_mask E 1) = map2 (\<lambda>x y. of_bool (x = y)) (reveal_b X) (reveal_b Y)"
    and "reveal_b (p_mask H 1) = map2 (\<lambda>x y. of_bool (sint y < sint x)) (reveal_b X) (reveal_b Y)"
proof -
  have e0: "\<And>j. j < m \<Longrightarrow> bit (reveal_b E ! j) 0 = same_above (reveal_b X ! j) (reveal_b Y ! j) 0"
    using E(2) by simp
  have "map (\<lambda>j. of_bool (same_above (reveal_b X ! j) (reveal_b Y ! j) 0)) [0..<m]
      = map2 (\<lambda>x y. of_bool (x = y)) (reveal_b X) (reveal_b Y)"
    "map (\<lambda>j. of_bool (sint (reveal_b Y ! j) < sint (reveal_b X ! j))) [0..<m]
      = map2 (\<lambda>x y. of_bool (sint y < sint x)) (reveal_b X) (reveal_b Y)"
    using len [OF X] len [OF Y] by (auto intro!: nth_equalityI simp: same_above_0)
  then show "is_sharing n k q m (p_mask E 1)" "is_sharing n k q m (p_mask H 1)"
    "reveal_b (p_mask E 1) = map2 (\<lambda>x y. of_bool (x = y)) (reveal_b X) (reveal_b Y)"
    "reveal_b (p_mask H 1) = map2 (\<lambda>x y. of_bool (sint y < sint x)) (reveal_b X) (reveal_b Y)"
    using mask_lsb [OF E(1) e0] mask_lsb [OF H] by simp_all
qed

theorem compare_correct:
  fixes X Y :: "'a sharing"
  assumes ok: "ok st" and X: "is_sharing n k q m X" and Y: "is_sharing n k q m Y"
  shows "\<exists>E G st'. compare P X Y st = Some ((E, G), st') \<and> ok st' \<and>
     is_sharing n k q m E \<and> is_sharing n k q m G \<and>
     reveal_b E = map2 (\<lambda>x y. of_bool (x = y)) (reveal_b X) (reveal_b Y) \<and>
     reveal_b G = map2 (\<lambda>x y. of_bool (sint y < sint x)) (reveal_b X) (reveal_b Y)"
proof -
  obtain E st1 where E: "bit_same P X Y st = Some (E, st1)" "ok st1" "is_sharing n k q m E"
    "\<And>j i. j < m \<Longrightarrow> i < LENGTH('a) \<Longrightarrow> bit (reveal_b E ! j) i = same_above (reveal_b X ! j) (reveal_b Y ! j) i"
    using bit_same_correct [OF assms] by blast
  obtain G st2 where G: "edge_bits P X E st1 = Some (G, st2)" "ok st2" "is_sharing n k q m G"
    "\<And>j. j < m \<Longrightarrow> bit (reveal_b G ! j) 0 = (\<exists>i < LENGTH('a) - 1.
        same_above (reveal_b X ! j) (reveal_b Y ! j) (Suc i) \<and> bit (reveal_b X ! j) i \<and> \<not> bit (reveal_b Y ! j) i)"
    using edge_bits_correct [OF E(2) X E(3,4)] by blast
  note C = initial_carry(1) [OF X]
  obtain H st3 where H: "sign_fix P X Y G (p_construct_like X (compressed_size X))
      (p_construct_like X (compressed_size X)) (p_construct_like X (compressed_size X)) st2 = Some (H, st3)"
    "ok st3" "is_sharing n k q m H"
    "\<And>j. j < m \<Longrightarrow> bit (reveal_b H ! j) 0 = (sint (reveal_b Y ! j) < sint (reveal_b X ! j))"
    using sign_fix_correct [OF G(2) X Y G(3) C C C G(4)] by blast
  show ?thesis
    using E(1) G(1) H(1,2) compare_outputs [OF X Y E(3,4) H(3,4)] by (simp add: compare_def Let_def)
qed

section \<open>The linear comparison\<close>

lemma linear_step:
  fixes T B1 R E :: "'a sharing"
  assumes ok: "ok st" and T: "is_sharing n k q m T"
    and B1: "is_sharing n k q (div_ceil m LENGTH('a)) B1"
    and R: "is_sharing n k q (div_ceil m LENGTH('a)) R" and E: "is_sharing n k q m E"
    and Tb: "\<And>j. j < m \<Longrightarrow> reveal_b T ! j = xs j XOR ys j"
    and i: "i < LENGTH('a)"
    and Rb: "\<And>j. j < m \<Longrightarrow> Suc i < LENGTH('a) \<Longrightarrow> packed (reveal_b R) j = same_above (xs j) (ys j) (Suc i)"
    and Eb: "\<And>j t. j < m \<Longrightarrow> Suc i \<le> t \<Longrightarrow> t < LENGTH('a) \<Longrightarrow>
        bit (reveal_b E ! j) t = same_above (xs j) (ys j) t"
    and b: "b = inplace_invert_b P (p_pack_from T B1 i)"
  shows "\<exists>R' st'. (if i = LENGTH('a) - 1 then Some (b, st) else v_and_b P R b st) = Some (R', st') \<and> ok st' \<and>
     is_sharing n k q (div_ceil m LENGTH('a)) b \<and> is_sharing n k q (div_ceil m LENGTH('a)) R' \<and>
     is_sharing n k q m (p_unpack_from R' E i) \<and>
     (\<forall>j < m. packed (reveal_b R') j = same_above (xs j) (ys j) i) \<and>
     (\<forall>j < m. \<forall>t. i \<le> t \<longrightarrow> t < LENGTH('a) \<longrightarrow>
        bit (reveal_b (p_unpack_from R' E i) ! j) t = same_above (xs j) (ys j) t)"
proof -
  let ?c = "div_ceil m LENGTH('a)"
  note p = packed_pack [OF T B1, where i = i]
  have bs: "is_sharing n k q ?c b" unfolding b inplace_invert_b_def by (rule not_sharing(1) [OF p(1)])
  have bb: "packed (reveal_b b) j = (bit (xs j) i = bit (ys j) i)" if j: "j < m" for j
    unfolding b inplace_invert_b_def using packed_not [OF p(1) j] p(2) [OF j] Tb [OF j]
    by (simp add: bit_simps)
  have "\<exists>R' st'. (if i = LENGTH('a) - 1 then Some (b, st) else v_and_b P R b st) = Some (R', st') \<and> ok st' \<and>
     is_sharing n k q ?c R' \<and> (\<forall>j < m. packed (reveal_b R') j = same_above (xs j) (ys j) i)"
  proof (cases "i = LENGTH('a) - 1")
    case True
    then have "same_above (xs j) (ys j) i = (bit (xs j) i = bit (ys j) i)" for j
      unfolding same_above_def by (metis Suc_pred' i le_less_Suc_eq le_refl len_gt_0)
    then show ?thesis using True ok bs bb by simp
  next
    case False
    obtain Z st' where z: "v_and_b P R b st = Some (Z, st')" "ok st'" "is_sharing n k q ?c Z"
      "reveal_b Z = map2 (AND) (reveal_b R) (reveal_b b)" by (rule and_obtains [OF ok R bs])
    have "packed (reveal_b Z) j = same_above (xs j) (ys j) i" if j: "j < m" for j
      using packed_and [OF z(4) R bs j] Rb [OF j] bb [OF j] False i same_above_step [OF i, of "xs j" "ys j"]
      by simp
    with z False show ?thesis by simp
  qed
  then obtain R' st' where r: "(if i = LENGTH('a) - 1 then Some (b, st) else v_and_b P R b st) = Some (R', st')"
    "ok st'" "is_sharing n k q ?c R'" "\<And>j. j < m \<Longrightarrow> packed (reveal_b R') j = same_above (xs j) (ys j) i"
    by blast
  note u = unpack_sharing [OF r(3) E refl pos, where pos = i]
  have "bit (reveal_b (p_unpack_from R' E i) ! j) t = same_above (xs j) (ys j) t"
    if j: "j < m" and t: "i \<le> t" "t < LENGTH('a)" for j t
    using u(2) [of j t] r(4) [OF j] Eb [OF j, of t] j t by (cases "t = i") (simp_all add: packed_def)
  with r bs u(1) show ?thesis by blast
qed

lemma linear_compare_loop_correct:
  fixes T B1 R E :: "'a sharing"
  assumes "ok st" and T: "is_sharing n k q m T"
    and "is_sharing n k q (div_ceil m LENGTH('a)) B1"
    and "is_sharing n k q (div_ceil m LENGTH('a)) R" and "is_sharing n k q m E"
    and Tb: "\<And>j. j < m \<Longrightarrow> reveal_b T ! j = xs j XOR ys j"
    and "i \<le> LENGTH('a)"
    and "\<And>j. j < m \<Longrightarrow> i < LENGTH('a) \<Longrightarrow> packed (reveal_b R) j = same_above (xs j) (ys j) i"
    and "\<And>j t. j < m \<Longrightarrow> i \<le> t \<Longrightarrow> t < LENGTH('a) \<Longrightarrow>
        bit (reveal_b E ! j) t = same_above (xs j) (ys j) t"
  shows "\<exists>B1' R' E' st'. linear_compare_loop P T (rev [0..<i]) B1 R E st = Some ((B1', R', E'), st') \<and> ok st' \<and>
     is_sharing n k q (div_ceil m LENGTH('a)) B1' \<and> is_sharing n k q (div_ceil m LENGTH('a)) R' \<and>
     is_sharing n k q m E' \<and>
     (\<forall>j < m. \<forall>t < LENGTH('a). bit (reveal_b E' ! j) t = same_above (xs j) (ys j) t)"
  using assms(1,3-5,7-)
proof (induction i arbitrary: B1 R E st)
  case 0
  then show ?case by auto
next
  case (Suc i)
  let ?b = "inplace_invert_b P (p_pack_from T B1 i)"
  have i: "i < LENGTH('a)" using Suc.prems(5) by simp
  obtain R' st' where r: "(if i = LENGTH('a) - 1 then Some (?b, st) else v_and_b P R ?b st) = Some (R', st')"
    "ok st'" "is_sharing n k q (div_ceil m LENGTH('a)) ?b" "is_sharing n k q (div_ceil m LENGTH('a)) R'"
    "is_sharing n k q m (p_unpack_from R' E i)"
    "\<And>j. j < m \<Longrightarrow> packed (reveal_b R') j = same_above (xs j) (ys j) i"
    "\<And>j t. j < m \<Longrightarrow> i \<le> t \<Longrightarrow> t < LENGTH('a) \<Longrightarrow>
        bit (reveal_b (p_unpack_from R' E i) ! j) t = same_above (xs j) (ys j) t"
    using linear_step [OF Suc.prems(1) T Suc.prems(2-4) Tb i Suc.prems(6,7) refl] by blast
  have "linear_compare_loop P T (rev [0..<Suc i]) B1 R E st
      = linear_compare_loop P T (rev [0..<i]) ?b R' (p_unpack_from R' E i) st'"
    using r(1) by (simp add: Let_def)
  then show ?case
    using Suc.IH [OF r(2,3,4,5) _ r(6,7)] i by simp
qed

theorem linear_compare_correct:
  fixes X Y E0 :: "'a sharing"
  assumes ok: "ok st" and X: "is_sharing n k q m X" and Y: "is_sharing n k q m Y"
    and E0: "is_sharing n k q m E0"
  shows "\<exists>E G st'. linear_compare P X Y E0 st = Some ((E, G), st') \<and> ok st' \<and>
     is_sharing n k q m E \<and> is_sharing n k q m G \<and>
     reveal_b E = map2 (\<lambda>x y. of_bool (x = y)) (reveal_b X) (reveal_b Y) \<and>
     reveal_b G = map2 (\<lambda>x y. of_bool (sint y < sint x)) (reveal_b X) (reveal_b Y)"
proof -
  let ?C = "p_construct_like X (compressed_size X)" and ?T = "xor_b X Y"
  note C = initial_carry(1) [OF X]
  have T: "is_sharing n k q m ?T" by (rule xor_sharing(1) [OF X Y pos])
  have Tb: "reveal_b ?T ! j = reveal_b X ! j XOR reveal_b Y ! j" if "j < m" for j
    using that xor_sharing(2) [OF X Y pos] len [OF X] len [OF Y] by simp
  obtain B1 R E st1 where E: "linear_compare_loop P ?T (rev [0..<LENGTH('a)]) ?C ?C E0 st = Some ((B1, R, E), st1)"
    "ok st1" "is_sharing n k q (div_ceil m LENGTH('a)) B1" "is_sharing n k q (div_ceil m LENGTH('a)) R"
    "is_sharing n k q m E"
    "\<And>j i. j < m \<Longrightarrow> i < LENGTH('a) \<Longrightarrow> bit (reveal_b E ! j) i = same_above (reveal_b X ! j) (reveal_b Y ! j) i"
    using linear_compare_loop_correct [OF ok T C C E0 Tb order.refl] by auto
  obtain G st2 where G: "edge_bits P X E st1 = Some (G, st2)" "ok st2" "is_sharing n k q m G"
    "\<And>j. j < m \<Longrightarrow> bit (reveal_b G ! j) 0 = (\<exists>i < LENGTH('a) - 1.
        same_above (reveal_b X ! j) (reveal_b Y ! j) (Suc i) \<and> bit (reveal_b X ! j) i \<and> \<not> bit (reveal_b Y ! j) i)"
    using edge_bits_correct [OF E(2) X E(5,6)] by blast
  obtain H st3 where H: "sign_fix P X Y G B1 ?C R st2 = Some (H, st3)" "ok st3" "is_sharing n k q m H"
    "\<And>j. j < m \<Longrightarrow> bit (reveal_b H ! j) 0 = (sint (reveal_b Y ! j) < sint (reveal_b X ! j))"
    using sign_fix_correct [OF G(2) X Y G(3) E(3) C E(4) G(4)] by blast
  show ?thesis
    using E(1) G(1) H(1,2) compare_outputs [OF X Y E(5,6) H(3,4)] by (simp add: linear_compare_def Let_def)
qed

end

end
