(* ===== verification/Fixed_Point.thy ===== *)
theory Fixed_Point
  imports Vector_Ops
begin

text \<open>
  Arithmetic of the local steps of truncation and of division by a public constant.  Both work
  on two additive parts of a value: the parts are rounded separately, and the lemmas bound what
  that rounding does to the sum.
\<close>

definition quot_part :: "'a::len word \<Rightarrow> 'a word \<Rightarrow> 'a word" where
  "quot_part c v = sdiv_w v c - of_bool (sint v < 0)"

definition rem_part :: "'a::len word \<Rightarrow> 'a word \<Rightarrow> 'a word" where
  "rem_part c v = smod_w v c + of_bool (sint v < 0) * c"

lemma signed_drop_bit_div:
  "signed_drop_bit q (x :: 'a::len word) = word_of_int (sint x div 2 ^ q)"
  by (metis drop_bit_eq_div sint_signed_drop_bit_eq of_int_sint scast_id)

lemma div_add_pow:
  fixes a b :: int
  shows "a div 2 ^ q + b div 2 ^ q = (a + b) div 2 ^ q \<or>
    a div 2 ^ q + b div 2 ^ q = (a + b) div 2 ^ q - 1"
proof -
  let ?d = "2 ^ q :: int"
  have "(a + b) div ?d = a div ?d + b div ?d + (a mod ?d + b mod ?d) div ?d"
    by (rule div_add1_eq)
  moreover have "(a mod ?d + b mod ?d) div ?d = 0 \<or> (a mod ?d + b mod ?d) div ?d = 1"
  proof (cases "a mod ?d + b mod ?d < ?d")
    case True
    then show ?thesis by (simp add: div_pos_pos_trivial)
  next
    case False
    then have "(a mod ?d + b mod ?d) div ?d = (a mod ?d + b mod ?d - ?d) div ?d + 1"
      by (simp add: div_pos_geq)
    moreover have "a mod ?d < ?d" "b mod ?d < ?d" by simp_all
    then have "(a mod ?d + b mod ?d - ?d) div ?d = 0"
      using False by (intro div_pos_pos_trivial) linarith+
    ultimately show ?thesis by simp
  qed
  ultimately show ?thesis by linarith
qed

lemma truncate_parts:
  fixes a b :: "'a::len word"
  assumes "sint (a + b) = sint a + sint b"
  shows "signed_drop_bit q a + signed_drop_bit q b = signed_drop_bit q (a + b) \<or>
    signed_drop_bit q a + signed_drop_bit q b = signed_drop_bit q (a + b) - 1"
  using div_add_pow [of "sint a" q "sint b"]
  unfolding signed_drop_bit_div assms by (metis of_int_1 of_int_add of_int_diff)

lemma quot_rem_exact:
  fixes c v :: "'a::len word"
  shows "c * quot_part c v + rem_part c v = v"
proof -
  have s: "word_of_int (sint x) = x" for x :: "'a word" by simp
  have "c * word_of_int (sint v sdiv sint c) + word_of_int (sint v smod sint c)
      = word_of_int (sint c) * word_of_int (sint v sdiv sint c) + word_of_int (sint v smod sint c)"
    by (simp only: s)
  also have "\<dots> = word_of_int (sint c * (sint v sdiv sint c) + sint v smod sint c)"
    by (simp only: of_int_add of_int_mult)
  also have "sint c * (sint v sdiv sint c) + sint v smod sint c = sint v"
    by (rule mult_sdiv_smod_eq)
  also have "word_of_int (sint v) = v" by (rule s)
  finally show ?thesis by (simp add: quot_part_def rem_part_def sdiv_w_def smod_w_def algebra_simps)
qed


text \<open>
  The integer parts: the remainder of a negative part lies in \<open>{1..c}\<close>, so a negative multiple of
  \<open>c\<close> is rounded down once more than needed.
\<close>

definition quot_int :: "int \<Rightarrow> int \<Rightarrow> int" where
  "quot_int c v = v sdiv c - of_bool (v < 0)"

definition rem_int :: "int \<Rightarrow> int \<Rightarrow> int" where
  "rem_int c v = v smod c + of_bool (v < 0) * c"

lemma quot_rem_int: "c * quot_int c v + rem_int c v = v"
  using mult_sdiv_smod_eq [of c v] by (simp add: quot_int_def rem_int_def algebra_simps)

lemma rem_int_bounds:
  assumes "0 < c"
  shows "0 \<le> rem_int c v" and "rem_int c v \<le> c" and "rem_int c v = c \<longleftrightarrow> v < 0 \<and> c dvd v"
proof -
  have neg: "v smod c = - ((- v) mod c)" if "v < 0"
  proof -
    have "(- v) smod c = (- v) mod c" using that assms by (intro smod_mod_positive) simp_all
    then show ?thesis by simp
  qed
  have pos: "v smod c = v mod c" if "\<not> v < 0" using that assms by (intro smod_mod_positive) simp_all
  have b: "0 \<le> (- v) mod c" "(- v) mod c < c" "0 \<le> v mod c" "v mod c < c" using assms by simp_all
  have r: "rem_int c v = (if v < 0 then c - (- v) mod c else v mod c)"
    using neg pos by (simp add: rem_int_def)
  have n: "rem_int c v = c - (- v) mod c" if "v < 0" using r that by (simp only: if_True)
  have p: "rem_int c v = v mod c" if "\<not> v < 0" using r that by (simp only: if_False)
  show "0 \<le> rem_int c v" using n p b by linarith
  show "rem_int c v \<le> c" using n p b by linarith
  have "((- v) mod c = 0) = (c dvd v)" by (simp add: mod_eq_0_iff_dvd)
  then show "rem_int c v = c \<longleftrightarrow> v < 0 \<and> c dvd v" using n p b by linarith
qed

lemma parts_int:
  "quot_part c v = word_of_int (quot_int (sint c) (sint v))"
  "rem_part c v = word_of_int (rem_int (sint c) (sint v))"
  by (simp_all add: quot_part_def quot_int_def rem_part_def rem_int_def sdiv_w_def smod_w_def)

lemma corrected_int:
  fixes a b c :: int
  assumes "0 < c"
  shows "quot_int c a + quot_int c b + of_bool (c \<le> rem_int c a + rem_int c b)
    = (a + b) div c - of_bool (a < 0 \<and> c dvd a \<and> b < 0 \<and> c dvd b)"
proof -
  let ?T = "rem_int c a + rem_int c b"
  note ra = rem_int_bounds [OF assms, of a] and rb = rem_int_bounds [OF assms, of b]
  have "a + b = ?T + c * (quot_int c a + quot_int c b)"
    using quot_rem_int [of c a] quot_rem_int [of c b] by (simp add: algebra_simps)
  then have q: "(a + b) div c = quot_int c a + quot_int c b + ?T div c"
    using assms by (metis add.commute div_mult_self2 less_irrefl)
  have "?T = 2 * c \<longleftrightarrow> rem_int c a = c \<and> rem_int c b = c" using ra rb by linarith
  moreover have "?T div c = (if ?T = 2 * c then 2 else of_bool (c \<le> ?T))"
  proof (cases "c \<le> ?T")
    case True
    then have "?T div c = (?T - c) div c + 1" using assms by (simp add: div_pos_geq)
    moreover have "(?T - c) div c = of_bool (?T = 2 * c)"
    proof (cases "?T = 2 * c")
      case False
      with ra rb have "?T - c < c" by linarith
      with True False show ?thesis by (simp add: div_pos_pos_trivial)
    qed (use assms in simp)
    ultimately show ?thesis using True by simp
  next
    case False
    with ra rb assms have "?T div c = 0" by (intro div_pos_pos_trivial) linarith+
    with False assms show ?thesis by auto
  qed
  ultimately show ?thesis using q ra(3) rb(3) assms by auto
qed

lemma error_sign:
  fixes a b c :: "'a::len word"
  assumes "0 < sint c"
  shows "(0 \<le> sint (rem_part c a + rem_part c b - c))
    = (sint c \<le> rem_int (sint c) (sint a) + rem_int (sint c) (sint b))"
proof -
  let ?e = "rem_int (sint c) (sint a) + rem_int (sint c) (sint b) - sint c"
  have "rem_part c a + rem_part c b - c = word_of_int ?e"
    by (simp add: parts_int)
  moreover have "- (2 ^ (LENGTH('a) - 1)) \<le> ?e" "?e < 2 ^ (LENGTH('a) - 1)"
    using rem_int_bounds(1,2) [OF assms, of "sint a"] rem_int_bounds(1,2) [OF assms, of "sint b"]
      sint_lt [of c] by linarith+
  ultimately have "sint (rem_part c a + rem_part c b - c) = ?e"
    by (simp only: sint_sbintrunc' signed_take_bit_int_eq_self)
  then show ?thesis by auto
qed

lemma corrected_quotient:
  fixes a b c :: "'a::len word"
  assumes "sint (a + b) = sint a + sint b" and "0 < sint c"
  shows "quot_part c a + quot_part c b + of_bool (0 \<le> sint (rem_part c a + rem_part c b - c))
    = word_of_int (sint (a + b) div sint c)
      - of_bool (sint a < 0 \<and> sint c dvd sint a \<and> sint b < 0 \<and> sint c dvd sint b)"
proof -
  let ?q = "quot_int (sint c)"
  have "quot_part c a + quot_part c b + of_bool (0 \<le> sint (rem_part c a + rem_part c b - c))
      = word_of_int (?q (sint a) + ?q (sint b)
          + of_bool (sint c \<le> rem_int (sint c) (sint a) + rem_int (sint c) (sint b)))"
    unfolding error_sign [OF assms(2)] by (simp add: parts_int)
  then show ?thesis unfolding corrected_int [OF assms(2)] assms(1) by simp
qed

section \<open>Vectors\<close>

lemma vadd_ac:
  "vadd (vadd a b) c = vadd a (vadd b c)" "vadd a b = vadd b a" "vadd a (vadd b c) = vadd b (vadd a c)"
proof -
  show "vadd (vadd a b) c = vadd a (vadd b c)" by (rule vec_eqI) (simp_all add: ac_simps)
  show "vadd a b = vadd b a" by (rule vec_eqI) (simp_all add: ac_simps)
  show "vadd a (vadd b c) = vadd b (vadd a c)" by (rule vec_eqI) (simp_all add: ac_simps)
qed

lemma vec_op_vadd [simp]: "vec_op (+) = vadd"
  by (simp add: fun_eq_iff vec_op_def vadd_def)

lemma vec_op_vxor [simp]: "vec_op (XOR) = vxor"
  by (simp add: fun_eq_iff vec_op_def vxor_def)

definition truncated :: "nat \<Rightarrow> 'a::len vec \<Rightarrow> 'a vec \<Rightarrow> bool" where
  "truncated q p r \<longleftrightarrow> length r = length p \<and>
     (\<exists>a b. vadd a b = p \<and> length a = length p \<and> length b = length p \<and>
       (\<forall>i < length p. r ! i = signed_drop_bit q (a ! i) + signed_drop_bit q (b ! i)))"

lemma length_ars: "length (bit_arithmetic_right_shift q v) = length v"
  by (simp add: bit_arithmetic_right_shift_def)

lemma truncated_parts:
  assumes "length a = m" and "length b = m"
  shows "truncated q (vadd a b) (vadd (bit_arithmetic_right_shift q a) (bit_arithmetic_right_shift q b))"
  unfolding truncated_def using assms
  by (intro conjI exI [of _ a] exI [of _ b]) (simp_all add: bit_arithmetic_right_shift_def)

lemma truncated_close:
  assumes "truncated q p r"
  shows "\<exists>a b. vadd a b = p \<and> (\<forall>i < length p. sint (p ! i) = sint (a ! i) + sint (b ! i) \<longrightarrow>
    r ! i \<in> {signed_drop_bit q (p ! i), signed_drop_bit q (p ! i) - 1})"
proof -
  from assms obtain a b where ab: "vadd a b = p" "length a = length p" "length b = length p"
    "\<forall>i < length p. r ! i = signed_drop_bit q (a ! i) + signed_drop_bit q (b ! i)"
    by (auto simp: truncated_def)
  have "r ! i \<in> {signed_drop_bit q (p ! i), signed_drop_bit q (p ! i) - 1}"
    if "i < length p" "sint (p ! i) = sint (a ! i) + sint (b ! i)" for i
  proof -
    have "vadd a b ! i = a ! i + b ! i" using ab(2,3) that(1) by (intro nth_vadd) simp_all
    then have "p ! i = a ! i + b ! i" by (simp only: ab(1))
    then show ?thesis using truncate_parts [of "a ! i" "b ! i" q] that ab(4) by auto
  qed
  then show ?thesis using ab(1) by blast
qed

text \<open>
  Without any assumption on the parts: the error is at most one unit in the last place plus a
  wrap-around of the two parts, which shows in the top \<open>q\<close> bits.
\<close>

lemma sint_add_wrap:
  fixes a b :: "'a::len word"
  shows "\<exists>e \<in> {- 1, 0, 1}. sint a + sint b = sint (a + b) + e * 2 ^ LENGTH('a)"
proof -
  let ?L = "2 ^ LENGTH('a) :: int" and ?H = "2 ^ (LENGTH('a) - 1) :: int"
  have H: "?L = 2 * ?H" by (simp flip: power_Suc)
  have "(word_of_int (sint a + sint b) :: 'a word) = word_of_int (sint (a + b))"
    by (simp only: of_int_add of_int_sint scast_id)
  then have "(sint a + sint b) mod ?L = sint (a + b) mod ?L"
    by (simp only: word_of_int_eq_iff take_bit_eq_mod)
  then obtain e where e: "sint a + sint b = sint (a + b) + ?L * e"
    by (metis mod_eqE)
  have "sint a < ?H" "sint b < ?H" "sint (a + b) < ?H" by (rule sint_lt)+
  moreover have "- ?H \<le> sint a" "- ?H \<le> sint b" "- ?H \<le> sint (a + b)" by (rule sint_ge)+
  ultimately have "?L * e < 2 * ?L" "- (2 * ?L) < ?L * e" using e H by linarith+
  then have "?L * e < ?L * 2" "?L * (- 2) < ?L * e" by (simp_all add: mult.commute)
  then have "e < 2" "- 2 < e" by (simp_all only: mult_less_cancel_left_pos zero_less_power zero_less_numeral)
  then have "e \<in> {- 1, 0, 1}" by auto
  with e show ?thesis by (metis mult.commute)
qed

lemma truncated_error:
  fixes p r :: "'a::len vec"
  assumes "truncated q p r" and "q \<le> LENGTH('a)" and "i < length p"
  shows "\<exists>e \<in> {- 1, 0, 1}. \<exists>d \<in> {0, 1}.
    r ! i = word_of_int (sint (p ! i) div 2 ^ q + e * 2 ^ (LENGTH('a) - q) - d)"
proof -
  from assms(1) obtain a b where ab: "vadd a b = p" "length a = length p" "length b = length p"
    "\<forall>i < length p. r ! i = signed_drop_bit q (a ! i) + signed_drop_bit q (b ! i)"
    by (auto simp: truncated_def)
  have "vadd a b ! i = a ! i + b ! i" using ab(2,3) assms(3) by (intro nth_vadd) simp_all
  then have p: "p ! i = a ! i + b ! i" by (simp only: ab(1))
  obtain e :: int where e: "e \<in> {- 1, 0, 1}" "sint (a ! i) + sint (b ! i) = sint (p ! i) + e * 2 ^ LENGTH('a)"
    using sint_add_wrap [of "a ! i" "b ! i"] unfolding p by blast
  have "(2 :: int) ^ LENGTH('a) = 2 ^ (LENGTH('a) - q) * 2 ^ q"
    using assms(2) by (simp flip: power_add)
  then have "(sint (a ! i) + sint (b ! i)) div 2 ^ q = sint (p ! i) div 2 ^ q + e * 2 ^ (LENGTH('a) - q)"
    using e(2) by (simp add: mult.assoc [symmetric])
  then obtain d :: int where d: "d \<in> {0, 1}"
    "sint (a ! i) div 2 ^ q + sint (b ! i) div 2 ^ q = sint (p ! i) div 2 ^ q + e * 2 ^ (LENGTH('a) - q) - d"
    using div_add_pow [of "sint (a ! i)" q "sint (b ! i)"] by force
  have "r ! i = word_of_int (sint (a ! i) div 2 ^ q + sint (b ! i) div 2 ^ q)"
    using ab(4) assms(3) by (simp add: signed_drop_bit_div)
  with e(1) d show ?thesis by auto
qed

lemma bit_sub_square:
  fixes a b :: "'a::len word"
  shows "((a AND 1) - (b AND 1)) * ((a AND 1) - (b AND 1)) = (a XOR b) AND 1"
proof -
  have e: "x AND 1 = of_bool (bit x 0)" for x :: "'a word"
    by (simp add: and_one_eq mod_2_eq_odd bit_0)
  show ?thesis unfolding e by (simp add: bit_simps)
qed

lemma quot_part_vec:
  assumes "length v = m"
  shows "vec_op (-) (vec_elem_op sdiv_w v c) (vec_unop (\<lambda>x. of_bool (sint x < 0)) v) = map (quot_part c) v"
    and "vec_op (+) (vec_elem_op smod_w v c) (vec_elem_op (*) (vec_unop (\<lambda>x. of_bool (sint x < 0)) v) c)
      = map (rem_part c) v"
  by (auto simp: vec_op_def vec_elem_op_def vec_unop_def quot_part_def rem_part_def intro!: nth_equalityI)

end
