(* ===== verification/Shared_Vectors.thy ===== *)
theory Shared_Vectors
  imports Comparison Fixed_Point Vector_Algebra
begin

text \<open>
  The user-level operators of \<open>BSharedVector\<close> and \<open>ASharedVector\<close> (\<open>core/containers\<close>) and the
  oblivious selection \<open>multiplex\<close> (\<open>core/operators/common.h\<close>), over the protocol record.  The choice
  between the two adders is made at run time from latency and bandwidth; here it is the argument
  \<open>use_rca\<close>.  The locale \<open>conversion_protocol\<close> adds to the boolean contract what a protocol promises
  about its conversions, and \<open>dividing_protocol\<close> what it promises about division by a constant.
\<close>

section \<open>Engine calls and the precision of their results\<close>

text \<open>
  A shared vector reaches the protocol through the run time (\<open>eval_protocol_1arg\<close> and its siblings in
  \<open>backend/common/runtime.h\<close>), whose tasks hold the result vector by value (\<open>backend/common/task.h\<close>):
  the elements arrive in the caller's vector, a precision set inside the protocol does not.  Operators
  built by \<open>binary_op\<close> repair that with \<open>matchPrecision(this)\<close>, which is what the protocol itself would
  have set.  The results of \<open>unary_op\<close>, \<open>fn_no_input\<close>, \<open>extend_lsb\<close>, a shift and \<open>_compare\<close> on fresh
  vectors keep the precision \<open>0\<close> of a fresh vector, and \<open>b2a_bit\<close> sets the precision of its source.
  A later \<open>and_b\<close> or \<open>multiply_a\<close> of such a result with a vector of another precision throws.
\<close>

definition sv_not_b :: "('a::len, 'st) protocol \<Rightarrow> 'a sharing \<Rightarrow> 'a sharing" where
  "sv_not_b P x = p_setPrecision 0 (v_not_b P x)"

definition sv_not_b_1 :: "('a::len, 'st) protocol \<Rightarrow> 'a sharing \<Rightarrow> 'a sharing" where
  "sv_not_b_1 P x = p_setPrecision 0 (v_not_b_1 P x)"

definition sv_ltz :: "'a::len sharing \<Rightarrow> 'a sharing" where
  "sv_ltz x = p_setPrecision 0 (p_ltz x)"

definition sv_extend_lsb :: "'a::len sharing \<Rightarrow> 'a sharing" where
  "sv_extend_lsb x = p_setPrecision 0 (p_extend_lsb x)"

definition sv_left_shift :: "'a::len sharing \<Rightarrow> nat \<Rightarrow> 'a sharing" where
  "sv_left_shift x s = p_setPrecision 0 (p_bit_left_shift x s)"

definition sv_compare ::
  "('a::len, 'st) protocol \<Rightarrow> 'a sharing \<Rightarrow> 'a sharing \<Rightarrow> 'st \<Rightarrow> (('a sharing \<times> 'a sharing) \<times> 'st) option" where
  "sv_compare P a b st = do {
     ((eq, gt), st) \<leftarrow> compare P a b st;
     Some ((p_setPrecision 0 eq, p_setPrecision 0 gt), st)
   }"

definition sv_b2a_bit :: "('a::len, 'st) protocol \<Rightarrow> 'a sharing \<Rightarrow> 'st \<Rightarrow> ('a sharing \<times> 'st) option" where
  "sv_b2a_bit P x st = do {
     (res, st) \<leftarrow> v_b2a_bit P x st;
     Some (p_setPrecision (a_prec x) res, st)
   }"

section \<open>Boolean operators\<close>

definition sv_new :: "'a::len sharing \<Rightarrow> 'a sharing" where
  "sv_new a = p_construct_like a (sh_size a)"

definition sv_rca ::
  "('a::len, 'st) protocol \<Rightarrow> 'a sharing \<Rightarrow> 'a sharing \<Rightarrow> bool \<Rightarrow> 'st \<Rightarrow> ('a sharing \<times> 'st) option" where
  "sv_rca P a b carry_in st = ripple_carry_adder P a b (sv_new a) carry_in st"

definition sv_ppa ::
  "('a::len, 'st) protocol \<Rightarrow> 'a sharing \<Rightarrow> 'a sharing \<Rightarrow> bool \<Rightarrow> 'st \<Rightarrow> ('a sharing \<times> 'st) option" where
  "sv_ppa P a b carry_in st = parallel_prefix_adder P a b carry_in st"

definition binary_adder ::
  "bool \<Rightarrow> ('a::len, 'st) protocol \<Rightarrow> 'a sharing \<Rightarrow> 'a sharing \<Rightarrow> bool \<Rightarrow> 'st \<Rightarrow> ('a sharing \<times> 'st) option" where
  "binary_adder use_rca P a b carry_in st =
     (if use_rca then sv_rca P a b carry_in st else sv_ppa P a b carry_in st)"

definition b_plus ::
  "bool \<Rightarrow> ('a::len, 'st) protocol \<Rightarrow> 'a sharing \<Rightarrow> 'a sharing \<Rightarrow> 'st \<Rightarrow> ('a sharing \<times> 'st) option" where
  "b_plus use_rca P a b st = binary_adder use_rca P a b False st"

definition b_minus ::
  "bool \<Rightarrow> ('a::len, 'st) protocol \<Rightarrow> 'a sharing \<Rightarrow> 'a sharing \<Rightarrow> 'st \<Rightarrow> ('a sharing \<times> 'st) option" where
  "b_minus use_rca P a b st = binary_adder use_rca P a (sv_not_b P b) True st"

definition b_negate ::
  "bool \<Rightarrow> ('a::len, 'st) protocol \<Rightarrow> 'a sharing \<Rightarrow> 'st \<Rightarrow> ('a sharing \<times> 'st) option" where
  "b_negate use_rca P a st = b_minus use_rca P (p_setPrecision 0 (sv_new a)) a st"

definition b_gt ::
  "('a::len, 'st) protocol \<Rightarrow> 'a sharing \<Rightarrow> 'a sharing \<Rightarrow> 'st \<Rightarrow> ('a sharing \<times> 'st) option" where
  "b_gt P a b st = do {
     ((eq, gt), st) \<leftarrow> compare P a b st;
     Some (gt, st)
   }"

definition b_lt ::
  "('a::len, 'st) protocol \<Rightarrow> 'a sharing \<Rightarrow> 'a sharing \<Rightarrow> 'st \<Rightarrow> ('a sharing \<times> 'st) option" where
  "b_lt P a b st = b_gt P b a st"

definition b_ge ::
  "('a::len, 'st) protocol \<Rightarrow> 'a sharing \<Rightarrow> 'a sharing \<Rightarrow> 'st \<Rightarrow> ('a sharing \<times> 'st) option" where
  "b_ge P a b st = do {
     (lt, st) \<leftarrow> b_lt P a b st;
     Some (sv_not_b_1 P lt, st)
   }"

definition b_le ::
  "('a::len, 'st) protocol \<Rightarrow> 'a sharing \<Rightarrow> 'a sharing \<Rightarrow> 'st \<Rightarrow> ('a sharing \<times> 'st) option" where
  "b_le P a b st = do {
     (gt, st) \<leftarrow> b_gt P a b st;
     Some (sv_not_b_1 P gt, st)
   }"

definition b_ne ::
  "('a::len, 'st) protocol \<Rightarrow> 'a sharing \<Rightarrow> 'a sharing \<Rightarrow> 'st \<Rightarrow> ('a sharing \<times> 'st) option" where
  "b_ne P a b st = do {
     (eq, st) \<leftarrow> equal_b P a b st;
     Some (sv_not_b_1 P eq, st)
   }"

definition multiplex_b ::
  "('a::len, 'st) protocol \<Rightarrow> 'a sharing \<Rightarrow> 'a sharing \<Rightarrow> 'a sharing \<Rightarrow> 'st \<Rightarrow> ('a sharing \<times> 'st) option" where
  "multiplex_b P sel a b st = do {
     let sel_extended = sv_extend_lsb sel;
     (t, st) \<leftarrow> v_and_b P sel_extended (xor_b b a) st;
     Some (xor_b a t, st)
   }"

definition multiplex_a ::
  "('a::len, 'st) protocol \<Rightarrow> 'a sharing \<Rightarrow> 'a sharing \<Rightarrow> 'a sharing \<Rightarrow> 'st \<Rightarrow> ('a sharing \<times> 'st) option" where
  "multiplex_a P sel a b st = do {
     (t, st) \<leftarrow> v_multiply_a P sel (sub_a b a) st;
     Some (add_a a t, st)
   }"

section \<open>Conversions and arithmetic operators\<close>

definition a2b ::
  "bool \<Rightarrow> ('a::len, 'st) protocol \<Rightarrow> 'a sharing \<Rightarrow> 'st \<Rightarrow> ('a sharing \<times> 'st) option" where
  "a2b use_rca P x st = do {
     ((v1, v2), st) \<leftarrow> v_redistribute_shares_b P x st;
     (res, st) \<leftarrow> b_plus use_rca P v1 v2 st;
     Some (p_setPrecision (a_prec x) res, st)
   }"

definition a_div_const ::
  "bool \<Rightarrow> ('a::len, 'st) protocol \<Rightarrow> 'a sharing \<Rightarrow> 'a word \<Rightarrow> 'st \<Rightarrow> ('a sharing \<times> 'st) option" where
  "a_div_const use_rca P x c st = do {
     ((out_res, out_err), st) \<leftarrow> v_div_const_a P x c st;
     let out_res = p_setPrecision (a_prec x) out_res;
     let out_err = p_setPrecision (a_prec x) out_err;
     (conv, st) \<leftarrow> a2b use_rca P out_err st;
     (correction, st) \<leftarrow> sv_b2a_bit P (sv_not_b_1 P (sv_ltz conv)) st;
     Some (add_a out_res correction, st)
   }"

definition b_popcount ::
  "('a::len, 'st) protocol \<Rightarrow> 'a sharing \<Rightarrow> 'st \<Rightarrow> ('a sharing \<times> 'st) option" where
  "b_popcount P x st = do {
     let concat = p_unpack_from x (p_setPrecision 0 (p_construct_like x (sh_size x * LENGTH('a)))) 0;
     (conv, st) \<leftarrow> sv_b2a_bit P concat st;
     Some (p_setPrecision (a_prec x) (map (apply_return (chunkedSum LENGTH('a))) conv), st)
   }"

section \<open>The contracts\<close>

definition bit_shares :: "'a::len sharing \<Rightarrow> bool" where
  "bit_shares S \<longleftrightarrow> (\<forall>e \<in> set S. \<forall>c \<in> set (cols e). \<forall>x \<in> set c. x = 0 \<or> x = 1)"

lemma bit_shares_mask: "bit_shares (p_mask X 1)"
  by (auto simp: bit_shares_def p_mask_def apply_to_def mask_vec_def and_one_eq mod_2_eq_odd)

lemma bit_shares_ltz: "bit_shares (p_ltz X)"
  by (auto simp: bit_shares_def p_ltz_def apply_return_def ltz_vec_def)

lemma bit_shares_setPrecision [simp]: "bit_shares (p_setPrecision q X) = bit_shares X"
  by (simp add: bit_shares_def p_setPrecision_def setPrecision_def)

lemma lnot_bit:
  fixes x :: "'a::len word"
  shows "lnot_w (x AND 1) = of_bool (\<not> bit x 0)"
  by (simp add: lnot_w_def and_one_eq mod_2_eq_odd bit_0)

lemma bit_reveal:
  assumes "is_sharing n k q m X" and "bit_shares X" and "0 < k" "0 < n" and "x \<in> set (reveal_b X)"
  shows "x = 0 \<or> x = 1"
proof -
  have aux: "\<forall>u \<in> set us. length u = m \<and> (\<forall>x \<in> set u. x = 0 \<or> x = 1) \<Longrightarrow>
      \<forall>x \<in> set (vxor_all m us). x = 0 \<or> x = 1" for us :: "'a::len vec list"
  proof (induction us)
    case (Cons u us)
    then show ?case by (fastforce simp: vxor_def elim!: in_set_zipE)
  qed simp
  from assms(1) obtain xs where xs: "X = share_out k q xs" "length xs = n" "\<forall>x \<in> set xs. length x = m"
    by (elim is_sharingE)
  have "\<forall>u \<in> set xs. \<forall>x \<in> set u. x = 0 \<or> x = 1"
  proof
    fix u assume "u \<in> set xs"
    then obtain p where p: "p < n" "u = xs ! p" using xs(2) by (metis in_set_conv_nth)
    then have "p < length X" "u = cols (X ! p) ! 0" "0 < length (cols (X ! p))"
      using xs assms(3) by (simp_all add: share_out_def)
    then have "X ! p \<in> set X" "u \<in> set (cols (X ! p))" by simp_all
    then show "\<forall>x \<in> set u. x = 0 \<or> x = 1" using assms(2) by (auto simp: bit_shares_def)
  qed
  then show ?thesis using aux [of xs] xs assms(3-5) by (simp add: reveal_b_share_out [where m = m])
qed

lemma xor_one_bits: "x = 0 \<or> x = (1 :: 'a::len word) \<Longrightarrow> of_bool (\<not> bit x 0) = x XOR 1"
  by auto

lemma xor_one_reveal:
  fixes X :: "'a::len sharing"
  assumes "is_sharing n k q m X" and "bit_shares X" and "0 < k" "0 < n"
  shows "map (\<lambda>x. of_bool (\<not> bit x 0)) (reveal_b X) = map (\<lambda>x. x XOR 1) (reveal_b X)"
  using xor_one_bits [OF bit_reveal [OF assms]] by (intro map_cong) simp_all

lemma sv_extend_sharing:
  assumes "is_sharing n k q m X" and "0 < k" and "0 < n"
  shows "is_sharing n k 0 m (sv_extend_lsb X)" and "reveal_b (sv_extend_lsb X) = extend_lsb (reveal_b X)"
  using setPrecision_sharing [OF bitfun_sharing(5) [OF assms] assms(2,3), of 0] bitfun_sharing(6) [OF assms]
  by (simp_all add: sv_extend_lsb_def)

lemma sv_ltz_sharing:
  assumes "is_sharing n k q m X" and "0 < k" and "0 < n"
  shows "is_sharing n k 0 m (sv_ltz X)" and "reveal_b (sv_ltz X) = ltz_vec (reveal_b X)" and "bit_shares (sv_ltz X)"
  using setPrecision_sharing [OF bitfun_sharing(3) [OF assms] assms(2,3), of 0] bitfun_sharing(4) [OF assms]
  by (simp_all add: sv_ltz_def bit_shares_ltz)

lemma sv_left_shift_sharing:
  assumes "is_sharing n k q m X" and "0 < k" and "0 < n"
  shows "is_sharing n k 0 m (sv_left_shift X s)" and "reveal_b (sv_left_shift X s) = bit_left_shift s (reveal_b X)"
  using setPrecision_sharing [OF shift_sharing(5) [OF assms] assms(2,3), of 0] shift_sharing(6) [OF assms]
  by (simp_all add: sv_left_shift_def)

locale conversion_protocol = boolean_protocol +
  assumes not1_law: "is_sharing n k q m X \<Longrightarrow> bit_shares X \<Longrightarrow>
      is_sharing n k q m (v_not_b_1 P X) \<and> bit_shares (v_not_b_1 P X) \<and>
      reveal_b (v_not_b_1 P X) = map (\<lambda>x. x XOR 1) (reveal_b X)"
    and redistribute_law: "ok st \<Longrightarrow> is_sharing n k q m X \<Longrightarrow>
      \<exists>U V st'. v_redistribute_shares_b P X st = Some ((U, V), st') \<and> ok st' \<and>
        is_sharing n k 0 m U \<and> is_sharing n k 0 m V \<and>
        map2 (+) (reveal_b U) (reveal_b V) = reveal_a X"
    and b2a_law: "ok st \<Longrightarrow> is_sharing n k q m X \<Longrightarrow>
      \<exists>R st'. v_b2a_bit P X st = Some (R, st') \<and> ok st' \<and> is_sharing n k 0 m R \<and>
        reveal_a R = map (\<lambda>x. x AND 1) (reveal_b X)"

locale dividing_protocol = conversion_protocol P n k ok
  for P :: "('a::len, 'st) protocol" and n k :: nat and ok :: "'st \<Rightarrow> bool" +
  fixes parts :: "'a sharing \<Rightarrow> 'a vec \<times> 'a vec"
  assumes div_law: "ok st \<Longrightarrow> is_sharing n k q m X \<Longrightarrow>
      \<exists>R E st' a b. parts X = (a, b) \<and> v_div_const_a P X c st = Some ((R, E), st') \<and> ok st' \<and>
        is_sharing n k 0 m R \<and> is_sharing n k 0 m E \<and>
        length a = m \<and> length b = m \<and> vadd a b = reveal_a X \<and>
        reveal_a R = map2 (\<lambda>x y. quot_part c x + quot_part c y) a b \<and>
        reveal_a E = map2 (\<lambda>x y. rem_part c x + rem_part c y - c) a b"

section \<open>Operators inside the contracts\<close>

lemma map2_flip: "map2 (\<lambda>x y. f y x) u v = map2 f v u"
  by (subst zip_commute) (simp add: comp_def case_prod_beta)

context boolean_protocol
begin

lemma sv_new_sharing:
  fixes A :: "'a sharing"
  assumes "is_sharing n k q m A"
  shows "is_sharing n k q m (sv_new A)" and "reveal_b (sv_new A) = replicate m 0"
proof -
  have "sh_size A = m" using is_sharing_size [OF assms] pos by (simp add: sh_size_def)
  then show "is_sharing n k q m (sv_new A)" "reveal_b (sv_new A) = replicate m 0"
    using construct_sharing [OF assms pos, of m] by (simp_all add: sv_new_def)
qed

lemma sv_not_sharing:
  fixes X :: "'a sharing"
  assumes "is_sharing n k q m X"
  shows "is_sharing n k 0 m (sv_not_b P X)" and "reveal_b (sv_not_b P X) = map NOT (reveal_b X)"
  using setPrecision_sharing [OF not_sharing(1) [OF assms] pos, of 0] not_sharing(2) [OF assms]
  by (simp_all add: sv_not_b_def)

text \<open>The ripple-carry adder works on copies of the precision of its first operand; the parallel-prefix
  adder needs one precision.\<close>

theorem binary_adder_correct:
  fixes A B :: "'a sharing"
  assumes "ok st" and "is_sharing n k q m A" and "is_sharing n k q' m B" and "use_rca \<or> q = q'"
  shows "\<exists>R st'. binary_adder use_rca P A B c st = Some (R, st') \<and> ok st' \<and> is_sharing n k q m R \<and>
     reveal_b R = map2 (\<lambda>x y. (x + y + of_bool c) XOR of_bool (\<not> use_rca \<and> c \<and> even n)) (reveal_b A) (reveal_b B)"
  using ripple_carry_adder_correct [OF assms(1-3) sv_new_sharing(1) [OF assms(2)], of c]
    parallel_prefix_adder_correct [OF assms(1,2), of B c] assms(3,4)
  by (cases use_rca) (simp_all add: binary_adder_def sv_rca_def sv_ppa_def)

theorem b_minus_correct:
  fixes A B :: "'a sharing"
  assumes "ok st" and A: "is_sharing n k q m A" and B: "is_sharing n k q' m B" and q: "use_rca \<or> q = 0"
  shows "\<exists>R st'. b_minus use_rca P A B st = Some (R, st') \<and> ok st' \<and> is_sharing n k q m R \<and>
     reveal_b R = map2 (\<lambda>x y. (x - y) XOR of_bool (\<not> use_rca \<and> even n)) (reveal_b A) (reveal_b B)"
proof -
  have e: "map2 (\<lambda>x y. (x + y + of_bool True) XOR c) u (map NOT v) = map2 (\<lambda>x y. (x - y) XOR c) u v"
    for u v :: "'a vec" and c
    by (auto intro!: nth_equalityI simp: not_eq_complement)
  show ?thesis
    using binary_adder_correct [OF assms(1) A sv_not_sharing(1) [OF B] q, of True]
    unfolding sv_not_sharing(2) [OF B] e by (simp add: b_minus_def)
qed

theorem b_gt_correct:
  fixes A B :: "'a sharing"
  assumes "ok st" and "is_sharing n k q m A" and "is_sharing n k q m B"
  shows "\<exists>R st'. b_gt P A B st = Some (R, st') \<and> ok st' \<and> is_sharing n k q m R \<and> bit_shares R \<and>
     reveal_b R = map2 (\<lambda>x y. of_bool (sint y < sint x)) (reveal_b A) (reveal_b B)"
proof -
  obtain E G st' where c: "compare P A B st = Some ((E, G), st')" "ok st'" "is_sharing n k q m G"
    "reveal_b G = map2 (\<lambda>x y. of_bool (sint y < sint x)) (reveal_b A) (reveal_b B)"
    using compare_correct [OF assms] by blast
  then obtain H where "G = p_mask H 1" by (auto simp: compare_def Let_def split: Option.bind_splits)
  with c show ?thesis by (simp add: b_gt_def bit_shares_mask)
qed

theorem sv_compare_correct:
  fixes A B :: "'a sharing"
  assumes "ok st" and "is_sharing n k q m A" and "is_sharing n k q m B"
  shows "\<exists>E G st'. sv_compare P A B st = Some ((E, G), st') \<and> ok st' \<and> is_sharing n k 0 m E \<and> is_sharing n k 0 m G \<and>
     reveal_b E = map2 (\<lambda>x y. of_bool (x = y)) (reveal_b A) (reveal_b B) \<and>
     reveal_b G = map2 (\<lambda>x y. of_bool (sint y < sint x)) (reveal_b A) (reveal_b B)"
proof -
  obtain E G st' where c: "compare P A B st = Some ((E, G), st')" "ok st'" "is_sharing n k q m E" "is_sharing n k q m G"
    "reveal_b E = map2 (\<lambda>x y. of_bool (x = y)) (reveal_b A) (reveal_b B)"
    "reveal_b G = map2 (\<lambda>x y. of_bool (sint y < sint x)) (reveal_b A) (reveal_b B)"
    using compare_correct [OF assms] by blast
  show ?thesis
    using c setPrecision_sharing [OF c(3) pos, of 0] setPrecision_sharing [OF c(4) pos, of 0]
    by (intro exI [of _ "p_setPrecision 0 E"] exI [of _ "p_setPrecision 0 G"] exI [of _ st']) (simp add: sv_compare_def)
qed

theorem equal_b_bits:
  fixes A B :: "'a sharing"
  assumes "equal_b P A B st = Some (R, st')"
  shows "bit_shares R"
  using assms bit_shares_mask by (auto simp: equal_b_def split: Option.bind_splits)

theorem multiplex_b_correct:
  fixes S A B :: "'a sharing"
  assumes ok: "ok st" and S: "is_sharing n k q m S" and A: "is_sharing n k q' m A" and B: "is_sharing n k 0 m B"
  shows "\<exists>R st'. multiplex_b P S A B st = Some (R, st') \<and> ok st' \<and> is_sharing n k q' m R \<and>
     (\<forall>j < m. reveal_b R ! j = (if bit (reveal_b S ! j) 0 then reveal_b B ! j else reveal_b A ! j))"
proof -
  note X = sv_extend_sharing(1) [OF S pos] and D = xor_sharing(1) [OF B A pos]
  obtain Z st' where z: "v_and_b P (sv_extend_lsb S) (xor_b B A) st = Some (Z, st')" "ok st'" "is_sharing n k 0 m Z"
    "reveal_b Z = map2 (AND) (reveal_b (sv_extend_lsb S)) (reveal_b (xor_b B A))" by (rule and_obtains [OF ok X D])
  note R = xor_sharing(1) [OF A z(3) pos]
  have "reveal_b (xor_b A Z) ! j = (if bit (reveal_b S ! j) 0 then reveal_b B ! j else reveal_b A ! j)"
    if j: "j < m" for j
  proof (rule bit_word_eqI)
    fix i assume i: "i < LENGTH('a)"
    have "bit (reveal_b (sv_extend_lsb S) ! j) i = bit (reveal_b S ! j) 0"
      using j i sv_extend_sharing(2) [OF S pos] len [OF S] by (simp add: extend_lsb_def bit_extend)
    then show "bit (reveal_b (xor_b A Z) ! j) i
        = bit (if bit (reveal_b S ! j) 0 then reveal_b B ! j else reveal_b A ! j) i"
      using bit_xor_sharing [OF A z(3) j, of i] bit_and_sharing [OF z(4) X D j, of i]
        bit_xor_sharing [OF B A j, of i] by auto
  qed
  with z(1,2) R show ?thesis by (simp add: multiplex_b_def Let_def)
qed

end

text \<open>What every protocol's \<open>and_b\<close> does on operands of different precision: \<open>handle_precision\<close> throws.\<close>

lemma handle_precision_mismatch:
  assumes "is_sharing n k q m X" and "is_sharing n k q' m Y" and "q \<noteq> q'" and "0 < n"
  shows "handle_precision X Y Z = None"
proof -
  have "length X = n" "length Y = n" using assms(1,2) by (simp_all add: is_sharing_length)
  then have "map prec X ! 0 = q" "map prec Y ! 0 = q'" "0 < length (map prec X)"
    using assms is_sharing_prec [OF assms(1)] is_sharing_prec [OF assms(2)] by simp_all
  then have "map prec X \<noteq> map prec Y" using assms(3) by metis
  then show ?thesis by (simp add: handle_precision_def)
qed

locale precision_checking = boolean_protocol +
  assumes and_mismatch: "is_sharing n k q m X \<Longrightarrow> is_sharing n k q' m Y \<Longrightarrow> q \<noteq> q' \<Longrightarrow> 0 < m \<Longrightarrow> v_and_b P X Y st = None"
begin

lemma b_minus_mismatch:
  fixes A B :: "'a sharing"
  assumes "is_sharing n k q m A" and "is_sharing n k q' m B" and "q \<noteq> 0" and "0 < m"
  shows "b_minus False P A B st = None"
  using and_mismatch [OF assms(1) sv_not_sharing(1) [OF assms(2)] assms(3,4)]
  by (simp add: b_minus_def binary_adder_def sv_ppa_def parallel_prefix_adder_def ppa_sum_def)

lemma or_b_mismatch:
  fixes A B :: "'a sharing"
  assumes "is_sharing n k q m A" and "is_sharing n k q' m B" and "q \<noteq> q'" and "0 < m"
  shows "or_b P A B st = None"
  using and_mismatch [OF not_sharing(1) [OF assms(1)] not_sharing(1) [OF assms(2)] assms(3,4)]
  by (simp add: or_b_def)

end

context conversion_protocol
begin

lemma sv_not1_law:
  fixes X :: "'a sharing"
  assumes "is_sharing n k q m X" and "bit_shares X"
  shows "is_sharing n k 0 m (sv_not_b_1 P X)" and "bit_shares (sv_not_b_1 P X)"
    and "reveal_b (sv_not_b_1 P X) = map (\<lambda>x. x XOR 1) (reveal_b X)"
  using setPrecision_sharing [OF conjunct1 [OF not1_law [OF assms]] pos, of 0] not1_law [OF assms]
  by (simp_all add: sv_not_b_1_def)

lemma sv_b2a_law:
  fixes X :: "'a sharing"
  assumes "ok st" and "is_sharing n k q m X"
  shows "\<exists>R st'. sv_b2a_bit P X st = Some (R, st') \<and> ok st' \<and> is_sharing n k q m R \<and>
     reveal_a R = map (\<lambda>x. x AND 1) (reveal_b X)"
proof -
  obtain R st' where R: "v_b2a_bit P X st = Some (R, st')" "ok st'" "is_sharing n k 0 m R"
    "reveal_a R = map (\<lambda>x. x AND 1) (reveal_b X)" using b2a_law [OF assms] by blast
  show ?thesis
    using R setPrecision_sharing [OF R(3) pos, of q] is_sharing_a_prec [OF assms(2)] by (simp add: sv_b2a_bit_def)
qed

lemma not1_sharing:
  fixes X :: "'a sharing"
  assumes "is_sharing n k q m X" and "bit_shares X" and "reveal_b X = map2 (\<lambda>x y. of_bool (f x y)) u v"
  shows "is_sharing n k 0 m (sv_not_b_1 P X)" and "bit_shares (sv_not_b_1 P X)"
    and "reveal_b (sv_not_b_1 P X) = map2 (\<lambda>x y. of_bool (\<not> f x y)) u v"
proof -
  show "is_sharing n k 0 m (sv_not_b_1 P X)" "bit_shares (sv_not_b_1 P X)"
    using sv_not1_law [OF assms(1,2)] by simp_all
  have "of_bool b XOR 1 = (of_bool (\<not> b) :: 'a word)" for b by simp
  then show "reveal_b (sv_not_b_1 P X) = map2 (\<lambda>x y. of_bool (\<not> f x y)) u v"
    using sv_not1_law [OF assms(1,2)] by (simp add: assms(3) comp_def case_prod_beta)
qed

theorem b_orders_correct:
  fixes A B :: "'a sharing"
  assumes ok: "ok st" and A: "is_sharing n k q m A" and B: "is_sharing n k q m B"
  shows "\<exists>R st'. b_ge P A B st = Some (R, st') \<and> ok st' \<and> is_sharing n k 0 m R \<and>
      reveal_b R = map2 (\<lambda>x y. of_bool (\<not> sint x < sint y)) (reveal_b A) (reveal_b B)"
    and "\<exists>R st'. b_le P A B st = Some (R, st') \<and> ok st' \<and> is_sharing n k 0 m R \<and>
      reveal_b R = map2 (\<lambda>x y. of_bool (\<not> sint y < sint x)) (reveal_b A) (reveal_b B)"
    and "\<exists>R st'. b_ne P A B st = Some (R, st') \<and> ok st' \<and> is_sharing n k 0 m R \<and>
      reveal_b R = map2 (\<lambda>x y. of_bool (\<not> x = y)) (reveal_b A) (reveal_b B)"
proof -
  obtain G st1 where G: "b_gt P B A st = Some (G, st1)" "ok st1" "is_sharing n k q m G" "bit_shares G"
    "reveal_b G = map2 (\<lambda>x y. of_bool (sint y < sint x)) (reveal_b B) (reveal_b A)"
    using b_gt_correct [OF ok B A] by blast
  have G': "reveal_b G = map2 (\<lambda>x y. of_bool (sint x < sint y)) (reveal_b A) (reveal_b B)"
    unfolding G(5) by (rule map2_flip)
  show "\<exists>R st'. b_ge P A B st = Some (R, st') \<and> ok st' \<and> is_sharing n k 0 m R \<and>
      reveal_b R = map2 (\<lambda>x y. of_bool (\<not> sint x < sint y)) (reveal_b A) (reveal_b B)"
    using G(1,2) not1_sharing [OF G(3,4) G'] by (simp add: b_ge_def b_lt_def)
  obtain H st2 where H: "b_gt P A B st = Some (H, st2)" "ok st2" "is_sharing n k q m H" "bit_shares H"
    "reveal_b H = map2 (\<lambda>x y. of_bool (sint y < sint x)) (reveal_b A) (reveal_b B)"
    using b_gt_correct [OF ok A B] by blast
  show "\<exists>R st'. b_le P A B st = Some (R, st') \<and> ok st' \<and> is_sharing n k 0 m R \<and>
      reveal_b R = map2 (\<lambda>x y. of_bool (\<not> sint y < sint x)) (reveal_b A) (reveal_b B)"
    using H(1,2) not1_sharing [OF H(3-5)] by (simp add: b_le_def)
  obtain E st3 where E: "equal_b P A B st = Some (E, st3)" "ok st3" "is_sharing n k q m E"
    "reveal_b E = map2 (\<lambda>x y. of_bool (x = y)) (reveal_b A) (reveal_b B)"
    using equal_b_correct [OF ok A B] by blast
  show "\<exists>R st'. b_ne P A B st = Some (R, st') \<and> ok st' \<and> is_sharing n k 0 m R \<and>
      reveal_b R = map2 (\<lambda>x y. of_bool (\<not> x = y)) (reveal_b A) (reveal_b B)"
    using E(1,2) not1_sharing [OF E(3) equal_b_bits [OF E(1)] E(4)] by (simp add: b_ne_def)
qed

theorem a2b_correct:
  fixes X :: "'a sharing"
  assumes ok: "ok st" and X: "is_sharing n k q m X"
  shows "\<exists>R st'. a2b use_rca P X st = Some (R, st') \<and> ok st' \<and> is_sharing n k q m R \<and>
     reveal_b R = reveal_a X"
proof -
  obtain U V st1 where r: "v_redistribute_shares_b P X st = Some ((U, V), st1)" "ok st1"
    "is_sharing n k 0 m U" "is_sharing n k 0 m V" "map2 (+) (reveal_b U) (reveal_b V) = reveal_a X"
    using redistribute_law [OF ok X] by blast
  obtain R st2 where s: "binary_adder use_rca P U V False st1 = Some (R, st2)" "ok st2" "is_sharing n k 0 m R"
    "reveal_b R = map2 (\<lambda>x y. (x + y + of_bool False) XOR of_bool (\<not> use_rca \<and> False \<and> even n)) (reveal_b U) (reveal_b V)"
    using binary_adder_correct [OF r(2-4)] by blast
  note q = setPrecision_sharing [OF s(3) pos, of q]
  show ?thesis
    using r(1,5) s q is_sharing_a_prec [OF X] by (simp add: a2b_def b_plus_def)
qed

theorem gtez_a_correct:
  fixes X :: "'a sharing"
  assumes ok: "ok st" and X: "is_sharing n k q m X"
  shows "\<exists>R st'. gtez_a P X st = Some (R, st') \<and> ok st' \<and> is_sharing n k 0 m R \<and>
     reveal_a R = map (\<lambda>x. of_bool (0 \<le> sint x)) (reveal_a X)"
proof -
  let ?c = "div_ceil m LENGTH('a)"
  obtain U V st1 where r: "v_redistribute_shares_b P X st = Some ((U, V), st1)" "ok st1"
    "is_sharing n k 0 m U" "is_sharing n k 0 m V" "map2 (+) (reveal_b U) (reveal_b V) = reveal_a X"
    using redistribute_law [OF ok X] by blast
  let ?out = "p_setPrecision 0 (p_construct_like X (compressed_size X))"
  obtain S st2 where s: "ripple_carry_adder_packed_sign P U V ?out False st1 = Some (S, st2)" "ok st2"
    "is_sharing n k 0 ?c S"
    "\<And>j. j < m \<Longrightarrow> packed (reveal_b S) j = (sint (reveal_b U ! j + reveal_b V ! j + of_bool False) < 0)"
    using packed_sign_correct [OF r(2-4)] by blast
  note N = not_sharing(1) [OF s(3)]
  have sz: "sh_size X = m" using is_sharing_size [OF X] pos by (simp add: sh_size_def)
  let ?D = "p_construct_like X (sh_size X)" and ?Z = "p_unpack_from (v_not_b P S) (p_construct_like X (sh_size X)) 0"
  have D: "is_sharing n k q m ?D" and Dr: "reveal_b ?D = replicate m 0"
    using construct_sharing [OF X pos, of m] sz by simp_all
  note Z = unpack_sharing [OF N D refl pos, where pos = 0]
  obtain R st3 where b: "v_b2a_bit P ?Z st2 = Some (R, st3)" "ok st3" "is_sharing n k 0 m R"
    "reveal_a R = map (\<lambda>x. x AND 1) (reveal_b ?Z)" using b2a_law [OF s(2) Z(1)] by blast
  have lX: "length (reveal_a X) = m" using length_reveal(2) [OF X pos] .
  have "reveal_b ?Z ! j AND 1 = of_bool (0 \<le> sint (reveal_a X ! j))" if j: "j < m" for j
  proof -
    have "bit (reveal_b ?Z ! j) 0 = packed (reveal_b (v_not_b P S)) j"
      using Z(2) [of j 0] j by (simp add: packed_def)
    also have "\<dots> = (0 \<le> sint (reveal_b U ! j + reveal_b V ! j))"
      using packed_not [OF s(3) j] s(4) [OF j] by auto
    also have "reveal_b U ! j + reveal_b V ! j = reveal_a X ! j"
      using r(5) [symmetric] j len [OF r(3)] len [OF r(4)] by simp
    finally show ?thesis by (simp add: and_one_eq mod_2_eq_odd bit_0)
  qed
  then have "map (\<lambda>x. x AND 1) (reveal_b ?Z) = map (\<lambda>x. of_bool (0 \<le> sint x)) (reveal_a X)"
    using len [OF Z(1)] lX by (intro vec_eqI) simp_all
  then show ?thesis using r(1) s(1) b by (simp add: gtez_a_def a2b_packed_sign_a_b_def Let_def)
qed

end

section \<open>Division by a public constant with correction\<close>

lemma add_sharing:
  assumes X: "is_sharing n k q m X" and Y: "is_sharing n k q' m Y" and pos: "0 < k" "0 < n"
  shows "is_sharing n k q m (add_a X Y)" and "reveal_a (add_a X Y) = vadd (reveal_a X) (reveal_a Y)"
proof -
  from X obtain xs where xs: "X = share_out k q xs" "length xs = n" "\<forall>x \<in> set xs. length x = m"
    by (elim is_sharingE)
  from Y obtain ys where ys: "Y = share_out k q' ys" "length ys = n" "\<forall>y \<in> set ys. length y = m"
    by (elim is_sharingE)
  have e: "add_a X Y = share_out k q (map2 (vec_op (+)) xs ys)"
    unfolding add_a_def xs(1) ys(1) by (rule evec_op_share_out) (simp add: xs ys)
  have l: "\<forall>z \<in> set (map2 (vec_op (+)) xs ys). length z = m"
    using xs ys by (auto elim!: in_set_zipE)
  show "is_sharing n k q m (add_a X Y)"
    unfolding e using l xs ys pos by (simp add: is_sharing_share_out)
  have aux: "length us = length vs \<Longrightarrow> \<forall>u \<in> set us. length u = m \<Longrightarrow> \<forall>v \<in> set vs. length v = m \<Longrightarrow>
      vadd_all m (map2 vadd us vs) = vadd (vadd_all m us) (vadd_all m vs)" for us vs :: "'a vec list"
    by (induction us vs rule: list_induct2) (auto simp: vadd_ac intro!: vec_eqI)
  have "reveal_a (add_a X Y) = vadd_all m (map2 (vec_op (+)) xs ys)"
    unfolding e using l xs ys pos by (intro reveal_a_share_out) simp_all
  then show "reveal_a (add_a X Y) = vadd (reveal_a X) (reveal_a Y)"
    using aux xs ys pos by (simp add: reveal_a_share_out [where m = m])
qed

context dividing_protocol
begin

theorem a_div_const_correct:
  fixes X :: "'a sharing"
  assumes ok: "ok st" and X: "is_sharing n k q m X"
  shows "\<exists>R st' a b. parts X = (a, b) \<and> a_div_const use_rca P X c st = Some (R, st') \<and> ok st' \<and> is_sharing n k q m R \<and>
     length a = m \<and> length b = m \<and> vadd a b = reveal_a X \<and>
     (\<forall>i < m. reveal_a R ! i = quot_part c (a ! i) + quot_part c (b ! i)
        + of_bool (0 \<le> sint (rem_part c (a ! i) + rem_part c (b ! i) - c)))"
proof -
  obtain D E st1 a b where d: "v_div_const_a P X c st = Some ((D, E), st1)" "ok st1" "is_sharing n k 0 m D"
    "is_sharing n k 0 m E" "length a = m" "length b = m" "vadd a b = reveal_a X"
    "reveal_a D = map2 (\<lambda>x y. quot_part c x + quot_part c y) a b"
    "reveal_a E = map2 (\<lambda>x y. rem_part c x + rem_part c y - c) a b"
    and ab: "parts X = (a, b)" using div_law [OF ok X] by blast
  note D = setPrecision_sharing [OF d(3) pos, of q] and E = setPrecision_sharing [OF d(4) pos, of q]
  obtain C st2 where c: "a2b use_rca P (p_setPrecision q E) st1 = Some (C, st2)" "ok st2" "is_sharing n k q m C"
    "reveal_b C = reveal_a E" using a2b_correct [OF d(2) E(1), of use_rca] E(3) by auto
  note L = sv_ltz_sharing [OF c(3) pos]
  note N = sv_not1_law(1,3) [OF L(1,3)]
  obtain B st3 where b: "sv_b2a_bit P (sv_not_b_1 P (sv_ltz C)) st2 = Some (B, st3)" "ok st3" "is_sharing n k 0 m B"
    "reveal_a B = map (\<lambda>x. x AND 1) (reveal_b (sv_not_b_1 P (sv_ltz C)))" using sv_b2a_law [OF c(2) N(1)] by blast
  note R = add_sharing [OF D(1) b(3) pos]
  have lE: "length (reveal_a E) = m" using d(5,6,9) by simp
  have Bi: "reveal_a B ! i = of_bool (0 \<le> sint (reveal_a E ! i))" if "i < m" for i
    using that b(4) N(2) L(2) c(4) lE by (simp add: ltz_vec_def not_less)
  have "reveal_a (add_a (p_setPrecision q D) B) ! i = quot_part c (a ! i) + quot_part c (b ! i)
        + of_bool (0 \<le> sint (rem_part c (a ! i) + rem_part c (b ! i) - c))" if i: "i < m" for i
    unfolding R(2) D(3) using i Bi [OF i] d(5,6,8,9) length_reveal(2) [OF b(3) pos] by simp
  moreover have "a_div_const use_rca P X c st = Some (add_a (p_setPrecision q D) B, st3)"
    using d(1) c(1) b(1) is_sharing_a_prec [OF X] by (simp add: a_div_const_def Let_def)
  ultimately show ?thesis using b(2) R(1) d(5-7) ab by blast
qed

end

end
