(* ===== verification/Replicated_3PC_Proofs.thy ===== *)
theory Replicated_3PC_Proofs
  imports Replicated_3PC Shared_Vectors
begin

text \<open>
  Correctness of the replicated three-party protocol.  The state invariant \<open>rep3_ok\<close> says that
  neighbouring parties hold the same generator state for every key they share, that the group
  generator agrees everywhere and that no message is in flight.  Every operation preserves it,
  and opening its result gives the plaintext operation on the opened inputs.
\<close>

section \<open>The invariant of the shared generators\<close>

definition mgr3 :: "nat \<Rightarrow> 's manager \<Rightarrow> bool" where
  "mgr3 p m \<longleftrightarrow> num_parties m = 3 \<and> rank m = p \<and>
     common_prgs m = [Some LocalPRG, Some (RelPRG 1), Some (RelPRG 2)] \<and>
     common_prg_group_map m [0, 1, 2] = Some (GroupPRG [0, 1, 2])"

definition rep3_synced :: "'s manager list \<Rightarrow> bool" where
  "rep3_synced ms \<longleftrightarrow>
     (case ms of
        [m0, m1, m2] \<Rightarrow>
          mgr3 0 m0 \<and> mgr3 1 m1 \<and> mgr3 2 m2 \<and>
          store m0 (RelPRG 1) = store m1 (RelPRG 2) \<and>
          store m1 (RelPRG 1) = store m2 (RelPRG 2) \<and>
          store m2 (RelPRG 1) = store m0 (RelPRG 2) \<and>
          store m0 (GroupPRG [0, 1, 2]) = store m1 (GroupPRG [0, 1, 2]) \<and>
          store m1 (GroupPRG [0, 1, 2]) = store m2 (GroupPRG [0, 1, 2])
      | _ \<Rightarrow> False)"

definition rep3_ok :: "'s cipher \<Rightarrow> ('a::len, 's) world \<Rightarrow> bool" where
  "rep3_ok aes w \<longleftrightarrow> cipher_ok TYPE('a) aes \<and> quiet w \<and> rep3_synced (mgrs w)"

lemma rep3_okE:
  assumes "rep3_ok aes (w :: ('a::len, 's) world)"
  obtains m0 m1 m2 where "mgrs w = [m0, m1, m2]" and "rep3_synced [m0, m1, m2]"
    and "cipher_ok TYPE('a) aes" and "quiet w"
  using assms by (auto simp: rep3_ok_def rep3_synced_def split: list.splits)

lemma get_rel_mgr3 [simp]:
  "mgr3 p m \<Longrightarrow> get_rel m 1 = Some (RelPRG 1)" "mgr3 p m \<Longrightarrow> get_rel m (- 1) = Some (RelPRG 2)"
  "mgr3 p m \<Longrightarrow> get_group m [0, 1, 2] = Some (GroupPRG [0, 1, 2])"
  "mgr3 p m \<Longrightarrow> get_group m [] = Some LocalPRG"
  by (simp_all add: mgr3_def get_rel_def rel_index_def get_group_def)

lemma get_group_Suc_mgr3 [simp]:
  "mgr3 p m \<Longrightarrow> get_group m [0, Suc 0, 2] = Some (GroupPRG [0, Suc 0, 2])"
  using get_rel_mgr3(3) [of p m] by simp

lemma mgr3_store [simp]: "mgr3 p (m\<lparr>store := s\<rparr>) = mgr3 p m"
  by (simp add: mgr3_def)

lemma mgr3_zero [simp]: "mgr3 p m \<Longrightarrow> \<not> returnPlaintextZero m" "mgr3 p m \<Longrightarrow> \<not> arithmeticFlip m"
  "mgr3 p m \<Longrightarrow> num_parties m = 3"
  by (simp_all add: mgr3_def returnPlaintextZero_def arithmeticFlip_def)

lemma for_parties_cong:
  "(\<And>p m. p \<in> set ps \<Longrightarrow> f p m = g p m) \<Longrightarrow> for_parties ps f w = for_parties ps g w"
  by (induction ps arbitrary: w) (auto intro!: Option.bind_cong)

lemma for_parties_3:
  assumes "mgrs w = [m0, m1, m2]" and "f 0 m0 = Some (x0, n0)" and "f 1 m1 = Some (x1, n1)"
    and "f 2 m2 = Some (x2, n2)"
  shows "for_parties [0, 1, 2] f w = Some ([x0, x1, x2], w\<lparr>mgrs := [n0, n1, n2]\<rparr>)"
  using assms by (simp add: numeral_2_eq_2)

lemma getNextArithmetic_mgr3:
  assumes "mgr3 p m" and "cipher_ok TYPE('a::len) aes"
  shows "getNextArithmetic aes n m = Some
     (map2 (-) (rnd aes n (store m (RelPRG 2)) :: 'a vec) (rnd aes n (store m (RelPRG 1))),
      m\<lparr>store := (store m)(RelPRG 2 := adv TYPE('a) aes n (store m (RelPRG 2)),
                           RelPRG 1 := adv TYPE('a) aes n (store m (RelPRG 1)))\<rparr>)"
  using assms by (simp add: getNextArithmetic_def draw_Some Let_def)

lemma getNextBinary_mgr3:
  assumes "mgr3 p m" and "cipher_ok TYPE('a::len) aes"
  shows "getNextBinary aes n m = Some
     (map2 (XOR) (rnd aes n (store m (RelPRG 2)) :: 'a vec) (rnd aes n (store m (RelPRG 1))),
      m\<lparr>store := (store m)(RelPRG 2 := adv TYPE('a) aes n (store m (RelPRG 2)),
                           RelPRG 1 := adv TYPE('a) aes n (store m (RelPRG 1)))\<rparr>)"
  using assms by (simp add: getNextBinary_def draw_Some Let_def)

lemma zero_sharing_3:
  fixes w :: "('a::len, 's) world"
  assumes "rep3_ok aes w"
  shows "\<exists>a b c w'. for_parties [0, 1, 2] (\<lambda>p m. getNextArithmetic aes n m) w =
      Some ([map2 (-) c a, map2 (-) a b, map2 (-) b (c :: 'a vec)], w') \<and>
      rep3_ok aes w' \<and> bytes_sent w' = bytes_sent w \<and> length a = n \<and> length b = n \<and> length c = n"
    and "\<exists>a b c w'. for_parties [0, 1, 2] (\<lambda>p m. getNextBinary aes n m) w =
      Some ([map2 (XOR) c a, map2 (XOR) a b, map2 (XOR) b (c :: 'a vec)], w') \<and>
      rep3_ok aes w' \<and> bytes_sent w' = bytes_sent w \<and> length a = n \<and> length b = n \<and> length c = n"
proof -
  from assms obtain m0 m1 m2 where m: "mgrs w = [m0, m1, m2]" "rep3_synced [m0, m1, m2]"
    and c: "cipher_ok TYPE('a) aes" and q: "quiet w" by (rule rep3_okE)
  define adv2 where "adv2 m = m\<lparr>store := (store m)(RelPRG 2 := adv TYPE('a) aes n (store m (RelPRG 2)),
    RelPRG 1 := adv TYPE('a) aes n (store m (RelPRG 1)))\<rparr>" for m :: "'s manager"
  let ?w = "w\<lparr>mgrs := [adv2 m0, adv2 m1, adv2 m2]\<rparr>"
  let ?a = "rnd aes n (store m0 (RelPRG 1)) :: 'a vec" and ?b = "rnd aes n (store m1 (RelPRG 1)) :: 'a vec"
    and ?c = "rnd aes n (store m2 (RelPRG 1)) :: 'a vec"
  have s: "mgr3 0 m0" "mgr3 1 m1" "mgr3 2 m2" "store m0 (RelPRG 2) = store m2 (RelPRG 1)"
    "store m1 (RelPRG 2) = store m0 (RelPRG 1)" "store m2 (RelPRG 2) = store m1 (RelPRG 1)"
    using m(2) by (simp_all add: rep3_synced_def)
  have ok: "rep3_ok aes ?w"
    using m(2) c q by (simp add: rep3_ok_def rep3_synced_def adv2_def quiet_def)
  have "for_parties [0, 1, 2] (\<lambda>p m. getNextArithmetic aes n m) w =
      Some ([map2 (-) ?c ?a, map2 (-) ?a ?b, map2 (-) ?b ?c], ?w)"
    by (rule for_parties_3 [OF m(1)])
      (simp_all add: getNextArithmetic_mgr3 [OF s(1) c] getNextArithmetic_mgr3 [OF s(2) c]
        getNextArithmetic_mgr3 [OF s(3) c] s(4-6) adv2_def)
  then show "\<exists>a b c w'. for_parties [0, 1, 2] (\<lambda>p m. getNextArithmetic aes n m) w =
      Some ([map2 (-) c a, map2 (-) a b, map2 (-) b (c :: 'a vec)], w') \<and>
      rep3_ok aes w' \<and> bytes_sent w' = bytes_sent w \<and> length a = n \<and> length b = n \<and> length c = n"
    using ok c by (intro exI [of _ ?a] exI [of _ ?b] exI [of _ ?c] exI [of _ ?w]) simp
  have "for_parties [0, 1, 2] (\<lambda>p m. getNextBinary aes n m) w =
      Some ([map2 (XOR) ?c ?a, map2 (XOR) ?a ?b, map2 (XOR) ?b ?c], ?w)"
    by (rule for_parties_3 [OF m(1)])
      (simp_all add: getNextBinary_mgr3 [OF s(1) c] getNextBinary_mgr3 [OF s(2) c]
        getNextBinary_mgr3 [OF s(3) c] s(4-6) adv2_def)
  then show "\<exists>a b c w'. for_parties [0, 1, 2] (\<lambda>p m. getNextBinary aes n m) w =
      Some ([map2 (XOR) c a, map2 (XOR) a b, map2 (XOR) b (c :: 'a vec)], w') \<and>
      rep3_ok aes w' \<and> bytes_sent w' = bytes_sent w \<and> length a = n \<and> length b = n \<and> length c = n"
    using ok c by (intro exI [of _ ?a] exI [of _ ?b] exI [of _ ?c] exI [of _ ?w]) simp
qed

section \<open>Three-party sharings\<close>

lemma share_out_3:
  "share_out 2 q [x0, x1, x2] =
     [\<lparr>cols = [x0, x1], prec = q\<rparr>, \<lparr>cols = [x1, x2], prec = q\<rparr>, \<lparr>cols = [x2, x0], prec = q\<rparr>]"
  by (simp add: share_out_def upt_rec)

lemma is_sharing_3E:
  assumes "is_sharing 3 2 q m X"
  obtains x0 x1 x2 where "X = share_out 2 q [x0, x1, x2]"
    and "length x0 = m" and "length x1 = m" and "length x2 = m"
proof -
  from assms obtain xs where xs: "X = share_out 2 q xs" "length xs = 3" "\<forall>x \<in> set xs. length x = m"
    by (elim is_sharingE)
  from xs(2) obtain x0 x1 x2 where "xs = [x0, x1, x2]"
    by (metis (no_types) length_0_conv length_Suc_conv numeral_3_eq_3)
  with xs that show thesis by simp
qed

lemma is_sharing_3:
  "length x0 = m \<Longrightarrow> length x1 = m \<Longrightarrow> length x2 = m \<Longrightarrow> is_sharing 3 2 q m (share_out 2 q [x0, x1, x2])"
  by (simp add: is_sharing_share_out)

lemma reveal_3:
  assumes "length x0 = m" and "length x1 = m" and "length x2 = m"
  shows "reveal_a (share_out 2 q [x0, x1, x2]) = vadd x0 (vadd x1 x2)"
    and "reveal_b (share_out 2 q [x0, x1, x2]) = vxor x0 (vxor x1 x2)"
  using assms by (simp_all add: reveal_a_share_out [where m = m] reveal_b_share_out [where m = m])

lemma exchange_3:
  fixes w :: "('a::len, 's) world"
  assumes "quiet w" and "length l0 = m" and "length l1 = m" and "length l2 = m"
  shows "exchangeShares 3 [l0, l1, l2] (replicate 3 (replicate m 0)) 2 1 w = Some ([l1, l2, l0], tally 3 m w)"
proof -
  have "[0..<3::nat] = [0, 1, 2]" by (simp add: upt_rec)
  moreover have "exchangeShares 3 [l0, l1, l2] (replicate 3 (replicate m 0)) 2 1 w =
     Some (map (\<lambda>p. [l0, l1, l2] ! abs_rank 3 p 1) [0..<3], tally 3 m w)"
    by (rule exchange_rotate) (use assms in auto)
  ultimately show ?thesis by (simp add: rank_simps)
qed

lemma pair_up_3:
  "pair_up [l0, l1, l2] [l1, l2, l0] = share_out 2 0 [l0, l1, l2]"
  by (simp add: pair_up_def share_out_3)

lemma rep3_ok_tally [simp]: "rep3_ok aes (tally n m w) = rep3_ok aes w"
  by (simp add: rep3_ok_def)

section \<open>AND and NOT\<close>

lemma and_expand_3:
  fixes a b c :: "'a::len word"
  shows "((((c XOR a) XOR (x0 AND y0)) XOR (x0 AND y1)) XOR (x1 AND y0)) XOR
         (((((a XOR b) XOR (x1 AND y1)) XOR (x1 AND y2)) XOR (x2 AND y1)) XOR
          ((((b XOR c) XOR (x2 AND y2)) XOR (x2 AND y0)) XOR (x0 AND y2)))
       = (x0 XOR (x1 XOR x2)) AND (y0 XOR (y1 XOR y2))"
  by (rule bit_word_eqI) (simp add: bit_simps, blast)

lemma rep3_and_b_correct:
  fixes X Y :: "'a::len sharing" and w :: "('a, 's) world"
  assumes ok: "rep3_ok aes w" and X: "is_sharing 3 2 q m X" and Y: "is_sharing 3 2 q m Y"
  shows "\<exists>Z w'. rep3_and_b aes X Y w = Some (Z, w') \<and> rep3_ok aes w' \<and> is_sharing 3 2 q m Z \<and>
    reveal_b Z = map2 (AND) (reveal_b X) (reveal_b Y) \<and>
    bytes_sent w' = bytes_sent (tally 3 m w)"
proof -
  from X obtain x0 x1 x2 where x: "X = share_out 2 q [x0, x1, x2]"
    "length x0 = m" "length x1 = m" "length x2 = m" by (rule is_sharing_3E)
  from Y obtain y0 y1 y2 where y: "Y = share_out 2 q [y0, y1, y2]"
    "length y0 = m" "length y1 = m" "length y2 = m" by (rule is_sharing_3E)
  obtain a b c w1 where z: "for_parties [0, 1, 2] (\<lambda>p mg. getNextBinary aes m mg) w =
      Some ([map2 (XOR) c a, map2 (XOR) a b, map2 (XOR) b (c :: 'a vec)], w1)" "rep3_ok aes w1"
      "bytes_sent w1 = bytes_sent w" "length a = m" "length b = m" "length c = m"
    using zero_sharing_3(2) [OF ok] by blast
  have sz: "for_parties [0, 1, 2] (\<lambda>p mg. getNextBinary aes (evec_size (X ! p)) mg) w
      = for_parties [0, 1, 2] (\<lambda>p mg. getNextBinary aes m mg) w"
    by (rule for_parties_cong) (auto simp: x share_out_3 evec_size_def)
  define l where "l xs ys r = local_terms (vec_op (XOR)) (vec_op (AND)) xs ys (r :: 'a vec)" for xs ys r
  let ?l0 = "l (X ! 0) (Y ! 0) (map2 (XOR) c a)" and ?l1 = "l (X ! 1) (Y ! 1) (map2 (XOR) a b)"
    and ?l2 = "l (X ! 2) (Y ! 2) (map2 (XOR) b c)"
  have len: "length ?l0 = m" "length ?l1 = m" "length ?l2 = m"
    using x y z by (simp_all add: l_def local_terms_def vec_op_def share_out_3 col_def)
  have quiet: "quiet w1" using z(2) by (simp add: rep3_ok_def)
  have rev: "reveal_b X = vxor x0 (vxor x1 x2)" "reveal_b Y = vxor y0 (vxor y1 y2)"
    using x y by (simp_all add: reveal_3 [where m = m])
  have szX: "sh_size X = m" by (simp add: sh_size_def evec_size_def x share_out_3)
  have "rep3_and_b aes X Y w = do {
      Z \<leftarrow> handle_precision X Y (share_out 2 0 [?l0, ?l1, ?l2]); Some (Z, tally 3 m w1)}"
    unfolding rep3_and_b_def sz z(1) szX
    by (simp add: l_def [symmetric] exchange_3 [OF quiet len] pair_up_3 Let_def del: One_nat_def vec_op_vxor)
  then have run: "rep3_and_b aes X Y w = Some (share_out 2 q [?l0, ?l1, ?l2], tally 3 m w1)"
    using handle_precision_ok [OF X Y is_sharing_3 [OF len]]
    by (simp add: p_setPrecision_def setPrecision_share_out)
  have "reveal_b (share_out 2 q [?l0, ?l1, ?l2]) = map2 (AND) (reveal_b X) (reveal_b Y)"
    unfolding reveal_3(2) [OF len] rev
  proof (rule vec_eqI)
    fix i assume "i < length (vxor ?l0 (vxor ?l1 ?l2))"
    then have i: "i < m" using len by simp
    show "vxor ?l0 (vxor ?l1 ?l2) ! i = map2 (AND) (vxor x0 (vxor x1 x2)) (vxor y0 (vxor y1 y2)) ! i"
      using i x y z len by (simp add: l_def local_terms_def vec_op_def share_out_3 col_def and_expand_3)
  qed (use len x y in simp)
  then show ?thesis using run z(2) is_sharing_3 [OF len] bytes_tally_cong [OF z(3)] by simp
qed

lemma rep3_not_b_correct:
  fixes X :: "'a::len sharing"
  assumes "is_sharing 3 2 q m X"
  shows "is_sharing 3 2 q m (rep3_not_b X) \<and> reveal_b (rep3_not_b X) = map NOT (reveal_b X)"
proof -
  from assms obtain x0 x1 x2 where x: "X = share_out 2 q [x0, x1, x2]"
    "length x0 = m" "length x1 = m" "length x2 = m" by (rule is_sharing_3E)
  have e: "rep3_not_b X = share_out 2 q [map NOT x0, map NOT x1, map NOT x2]"
    unfolding rep3_not_b_def x(1) evec_unop_share_out by (simp add: vec_unop_def)
  have "NOT a XOR (NOT b XOR NOT c) = NOT (a XOR (b XOR c))" for a b c :: "'a word"
    by (rule bit_word_eqI) (simp add: bit_simps)
  then show ?thesis
    unfolding e using x by (simp add: is_sharing_3 reveal_3 [where m = m]) (intro vec_eqI; simp)
qed

interpretation rep3: boolean_protocol "replicated_3pc aes :: ('a::len, ('a, 's) world) protocol" 3 2 "rep3_ok aes"
  using rep3_and_b_correct rep3_not_b_correct
  by unfold_locales (simp_all add: replicated_3pc_def, fast+)

end
