(* ===== verification/Replicated_3PC_Arith.thy ===== *)
theory Replicated_3PC_Arith
  imports Replicated_3PC_Proofs Fixed_Point
begin

text \<open>
  Arithmetic on replicated sharings: products, truncation, division by a constant, the two
  conversions, and sharing and opening.
\<close>

section \<open>Products\<close>

definition three_terms :: "('a::len vec \<Rightarrow> 'a vec \<Rightarrow> 'a vec) \<Rightarrow> 'a evec \<Rightarrow> 'a evec \<Rightarrow> 'a vec" where
  "three_terms B x y = vadd (B (col 0 x) (col 0 y)) (vadd (B (col 0 x) (col 1 y)) (B (col 1 x) (col 0 y)))"

lemma local_terms_eq: "local_terms (vec_op (+)) B x y r = vadd r (three_terms B x y)"
  by (simp add: local_terms_def three_terms_def vadd_ac)

lemma product_terms_eq: "product_terms (vec_op (+)) B x y r = vadd r (three_terms B x y)"
  by (simp add: product_terms_def three_terms_def vadd_ac)

lemma biadditive_expand_3:
  assumes "biadditive m1 m2 m' B" and "length x0 = m1" "length x1 = m1" "length x2 = m1"
    and "length y0 = m2" "length y1 = m2" "length y2 = m2"
  shows "B (vadd x0 (vadd x1 x2)) (vadd y0 (vadd y1 y2)) =
    vadd (vadd (B x0 y0) (vadd (B x0 y1) (B x1 y0)))
      (vadd (vadd (B x1 y1) (vadd (B x1 y2) (B x2 y1))) (vadd (B x2 y2) (vadd (B x2 y0) (B x0 y2))))"
  using assms by (simp add: biadditive_def vadd_ac)

lemma masks_cancel:
  fixes a b c :: "'a::len vec"
  assumes "length a = m" "length b = m" "length c = m" "length u = m" "length v = m" "length w = m"
  shows "vadd (vadd (map2 (-) c a) u) (vadd (vadd (map2 (-) a b) v) (vadd (map2 (-) b c) w))
    = vadd u (vadd v w)"
  using assms by (intro vec_eqI) simp_all

lemma rep3_product_raw:
  fixes X Y :: "'a::len sharing" and w :: "('a, 's) world"
  assumes ok: "rep3_ok aes w" and X: "is_sharing 3 2 q m1 X" and Y: "is_sharing 3 2 q m2 Y"
    and B: "biadditive m1 m2 m' B" and terms: "\<And>x y r. terms x y r = vadd r (three_terms B x y)"
  shows "\<exists>Z w'. rep3_product aes terms m' X Y w = rep3_truncate aes Z w' \<and> rep3_ok aes w' \<and>
    is_sharing 3 2 q m' Z \<and> reveal_a Z = B (reveal_a X) (reveal_a Y) \<and>
    bytes_sent w' = bytes_sent (tally 3 m' w)"
proof -
  from X obtain x0 x1 x2 where x: "X = share_out 2 q [x0, x1, x2]"
    "length x0 = m1" "length x1 = m1" "length x2 = m1" by (rule is_sharing_3E)
  from Y obtain y0 y1 y2 where y: "Y = share_out 2 q [y0, y1, y2]"
    "length y0 = m2" "length y1 = m2" "length y2 = m2" by (rule is_sharing_3E)
  obtain a b c w1 where z: "for_parties [0, 1, 2] (\<lambda>p mg. getNextArithmetic aes m' mg) w =
      Some ([map2 (-) c a, map2 (-) a b, map2 (-) b (c :: 'a vec)], w1)" "rep3_ok aes w1"
      "bytes_sent w1 = bytes_sent w" "length a = m'" "length b = m'" "length c = m'"
    using zero_sharing_3(1) [OF ok] by blast
  have lB: "length (B u v) = m'" if "length u = m1" "length v = m2" for u v
    using B that by (simp add: biadditive_def)
  define t where "t p = three_terms B (X ! p) (Y ! p)" for p
  have t: "t 0 = vadd (B x0 y0) (vadd (B x0 y1) (B x1 y0))" "t 1 = vadd (B x1 y1) (vadd (B x1 y2) (B x2 y1))"
    "t 2 = vadd (B x2 y2) (vadd (B x2 y0) (B x0 y2))"
    by (simp_all add: t_def three_terms_def x(1) y(1) share_out_3 col_def)
  have lt: "length (t 0) = m'" "length (t 1) = m'" "length (t 2) = m'"
    using lB x(2-4) y(2-4) by (simp_all add: t del: One_nat_def)
  let ?l0 = "vadd (map2 (-) c a) (t 0)" and ?l1 = "vadd (map2 (-) a b) (t 1)" and ?l2 = "vadd (map2 (-) b c) (t 2)"
  have len: "length ?l0 = m'" "length ?l1 = m'" "length ?l2 = m'" using lt z by simp_all
  have quiet: "quiet w1" using z(2) by (simp add: rep3_ok_def)
  have "rep3_product aes terms m' X Y w = do {
      Z \<leftarrow> handle_precision X Y (share_out 2 0 [?l0, ?l1, ?l2]); rep3_truncate aes Z (tally 3 m' w1)}"
    unfolding rep3_product_def z(1)
    by (simp add: terms t_def [symmetric] exchange_3 [OF quiet len] pair_up_3 Let_def del: One_nat_def)
  then have run: "rep3_product aes terms m' X Y w
      = rep3_truncate aes (share_out 2 q [?l0, ?l1, ?l2]) (tally 3 m' w1)"
    using handle_precision_ok [OF _ _ is_sharing_3 [OF len]] x(1) y(1)
    by (simp add: handle_precision_def share_out_3 matchPrecision_def)
  have "reveal_a (share_out 2 q [?l0, ?l1, ?l2]) = vadd (t 0) (vadd (t 1) (t 2))"
    unfolding reveal_3(1) [OF len] by (rule masks_cancel [where m = m']) (use z lt in simp_all)
  also have "\<dots> = B (reveal_a X) (reveal_a Y)"
    using x y biadditive_expand_3 [OF B x(2-4) y(2-4)]
    by (simp add: reveal_3 [where m = m1] reveal_3 [where m = m2] t del: One_nat_def)
  finally show ?thesis using run z(2) is_sharing_3 [OF len] bytes_tally_cong [OF z(3)]
    by (intro exI [of _ "share_out 2 q [?l0, ?l1, ?l2]"] exI [of _ "tally 3 m' w1"]) simp
qed

section \<open>Truncation\<close>

lemma rep3_truncate_0:
  assumes "is_sharing 3 2 0 m Z"
  shows "rep3_truncate aes Z w = Some (Z, w)"
  using assms by (elim is_sharing_3E)
    (simp add: rep3_truncate_def truncate_P0_def truncate_P1_def truncate_P2_def share_out_3)

lemma rep3_truncate_run:
  fixes w :: "('a::len, 's) world"
  assumes ok: "rep3_ok aes w" and q: "0 < q"
    and l: "length z0 = m" "length z1 = m" "length z2 = m"
  shows "\<exists>r w'. rep3_truncate aes (share_out 2 q [z0, z1, z2]) w =
      Some (share_out 2 q [bit_arithmetic_right_shift q z0,
        vec_op (-) (bit_arithmetic_right_shift q (vadd z1 z2)) r, r], w') \<and>
      rep3_ok aes w' \<and> length r = m"
proof -
  from ok obtain m0 m1 m2 where m: "mgrs w = [m0, m1, m2]" "rep3_synced [m0, m1, m2]"
    and c: "cipher_ok TYPE('a) aes" and qu: "quiet w" by (rule rep3_okE)
  have s: "mgr3 0 m0" "mgr3 1 m1" "mgr3 2 m2" "store m2 (RelPRG 2) = store m1 (RelPRG 1)"
    using m(2) by (simp_all add: rep3_synced_def)
  let ?r = "rnd aes m (store m1 (RelPRG 1)) :: 'a vec"
  let ?n1 = "m1\<lparr>store := (store m1)(RelPRG 1 := adv TYPE('a) aes m (store m1 (RelPRG 1)))\<rparr>"
  let ?n2 = "m2\<lparr>store := (store m2)(RelPRG 2 := adv TYPE('a) aes m (store m2 (RelPRG 2)))\<rparr>"
  let ?x = "vec_op (-) (bit_arithmetic_right_shift q (vadd z1 z2)) ?r"
  let ?w1 = "sendShares 3 1 ?x (- 1) (w\<lparr>mgrs := [m0, ?n1, m2]\<rparr>)"
  let ?w2 = "?w1\<lparr>mgrs := [m0, ?n1, ?n2]\<rparr>"
  let ?w3 = "?w2\<lparr>chan := (chan ?w2)(1 := (chan ?w2 1)(0 := []))\<rparr>"
  have lx: "length ?x = m" using l c by (simp add: vec_op_def bit_arithmetic_right_shift_def)
  have 1: "truncate_P1 aes \<lparr>cols = [z1, z2], prec = q\<rparr> w = Some (\<lparr>cols = [?x, ?r], prec = q\<rparr>, ?w1)"
    using m(1) q s(2) c l by (simp add: truncate_P1_def draw_Some evec_size_def col_def Let_def)
  have 2: "truncate_P2 aes \<lparr>cols = [z2, z0], prec = q\<rparr> ?w1
      = Some (\<lparr>cols = [?r, bit_arithmetic_right_shift q z0], prec = q\<rparr>, ?w2)"
    using m(1) q s(3,4) c l by (simp add: truncate_P2_def draw_Some evec_size_def col_def Let_def)
  have r10: "abs_rank 3 1 (- 1) = 0" "abs_rank 3 0 1 = 1" by (simp_all add: rank_simps)
  have "chan ?w2 1 0 = [?x]" using r10 qu by (simp add: quiet_def)
  then have 3: "truncate_P0 \<lparr>cols = [z0, z1], prec = q\<rparr> ?w2
      = Some (\<lparr>cols = [bit_arithmetic_right_shift q z0, ?x], prec = q\<rparr>, ?w3)"
    using q l lx r10 by (simp add: truncate_P0_def receiveShares_def valid_rank_geq col_def Let_def)
  have "rep3_truncate aes (share_out 2 q [z0, z1, z2]) w =
      Some (share_out 2 q [bit_arithmetic_right_shift q z0, ?x, ?r], ?w3)"
    unfolding rep3_truncate_def share_out_3 using 1 2 3 by (simp add: numeral_2_eq_2)
  moreover have "quiet ?w3"
    using qu r10 by (auto simp: quiet_def fun_eq_iff)
  then have "rep3_ok aes ?w3"
    using m(2) c s(4) by (simp add: rep3_ok_def rep3_synced_def)
  ultimately show ?thesis using c by (intro exI [of _ ?r] exI [of _ ?w3]) simp
qed

lemma rep3_truncate_correct:
  fixes w :: "('a::len, 's) world"
  assumes "rep3_ok aes w" and "is_sharing 3 2 q m Z"
  shows "\<exists>R w'. rep3_truncate aes Z w = Some (R, w') \<and> rep3_ok aes w' \<and> is_sharing 3 2 q m R \<and>
    (if q = 0 then reveal_a R = reveal_a Z else truncated q (reveal_a Z) (reveal_a R))"
proof (cases "q = 0")
  case True
  then show ?thesis using rep3_truncate_0 [of m Z aes w] assms by simp
next
  case False
  from assms(2) obtain z0 z1 z2 where z: "Z = share_out 2 q [z0, z1, z2]"
    "length z0 = m" "length z1 = m" "length z2 = m" by (rule is_sharing_3E)
  let ?a = "bit_arithmetic_right_shift q z0" and ?b = "bit_arithmetic_right_shift q (vadd z1 z2)"
  obtain r w' where r: "rep3_truncate aes Z w = Some (share_out 2 q [?a, vec_op (-) ?b r, r], w')"
    "rep3_ok aes w'" "length r = m"
    using rep3_truncate_run [OF assms(1) _ z(2-4)] z(1) False by blast
  have len: "length ?a = m" "length (vec_op (-) ?b r) = m"
    using z(2-4) r(3) by (simp_all add: bit_arithmetic_right_shift_def vec_op_def)
  have "reveal_a (share_out 2 q [?a, vec_op (-) ?b r, r]) = vadd ?a ?b"
    unfolding reveal_3(1) [OF len r(3)] using z(2-4) r(3)
    by (intro vec_eqI) (simp_all add: bit_arithmetic_right_shift_def vec_op_def)
  moreover have "truncated q (reveal_a Z) (vadd ?a ?b)"
    unfolding z(1) reveal_3(1) [OF z(2-4)] by (rule truncated_parts [of _ m]) (use z in simp_all)
  ultimately show ?thesis using r(1,2) is_sharing_3 [OF len r(3)] False by auto
qed

lemma rep3_product_correct:
  fixes X Y :: "'a::len sharing" and w :: "('a, 's) world"
  assumes "rep3_ok aes w" and "is_sharing 3 2 q m1 X" and "is_sharing 3 2 q m2 Y"
    and "biadditive m1 m2 m' B" and "\<And>x y r. terms x y r = vadd r (three_terms B x y)"
  shows "\<exists>R w'. rep3_product aes terms m' X Y w = Some (R, w') \<and> rep3_ok aes w' \<and>
    is_sharing 3 2 q m' R \<and>
    (if q = 0 then reveal_a R = B (reveal_a X) (reveal_a Y)
     else truncated q (B (reveal_a X) (reveal_a Y)) (reveal_a R))"
proof -
  obtain Z w1 where z: "rep3_product aes terms m' X Y w = rep3_truncate aes Z w1" "rep3_ok aes w1"
    "is_sharing 3 2 q m' Z" "reveal_a Z = B (reveal_a X) (reveal_a Y)"
    using rep3_product_raw [OF assms] by blast
  show ?thesis using rep3_truncate_correct [OF z(2,3)] unfolding z(1,4) .
qed

lemma rep3_multiply_correct:
  fixes X Y :: "'a::len sharing" and w :: "('a, 's) world"
  assumes "rep3_ok aes w" and X: "is_sharing 3 2 q m X" and "is_sharing 3 2 q m Y"
  shows "\<exists>R w'. rep3_multiply_a aes X Y w = Some (R, w') \<and> rep3_ok aes w' \<and> is_sharing 3 2 q m R \<and>
    (if q = 0 then reveal_a R = map2 (*) (reveal_a X) (reveal_a Y)
     else truncated q (map2 (*) (reveal_a X) (reveal_a Y)) (reveal_a R))"
proof -
  have "sh_size X = m" using is_sharing_size [OF X, of 0] by (simp add: sh_size_def)
  then show ?thesis
    using rep3_product_correct [OF assms biadditive_mult local_terms_eq]
    unfolding rep3_multiply_a_def vec_op_def [of "(*)", symmetric] by (simp only:)
qed

lemma rep3_dot_product_correct:
  fixes X Y :: "'a::len sharing" and w :: "('a, 's) world"
  assumes "rep3_ok aes w" and X: "is_sharing 3 2 q m X" and "is_sharing 3 2 q m Y" and a: "0 < a" "a dvd m"
  shows "\<exists>R w'. rep3_dot_product_a aes a X Y w = Some (R, w') \<and> rep3_ok aes w' \<and> is_sharing 3 2 q (m div a) R \<and>
    (if q = 0 then reveal_a R = dot_product a (reveal_a X) (reveal_a Y)
     else truncated q (dot_product a (reveal_a X) (reveal_a Y)) (reveal_a R))"
proof -
  have "sh_size X = m" using is_sharing_size [OF X, of 0] by (simp add: sh_size_def)
  moreover have "div_ceil m (if a = 0 then m else a) = m div a"
    using a by (simp add: div_ceil_div)
  ultimately show ?thesis
    using rep3_product_correct [OF assms(1-3) biadditive_dot [of m a] product_terms_eq]
    unfolding rep3_dot_product_a_def by (simp only:)
qed

lemma rep3_matrix_product_correct:
  fixes X Y :: "'a::len sharing" and w :: "('a, 's) world"
  assumes "rep3_ok aes w" and "is_sharing 3 2 q (r * c) X" and "is_sharing 3 2 q (c * c') Y"
  shows "\<exists>R w'. rep3_matrix_product_a aes (r * c') r c c c' X Y w = Some (R, w') \<and> rep3_ok aes w' \<and>
    is_sharing 3 2 q (r * c') R \<and>
    (if q = 0 then reveal_a R = matrixRightMultiplyWithColumnMatrixVectorized r c c c' (reveal_a X) (reveal_a Y)
     else truncated q (matrixRightMultiplyWithColumnMatrixVectorized r c c c' (reveal_a X) (reveal_a Y)) (reveal_a R))"
  using rep3_product_correct [OF assms biadditive_matmul [of r c c'] product_terms_eq]
  unfolding rep3_matrix_product_a_def .

end
