(* ===== verification/Replicated_3PC_Conv.thy ===== *)
theory Replicated_3PC_Conv
  imports Replicated_3PC_Arith
begin

text \<open>
  Division by a public constant, bit conversion, redistribution of arithmetic shares into
  boolean sharings, and the round trip of sharing and opening, for three parties.
\<close>

section \<open>Division\<close>

definition adv_rel :: "'a::len itself \<Rightarrow> 's cipher \<Rightarrow> nat \<Rightarrow> nat \<Rightarrow> 's manager \<Rightarrow> 's manager" where
  "adv_rel t aes n k m = m\<lparr>store := (store m)(RelPRG k := adv t aes n (store m (RelPRG k)))\<rparr>"

lemma adv_rel_simps [simp]:
  "mgr3 p (adv_rel t aes n k m) = mgr3 p m"
  "store (adv_rel t aes n k m) (RelPRG j) = (if j = k then adv t aes n (store m (RelPRG j)) else store m (RelPRG j))"
  "store (adv_rel t aes n k m) (GroupPRG g) = store m (GroupPRG g)"
  by (simp_all add: adv_rel_def)

text \<open>The two summands that are divided separately: party 0 divides \<open>x\<^sub>0 + x\<^sub>1\<close>, party 2 divides \<open>x\<^sub>2\<close>.\<close>

definition rep3_parts :: "'a::len sharing \<Rightarrow> 'a vec \<times> 'a vec" where
  "rep3_parts X = (vadd (col 0 (X ! 0)) (col 1 (X ! 0)), col 0 (X ! 2))"

lemma rep3_div_const_correct:
  fixes X :: "'a::len sharing" and w :: "('a, 's) world"
  assumes ok: "rep3_ok aes w" and X: "is_sharing 3 2 q m X"
  shows "\<exists>R E w' a b. rep3_parts X = (a, b) \<and> rep3_div_const_a aes X c w = Some ((R, E), w') \<and> rep3_ok aes w' \<and>
    is_sharing 3 2 0 m R \<and> is_sharing 3 2 0 m E \<and>
    length a = m \<and> length b = m \<and> vadd a b = reveal_a X \<and>
    reveal_a R = map2 (\<lambda>x y. quot_part c x + quot_part c y) a b \<and>
    reveal_a E = map2 (\<lambda>x y. rem_part c x + rem_part c y - c) a b"
proof -
  from X obtain x0 x1 x2 where x: "X = share_out 2 q [x0, x1, x2]"
    "length x0 = m" "length x1 = m" "length x2 = m" by (rule is_sharing_3E)
  from ok obtain m0 m1 m2 where mg: "mgrs w = [m0, m1, m2]" "rep3_synced [m0, m1, m2]"
    and c: "cipher_ok TYPE('a) aes" and qu: "quiet w" by (rule rep3_okE)
  have s: "mgr3 0 m0" "mgr3 1 m1" "mgr3 2 m2" "store m1 (RelPRG 2) = store m0 (RelPRG 1)"
    using mg(2) by (simp_all add: rep3_synced_def)
  let ?g = "store m0 (RelPRG 1)"
  let ?r = "rnd aes m ?g :: 'a vec" and ?u = "rnd aes m (adv TYPE('a) aes m ?g) :: 'a vec"
  let ?v = "vadd x0 x1"
  let ?q0 = "vec_op (-) (vec_op (-) (vec_elem_op sdiv_w ?v c) ?r) (vec_unop (\<lambda>x. of_bool (sint x < 0)) ?v)"
    and ?e0 = "vec_op (-) (map (rem_part c) ?v) ?u"
    and ?q2 = "map (quot_part c) x2" and ?e2 = "vec_elem_op (-) (map (rem_part c) x2) c"
  let ?adv = "\<lambda>k. adv_rel TYPE('a) aes m k"
  let ?w = "w\<lparr>mgrs := [?adv 1 (?adv 1 m0), ?adv 2 (?adv 2 m1), m2]\<rparr>"
  have run: "for_parties [0, 1, 2] (\<lambda>p. div_local aes (X ! p) c p) w =
      Some ([(?q0, ?e0), (?r, ?u), (?q2, ?e2)], ?w)"
  proof (rule for_parties_3 [OF mg(1)])
    show "div_local aes (X ! 0) c 0 m0 = Some ((?q0, ?e0), ?adv 1 (?adv 1 m0))"
      using x s(1) c quot_part_vec [of ?v m c]
      by (simp add: div_local_def share_out_3 draw_Some evec_size_def col_def Let_def adv_rel_def)
    show "div_local aes (X ! 1) c 1 m1 = Some ((?r, ?u), ?adv 2 (?adv 2 m1))"
      using x s(2,4) c
      by (simp add: div_local_def share_out_3 draw_Some evec_size_def Let_def adv_rel_def)
    show "div_local aes (X ! 2) c 2 m2 = Some ((?q2, ?e2), m2)"
      using x quot_part_vec [of x2 m c] by (simp add: div_local_def share_out_3 col_def Let_def)
  qed
  have ok': "rep3_ok aes ?w"
    using mg(2) c qu by (simp add: rep3_ok_def rep3_synced_def quiet_def)
  then have quiet: "quiet ?w" by (simp add: rep3_ok_def)
  have lr: "length ?r = m" "length ?u = m" using c by simp_all
  have lq: "length ?q0 = m" "length ?q2 = m" and le: "length ?e0 = m" "length ?e2 = m"
    using x lr by (simp_all add: vec_op_def vec_elem_op_def vec_unop_def)
  have sz: "sh_size X = m" using is_sharing_size [OF X, of 0] by (simp add: sh_size_def)
  let ?R = "share_out 2 0 [?q0, ?r, ?q2]" and ?E = "share_out 2 0 [?e0, ?u, ?e2]"
  have "rep3_div_const_a aes X c w = Some ((?R, ?E), tally 3 m (tally 3 m ?w))"
    unfolding rep3_div_const_a_def run sz
    using exchange_3 [OF quiet lq(1) lr(1) lq(2)] exchange_3 [of "tally 3 m ?w", OF _ le(1) lr(2) le(2)] quiet
    by (simp add: Let_def pair_up_3)
  moreover have "reveal_a ?R = map2 (\<lambda>x y. quot_part c x + quot_part c y) ?v x2"
    unfolding reveal_3(1) [OF lq(1) lr(1) lq(2)] using x(2-4) lr lq
    by (intro vec_eqI) (simp_all add: vec_op_def vec_elem_op_def vec_unop_def quot_part_def)
  moreover have "reveal_a ?E = map2 (\<lambda>x y. rem_part c x + rem_part c y - c) ?v x2"
    unfolding reveal_3(1) [OF le(1) lr(2) le(2)] using x(2-4) lr le
    by (intro vec_eqI) (simp_all add: vec_op_def vec_elem_op_def)
  moreover have "vadd ?v x2 = reveal_a X" using x by (simp add: reveal_3 [where m = m] vadd_ac)
  moreover have "rep3_parts X = (?v, x2)" using x by (simp add: rep3_parts_def share_out_3 col_def)
  ultimately show ?thesis
    using ok' is_sharing_3 [OF lq(1) lr(1) lq(2)] is_sharing_3 [OF le(1) lr(2) le(2)] x(2-4)
    by (intro exI [of _ ?R] exI [of _ ?E] exI [of _ "tally 3 m (tally 3 m ?w)"] exI [of _ ?v] exI [of _ x2]) simp
qed

section \<open>Bit conversion\<close>

lemma sub_a_share_out_3:
  "sub_a (share_out 2 q [x0, x1, x2]) (share_out 2 q' [y0, y1, y2])
    = share_out 2 q [vec_op (-) x0 y0, vec_op (-) x1 y1, vec_op (-) x2 y2]"
  unfolding sub_a_def by (subst evec_op_share_out) simp_all

lemma rep3_b2a_correct:
  fixes X :: "'a::len sharing" and w :: "('a, 's) world"
  assumes ok: "rep3_ok aes w" and X: "is_sharing 3 2 q m X"
  shows "\<exists>R w'. rep3_b2a_bit aes X w = Some (R, w') \<and> rep3_ok aes w' \<and> is_sharing 3 2 0 m R \<and>
    reveal_a R = map (\<lambda>x. x AND 1) (reveal_b X)"
proof -
  from X obtain x0 x1 x2 where x: "X = share_out 2 q [x0, x1, x2]"
    "length x0 = m" "length x1 = m" "length x2 = m" by (rule is_sharing_3E)
  from ok obtain m0 m1 m2 where mg: "mgrs w = [m0, m1, m2]" "rep3_synced [m0, m1, m2]"
    and c: "cipher_ok TYPE('a) aes" and qu: "quiet w" by (rule rep3_okE)
  have s: "mgr3 0 m0" "mgr3 1 m1" "mgr3 2 m2" "store m0 (RelPRG 2) = store m2 (RelPRG 1)"
    "store m1 (RelPRG 2) = store m0 (RelPRG 1)" "store m2 (RelPRG 2) = store m1 (RelPRG 1)"
    using mg(2) by (simp_all add: rep3_synced_def)
  let ?R = "\<lambda>g. rnd aes m g :: 'a vec" and ?A = "adv TYPE('a) aes m"
  let ?g0 = "store m0 (RelPRG 1)" and ?g1 = "store m1 (RelPRG 1)" and ?g2 = "store m2 (RelPRG 1)"
  let ?M = "\<lambda>mg. adv_rel TYPE('a) aes m 1 (adv_rel TYPE('a) aes m 2 mg)"
  let ?w = "w\<lparr>mgrs := [?M (?M m0), ?M (?M m1), ?M (?M m2)]\<rparr>"
  define p0 where "p0 = vadd (map2 (-) (?R ?g2) (?R ?g0)) (map (\<lambda>x. x AND 1) (vxor x1 x0))"
  define p1 where "p1 = map2 (-) (?R ?g0) (?R ?g1)"
  define p2 where "p2 = map2 (-) (?R ?g1) (?R ?g2)"
  define t0 where "t0 = map2 (-) (?R (?A ?g2)) (?R (?A ?g0))"
  define t1 where "t1 = vadd (map2 (-) (?R (?A ?g0)) (?R (?A ?g1))) (map (\<lambda>x. x AND 1) x2)"
  define t2 where "t2 = map2 (-) (?R (?A ?g1)) (?R (?A ?g2))"
  note defs = p0_def p1_def p2_def t0_def t1_def t2_def
  have zs: "getNextArithmetic aes m mg = Some (map2 (-) (?R (store mg (RelPRG 2))) (?R (store mg (RelPRG 1))), ?M mg)"
    if "mgr3 p mg" for p and mg :: "'s manager"
    using getNextArithmetic_mgr3 [OF that c] by (simp add: adv_rel_def)
  have mx: "vxor (mask_vec 1 x1) (mask_vec 1 x0) = map (\<lambda>x. x AND 1) (vxor x1 x0)"
    using x(2,3) by (intro vec_eqI) (simp_all add: mask_vec_def bit.conj_xor_distrib2)
  have run: "for_parties [0, 1, 2] (\<lambda>p. b2a_local aes (X ! p) p) w = Some ([(p0, t0), (p1, t1), (p2, t2)], ?w)"
    by (rule for_parties_3 [OF mg(1)])
      (use x s zs mx in \<open>simp_all add: b2a_local_def share_out_3 evec_size_def col_def apply_to_def
        setPrecision_def Let_def defs mask_vec_def\<close>)
  have ok': "rep3_ok aes ?w"
    using mg(2) c qu by (simp add: rep3_ok_def rep3_synced_def quiet_def)
  then have quiet: "quiet ?w" by (simp add: rep3_ok_def)
  have lp: "length p0 = m" "length p1 = m" "length p2 = m" and lt: "length t0 = m" "length t1 = m" "length t2 = m"
    using x c by (simp_all add: defs)
  have sz: "sh_size X = m" using is_sharing_size [OF X, of 0] by (simp add: sh_size_def)
  let ?S = "share_out 2 0 [vec_op (-) p0 t0, vec_op (-) p1 t1, vec_op (-) p2 t2]"
  let ?w' = "tally 3 m (tally 3 m ?w)"
  have "rep3_b2a_bit aes X w = rep3_multiply_a aes ?S ?S ?w'"
    unfolding rep3_b2a_bit_def run sz
    using exchange_3 [OF quiet lp] exchange_3 [of "tally 3 m ?w", OF _ lt] quiet
    by (simp add: Let_def pair_up_3 sub_a_share_out_3)
  moreover have lS: "length (vec_op (-) p0 t0) = m" "length (vec_op (-) p1 t1) = m" "length (vec_op (-) p2 t2) = m"
    using lp lt by (simp_all add: vec_op_def)
  moreover have "reveal_a ?S = map2 (-) (map (\<lambda>x. x AND 1) (vxor x1 x0)) (map (\<lambda>x. x AND 1) x2)"
    unfolding reveal_3(1) [OF lS] using x(2-4) c by (intro vec_eqI) (simp_all add: vec_op_def defs)
  moreover have "map2 (*) (map2 (-) (map (\<lambda>x. x AND 1) (vxor x1 x0)) (map (\<lambda>x. x AND 1) x2))
        (map2 (-) (map (\<lambda>x. x AND 1) (vxor x1 x0)) (map (\<lambda>x. x AND 1) x2)) = map (\<lambda>x. x AND 1) (reveal_b X)"
    using x by (intro vec_eqI) (simp_all add: reveal_3 [where m = m] bit_sub_square xor.assoc xor.left_commute)
  ultimately show ?thesis
    using rep3_multiply_correct [of aes ?w' 0 m ?S ?S] ok' is_sharing_3 [OF lS] by simp
qed

section \<open>Redistribution\<close>

definition adv_grp :: "'a::len itself \<Rightarrow> 's cipher \<Rightarrow> nat \<Rightarrow> 's manager \<Rightarrow> 's manager" where
  "adv_grp t aes n m =
     m\<lparr>store := (store m)(GroupPRG [0, 1, 2] := adv t aes n (store m (GroupPRG [0, 1, 2])))\<rparr>"

lemma adv_grp_simps [simp]:
  "mgr3 p (adv_grp t aes n m) = mgr3 p m"
  "store (adv_grp t aes n m) (RelPRG j) = store m (RelPRG j)"
  "store (adv_grp t aes n m) (GroupPRG [0, Suc 0, 2]) = adv t aes n (store m (GroupPRG [0, Suc 0, 2]))"
  by (simp_all add: adv_grp_def)

lemma draw_objs:
  assumes "cipher_ok TYPE('a::len) aes"
  shows "draw aes (Some (RelPRG k)) n m = Some (rnd aes n (store m (RelPRG k)) :: 'a vec, adv_rel TYPE('a) aes n k m)"
    and "draw aes (Some (GroupPRG [0, Suc 0, 2])) n m
      = Some (rnd aes n (store m (GroupPRG [0, Suc 0, 2])) :: 'a vec, adv_grp TYPE('a) aes n m)"
  using assms by (simp_all add: draw_Some adv_rel_def adv_grp_def)

lemma rep3_redistribute_correct:
  fixes X :: "'a::len sharing" and w :: "('a, 's) world"
  assumes ok: "rep3_ok aes w" and X: "is_sharing 3 2 q m X"
  shows "\<exists>U V w'. rep3_redistribute_shares_b aes X w = Some ((U, V), w') \<and> rep3_ok aes w' \<and>
    is_sharing 3 2 0 m U \<and> is_sharing 3 2 0 m V \<and>
    map2 (+) (reveal_b U) (reveal_b V) = reveal_a X"
proof -
  from X obtain x0 x1 x2 where x: "X = share_out 2 q [x0, x1, x2]"
    "length x0 = m" "length x1 = m" "length x2 = m" by (rule is_sharing_3E)
  from ok obtain m0 m1 m2 where mg: "mgrs w = [m0, m1, m2]" "rep3_synced [m0, m1, m2]"
    and c: "cipher_ok TYPE('a) aes" and qu: "quiet w" by (rule rep3_okE)
  have s: "mgr3 0 m0" "mgr3 1 m1" "mgr3 2 m2" "store m0 (RelPRG 2) = store m2 (RelPRG 1)"
    "store m1 (RelPRG 2) = store m0 (RelPRG 1)" "store m2 (RelPRG 2) = store m1 (RelPRG 1)"
    "store m1 (GroupPRG [0, Suc 0, 2]) = store m0 (GroupPRG [0, Suc 0, 2])"
    "store m2 (GroupPRG [0, Suc 0, 2]) = store m0 (GroupPRG [0, Suc 0, 2])"
    using mg(2) by (simp_all add: rep3_synced_def)
  let ?R = "\<lambda>g. rnd aes m g :: 'a vec" and ?A = "adv TYPE('a) aes m"
  let ?g = "store m0 (GroupPRG [0, Suc 0, 2])"
  let ?r1 = "?R (store m0 (RelPRG 1))" and ?r2 = "?R ?g" and ?s0 = "?R (store m2 (RelPRG 1))" and ?s1 = "?R (?A ?g)"
  let ?v = "vxor (vxor (vadd x0 x1) ?r1) ?r2" and ?u = "vxor (vxor x2 ?s0) ?s1"
  let ?a = "\<lambda>k. adv_rel TYPE('a) aes m k" and ?G = "adv_grp TYPE('a) aes m"
  let ?n0 = "?G (?a 2 (?G (?a 1 m0)))" and ?n1 = "?G (?G (?a 2 m1))" and ?n2 = "?G (?a 1 (?G m2))"
  let ?w0 = "sendShares 3 0 ?v 2 (w\<lparr>mgrs := [?n0, m1, m2]\<rparr>)"
  let ?w2 = "sendShares 3 2 ?u 2 (?w0\<lparr>mgrs := [?n0, m1, ?n2]\<rparr>)"
  let ?w3 = "?w2\<lparr>chan := (chan ?w2)(0 := (chan ?w2 0)(2 := []))\<rparr>"
  let ?w4 = "?w3\<lparr>mgrs := [?n0, ?n1, ?n2], chan := (chan ?w3)(2 := (chan ?w3 2)(1 := []))\<rparr>"
  have l: "length ?v = m" "length ?u = m" "length ?r1 = m" "length ?r2 = m" "length ?s0 = m" "length ?s1 = m"
    using x c by simp_all
  have ar: "abs_rank 3 0 2 = 2" "abs_rank 3 2 2 = 1" "abs_rank 3 2 1 = 0" "abs_rank 3 1 1 = 2"
    by (simp_all add: rank_simps)
  note dr = draw_objs [OF c]
  have 1: "redistribute_P0 aes (X ! 0) w =
      Some ((\<lparr>cols = [?v, ?r1], prec = 0\<rparr>, \<lparr>cols = [?s0, ?s1], prec = 0\<rparr>), ?w0)"
    using x mg(1) s(1,4) by (simp add: redistribute_P0_def share_out_3 evec_size_def col_def Let_def dr)
  have ch: "chan ?w2 0 2 = [?v]" "chan ?w3 2 1 = [?u]"
    using qu ar by (simp_all add: quiet_def)
  have 2: "redistribute_P2 aes (X ! 2) ?w0 =
      Some ((\<lparr>cols = [?r2, ?v], prec = 0\<rparr>, \<lparr>cols = [?u, ?s0], prec = 0\<rparr>), ?w3)"
    using x mg(1) s(3,8) l ch ar
    by (simp add: redistribute_P2_def share_out_3 evec_size_def col_def Let_def dr receiveShares_def valid_rank_geq)
  have 3: "redistribute_P1 aes (X ! 1) ?w3 =
      Some ((\<lparr>cols = [?r1, ?r2], prec = 0\<rparr>, \<lparr>cols = [?s1, ?u], prec = 0\<rparr>), ?w4)"
    using x mg(1) s(2,5,7) l ch ar
    by (simp add: redistribute_P1_def share_out_3 evec_size_def col_def Let_def dr receiveShares_def valid_rank_geq)
  let ?U = "share_out 2 0 [?v, ?r1, ?r2]" and ?V = "share_out 2 0 [?s0, ?s1, ?u]"
  have "rep3_redistribute_shares_b aes X w = Some ((?U, ?V), ?w4)"
    unfolding rep3_redistribute_shares_b_def using 1 2 3 by (simp add: share_out_3)
  moreover have "rep3_ok aes ?w4"
    using mg(2) c qu s ar by (auto simp: rep3_ok_def rep3_synced_def quiet_def fun_eq_iff)
  moreover have "reveal_b ?U = vadd x0 x1"
    unfolding reveal_3(2) [OF l(1,3,4)] using x l
    by (intro vec_eqI) (simp_all add: ac_simps flip: xor.assoc)
  moreover have "reveal_b ?V = x2"
    unfolding reveal_3(2) [OF l(5,6,2)] using x l
    by (intro vec_eqI) (simp_all add: ac_simps flip: xor.assoc)
  moreover have "map2 (+) (vadd x0 x1) x2 = reveal_a X"
    using x by (simp add: reveal_3 [where m = m] vadd_ac flip: vadd_def)
  ultimately show ?thesis using is_sharing_3 [OF l(1,3,4)] is_sharing_3 [OF l(5,6,2)]
    by (intro exI [of _ ?U] exI [of _ ?V] exI [of _ ?w4]) simp
qed

section \<open>Sharing and opening\<close>

lemma rep3_open_run:
  fixes w :: "('a::len, 's) world"
  assumes "rep3_ok aes w" and "length x0 = m" "length x1 = m" "length x2 = m"
  shows "rep3_open f (share_out 2 q [x0, x1, x2]) w =
    Some ([vec_op f (vec_op f x0 x1) x2, vec_op f (vec_op f x1 x2) x0, vec_op f (vec_op f x2 x0) x1], tally 3 m w)"
proof -
  have "quiet w" using assms(1) by (simp add: rep3_ok_def)
  have "map (\<lambda>x. replicate (evec_size x) 0) (share_out 2 q [x0, x1, x2]) = replicate 3 (replicate m (0 :: 'a word))"
    using assms(2-4) by (simp add: share_out_3 evec_size_def numeral_3_eq_3)
  then show ?thesis
    using exchange_3 [OF \<open>quiet w\<close> assms(3,4,2)]
    by (simp add: rep3_open_def share_out_3 col_def)
qed

lemma rep3_open_correct:
  fixes X :: "'a::len sharing" and w :: "('a, 's) world"
  assumes "rep3_ok aes w" and "is_sharing 3 2 q m X"
  shows "rep3_unchecked_open_a X w = Some (replicate 3 (reveal_a X), tally 3 m w)"
    and "rep3_unchecked_open_b X w = Some (replicate 3 (reveal_b X), tally 3 m w)"
proof -
  from assms(2) obtain x0 x1 x2 where x: "X = share_out 2 q [x0, x1, x2]"
    "length x0 = m" "length x1 = m" "length x2 = m" by (rule is_sharing_3E)
  show "rep3_unchecked_open_a X w = Some (replicate 3 (reveal_a X), tally 3 m w)"
    using rep3_open_run [OF assms(1) x(2-4), of "(+)" q] x reveal_3(1) [OF x(2-4)]
    by (simp add: rep3_unchecked_open_a_def numeral_3_eq_3 vadd_ac)
  have "vxor (vxor x0 x1) x2 = vxor x0 (vxor x1 x2)" "vxor (vxor x1 x2) x0 = vxor x0 (vxor x1 x2)"
    "vxor (vxor x2 x0) x1 = vxor x0 (vxor x1 x2)"
    using x(2-4) by (auto intro!: vec_eqI simp: ac_simps)
  then show "rep3_unchecked_open_b X w = Some (replicate 3 (reveal_b X), tally 3 m w)"
    using rep3_open_run [OF assms(1) x(2-4), of "(XOR)" q] x reveal_3(2) [OF x(2-4)]
    by (simp add: rep3_unchecked_open_b_def numeral_3_eq_3)
qed

lemma mgr3_local [simp]:
  "mgr3 p m \<Longrightarrow> draw aes (get_group m []) n m = draw aes (Some LocalPRG) n m"
  by simp

lemma rep3_get_shares_run:
  fixes data :: "'a::len vec"
  assumes "mgr3 p m" and "cipher_ok TYPE('a) aes"
  shows "\<exists>a b m'. rep3_get_shares f aes data m =
      Some (share_out 2 0 [a, b, vec_op f (vec_op f data a) b], m') \<and> length a = length data \<and>
      length b = length data \<and> mgr3 p m' \<and> (\<forall>k. store m' (RelPRG k) = store m (RelPRG k)) \<and>
      (\<forall>g. store m' (GroupPRG g) = store m (GroupPRG g))"
  using assms by (simp add: rep3_get_shares_def draw_Some share_out_3 Let_def)

lemma nth_mgrs_3:
  assumes "rep3_synced ms" and "d < 3"
  shows "mgr3 d (ms ! d)"
proof -
  have "d = 0 \<or> d = 1 \<or> d = 2" using assms(2) by linarith
  then show ?thesis using assms(1) by (auto simp: rep3_synced_def split: list.splits)
qed

lemma rep3_synced_update:
  assumes "rep3_synced ms" and "d < 3" and "mgr3 d m'"
    and "\<forall>k. store m' (RelPRG k) = store (ms ! d) (RelPRG k)"
    and "\<forall>g. store m' (GroupPRG g) = store (ms ! d) (GroupPRG g)"
  shows "rep3_synced (ms[d := m'])"
proof -
  from assms(2) consider "d = 0" | "d = 1" | "d = 2" by linarith
  then show ?thesis using assms by cases (auto simp: rep3_synced_def split: list.splits)
qed

lemma receive_columns_run:
  assumes "chan w d p = [s0, s1]" and "abs_rank 3 p (int d - int p) = d" and "length s0 = n" and "length s1 = n"
  shows "receive_columns n d p w =
    Some (\<lparr>cols = [s0, s1], prec = 0\<rparr>, w\<lparr>chan := (chan w)(d := (chan w d)(p := []))\<rparr>)"
  using assms by (simp add: receive_columns_def receiveShares_def valid_rank_geq Let_def)

lemma peers_3:
  assumes "d < 3"
  shows "abs_rank 3 d 1 = (d + 1) mod 3" and "abs_rank 3 d 2 = (d + 2) mod 3"
    and "abs_rank 3 ((d + 1) mod 3) (int d - int ((d + 1) mod 3)) = d"
    and "abs_rank 3 ((d + 2) mod 3) (int d - int ((d + 2) mod 3)) = d"
    and "(d + 1) mod 3 \<noteq> (d + 2) mod 3"
proof -
  have "d = 0 \<or> d = 1 \<or> d = 2" using assms by linarith
  then show "abs_rank 3 d 1 = (d + 1) mod 3" "abs_rank 3 d 2 = (d + 2) mod 3"
    "abs_rank 3 ((d + 1) mod 3) (int d - int ((d + 1) mod 3)) = d"
    "abs_rank 3 ((d + 2) mod 3) (int d - int ((d + 2) mod 3)) = d"
    "(d + 1) mod 3 \<noteq> (d + 2) mod 3"
    by (auto simp: rank_simps)
qed

definition rotated :: "nat \<Rightarrow> 'b \<Rightarrow> 'b \<Rightarrow> 'b \<Rightarrow> 'b list" where
  "rotated d u v z = (if d = 0 then [u, v, z] else if d = 1 then [z, u, v] else [v, z, u])"

lemma rotated_update:
  assumes "d < 3"
  shows "(replicate 3 u)[(d + 1) mod 3 := v, (d + 2) mod 3 := z] = rotated d u v z"
proof -
  have r: "replicate 3 u = [u, u, u]" by (simp add: numeral_3_eq_3)
  from assms consider "d = 0" | "d = 1" | "d = 2" by linarith
  then show ?thesis unfolding r rotated_def by cases simp_all
qed

lemma rotated_share_out:
  assumes "d < 3"
  shows "rotated d \<lparr>cols = [x0, x1], prec = q\<rparr> \<lparr>cols = [x1, x2], prec = q\<rparr> \<lparr>cols = [x2, x0], prec = q\<rparr>
    = share_out 2 q (rotated d x0 x1 x2)"
  by (simp add: rotated_def share_out_3)

lemma rep3_secret_share_run:
  fixes w :: "('a::len, 's) world" and data :: "'a vec"
  assumes ok: "rep3_ok aes w" and d: "d < 3"
  shows "\<exists>a b X w'. rep3_secret_share f aes data d w = Some (X, w') \<and> rep3_ok aes w' \<and>
    length a = length data \<and> length b = length data \<and>
    X = share_out 2 0 (rotated d a b (vec_op f (vec_op f data a) b))"
proof -
  have c: "cipher_ok TYPE('a) aes" and qu: "quiet w" and sy: "rep3_synced (mgrs w)"
    using ok by (simp_all add: rep3_ok_def)
  obtain a b m' where g: "rep3_get_shares f aes data (mgrs w ! d) =
      Some (share_out 2 0 [a, b, vec_op f (vec_op f data a) b], m')" "length a = length data" "length b = length data"
    and m': "rep3_synced ((mgrs w)[d := m'])"
    using rep3_get_shares_run [OF nth_mgrs_3 [OF sy d] c, of f data] rep3_synced_update [OF sy d] by metis
  let ?e = "vec_op f (vec_op f data a) b"
  have le: "length ?e = length data" using g by (simp add: vec_op_def)
  let ?w = "w\<lparr>mgrs := (mgrs w)[d := m']\<rparr>"
  let ?s = "\<lambda>v r. sendShares 3 d v r"
  let ?w4 = "?s a 2 (?s ?e 2 (?s ?e 1 (?s b 1 ?w)))"
  have ch: "chan w p q = []" for p q using qu by (simp add: quiet_def)
  let ?p1 = "(d + 1) mod 3" and ?p2 = "(d + 2) mod 3"
  let ?w5 = "?w4\<lparr>chan := (chan ?w4)(d := (chan ?w4 d)(?p1 := []))\<rparr>"
  let ?w6 = "?w5\<lparr>chan := (chan ?w5)(d := (chan ?w5 d)(?p2 := []))\<rparr>"
  note pr = peers_3 [OF d]
  have c4: "chan ?w4 d ?p1 = [b, ?e]" "chan ?w5 d ?p2 = [?e, a]"
    using ch pr by simp_all
  have "rep3_secret_share f aes data d w = Some (share_out 2 0 (rotated d a b ?e), ?w6)"
    using g(1) receive_columns_run [OF c4(1) pr(3) g(3) le] receive_columns_run [OF c4(2) pr(4) le g(2)]
    by (simp add: rep3_secret_share_def Let_def share_out_3 col_def rotated_update [OF d]
        rotated_share_out [OF d] del: One_nat_def add_2_eq_Suc')
  moreover have "quiet ?w6"
    using ch pr by (auto simp: quiet_def fun_eq_iff)
  then have "rep3_ok aes ?w6" using c m' by (simp add: rep3_ok_def)
  ultimately show ?thesis using g(2,3) by blast
qed

section \<open>The conversions and the division as a contract\<close>

lemma rep3_not_b_1_correct:
  fixes X :: "'a::len sharing"
  assumes "is_sharing 3 2 q m X"
  shows "is_sharing 3 2 q m (rep3_not_b_1 X) \<and> bit_shares (rep3_not_b_1 X) \<and>
    reveal_b (rep3_not_b_1 X) = map (\<lambda>x. of_bool (\<not> bit x 0)) (reveal_b X)"
proof -
  from assms obtain x0 x1 x2 where x: "X = share_out 2 q [x0, x1, x2]"
    "length x0 = m" "length x1 = m" "length x2 = m" by (rule is_sharing_3E)
  let ?f = "map (\<lambda>x :: 'a word. of_bool (\<not> bit x 0) :: 'a word)"
  have e: "rep3_not_b_1 X = share_out 2 q [?f x0, ?f x1, ?f x2]"
    by (simp add: rep3_not_b_1_def x(1) share_out_3 evec_unop_def evec_elem_op_def vec_unop_def vec_elem_op_def
        lnot_bit comp_def)
  have l: "length (?f x0) = m" "length (?f x1) = m" "length (?f x2) = m" using x by simp_all
  have "of_bool (\<not> a) XOR (of_bool (\<not> b) XOR of_bool (\<not> c)) = (of_bool (\<not> (a \<noteq> (b \<noteq> c))) :: 'a word)" for a b c
    by (cases a; cases b; cases c) simp_all
  then have "reveal_b (rep3_not_b_1 X) = ?f (reveal_b X)"
    unfolding e unfolding reveal_3(2) [OF l] x(1) reveal_3(2) [OF x(2-4)]
    using x(2-4) by (intro vec_eqI) (simp_all add: bit_xor_iff)
  moreover have "bit_shares (rep3_not_b_1 X)" by (auto simp: e bit_shares_def share_out_3)
  ultimately show ?thesis using is_sharing_3 [OF l] unfolding e by blast
qed

lemma rep3_not_law:
  fixes X :: "'a::len sharing"
  assumes "is_sharing 3 2 q m X" and "bit_shares X"
  shows "is_sharing 3 2 q m (rep3_not_b_1 X) \<and> bit_shares (rep3_not_b_1 X) \<and>
    reveal_b (rep3_not_b_1 X) = map (\<lambda>x. x XOR 1) (reveal_b X)"
  using rep3_not_b_1_correct [OF assms(1)] xor_one_reveal [OF assms] by simp

interpretation rep3d: dividing_protocol "replicated_3pc aes :: ('a::len, ('a, 's) world) protocol" 3 2 "rep3_ok aes" rep3_parts
  by unfold_locales
    (simp_all only: replicated_3pc_def protocol.simps rep3_not_law rep3_redistribute_correct rep3_b2a_correct
      rep3_div_const_correct)

end
