(* ===== verification/Beaver_2PC.thy ===== *)
theory Beaver_2PC
  imports Circuits Communication Vector_Algebra
begin

text \<open>
  The semi-honest two-party protocol on Beaver triples (\<open>core/protocols/beaver_2pc.h\<close>) and the
  triple generator (\<open>core/random/correlation/beaver_triple_generator.h\<close>).  Each party holds one
  additive (or XOR) share.  The oblivious linear evaluation correlations that triples are cut
  from come from an \<open>OLEGenerator\<close> with several implementations: here it is the parameter
  \<open>ole\<close>, a function from the number of the call and the requested length to both parties'
  vectors.  The network setting (\<open>wan\<close>) selects the stacked opening.
\<close>

section \<open>Triples\<close>

type_synonym 'a ole_pair = "('a vec \<times> 'a vec) \<times> ('a vec \<times> 'a vec)"

record (overloaded) 'a ole_source =
  ole_mul :: "nat \<Rightarrow> nat \<Rightarrow> 'a::len ole_pair"
  ole_and :: "nat \<Rightarrow> nat \<Rightarrow> 'a::len ole_pair"

record (overloaded) ('a, 's) beaver_state =
  net :: "('a::len, 's) world"
  mul_calls :: nat
  and_calls :: nat

definition slice_vec :: "nat \<Rightarrow> nat \<Rightarrow> 'a list \<Rightarrow> 'a list" where
  "slice_vec start_ind end_ind v = take (end_ind - start_ind) (drop start_ind v)"

definition triple_getNext ::
  "('a::len word \<Rightarrow> 'a word \<Rightarrow> 'a word) \<Rightarrow> ('a word \<Rightarrow> 'a word \<Rightarrow> 'a word) \<Rightarrow> nat \<Rightarrow> bool
    \<Rightarrow> 'a vec \<times> 'a vec \<Rightarrow> 'a vec \<times> 'a vec \<times> 'a vec" where
  "triple_getNext mul add n party0 v =
     (let (vCD, vAB) = v;
          vAB_left = slice_vec 0 n vAB;
          vAB_right = slice_vec n (2 * n) vAB;
          vCD_left = slice_vec 0 n vCD;
          vCD_right = slice_vec n (2 * n) vCD;
          a = (if party0 then vCD_left else vCD_right);
          b = (if party0 then vCD_right else vCD_left);
          c = vec_op add (vec_op add (vec_op mul a b) vAB_left) vAB_right
      in (a, b, c))"

definition two_party_sharing :: "'a::len vec \<Rightarrow> 'a vec \<Rightarrow> 'a sharing" where
  "two_party_sharing v0 v1 = [\<lparr>cols = [v0], prec = 0\<rparr>, \<lparr>cols = [v1], prec = 0\<rparr>]"

definition joint_triple ::
  "('a::len word \<Rightarrow> 'a word \<Rightarrow> 'a word) \<Rightarrow> ('a word \<Rightarrow> 'a word \<Rightarrow> 'a word) \<Rightarrow> nat \<Rightarrow> 'a ole_pair
    \<Rightarrow> 'a sharing \<times> 'a sharing \<times> 'a sharing" where
  "joint_triple mul add n corr =
     (let (a0, b0, c0) = triple_getNext mul add n True (fst corr);
          (a1, b1, c1) = triple_getNext mul add n False (snd corr)
      in (two_party_sharing a0 a1, two_party_sharing b0 b1, two_party_sharing c0 c1))"

definition BTgen_getNext ::
  "'a::len ole_source \<Rightarrow> nat \<Rightarrow> ('a, 's) beaver_state
    \<Rightarrow> ('a sharing \<times> 'a sharing \<times> 'a sharing) \<times> ('a, 's) beaver_state" where
  "BTgen_getNext ole n st =
     (joint_triple (*) (+) n (ole_mul ole (mul_calls st) (2 * n)), st\<lparr>mul_calls := mul_calls st + 1\<rparr>)"

definition BTANDgen_getNext ::
  "'a::len ole_source \<Rightarrow> nat \<Rightarrow> ('a, 's) beaver_state
    \<Rightarrow> ('a sharing \<times> 'a sharing \<times> 'a sharing) \<times> ('a, 's) beaver_state" where
  "BTANDgen_getNext ole n st =
     (joint_triple (AND) (XOR) n (ole_and ole (and_calls st) (2 * n)), st\<lparr>and_calls := and_calls st + 1\<rparr>)"

section \<open>Opening\<close>

definition bv_open ::
  "('a::len word \<Rightarrow> 'a word \<Rightarrow> 'a word) \<Rightarrow> 'a sharing \<Rightarrow> ('a, 's) beaver_state
    \<Rightarrow> ('a vec list \<times> ('a, 's) beaver_state) option" where
  "bv_open f X st = do {
     (shares_2, w) \<leftarrow> exchangeShares 2 (map (col 0) X) (map (\<lambda>x. replicate (length (col 0 x)) 0) X) 1 1 (net st);
     Some (map2 (\<lambda>x s2. vec_op f (col 0 x) s2) X shares_2, st\<lparr>net := w\<rparr>)
   }"

definition bv_unchecked_open_a ::
  "'a::len sharing \<Rightarrow> ('a, 's) beaver_state \<Rightarrow> ('a vec list \<times> ('a, 's) beaver_state) option" where
  "bv_unchecked_open_a X st = bv_open (+) X st"

definition bv_unchecked_open_b ::
  "'a::len sharing \<Rightarrow> ('a, 's) beaver_state \<Rightarrow> ('a vec list \<times> ('a, 's) beaver_state) option" where
  "bv_unchecked_open_b X st = bv_open (XOR) X st"

definition reconstruct_2pc :: "('a::len word \<Rightarrow> 'a word \<Rightarrow> 'a word) \<Rightarrow> 'a sharing \<Rightarrow> 'a vec" where
  "reconstruct_2pc f X = vec_op f (col 0 (X ! 0)) (col 0 (X ! 1))"

section \<open>Products\<close>

definition USE_STACKED_MULTIPLY_A :: bool where
  "USE_STACKED_MULTIPLY_A = False"

definition USE_STACKED_AND_B :: bool where
  "USE_STACKED_AND_B = True"

text \<open>An operator between an \<open>EVector\<close> and an opened vector acts on the column.\<close>

definition ev_vec :: "('a::len word \<Rightarrow> 'a word \<Rightarrow> 'a word) \<Rightarrow> 'a evec \<Rightarrow> 'a vec \<Rightarrow> 'a evec" where
  "ev_vec f e v = apply_return (\<lambda>c. vec_op f c v) e"

definition ev_concatenate :: "'a::len evec \<Rightarrow> 'a evec \<Rightarrow> 'a evec" where
  "ev_concatenate x y = apply_input (@) x y"

definition open_pair ::
  "('a::len word \<Rightarrow> 'a word \<Rightarrow> 'a word) \<Rightarrow> bool \<Rightarrow> 'a sharing \<Rightarrow> 'a sharing \<Rightarrow> ('a, 's) beaver_state
    \<Rightarrow> (('a vec list \<times> 'a vec list) \<times> ('a, 's) beaver_state) option" where
  "open_pair f stacked U V st =
     (if stacked then do {
        let combined = map2 ev_concatenate U V;
        (opened, st) \<leftarrow> bv_open f combined st;
        let n = sh_size U;
        Some ((map (slice_vec 0 n) opened, map (slice_vec n (2 * n)) opened), st)
      }
      else do {
        (A, st) \<leftarrow> bv_open f U st;
        (B, st) \<leftarrow> bv_open f V st;
        Some ((A, B), st)
      })"

definition bv_truncate :: "'a::len sharing \<Rightarrow> 'a sharing" where
  "bv_truncate X =
     map (\<lambda>x. if prec x = 0 then x else apply_return (bit_arithmetic_right_shift (prec x)) x) X"

definition bv_multiply_a ::
  "'a::len ole_source \<Rightarrow> bool \<Rightarrow> 'a sharing \<Rightarrow> 'a sharing \<Rightarrow> ('a, 's) beaver_state
    \<Rightarrow> ('a sharing \<times> ('a, 's) beaver_state) option" where
  "bv_multiply_a ole wan X Y st = do {
     let ((a, b, c), st) = BTgen_getNext ole (sh_size X) st;
     ((A, B), st) \<leftarrow> open_pair (+) (wan \<and> USE_STACKED_MULTIPLY_A)
        (map2 (evec_op (+)) X a) (map2 (evec_op (+)) Y b) st;
     let Z = map2 (evec_op (+)) (map2 (evec_op (-)) (map2 (ev_vec (*)) Y A) (map2 (ev_vec (*)) a B)) c;
     Z \<leftarrow> handle_precision X Y Z;
     Some (bv_truncate Z, st)
   }"

definition bv_and_b ::
  "'a::len ole_source \<Rightarrow> bool \<Rightarrow> 'a sharing \<Rightarrow> 'a sharing \<Rightarrow> ('a, 's) beaver_state
    \<Rightarrow> ('a sharing \<times> ('a, 's) beaver_state) option" where
  "bv_and_b ole wan X Y st = do {
     let ((a, b, c), st) = BTANDgen_getNext ole (sh_size X) st;
     ((A, B), st) \<leftarrow> open_pair (XOR) (wan \<and> USE_STACKED_AND_B)
        (map2 (evec_op (XOR)) X a) (map2 (evec_op (XOR)) Y b) st;
     let Z = map2 (evec_op (XOR)) (map2 (evec_op (XOR)) (map2 (ev_vec (AND)) Y A) (map2 (ev_vec (AND)) a B)) c;
     Z \<leftarrow> handle_precision X Y Z;
     Some (Z, st)
   }"

text \<open>The matrix product runs with the all-zero triple.\<close>

definition bv_matrix_product_a ::
  "nat \<Rightarrow> nat \<Rightarrow> nat \<Rightarrow> nat \<Rightarrow> nat \<Rightarrow> 'a::len sharing \<Rightarrow> 'a sharing \<Rightarrow> ('a, 's) beaver_state
    \<Rightarrow> ('a sharing \<times> ('a, 's) beaver_state) option" where
  "bv_matrix_product_a z_size lhs_rows lhs_cols rhs_rows rhs_cols X Y st = do {
     let zero = (\<lambda>n. two_party_sharing (replicate n 0) (replicate n 0));
     let a = zero (sh_size X);
     let b = zero (sh_size Y);
     let c = zero z_size;
     let M = matrixRightMultiplyWithColumnMatrixVectorized lhs_rows lhs_cols rhs_rows rhs_cols;
     (A, st) \<leftarrow> bv_unchecked_open_a (map2 (evec_op (+)) X a) st;
     (B, st) \<leftarrow> bv_unchecked_open_a (map2 (evec_op (+)) Y b) st;
     let Z = map (\<lambda>p. \<lparr>cols = [vec_op (+) (vec_op (-) (M (A ! p) (col 0 (Y ! p))) (M (col 0 (a ! p)) (B ! p)))
                                 (col 0 (c ! p))], prec = 0\<rparr>) [0, 1];
     Z \<leftarrow> handle_precision X Y Z;
     Some (bv_truncate Z, st)
   }"

section \<open>Division, negation and conversions\<close>

definition bv_div_const_a ::
  "'a::len sharing \<Rightarrow> 'a word \<Rightarrow> ('a, 's) beaver_state \<Rightarrow> (('a sharing \<times> 'a sharing) \<times> ('a, 's) beaver_state) option" where
  "bv_div_const_a X c st =
     (let neg = (\<lambda>v. vec_unop (\<lambda>x. of_bool (sint x < 0)) v);
          res = map (\<lambda>x. \<lparr>cols = [vec_op (-) (vec_elem_op sdiv_w (col 0 x) c) (neg (col 0 x))], prec = 0\<rparr>) X;
          err0 = (\<lambda>x. vec_op (+) (vec_elem_op smod_w (col 0 x) c) (vec_elem_op (*) (neg (col 0 x)) c));
          err = map (\<lambda>p. \<lparr>cols = [if p = 0 then err0 (X ! p) else vec_elem_op (-) (err0 (X ! p)) c], prec = 0\<rparr>) [0, 1]
      in Some ((res, err), st))"

definition bv_not_b :: "'a::len sharing \<Rightarrow> 'a sharing" where
  "bv_not_b X = map (\<lambda>p. if p = 0 then evec_unop NOT (X ! p) else X ! p) [0..<length X]"

definition bv_not_b_1 :: "'a::len sharing \<Rightarrow> 'a sharing" where
  "bv_not_b_1 X = map (\<lambda>p. if p = 0 then evec_unop lnot_w (X ! p) else X ! p) [0..<length X]"

definition bv_b2a_bit ::
  "'a::len ole_source \<Rightarrow> bool \<Rightarrow> 'a sharing \<Rightarrow> ('a, 's) beaver_state
    \<Rightarrow> ('a sharing \<times> ('a, 's) beaver_state) option" where
  "bv_b2a_bit ole wan X st =
     (let xm = map (\<lambda>x. setPrecision 0 (evec_elem_op (AND) x 1)) X;
          xm = map (\<lambda>p. if p = 1 then apply_to (vec_unop uminus) (xm ! p) else xm ! p) [0..<length xm]
      in bv_multiply_a ole wan xm xm st)"

section \<open>Sharing\<close>

definition bv_get_shares ::
  "('a::len word \<Rightarrow> 'a word \<Rightarrow> 'a word) \<Rightarrow> 's cipher \<Rightarrow> 'a vec \<Rightarrow> 's manager \<Rightarrow> ('a sharing \<times> 's manager) option" where
  "bv_get_shares f aes data m = do {
     (share_1, m) \<leftarrow> draw aes (get_group m []) (length data) m;
     let share_2 = vec_op f data share_1;
     Some (two_party_sharing share_1 share_2, m)
   }"

definition bv_secret_share ::
  "('a::len word \<Rightarrow> 'a word \<Rightarrow> 'a word) \<Rightarrow> 's cipher \<Rightarrow> 'a vec \<Rightarrow> nat \<Rightarrow> ('a, 's) beaver_state
    \<Rightarrow> ('a sharing \<times> ('a, 's) beaver_state) option" where
  "bv_secret_share f aes data data_party st = do {
     let w = net st;
     let other = (data_party + 1) mod 2;
     (sh, m) \<leftarrow> bv_get_shares f aes data (mgrs w ! data_party);
     let w = w\<lparr>mgrs := (mgrs w)[data_party := m]\<rparr>;
     let w = sendShares 2 data_party (col 0 (sh ! 1)) 1 w;
     (s, w) \<leftarrow> receiveShares 2 other (replicate (length data) 0) (- 1) w;
     Some ((replicate 2 (sh ! 0))[other := \<lparr>cols = [s], prec = 0\<rparr>], st\<lparr>net := w\<rparr>)
   }"

definition bv_secret_share_a_internal ::
  "'s cipher \<Rightarrow> 'a::len vec \<Rightarrow> nat \<Rightarrow> ('a, 's) beaver_state \<Rightarrow> ('a sharing \<times> ('a, 's) beaver_state) option" where
  "bv_secret_share_a_internal = bv_secret_share (-)"

definition bv_secret_share_b_internal ::
  "'s cipher \<Rightarrow> 'a::len vec \<Rightarrow> nat \<Rightarrow> ('a, 's) beaver_state \<Rightarrow> ('a sharing \<times> ('a, 's) beaver_state) option" where
  "bv_secret_share_b_internal = bv_secret_share (XOR)"

definition bv_redistribute_shares_b ::
  "'s cipher \<Rightarrow> 'a::len sharing \<Rightarrow> ('a, 's) beaver_state
    \<Rightarrow> (('a sharing \<times> 'a sharing) \<times> ('a, 's) beaver_state) option" where
  "bv_redistribute_shares_b aes X st = do {
     (U, st) \<leftarrow> bv_secret_share_b_internal aes (col 0 (X ! 0)) 0 st;
     (V, st) \<leftarrow> bv_secret_share_b_internal aes (col 0 (X ! 1)) 1 st;
     Some ((U, V), st)
   }"

definition bv_public_share :: "'a::len vec \<Rightarrow> nat list \<Rightarrow> 'a sharing" where
  "bv_public_share data who_knows =
     map (\<lambda>p. \<lparr>cols = [if (who_knows = [] \<and> p = 0) \<or> p \<in> set who_knows then data
                       else replicate (length data) 0], prec = 0\<rparr>) [0, 1]"

definition beaver_2pc ::
  "'s cipher \<Rightarrow> 'a::len ole_source \<Rightarrow> bool \<Rightarrow> ('a, ('a, 's) beaver_state) protocol" where
  "beaver_2pc aes ole wan =
     \<lparr>v_and_b = bv_and_b ole wan, v_not_b = bv_not_b, v_not_b_1 = bv_not_b_1,
      v_multiply_a = bv_multiply_a ole wan, v_b2a_bit = bv_b2a_bit ole wan,
      v_redistribute_shares_b = bv_redistribute_shares_b aes, v_div_const_a = bv_div_const_a\<rparr>"

end
