(* ===== verification/Beaver_2PC_Proofs.thy ===== *)
theory Beaver_2PC_Proofs
  imports Beaver_2PC Shared_Vectors
begin

text \<open>
  Correctness of the two-party protocol.  The generator of oblivious linear evaluations is assumed
  to deliver what its interface documents, \<open>A + B = C * D\<close> (\<open>ole_ok\<close>); from it the triples cut by
  \<open>getNext\<close> are shown to be multiplication triples, and every operation to be correct.
\<close>

section \<open>Triples\<close>

definition ole_rel ::
  "('a::len word \<Rightarrow> 'a word \<Rightarrow> 'a word) \<Rightarrow> ('a word \<Rightarrow> 'a word \<Rightarrow> 'a word) \<Rightarrow> nat \<Rightarrow> 'a ole_pair \<Rightarrow> bool" where
  "ole_rel mul add n corr \<longleftrightarrow>
     (case corr of ((C, A), (D, B)) \<Rightarrow>
        length A = n \<and> length B = n \<and> length C = n \<and> length D = n \<and> map2 add A B = map2 mul C D)"

definition ole_ok :: "'a::len ole_source \<Rightarrow> bool" where
  "ole_ok ole \<longleftrightarrow> (\<forall>call n. ole_rel (*) (+) n (ole_mul ole call n) \<and> ole_rel (AND) (XOR) n (ole_and ole call n))"

lemma length_slice_vec [simp]: "b \<le> length v \<Longrightarrow> length (slice_vec a b v) = b - a"
  by (simp add: slice_vec_def)

lemma nth_slice_vec [simp]: "b \<le> length v \<Longrightarrow> i < b - a \<Longrightarrow> slice_vec a b v ! i = v ! (a + i)"
  by (simp add: slice_vec_def)

lemma slice_append [simp]:
  "length u = n \<Longrightarrow> length v = n \<Longrightarrow> slice_vec 0 n (u @ v) = u"
  "length u = n \<Longrightarrow> length v = n \<Longrightarrow> slice_vec n (2 * n) (u @ v) = v"
  by (simp_all add: slice_vec_def)

lemma ole_relD:
  assumes "ole_rel mul add N corr"
  shows "\<exists>C A D B. corr = ((C, A), (D, B)) \<and> length A = N \<and> length B = N \<and> length C = N \<and> length D = N \<and>
    (\<forall>i < N. add (A ! i) (B ! i) = mul (C ! i) (D ! i))"
proof -
  obtain C A D B where e: "corr = ((C, A), (D, B))" by (metis prod.exhaust)
  with assms have l: "length A = N" "length B = N" "length C = N" "length D = N" and "map2 add A B = map2 mul C D"
    by (simp_all add: ole_rel_def)
  then have "map2 add A B ! i = map2 mul C D ! i" for i by simp
  then have "add (A ! i) (B ! i) = mul (C ! i) (D ! i)" if "i < N" for i
    using that l by (metis (no_types, lifting) length_zip min.idem nth_map nth_zip prod.case)
  with e l show ?thesis by blast
qed

lemma joint_triple_correct:
  fixes corr :: "'a::len ole_pair"
  assumes "ole_rel mul add (2 * n) corr"
    and algebra: "\<And>a b c d e f g h. add e g = mul a c \<Longrightarrow> add f h = mul b d \<Longrightarrow>
      add (add (add (mul a b) e) f) (add (add (mul d c) g) h) = mul (add a d) (add b c)"
  shows "\<exists>a0 a1 b0 b1 c0 c1. joint_triple mul add n corr =
      (two_party_sharing a0 a1, two_party_sharing b0 b1, two_party_sharing c0 c1) \<and>
    length a0 = n \<and> length a1 = n \<and> length b0 = n \<and> length b1 = n \<and> length c0 = n \<and> length c1 = n \<and>
    (\<forall>i < n. add (c0 ! i) (c1 ! i) = mul (add (a0 ! i) (a1 ! i)) (add (b0 ! i) (b1 ! i)))"
proof -
  from assms(1) obtain C A D B where e: "corr = ((C, A), (D, B))"
    and l: "length A = 2 * n" "length B = 2 * n" "length C = 2 * n" "length D = 2 * n"
    and r: "\<And>i. i < 2 * n \<Longrightarrow> add (A ! i) (B ! i) = mul (C ! i) (D ! i)" using ole_relD by blast
  let ?L = "slice_vec 0 n" and ?R = "slice_vec n (2 * n)"
  let ?c0 = "vec_op add (vec_op add (vec_op mul (?L C) (?R C)) (?L A)) (?R A)"
  let ?c1 = "vec_op add (vec_op add (vec_op mul (?R D) (?L D)) (?L B)) (?R B)"
  have "joint_triple mul add n corr =
      (two_party_sharing (?L C) (?R D), two_party_sharing (?R C) (?L D), two_party_sharing ?c0 ?c1)"
    by (simp add: joint_triple_def triple_getNext_def e Let_def)
  moreover have "add (?c0 ! i) (?c1 ! i) = mul (add (?L C ! i) (?R D ! i)) (add (?R C ! i) (?L D ! i))"
    if "i < n" for i
  proof -
    have sl: "?L v ! i = v ! i" "?R v ! i = v ! (n + i)" if "length v = 2 * n" for v :: "'a vec"
      using that \<open>i < n\<close> by simp_all
    have c0: "?c0 ! i = add (add (mul (C ! i) (C ! (n + i))) (A ! i)) (A ! (n + i))"
      and c1: "?c1 ! i = add (add (mul (D ! (n + i)) (D ! i)) (B ! i)) (B ! (n + i))"
      using that l by (simp_all add: vec_op_def)
    show ?thesis unfolding c0 c1 sl [OF l(3)] sl [OF l(4)] using that by (intro algebra r) simp_all
  qed
  moreover have "length ?c0 = n" "length ?c1 = n" using l by (simp_all add: vec_op_def)
  moreover have "length (?L C) = n" "length (?R D) = n" "length (?R C) = n" "length (?L D) = n"
    using l by simp_all
  ultimately show ?thesis by blast
qed

lemma triple_algebra:
  fixes a b c d e f g h :: "'a::len word"
  shows "e + g = a * c \<Longrightarrow> f + h = b * d \<Longrightarrow> ((a * b + e) + f) + ((d * c + g) + h) = (a + d) * (b + c)"
    and "e XOR g = a AND c \<Longrightarrow> f XOR h = b AND d \<Longrightarrow>
      (((a AND b) XOR e) XOR f) XOR (((d AND c) XOR g) XOR h) = (a XOR d) AND (b XOR c)"
proof -
  assume "e + g = a * c" "f + h = b * d"
  then have "((a * b + e) + f) + ((d * c + g) + h) = a * b + d * c + a * c + b * d"
    by (metis (no_types, lifting) add.assoc add.commute)
  then show "((a * b + e) + f) + ((d * c + g) + h) = (a + d) * (b + c)" by (simp add: algebra_simps)
next
  assume e: "e XOR g = a AND c" "f XOR h = b AND d"
  have "(((a AND b) XOR e) XOR f) XOR (((d AND c) XOR g) XOR h)
      = ((a AND b) XOR (d AND c)) XOR ((e XOR g) XOR (f XOR h))" by (simp add: ac_simps)
  also have "\<dots> = (a XOR d) AND (b XOR c)"
    unfolding e by (rule bit_word_eqI) (simp add: bit_simps, blast)
  finally show "(((a AND b) XOR e) XOR f) XOR (((d AND c) XOR g) XOR h) = (a XOR d) AND (b XOR c)" .
qed

section \<open>Two-party sharings\<close>

lemma share_out_2: "share_out (Suc 0) q [x0, x1] = [\<lparr>cols = [x0], prec = q\<rparr>, \<lparr>cols = [x1], prec = q\<rparr>]"
  by (simp add: share_out_def upt_rec)

lemma two_party_share_out: "two_party_sharing x0 x1 = share_out (Suc 0) 0 [x0, x1]"
  by (simp add: share_out_2 two_party_sharing_def)

lemma is_sharing_2E:
  assumes "is_sharing 2 (Suc 0) q m X"
  obtains x0 x1 where "X = share_out (Suc 0) q [x0, x1]" and "length x0 = m" and "length x1 = m"
proof -
  from assms obtain xs where xs: "X = share_out (Suc 0) q xs" "length xs = 2" "\<forall>x \<in> set xs. length x = m"
    by (elim is_sharingE)
  from xs(2) obtain x0 x1 where "xs = [x0, x1]"
    by (metis (no_types) length_0_conv length_Suc_conv numeral_2_eq_2)
  with xs that show thesis by simp
qed

lemma is_sharing_2:
  "length x0 = m \<Longrightarrow> length x1 = m \<Longrightarrow> is_sharing 2 (Suc 0) q m (share_out (Suc 0) q [x0, x1])"
  by (simp add: is_sharing_share_out)

lemma reveal_2:
  assumes "length x0 = m" and "length x1 = m"
  shows "reveal_a (share_out (Suc 0) q [x0, x1]) = vadd x0 x1"
    and "reveal_b (share_out (Suc 0) q [x0, x1]) = vxor x0 x1"
  using assms by (simp_all add: reveal_a_share_out [where m = m] reveal_b_share_out [where m = m])

lemma exchange_2:
  fixes w :: "('a::len, 's) world"
  assumes "quiet w" and "length l0 = m" and "length l1 = m"
  shows "exchangeShares 2 [l0, l1] [replicate m 0, replicate m 0] 1 1 w = Some ([l1, l0], tally 2 m w)"
proof -
  have "[0..<2::nat] = [0, 1]" by (simp add: upt_rec)
  moreover have "exchangeShares 2 [l0, l1] [replicate m 0, replicate m 0] 1 1 w =
     Some (map (\<lambda>p. [l0, l1] ! abs_rank 2 p 1) [0..<2], tally 2 m w)"
    by (rule exchange_rotate) (use assms in auto)
  ultimately show ?thesis by (simp add: rank_simps)
qed

definition bv_ok :: "'s cipher \<Rightarrow> 'a::len ole_source \<Rightarrow> ('a, 's) beaver_state \<Rightarrow> bool" where
  "bv_ok aes ole st \<longleftrightarrow> cipher_ok TYPE('a) aes \<and> ole_ok ole \<and> quiet (net st) \<and>
     length (mgrs (net st)) = 2 \<and> (\<forall>m \<in> set (mgrs (net st)). get_group m [] = Some LocalPRG)"

lemma bv_open_run:
  fixes st :: "('a::len, 's) beaver_state"
  assumes "bv_ok aes ole st" and "length x0 = m" and "length x1 = m"
  shows "bv_open f (share_out (Suc 0) q [x0, x1]) st =
      Some ([vec_op f x0 x1, vec_op f x1 x0], st\<lparr>net := tally 2 m (net st)\<rparr>)"
  using exchange_2 [of "net st" x0 m x1] assms
  by (simp add: bv_open_def share_out_2 col_def bv_ok_def)

lemma bv_ok_upd [simp]:
  "bv_ok aes ole (st\<lparr>net := tally n m w\<rparr>) = bv_ok aes ole (st\<lparr>net := w\<rparr>)"
  "bv_ok aes ole (st\<lparr>mul_calls := j\<rparr>) = bv_ok aes ole st"
  "bv_ok aes ole (st\<lparr>and_calls := j\<rparr>) = bv_ok aes ole st"
  by (simp_all add: bv_ok_def)

lemma bv_ok_same [simp]: "bv_ok aes ole (st\<lparr>net := net st\<rparr>) = bv_ok aes ole st"
  by simp

lemma open_pair_run:
  fixes st :: "('a::len, 's) beaver_state"
  assumes ok: "bv_ok aes ole st" and "length u0 = m" "length u1 = m" "length v0 = m" "length v1 = m"
  shows "\<exists>st'. open_pair f stacked (share_out (Suc 0) q [u0, u1]) (share_out (Suc 0) q' [v0, v1]) st =
      Some (([vec_op f u0 u1, vec_op f u1 u0], [vec_op f v0 v1, vec_op f v1 v0]), st') \<and> bv_ok aes ole st'"
proof (cases stacked)
  case True
  have "map2 ev_concatenate (share_out (Suc 0) q [u0, u1]) (share_out (Suc 0) q' [v0, v1])
      = share_out (Suc 0) q [u0 @ v0, u1 @ v1]"
    by (simp add: share_out_2 ev_concatenate_def apply_input_def)
  moreover have "vec_op f (u0 @ v0) (u1 @ v1) = vec_op f u0 u1 @ vec_op f v0 v1"
    "vec_op f (u1 @ v1) (u0 @ v0) = vec_op f u1 u0 @ vec_op f v1 v0"
    using assms by (simp_all add: vec_op_def)
  moreover have "length (vec_op f u0 u1) = m" "length (vec_op f v0 v1) = m" "length (vec_op f u1 u0) = m"
    "length (vec_op f v1 v0) = m"
    using assms by (simp_all add: vec_op_def)
  ultimately show ?thesis
    using True assms bv_open_run [OF ok, of "u0 @ v0" "2 * m" "u1 @ v1" f q]
    by (simp add: open_pair_def sh_size_def evec_size_def share_out_2)
next
  case False
  let ?st = "st\<lparr>net := tally 2 m (net st)\<rparr>"
  have "bv_ok aes ole ?st" using ok by simp
  then show ?thesis
    using False assms bv_open_run [OF ok assms(2,3), of f q] bv_open_run [of aes ole ?st v0 m v1 f q']
    by (simp add: open_pair_def)
qed

section \<open>Products\<close>

lemma map2_share_out_2:
  "map2 (evec_op f) (share_out (Suc 0) q [x0, x1]) (share_out (Suc 0) q' [y0, y1])
    = share_out (Suc 0) q [vec_op f x0 y0, vec_op f x1 y1]"
  by (simp add: share_out_2 evec_op_def)

lemma ev_vec_share_out_2:
  "map2 (ev_vec f) (share_out (Suc 0) q [x0, x1]) [A, B] = share_out (Suc 0) q [vec_op f x0 A, vec_op f x1 B]"
  by (simp add: share_out_2 ev_vec_def apply_return_def)

lemma bv_truncate_share_out:
  "bv_truncate (share_out (Suc 0) q [x0, x1]) =
     share_out (Suc 0) q (if q = 0 then [x0, x1] else [bit_arithmetic_right_shift q x0, bit_arithmetic_right_shift q x1])"
  by (simp add: bv_truncate_def share_out_2 apply_return_def)

lemma handle_precision_2:
  "handle_precision (share_out (Suc 0) q [x0, x1]) (share_out (Suc 0) q [y0, y1]) (share_out (Suc 0) r [z0, z1])
    = Some (share_out (Suc 0) q [z0, z1])"
  by (simp add: handle_precision_def share_out_2 matchPrecision_def)

lemma sh_size_2 [simp]: "sh_size (share_out (Suc 0) q [x0, x1]) = length x0"
  by (simp add: sh_size_def share_out_2 evec_size_def)

lemma beaver_product:
  fixes x0 x1 y0 y1 :: "'a::len word"
  shows "c0 + c1 = (a0 + a1) * (b0 + b1) \<Longrightarrow>
      (y0 * ((x0 + a0) + (x1 + a1)) - a0 * ((y0 + b0) + (y1 + b1)) + c0)
      + (y1 * ((x1 + a1) + (x0 + a0)) - a1 * ((y1 + b1) + (y0 + b0)) + c1) = (x0 + x1) * (y0 + y1)"
    and "c0 XOR c1 = (a0 XOR a1) AND (b0 XOR b1) \<Longrightarrow>
      (((y0 AND ((x0 XOR a0) XOR (x1 XOR a1))) XOR (a0 AND ((y0 XOR b0) XOR (y1 XOR b1)))) XOR c0)
      XOR (((y1 AND ((x1 XOR a1) XOR (x0 XOR a0))) XOR (a1 AND ((y1 XOR b1) XOR (y0 XOR b0)))) XOR c1)
      = (x0 XOR x1) AND (y0 XOR y1)"
proof -
  let ?A = "(x0 + a0) + (x1 + a1)" and ?B = "(y0 + b0) + (y1 + b1)"
  assume e: "c0 + c1 = (a0 + a1) * (b0 + b1)"
  have "(y0 * ?A - a0 * ?B + c0) + (y1 * ((x1 + a1) + (x0 + a0)) - a1 * ((y1 + b1) + (y0 + b0)) + c1)
      = (y0 + y1) * ?A - (a0 + a1) * ?B + (c0 + c1)" by (simp add: algebra_simps)
  also have "\<dots> = (x0 + x1) * (y0 + y1)" unfolding e by (simp add: algebra_simps)
  finally show "(y0 * ?A - a0 * ?B + c0) + (y1 * ((x1 + a1) + (x0 + a0)) - a1 * ((y1 + b1) + (y0 + b0)) + c1)
    = (x0 + x1) * (y0 + y1)" .
next
  let ?A = "(x0 XOR a0) XOR (x1 XOR a1)" and ?B = "(y0 XOR b0) XOR (y1 XOR b1)"
  let ?A' = "(x1 XOR a1) XOR (x0 XOR a0)" and ?B' = "(y1 XOR b1) XOR (y0 XOR b0)"
  assume e: "c0 XOR c1 = (a0 XOR a1) AND (b0 XOR b1)"
  have s: "?A' = ?A" "?B' = ?B" by (simp_all add: ac_simps)
  have "(((y0 AND ?A) XOR (a0 AND ?B)) XOR c0) XOR (((y1 AND ?A) XOR (a1 AND ?B)) XOR c1)
      = (((y0 AND ?A) XOR (a0 AND ?B)) XOR ((y1 AND ?A) XOR (a1 AND ?B))) XOR (c0 XOR c1)"
    by (simp add: xor.assoc xor.left_commute)
  also have "\<dots> = (x0 XOR x1) AND (y0 XOR y1)"
    unfolding e by (rule bit_word_eqI) (simp add: bit_simps, blast)
  finally show "(((y0 AND ?A) XOR (a0 AND ?B)) XOR c0) XOR (((y1 AND ?A') XOR (a1 AND ?B')) XOR c1)
      = (x0 XOR x1) AND (y0 XOR y1)" unfolding s .
qed

lemma bv_and_b_correct:
  fixes X Y :: "'a::len sharing" and st :: "('a, 's) beaver_state"
  assumes ok: "bv_ok aes ole st" and X: "is_sharing 2 (Suc 0) q m X" and Y: "is_sharing 2 (Suc 0) q m Y"
  shows "\<exists>Z st'. bv_and_b ole wan X Y st = Some (Z, st') \<and> bv_ok aes ole st' \<and> is_sharing 2 (Suc 0) q m Z \<and>
    reveal_b Z = map2 (AND) (reveal_b X) (reveal_b Y)"
proof -
  from X obtain x0 x1 where x: "X = share_out (Suc 0) q [x0, x1]" "length x0 = m" "length x1 = m" by (rule is_sharing_2E)
  from Y obtain y0 y1 where y: "Y = share_out (Suc 0) q [y0, y1]" "length y0 = m" "length y1 = m" by (rule is_sharing_2E)
  have "ole_rel (AND) (XOR) (2 * m) (ole_and ole (and_calls st) (2 * m))" using ok by (simp add: bv_ok_def ole_ok_def)
  then obtain a0 a1 b0 b1 c0 c1 where t: "joint_triple (AND) (XOR) m (ole_and ole (and_calls st) (2 * m)) =
      (two_party_sharing a0 a1, two_party_sharing b0 b1, two_party_sharing c0 c1)"
    and l: "length a0 = m" "length a1 = m" "length b0 = m" "length b1 = m" "length c0 = m" "length c1 = m"
    and c: "\<And>i. i < m \<Longrightarrow> c0 ! i XOR c1 ! i = (a0 ! i XOR a1 ! i) AND (b0 ! i XOR b1 ! i)"
    using joint_triple_correct [where mul = "(AND)" and add = "(XOR)", OF _ triple_algebra(2)] by blast
  let ?st = "st\<lparr>and_calls := and_calls st + 1\<rparr>"
  let ?u0 = "vec_op (XOR) x0 a0" and ?u1 = "vec_op (XOR) x1 a1" and ?v0 = "vec_op (XOR) y0 b0" and ?v1 = "vec_op (XOR) y1 b1"
  have lu: "length ?u0 = m" "length ?u1 = m" "length ?v0 = m" "length ?v1 = m" using x y l by (simp_all add: vec_op_def)
  have ok1: "bv_ok aes ole ?st" using ok by simp
  obtain st' where o: "open_pair (XOR) (wan \<and> USE_STACKED_AND_B) (share_out (Suc 0) q [?u0, ?u1]) (share_out (Suc 0) q [?v0, ?v1]) ?st =
      Some (([vec_op (XOR) ?u0 ?u1, vec_op (XOR) ?u1 ?u0], [vec_op (XOR) ?v0 ?v1, vec_op (XOR) ?v1 ?v0]), st')"
      "bv_ok aes ole st'"
    using open_pair_run [OF ok1 lu] by blast
  let ?z0 = "vec_op (XOR) (vec_op (XOR) (vec_op (AND) y0 (vec_op (XOR) ?u0 ?u1)) (vec_op (AND) a0 (vec_op (XOR) ?v0 ?v1))) c0"
  let ?z1 = "vec_op (XOR) (vec_op (XOR) (vec_op (AND) y1 (vec_op (XOR) ?u1 ?u0)) (vec_op (AND) a1 (vec_op (XOR) ?v1 ?v0))) c1"
  have lz: "length ?z0 = m" "length ?z1 = m" using x y l by (simp_all add: vec_op_def)
  have "bv_and_b ole wan X Y st = Some (share_out (Suc 0) q [?z0, ?z1], st')"
    using t o x y by (simp add: bv_and_b_def BTANDgen_getNext_def two_party_share_out map2_share_out_2
        ev_vec_share_out_2 handle_precision_2 Let_def)
  moreover have "reveal_b (share_out (Suc 0) q [?z0, ?z1]) = map2 (AND) (reveal_b X) (reveal_b Y)"
    unfolding reveal_2(2) [OF lz] x(1) y(1) reveal_2(2) [OF x(2,3)] reveal_2(2) [OF y(2,3)]
    using x(2,3) y(2,3) l by (intro vec_eqI) (simp_all add: vec_op_def beaver_product(2) [OF c])
  ultimately show ?thesis using o(2) is_sharing_2 [OF lz] by blast
qed

lemma bv_multiply_correct:
  fixes X Y :: "'a::len sharing" and st :: "('a, 's) beaver_state"
  assumes ok: "bv_ok aes ole st" and X: "is_sharing 2 (Suc 0) q m X" and Y: "is_sharing 2 (Suc 0) q m Y"
  shows "\<exists>R st'. bv_multiply_a ole wan X Y st = Some (R, st') \<and> bv_ok aes ole st' \<and> is_sharing 2 (Suc 0) q m R \<and>
    (if q = 0 then reveal_a R = map2 (*) (reveal_a X) (reveal_a Y)
     else truncated q (map2 (*) (reveal_a X) (reveal_a Y)) (reveal_a R))"
proof -
  from X obtain x0 x1 where x: "X = share_out (Suc 0) q [x0, x1]" "length x0 = m" "length x1 = m" by (rule is_sharing_2E)
  from Y obtain y0 y1 where y: "Y = share_out (Suc 0) q [y0, y1]" "length y0 = m" "length y1 = m" by (rule is_sharing_2E)
  have "ole_rel (*) (+) (2 * m) (ole_mul ole (mul_calls st) (2 * m))" using ok by (simp add: bv_ok_def ole_ok_def)
  then obtain a0 a1 b0 b1 c0 c1 where t: "joint_triple (*) (+) m (ole_mul ole (mul_calls st) (2 * m)) =
      (two_party_sharing a0 a1, two_party_sharing b0 b1, two_party_sharing c0 c1)"
    and l: "length a0 = m" "length a1 = m" "length b0 = m" "length b1 = m" "length c0 = m" "length c1 = m"
    and c: "\<And>i. i < m \<Longrightarrow> c0 ! i + c1 ! i = (a0 ! i + a1 ! i) * (b0 ! i + b1 ! i)"
    using joint_triple_correct [where mul = "(*)" and add = "(+)", OF _ triple_algebra(1)] by blast
  let ?st = "st\<lparr>mul_calls := mul_calls st + 1\<rparr>"
  let ?u0 = "vec_op (+) x0 a0" and ?u1 = "vec_op (+) x1 a1" and ?v0 = "vec_op (+) y0 b0" and ?v1 = "vec_op (+) y1 b1"
  have lu: "length ?u0 = m" "length ?u1 = m" "length ?v0 = m" "length ?v1 = m" using x y l by simp_all
  have ok1: "bv_ok aes ole ?st" using ok by simp
  obtain st' where o: "open_pair (+) (wan \<and> USE_STACKED_MULTIPLY_A) (share_out (Suc 0) q [?u0, ?u1]) (share_out (Suc 0) q [?v0, ?v1]) ?st =
      Some (([vec_op (+) ?u0 ?u1, vec_op (+) ?u1 ?u0], [vec_op (+) ?v0 ?v1, vec_op (+) ?v1 ?v0]), st')"
      "bv_ok aes ole st'"
    using open_pair_run [OF ok1 lu] by blast
  let ?z0 = "vec_op (+) (vec_op (-) (vec_op (*) y0 (vec_op (+) ?u0 ?u1)) (vec_op (*) a0 (vec_op (+) ?v0 ?v1))) c0"
  let ?z1 = "vec_op (+) (vec_op (-) (vec_op (*) y1 (vec_op (+) ?u1 ?u0)) (vec_op (*) a1 (vec_op (+) ?v1 ?v0))) c1"
  have lz: "length ?z0 = m" "length ?z1 = m" using x y l by (simp_all add: vec_op_def)
  let ?Z = "share_out (Suc 0) q [?z0, ?z1]"
  have run: "bv_multiply_a ole wan X Y st = Some (bv_truncate ?Z, st')"
    using t o x y by (simp add: bv_multiply_a_def BTgen_getNext_def two_party_share_out map2_share_out_2
        ev_vec_share_out_2 handle_precision_2 Let_def)
  have z: "vadd ?z0 ?z1 = map2 (*) (reveal_a X) (reveal_a Y)"
    unfolding x(1) y(1) reveal_2(1) [OF x(2,3)] reveal_2(1) [OF y(2,3)]
    using x(2,3) y(2,3) l by (intro vec_eqI) (simp_all add: vec_op_def beaver_product(1) [OF c])
  obtain z0 z1 where zz: "bv_multiply_a ole wan X Y st = Some (bv_truncate (share_out (Suc 0) q [z0, z1]), st')"
    "length z0 = m" "length z1 = m" "vadd z0 z1 = map2 (*) (reveal_a X) (reveal_a Y)"
    using run z lz by blast
  let ?r = "bit_arithmetic_right_shift q"
  have lr: "length (?r z0) = m" "length (?r z1) = m" by (simp_all only: length_ars zz)
  show ?thesis
    using zz(1) o(2) zz(4) truncated_parts [OF zz(2,3), of q] reveal_2(1) [OF zz(2,3)] reveal_2(1) [OF lr]
      is_sharing_2 [OF zz(2,3)] is_sharing_2 [OF lr]
    unfolding bv_truncate_share_out by (cases "q = 0") simp_all
qed

lemma bv_not_b_correct:
  fixes X :: "'a::len sharing"
  assumes "is_sharing 2 (Suc 0) q m X"
  shows "is_sharing 2 (Suc 0) q m (bv_not_b X) \<and> reveal_b (bv_not_b X) = map NOT (reveal_b X)"
proof -
  from assms obtain x0 x1 where x: "X = share_out (Suc 0) q [x0, x1]" "length x0 = m" "length x1 = m" by (rule is_sharing_2E)
  have e: "bv_not_b X = share_out (Suc 0) q [map NOT x0, x1]"
    by (simp add: bv_not_b_def x(1) share_out_2 evec_unop_def vec_unop_def upt_rec)
  have "NOT a XOR b = NOT (a XOR b)" for a b :: "'a word"
    by (rule bit_word_eqI) (simp add: bit_simps)
  then show ?thesis
    unfolding e using x by (simp add: is_sharing_2 reveal_2 [where m = m]) (intro vec_eqI; simp)
qed

interpretation bv: boolean_protocol "beaver_2pc aes ole wan :: ('a::len, ('a, 's) beaver_state) protocol" 2 1 "bv_ok aes ole"
  using bv_and_b_correct bv_not_b_correct
  by unfold_locales (simp_all add: beaver_2pc_def, fast+)

end
