(* ===== verification/Beaver_2PC_Conv.thy ===== *)
theory Beaver_2PC_Conv
  imports Beaver_2PC_Proofs
begin

text \<open>
  Division by a public constant, bit conversion, sharing, opening and redistribution for two
  parties, and the interpretation of the conversion and division contracts.
\<close>

section \<open>Division and bit operations\<close>

definition bv_parts :: "'a::len sharing \<Rightarrow> 'a vec \<times> 'a vec" where
  "bv_parts X = (col 0 (X ! 0), col 0 (X ! 1))"

lemma bv_div_const_correct:
  fixes X :: "'a::len sharing" and st :: "('a, 's) beaver_state"
  assumes ok: "bv_ok aes ole st" and X: "is_sharing 2 (Suc 0) q m X"
  shows "\<exists>R E st' a b. bv_parts X = (a, b) \<and> bv_div_const_a X c st = Some ((R, E), st') \<and> bv_ok aes ole st' \<and>
    is_sharing 2 (Suc 0) 0 m R \<and> is_sharing 2 (Suc 0) 0 m E \<and>
    length a = m \<and> length b = m \<and> vadd a b = reveal_a X \<and>
    reveal_a R = map2 (\<lambda>x y. quot_part c x + quot_part c y) a b \<and>
    reveal_a E = map2 (\<lambda>x y. rem_part c x + rem_part c y - c) a b"
proof -
  from X obtain x0 x1 where x: "X = share_out (Suc 0) q [x0, x1]" "length x0 = m" "length x1 = m" by (rule is_sharing_2E)
  let ?R = "share_out (Suc 0) 0 [map (quot_part c) x0, map (quot_part c) x1]"
  let ?e1 = "vec_elem_op (-) (map (rem_part c) x1) c"
  let ?E = "share_out (Suc 0) 0 [map (rem_part c) x0, ?e1]"
  have run: "bv_div_const_a X c st = Some ((?R, ?E), st)"
    using quot_part_vec [OF x(2), of c] quot_part_vec [OF x(3), of c]
    by (simp add: bv_div_const_a_def x(1) share_out_2 col_def Let_def)
  have l: "length (map (quot_part c) x0) = m" "length (map (quot_part c) x1) = m"
    "length (map (rem_part c) x0) = m" "length ?e1 = m" using x by (simp_all add: vec_elem_op_def)
  have "reveal_a ?R = map2 (\<lambda>x y. quot_part c x + quot_part c y) x0 x1"
    unfolding reveal_2(1) [OF l(1,2)] using x by (intro vec_eqI) simp_all
  moreover have "reveal_a ?E = map2 (\<lambda>x y. rem_part c x + rem_part c y - c) x0 x1"
    unfolding reveal_2(1) [OF l(3,4)] using x by (intro vec_eqI) (simp_all add: vec_elem_op_def)
  moreover have "vadd x0 x1 = reveal_a X" using reveal_2(1) [OF x(2,3)] x(1) by simp
  moreover have "bv_parts X = (x0, x1)" using x by (simp add: bv_parts_def share_out_2 col_def)
  ultimately show ?thesis
    using run ok x(2,3) is_sharing_2 [OF l(1,2), of 0] is_sharing_2 [OF l(3,4), of 0] by blast
qed

lemma bv_not_b_1_correct:
  fixes X :: "'a::len sharing"
  assumes X: "is_sharing 2 (Suc 0) q m X" and bits: "bit_shares X"
  shows "is_sharing 2 (Suc 0) q m (bv_not_b_1 X) \<and> bit_shares (bv_not_b_1 X) \<and>
    reveal_b (bv_not_b_1 X) = map (\<lambda>x. x XOR 1) (reveal_b X)"
proof -
  from X obtain x0 x1 where x: "X = share_out (Suc 0) q [x0, x1]" "length x0 = m" "length x1 = m" by (rule is_sharing_2E)
  let ?y = "map lnot_w x0"
  have e: "bv_not_b_1 X = share_out (Suc 0) q [?y, x1]"
    by (simp add: bv_not_b_1_def x(1) share_out_2 evec_unop_def vec_unop_def upt_rec)
  have l: "length ?y = m" using x by simp
  have b: "\<forall>a \<in> set x0. a = 0 \<or> a = 1" "\<forall>a \<in> set x1. a = 0 \<or> a = 1"
    using bits by (auto simp: bit_shares_def x(1) share_out_2)
  have "lnot_w a XOR c = (a XOR c) XOR 1" if "a = 0 \<or> a = 1" "c = 0 \<or> c = 1" for a c :: "'a word"
    using that by (auto simp: lnot_w_def)
  then have "reveal_b (bv_not_b_1 X) = map (\<lambda>x. x XOR 1) (reveal_b X)"
    unfolding e unfolding reveal_2(2) [OF l x(3)] x(1) reveal_2(2) [OF x(2,3)]
    using x(2,3) b by (intro vec_eqI) simp_all
  moreover have "bit_shares (bv_not_b_1 X)"
    unfolding e using b by (auto simp: bit_shares_def share_out_2 lnot_w_def)
  ultimately show ?thesis using is_sharing_2 [OF l x(3)] e by simp
qed

lemma bv_b2a_correct:
  fixes X :: "'a::len sharing" and st :: "('a, 's) beaver_state"
  assumes ok: "bv_ok aes ole st" and X: "is_sharing 2 (Suc 0) q m X"
  shows "\<exists>R st'. bv_b2a_bit ole wan X st = Some (R, st') \<and> bv_ok aes ole st' \<and> is_sharing 2 (Suc 0) 0 m R \<and>
    reveal_a R = map (\<lambda>x. x AND 1) (reveal_b X)"
proof -
  from X obtain x0 x1 where x: "X = share_out (Suc 0) q [x0, x1]" "length x0 = m" "length x1 = m" by (rule is_sharing_2E)
  let ?a = "map (\<lambda>x. x AND 1) x0" and ?b = "map (\<lambda>x. - (x AND 1)) x1"
  let ?S = "share_out (Suc 0) 0 [?a, ?b]"
  have l: "length ?a = m" "length ?b = m" using x by simp_all
  have "bv_b2a_bit ole wan X st = bv_multiply_a ole wan ?S ?S st"
    by (simp add: bv_b2a_bit_def x(1) share_out_2 evec_elem_op_def vec_elem_op_def apply_to_def vec_unop_def
        setPrecision_def Let_def upt_rec comp_def)
  moreover have "map2 (*) (reveal_a ?S) (reveal_a ?S) = map (\<lambda>x. x AND 1) (reveal_b X)"
    unfolding reveal_2(1) [OF l] x(1) reveal_2(2) [OF x(2,3)]
    using x(2,3) by (intro vec_eqI) (simp_all add: bit_sub_square flip: diff_conv_add_uminus)
  ultimately show ?thesis
    using bv_multiply_correct [OF ok is_sharing_2 [OF l] is_sharing_2 [OF l, of 0], of wan] by simp
qed

section \<open>Sharing and redistribution\<close>

lemma bv_okD:
  fixes st :: "('a::len, 's) beaver_state"
  assumes "bv_ok aes ole st"
  shows "cipher_ok TYPE('a) aes" and "ole_ok ole" and "quiet (net st)" and "length (mgrs (net st)) = 2"
    and "\<And>d. d < 2 \<Longrightarrow> get_group (mgrs (net st) ! d) [] = Some LocalPRG"
  using assms by (simp_all add: bv_ok_def)

lemma get_group_store [simp]: "get_group (m\<lparr>store := s\<rparr>) g = get_group m g"
  by (simp add: get_group_def)

lemma bv_get_shares_run:
  fixes data :: "'a::len vec"
  assumes "get_group m [] = Some LocalPRG" and "cipher_ok TYPE('a) aes"
  shows "\<exists>r m'. bv_get_shares f aes data m = Some (two_party_sharing r (vec_op f data r), m') \<and>
    length r = length data \<and> get_group m' [] = Some LocalPRG"
  using assms length_rnd [OF assms(2), of "length data" "store m LocalPRG"]
  by (fastforce simp: bv_get_shares_def draw_Some)

definition placed :: "nat \<Rightarrow> 'b \<Rightarrow> 'b \<Rightarrow> 'b list" where
  "placed d u v = (if d = 0 then [u, v] else [v, u])"

lemma bv_secret_share_run:
  fixes st :: "('a::len, 's) beaver_state" and data :: "'a vec"
  assumes ok: "bv_ok aes ole st" and d: "d < 2"
  shows "\<exists>r st'. bv_secret_share f aes data d st = Some (share_out (Suc 0) 0 (placed d r (vec_op f data r)), st') \<and>
    bv_ok aes ole st' \<and> length r = length data"
proof -
  let ?w = "net st"
  obtain r m' where g: "bv_get_shares f aes data (mgrs ?w ! d) = Some (two_party_sharing r (vec_op f data r), m')"
    "length r = length data" "get_group m' [] = Some LocalPRG"
    using bv_get_shares_run [OF bv_okD(5) [OF ok d] bv_okD(1) [OF ok]] by blast
  let ?s = "vec_op f data r" and ?o = "(d + 1) mod 2"
  let ?w1 = "sendShares 2 d ?s 1 (?w\<lparr>mgrs := (mgrs ?w)[d := m']\<rparr>)"
  let ?w2 = "?w1\<lparr>chan := (chan ?w1)(d := (chan ?w1 d)(?o := []))\<rparr>"
  have l: "length ?s = length data" using g(2) by (simp add: vec_op_def)
  have d': "d = 0 \<or> d = 1" using d by linarith
  then have ar: "abs_rank 2 d 1 = ?o" "abs_rank 2 ?o (- 1) = d" by (auto simp: rank_simps)
  have none: "chan ?w a b = []" for a b using bv_okD(3) [OF ok] by (simp add: quiet_def)
  have "chan ?w1 d ?o = [?s]" using ar none by simp
  then have rc: "receiveShares 2 ?o (replicate (length data) 0) (- 1) ?w1 = Some (?s, ?w2)"
    using ar l by (simp add: receiveShares_def valid_rank_geq Let_def)
  have sh: "(replicate 2 \<lparr>cols = [r], prec = 0\<rparr>)[?o := \<lparr>cols = [?s], prec = 0\<rparr>] = share_out (Suc 0) 0 (placed d r ?s)"
    using d' by (auto simp: placed_def share_out_2 numeral_2_eq_2)
  have run: "bv_secret_share f aes data d st = Some (share_out (Suc 0) 0 (placed d r ?s), st\<lparr>net := ?w2\<rparr>)"
    unfolding bv_secret_share_def using g(1) rc sh by (simp add: two_party_sharing_def col_def Let_def)
  have "\<forall>m \<in> set ((mgrs ?w)[d := m']). get_group m [] = Some LocalPRG"
    using ok g(3) set_update_subset_insert [of "mgrs ?w" d m'] by (auto simp: bv_ok_def)
  moreover have "quiet ?w2" using none ar by (auto simp: quiet_def fun_eq_iff)
  ultimately have "bv_ok aes ole (st\<lparr>net := ?w2\<rparr>)" using bv_okD [OF ok] by (simp add: bv_ok_def)
  with run g(2) show ?thesis by blast
qed

lemma placed_sharing:
  assumes "length u = m" and "length v = m"
  shows "is_sharing 2 (Suc 0) q m (share_out (Suc 0) q (placed d u v))"
    and "reveal_a (share_out (Suc 0) q (placed d u v)) = vadd u v"
    and "reveal_b (share_out (Suc 0) q (placed d u v)) = vxor u v"
proof -
  have "vxor v u = vxor u v" by (rule vec_eqI) (simp_all add: ac_simps)
  then show "is_sharing 2 (Suc 0) q m (share_out (Suc 0) q (placed d u v))"
    "reveal_a (share_out (Suc 0) q (placed d u v)) = vadd u v"
    "reveal_b (share_out (Suc 0) q (placed d u v)) = vxor u v"
    using assms is_sharing_2 [of u m v] is_sharing_2 [of v m u] reveal_2 [OF assms] reveal_2 [OF assms(2,1)]
    by (simp_all add: placed_def vadd_ac)
qed

lemma bv_secret_share_correct:
  fixes st :: "('a::len, 's) beaver_state" and data :: "'a vec"
  assumes "bv_ok aes ole st" and "d < 2"
  shows "\<exists>X st'. bv_secret_share_a_internal aes data d st = Some (X, st') \<and> bv_ok aes ole st' \<and>
      is_sharing 2 (Suc 0) 0 (length data) X \<and> reveal_a X = data"
    and "\<exists>X st'. bv_secret_share_b_internal aes data d st = Some (X, st') \<and> bv_ok aes ole st' \<and>
      is_sharing 2 (Suc 0) 0 (length data) X \<and> reveal_b X = data"
proof -
  have a: "vadd r (vec_op (-) data r) = data" "vxor r (vec_op (XOR) data r) = data"
    "length (vec_op (-) data r) = length data" "length (vec_op (XOR) data r) = length data"
    if "length r = length data" for r :: "'a vec"
    using that by (auto intro!: vec_eqI simp: vec_op_def xor.left_commute)
  show "\<exists>X st'. bv_secret_share_a_internal aes data d st = Some (X, st') \<and> bv_ok aes ole st' \<and>
      is_sharing 2 (Suc 0) 0 (length data) X \<and> reveal_a X = data"
    using bv_secret_share_run [OF assms, of "(-)" data] a placed_sharing
    unfolding bv_secret_share_a_internal_def by metis
  show "\<exists>X st'. bv_secret_share_b_internal aes data d st = Some (X, st') \<and> bv_ok aes ole st' \<and>
      is_sharing 2 (Suc 0) 0 (length data) X \<and> reveal_b X = data"
    using bv_secret_share_run [OF assms, of "(XOR)" data] a placed_sharing
    unfolding bv_secret_share_b_internal_def by metis
qed

lemma bv_open_correct:
  fixes X :: "'a::len sharing" and st :: "('a, 's) beaver_state"
  assumes "bv_ok aes ole st" and "is_sharing 2 (Suc 0) q m X"
  shows "bv_unchecked_open_a X st = Some (replicate 2 (reveal_a X), st\<lparr>net := tally 2 m (net st)\<rparr>)"
    and "bv_unchecked_open_b X st = Some (replicate 2 (reveal_b X), st\<lparr>net := tally 2 m (net st)\<rparr>)"
proof -
  from assms(2) obtain x0 x1 where x: "X = share_out (Suc 0) q [x0, x1]" "length x0 = m" "length x1 = m"
    by (rule is_sharing_2E)
  have "vxor x1 x0 = vxor x0 x1" by (rule vec_eqI) (simp_all add: ac_simps)
  then show "bv_unchecked_open_a X st = Some (replicate 2 (reveal_a X), st\<lparr>net := tally 2 m (net st)\<rparr>)"
    "bv_unchecked_open_b X st = Some (replicate 2 (reveal_b X), st\<lparr>net := tally 2 m (net st)\<rparr>)"
    using bv_open_run [OF assms(1) x(2,3)] reveal_2 [OF x(2,3)] x(1)
    by (simp_all add: bv_unchecked_open_a_def bv_unchecked_open_b_def numeral_2_eq_2 vadd_ac)
qed

lemma bv_redistribute_correct:
  fixes X :: "'a::len sharing" and st :: "('a, 's) beaver_state"
  assumes ok: "bv_ok aes ole st" and X: "is_sharing 2 (Suc 0) q m X"
  shows "\<exists>U V st'. bv_redistribute_shares_b aes X st = Some ((U, V), st') \<and> bv_ok aes ole st' \<and>
    is_sharing 2 (Suc 0) 0 m U \<and> is_sharing 2 (Suc 0) 0 m V \<and> map2 (+) (reveal_b U) (reveal_b V) = reveal_a X"
proof -
  from X obtain x0 x1 where x: "X = share_out (Suc 0) q [x0, x1]" "length x0 = m" "length x1 = m" by (rule is_sharing_2E)
  obtain U st1 where u: "bv_secret_share_b_internal aes x0 0 st = Some (U, st1)" "bv_ok aes ole st1"
    "is_sharing 2 (Suc 0) 0 m U" "reveal_b U = x0"
    using bv_secret_share_correct(2) [OF ok, of 0 x0] x(2) by auto
  obtain V st2 where v: "bv_secret_share_b_internal aes x1 1 st1 = Some (V, st2)" "bv_ok aes ole st2"
    "is_sharing 2 (Suc 0) 0 m V" "reveal_b V = x1"
    using bv_secret_share_correct(2) [OF u(2), of 1 x1] x(3) by auto
  have "bv_redistribute_shares_b aes X st = Some ((U, V), st2)"
    using u(1) v(1) by (simp add: bv_redistribute_shares_b_def x(1) share_out_2 col_def)
  moreover have "map2 (+) x0 x1 = reveal_a X" using x(1) reveal_2(1) [OF x(2,3)] by (simp add: vadd_def)
  ultimately show ?thesis using u v by blast
qed

interpretation bvd: dividing_protocol
  "beaver_2pc aes ole wan :: ('a::len, ('a, 's) beaver_state) protocol" 2 1 "bv_ok aes ole" bv_parts
  by unfold_locales
    (simp_all only: beaver_2pc_def protocol.simps One_nat_def bv_not_b_1_correct bv_redistribute_correct
      bv_b2a_correct bv_div_const_correct)

end
