(* ===== verification/Setup_Sync.thy ===== *)
theory Setup_Sync
  imports Setup Replicated_3PC_Conv Beaver_2PC_Conv
begin

text \<open>
  The set-up establishes the invariants that the protocols start from: \<open>rep3_synced\<close> for three
  parties, the two-party state, and agreement of the three holders of every key for four parties.
\<close>

definition initial_world :: "nat \<Rightarrow> keygen \<Rightarrow> (8, key) world" where
  "initial_world n keygen =
     \<lparr>mgrs = map (\<lambda>p. manager_new n p (keygen p LocalKey)) [0..<n], chan = (\<lambda>_ _. []), bytes_sent = (\<lambda>_. 0)\<rparr>"

lemma groups_created:
  assumes "keys_ok keygen" and "\<forall>g \<in> set groups. group_ok n g"
  shows "\<exists>w. create_groups n keygen (groups @ [ [0..<n] ]) (initial_world n keygen) = Some w \<and> quiet w \<and>
    tables_new n (mgrs w) \<and> groups_agree (mgrs w) \<and>
    (\<forall>p < n. common_prg_group_map (mgrs w ! p) [0..<n] = Some (GroupPRG [0..<n]) \<and>
       store (mgrs w ! p) (GroupPRG [0..<n]) = store (mgrs w ! 0) (GroupPRG [0..<n])) \<and>
    (\<forall>g \<in> set groups. \<forall>p \<in> set g. common_prg_group_map (mgrs w ! p) g = Some (GroupPRG g) \<and>
       store (mgrs w ! p) (GroupPRG g) = store (mgrs w ! hd g) (GroupPRG g))"
proof -
  let ?w = "initial_world n keygen"
  have "quiet ?w" "tables_new n (mgrs ?w)" "groups_agree (mgrs ?w)"
    by (simp_all add: initial_world_def quiet_def tables_new_def groups_agree_def manager_new_def)
  moreover have "\<forall>g \<in> set (groups @ [ [0..<n] ]). group_ok n g"
    using assms(2) by (simp add: group_ok_def strict_sorted_iff)
  ultimately obtain w where w: "create_groups n keygen (groups @ [ [0..<n] ]) ?w = Some w" "quiet w"
    "tables_new n (mgrs w)" "groups_agree (mgrs w)"
    "\<forall>g p. p \<in> set g \<longrightarrow> p < n \<longrightarrow> g \<in> set (groups @ [ [0..<n] ]) \<or> common_prg_group_map (mgrs ?w ! p) g \<noteq> None \<longrightarrow>
       common_prg_group_map (mgrs w ! p) g \<noteq> None"
    using create_groups_run [OF _ _ _ _ assms(1)] by blast
  have l: "length (mgrs w) = n" using w(3) by (simp add: tables_new_def)
  have "common_prg_group_map (mgrs w ! p) [0..<n] = Some (GroupPRG [0..<n]) \<and>
       store (mgrs w ! p) (GroupPRG [0..<n]) = store (mgrs w ! 0) (GroupPRG [0..<n])" if p: "p < n" for p
  proof -
    have "p \<in> set [0..<n]" "0 \<in> set [0..<n]" using p by simp_all
    then show ?thesis using w(4,5) p l unfolding groups_agree_def by (metis gr_implies_not0 in_set_conv_decomp
      neq0_conv)
  qed
  moreover have "common_prg_group_map (mgrs w ! p) g = Some (GroupPRG g) \<and>
       store (mgrs w ! p) (GroupPRG g) = store (mgrs w ! hd g) (GroupPRG g)" if g: "g \<in> set groups" "p \<in> set g" for g p
  proof -
    have m: "hd g \<in> set g" using g(2) by (cases g) simp_all
    have n: "p < n" "hd g < n" using assms(2) g m by (auto simp: group_ok_def)
    have "common_prg_group_map (mgrs w ! p) g \<noteq> None" using w(5) g n by auto
    then show ?thesis using w(4) g(2) m n l unfolding groups_agree_def by blast
  qed
  ultimately show ?thesis using w by blast
qed

lemma upt_small: "[0..<3] = [0, 1, 2 :: nat]" "[0..<4] = [0, 1, 2, 3 :: nat]" "[0..<2] = [0, 1 :: nat]"
  by (simp_all add: upt_rec)

lemma setup_3pc_local_eq:
  "setup_3pc_local k r 0 m = install_rel 2 r (install_rel 1 k m)"
  "setup_3pc_local k r 1 m = install_rel 1 k (install_rel 2 r m)"
  "setup_3pc_local k r 2 m = install_rel 2 r (install_rel 1 k m)"
  by (simp_all add: setup_3pc_local_def upt_small Let_def)

lemma setup_3pc_local_group [simp]:
  "common_prg_group_map (setup_3pc_local a b p m) g = common_prg_group_map m g"
  "store (setup_3pc_local a b p m) (GroupPRG g) = store m (GroupPRG g)"
  by (simp_all add: setup_3pc_local_def upt_small Let_def install_rel_def add_rel_def)

lemma setup_3pc_groups:
  assumes "keys_ok keygen" and "\<forall>g \<in> set groups. group_ok 3 g"
  shows "\<exists>w. setup_random_generation 3 keygen groups = Some w \<and> quiet w \<and> rep3_synced (mgrs w) \<and>
    (\<forall>g \<in> set groups. \<forall>p \<in> set g. common_prg_group_map (mgrs w ! p) g = Some (GroupPRG g) \<and>
       store (mgrs w ! p) (GroupPRG g) = store (mgrs w ! hd g) (GroupPRG g))"
proof -
  obtain w where w: "create_groups 3 keygen (groups @ [ [0..<3] ]) (initial_world 3 keygen) = Some w" "quiet w"
    "tables_new 3 (mgrs w)"
    "\<And>p. p < 3 \<Longrightarrow> common_prg_group_map (mgrs w ! p) [0..<3] = Some (GroupPRG [0..<3])"
    "\<And>p. p < 3 \<Longrightarrow> store (mgrs w ! p) (GroupPRG [0..<3]) = store (mgrs w ! 0) (GroupPRG [0..<3])"
    "\<And>g p. g \<in> set groups \<Longrightarrow> p \<in> set g \<Longrightarrow> common_prg_group_map (mgrs w ! p) g = Some (GroupPRG g) \<and>
       store (mgrs w ! p) (GroupPRG g) = store (mgrs w ! hd g) (GroupPRG g)"
    using groups_created [OF assms] by blast
  have "length (mgrs w) = 3" using w(3) by (simp add: tables_new_def)
  then obtain m0 m1 m2 where m: "mgrs w = [m0, m1, m2]"
    by (metis (no_types) length_0_conv length_Suc_conv numeral_3_eq_3)
  let ?k = "\<lambda>p. keygen p PairKey"
  have t: "num_parties m0 = 3" "num_parties m1 = 3" "num_parties m2 = 3" "rank m0 = 0" "rank m1 = 1" "rank m2 = 2"
    "common_prgs m0 = [Some LocalPRG, None, None]" "common_prgs m1 = [Some LocalPRG, None, None]"
    "common_prgs m2 = [Some LocalPRG, None, None]"
    using w(3) by (auto simp: tables_new_def m numeral_3_eq_3 less_Suc_eq nth_Cons')
  have g: "common_prg_group_map m0 [0, 1, 2] = Some (GroupPRG [0, 1, 2])"
    "common_prg_group_map m1 [0, 1, 2] = Some (GroupPRG [0, 1, 2])"
    "common_prg_group_map m2 [0, 1, 2] = Some (GroupPRG [0, 1, 2])"
    "store m1 (GroupPRG [0, 1, 2]) = store m0 (GroupPRG [0, 1, 2])"
    "store m2 (GroupPRG [0, 1, 2]) = store m0 (GroupPRG [0, 1, 2])"
    using w(4,5) [of 0] w(4,5) [of 1] w(4,5) [of 2] by (simp_all add: m upt_small)
  have x: "exchangeShares 3 (map ?k [0..<3]) (replicate 3 (replicate KEYBYTES 0)) 1 (- 1) w =
      Some ([?k 2, ?k 0, ?k 1], tally 3 KEYBYTES w)"
    using exchange_rotate [where n = 3 and to_id = 1 and from_id = "- 1" and m = KEYBYTES and w = w
        and sent = "map ?k [0..<3]" and bufs = "replicate 3 (replicate KEYBYTES 0)"] w(2) assms(1)
    by (simp add: keys_ok_def upt_small rank_simps)
  define n0 where "n0 = setup_3pc_local (?k 0) (?k 2) 0 m0"
  define n1 where "n1 = setup_3pc_local (?k 1) (?k 0) 1 m1"
  define n2 where "n2 = setup_3pc_local (?k 2) (?k 1) 2 m2"
  let ?w = "(tally 3 KEYBYTES w)\<lparr>mgrs := [n0, n1, n2]\<rparr>"
  have "setup_3pc_common_prgs keygen w = Some ?w"
    unfolding setup_3pc_common_prgs_def Let_def x
    by (simp add: upt_small m upd_mgr_def n0_def n1_def n2_def numeral_2_eq_2)
  then have "setup_random_generation 3 keygen groups = Some ?w"
    using w(1) unfolding setup_random_generation_def initial_world_def Let_def by simp
  moreover have "rep3_synced [n0, n1, n2]"
    using t g by (simp add: rep3_synced_def mgr3_def n0_def n1_def n2_def setup_3pc_local_eq setup_3pc_local_eq(2) [unfolded One_nat_def] install_rel_def
        add_rel_def rel_index_def)
  moreover have "quiet ?w" using w(2) by (simp add: quiet_def)
  moreover have "common_prg_group_map (mgrs ?w ! p) g = Some (GroupPRG g) \<and> store (mgrs ?w ! p) (GroupPRG g) = store (mgrs ?w ! hd g) (GroupPRG g)"
    if g: "g \<in> set groups" "p \<in> set g" for g p
  proof -
    have "hd g \<in> set g" using g(2) by (cases g) simp_all
    then have "p < 3" "hd g < 3" using assms(2) g by (auto simp: group_ok_def)
    moreover have "common_prg_group_map (mgrs ?w ! r) g = common_prg_group_map (mgrs w ! r) g \<and> store (mgrs ?w ! r) (GroupPRG g) = store (mgrs w ! r) (GroupPRG g)"
      if "r < 3" for r
      using that by (auto simp: m n0_def n1_def n2_def numeral_3_eq_3 less_Suc_eq)
    ultimately show ?thesis using w(6) [OF g] by simp
  qed
  ultimately show ?thesis by (intro exI [of _ ?w]) simp
qed

lemma setup_3pc_synced:
  assumes "keys_ok keygen" and "\<forall>g \<in> set groups. group_ok 3 g"
  shows "\<exists>w. setup_random_generation 3 keygen groups = Some w \<and> quiet w \<and> rep3_synced (mgrs w)"
  using setup_3pc_groups [OF assms] by blast

lemma setup_2pc_synced:
  assumes "keys_ok keygen" and "\<forall>g \<in> set groups. group_ok 2 g"
  shows "\<exists>w m0 m1. setup_random_generation 2 keygen groups = Some w \<and> quiet w \<and> mgrs w = [m0, m1] \<and>
    get_group m0 [] = Some LocalPRG \<and> get_group m1 [] = Some LocalPRG \<and>
    get_rel m0 1 = Some (GroupPRG [0, 1]) \<and> get_rel m1 1 = Some (GroupPRG [0, 1]) \<and>
    get_rel m0 (- 1) = Some (GroupPRG [0, 1]) \<and> get_rel m1 (- 1) = Some (GroupPRG [0, 1]) \<and>
    get_group m0 [0, 1] = Some (GroupPRG [0, 1]) \<and> get_group m1 [0, 1] = Some (GroupPRG [0, 1]) \<and>
    store m0 (GroupPRG [0, 1]) = store m1 (GroupPRG [0, 1])"
proof -
  obtain w where w: "create_groups 2 keygen (groups @ [ [0..<2] ]) (initial_world 2 keygen) = Some w" "quiet w"
    "tables_new 2 (mgrs w)"
    "\<And>p. p < 2 \<Longrightarrow> common_prg_group_map (mgrs w ! p) [0..<2] = Some (GroupPRG [0..<2])"
    "\<And>p. p < 2 \<Longrightarrow> store (mgrs w ! p) (GroupPRG [0..<2]) = store (mgrs w ! 0) (GroupPRG [0..<2])"
    using groups_created [OF assms] by blast
  have "length (mgrs w) = 2" using w(3) by (simp add: tables_new_def)
  then obtain m0 m1 where m: "mgrs w = [m0, m1]"
    by (metis (no_types) length_0_conv length_Suc_conv numeral_2_eq_2)
  have t: "num_parties m0 = 2" "num_parties m1 = 2"
    "common_prgs m0 = [Some LocalPRG, None]" "common_prgs m1 = [Some LocalPRG, None]"
    using w(3) by (auto simp: tables_new_def m numeral_2_eq_2 less_Suc_eq nth_Cons')
  have g: "common_prg_group_map m0 [0, 1] = Some (GroupPRG [0, 1])"
    "common_prg_group_map m1 [0, 1] = Some (GroupPRG [0, 1])"
    "store m1 (GroupPRG [0, 1]) = store m0 (GroupPRG [0, 1])"
    using w(4,5) [of 0] w(4,5) [of 1] by (simp_all add: m upt_small)
  let ?a = "add_rel (GroupPRG [0, 1]) 1"
  let ?w = "w\<lparr>mgrs := [?a m0, ?a m1]\<rparr>"
  have "setup_2pc_common_prgs w = Some ?w"
    using g by (simp add: setup_2pc_common_prgs_def m setup_2pc_local_def get_group_def)
  then have "setup_random_generation 2 keygen groups = Some ?w"
    using w(1) unfolding setup_random_generation_def initial_world_def Let_def by simp
  moreover have "quiet ?w" using w(2) by (simp add: quiet_def)
  ultimately show ?thesis
    using t g by (simp add: get_group_def get_rel_def add_rel_def rel_index_def)
qed

definition synced_4 :: "'s manager list \<Rightarrow> bool" where
  "synced_4 ms \<longleftrightarrow> length ms = 4 \<and> (\<forall>p < 4.
     common_prgs (ms ! p) = [Some LocalPRG, Some (RelPRG 1), Some (RelPRG 2), Some (RelPRG 3)] \<and>
     store (ms ! p) (RelPRG 1) = store (ms ! ((p + 3) mod 4)) (RelPRG 2) \<and>
     store (ms ! p) (RelPRG 1) = store (ms ! ((p + 2) mod 4)) (RelPRG 3))"

lemma less_4: "p < 4 \<longleftrightarrow> p = 0 \<or> p = 1 \<or> p = 2 \<or> p = (3 :: nat)"
  by auto

lemma setup_4pc_synced:
  assumes "keys_ok keygen" and "\<forall>g \<in> set groups. group_ok 4 g"
  shows "\<exists>w. setup_random_generation 4 keygen groups = Some w \<and> quiet w \<and> synced_4 (mgrs w)"
proof -
  obtain w where w: "create_groups 4 keygen (groups @ [ [0..<4] ]) (initial_world 4 keygen) = Some w" "quiet w"
    "tables_new 4 (mgrs w)"
    using groups_created [OF assms] by blast
  have "length (mgrs w) = 4" using w(3) by (simp add: tables_new_def)
  then obtain m0 m1 m2 m3 where m: "mgrs w = [m0, m1, m2, m3]"
    by (auto simp: length_Suc_conv eval_nat_numeral)
  have t: "num_parties m0 = 4" "num_parties m1 = 4" "num_parties m2 = 4" "num_parties m3 = 4"
    "common_prgs m0 = [Some LocalPRG, None, None, None]" "common_prgs m1 = [Some LocalPRG, None, None, None]"
    "common_prgs m2 = [Some LocalPRG, None, None, None]" "common_prgs m3 = [Some LocalPRG, None, None, None]"
    using w(3) [unfolded tables_new_def, THEN conjunct2, rule_format, of 0]
      w(3) [unfolded tables_new_def, THEN conjunct2, rule_format, of 1]
      w(3) [unfolded tables_new_def, THEN conjunct2, rule_format, of 2]
      w(3) [unfolded tables_new_def, THEN conjunct2, rule_format, of 3]
    by (simp_all add: m eval_nat_numeral)
  have ar: "abs_rank 4 0 (- 1) = 3" "abs_rank 4 0 (- 2) = 2" "abs_rank 4 0 1 = 1" "abs_rank 4 0 2 = 2"
    "abs_rank 4 1 (- 1) = 0" "abs_rank 4 1 (- 2) = 3" "abs_rank 4 1 1 = 2" "abs_rank 4 1 2 = 3"
    "abs_rank 4 2 (- 1) = 1" "abs_rank 4 2 (- 2) = 0" "abs_rank 4 2 1 = 3" "abs_rank 4 2 2 = 0"
    "abs_rank 4 3 (- 1) = 2" "abs_rank 4 3 (- 2) = 1" "abs_rank 4 3 1 = 0" "abs_rank 4 3 2 = 1"
    by (simp_all add: rank_simps)
  have k: "length (keygen p c) = KEYBYTES" for p c using assms(1) by (simp add: keys_ok_def)
  have none: "chan w x y = []" for x y using w(2) by (simp add: quiet_def)
  have "\<exists>w'. setup_4pc_common_prgs keygen w = Some w' \<and> quiet w' \<and> synced_4 (mgrs w')"
    unfolding setup_4pc_common_prgs_def schedule_4pc_def
    by (simp add: setup_4pc_step_def Let_def receiveShares_def valid_rank_geq ar ar [unfolded One_nat_def] k none upd_mgr_def m
      quiet_def synced_4_def less_4 install_rel_def add_rel_def rel_index_def t fun_eq_iff)
  then show ?thesis
    using w(1) unfolding setup_random_generation_def initial_world_def Let_def by auto
qed

end
