(* ===== verification/Vector_Views.thy ===== *)
theory Vector_Views
  imports EVector
begin

text \<open>
  Views of a \<open>Vector\<close> (\<open>core/containers/mapping_access_vector.h\<close>): a vector is a shared pointer to its
  storage and an optional list of positions.  The access patterns below build new position lists over
  the same storage, reading and writing go through them.  A view is modelled apart from the storage it
  points to, so that several views of one column can be read and assigned in turn.  Reading a position
  list beyond its end is undefined in the source and \<open>None\<close> here; sizes are below \<open>2 ^ 64\<close>.
\<close>

section \<open>Views and access\<close>

record view =
  extent :: nat
  mapping :: "nat list option"

definition base :: "nat \<Rightarrow> view" where
  "base n = \<lparr>extent = n, mapping = None\<rparr>"

definition total_size :: "view \<Rightarrow> nat" where
  "total_size v = (case mapping v of Some m \<Rightarrow> length m | None \<Rightarrow> extent v)"

definition mapped :: "view \<Rightarrow> nat \<Rightarrow> nat option" where
  "mapped v j = (case mapping v of Some m \<Rightarrow> if j < length m then Some (m ! j) else None | None \<Rightarrow> Some j)"

definition positions :: "view \<Rightarrow> nat list" where
  "positions v = (case mapping v of Some m \<Rightarrow> m | None \<Rightarrow> [0..<extent v])"

definition remapped :: "view \<Rightarrow> nat list \<Rightarrow> view option" where
  "remapped v js = do {
     m \<leftarrow> those (map (mapped v) js);
     Some (v\<lparr>mapping := Some m\<rparr>)
   }"

definition view_get :: "view \<Rightarrow> 'b list \<Rightarrow> 'b list" where
  "view_get v d = map ((!) d) (positions v)"

definition scatter :: "nat list \<Rightarrow> 'b list \<Rightarrow> 'b list \<Rightarrow> 'b list" where
  "scatter ix u d = foldl (\<lambda>d (i, x). d[i := x]) d (zip ix u)"

text \<open>Assignment \<open>view = u\<close> copies element by element into the storage; the sizes must agree.\<close>

definition view_set :: "view \<Rightarrow> 'b list \<Rightarrow> 'b list \<Rightarrow> 'b list option" where
  "view_set v u d = (if length u = total_size v then Some (scatter (positions v) u d) else None)"

section \<open>Access patterns\<close>

definition slice :: "nat \<Rightarrow> nat \<Rightarrow> view \<Rightarrow> view option" where
  "slice start stop v =
     (let n = (if stop < start then total_size v else min (stop - start) (total_size v)) in
      case mapping v of
        Some m \<Rightarrow> if start \<le> stop \<and> stop \<le> length m
          then Some (v\<lparr>mapping := Some (take (stop - start) (drop start m))\<rparr>) else None
      | None \<Rightarrow> Some (v\<lparr>mapping := Some [start..<start + n]\<rparr>))"

definition slice_from :: "nat \<Rightarrow> view \<Rightarrow> view option" where
  "slice_from start v = slice start (total_size v) v"

definition simple_subset_reference :: "nat \<Rightarrow> nat \<Rightarrow> nat \<Rightarrow> view \<Rightarrow> view option" where
  "simple_subset_reference start step stop v =
     (if step = 1 then slice start (stop + 1) v
      else if step = 0 \<or> stop < start then None
      else let n = min (total_size v) ((stop - start) div step + 1)
           in remapped v (map (\<lambda>i. start + i * step) [0..<n]))"

definition included_reference :: "'b::zero list \<Rightarrow> view \<Rightarrow> view option" where
  "included_reference flag v =
     remapped v (filter (\<lambda>fi. flag ! fi \<noteq> 0) [0..<min (total_size v) (length flag)])"

fun alternating_loop :: "nat \<Rightarrow> nat \<Rightarrow> nat \<Rightarrow> nat \<Rightarrow> nat list" where
  "alternating_loop inc chunk j rest =
     (if rest = 0 \<or> inc = 0 then []
      else map ((+) j) [0..<min inc rest] @ alternating_loop inc chunk (j + chunk) (rest - min inc rest))"

declare alternating_loop.simps [simp del]

text \<open>The excluded size \<open>-1\<close> stands for the rest of the vector.\<close>

definition alternating_subset_reference :: "nat \<Rightarrow> nat option \<Rightarrow> view \<Rightarrow> view option" where
  "alternating_subset_reference inc exc v =
     (let chunk = inc + (case exc of None \<Rightarrow> total_size v - inc | Some e \<Rightarrow> e) in
      if chunk = 0 \<or> exc = None \<and> total_size v < inc then None
      else remapped v (alternating_loop inc chunk 0
        (total_size v div chunk * inc + min inc (total_size v mod chunk))))"

definition reversed_alternating_subset_reference :: "nat \<Rightarrow> nat option \<Rightarrow> view \<Rightarrow> view option" where
  "reversed_alternating_subset_reference inc exc v =
     (let chunk = inc + (case exc of None \<Rightarrow> total_size v - inc | Some e \<Rightarrow> e) in
      if chunk = 0 \<or> exc = None \<and> total_size v < inc then None
      else let full = total_size v div chunk; lst = min inc (total_size v mod chunk)
           in remapped v (concat (map (\<lambda>c. map (\<lambda>j. c * chunk + (inc - 1) - j) [0..<inc]) [0..<full])
                @ map (\<lambda>j. total_size v - 1 - j) [0..<lst]))"

definition repeated_subset_reference :: "nat \<Rightarrow> view \<Rightarrow> view option" where
  "repeated_subset_reference r v = remapped v (concat (map (replicate r) [0..<total_size v]))"

definition repeated_chunks_reference :: "nat \<Rightarrow> nat \<Rightarrow> view \<Rightarrow> view option" where
  "repeated_chunks_reference elems r v =
     (if elems = 0 \<or> total_size v mod elems \<noteq> 0 then None
      else remapped v (concat (map (\<lambda>c. concat (replicate r (map ((+) (c * elems)) [0..<elems])))
             [0..<total_size v div elems])))"

definition cyclic_subset_reference :: "nat \<Rightarrow> view \<Rightarrow> view option" where
  "cyclic_subset_reference cycles v = remapped v (concat (replicate cycles [0..<total_size v]))"

definition directed_subset_reference :: "int \<Rightarrow> view \<Rightarrow> view option" where
  "directed_subset_reference dir v =
     (if dir = - 1 then remapped v (map (\<lambda>i. total_size v - 1 - i) [0..<total_size v]) else Some v)"

definition mapping_reference :: "nat list \<Rightarrow> view \<Rightarrow> view option" where
  "mapping_reference m v = (if mapping v = None then Some (v\<lparr>mapping := Some m\<rparr>) else None)"

definition apply_mapping :: "nat list \<Rightarrow> view \<Rightarrow> view option" where
  "apply_mapping m v = (if length m \<le> total_size v then remapped v m else None)"

section \<open>Operations on the storage behind a view\<close>

text \<open>\<open>reverse\<close> swaps the elements themselves, through the mapped iterators.\<close>

definition view_reverse :: "view \<Rightarrow> 'b list \<Rightarrow> 'b list" where
  "view_reverse v d = scatter (positions v) (rev (view_get v d)) d"

definition materialize :: "view \<Rightarrow> 'b list \<Rightarrow> view \<times> 'b list" where
  "materialize v d = (if mapping v \<noteq> None then (base (total_size v), view_get v d) else (v, d))"

definition view_resize :: "nat \<Rightarrow> view \<Rightarrow> 'b::zero list \<Rightarrow> view \<times> 'b list" where
  "view_resize n v d =
     (case mapping v of
        Some m \<Rightarrow>
          if length m < n
          then (v\<lparr>extent := length d + (n - length m), mapping := Some (m @ [length d..<length d + (n - length m)])\<rparr>,
                d @ replicate (n - length m) 0)
          else (v\<lparr>mapping := Some (take n m)\<rparr>, d)
      | None \<Rightarrow> (v\<lparr>extent := n\<rparr>, take n d @ replicate (n - length d) 0))"

definition view_tail :: "nat \<Rightarrow> view \<Rightarrow> 'b list \<Rightarrow> (view \<times> 'b list) option" where
  "view_tail n v d =
     (if total_size v < n then None
      else Some (case mapping v of
        Some m \<Rightarrow> (v\<lparr>mapping := Some (drop (total_size v - n) m)\<rparr>, d)
      | None \<Rightarrow> (v\<lparr>extent := n\<rparr>, drop (total_size v - n) d)))"

definition view_concatenate :: "'b::zero list \<Rightarrow> view \<Rightarrow> 'b list \<Rightarrow> view \<times> 'b list" where
  "view_concatenate u v d =
     (let old = total_size v; (v', d') = view_resize (old + length u) v d
      in (v', scatter (drop old (positions v')) u d'))"

definition same_as :: "'b list \<Rightarrow> 'b list \<Rightarrow> bool" where
  "same_as x y = (if length x \<noteq> length y then False else list_all2 (=) x y)"

definition starts_with :: "'b list \<Rightarrow> 'b list \<Rightarrow> bool" where
  "starts_with x p = (if length x < length p then False else list_all (\<lambda>i. x ! i = p ! i) [0..<length p])"

section \<open>Reading and writing\<close>

definition valid_view :: "view \<Rightarrow> bool" where
  "valid_view v \<longleftrightarrow> (\<forall>i \<in> set (positions v). i < extent v)"

lemma length_positions [simp]: "length (positions v) = total_size v"
  by (simp add: positions_def total_size_def split: option.splits)

lemma positions_base [simp]: "positions (base n) = [0..<n]" "total_size (base n) = n" "extent (base n) = n"
  "mapping (base n) = None"
  by (simp_all add: positions_def base_def total_size_def)

lemma valid_base [simp]: "valid_view (base n)"
  by (simp add: valid_view_def)

lemma length_view_get [simp]: "length (view_get v d) = total_size v"
  by (simp add: view_get_def)

lemma mapped_positions: "j < total_size v \<Longrightarrow> mapped v j = Some (positions v ! j)"
  by (auto simp: mapped_def positions_def total_size_def split: option.splits)

lemma those_map_Some: "\<forall>x \<in> set xs. f x = Some (g x) \<Longrightarrow> those (map f xs) = Some (map g xs)"
  by (induction xs) auto

lemma remapped_Some:
  assumes "\<forall>j \<in> set js. j < total_size v"
  shows "remapped v js = Some (v\<lparr>mapping := Some (map ((!) (positions v)) js)\<rparr>)"
  using those_map_Some [of js "mapped v" "(!) (positions v)"] assms mapped_positions
  by (simp add: remapped_def)

lemma positions_update [simp]: "positions (v\<lparr>mapping := Some m\<rparr>) = m" "total_size (v\<lparr>mapping := Some m\<rparr>) = length m"
  by (simp_all add: positions_def total_size_def)

lemma view_get_remapped:
  assumes "\<forall>j \<in> set js. j < total_size v" and "remapped v js = Some v'"
  shows "view_get v' d = map ((!) (view_get v d)) js"
  using assms by (auto simp: remapped_Some view_get_def)

lemma length_scatter [simp]: "length (scatter ix u d) = length d"
proof -
  have "length (foldl (\<lambda>d (i, x). d[i := x]) d ps) = length d" for ps
    by (induction ps arbitrary: d) auto
  then show ?thesis by (simp add: scatter_def)
qed

lemma scatter_simps [simp]: "scatter [] u d = d" "scatter ix [] d = d"
  "scatter (i # ix) (x # u) d = scatter ix u (d[i := x])"
  by (simp_all add: scatter_def)

lemma nth_scatter_other: "j \<notin> set ix \<Longrightarrow> scatter ix u d ! j = d ! j"
proof (induction ix arbitrary: u d)
  case (Cons i ix)
  then show ?case by (cases u) auto
qed simp

lemma nth_scatter:
  assumes "distinct ix" and "length u = length ix" and "k < length ix" and "\<forall>i \<in> set ix. i < length d"
  shows "scatter ix u d ! (ix ! k) = u ! k"
  using assms
proof (induction ix arbitrary: u d k)
  case (Cons i ix)
  then obtain x u' where u: "u = x # u'" by (cases u) auto
  show ?case
  proof (cases k)
    case 0
    then show ?thesis using Cons.prems u by (simp add: nth_scatter_other)
  next
    case (Suc k')
    then show ?thesis using Cons.prems u Cons.IH [of u' k' "d[i := x]"] by simp
  qed
qed simp

lemma view_set_get:
  assumes "distinct (positions v)" and "valid_view v" and "length d = extent v" and "length u = total_size v"
  shows "\<exists>d'. view_set v u d = Some d' \<and> length d' = length d \<and> view_get v d' = u \<and>
    (\<forall>j. j \<notin> set (positions v) \<longrightarrow> d' ! j = d ! j)"
proof -
  have "view_get v (scatter (positions v) u d) = u"
    using assms by (intro nth_equalityI) (auto simp: view_get_def valid_view_def nth_scatter)
  then show ?thesis using assms(4) by (auto simp: view_set_def nth_scatter_other)
qed

lemma scatter_map: "scatter ix (map f u) (map f d) = map f (scatter ix u d)"
proof (induction ix arbitrary: u d)
  case (Cons i ix)
  then show ?case by (cases u) (auto simp flip: map_update)
qed simp

section \<open>Alternating patterns\<close>

lemma alternating_loop_length: "0 < inc \<Longrightarrow> length (alternating_loop inc chunk j rest) = rest"
proof (induction inc chunk j rest rule: alternating_loop.induct)
  case (1 inc chunk j rest)
  show ?case using 1 by (subst alternating_loop.simps) auto
qed

lemma alternating_loop_nth:
  "0 < inc \<Longrightarrow> i < rest \<Longrightarrow> alternating_loop inc chunk j rest ! i = j + i div inc * chunk + i mod inc"
proof (induction inc chunk j rest arbitrary: i rule: alternating_loop.induct)
  case (1 inc chunk j rest)
  show ?case
  proof (cases "i < inc")
    case True
    then show ?thesis using 1 by (subst alternating_loop.simps) (auto simp: nth_append)
  next
    case False
    then have "alternating_loop inc chunk j rest ! i = alternating_loop inc chunk (j + chunk) (rest - inc) ! (i - inc)"
      using 1(2,3) by (subst alternating_loop.simps) (auto simp: nth_append)
    also have "\<dots> = (j + chunk) + (i - inc) div inc * chunk + (i - inc) mod inc"
      using 1(1) [of "i - inc"] 1(2,3) False by (simp add: min_def)
    also have "\<dots> = j + i div inc * chunk + i mod inc"
      using False 1(2) by (simp add: le_div_geq le_mod_geq)
    finally show ?thesis .
  qed
qed

end
