(* ===== verification/Sorting.thy ===== *)
theory Sorting
  imports Shared_Vectors Vector_Views
begin

text \<open>
  The sorting networks over secret-shared columns (\<open>core/operators/sorting.h\<close>, \<open>merge.h\<close> and
  \<open>sorting_network.h\<close>): lexicographic comparison of rows, oblivious swaps of boolean and arithmetic columns,
  \<open>bitonic_sort\<close>, \<open>bitonic_merge\<close> and \<open>pairwise_sort\<close>.  A table is a list of key columns, a list of
  arithmetic and a list of boolean data columns of the same width.  The code takes two views of every
  column and exchanges elements through them in place; here the updated columns are returned.
\<close>

section \<open>Views of shared columns\<close>

definition sh_get :: "view \<Rightarrow> 'a::len sharing \<Rightarrow> 'a sharing" where
  "sh_get v X = map (apply_return (view_get v)) X"

definition sh_set :: "view \<Rightarrow> 'a::len sharing \<Rightarrow> 'a sharing \<Rightarrow> 'a sharing" where
  "sh_set v U X = map2 (apply_input (\<lambda>d u. scatter (positions v) u d)) X U"

definition sh_reverse :: "view \<Rightarrow> 'a::len sharing \<Rightarrow> 'a sharing" where
  "sh_reverse v X = map (apply_to (view_reverse v)) X"

section \<open>Comparing and swapping rows\<close>

datatype sort_order = ASC | DESC

fun compare_rows_loop ::
  "('a::len, 'st) protocol \<Rightarrow> ('a sharing \<times> 'a sharing) list \<Rightarrow> 'a sharing \<Rightarrow> 'a sharing \<Rightarrow> 'st \<Rightarrow> ('a sharing \<times> 'st) option" where
  "compare_rows_loop P [] eq gt st = Some (gt, st)"
| "compare_rows_loop P ((x, y) # rest) eq gt st = do {
     ((new_eq, new_gt), st) \<leftarrow> sv_compare P x y st;
     (new_gt, st) \<leftarrow> v_and_b P new_gt eq st;
     let gt = xor_b gt new_gt;
     (eq, st) \<leftarrow> v_and_b P eq new_eq st;
     compare_rows_loop P rest eq gt st
   }"

definition compare_rows ::
  "('a::len, 'st) protocol \<Rightarrow> ('a sharing \<times> 'a sharing) list \<Rightarrow> 'st \<Rightarrow> ('a sharing \<times> 'st) option" where
  "compare_rows P xys st =
     (case xys of
        [] \<Rightarrow> None
      | (x, y) # rest \<Rightarrow> do {
          ((eq, gt), st) \<leftarrow> sv_compare P x y st;
          (gt, st) \<leftarrow> compare_rows_loop P rest eq gt st;
          Some (p_mask gt 1, st)
        })"

definition order_rows :: "sort_order list \<Rightarrow> ('b \<times> 'b) list \<Rightarrow> ('b \<times> 'b) list" where
  "order_rows order xys = map2 (\<lambda>d (x, y). if d = DESC then (y, x) else (x, y)) order xys"

definition compare_rows_ordered ::
  "('a::len, 'st) protocol \<Rightarrow> ('a sharing \<times> 'a sharing) list \<Rightarrow> sort_order list \<Rightarrow> 'st \<Rightarrow> ('a sharing \<times> 'st) option" where
  "compare_rows_ordered P xys order st =
     (if length order < length xys then None
      else compare_rows P (order_rows (take (length xys) order) xys) st)"

text \<open>The two views of a column depend on its size only.\<close>

type_synonym view_of = "nat \<Rightarrow> view option"

fun swap_b_loop ::
  "('a::len, 'st) protocol \<Rightarrow> view_of \<Rightarrow> view_of \<Rightarrow> 'a sharing \<Rightarrow> 'a sharing list \<Rightarrow> 'st \<Rightarrow> ('a sharing list \<times> 'st) option" where
  "swap_b_loop P lv rv bext [] st = Some ([], st)"
| "swap_b_loop P lv rv bext (c # cs) st = do {
     vx \<leftarrow> lv (sh_size c);
     vy \<leftarrow> rv (sh_size c);
     (tmp, st) \<leftarrow> v_and_b P bext (xor_b (sh_get vx c) (sh_get vy c)) st;
     let c = sh_set vx (xor_b (sh_get vx c) tmp) c;
     let c = sh_set vy (xor_b (sh_get vy c) tmp) c;
     (cs, st) \<leftarrow> swap_b_loop P lv rv bext cs st;
     Some (c # cs, st)
   }"

definition swap_b ::
  "('a::len, 'st) protocol \<Rightarrow> view_of \<Rightarrow> view_of \<Rightarrow> 'a sharing \<Rightarrow> 'a sharing list \<Rightarrow> 'st \<Rightarrow> ('a sharing list \<times> 'st) option" where
  "swap_b P lv rv bits cs st = (if cs = [] then None else swap_b_loop P lv rv (sv_extend_lsb bits) cs st)"

fun swap_a_loop ::
  "('a::len, 'st) protocol \<Rightarrow> view_of \<Rightarrow> view_of \<Rightarrow> 'a sharing \<Rightarrow> 'a sharing list \<Rightarrow> 'st \<Rightarrow> ('a sharing list \<times> 'st) option" where
  "swap_a_loop P lv rv bits [] st = Some ([], st)"
| "swap_a_loop P lv rv bits (c # cs) st = do {
     vx \<leftarrow> lv (sh_size c);
     vy \<leftarrow> rv (sh_size c);
     (tmp, st) \<leftarrow> v_multiply_a P bits (sub_a (sh_get vx c) (sh_get vy c)) st;
     let c = sh_set vx (sub_a (sh_get vx c) tmp) c;
     let c = sh_set vy (add_a (sh_get vy c) tmp) c;
     (cs, st) \<leftarrow> swap_a_loop P lv rv bits cs st;
     Some (c # cs, st)
   }"

definition swap_a ::
  "('a::len, 'st) protocol \<Rightarrow> view_of \<Rightarrow> view_of \<Rightarrow> 'a sharing \<Rightarrow> 'a sharing list \<Rightarrow> 'st \<Rightarrow> ('a sharing list \<times> 'st) option" where
  "swap_a P lv rv bits cs st = (if cs = [] then None else swap_a_loop P lv rv bits cs st)"

section \<open>One round of a network\<close>

record (overloaded) 'a shared_table =
  keys :: "'a::len sharing list"
  data_a :: "'a::len sharing list"
  data_b :: "'a::len sharing list"

definition reverse_columns :: "view_of \<Rightarrow> 'a::len sharing list \<Rightarrow> 'a sharing list option" where
  "reverse_columns rv cs = those (map (\<lambda>c. do { vy \<leftarrow> rv (sh_size c); Some (sh_reverse vy c) }) cs)"

definition column_pairs :: "view_of \<Rightarrow> view_of \<Rightarrow> 'a::len sharing list \<Rightarrow> ('a sharing \<times> 'a sharing) list option" where
  "column_pairs lv rv cs = those (map (\<lambda>c. do {
     vx \<leftarrow> lv (sh_size c);
     vy \<leftarrow> rv (sh_size c);
     Some (sh_get vx c, sh_get vy c)
   }) cs)"

definition sort_round ::
  "('a::len, 'st) protocol \<Rightarrow> view_of \<Rightarrow> view_of \<Rightarrow> bool \<Rightarrow> sort_order list \<Rightarrow> 'a shared_table \<Rightarrow> 'st
    \<Rightarrow> ('a shared_table \<times> 'st) option" where
  "sort_round P lv rv reversed order t st = do {
     ks \<leftarrow> (if reversed then reverse_columns rv (keys t) else Some (keys t));
     xys \<leftarrow> column_pairs lv rv ks;
     (bits, st) \<leftarrow> compare_rows_ordered P xys order st;
     (ks, st) \<leftarrow> swap_b P lv rv bits ks st;
     (bs, st) \<leftarrow> (if data_b t = [] then Some ([], st)
        else do {
          bs \<leftarrow> (if reversed then reverse_columns rv (data_b t) else Some (data_b t));
          swap_b P lv rv bits bs st
        });
     (as, st) \<leftarrow> (if data_a t = [] then Some ([], st)
        else do {
          (a_bits, st) \<leftarrow> sv_b2a_bit P bits st;
          as \<leftarrow> (if reversed then reverse_columns rv (data_a t) else Some (data_a t));
          swap_a P lv rv a_bits as st
        });
     Some (\<lparr>keys = ks, data_a = as, data_b = bs\<rparr>, st)
   }"

definition left_view :: "nat \<Rightarrow> view_of" where
  "left_view spacing n = alternating_subset_reference spacing (Some spacing) (base n)"

definition right_view :: "nat \<Rightarrow> view_of" where
  "right_view spacing n = do {
     v \<leftarrow> slice_from spacing (base n);
     alternating_subset_reference spacing (Some spacing) v
   }"

section \<open>The networks\<close>

fun log2_floor :: "nat \<Rightarrow> nat" where
  "log2_floor n = (if n \<le> 1 then 0 else Suc (log2_floor (n div 2)))"

declare log2_floor.simps [simp del]

definition is_power_of_two :: "nat \<Rightarrow> bool" where
  "is_power_of_two n \<longleftrightarrow> 0 < n \<and> 2 ^ log2_floor n = n"

primrec run_rounds ::
  "('a::len, 'st) protocol \<Rightarrow> (nat \<Rightarrow> view_of) \<Rightarrow> sort_order list \<Rightarrow> (nat \<times> bool) list \<Rightarrow> 'a shared_table \<Rightarrow> 'st \<Rightarrow> ('a shared_table \<times> 'st) option" where
  "run_rounds P rv order [] t st = Some (t, st)"
| "run_rounds P rv order (r # rs) t st = do {
     (t, st) \<leftarrow> sort_round P (left_view (fst r)) (rv (fst r)) (snd r) order t st;
     run_rounds P rv order rs t st
   }"

definition bitonic_rounds :: "nat \<Rightarrow> (nat \<times> bool) list" where
  "bitonic_rounds rounds = concat (map (\<lambda>i. map (\<lambda>j. (2 ^ (i - j), j = 0)) [0..<Suc i]) [0..<rounds])"

text \<open>The spacing of a round is the \<open>int\<close> shift \<open>1 << (i - j)\<close> with \<open>i\<close> up to the number of rounds minus one:
  from \<open>32\<close> rounds on it leaves the range of \<open>int\<close>, which is a failure here.\<close>

definition bitonic_sort ::
  "('a::len, 'st) protocol \<Rightarrow> 'a shared_table \<Rightarrow> sort_order list \<Rightarrow> 'st \<Rightarrow> ('a shared_table \<times> 'st) option" where
  "bitonic_sort P t order st =
     (if keys t = [] \<or> \<not> list_all (\<lambda>c. is_power_of_two (sh_size c)) (keys t) then None
      else if 31 < log2_floor (sh_size (keys t ! 0)) then None
      else run_rounds P right_view order (bitonic_rounds (log2_floor (sh_size (keys t ! 0)))) t st)"

definition bitonic_merge_reverse_second_half :: "'a::len shared_table \<Rightarrow> 'a shared_table option" where
  "bitonic_merge_reverse_second_half t =
     (let rows = sh_size (keys t ! 0); v = (\<lambda>n. slice (rows div 2) rows (base n)) in do {
        ks \<leftarrow> reverse_columns v (keys t);
        bs \<leftarrow> reverse_columns v (data_b t);
        as \<leftarrow> reverse_columns v (data_a t);
        Some \<lparr>keys = ks, data_a = as, data_b = bs\<rparr>
      })"

definition merge_right_view :: "nat \<Rightarrow> nat \<Rightarrow> view_of" where
  "merge_right_view rows distance n = do {
     v \<leftarrow> slice distance rows (base n);
     alternating_subset_reference distance (Some distance) v
   }"

definition bitonic_merge ::
  "('a::len, 'st) protocol \<Rightarrow> 'a shared_table \<Rightarrow> sort_order list \<Rightarrow> 'st \<Rightarrow> ('a shared_table \<times> 'st) option" where
  "bitonic_merge P t order st =
     (if keys t = [] \<or> \<not> list_all (\<lambda>c. is_power_of_two (sh_size c)) (keys t) then None
      else do {
        t \<leftarrow> bitonic_merge_reverse_second_half t;
        let rows = sh_size (keys t ! 0);
        run_rounds P (merge_right_view rows) order (map (\<lambda>i. (rows div 2 ^ Suc i, False)) [0..<log2_floor rows]) t st
      })"

section \<open>The pairwise network\<close>

record pairwise_round =
  start_left :: nat
  start_right :: nat
  step :: nat

function pow2_above :: "nat \<Rightarrow> nat \<Rightarrow> nat" where
  "pow2_above n a = (if a = 0 \<or> n \<le> a then a else pow2_above n (2 * a))"
  by auto
termination by (relation "measure (\<lambda>(n, a). n - a)") auto

declare pow2_above.simps [simp del]

function pw_first :: "nat \<Rightarrow> nat \<Rightarrow> nat \<Rightarrow> pairwise_round list" where
  "pw_first n p2 a =
     (if a = 0 \<or> p2 \<le> a then []
      else (if a < n then [\<lparr>start_left = 0, start_right = a, step = a\<rparr>] else []) @ pw_first n p2 (2 * a))"
  by auto
termination by (relation "measure (\<lambda>(n, p2, a). p2 - a)") auto

declare pw_first.simps [simp del]

fun pw_inner :: "nat \<Rightarrow> nat \<Rightarrow> nat \<Rightarrow> pairwise_round list" where
  "pw_inner n a d =
     (if d = 0 then []
      else (if (d + 1) * a < n then [\<lparr>start_left = a, start_right = (d + 1) * a, step = a\<rparr>] else []) @ pw_inner n a (d div 2))"

declare pw_inner.simps [simp del]

fun pw_second :: "nat \<Rightarrow> nat \<Rightarrow> nat \<Rightarrow> nat \<Rightarrow> pairwise_round list" where
  "pw_second n p2 a e = (if a = 0 \<or> p2 \<le> e then [] else pw_inner n a e @ pw_second n p2 (a div 2) (2 * e + 1))"

declare pw_second.simps [simp del]

definition pw_rounds :: "nat \<Rightarrow> pairwise_round list" where
  "pw_rounds n = (let p2 = pow2_above n 1 in pw_first n p2 1 @ pw_second n p2 (p2 div 4) 1)"

text \<open>\<open>n_pow_2\<close> is an \<open>int\<close>, and \<open>cmp.reserve\<close> forms the \<open>int\<close> product \<open>n_pow_2 * (n_pow_2 + 1)\<close>: an overflow is a
  failure here.\<close>

definition pw_comparisons :: "nat \<Rightarrow> pairwise_round list option" where
  "pw_comparisons n =
     (let p2 = pow2_above n 1 in if 2 ^ 31 \<le> p2 * (p2 + 1) then None else Some (pw_rounds n))"

definition pw_left :: "pairwise_round \<Rightarrow> view_of" where
  "pw_left r n = do {
     v \<leftarrow> slice (start_left r) (n - (start_right r - start_left r)) (base n);
     alternating_subset_reference (step r) (Some (step r)) v
   }"

definition pw_right :: "pairwise_round \<Rightarrow> view_of" where
  "pw_right r n = do {
     v \<leftarrow> slice_from (start_right r) (base n);
     alternating_subset_reference (step r) (Some (step r)) v
   }"

primrec run_pairwise ::
  "('a::len, 'st) protocol \<Rightarrow> sort_order list \<Rightarrow> pairwise_round list \<Rightarrow> 'a shared_table \<Rightarrow> 'st \<Rightarrow> ('a shared_table \<times> 'st) option" where
  "run_pairwise P order [] t st = Some (t, st)"
| "run_pairwise P order (r # rs) t st = do {
     (t, st) \<leftarrow> sort_round P (pw_left r) (pw_right r) False order t st;
     run_pairwise P order rs t st
   }"

text \<open>An empty table shifts by the bit width of \<open>0 - 1\<close>, which is undefined.\<close>

definition pairwise_sort ::
  "('a::len, 'st) protocol \<Rightarrow> 'a shared_table \<Rightarrow> sort_order list \<Rightarrow> 'st \<Rightarrow> ('a shared_table \<times> 'st) option" where
  "pairwise_sort P t order st =
     (if keys t = [] \<or> length (keys t) \<noteq> length order \<or> sh_size (keys t ! 0) = 0 then None
      else do {
        cmp \<leftarrow> pw_comparisons (sh_size (keys t ! 0));
        run_pairwise P order cmp t st
      })"

section \<open>The odd-even merge\<close>

definition compare_swap ::
  "('a::len, 'st) protocol \<Rightarrow> view \<Rightarrow> view \<Rightarrow> 'a sharing \<Rightarrow> 'st \<Rightarrow> ('a sharing \<times> 'st) option" where
  "compare_swap P vx vy v st = do {
     let x = sh_get vx v;
     let y = sh_get vy v;
     (comparisons, st) \<leftarrow> b_ge P x y st;
     (temp, st) \<leftarrow> multiplex_b P comparisons x y st;
     (y, st) \<leftarrow> multiplex_b P comparisons y x st;
     Some (sh_set vx temp (sh_set vy y v), st)
   }"

fun odd_even_loop ::
  "('a::len, 'st) protocol \<Rightarrow> nat \<Rightarrow> 'a sharing \<Rightarrow> 'st \<Rightarrow> ('a sharing \<times> 'st) option" where
  "odd_even_loop P d v st =
     (if d = 0 then Some (v, st)
      else let n = sh_size v in do {
        c3 \<leftarrow> slice d (n - d) (base n);
        c3 \<leftarrow> alternating_subset_reference d (Some d) c3;
        c4 \<leftarrow> slice (d * 2) n (base n);
        c4 \<leftarrow> alternating_subset_reference d (Some d) c4;
        (v, st) \<leftarrow> compare_swap P c3 c4 v st;
        odd_even_loop P (d div 2) v st
      })"

declare odd_even_loop.simps [simp del]

definition odd_even_merge :: "('a::len, 'st) protocol \<Rightarrow> 'a sharing \<Rightarrow> 'st \<Rightarrow> ('a sharing \<times> 'st) option" where
  "odd_even_merge P v st =
     (let n = sh_size v; d = n div 2 in do {
        c1 \<leftarrow> slice 0 (n - d) (base n);
        c2 \<leftarrow> slice (n - d) n (base n);
        (v, st) \<leftarrow> compare_swap P c1 c2 v st;
        odd_even_loop P (n div 4) v st
      })"

end
