(* ===== verification/Sorting_Network.thy ===== *)
theory Sorting_Network
  imports Main "HOL-Library.Multiset"
begin

text \<open>
  The plaintext network behind \<open>bitonic_sort\<close> and \<open>bitonic_merge\<close>: half cleaners at distance \<open>s\<close> over
  lists of rows that are compared by a key of a linear order.  Sortedness is proved by the zero-one
  principle: a half cleaner commutes with monotone maps, so it is enough to sort lists of truth values,
  where a bitonic block is an interval of one value.
\<close>

section \<open>The network\<close>

definition clean_rows :: "('r \<Rightarrow> 'r \<Rightarrow> bool) \<Rightarrow> nat \<Rightarrow> 'r list \<Rightarrow> 'r list" where
  "clean_rows gt s R = map (\<lambda>i. if even (i div s)
      then (if gt (R ! i) (R ! (i + s)) then R ! (i + s) else R ! i)
      else (if gt (R ! (i - s)) (R ! i) then R ! (i - s) else R ! i)) [0..<length R]"

definition flip_rows :: "nat \<Rightarrow> 'r list \<Rightarrow> 'r list" where
  "flip_rows s R = map (\<lambda>i. if even (i div s) then R ! i else R ! (length R - 1 + s - i)) [0..<length R]"

primrec clean_all :: "('r \<Rightarrow> 'r \<Rightarrow> bool) \<Rightarrow> nat \<Rightarrow> 'r list \<Rightarrow> 'r list" where
  "clean_all gt 0 R = clean_rows gt 1 R"
| "clean_all gt (Suc i) R = clean_all gt i (clean_rows gt (2 ^ Suc i) R)"

primrec bitonic_rows :: "('r \<Rightarrow> 'r \<Rightarrow> bool) \<Rightarrow> nat \<Rightarrow> 'r list \<Rightarrow> 'r list" where
  "bitonic_rows gt 0 R = R"
| "bitonic_rows gt (Suc i) R = clean_all gt i (flip_rows (2 ^ i) (bitonic_rows gt i R))"

lemma length_network [simp]:
  "length (clean_rows gt s R) = length R" "length (flip_rows s R) = length R"
  by (simp_all add: clean_rows_def flip_rows_def)

lemma length_clean_all [simp]: "length (clean_all gt i R) = length R"
  by (induction i arbitrary: R) simp_all

lemma length_bitonic_rows [simp]: "length (bitonic_rows gt i R) = length R"
  by (induction i) simp_all

section \<open>Blocks\<close>

lemma block_step:
  assumes "(2 * s) dvd n" and "i < n" and "0 < s"
  shows "even (i div s) \<Longrightarrow> i + s < (n :: nat)" and "odd (i div s) \<Longrightarrow> s \<le> i"
    and "even (i div s) \<Longrightarrow> (i + s) div s = Suc (i div s)" and "odd (i div s) \<Longrightarrow> (i - s) div s = i div s - 1"
    and "even (i div s) \<Longrightarrow> (i + s) div (2 * s) = i div (2 * s)"
    and "odd (i div s) \<Longrightarrow> (i - s) div (2 * s) = i div (2 * s)"
proof -
  obtain c where c: "n = 2 * s * c" using assms(1) by blast
  have e: "i = s * (i div s) + i mod s" by simp
  have m: "i mod s < s" using assms(3) by simp
  show le: "s \<le> i" if "odd (i div s)"
  proof (rule ccontr)
    assume "\<not> s \<le> i"
    then show False using that by simp
  qed
  show u: "(i + s) div s = Suc (i div s)" using assms(3) by (simp add: div_add_self2)
  show d: "(i - s) div s = i div s - 1" if "odd (i div s)" using le [OF that] assms(3) by (simp add: le_div_geq)
  show "i + s < n" if ev: "even (i div s)"
  proof -
    obtain h where h: "i div s = 2 * h" using ev by blast
    have "s * (2 * h) < 2 * s * c" using assms(2) c e h by (metis le_add1 order_le_less_trans)
    then have "h < c" using assms(3) by simp
    then have "2 * s * Suc h \<le> 2 * s * c" by (intro mult_le_mono2) simp
    then have "2 * s * h + 2 * s \<le> n" using c by simp
    moreover have "s * (i div s) = 2 * s * h" by (simp add: h)
    then have "i < 2 * s * h + s" using e m by linarith
    ultimately show ?thesis using assms(3) by simp
  qed
  show "(i + s) div (2 * s) = i div (2 * s)" if "even (i div s)"
    using that u by (simp add: div_mult2_eq mult.commute [of 2])
  show "(i - s) div (2 * s) = i div (2 * s)" if "odd (i div s)"
    using that d [OF that] by (auto simp: div_mult2_eq mult.commute [of 2] elim!: oddE)
qed

section \<open>Monotone maps and the zero-one principle\<close>

abbreviation key_gt :: "('r \<Rightarrow> 'k::linorder) \<Rightarrow> 'r \<Rightarrow> 'r \<Rightarrow> bool" where
  "key_gt key x y \<equiv> key y < key x"

lemma map_clean_rows:
  assumes "(2 * s) dvd length R" and "0 < s" and "\<And>x y. f (if gt x y then y else x) = (if gt' (f x) (f y) then f y else f x)"
    and "\<And>x y. f (if gt x y then x else y) = (if gt' (f x) (f y) then f x else f y)"
  shows "map f (clean_rows gt s R) = clean_rows gt' s (map f R)"
proof (rule nth_equalityI)
  fix i assume "i < length (map f (clean_rows gt s R))"
  then have i: "i < length R" by simp
  show "map f (clean_rows gt s R) ! i = clean_rows gt' s (map f R) ! i"
  proof (cases "even (i div s)")
    case True
    then show ?thesis using i block_step(1) [OF assms(1) i assms(2)] assms(3) [of "R ! i" "R ! (i + s)"]
      by (simp add: clean_rows_def)
  next
    case False
    then show ?thesis using i block_step(2) [OF assms(1) i assms(2)] assms(4) [of "R ! (i - s)" "R ! i"]
      by (simp add: clean_rows_def less_imp_diff_less)
  qed
qed simp

lemma map_flip_rows:
  assumes "(2 * s) dvd length R" and "0 < s"
  shows "map f (flip_rows s R) = flip_rows s (map f R)"
proof (rule nth_equalityI)
  fix i assume "i < length (map f (flip_rows s R))"
  then have i: "i < length R" by simp
  have "odd (i div s) \<Longrightarrow> length R - 1 + s - i < length R" using i block_step(2) [OF assms(1) i assms(2)] by linarith
  then show "map f (flip_rows s R) ! i = flip_rows s (map f R) ! i" using i by (simp add: flip_rows_def)
qed simp

lemma map_clean_all:
  assumes "2 ^ Suc i dvd length R" and "\<And>x y. f (if gt x y then y else x) = (if gt' (f x) (f y) then f y else f x)"
    and "\<And>x y. f (if gt x y then x else y) = (if gt' (f x) (f y) then f x else f y)"
  shows "map f (clean_all gt i R) = clean_all gt' i (map f R)"
  using assms(1)
proof (induction i arbitrary: R)
  case 0
  then show ?case using map_clean_rows [of 1 R f gt gt'] assms(2,3) by simp
next
  case (Suc i)
  have "(2 :: nat) ^ Suc i dvd 2 ^ Suc (Suc i)" by (rule le_imp_power_dvd) simp
  then have "2 ^ Suc i dvd length (clean_rows gt (2 ^ Suc i) R)" using Suc.prems dvd_trans by auto
  then show ?case using Suc.IH Suc.prems map_clean_rows [of "2 ^ Suc i" R f gt gt'] assms(2,3) by simp
qed

lemma map_bitonic_rows:
  assumes "2 ^ r dvd length R" and "\<And>x y. f (if gt x y then y else x) = (if gt' (f x) (f y) then f y else f x)"
    and "\<And>x y. f (if gt x y then x else y) = (if gt' (f x) (f y) then f x else f y)"
  shows "map f (bitonic_rows gt r R) = bitonic_rows gt' r (map f R)"
  using assms(1)
proof (induction r)
  case (Suc r)
  have "(2 :: nat) ^ r dvd 2 ^ Suc r" by (rule le_imp_power_dvd) simp
  then have "2 ^ r dvd length R" using Suc.prems dvd_trans by blast
  then show ?case
    using Suc map_clean_all [of r "flip_rows (2 ^ r) (bitonic_rows gt r R)" f gt gt'] assms(2,3)
      map_flip_rows [of "2 ^ r" "bitonic_rows gt r R" f] by simp
qed simp

lemma zero_one:
  assumes "\<And>t. sorted (map (\<lambda>z. t < z) zs)"
  shows "sorted (zs :: 'k::linorder list)"
proof (rule ccontr)
  assume "\<not> sorted zs"
  then obtain i j where ij: "i \<le> j" "j < length zs" "zs ! j < zs ! i" by (auto simp: sorted_iff_nth_mono)
  have "map (\<lambda>z. zs ! j < z) zs ! i \<le> map (\<lambda>z. zs ! j < z) zs ! j"
    using assms [of "zs ! j"] ij by (intro sorted_nth_mono) simp_all
  then show False using ij by simp
qed

section \<open>Bitonic blocks of truth values\<close>

definition bitonic :: "(nat \<Rightarrow> bool) \<Rightarrow> nat \<Rightarrow> bool" where
  "bitonic f n \<longleftrightarrow> (\<exists>l u b. \<forall>t < n. f t = (if l \<le> t \<and> t < u then b else \<not> b))"

lemma bitonic_notI: "bitonic f n \<Longrightarrow> bitonic (\<lambda>t. \<not> f t) n"
  unfolding bitonic_def
proof (elim exE)
  fix l u b assume "\<forall>t < n. f t = (if l \<le> t \<and> t < u then b else \<not> b)"
  then show "\<exists>l u b. \<forall>t < n. (\<not> f t) = (if l \<le> t \<and> t < u then b else \<not> b)"
    by (intro exI [of _ l] exI [of _ u] exI [of _ "\<not> b"]) auto
qed

lemma bitonic_not: "bitonic f n \<longleftrightarrow> bitonic (\<lambda>t. \<not> f t) n"
  using bitonic_notI [of f n] bitonic_notI [of "\<lambda>t. \<not> f t" n] by auto

lemma bitonic_halves_True:
  assumes "\<And>t. t < 2 * d \<Longrightarrow> f t = (l \<le> t \<and> t < u)"
  shows "bitonic (\<lambda>t. f t \<and> f (t + d)) d \<and> bitonic (\<lambda>t. f t \<or> f (t + d)) d \<and>
    ((\<forall>t < d. \<not> (f t \<and> f (t + d))) \<or> (\<forall>t < d. f t \<or> f (t + d)))"
proof (intro conjI)
  have f: "f t = (l \<le> t \<and> t < u)" "f (t + d) = (l \<le> t + d \<and> t + d < u)" if "t < d" for t
    using assms [of t] assms [of "t + d"] that by simp_all
  show "bitonic (\<lambda>t. f t \<and> f (t + d)) d" unfolding bitonic_def
    by (rule exI [of _ l], rule exI [of _ "u - d"], rule exI [of _ True]) (auto simp: f)
  show "bitonic (\<lambda>t. f t \<or> f (t + d)) d"
  proof (cases "l < d \<and> d < u")
    case True
    then show ?thesis unfolding bitonic_def
      by (intro exI [of _ "u - d"] exI [of _ l] exI [of _ False]) (auto simp: f)
  next
    case False
    then have "l \<ge> d \<or> u \<le> d" by auto
    then show ?thesis
    proof
      assume "d \<le> l"
      then show ?thesis unfolding bitonic_def
        by (intro exI [of _ "l - d"] exI [of _ "u - d"] exI [of _ True]) (auto simp: f)
    next
      assume "u \<le> d"
      then show ?thesis unfolding bitonic_def
        by (intro exI [of _ l] exI [of _ u] exI [of _ True]) (auto simp: f)
    qed
  qed
  show "(\<forall>t < d. \<not> (f t \<and> f (t + d))) \<or> (\<forall>t < d. f t \<or> f (t + d))"
  proof (cases "u \<le> l + d")
    case True
    then show ?thesis by (auto simp: f)
  next
    case False
    then have "f t \<or> f (t + d)" if "t < d" "l < d" for t using that by (auto simp: f)
    moreover have "\<not> f t" if "t < d" "d \<le> l" for t using that by (simp add: f)
    ultimately show ?thesis by (meson not_less)
  qed
qed

lemma bitonic_halves:
  assumes "bitonic f (2 * d)"
  shows "bitonic (\<lambda>t. f t \<and> f (t + d)) d" and "bitonic (\<lambda>t. f t \<or> f (t + d)) d"
    and "(\<forall>t < d. \<not> (f t \<and> f (t + d))) \<or> (\<forall>t < d. f t \<or> f (t + d))"
proof -
  obtain l u b where f: "\<And>t. t < 2 * d \<Longrightarrow> f t = (if l \<le> t \<and> t < u then b else \<not> b)"
    using assms unfolding bitonic_def by blast
  have "bitonic (\<lambda>t. f t \<and> f (t + d)) d \<and> bitonic (\<lambda>t. f t \<or> f (t + d)) d \<and>
    ((\<forall>t < d. \<not> (f t \<and> f (t + d))) \<or> (\<forall>t < d. f t \<or> f (t + d)))"
  proof (cases b)
    case True
    then show ?thesis using f by (intro bitonic_halves_True [of d f l u]) simp
  next
    case False
    have "bitonic (\<lambda>t. \<not> f t \<and> \<not> f (t + d)) d \<and> bitonic (\<lambda>t. \<not> f t \<or> \<not> f (t + d)) d \<and>
      ((\<forall>t < d. \<not> (\<not> f t \<and> \<not> f (t + d))) \<or> (\<forall>t < d. \<not> f t \<or> \<not> f (t + d)))"
      using f False by (intro bitonic_halves_True [of d "\<lambda>t. \<not> f t" l u]) simp
    then show ?thesis
      unfolding bitonic_not [of "\<lambda>t. f t \<and> f (t + d)"] bitonic_not [of "\<lambda>t. f t \<or> f (t + d)"] by auto
  qed
  then show "bitonic (\<lambda>t. f t \<and> f (t + d)) d" "bitonic (\<lambda>t. f t \<or> f (t + d)) d"
    "(\<forall>t < d. \<not> (f t \<and> f (t + d))) \<or> (\<forall>t < d. f t \<or> f (t + d))" by blast+
qed

section \<open>Sorting truth values\<close>

definition gt01 :: "bool \<Rightarrow> bool \<Rightarrow> bool" where
  "gt01 x y \<longleftrightarrow> x \<and> \<not> y"

definition blocks_ok :: "nat \<Rightarrow> nat \<Rightarrow> bool list \<Rightarrow> bool" where
  "blocks_ok B s v \<longleftrightarrow>
     (\<forall>a. s dvd a \<longrightarrow> a < length v \<longrightarrow> bitonic (\<lambda>t. v ! (a + t)) s) \<and>
     (\<forall>i j. i < length v \<longrightarrow> j < length v \<longrightarrow> i div B = j div B \<longrightarrow> i div s < j div s \<longrightarrow> v ! i \<longrightarrow> v ! j)"

lemma nth_clean01:
  assumes "i < length v"
  shows "clean_rows gt01 s v ! i = (if even (i div s) then v ! i \<and> v ! (i + s) else v ! (i - s) \<or> v ! i)"
  using assms by (auto simp: clean_rows_def gt01_def)

lemma blocks_step:
  assumes "blocks_ok B (2 * s) v" and "(2 * s) dvd length v" and "0 < s" and "(2 * s) dvd B"
  shows "blocks_ok B s (clean_rows gt01 s v)"
proof -
  let ?w = "clean_rows gt01 s v"
  have bit: "bitonic (\<lambda>t. v ! (a + t)) (2 * s)" if "2 * s dvd a" "a < length v" for a
    using assms(1) that by (simp add: blocks_ok_def)
  have mono: "v ! i \<Longrightarrow> v ! j" if "i < length v" "j < length v" "i div B = j div B" "i div (2 * s) < j div (2 * s)" for i j
    using assms(1) that by (simp add: blocks_ok_def)
  have room: "a + 2 * s \<le> length v" if "2 * s dvd a" "a < length v" for a
  proof -
    obtain c e where "length v = 2 * s * c" "a = 2 * s * e" using \<open>2 * s dvd a\<close> assms(2) by (elim dvdE) blast
    moreover from this that(2) assms(3) have "Suc e \<le> c" by simp
    then have "2 * s * Suc e \<le> 2 * s * c" by (rule mult_le_mono2)
    ultimately show ?thesis by simp
  qed
  have low: "?w ! (a + t) = (v ! (a + t) \<and> v ! (a + t + s))" and high: "?w ! (a + s + t) = (v ! (a + t) \<or> v ! (a + t + s))"
    if "2 * s dvd a" "a < length v" "t < s" for a t
  proof -
    obtain e where "a = 2 * s * e" using \<open>2 * s dvd a\<close> by (elim dvdE)
    then have e: "a = s * (2 * e)" by simp
    have "a + t = t + s * (2 * e)" "a + s + t = t + s * Suc (2 * e)" by (simp_all add: e)
    then have "(a + t) div s = 2 * e" "(a + s + t) div s = Suc (2 * e)"
      using that(3) by (simp_all only: div_mult_self2) simp_all
    moreover have "a + t < length v" "a + s + t < length v" using room [OF that(1,2)] that(3) by simp_all
    moreover have "a + t + s = a + s + t" by simp
    ultimately show "?w ! (a + t) = (v ! (a + t) \<and> v ! (a + t + s))" "?w ! (a + s + t) = (v ! (a + t) \<or> v ! (a + t + s))"
      by (simp_all only: nth_clean01) (simp_all add: add.commute add.left_commute)
  qed
  have same_super: "x div B = y div B" if "x div (2 * s) = y div (2 * s)" for x y
  proof -
    obtain c where "B = 2 * s * c" using assms(4) by blast
    then show ?thesis using that by (simp add: div_mult2_eq)
  qed
  note halves = bitonic_halves [OF bit, unfolded add.assoc [symmetric]]
  have "bitonic (\<lambda>t. ?w ! (c + t)) s" if c: "s dvd c" "c < length v" for c
  proof -
    obtain h where h: "c = s * h" using c(1) by blast
    show ?thesis
    proof (cases "even h")
      case True
      then have a: "2 * s dvd c" using h by (auto elim!: evenE)
      show ?thesis using halves(1) [OF a c(2)] low [OF a c(2)] by (simp add: bitonic_def cong: all_cong)
    next
      case False
      then obtain e where e: "h = 2 * e + 1" by (elim oddE)
      then have a: "2 * s dvd 2 * s * e" "2 * s * e < length v" "c = 2 * s * e + s" using h c(2) by (simp_all add: algebra_simps)
      show ?thesis using halves(2) [OF a(1,2)] high [OF a(1,2)] unfolding a(3) by (simp add: bitonic_def cong: all_cong)
    qed
  qed
  moreover have "?w ! j" if ij: "i < length v" "j < length v" "i div B = j div B" "i div s < j div s" "?w ! i" for i j
  proof (cases "i div (2 * s) < j div (2 * s)")
    case True
    note bi = block_step [OF assms(2) ij(1) assms(3)] and bj = block_step [OF assms(2) ij(2) assms(3)]
    obtain i' where i': "v ! i'" "i' div (2 * s) = i div (2 * s)" "i' < length v"
    proof (cases "v ! i")
      case False
      then have o: "odd (i div s)" "v ! (i - s)" using ij(1,5) by (auto simp: nth_clean01 split: if_splits)
      then show ?thesis using that [of "i - s"] bi(6) ij(1) by (simp add: less_imp_diff_less)
    qed (use that ij(1) in blast)
    have all: "v ! j'" if "j' < length v" "j' div (2 * s) = j div (2 * s)" for j'
      using mono [OF i'(3) that(1)] i' True that(2) same_super [OF i'(2)] same_super [OF that(2)] ij(3) by simp
    show ?thesis using all [of j] all [of "j + s"] all [of "j - s"] bj ij(2) by (simp add: nth_clean01)
  next
    case False
    have q: "i div s div 2 = i div (2 * s)" "j div s div 2 = j div (2 * s)" by (simp_all add: div_mult2_eq mult.commute [of 2])
    then have eq: "i div (2 * s) = j div (2 * s)" using False ij(4) div_le_mono [of "i div s" "j div s" 2] by linarith
    define e where "e = i div (2 * s)"
    have aux: "x = 2 * e \<and> y = 2 * e + 1" if "x div 2 = e" "y div 2 = e" "x < y" for x y :: nat
      using that by linarith
    have d: "i div s = 2 * e" "j div s = 2 * e + 1" using aux [of "i div s" "j div s"] q eq ij(4) e_def by simp_all
    have i: "i = 2 * s * e + i mod s" and j: "j = 2 * s * e + s + j mod s"
      using d mult_div_mod_eq [of s i] mult_div_mod_eq [of s j] by (simp_all add: algebra_simps)
    have a: "2 * s dvd 2 * s * e" "2 * s * e < length v" "i mod s < s" "j mod s < s" using i ij(1) assms(3) by auto
    have "v ! (2 * s * e + i mod s) \<and> v ! (2 * s * e + i mod s + s)" using low [OF a(1-3)] ij(5) i by simp
    then have "\<forall>t < s. v ! (2 * s * e + t) \<or> v ! (2 * s * e + t + s)" using halves(3) [OF a(1,2)] a(3) by blast
    then show ?thesis using high [OF a(1,2,4)] a(4) j by simp
  qed
  ultimately show ?thesis by (simp add: blocks_ok_def)
qed

lemma clean_all01:
  assumes "blocks_ok B (2 ^ Suc i) v" and "2 ^ Suc i dvd length v" and "2 ^ Suc i dvd B"
  shows "blocks_ok B 1 (clean_all gt01 i v)"
  using assms
proof (induction i arbitrary: v)
  case 0
  then show ?case using blocks_step [of B 1 v] by simp
next
  case (Suc i)
  have d: "(2 :: nat) ^ Suc i dvd 2 ^ Suc (Suc i)" by (rule le_imp_power_dvd) simp
  have "blocks_ok B (2 ^ Suc i) (clean_rows gt01 (2 ^ Suc i) v)"
    using Suc.prems unfolding power_Suc [of 2 "Suc i"] by (intro blocks_step) simp_all
  then show ?case using Suc.IH [of "clean_rows gt01 (2 ^ Suc i) v"] Suc.prems(2,3) dvd_trans [OF d] by simp
qed

definition blocks_sorted :: "nat \<Rightarrow> bool list \<Rightarrow> bool" where
  "blocks_sorted B v \<longleftrightarrow> (\<forall>i j. i \<le> j \<longrightarrow> j < length v \<longrightarrow> i div B = j div B \<longrightarrow> v ! i \<longrightarrow> v ! j)"

lemma blocks_ok_1:
  assumes "blocks_ok B 1 v"
  shows "blocks_sorted B v"
  unfolding blocks_sorted_def
proof (intro allI impI)
  fix i j assume a: "i \<le> j" "j < length v" "i div B = j div B" "v ! i"
  show "v ! j"
  proof (cases "i = j")
    case False
    then have "i < j" "i < length v" using a by simp_all
    then show ?thesis using assms [unfolded blocks_ok_def, THEN conjunct2, rule_format, of i j] a by simp
  qed (use a in simp)
qed

lemma threshold:
  assumes "\<And>i j. i \<le> j \<Longrightarrow> j < n \<Longrightarrow> f i \<Longrightarrow> f j"
  shows "\<exists>l \<le> n. \<forall>t < n. f t = (l \<le> (t :: nat))"
  using assms
proof (induction n)
  case (Suc n)
  then obtain l where l: "l \<le> n" "\<forall>t < n. f t = (l \<le> t)" by (metis less_Suc_eq)
  show ?case
  proof (cases "f n")
    case True
    then show ?thesis using l by (intro exI [of _ l]) (auto simp: less_Suc_eq)
  next
    case False
    then have "\<not> f t" if "t < n" for t using Suc.prems [of t n] that by auto
    then show ?thesis using False by (intro exI [of _ "Suc n"]) (auto simp: less_Suc_eq)
  qed
qed simp

text \<open>An ascending block followed by the reversal of an ascending block is bitonic.\<close>

lemma bitonic_mountain:
  assumes "\<And>i j. i \<le> j \<Longrightarrow> j < d \<Longrightarrow> f i \<Longrightarrow> f j" and "\<And>i j. i \<le> j \<Longrightarrow> j < d \<Longrightarrow> g i \<Longrightarrow> g j"
    and "\<And>t. t < d \<Longrightarrow> h t = f t" and "\<And>t. t < d \<Longrightarrow> h (d + t) = g (d - 1 - t)"
  shows "bitonic h (2 * d)"
proof -
  obtain l where l: "l \<le> d" "\<forall>t < d. f t = (l \<le> t)" using threshold [of d f] assms(1) by blast
  obtain m where m: "m \<le> d" "\<forall>t < d. g t = (m \<le> t)" using threshold [of d g] assms(2) by blast
  have "h t = (l \<le> t \<and> t < 2 * d - m)" if t: "t < 2 * d" for t
  proof (cases "t < d")
    case True
    then show ?thesis using assms(3) l m(1) by auto
  next
    case False
    then have "h t = g (d - 1 - (t - d))" using assms(4) [of "t - d"] t by simp
    also have "\<dots> = (m \<le> d - 1 - (t - d))" using m(2) t False by auto
    also have "\<dots> = (l \<le> t \<and> t < 2 * d - m)" using False t l(1) by auto
    finally show ?thesis .
  qed
  then show ?thesis unfolding bitonic_def by (intro exI [of _ l] exI [of _ "2 * d - m"] exI [of _ True]) simp
qed

lemma flip_blocks:
  assumes "blocks_sorted s v" and "(2 * s) dvd length v" and "0 < s"
  shows "blocks_ok (2 * s) (2 * s) (flip_rows s v)"
proof -
  let ?w = "flip_rows s v"
  have "bitonic (\<lambda>t. ?w ! (a + t)) (2 * s)" if a: "2 * s dvd a" "a < length v" for a
  proof -
    obtain c where c: "length v = 2 * s * c" using assms(2) by blast
    obtain e where e: "a = 2 * s * e" using a(1) by blast
    have ec: "Suc e \<le> c" using a(2) c e assms(3) by simp
    define b where "b = 2 * s * (c - Suc e) + s"
    have len: "length v = a + 2 * s + 2 * s * (c - Suc e)"
    proof -
      have "2 * s * c = 2 * s * (Suc e + (c - Suc e))" using ec by simp
      then show ?thesis unfolding c e by (simp only: distrib_left) simp
    qed
    have d: "(a + t) div s = 2 * e" "(a + (s + t)) div s = 2 * e + 1" if "t < s" for t
    proof -
      have "a + t = t + s * (2 * e)" "a + (s + t) = t + s * (2 * e + 1)" by (simp_all add: e algebra_simps)
      then show "(a + t) div s = 2 * e" "(a + (s + t)) div s = 2 * e + 1" using that by (simp_all only: div_mult_self2) simp_all
    qed
    have bd: "(b + t) div s = b div s" "(a + t) div s = a div s" if "t < s" for t
    proof -
      have "b = s * (2 * (c - Suc e) + 1)" "a = s * (2 * e)" by (simp_all add: b_def e algebra_simps)
      then obtain x y where "b = s * x" "a = s * y" by blast
      then show "(b + t) div s = b div s" "(a + t) div s = a div s" using that by simp_all
    qed
    show ?thesis
    proof (rule bitonic_mountain [where f = "\<lambda>t. v ! (a + t)" and g = "\<lambda>t. v ! (b + t)"])
      show "v ! (a + j)" if "i \<le> j" "j < s" "v ! (a + i)" for i j
        using assms(1) [unfolded blocks_sorted_def, rule_format, of "a + i" "a + j"] that bd [of i] bd [of j] len by simp
      show "v ! (b + j)" if "i \<le> j" "j < s" "v ! (b + i)" for i j
        using assms(1) [unfolded blocks_sorted_def, rule_format, of "b + i" "b + j"] that bd [of i] bd [of j] len
        by (simp add: b_def)
      show "?w ! (a + t) = v ! (a + t)" if "t < s" for t
        using that d(1) [of t] len by (simp add: flip_rows_def)
      show "?w ! (a + (s + t)) = v ! (b + (s - 1 - t))" if "t < s" for t
      proof -
        have "length v - 1 + s - (a + (s + t)) = b + (s - 1 - t)" using that len by (simp add: b_def)
        then show ?thesis using that d(2) [of t] len by (simp add: flip_rows_def)
      qed
    qed
  qed
  then show ?thesis by (simp add: blocks_ok_def)
qed

lemma bitonic01:
  assumes "2 ^ r dvd length v"
  shows "blocks_sorted (2 ^ r) (bitonic_rows gt01 r v)"
  using assms
proof (induction r)
  case 0
  then show ?case by (simp add: blocks_sorted_def)
next
  case (Suc r)
  have "(2 :: nat) ^ r dvd 2 ^ Suc r" by (rule le_imp_power_dvd) simp
  then have IH: "blocks_sorted (2 ^ r) (bitonic_rows gt01 r v)" using Suc dvd_trans by blast
  have "blocks_ok (2 ^ Suc r) (2 ^ Suc r) (flip_rows (2 ^ r) (bitonic_rows gt01 r v))"
    using flip_blocks [OF IH] Suc.prems by simp
  then show ?case using clean_all01 [of "2 ^ Suc r" r] Suc.prems by (intro blocks_ok_1) simp
qed

section \<open>Sorting rows\<close>

lemma key_gt_map:
  fixes key :: "'r \<Rightarrow> 'k::linorder"
  shows "(t < key (if key_gt key x y then y else x)) = (if gt01 (t < key x) (t < key y) then t < key y else t < key x)"
    and "(t < key (if key_gt key x y then x else y)) = (if gt01 (t < key x) (t < key y) then t < key x else t < key y)"
  by (auto simp: gt01_def)

lemma blocks_sorted_all: "blocks_sorted (length v) v \<Longrightarrow> sorted v"
  by (auto simp: blocks_sorted_def sorted_iff_nth_mono)

lemma bitonic_rows_sorted:
  fixes key :: "'r \<Rightarrow> 'k::linorder"
  assumes "length R = 2 ^ r"
  shows "sorted (map key (bitonic_rows (key_gt key) r R))"
proof (rule zero_one)
  fix t
  have "map (\<lambda>z. t < z) (map key (bitonic_rows (key_gt key) r R)) = bitonic_rows gt01 r (map (\<lambda>x. t < key x) R)"
    using map_bitonic_rows [of r R "\<lambda>x. t < key x" "key_gt key" gt01, OF _ key_gt_map] assms by (simp add: comp_def)
  then show "sorted (map (\<lambda>z. t < z) (map key (bitonic_rows (key_gt key) r R)))"
    using bitonic01 [of r "map (\<lambda>x. t < key x) R"] assms
    by (simp add: blocks_sorted_all)
qed

lemma merge_rows_sorted:
  fixes key :: "'r \<Rightarrow> 'k::linorder"
  assumes "length R = 2 ^ Suc r" and "sorted (map key (take (2 ^ r) R))" and "sorted (map key (drop (2 ^ r) R))"
  shows "sorted (map key (clean_all (key_gt key) r (flip_rows (2 ^ r) R)))"
proof (rule zero_one)
  fix t
  let ?v = "map (\<lambda>x. t < key x) R"
  have halves: "key (R ! i) \<le> key (R ! j)" if "i \<le> j" "j < 2 ^ Suc r" "i div 2 ^ r = j div 2 ^ r" for i j
  proof (cases "j < 2 ^ r")
    case True
    then show ?thesis using sorted_nth_mono [OF assms(2), of i j] that assms(1) by simp
  next
    case False
    then have "2 ^ r \<le> i" using that(1,3) by (metis div_greater_zero_iff div_eq_0_iff not_less power_not_zero zero_neq_numeral gr0I)
    then show ?thesis using sorted_nth_mono [OF assms(3), of "i - 2 ^ r" "j - 2 ^ r"] that assms(1) by simp
  qed
  then have "blocks_sorted (2 ^ r) ?v"
    using assms(1) unfolding blocks_sorted_def by (auto dest: order_less_le_trans)
  then have "blocks_ok (2 ^ Suc r) (2 ^ Suc r) (flip_rows (2 ^ r) ?v)" using flip_blocks [of "2 ^ r" ?v] assms(1) by simp
  then have "sorted (clean_all gt01 r (flip_rows (2 ^ r) ?v))"
    using clean_all01 [of "2 ^ Suc r" r "flip_rows (2 ^ r) ?v"] assms(1) by (intro blocks_sorted_all blocks_ok_1) simp
  moreover have "map (\<lambda>z. t < z) (map key (clean_all (key_gt key) r (flip_rows (2 ^ r) R))) = clean_all gt01 r (flip_rows (2 ^ r) ?v)"
    using map_clean_all [of r "flip_rows (2 ^ r) R" "\<lambda>x. t < key x" "key_gt key" gt01, OF _ key_gt_map]
      map_flip_rows [of "2 ^ r" R "\<lambda>x. t < key x"] assms(1) by (simp add: comp_def)
  ultimately show "sorted (map (\<lambda>z. t < z) (map key (clean_all (key_gt key) r (flip_rows (2 ^ r) R))))" by simp
qed

section \<open>Rows are permuted\<close>

lemma involution_perm:
  assumes "\<And>i. i < length R \<Longrightarrow> p i < length R \<and> p (p i) = i"
  shows "mset (map (\<lambda>i. R ! p i) [0..<length R]) = mset R"
proof -
  have "bij_betw p {..<length R} {..<length R}"
    by (rule bij_betw_byWitness [where f' = p]) (use assms in auto)
  then have "image_mset p (mset_set {..<length R}) = mset_set {..<length R}"
    by (simp add: bij_betw_def image_mset_mset_set)
  then have "mset (map p [0..<length R]) = mset [0..<length R]" by (simp add: atLeast_upt)
  then have "mset (map ((!) R) (map p [0..<length R])) = mset (map ((!) R) [0..<length R])"
    by (metis mset_map)
  then show ?thesis by (simp add: comp_def map_nth)
qed

lemma mset_clean_rows:
  assumes "(2 * s) dvd length R" and "0 < s"
  shows "mset (clean_rows gt s R) = mset R"
proof -
  define p where "p i = (if even (i div s) then (if gt (R ! i) (R ! (i + s)) then i + s else i)
      else (if gt (R ! (i - s)) (R ! i) then i - s else i))" for i
  have "p i < length R \<and> p (p i) = i" if i: "i < length R" for i
    using block_step [OF assms(1) i assms(2)] i by (auto simp: p_def)
  then have "mset (map (\<lambda>i. R ! p i) [0..<length R]) = mset R" by (rule involution_perm)
  moreover have "clean_rows gt s R = map (\<lambda>i. R ! p i) [0..<length R]"
    unfolding clean_rows_def p_def by (intro map_cong) auto
  ultimately show ?thesis by simp
qed

lemma mset_flip_rows:
  assumes "(2 * s) dvd length R" and "0 < s"
  shows "mset (flip_rows s R) = mset R"
proof -
  obtain c where c: "length R = 2 * s * c" using assms(1) by blast
  define p where "p i = (if even (i div s) then i else length R - 1 + s - i)" for i
  have "p i < length R \<and> p (p i) = i" if i: "i < length R" for i
  proof (cases "even (i div s)")
    case False
    note le = block_step(2) [OF assms(1) i assms(2) False]
    obtain e where e: "i div s = 2 * e + 1" using False by (elim oddE)
    then have ie: "i = i mod s + s * (2 * e + 1)" using mult_div_mod_eq [of s i] by simp
    have ec: "e < c"
    proof (rule ccontr)
      assume "\<not> e < c"
      then have "2 * s * c \<le> 2 * s * e" by simp
      moreover have "s * (2 * e + 1) = 2 * s * e + s" by (simp add: algebra_simps)
      ultimately show False using i ie c by linarith
    qed
    then obtain f where f: "c = Suc (e + f)" using less_imp_Suc_add by blast
    have m: "i mod s < s" using assms(2) by simp
    have "length R - 1 + s - i = (s - 1 - i mod s) + s * (2 * f + 1)"
      using ie m unfolding c f by (simp add: algebra_simps)
    then have "(length R - 1 + s - i) div s = 2 * f + 1" using m by (simp only: div_mult_self2) simp
    then show ?thesis using False le i by (simp add: p_def)
  qed (use i in \<open>simp add: p_def\<close>)
  then have "mset (map (\<lambda>i. R ! p i) [0..<length R]) = mset R" by (rule involution_perm)
  moreover have "flip_rows s R = map (\<lambda>i. R ! p i) [0..<length R]"
    unfolding flip_rows_def p_def by (intro map_cong) auto
  ultimately show ?thesis by simp
qed

lemma mset_clean_all: "2 ^ Suc i dvd length R \<Longrightarrow> mset (clean_all gt i R) = mset R"
proof (induction i arbitrary: R)
  case 0
  then show ?case using mset_clean_rows [of 1 R gt] by simp
next
  case (Suc i)
  have "(2 :: nat) ^ Suc i dvd 2 ^ Suc (Suc i)" by (rule le_imp_power_dvd) simp
  then have "2 ^ Suc i dvd length (clean_rows gt (2 ^ Suc i) R)" using Suc.prems dvd_trans by auto
  then show ?case using Suc.IH Suc.prems mset_clean_rows [of "2 ^ Suc i" R gt] by simp
qed

lemma mset_bitonic_rows: "2 ^ r dvd length R \<Longrightarrow> mset (bitonic_rows gt r R) = mset R"
proof (induction r)
  case (Suc r)
  have "(2 :: nat) ^ r dvd 2 ^ Suc r" by (rule le_imp_power_dvd) simp
  then have "2 ^ r dvd length R" using Suc.prems dvd_trans by blast
  then show ?case using Suc mset_clean_all [of r "flip_rows (2 ^ r) (bitonic_rows gt r R)" gt]
      mset_flip_rows [of "2 ^ r" "bitonic_rows gt r R"] by simp
qed simp

end
