(* ===== verification/Sorting_Proofs.thy ===== *)
theory Sorting_Proofs
  imports Sorting Sorting_Network "HOL-Library.List_Lexorder"
begin

text \<open>
  The networks sort: what a view does to a shared column, what the row comparison and the two swaps
  compute on the opened values, that one round of the network over shares is one half cleaner over the
  opened rows, and from there that \<open>bitonic_sort\<close> and \<open>bitonic_merge\<close> return the rows of the table in
  lexicographic order of their keys.  The contract of the protocol is the locale \<open>arithmetic_protocol\<close>.
\<close>

section \<open>Views of shared columns\<close>

lemma gather_sharing:
  fixes X :: "'a::len sharing"
  assumes "is_sharing n k q N X" and "0 < k" and "0 < n" and "\<And>x. length x = N \<Longrightarrow> F x = map ((!) x) ix"
    and "\<forall>i \<in> set ix. i < N" and "T = map (apply_return F) X \<or> T = map (apply_to F) X"
  shows "is_sharing n k q (length ix) T" and "reveal_b T = map ((!) (reveal_b X)) ix"
    and "reveal_a T = map ((!) (reveal_a X)) ix"
proof -
  from assms(1) obtain xs where xs: "X = share_out k q xs" "length xs = n" "\<forall>x \<in> set xs. length x = N"
    by (elim is_sharingE)
  have T: "T = share_out k q (map F xs)" using assms(6) by (auto simp: xs(1) apply_return_share_out apply_to_share_out)
  have l: "\<forall>y \<in> set (map F xs). length y = length ix" using xs(3) assms(4) by auto
  show "is_sharing n k q (length ix) T" using T l xs(2) assms(2) by (simp add: is_sharing_share_out)
  have rT: "reveal_b T = vxor_all (length ix) (map F xs)" "reveal_a T = vadd_all (length ix) (map F xs)"
    unfolding T using l xs(2) assms(2,3) by (intro reveal_b_share_out reveal_a_share_out; simp)+
  have rX: "reveal_b X = vxor_all N xs" "reveal_a X = vadd_all N xs"
    unfolding xs(1) using xs(2,3) assms(2,3) by (intro reveal_b_share_out reveal_a_share_out; simp)+
  have e: "map (\<lambda>x. F x ! i) xs = map (\<lambda>x. x ! (ix ! i)) xs" if "i < length ix" for i
    using that xs(3) assms(4) by (intro map_cong) simp_all
  show "reveal_b T = map ((!) (reveal_b X)) ix"
    using l xs(3) assms(5) unfolding rT rX by (intro vec_eqI) (simp_all add: nth_vxor_all comp_def e)
  show "reveal_a T = map ((!) (reveal_a X)) ix"
    using l xs(3) assms(5) unfolding rT rX by (intro vec_eqI) (simp_all add: nth_vadd_all comp_def e)
qed

lemma map2_fst_snd:
  assumes "length xs = length ys"
  shows "map2 (\<lambda>x y. f x) xs ys = map f xs" and "map2 (\<lambda>x y. f y) xs ys = map f ys"
  using assms by (induction xs ys rule: list_induct2) simp_all

lemma set_sharing:
  fixes X U :: "'a::len sharing"
  assumes "is_sharing n k q N X" and "is_sharing n k q' (length ix) U" and "0 < k" and "0 < n"
    and "distinct ix" and "\<forall>i \<in> set ix. i < N" and "positions v = ix"
  shows "is_sharing n k q N (sh_set v U X)" and "reveal_b (sh_set v U X) = scatter ix (reveal_b U) (reveal_b X)"
    and "reveal_a (sh_set v U X) = scatter ix (reveal_a U) (reveal_a X)"
proof -
  from assms(1) obtain xs where xs: "X = share_out k q xs" "length xs = n" "\<forall>x \<in> set xs. length x = N"
    by (elim is_sharingE)
  from assms(2) obtain us where us: "U = share_out k q' us" "length us = n" "\<forall>u \<in> set us. length u = length ix"
    by (elim is_sharingE)
  let ?F = "\<lambda>d u :: 'a vec. scatter ix u d"
  have T: "sh_set v U X = share_out k q (map2 ?F xs us)"
    unfolding sh_set_def assms(7) xs(1) us(1) by (rule apply_input_share_out) (simp add: xs us)
  have l: "\<forall>y \<in> set (map2 ?F xs us). length y = N" using xs(3) by (auto elim!: in_set_zipE)
  show "is_sharing n k q N (sh_set v U X)" using T l xs(2) us(2) assms(3) by (simp add: is_sharing_share_out)
  have rT: "reveal_b (sh_set v U X) = vxor_all N (map2 ?F xs us)" "reveal_a (sh_set v U X) = vadd_all N (map2 ?F xs us)"
    unfolding T using l xs(2) us(2) assms(3,4) by (intro reveal_b_share_out reveal_a_share_out; simp)+
  have rX: "reveal_b X = vxor_all N xs" "reveal_a X = vadd_all N xs"
    unfolding xs(1) using xs(2,3) assms(3,4) by (intro reveal_b_share_out reveal_a_share_out; simp)+
  have rU: "reveal_b U = vxor_all (length ix) us" "reveal_a U = vadd_all (length ix) us"
    unfolding us(1) using us(2,3) assms(3,4) by (intro reveal_b_share_out reveal_a_share_out; simp)+
  have len: "length xs = length us" using xs(2) us(2) by simp
  have in_pair: "length d = N \<and> length u = length ix" if "(d, u) \<in> set (zip xs us)" for d u
    using that xs(3) us(3) by (auto elim!: in_set_zipE)
  have hit: "map (\<lambda>y. y ! (ix ! t)) (map2 ?F xs us) = map (\<lambda>u. u ! t) us" if t: "t < length ix" for t
  proof -
    have "map (\<lambda>y. y ! (ix ! t)) (map2 ?F xs us) = map2 (\<lambda>d u. u ! t) xs us"
      unfolding map_map using t assms(5,6) in_pair by (intro map_cong) (auto simp: nth_scatter)
    then show ?thesis by (simp only: map2_fst_snd(2) [OF len])
  qed
  have miss: "map (\<lambda>y. y ! j) (map2 ?F xs us) = map (\<lambda>d. d ! j) xs" if "j \<notin> set ix" for j
  proof -
    have "map (\<lambda>y. y ! j) (map2 ?F xs us) = map2 (\<lambda>d u. d ! j) xs us"
      unfolding map_map using that by (intro map_cong) (auto simp: nth_scatter_other)
    then show ?thesis by (simp only: map2_fst_snd(1) [OF len])
  qed
  show "reveal_b (sh_set v U X) = scatter ix (reveal_b U) (reveal_b X)"
  proof (rule vec_eqI)
    show "length (reveal_b (sh_set v U X)) = length (scatter ix (reveal_b U) (reveal_b X))"
      using l xs(3) by (simp add: rT rX)
    fix j assume "j < length (reveal_b (sh_set v U X))"
    then have j: "j < N" using l by (simp add: rT)
    show "reveal_b (sh_set v U X) ! j = scatter ix (reveal_b U) (reveal_b X) ! j"
    proof (cases "j \<in> set ix")
      case True
      then obtain t where t: "t < length ix" "j = ix ! t" by (metis in_set_conv_nth)
      then show ?thesis using j l us(3) xs(3) assms(5,6) hit [OF t(1)]
        by (simp add: rT rX rU nth_vxor_all nth_scatter)
    next
      case False
      then show ?thesis using j l xs(3) miss [OF False] by (simp add: rT rX nth_vxor_all nth_scatter_other)
    qed
  qed
  show "reveal_a (sh_set v U X) = scatter ix (reveal_a U) (reveal_a X)"
  proof (rule vec_eqI)
    show "length (reveal_a (sh_set v U X)) = length (scatter ix (reveal_a U) (reveal_a X))"
      using l xs(3) by (simp add: rT rX)
    fix j assume "j < length (reveal_a (sh_set v U X))"
    then have j: "j < N" using l by (simp add: rT)
    show "reveal_a (sh_set v U X) ! j = scatter ix (reveal_a U) (reveal_a X) ! j"
    proof (cases "j \<in> set ix")
      case True
      then obtain t where t: "t < length ix" "j = ix ! t" by (metis in_set_conv_nth)
      then show ?thesis using j l us(3) xs(3) assms(5,6) hit [OF t(1)]
        by (simp add: rT rX rU nth_vadd_all nth_scatter)
    next
      case False
      then show ?thesis using j l xs(3) miss [OF False] by (simp add: rT rX nth_vadd_all nth_scatter_other)
    qed
  qed
qed

lemma get_sharing:
  fixes X :: "'a::len sharing"
  assumes "is_sharing n k q N X" and "0 < k" and "0 < n" and "\<forall>i \<in> set (positions v). i < N"
  shows "is_sharing n k q (total_size v) (sh_get v X)" and "reveal_b (sh_get v X) = view_get v (reveal_b X)"
    and "reveal_a (sh_get v X) = view_get v (reveal_a X)"
  using gather_sharing [OF assms(1-3) _ assms(4) disjI1 [OF sh_get_def]] by (simp_all add: view_get_def)

section \<open>Exchanging elements\<close>

definition pair_ok :: "nat list \<Rightarrow> nat list \<Rightarrow> nat \<Rightarrow> bool" where
  "pair_ok ix iy N \<longleftrightarrow> length ix = length iy \<and> distinct (ix @ iy) \<and> (\<forall>i \<in> set (ix @ iy). i < N)"

definition mix :: "nat list \<Rightarrow> nat list \<Rightarrow> (nat \<Rightarrow> bool) \<Rightarrow> 'b list \<Rightarrow> 'b list" where
  "mix ix iy b d =
     scatter iy (map (\<lambda>t. if b t then d ! (ix ! t) else d ! (iy ! t)) [0..<length ix])
       (scatter ix (map (\<lambda>t. if b t then d ! (iy ! t) else d ! (ix ! t)) [0..<length ix]) d)"

lemma length_mix [simp]: "length (mix ix iy b d) = length d"
  by (simp add: mix_def)

lemma nth_mix:
  assumes "pair_ok ix iy (length d)"
  shows "t < length ix \<Longrightarrow> mix ix iy b d ! (ix ! t) = (if b t then d ! (iy ! t) else d ! (ix ! t))"
    and "t < length ix \<Longrightarrow> mix ix iy b d ! (iy ! t) = (if b t then d ! (ix ! t) else d ! (iy ! t))"
    and "j \<notin> set ix \<Longrightarrow> j \<notin> set iy \<Longrightarrow> mix ix iy b d ! j = d ! j"
  using assms unfolding mix_def pair_ok_def
  by (auto simp: nth_scatter nth_scatter_other disjoint_iff)

lemma map_mix:
  assumes "pair_ok ix iy (length d)"
  shows "mix ix iy b (map f d) = map f (mix ix iy b d)"
proof -
  have e: "map (\<lambda>t. if b t then map f d ! (iy ! t) else map f d ! (ix ! t)) [0..<length ix]
      = map f (map (\<lambda>t. if b t then d ! (iy ! t) else d ! (ix ! t)) [0..<length ix])"
    "map (\<lambda>t. if b t then map f d ! (ix ! t) else map f d ! (iy ! t)) [0..<length ix]
      = map f (map (\<lambda>t. if b t then d ! (ix ! t) else d ! (iy ! t)) [0..<length ix])"
    using assms by (auto simp: pair_ok_def)
  show ?thesis unfolding mix_def e scatter_map ..
qed

lemma mix_cong:
  assumes "\<And>i. i < length ix \<Longrightarrow> b i = b' i"
  shows "mix ix iy b d = mix ix iy b' d"
proof -
  have "map (\<lambda>t. if b t then f t else g t) [0..<length ix] = map (\<lambda>t. if b' t then f t else g t) [0..<length ix]"
    for f g :: "nat \<Rightarrow> 'a" using assms by (intro map_cong) auto
  then show ?thesis unfolding mix_def by metis
qed

text \<open>Every column of a table is rearranged in the same way.\<close>

lemma mix_perm:
  assumes "pair_ok ix iy (length d)"
  shows "mix ix iy b d = map ((!) d) (mix ix iy b [0..<length d])"
  using map_mix [of ix iy "[0..<length d]" b "(!) d"] assms by (simp add: map_nth)

context boolean_protocol
begin

lemma swap_column_b:
  fixes c bits :: "'a sharing"
  assumes ok: "ok st" and c: "is_sharing n k 0 N c" and bits: "is_sharing n k q (length ix) bits"
    and b: "\<And>t. t < length ix \<Longrightarrow> bit (reveal_b bits ! t) 0 = b t"
    and vx: "positions vx = ix" and vy: "positions vy = iy" and p: "pair_ok ix iy N"
  shows "\<exists>tmp st' c1 c2. v_and_b P (sv_extend_lsb bits) (xor_b (sh_get vx c) (sh_get vy c)) st = Some (tmp, st') \<and> ok st' \<and>
    c1 = sh_set vx (xor_b (sh_get vx c) tmp) c \<and> c2 = sh_set vy (xor_b (sh_get vy c1) tmp) c1 \<and>
    is_sharing n k 0 N c2 \<and> reveal_b c2 = mix ix iy b (reveal_b c)"
proof -
  have ln: "length iy = length ix" "total_size vx = length ix" "total_size vy = length ix"
    using p vx vy length_positions [of vx] length_positions [of vy] by (simp_all add: pair_ok_def)
  have ixN: "\<forall>i \<in> set (positions vx). i < N" "\<forall>i \<in> set (positions vy). i < N" "distinct ix" "distinct iy" "set ix \<inter> set iy = {}"
    using p vx vy by (auto simp: pair_ok_def)
  note gx = get_sharing [OF c pos ixN(1), unfolded ln] and gy = get_sharing [OF c pos ixN(2), unfolded ln]
  note ext = sv_extend_sharing [OF bits pos] and d = xor_sharing [OF gx(1) gy(1) pos]
  obtain tmp st' where t: "v_and_b P (sv_extend_lsb bits) (xor_b (sh_get vx c) (sh_get vy c)) st = Some (tmp, st')" "ok st'"
    "is_sharing n k 0 (length ix) tmp" "reveal_b tmp = map2 (AND) (reveal_b (sv_extend_lsb bits)) (reveal_b (xor_b (sh_get vx c) (sh_get vy c)))"
    by (rule and_obtains [OF ok ext(1) d(1)])
  define c1 where "c1 = sh_set vx (xor_b (sh_get vx c) tmp) c"
  define c2 where "c2 = sh_set vy (xor_b (sh_get vy c1) tmp) c1"
  note ux = xor_sharing [OF gx(1) t(3) pos]
  note s1 = set_sharing [OF c ux(1) pos ixN(3) ixN(1) [unfolded vx] vx, folded c1_def]
  note g1 = get_sharing [OF s1(1) pos ixN(2), unfolded ln]
  note uy = xor_sharing [OF g1(1) t(3) pos]
  note s2 = set_sharing [OF s1(1) uy(1) [folded ln(1)] pos ixN(4) ixN(2) [unfolded vy] vy, folded c2_def]
  have lc: "length (reveal_b c) = N" "length (reveal_b bits) = length ix" using len [OF c] len [OF bits] by simp_all
  have tmp_t: "reveal_b tmp ! i = (if b i then reveal_b c ! (ix ! i) XOR reveal_b c ! (iy ! i) else 0)" if i: "i < length ix" for i
  proof -
    have "reveal_b (sv_extend_lsb bits) ! i = (if b i then - 1 else 0)"
      using b [OF i] ext(2) lc(2) i by (intro bit_word_eqI) (auto simp: extend_lsb_def bit_extend)
    then show ?thesis using t(4) d(2) gx(2) gy(2) i ln lc ext(2) by (simp add: view_get_def vx vy)
  qed
  have x: "reveal_b (xor_b (sh_get vx c) tmp) = map (\<lambda>i. if b i then reveal_b c ! (iy ! i) else reveal_b c ! (ix ! i)) [0..<length ix]"
    using tmp_t gx(2) len [OF t(3)] ln by (intro vec_eqI) (simp_all add: ux(2) view_get_def vx xor.assoc [symmetric])
  have gy1: "reveal_b c1 ! (iy ! i) = reveal_b c ! (iy ! i)" if "i < length ix" for i
    using ixN(5) that ln(1) nth_mem [of i iy] unfolding s1(2) by (intro nth_scatter_other) auto
  have y: "reveal_b (xor_b (sh_get vy c1) tmp) = map (\<lambda>i. if b i then reveal_b c ! (ix ! i) else reveal_b c ! (iy ! i)) [0..<length ix]"
    using tmp_t len [OF t(3)] ln by (intro vec_eqI) (simp_all add: uy(2) g1(2) gy1 view_get_def vy xor.left_commute)
  have "reveal_b c2 = mix ix iy b (reveal_b c)" unfolding s2(2) s1(2) x y mix_def ..
  then show ?thesis using t(1,2) s2(1) c1_def c2_def by blast
qed

lemma swap_b_loop_correct:
  fixes bits :: "'a sharing"
  assumes "ok st" and bits: "is_sharing n k q (length ix) bits"
    and b: "\<And>t. t < length ix \<Longrightarrow> bit (reveal_b bits ! t) 0 = b t"
    and v: "lv N = Some vx" "rv N = Some vy" "positions vx = ix" "positions vy = iy" "pair_ok ix iy N"
    and "\<forall>c \<in> set cs. is_sharing n k 0 N c"
  shows "\<exists>cs' st'. swap_b_loop P lv rv (sv_extend_lsb bits) cs st = Some (cs', st') \<and> ok st' \<and>
    (\<forall>c \<in> set cs'. is_sharing n k 0 N c) \<and> map reveal_b cs' = map (mix ix iy b) (map reveal_b cs)"
  using assms(1,9)
proof (induction cs arbitrary: st)
  case (Cons c cs)
  have c: "is_sharing n k 0 N c" using Cons.prems(2) by simp
  have sz: "sh_size c = N" using is_sharing_size [OF c] pos by (simp add: sh_size_def)
  obtain tmp st1 c1 c2 where s: "v_and_b P (sv_extend_lsb bits) (xor_b (sh_get vx c) (sh_get vy c)) st = Some (tmp, st1)" "ok st1"
    "c1 = sh_set vx (xor_b (sh_get vx c) tmp) c" "c2 = sh_set vy (xor_b (sh_get vy c1) tmp) c1"
    "is_sharing n k 0 N c2" "reveal_b c2 = mix ix iy b (reveal_b c)"
    using swap_column_b [OF Cons.prems(1) c bits b v(3-5)] by blast
  obtain cs' st' where r: "swap_b_loop P lv rv (sv_extend_lsb bits) cs st1 = Some (cs', st')" "ok st'"
    "\<forall>c \<in> set cs'. is_sharing n k 0 N c" "map reveal_b cs' = map (mix ix iy b) (map reveal_b cs)"
    using Cons.IH [OF s(2)] Cons.prems(2) by auto
  have "swap_b_loop P lv rv (sv_extend_lsb bits) (c # cs) st = Some (c2 # cs', st')"
    using v(1,2) sz s(1,3,4) r(1) by (simp add: Let_def)
  then show ?case using r(2-4) s(5,6) by (intro exI [of _ "c2 # cs'"] exI [of _ st']) simp
qed simp

end

locale arithmetic_protocol = conversion_protocol +
  assumes mult_law: "ok st \<Longrightarrow> is_sharing n k 0 m X \<Longrightarrow> is_sharing n k 0 m Y \<Longrightarrow>
      \<exists>Z st'. v_multiply_a P X Y st = Some (Z, st') \<and> ok st' \<and> is_sharing n k 0 m Z \<and>
        reveal_a Z = map2 (*) (reveal_a X) (reveal_a Y)"

lemma sub_sharing:
  assumes X: "is_sharing n k q m X" and Y: "is_sharing n k q' m Y" and pos: "0 < k" "0 < n"
  shows "is_sharing n k q m (sub_a X Y)" and "reveal_a (sub_a X Y) = map2 (-) (reveal_a X) (reveal_a Y)"
proof -
  from X obtain xs where xs: "X = share_out k q xs" "length xs = n" "\<forall>x \<in> set xs. length x = m"
    by (elim is_sharingE)
  from Y obtain ys where ys: "Y = share_out k q' ys" "length ys = n" "\<forall>y \<in> set ys. length y = m"
    by (elim is_sharingE)
  have e: "sub_a X Y = share_out k q (map2 (vec_op (-)) xs ys)"
    unfolding sub_a_def xs(1) ys(1) by (rule evec_op_share_out) (simp add: xs ys)
  have l: "\<forall>z \<in> set (map2 (vec_op (-)) xs ys). length z = m"
    using xs ys by (auto elim!: in_set_zipE simp: vec_op_def)
  show "is_sharing n k q m (sub_a X Y)"
    unfolding e using l xs ys pos by (simp add: is_sharing_share_out)
  have aux: "length us = length vs \<Longrightarrow> \<forall>u \<in> set us. length u = m \<Longrightarrow> \<forall>v \<in> set vs. length v = m \<Longrightarrow>
      vadd_all m (map2 (vec_op (-)) us vs) = map2 (-) (vadd_all m us) (vadd_all m vs)" for us vs :: "'a vec list"
    by (induction us vs rule: list_induct2) (auto simp: vec_op_def intro!: vec_eqI)
  have "reveal_a (sub_a X Y) = vadd_all m (map2 (vec_op (-)) xs ys)"
    unfolding e using l xs ys pos by (intro reveal_a_share_out) simp_all
  then show "reveal_a (sub_a X Y) = map2 (-) (reveal_a X) (reveal_a Y)"
    using aux xs ys pos by (simp add: reveal_a_share_out [where m = m])
qed

context arithmetic_protocol
begin

lemma swap_column_a:
  fixes c bits :: "'a sharing"
  assumes ok: "ok st" and c: "is_sharing n k 0 N c" and bits: "is_sharing n k 0 (length ix) bits"
    and b: "\<And>t. t < length ix \<Longrightarrow> reveal_a bits ! t = of_bool (b t)"
    and vx: "positions vx = ix" and vy: "positions vy = iy" and p: "pair_ok ix iy N"
  shows "\<exists>tmp st' c1 c2. v_multiply_a P bits (sub_a (sh_get vx c) (sh_get vy c)) st = Some (tmp, st') \<and> ok st' \<and>
    c1 = sh_set vx (sub_a (sh_get vx c) tmp) c \<and> c2 = sh_set vy (add_a (sh_get vy c1) tmp) c1 \<and>
    is_sharing n k 0 N c2 \<and> reveal_a c2 = mix ix iy b (reveal_a c)"
proof -
  have ln: "length iy = length ix" "total_size vx = length ix" "total_size vy = length ix"
    using p vx vy length_positions [of vx] length_positions [of vy] by (simp_all add: pair_ok_def)
  have ixN: "\<forall>i \<in> set (positions vx). i < N" "\<forall>i \<in> set (positions vy). i < N" "distinct ix" "distinct iy" "set ix \<inter> set iy = {}"
    using p vx vy by (auto simp: pair_ok_def)
  note gx = get_sharing [OF c pos ixN(1), unfolded ln] and gy = get_sharing [OF c pos ixN(2), unfolded ln]
  note d = sub_sharing [OF gx(1) gy(1) pos]
  obtain tmp st' where t: "v_multiply_a P bits (sub_a (sh_get vx c) (sh_get vy c)) st = Some (tmp, st')" "ok st'"
    "is_sharing n k 0 (length ix) tmp" "reveal_a tmp = map2 (*) (reveal_a bits) (reveal_a (sub_a (sh_get vx c) (sh_get vy c)))"
    using mult_law [OF ok bits d(1)] by blast
  define c1 where "c1 = sh_set vx (sub_a (sh_get vx c) tmp) c"
  define c2 where "c2 = sh_set vy (add_a (sh_get vy c1) tmp) c1"
  note ux = sub_sharing [OF gx(1) t(3) pos]
  note s1 = set_sharing [OF c ux(1) pos ixN(3) ixN(1) [unfolded vx] vx, folded c1_def]
  note g1 = get_sharing [OF s1(1) pos ixN(2), unfolded ln]
  note uy = add_sharing [OF g1(1) t(3) pos]
  note s2 = set_sharing [OF s1(1) uy(1) [folded ln(1)] pos ixN(4) ixN(2) [unfolded vy] vy, folded c2_def]
  have lc: "length (reveal_a c) = N" "length (reveal_a bits) = length ix" "length (reveal_a tmp) = length ix"
    using c bits t(3) pos by simp_all
  have tmp_t: "reveal_a tmp ! i = (if b i then reveal_a c ! (ix ! i) - reveal_a c ! (iy ! i) else 0)" if i: "i < length ix" for i
    using t(4) d(2) gx(3) gy(3) i ln lc b [OF i] by (simp add: view_get_def vx vy)
  have x: "reveal_a (sub_a (sh_get vx c) tmp) = map (\<lambda>i. if b i then reveal_a c ! (iy ! i) else reveal_a c ! (ix ! i)) [0..<length ix]"
    using tmp_t gx(3) lc(3) ln by (intro vec_eqI) (simp_all add: ux(2) view_get_def vx)
  have gy1: "reveal_a c1 ! (iy ! i) = reveal_a c ! (iy ! i)" if "i < length ix" for i
    using ixN(5) that ln(1) nth_mem [of i iy] unfolding s1(3) by (intro nth_scatter_other) auto
  have y: "reveal_a (add_a (sh_get vy c1) tmp) = map (\<lambda>i. if b i then reveal_a c ! (ix ! i) else reveal_a c ! (iy ! i)) [0..<length ix]"
    using tmp_t lc(3) ln by (intro vec_eqI) (simp_all add: uy(2) g1(3) gy1 view_get_def vy)
  have "reveal_a c2 = mix ix iy b (reveal_a c)" unfolding s2(3) s1(3) x y mix_def ..
  then show ?thesis using t(1,2) s2(1) c1_def c2_def by blast
qed

lemma swap_a_loop_correct:
  fixes bits :: "'a sharing"
  assumes "ok st" and bits: "is_sharing n k 0 (length ix) bits"
    and b: "\<And>t. t < length ix \<Longrightarrow> reveal_a bits ! t = of_bool (b t)"
    and v: "lv N = Some vx" "rv N = Some vy" "positions vx = ix" "positions vy = iy" "pair_ok ix iy N"
    and "\<forall>c \<in> set cs. is_sharing n k 0 N c"
  shows "\<exists>cs' st'. swap_a_loop P lv rv bits cs st = Some (cs', st') \<and> ok st' \<and>
    (\<forall>c \<in> set cs'. is_sharing n k 0 N c) \<and> map reveal_a cs' = map (mix ix iy b) (map reveal_a cs)"
  using assms(1,9)
proof (induction cs arbitrary: st)
  case (Cons c cs)
  have c: "is_sharing n k 0 N c" using Cons.prems(2) by simp
  have sz: "sh_size c = N" using is_sharing_size [OF c] pos by (simp add: sh_size_def)
  obtain tmp st1 c1 c2 where s: "v_multiply_a P bits (sub_a (sh_get vx c) (sh_get vy c)) st = Some (tmp, st1)" "ok st1"
    "c1 = sh_set vx (sub_a (sh_get vx c) tmp) c" "c2 = sh_set vy (add_a (sh_get vy c1) tmp) c1"
    "is_sharing n k 0 N c2" "reveal_a c2 = mix ix iy b (reveal_a c)"
    using swap_column_a [OF Cons.prems(1) c bits b v(3-5)] by blast
  obtain cs' st' where r: "swap_a_loop P lv rv bits cs st1 = Some (cs', st')" "ok st'"
    "\<forall>c \<in> set cs'. is_sharing n k 0 N c" "map reveal_a cs' = map (mix ix iy b) (map reveal_a cs)"
    using Cons.IH [OF s(2)] Cons.prems(2) by auto
  have "swap_a_loop P lv rv bits (c # cs) st = Some (c2 # cs', st')"
    using v(1,2) sz s(1,3,4) r(1) by (simp add: Let_def)
  then show ?case using r(2-4) s(5,6) by (intro exI [of _ "c2 # cs'"] exI [of _ st']) simp
qed simp

end

section \<open>Comparing rows\<close>

lemma sint_inject: "sint (a :: 'a::len word) = sint b \<longleftrightarrow> a = b"
  by (metis uint_sint unsigned_word_eqI)

definition row_at :: "nat \<Rightarrow> 'a::len sharing list \<Rightarrow> int list" where
  "row_at t cs = map (\<lambda>c. sint (reveal_b c ! t)) cs"

lemma row_at_simps [simp]: "row_at t [] = []" "row_at t (c # cs) = sint (reveal_b c ! t) # row_at t cs"
  by (simp_all add: row_at_def)

context boolean_protocol
begin

lemma compare_rows_loop_correct:
  fixes eq gt :: "'a sharing"
  assumes "ok st" and "is_sharing n k 0 m eq" and "is_sharing n k 0 m gt"
    and "\<forall>(x, y) \<in> set rest. is_sharing n k q m x \<and> is_sharing n k q m y"
    and "reveal_b eq = map (\<lambda>t. of_bool (e t)) [0..<m]" and "reveal_b gt = map (\<lambda>t. of_bool (g t)) [0..<m]"
    and "\<And>t. \<not> (e t \<and> g t)"
  shows "\<exists>R st'. compare_rows_loop P rest eq gt st = Some (R, st') \<and> ok st' \<and> is_sharing n k 0 m R \<and>
    reveal_b R = map (\<lambda>t. of_bool (g t \<or> e t \<and> row_at t (map snd rest) < row_at t (map fst rest))) [0..<m]"
  using assms
proof (induction rest arbitrary: eq gt e g st)
  case Nil
  then show ?case by simp
next
  case (Cons xy rest)
  obtain x y where xy: "xy = (x, y)" by (cases xy)
  have s: "is_sharing n k q m x" "is_sharing n k q m y" using Cons.prems(4) xy by simp_all
  obtain E G st1 where c: "sv_compare P x y st = Some ((E, G), st1)" "ok st1" "is_sharing n k 0 m E" "is_sharing n k 0 m G"
    "reveal_b E = map2 (\<lambda>x y. of_bool (x = y)) (reveal_b x) (reveal_b y)"
    "reveal_b G = map2 (\<lambda>x y. of_bool (sint y < sint x)) (reveal_b x) (reveal_b y)"
    using sv_compare_correct [OF Cons.prems(1) s] by blast
  obtain A st2 where A: "v_and_b P G eq st1 = Some (A, st2)" "ok st2" "is_sharing n k 0 m A"
    "reveal_b A = map2 (AND) (reveal_b G) (reveal_b eq)" by (rule and_obtains [OF c(2,4) Cons.prems(2)])
  note X = xor_sharing [OF Cons.prems(3) A(3) pos]
  obtain B st3 where B: "v_and_b P eq E st2 = Some (B, st3)" "ok st3" "is_sharing n k 0 m B"
    "reveal_b B = map2 (AND) (reveal_b eq) (reveal_b E)" by (rule and_obtains [OF A(2) Cons.prems(2) c(3)])
  define e' where "e' t = (e t \<and> reveal_b x ! t = reveal_b y ! t)" for t
  define g' where "g' t = (g t \<or> e t \<and> sint (reveal_b y ! t) < sint (reveal_b x ! t))" for t
  have l: "length (reveal_b x) = m" "length (reveal_b y) = m" using len [OF s(1)] len [OF s(2)] by simp_all
  have "reveal_b B = map (\<lambda>t. of_bool (e' t)) [0..<m]"
    using l by (intro vec_eqI) (auto simp: B(4) c(5) Cons.prems(5) e'_def)
  moreover have "reveal_b (xor_b gt A) = map (\<lambda>t. of_bool (g' t)) [0..<m]"
    using l Cons.prems(7) by (intro vec_eqI) (auto simp: X(2) A(4) c(6) Cons.prems(5,6) g'_def)
  moreover have "\<not> (e' t \<and> g' t)" for t using Cons.prems(7) [of t] by (auto simp: e'_def g'_def)
  moreover have "\<forall>(x, y) \<in> set rest. is_sharing n k q m x \<and> is_sharing n k q m y" using Cons.prems(4) by auto
  ultimately obtain R st' where R: "compare_rows_loop P rest B (xor_b gt A) st3 = Some (R, st')" "ok st'" "is_sharing n k 0 m R"
    "reveal_b R = map (\<lambda>t. of_bool (g' t \<or> e' t \<and> row_at t (map snd rest) < row_at t (map fst rest))) [0..<m]"
    using Cons.IH [OF B(2,3) X(1)] by blast
  have "(g' t \<or> e' t \<and> row_at t (map snd rest) < row_at t (map fst rest)) =
      (g t \<or> e t \<and> row_at t (map snd (xy # rest)) < row_at t (map fst (xy # rest)))" for t
    by (auto simp: e'_def g'_def xy sint_inject)
  then show ?case using R c(1) A(1) B(1) xy by (simp add: Let_def)
qed

lemma compare_rows_correct:
  assumes "ok st" and "xys \<noteq> []" and "\<forall>(x, y) \<in> set xys. is_sharing n k q m x \<and> is_sharing n k q m y"
  shows "\<exists>R st'. compare_rows P xys st = Some (R, st') \<and> ok st' \<and> is_sharing n k 0 m R \<and>
    reveal_b R = map (\<lambda>t. of_bool (row_at t (map snd xys) < row_at t (map fst xys))) [0..<m]"
proof -
  obtain x y rest where xys: "xys = (x, y) # rest" using assms(2) by (cases xys) auto
  have s: "is_sharing n k q m x" "is_sharing n k q m y" "\<forall>(x, y) \<in> set rest. is_sharing n k q m x \<and> is_sharing n k q m y"
    using assms(3) xys by auto
  obtain E G st1 where c: "sv_compare P x y st = Some ((E, G), st1)" "ok st1" "is_sharing n k 0 m E" "is_sharing n k 0 m G"
    "reveal_b E = map2 (\<lambda>x y. of_bool (x = y)) (reveal_b x) (reveal_b y)"
    "reveal_b G = map2 (\<lambda>x y. of_bool (sint y < sint x)) (reveal_b x) (reveal_b y)"
    using sv_compare_correct [OF assms(1) s(1,2)] by blast
  have l: "length (reveal_b x) = m" "length (reveal_b y) = m" using len [OF s(1)] len [OF s(2)] by simp_all
  have "reveal_b E = map (\<lambda>t. of_bool (reveal_b x ! t = reveal_b y ! t)) [0..<m]"
    "reveal_b G = map (\<lambda>t. of_bool (sint (reveal_b y ! t) < sint (reveal_b x ! t))) [0..<m]"
    using l by (auto intro!: vec_eqI simp: c(5,6))
  from compare_rows_loop_correct [OF c(2-4) s(3) this]
  obtain R st' where R: "compare_rows_loop P rest E G st1 = Some (R, st')" "ok st'" "is_sharing n k 0 m R"
    "reveal_b R = map (\<lambda>t. of_bool (sint (reveal_b y ! t) < sint (reveal_b x ! t) \<or>
      reveal_b x ! t = reveal_b y ! t \<and> row_at t (map snd rest) < row_at t (map fst rest))) [0..<m]" by auto
  note M = bitfun_sharing(1,2) [OF R(3) pos, of 1]
  have "reveal_b (p_mask R 1) = map (\<lambda>t. of_bool (row_at t (map snd xys) < row_at t (map fst xys))) [0..<m]"
    unfolding M(2) R(4) xys by (intro vec_eqI) (auto simp: mask_vec_def sint_inject)
  then show ?thesis using c(1) R(1,2) M(1) by (simp add: compare_rows_def xys)
qed

end

text \<open>The key of a row: descending columns count negatively.\<close>

definition signed_key :: "sort_order list \<Rightarrow> 'a::len word list \<Rightarrow> int list" where
  "signed_key order ws = map2 (\<lambda>d w. if d = DESC then - sint w else sint w) order ws"

lemma order_rows_less:
  assumes "length order = length xys"
  shows "row_at t (map snd (order_rows order xys)) < row_at t (map fst (order_rows order xys)) \<longleftrightarrow>
    signed_key order (map (\<lambda>c. reveal_b c ! t) (map snd xys)) < signed_key order (map (\<lambda>c. reveal_b c ! t) (map fst xys))"
  using assms by (induction order xys rule: list_induct2) (auto simp: order_rows_def signed_key_def)

section \<open>One round\<close>

type_synonym 'a table_row = "'a word list \<times> 'a word list \<times> 'a word list"

definition table_ok :: "nat \<Rightarrow> nat \<Rightarrow> nat \<Rightarrow> nat \<Rightarrow> 'a::len shared_table \<Rightarrow> bool" where
  "table_ok n k q N t \<longleftrightarrow>
     (\<forall>c \<in> set (keys t) \<union> set (data_b t). is_sharing n k q N c) \<and> (\<forall>c \<in> set (data_a t). is_sharing n k 0 N c)"

definition table_rows :: "nat \<Rightarrow> 'a::len shared_table \<Rightarrow> 'a table_row list" where
  "table_rows N t = map (\<lambda>i. (map (\<lambda>c. reveal_b c ! i) (keys t), map (\<lambda>c. reveal_a c ! i) (data_a t),
     map (\<lambda>c. reveal_b c ! i) (data_b t))) [0..<N]"

definition row_key :: "sort_order list \<Rightarrow> 'a::len table_row \<Rightarrow> int list" where
  "row_key order r = signed_key order (fst r)"

lemma length_table_rows [simp]: "length (table_rows N t) = N"
  by (simp add: table_rows_def)

lemma rows_perm:
  assumes "map reveal_b (keys t') = map (\<lambda>c. map ((!) c) p) (map reveal_b (keys t))"
    and "map reveal_a (data_a t') = map (\<lambda>c. map ((!) c) p) (map reveal_a (data_a t))"
    and "map reveal_b (data_b t') = map (\<lambda>c. map ((!) c) p) (map reveal_b (data_b t))"
    and "length p = N" and "\<forall>i \<in> set p. i < N"
  shows "table_rows N t' = map ((!) (table_rows N t)) p"
proof (rule nth_equalityI)
  show "length (table_rows N t') = length (map ((!) (table_rows N t)) p)" using assms(4) by simp
  fix i assume "i < length (table_rows N t')"
  then have i: "i < N" by simp
  have sel: "map (\<lambda>c. c ! i) us = map (\<lambda>c. c ! (p ! i)) vs" if "us = map (\<lambda>c. map ((!) c) p) vs" for us vs :: "'a vec list"
    using that i assms(4) by simp
  have "p ! i < N" using i assms(4,5) by simp
  then show "table_rows N t' ! i = map ((!) (table_rows N t)) p ! i"
    using i assms(4) sel [OF assms(1)] sel [OF assms(2)] sel [OF assms(3)] by (simp add: table_rows_def comp_def)
qed

lemma view_reverse_perm:
  assumes "\<forall>i \<in> set (positions v). i < length d"
  shows "view_reverse v d = map ((!) d) (view_reverse v [0..<length d])"
proof -
  have "view_get v d = map ((!) d) (view_get v [0..<length d])"
    using assms by (simp add: view_get_def)
  then have "scatter (positions v) (rev (view_get v d)) d
      = scatter (positions v) (map ((!) d) (rev (view_get v [0..<length d]))) (map ((!) d) [0..<length d])"
    by (simp add: rev_map map_nth)
  then show ?thesis unfolding view_reverse_def scatter_map .
qed

lemma scatter_bound:
  assumes "\<forall>x \<in> set u \<union> set d. x < N"
  shows "\<forall>x \<in> set (scatter ix u d). x < (N :: nat)"
  using assms
proof (induction ix arbitrary: u d)
  case (Cons i ix)
  show ?case
  proof (cases u)
    case (Cons x u')
    then show ?thesis using Cons.IH [of u' "d[i := x]"] Cons.prems set_update_subset_insert [of d i x] by auto
  qed (use Cons.prems in simp)
qed auto

lemma view_reverse_bound:
  assumes "\<forall>i \<in> set (positions v). i < N"
  shows "\<forall>i \<in> set (view_reverse v [0..<N]). i < N"
  unfolding view_reverse_def by (rule scatter_bound) (use assms in \<open>auto simp: view_get_def\<close>)

lemma mix_bound:
  assumes p: "pair_ok ix iy N"
  shows "\<forall>i \<in> set (mix ix iy b [0..<N]). i < N"
proof -
  let ?d = "scatter ix (map (\<lambda>t. if b t then [0..<N] ! (iy ! t) else [0..<N] ! (ix ! t)) [0..<length ix]) [0..<N]"
  have "\<forall>x \<in> set ?d. x < N" by (rule scatter_bound) (use p in \<open>auto simp: pair_ok_def\<close>)
  moreover have "\<forall>x \<in> set (map (\<lambda>t. if b t then [0..<N] ! (ix ! t) else [0..<N] ! (iy ! t)) [0..<length ix]). x < N"
    using p by (auto simp: pair_ok_def)
  ultimately show ?thesis unfolding mix_def by (intro scatter_bound) blast
qed

lemma columns_size:
  assumes "\<forall>c \<in> set cs. is_sharing n k q N c" and "0 < k" and "0 < n"
  shows "\<forall>c \<in> set cs. sh_size c = N"
proof
  fix c assume "c \<in> set cs"
  then have "is_sharing n k q N c" using assms(1) by simp
  then show "sh_size c = N" using is_sharing_size [of n k q N c 0] assms(2,3) by (simp add: sh_size_def)
qed

context arithmetic_protocol
begin

lemma reverse_columns_correct:
  fixes cs :: "'a sharing list"
  assumes "\<forall>c \<in> set cs. is_sharing n k q N c" and "rv N = Some vy" and "\<forall>i \<in> set (positions vy). i < N"
  shows "reverse_columns rv cs = Some (map (sh_reverse vy) cs)"
    and "\<forall>c \<in> set (map (sh_reverse vy) cs). is_sharing n k q N c"
    and "map reveal_b (map (sh_reverse vy) cs) = map (\<lambda>c. map ((!) c) (view_reverse vy [0..<N])) (map reveal_b cs)"
    and "map reveal_a (map (sh_reverse vy) cs) = map (\<lambda>c. map ((!) c) (view_reverse vy [0..<N])) (map reveal_a cs)"
proof -
  note sz = columns_size [OF assms(1) pos]
  have "\<forall>c \<in> set cs. (do { vy \<leftarrow> rv (sh_size c); Some (sh_reverse vy c) }) = Some (sh_reverse vy c)"
    using sz assms(2) by simp
  then show "reverse_columns rv cs = Some (map (sh_reverse vy) cs)"
    unfolding reverse_columns_def by (rule those_map_Some)
  have perm: "view_reverse vy x = map ((!) x) (view_reverse vy [0..<N])" if "length x = N" for x :: "'a vec"
    using view_reverse_perm [of vy x] assms(3) that by simp
  have len: "length (view_reverse vy [0..<N]) = N" by (simp add: view_reverse_def)
  note g = gather_sharing [where F = "view_reverse vy" and ix = "view_reverse vy [0..<N]", OF _ pos perm view_reverse_bound [OF assms(3)] disjI2 [OF sh_reverse_def], unfolded len]
  show "\<forall>c \<in> set (map (sh_reverse vy) cs). is_sharing n k q N c" using g(1) assms(1) by auto
  show "map reveal_b (map (sh_reverse vy) cs) = map (\<lambda>c. map ((!) c) (view_reverse vy [0..<N])) (map reveal_b cs)"
    "map reveal_a (map (sh_reverse vy) cs) = map (\<lambda>c. map ((!) c) (view_reverse vy [0..<N])) (map reveal_a cs)"
    using g(2,3) assms(1) by auto
qed

lemma column_pairs_correct:
  fixes cs :: "'a sharing list"
  assumes "\<forall>c \<in> set cs. is_sharing n k q N c" and "lv N = Some vx" and "rv N = Some vy"
  shows "column_pairs lv rv cs = Some (map (\<lambda>c. (sh_get vx c, sh_get vy c)) cs)"
proof -
  note sz = columns_size [OF assms(1) pos]
  have "\<forall>c \<in> set cs. (do { vx \<leftarrow> lv (sh_size c); vy \<leftarrow> rv (sh_size c); Some (sh_get vx c, sh_get vy c) })
      = Some (sh_get vx c, sh_get vy c)" using sz assms(2,3) by simp
  then show ?thesis unfolding column_pairs_def by (rule those_map_Some)
qed

lemma round_bits:
  fixes ks :: "'a sharing list"
  assumes "ok st" and "ks \<noteq> []" and "length order = length ks" and "\<forall>c \<in> set ks. is_sharing n k q N c"
    and v: "positions vx = ix" "positions vy = iy" and p: "pair_ok ix iy N"
  shows "\<exists>bits st'. compare_rows_ordered P (map (\<lambda>c. (sh_get vx c, sh_get vy c)) ks) order st = Some (bits, st') \<and> ok st' \<and>
    is_sharing n k 0 (length ix) bits \<and> reveal_b bits = map (\<lambda>t. of_bool
      (signed_key order (map (\<lambda>c. reveal_b c ! (iy ! t)) ks) < signed_key order (map (\<lambda>c. reveal_b c ! (ix ! t)) ks))) [0..<length ix]"
proof -
  let ?xys = "map (\<lambda>c. (sh_get vx c, sh_get vy c)) ks"
  have ln: "length iy = length ix" "total_size vx = length ix" "total_size vy = length ix"
    using p v length_positions [of vx] length_positions [of vy] by (simp_all add: pair_ok_def)
  have ixN: "\<forall>i \<in> set (positions vx). i < N" "\<forall>i \<in> set (positions vy). i < N"
    using p v by (auto simp: pair_ok_def)
  have gx: "is_sharing n k q (length ix) (sh_get vx c)" "is_sharing n k q (length ix) (sh_get vy c)"
    "reveal_b (sh_get vx c) = view_get vx (reveal_b c)" "reveal_b (sh_get vy c) = view_get vy (reveal_b c)" if "c \<in> set ks" for c
    using get_sharing [OF _ pos ixN(1), of q c] get_sharing [OF _ pos ixN(2), of q c] that assms(4) ln by auto
  have "\<forall>(x, y) \<in> set (order_rows order ?xys). is_sharing n k q (length ix) x \<and> is_sharing n k q (length ix) y"
    using gx(1,2) by (auto simp: order_rows_def elim!: in_set_zipE split: if_splits)
  moreover have "order_rows order ?xys \<noteq> []" using assms(2,3) by (cases order) (simp_all add: order_rows_def)
  ultimately obtain R st' where R: "compare_rows P (order_rows order ?xys) st = Some (R, st')" "ok st'" "is_sharing n k 0 (length ix) R"
    "reveal_b R = map (\<lambda>t. of_bool (row_at t (map snd (order_rows order ?xys)) < row_at t (map fst (order_rows order ?xys)))) [0..<length ix]"
    using compare_rows_correct [OF assms(1)] by blast
  have row: "map (\<lambda>c. reveal_b c ! t) (map fst ?xys) = map (\<lambda>c. reveal_b c ! (ix ! t)) ks"
    "map (\<lambda>c. reveal_b c ! t) (map snd ?xys) = map (\<lambda>c. reveal_b c ! (iy ! t)) ks" if "t < length ix" for t
    using that gx(3,4) ln by (auto simp: view_get_def v)
  have "reveal_b R = map (\<lambda>t. of_bool
      (signed_key order (map (\<lambda>c. reveal_b c ! (iy ! t)) ks) < signed_key order (map (\<lambda>c. reveal_b c ! (ix ! t)) ks))) [0..<length ix]"
    unfolding R(4) using assms(3) by (intro map_cong) (simp_all only: order_rows_less length_map row atLeastLessThan_iff set_upt)
  then show ?thesis using R(1-3) assms(3) by (simp add: compare_rows_ordered_def)
qed

lemma sort_round_plain:
  fixes t :: "'a shared_table"
  assumes "ok st" and "keys t \<noteq> []" and "length order = length (keys t)" and t: "table_ok n k 0 N t"
    and v: "lv N = Some vx" "rv N = Some vy" "positions vx = ix" "positions vy = iy" and p: "pair_ok ix iy N"
  shows "\<exists>t' st'. sort_round P lv rv False order t st = Some (t', st') \<and> ok st' \<and> table_ok n k 0 N t' \<and>
    length (keys t') = length (keys t) \<and>
    table_rows N t' = mix ix iy (\<lambda>i. key_gt (row_key order) (table_rows N t ! (ix ! i)) (table_rows N t ! (iy ! i))) (table_rows N t)"
proof -
  have ks: "\<forall>c \<in> set (keys t). is_sharing n k 0 N c" "\<forall>c \<in> set (data_b t). is_sharing n k 0 N c"
    "\<forall>c \<in> set (data_a t). is_sharing n k 0 N c" using t by (auto simp: table_ok_def)
  define b where "b i = (signed_key order (map (\<lambda>c. reveal_b c ! (iy ! i)) (keys t)) < signed_key order (map (\<lambda>c. reveal_b c ! (ix ! i)) (keys t)))" for i
  obtain bits st1 where c: "compare_rows_ordered P (map (\<lambda>c. (sh_get vx c, sh_get vy c)) (keys t)) order st = Some (bits, st1)" "ok st1"
    "is_sharing n k 0 (length ix) bits" "reveal_b bits = map (\<lambda>t. of_bool (b t)) [0..<length ix]"
    using round_bits [OF assms(1-3) ks(1) v(3,4) p] unfolding b_def by blast
  have bit_t: "bit (reveal_b bits ! i) 0 = b i" if "i < length ix" for i using that c(4) by simp
  obtain ks' st2 where k: "swap_b_loop P lv rv (sv_extend_lsb bits) (keys t) st1 = Some (ks', st2)" "ok st2"
    "\<forall>c \<in> set ks'. is_sharing n k 0 N c" "map reveal_b ks' = map (mix ix iy b) (map reveal_b (keys t))"
    using swap_b_loop_correct [where b = b and lv = lv and rv = rv and N = N, OF c(2,3) bit_t v p ks(1)] by blast
  obtain bs' st3 where bs: "swap_b_loop P lv rv (sv_extend_lsb bits) (data_b t) st2 = Some (bs', st3)" "ok st3"
    "\<forall>c \<in> set bs'. is_sharing n k 0 N c" "map reveal_b bs' = map (mix ix iy b) (map reveal_b (data_b t))"
    using swap_b_loop_correct [where b = b and lv = lv and rv = rv and N = N, OF k(2) c(3) bit_t v p ks(2)] by blast
  have dbrun: "(if data_b t = [] then Some ([], st2) else swap_b P lv rv bits (data_b t) st2) = Some (bs', st3)"
    using bs(1) by (auto simp: swap_b_def)
  obtain ab st4 where ab: "sv_b2a_bit P bits st3 = Some (ab, st4)" "ok st4" "is_sharing n k 0 (length ix) ab"
    "reveal_a ab = map (\<lambda>x. x AND 1) (reveal_b bits)" using sv_b2a_law [OF bs(2) c(3)] by blast
  have ab_t: "reveal_a ab ! i = of_bool (b i)" if "i < length ix" for i using that by (simp add: ab(4) c(4))
  obtain as' st5 where as: "swap_a_loop P lv rv ab (data_a t) st4 = Some (as', st5)" "ok st5"
    "\<forall>c \<in> set as'. is_sharing n k 0 N c" "map reveal_a as' = map (mix ix iy b) (map reveal_a (data_a t))"
    using swap_a_loop_correct [where b = b and lv = lv and rv = rv and N = N, OF ab(2,3) ab_t v p ks(3)] by blast
  define stf where "stf = (if data_a t = [] then st3 else st5)"
  have darun: "(if data_a t = [] then Some ([], st3) else do { (a_bits, st) \<leftarrow> sv_b2a_bit P bits st3; swap_a P lv rv a_bits (data_a t) st })
      = Some (as', stf)" using ab(1) as(1) by (auto simp: swap_a_def stf_def)
  let ?t = "\<lparr>keys = ks', data_a = as', data_b = bs'\<rparr>"
  have "sort_round P lv rv False order t st = Some (?t, stf)"
    using column_pairs_correct [where lv = lv and rv = rv, OF ks(1) v(1,2)] c(1) k(1) dbrun darun assms(2)
    by (simp add: sort_round_def swap_b_def cong: if_cong)
  moreover have "ok stf" using bs(2) as(2) by (simp add: stf_def)
  moreover have "table_ok n k 0 N ?t" using k(3) bs(3) as(3) by (auto simp: table_ok_def)
  moreover have "length ks' = length (keys t)" using k(4) by (metis length_map)
  moreover have "table_rows N ?t = mix ix iy b (table_rows N t)"
  proof -
    have col: "mix ix iy b x = map ((!) x) (mix ix iy b [0..<N])" if "length x = N" for x :: "'a vec"
      using mix_perm [of ix iy x b] p that by simp
    have colb: "map (mix ix iy b) (map reveal_b cs) = map (\<lambda>c. map ((!) c) (mix ix iy b [0..<N])) (map reveal_b cs)"
      if "\<forall>c \<in> set cs. is_sharing n k 0 N c" for cs :: "'a sharing list"
      using that len p by (intro map_cong) (auto intro!: col)
    have cola: "map (mix ix iy b) (map reveal_a cs) = map (\<lambda>c. map ((!) c) (mix ix iy b [0..<N])) (map reveal_a cs)"
      if "\<forall>c \<in> set cs. is_sharing n k 0 N c" for cs :: "'a sharing list"
      using that pos by (intro map_cong) (auto intro!: col)
    have "table_rows N ?t = map ((!) (table_rows N t)) (mix ix iy b [0..<N])"
      by (rule rows_perm) (use k(4) as(4) bs(4) colb [OF ks(1)] colb [OF ks(2)] cola [OF ks(3)] mix_bound [OF p] in simp_all)
    then show ?thesis using mix_perm [of ix iy "table_rows N t" b] p by simp
  qed
  moreover have "mix ix iy b (table_rows N t) = mix ix iy (\<lambda>i. key_gt (row_key order) (table_rows N t ! (ix ! i)) (table_rows N t ! (iy ! i))) (table_rows N t)"
  proof -
    have "b i = key_gt (row_key order) (table_rows N t ! (ix ! i)) (table_rows N t ! (iy ! i))" if "i < length ix" for i
      using that p by (simp add: b_def row_key_def table_rows_def pair_ok_def)
    then show ?thesis by (rule mix_cong)
  qed
  ultimately show ?thesis by (intro exI [of _ ?t] exI [of _ stf]) simp
qed

text \<open>Keys of another precision: the comparison runs, the swap of the first key column throws.\<close>

lemma sort_round_mismatch:
  fixes t :: "'a shared_table"
  assumes mismatch: "\<And>X Y st. is_sharing n k 0 (length ix) X \<Longrightarrow> is_sharing n k q (length ix) Y \<Longrightarrow> v_and_b P X Y st = None"
    and "ok st" and "keys t \<noteq> []" and "length order = length (keys t)" and t: "table_ok n k q N t"
    and v: "lv N = Some vx" "rv N = Some vy" "positions vx = ix" "positions vy = iy" and p: "pair_ok ix iy N"
  shows "sort_round P lv rv False order t st = None"
proof -
  have ks: "\<forall>c \<in> set (keys t). is_sharing n k q N c" using t by (auto simp: table_ok_def)
  obtain bits st1 where c: "compare_rows_ordered P (map (\<lambda>c. (sh_get vx c, sh_get vy c)) (keys t)) order st = Some (bits, st1)"
    "is_sharing n k 0 (length ix) bits" using round_bits [OF assms(2-4) ks v(3,4) p] by blast
  obtain c0 cs where k: "keys t = c0 # cs" using assms(3) by (cases "keys t") auto
  then have c0: "is_sharing n k q N c0" using ks by simp
  have ln: "total_size vx = length ix" "total_size vy = length ix"
    using p v length_positions [of vx] length_positions [of vy] by (simp_all add: pair_ok_def)
  have ixN: "\<forall>i \<in> set (positions vx). i < N" "\<forall>i \<in> set (positions vy). i < N"
    using p v(3,4) by (auto simp: pair_ok_def)
  note g = get_sharing(1) [OF c0 pos ixN(1), unfolded ln] get_sharing(1) [OF c0 pos ixN(2), unfolded ln]
  have "swap_b P lv rv bits (keys t) st1 = None"
    using mismatch [OF sv_extend_sharing(1) [OF c(2) pos] xor_sharing(1) [OF g pos]] columns_size [OF ks pos] v(1,2) k
    by (simp add: swap_b_def)
  then show ?thesis
    using column_pairs_correct [where lv = lv and rv = rv, OF ks v(1,2)] c(1) by (simp add: sort_round_def)
qed

lemma sort_round_reversed:
  fixes t :: "'a shared_table"
  assumes t: "table_ok n k q N t" and v: "rv N = Some vy" "\<forall>i \<in> set (positions vy). i < N"
    and t0: "t0 = \<lparr>keys = map (sh_reverse vy) (keys t), data_a = map (sh_reverse vy) (data_a t), data_b = map (sh_reverse vy) (data_b t)\<rparr>"
  shows "sort_round P lv rv True order t st = sort_round P lv rv False order t0 st"
    and "table_ok n k q N t0" and "table_rows N t0 = view_reverse vy (table_rows N t)"
proof -
  have ks: "\<forall>c \<in> set (keys t). is_sharing n k q N c" "\<forall>c \<in> set (data_b t). is_sharing n k q N c"
    "\<forall>c \<in> set (data_a t). is_sharing n k 0 N c" using t by (auto simp: table_ok_def)
  note r1 = reverse_columns_correct [where rv = rv, OF ks(1) v] and r2 = reverse_columns_correct [where rv = rv, OF ks(2) v]
    and r3 = reverse_columns_correct [where rv = rv, OF ks(3) v]
  show "sort_round P lv rv True order t st = sort_round P lv rv False order t0 st"
    unfolding sort_round_def t0 using r1(1) r2(1) r3(1) by (simp cong: if_cong)
  show "table_ok n k q N t0" using r1(2) r2(2) r3(2) by (auto simp: table_ok_def t0)
  have "table_rows N t0 = map ((!) (table_rows N t)) (view_reverse vy [0..<N])"
    by (rule rows_perm) (use r1(3) r2(3) r3(4) view_reverse_bound [OF v(2)] in \<open>simp_all add: t0 view_reverse_def\<close>)
  then show "table_rows N t0 = view_reverse vy (table_rows N t)"
    using view_reverse_perm [of vy "table_rows N t"] v(2) by simp
qed

end

section \<open>The views of a half cleaner\<close>

definition left_ix :: "nat \<Rightarrow> nat \<Rightarrow> nat list" where
  "left_ix s N = map (\<lambda>t. t div s * (2 * s) + t mod s) [0..<N div 2]"

definition right_ix :: "nat \<Rightarrow> nat \<Rightarrow> nat list" where
  "right_ix s N = map (\<lambda>t. s + (t div s * (2 * s) + t mod s)) [0..<N div 2]"

lemma alternating_loop_closed:
  "0 < inc \<Longrightarrow> alternating_loop inc chunk 0 rest = map (\<lambda>t. t div inc * chunk + t mod inc) [0..<rest]"
  by (rule nth_equalityI) (simp_all add: alternating_loop_length alternating_loop_nth)

lemma left_bound:
  assumes "N = 2 * s * c" and "t < N div 2" and "0 < (s :: nat)"
  shows "s + (t div s * (2 * s) + t mod s) < N"
proof -
  have "t < s * c" using assms(1,2) by simp
  then have "t div s < c" using assms(3) by (simp add: div_less_iff_less_mult mult.commute)
  then have "2 * s * Suc (t div s) \<le> 2 * s * c" by (intro mult_le_mono2) simp
  moreover have "t mod s < s" using assms(3) by simp
  ultimately show ?thesis using assms(1) by (simp add: algebra_simps)
qed

lemma bitonic_views:
  assumes N: "N = 2 * s * c" and s: "0 < s"
  shows "\<exists>v. left_view s N = Some v \<and> positions v = left_ix s N"
    and "0 < c \<Longrightarrow> \<exists>v. right_view s N = Some v \<and> positions v = right_ix s N"
proof -
  let ?js = "map (\<lambda>t. t div s * (2 * s) + t mod s) [0..<N div 2]"
  have b: "s + j < N" if "j \<in> set ?js" for j using that left_bound [OF N _ s] by auto
  have size: "N div (s + s) * s + min s (N mod (s + s)) = N div 2" using N s by (simp flip: mult_2)
  have b': "j < N" if "j \<in> set ?js" for j using b [OF that] by simp
  then have "\<forall>j \<in> set ?js. j < total_size (base N)" by simp
  then have r: "remapped (base N) ?js = Some ((base N)\<lparr>mapping := Some (map ((!) [0..<N]) ?js)\<rparr>)"
    by (simp only: remapped_Some positions_base)
  have e: "map ((!) [0..<N]) ?js = ?js"
    by (rule map_idI) (use b' in \<open>simp del: set_map\<close>)
  show "\<exists>v. left_view s N = Some v \<and> positions v = left_ix s N"
    unfolding left_view_def alternating_subset_reference_def
    using s size r e by (simp add: alternating_loop_closed left_ix_def Let_def flip: mult_2)
  assume c: "0 < c"
  then obtain c' where c': "c = Suc c'" by (cases c) auto
  have le: "s \<le> N" using N c by simp
  let ?v = "(base N)\<lparr>mapping := Some [s..<N]\<rparr>"
  have sl: "slice_from s (base N) = Some ?v"
    using le by (simp add: slice_from_def slice_def)
  have Ns: "N - s = s + 2 * s * c'" using N c' by simp
  have size': "(N - s) div (s + s) * s + min s ((N - s) mod (s + s)) = N div 2"
    using N c' s unfolding Ns by (simp add: algebra_simps flip: mult_2)
  have js: "\<forall>j \<in> set ?js. j < total_size ?v" using b by (auto simp del: set_map dest!: b)
  have e': "map ((!) (positions ?v)) ?js = right_ix s N"
    using js by (auto simp: right_ix_def)
  have "remapped ?v ?js = Some (?v\<lparr>mapping := Some (right_ix s N)\<rparr>)"
    using remapped_Some [OF js] unfolding e' .
  then show "\<exists>v. right_view s N = Some v \<and> positions v = right_ix s N"
    unfolding right_view_def sl alternating_subset_reference_def
    using s size' by (simp add: alternating_loop_closed Let_def flip: mult_2)
qed

lemma index_split:
  assumes "(2 * s) dvd N" and "i < N" and "0 < (s :: nat)"
  shows "even (i div s) \<Longrightarrow> \<exists>t < N div 2. i = t div s * (2 * s) + t mod s"
    and "odd (i div s) \<Longrightarrow> \<exists>t < N div 2. i = s + (t div s * (2 * s) + t mod s)"
proof -
  obtain c where c: "N = 2 * s * c" using assms(1) by blast
  let ?t = "i div (2 * s) * s + i mod s"
  have m: "i mod s < s" using assms(3) by simp
  have q: "?t div s = i div (2 * s)" "?t mod s = i mod s" using assms(3) by simp_all
  have "i div (2 * s) < c" using assms(2,3) c by (simp add: div_less_iff_less_mult mult.commute)
  then have "(i div (2 * s) + 1) * s \<le> c * s" by (intro mult_le_mono1) simp
  then have t: "?t < N div 2" using m c by (simp add: algebra_simps)
  have h: "i div s div 2 = i div (2 * s)" by (simp add: div_mult2_eq mult.commute [of 2])
  have e: "i = i div s * s + i mod s" by simp
  show "\<exists>t < N div 2. i = t div s * (2 * s) + t mod s" if "even (i div s)"
  proof (intro exI conjI)
    show "?t < N div 2" by (rule t)
    have "i div s = 2 * (i div (2 * s))" using that h by (metis dvd_mult_div_cancel)
    then show "i = ?t div s * (2 * s) + ?t mod s" unfolding q using e by (metis mult.assoc mult.commute)
  qed
  show "\<exists>t < N div 2. i = s + (t div s * (2 * s) + t mod s)" if "odd (i div s)"
  proof (intro exI conjI)
    show "?t < N div 2" by (rule t)
    have "i div s = 2 * (i div (2 * s)) + 1" using that h by (metis odd_two_times_div_two_succ)
    then have "i = (2 * (i div (2 * s)) + 1) * s + i mod s" using e by metis
    then show "i = s + (?t div s * (2 * s) + ?t mod s)" unfolding q by (simp add: algebra_simps)
  qed
qed

lemma left_form:
  "t div s * (2 * s) + t mod s = t mod s + s * (2 * (t div s))"
  "s + (t div s * (2 * s) + t mod s) = t mod s + s * (2 * (t div s) + 1)" for s t :: nat
  by (simp_all add: algebra_simps)

lemma left_right_div:
  assumes "0 < (s :: nat)"
  shows "(t div s * (2 * s) + t mod s) div s = 2 * (t div s)" and "(s + (t div s * (2 * s) + t mod s)) div s = 2 * (t div s) + 1"
proof -
  have "(t mod s + s * x) div s = x" for x using assms by (simp only: div_mult_self2) simp
  then show "(t div s * (2 * s) + t mod s) div s = 2 * (t div s)" "(s + (t div s * (2 * s) + t mod s)) div s = 2 * (t div s) + 1"
    by (simp_all only: left_form(2)) (simp_all only: left_form(1))
qed

lemma left_inj:
  assumes "t div s * (2 * s) + t mod s = t' div s * (2 * s) + t' mod (s :: nat)" and "0 < s"
  shows "t = t'"
proof -
  have "(u div s * (2 * s) + u mod s) mod s = u mod s" for u unfolding left_form(1) by simp
  then have "t mod s = t' mod s" using assms(1) by metis
  moreover have "t div s = t' div s" using left_right_div(1) [OF assms(2), of t] left_right_div(1) [OF assms(2), of t'] assms(1) by simp
  ultimately show ?thesis by (metis div_mult_mod_eq)
qed

lemma pair_ok_views:
  assumes "(2 * s) dvd N" and "0 < s"
  shows "pair_ok (left_ix s N) (right_ix s N) N"
proof -
  obtain c where c: "N = 2 * s * c" using assms(1) by blast
  have "inj_on (\<lambda>t. t div s * (2 * s) + t mod s) {0..<N div 2}" by (rule inj_onI) (rule left_inj [OF _ assms(2)])
  moreover have "inj_on (\<lambda>t. s + (t div s * (2 * s) + t mod s)) {0..<N div 2}"
    by (rule inj_onI) (rule left_inj [OF _ assms(2)], rule add_left_imp_eq)
  moreover have "t div s * (2 * s) + t mod s \<noteq> s + (t' div s * (2 * s) + t' mod s)" for t t'
    using left_right_div [OF assms(2), of t] left_right_div [OF assms(2), of t'] by (metis Suc_eq_plus1 double_not_eq_Suc_double)
  moreover have "t div s * (2 * s) + t mod s < N" "s + (t div s * (2 * s) + t mod s) < N" if "t < N div 2" for t
    using left_bound [OF c that assms(2)] by simp_all
  ultimately show ?thesis by (auto simp: pair_ok_def left_ix_def right_ix_def distinct_map)
qed

lemma mix_clean:
  assumes "(2 * s) dvd length R" and "0 < s"
  shows "mix (left_ix s (length R)) (right_ix s (length R)) (\<lambda>i. gt (R ! (left_ix s (length R) ! i)) (R ! (right_ix s (length R) ! i))) R
    = clean_rows gt s R"
proof (rule nth_equalityI)
  let ?ix = "left_ix s (length R)" and ?iy = "right_ix s (length R)"
  note p = pair_ok_views [OF assms]
  fix i assume "i < length (mix ?ix ?iy (\<lambda>i. gt (R ! (?ix ! i)) (R ! (?iy ! i))) R)"
  then have i: "i < length R" by simp
  show "mix ?ix ?iy (\<lambda>i. gt (R ! (?ix ! i)) (R ! (?iy ! i))) R ! i = clean_rows gt s R ! i"
  proof (cases "even (i div s)")
    case True
    then obtain t where t: "t < length R div 2" "i = t div s * (2 * s) + t mod s" using index_split(1) [OF assms(1) i assms(2)] by blast
    then have "i = ?ix ! t" "i + s = ?iy ! t" "t < length ?ix" by (simp_all add: left_ix_def right_ix_def)
    then show ?thesis using nth_mix(1) [OF p, of t] True i by (simp add: clean_rows_def)
  next
    case False
    then obtain t where t: "t < length R div 2" "i = s + (t div s * (2 * s) + t mod s)" using index_split(2) [OF assms(1) i assms(2)] by blast
    then have "i = ?iy ! t" "i - s = ?ix ! t" "t < length ?ix" by (simp_all add: left_ix_def right_ix_def)
    then show ?thesis using nth_mix(2) [OF p, of t] False i by (simp add: clean_rows_def)
  qed
qed simp

lemma reverse_flip:
  assumes "(2 * s) dvd length R" and "0 < s" and "positions v = right_ix s (length R)"
  shows "view_reverse v R = flip_rows s R"
proof (rule nth_equalityI)
  let ?iy = "right_ix s (length R)" and ?M = "length R div 2"
  obtain c where c: "length R = 2 * s * c" using assms(1) by blast
  have p: "distinct ?iy" "\<forall>i \<in> set ?iy. i < length R" using pair_ok_views [OF assms(1,2)] by (auto simp: pair_ok_def)
  have lM: "length ?iy = ?M" by (simp add: right_ix_def)
  show "length (view_reverse v R) = length (flip_rows s R)" by (simp add: view_reverse_def)
  fix i assume "i < length (view_reverse v R)"
  then have i: "i < length R" by (simp add: view_reverse_def)
  show "view_reverse v R ! i = flip_rows s R ! i"
  proof (cases "even (i div s)")
    case True
    have "i \<notin> set ?iy" using True left_right_div(2) [OF assms(2)] by (auto simp: right_ix_def)
    then show ?thesis using True i by (simp add: view_reverse_def assms(3) nth_scatter_other flip_rows_def)
  next
    case False
    then obtain t where t: "t < ?M" "i = s + (t div s * (2 * s) + t mod s)" using index_split(2) [OF assms(1) i assms(2)] by blast
    define e where "e = t div s"
    have m: "t mod s < s" using assms(2) by simp
    have te: "t = e * s + t mod s" by (simp add: e_def)
    have ec: "e < c" using t(1) c assms(2) by (simp add: e_def div_less_iff_less_mult mult.commute)
    then obtain f where f: "c = e + f + 1" by (metis add.commute add_Suc_right less_iff_Suc_add Suc_eq_plus1)
    have rt: "?M - 1 - t = f * s + (s - 1 - t mod s)"
    proof -
      have "?M = e * s + f * s + s" using c f by (simp add: algebra_simps)
      then show ?thesis using te m by simp
    qed
    have "s - 1 - t mod s < s" using m by simp
    then have q: "(?M - 1 - t) div s = f" "(?M - 1 - t) mod s = s - 1 - t mod s"
      unfolding rt by (simp_all del: diff_diff_left)
    have "view_reverse v R ! i = rev (map ((!) R) ?iy) ! t"
      using nth_scatter [of ?iy "rev (map ((!) R) ?iy)" t R] p t lM
      by (simp add: view_reverse_def assms(3) view_get_def right_ix_def)
    also have "\<dots> = R ! (?iy ! (?M - 1 - t))" using t(1) lM by (simp add: rev_nth)
    also have "?iy ! (?M - 1 - t) = length R - 1 + s - i"
    proof -
      have "?iy ! (?M - 1 - t) = s + (f * (2 * s) + (s - 1 - t mod s))" using t(1) q by (simp add: right_ix_def)
      moreover have "length R = 2 * s * e + 2 * s * f + 2 * s" using c f by (simp add: algebra_simps)
      moreover have "i = s + (2 * s * e + t mod s)" using t(2) by (simp add: e_def mult.commute)
      moreover have "f * (2 * s) = 2 * s * f" by simp
      ultimately show ?thesis using m by linarith
    qed
    finally show ?thesis using False i by (simp add: flip_rows_def)
  qed
qed

section \<open>Bitonic sort and merge\<close>

lemma log2_floor_power: "log2_floor (2 ^ r) = r"
proof (induction r)
  case 0
  then show ?case by (simp add: log2_floor.simps)
next
  case (Suc r)
  have "(1 :: nat) \<le> 2 ^ r" by simp
  then have "\<not> (2 :: nat) ^ Suc r \<le> 1" unfolding power_Suc by linarith
  then show ?case using Suc by (subst log2_floor.simps) simp
qed

lemma clean_all_rounds:
  "clean_all gt i R = foldl (\<lambda>R s. clean_rows gt s R) R (map (\<lambda>j. 2 ^ (i - j)) [0..<Suc i])"
proof (induction i arbitrary: R)
  case (Suc i)
  have "map (\<lambda>j. (2 :: nat) ^ (Suc i - j)) [0..<Suc (Suc i)] = 2 ^ Suc i # map (\<lambda>j. 2 ^ (i - j)) [0..<Suc i]"
    by (simp only: upt_conv_Cons [of 0 "Suc (Suc i)"] map_Suc_upt [symmetric] list.map map_map) (simp add: comp_def)
  then show ?case using Suc by (simp only: clean_all.simps foldl.simps)
qed simp

lemma foldl_plain_rounds:
  "foldl (\<lambda>R (s, r). clean_rows gt s (if r then flip_rows s R else R)) U (map (\<lambda>j. (f j, False)) js)
    = foldl (\<lambda>R s. clean_rows gt s R) U (map f js)"
  by (induction js arbitrary: U) simp_all

context arithmetic_protocol
begin

lemma sort_round_clean:
  fixes t :: "'a shared_table"
  assumes "ok st" and "keys t \<noteq> []" and "length order = length (keys t)" and t: "table_ok n k 0 N t"
    and N: "(2 * s) dvd N" "0 < s" "0 < N" and rv: "rv N = right_view s N"
  shows "\<exists>t' st'. sort_round P (left_view s) rv r order t st = Some (t', st') \<and> ok st' \<and> table_ok n k 0 N t' \<and>
    length (keys t') = length (keys t) \<and>
    table_rows N t' = clean_rows (key_gt (row_key order)) s (if r then flip_rows s (table_rows N t) else table_rows N t)"
proof -
  obtain c where c: "N = 2 * s * c" using N(1) by blast
  have c0: "0 < c" using c N(3) by (cases c) auto
  obtain vx vy where v: "left_view s N = Some vx" "rv N = Some vy" "positions vx = left_ix s N" "positions vy = right_ix s N"
    using bitonic_views [OF c N(2)] c0 rv by auto
  note p = pair_ok_views [OF N(1,2)]
  have plain: "\<exists>t' st'. sort_round P (left_view s) rv False order u st = Some (t', st') \<and> ok st' \<and> table_ok n k 0 N t' \<and>
    length (keys t') = length (keys u) \<and> table_rows N t' = clean_rows (key_gt (row_key order)) s (table_rows N u)"
    if "keys u \<noteq> []" "length order = length (keys u)" "table_ok n k 0 N u" for u
    using sort_round_plain [where lv = "left_view s" and rv = rv, OF assms(1) that v p]
      mix_clean [where s = s and R = "table_rows N u" and gt = "key_gt (row_key order)"] N(1,2) by simp
  show ?thesis
  proof (cases r)
    case False
    then show ?thesis using plain [OF assms(2,3) t] by simp
  next
    case True
    have vb: "\<forall>i \<in> set (positions vy). i < N" using p v(4) by (auto simp: pair_ok_def)
    let ?t0 = "\<lparr>keys = map (sh_reverse vy) (keys t), data_a = map (sh_reverse vy) (data_a t), data_b = map (sh_reverse vy) (data_b t)\<rparr>"
    note r0 = sort_round_reversed [where rv = rv, OF t v(2) vb refl]
    have "table_rows N ?t0 = flip_rows s (table_rows N t)"
      using r0(3) reverse_flip [of s "table_rows N t" vy] N(1,2) v(4) by simp
    then show ?thesis using True plain [of ?t0] assms(2,3) r0(1,2) by simp
  qed
qed

lemma run_rounds_append:
  "run_rounds P rv order (rs @ rs') t st = do { (t, st) \<leftarrow> run_rounds P rv order rs t st; run_rounds P rv order rs' t st }"
  by (induction rs arbitrary: t st) (simp_all add: case_prod_beta split: bind_splits)

definition rounds_spec :: "sort_order list \<Rightarrow> (nat \<times> bool) list \<Rightarrow> 'a table_row list \<Rightarrow> 'a table_row list" where
  "rounds_spec order rs R = foldl (\<lambda>R (s, r). clean_rows (key_gt (row_key order)) s (if r then flip_rows s R else R)) R rs"

lemma run_rounds_correct:
  fixes t :: "'a shared_table"
  assumes "ok st" and "keys t \<noteq> []" and "length order = length (keys t)" and "table_ok n k 0 N t" and "0 < N"
    and "\<forall>(s, r) \<in> set rs. (2 * s) dvd N \<and> 0 < s" and "\<And>s. rv s N = right_view s N"
  shows "\<exists>t' st'. run_rounds P rv order rs t st = Some (t', st') \<and> ok st' \<and> table_ok n k 0 N t' \<and>
    length (keys t') = length (keys t) \<and> table_rows N t' = rounds_spec order rs (table_rows N t)"
  using assms
proof (induction rs arbitrary: t st)
  case (Cons sr rs)
  obtain s r where sr: "sr = (s, r)" by (cases sr)
  have "(2 * s) dvd N" "0 < s" using Cons.prems(6) sr by simp_all
  then obtain t1 st1 where 1: "sort_round P (left_view s) (rv s) r order t st = Some (t1, st1)" "ok st1" "table_ok n k 0 N t1"
    "length (keys t1) = length (keys t)"
    "table_rows N t1 = clean_rows (key_gt (row_key order)) s (if r then flip_rows s (table_rows N t) else table_rows N t)"
    using sort_round_clean [where rv = "rv s", OF Cons.prems(1-4) _ _ Cons.prems(5,7)] by blast
  have "keys t1 \<noteq> []" "length order = length (keys t1)" using 1(4) Cons.prems(2,3) by auto
  then obtain t' st' where "run_rounds P rv order rs t1 st1 = Some (t', st')" "ok st'" "table_ok n k 0 N t'"
    "length (keys t') = length (keys t1)" "table_rows N t' = rounds_spec order rs (table_rows N t1)"
    using Cons.IH [OF 1(2) _ _ 1(3) Cons.prems(5) _ Cons.prems(7)] Cons.prems(6) by auto
  then show ?case using 1 sr by (simp add: rounds_spec_def)
qed (simp add: rounds_spec_def)

lemma rounds_spec_bitonic:
  "rounds_spec order (bitonic_rounds r) R = bitonic_rows (key_gt (row_key order)) r R"
proof (induction r)
  case (Suc r)
  have tl: "map (\<lambda>j. ((2 :: nat) ^ (r - j), j = 0)) [0..<Suc r] = (2 ^ r, True) # map (\<lambda>j. (2 ^ (r - j), False)) [1..<Suc r]"
  proof -
    have "[0..<Suc r] = 0 # [1..<Suc r]" by (subst upt_conv_Cons) simp_all
    moreover have "map (\<lambda>j. ((2 :: nat) ^ (r - j), j = 0)) [1..<Suc r] = map (\<lambda>j. (2 ^ (r - j), False)) [1..<Suc r]"
      by (intro map_cong) auto
    ultimately show ?thesis by (simp only: list.map diff_zero refl)
  qed
  have "bitonic_rounds (Suc r) = bitonic_rounds r @ (2 ^ r, True) # map (\<lambda>j. (2 ^ (r - j), False)) [1..<Suc r]"
  proof -
    define F where "F i = map (\<lambda>j. ((2 :: nat) ^ (i - j), j = (0 :: nat))) [0..<Suc i]" for i :: nat
    have "bitonic_rounds m = concat (map F [0..<m])" for m unfolding bitonic_rounds_def F_def ..
    then have "bitonic_rounds (Suc r) = bitonic_rounds r @ F r" by simp
    then show ?thesis unfolding F_def tl .
  qed
  moreover have "clean_all gt r U = foldl (\<lambda>R s. clean_rows gt s R) (clean_rows gt (2 ^ r) U) (map (\<lambda>j. 2 ^ (r - j)) [1..<Suc r])"
    for gt :: "'a table_row \<Rightarrow> 'a table_row \<Rightarrow> bool" and U
    unfolding clean_all_rounds by (simp only: upt_conv_Cons [of 0 "Suc r"]) simp
  ultimately show ?case using Suc by (simp add: rounds_spec_def foldl_plain_rounds del: upt_Suc)
qed (simp add: rounds_spec_def bitonic_rounds_def)

theorem bitonic_sort_correct:
  fixes t :: "'a shared_table"
  assumes "ok st" and "keys t \<noteq> []" and "length order = length (keys t)" and "table_ok n k 0 (2 ^ r) t" and "r \<le> 31"
  shows "\<exists>t' st'. bitonic_sort P t order st = Some (t', st') \<and> ok st' \<and> table_ok n k 0 (2 ^ r) t' \<and>
    sorted (map (row_key order) (table_rows (2 ^ r) t')) \<and> mset (table_rows (2 ^ r) t') = mset (table_rows (2 ^ r) t)"
proof -
  have "\<forall>c \<in> set (keys t). is_sharing n k 0 (2 ^ r) c" using assms(4) by (simp add: table_ok_def)
  note sz = columns_size [OF this pos]
  have "sh_size (keys t ! 0) = 2 ^ r" using sz assms(2) by simp
  moreover have "list_all (\<lambda>c. is_power_of_two (sh_size c)) (keys t)"
    using sz by (simp add: list_all_iff is_power_of_two_def log2_floor_power)
  ultimately have run: "bitonic_sort P t order st = run_rounds P right_view order (bitonic_rounds r) t st"
    using assms(2,5) by (simp add: bitonic_sort_def log2_floor_power)
  have "\<forall>(s, b) \<in> set (bitonic_rounds r). (2 * s) dvd 2 ^ r \<and> 0 < s"
  proof -
    have "2 * (2 :: nat) ^ (i - j) dvd 2 ^ r" if "i < r" for i j
      using le_imp_power_dvd [of "Suc (i - j)" r "2 :: nat"] that by simp
    then show ?thesis by (auto simp: bitonic_rounds_def)
  qed
  then obtain t' st' where t': "run_rounds P right_view order (bitonic_rounds r) t st = Some (t', st')" "ok st'" "table_ok n k 0 (2 ^ r) t'"
    "table_rows (2 ^ r) t' = rounds_spec order (bitonic_rounds r) (table_rows (2 ^ r) t)"
    using run_rounds_correct [where rv = right_view, OF assms(1-4), of "bitonic_rounds r"] by auto
  then show ?thesis
    using run bitonic_rows_sorted [of "table_rows (2 ^ r) t" r "row_key order"] mset_bitonic_rows [of r "table_rows (2 ^ r) t"]
    by (simp add: rounds_spec_bitonic)
qed

theorem bitonic_sort_mismatch:
  fixes t :: "'a shared_table"
  assumes mismatch: "\<And>m X Y st. is_sharing n k 0 m X \<Longrightarrow> is_sharing n k q m Y \<Longrightarrow> 0 < m \<Longrightarrow> v_and_b P X Y st = None"
    and "ok st" and "keys t \<noteq> []" and "length order = length (keys t)" and t: "table_ok n k q (2 ^ Suc r) t"
  shows "bitonic_sort P t order st = None"
proof -
  let ?N = "2 ^ Suc r :: nat"
  have c: "?N = 2 * 1 * 2 ^ r" by simp
  obtain vx vy where v: "left_view 1 ?N = Some vx" "right_view 1 ?N = Some vy" "positions vx = left_ix 1 ?N" "positions vy = right_ix 1 ?N"
    using bitonic_views [OF c] by auto
  have p: "pair_ok (left_ix 1 ?N) (right_ix 1 ?N) ?N" by (rule pair_ok_views) simp_all
  have vb: "\<forall>i \<in> set (positions vy). i < ?N" using p v(4) by (auto simp: pair_ok_def)
  let ?t0 = "\<lparr>keys = map (sh_reverse vy) (keys t), data_a = map (sh_reverse vy) (data_a t), data_b = map (sh_reverse vy) (data_b t)\<rparr>"
  note r0 = sort_round_reversed [where rv = "right_view 1", OF t v(2) vb refl]
  have "sort_round P (left_view 1) (right_view 1) False order ?t0 st = None"
    by (rule sort_round_mismatch [where lv = "left_view 1" and rv = "right_view 1", OF _ assms(2) _ _ r0(2) v p])
      (use mismatch assms(3,4) in \<open>simp_all add: left_ix_def\<close>)
  then have "run_rounds P right_view order (bitonic_rounds (Suc r)) t st = None"
    using r0(1) by (simp add: bitonic_rounds_def upt_conv_Cons del: upt_Suc)
  moreover have "\<forall>c \<in> set (keys t). is_sharing n k q ?N c" using t by (simp add: table_ok_def)
  then have "\<forall>c \<in> set (keys t). sh_size c = ?N" by (rule columns_size [OF _ pos])
  then have "sh_size (keys t ! 0) = ?N" using assms(3) by simp
  ultimately show ?thesis by (simp add: bitonic_sort_def log2_floor_power del: power_Suc)
qed

lemma second_half_reversed:
  fixes t :: "'a shared_table"
  assumes "keys t \<noteq> []" and t: "table_ok n k 0 (2 ^ Suc r) t"
  shows "\<exists>t0. bitonic_merge_reverse_second_half t = Some t0 \<and> table_ok n k 0 (2 ^ Suc r) t0 \<and>
    length (keys t0) = length (keys t) \<and> table_rows (2 ^ Suc r) t0 = flip_rows (2 ^ r) (table_rows (2 ^ Suc r) t)"
proof -
  let ?N = "2 ^ Suc r :: nat" and ?h = "2 ^ r :: nat"
  have ks: "\<forall>c \<in> set (keys t). is_sharing n k 0 ?N c" "\<forall>c \<in> set (data_b t). is_sharing n k 0 ?N c"
    "\<forall>c \<in> set (data_a t). is_sharing n k 0 ?N c" using t by (auto simp: table_ok_def)
  have rows: "sh_size (keys t ! 0) = ?N" using columns_size [OF ks(1) pos] assms(1) by simp
  let ?rv = "\<lambda>n. slice ?h ?N (base n)"
  define v where "v = (base ?N)\<lparr>mapping := Some [?h..<?N]\<rparr>"
  have v: "?rv ?N = Some v" by (simp add: slice_def v_def mult_2)
  have pv: "positions v = right_ix ?h ?N"
    by (rule nth_equalityI) (simp_all add: v_def right_ix_def)
  have vb: "\<forall>i \<in> set (positions v). i < ?N" by (auto simp: v_def)
  note r1 = reverse_columns_correct [where rv = ?rv, OF ks(1) v vb] and r2 = reverse_columns_correct [where rv = ?rv, OF ks(2) v vb]
    and r3 = reverse_columns_correct [where rv = ?rv, OF ks(3) v vb]
  let ?t0 = "\<lparr>keys = map (sh_reverse v) (keys t), data_a = map (sh_reverse v) (data_a t), data_b = map (sh_reverse v) (data_b t)\<rparr>"
  have "bitonic_merge_reverse_second_half t = Some ?t0"
    using r1(1) r2(1) r3(1) rows by (simp add: bitonic_merge_reverse_second_half_def Let_def)
  moreover have "table_ok n k 0 ?N ?t0" using r1(2) r2(2) r3(2) by (auto simp: table_ok_def)
  moreover have "table_rows ?N ?t0 = map ((!) (table_rows ?N t)) (view_reverse v [0..<?N])"
    by (rule rows_perm) (use r1(3) r2(3) r3(4) view_reverse_bound [OF vb] in \<open>simp_all add: view_reverse_def\<close>)
  then have "table_rows ?N ?t0 = view_reverse v (table_rows ?N t)" using view_reverse_perm [of v "table_rows ?N t"] vb by simp
  then have "table_rows ?N ?t0 = flip_rows ?h (table_rows ?N t)" using reverse_flip [of ?h "table_rows ?N t" v] pv by simp
  ultimately show ?thesis by (intro exI [of _ ?t0]) simp
qed

theorem bitonic_merge_correct:
  fixes t :: "'a shared_table"
  assumes "ok st" and "keys t \<noteq> []" and "length order = length (keys t)" and t: "table_ok n k 0 (2 ^ Suc r) t"
    and "sorted (map (row_key order) (take (2 ^ r) (table_rows (2 ^ Suc r) t)))"
    and "sorted (map (row_key order) (drop (2 ^ r) (table_rows (2 ^ Suc r) t)))"
  shows "\<exists>t' st'. bitonic_merge P t order st = Some (t', st') \<and> ok st' \<and> table_ok n k 0 (2 ^ Suc r) t' \<and>
    sorted (map (row_key order) (table_rows (2 ^ Suc r) t')) \<and> mset (table_rows (2 ^ Suc r) t') = mset (table_rows (2 ^ Suc r) t)"
proof -
  let ?N = "2 ^ Suc r :: nat"
  let ?rs = "map (\<lambda>i. (?N div 2 ^ Suc i, False)) [0..<Suc r]"
  obtain t0 where t0: "bitonic_merge_reverse_second_half t = Some t0" "table_ok n k 0 ?N t0" "length (keys t0) = length (keys t)"
    "table_rows ?N t0 = flip_rows (2 ^ r) (table_rows ?N t)" using second_half_reversed [OF assms(2) t] by blast
  have k0: "keys t0 \<noteq> []" "length order = length (keys t0)" using t0(3) assms(2,3) by auto
  have sz: "\<forall>c \<in> set (keys u). sh_size c = ?N" if "table_ok n k 0 ?N u" for u
    using columns_size [OF _ pos] that by (auto simp: table_ok_def)
  have "list_all (\<lambda>c. is_power_of_two (sh_size c)) (keys t)"
    using sz [OF t] by (simp add: list_all_iff is_power_of_two_def log2_floor_power del: power_Suc)
  moreover have "sh_size (keys t0 ! 0) = ?N" using sz [OF t0(2)] k0(1) by simp
  ultimately have run: "bitonic_merge P t order st = run_rounds P (merge_right_view ?N) order ?rs t0 st"
    using assms(2) t0(1) by (simp add: bitonic_merge_def log2_floor_power Let_def del: power_Suc upt_Suc)
  have d: "?N div 2 ^ Suc i = 2 ^ (r - i)" if "i < Suc r" for i
    using that by (simp add: power_diff)
  have "\<forall>(s, b) \<in> set ?rs. (2 * s) dvd ?N \<and> 0 < s"
  proof -
    have "2 * (2 :: nat) ^ (r - i) dvd ?N" for i using le_imp_power_dvd [of "Suc (r - i)" "Suc r" "2 :: nat"] by simp
    then show ?thesis using d by (auto simp del: power_Suc upt_Suc)
  qed
  then obtain t' st' where t': "run_rounds P (merge_right_view ?N) order ?rs t0 st = Some (t', st')" "ok st'" "table_ok n k 0 ?N t'"
    "table_rows ?N t' = rounds_spec order ?rs (table_rows ?N t0)"
    using run_rounds_correct [where rv = "merge_right_view ?N", OF assms(1) k0 t0(2), of ?rs]
    by (auto simp: merge_right_view_def right_view_def slice_from_def simp del: power_Suc)
  have "map (\<lambda>i. ?N div 2 ^ Suc i) [0..<Suc r] = map (\<lambda>j. 2 ^ (r - j)) [0..<Suc r]"
    using d by (intro map_cong) (simp_all del: power_Suc upt_Suc)
  then have "rounds_spec order ?rs (table_rows ?N t0) = clean_all (key_gt (row_key order)) r (table_rows ?N t0)"
    unfolding rounds_spec_def clean_all_rounds foldl_plain_rounds by (simp only:)
  then show ?thesis
    using run t' t0(4) merge_rows_sorted [of "table_rows ?N t" r "row_key order"] assms(5,6)
      mset_clean_all [of r "table_rows ?N t0"] mset_flip_rows [of "2 ^ r" "table_rows ?N t"] by simp
qed

end

end
