(* ===== verification/Pairwise_Network.thy ===== *)
theory Pairwise_Network
  imports Sorting_Network
begin

text \<open>
  The comparator stages behind \<open>pairwise_sort\<close> (\<open>sorting_network.h\<close>) and \<open>odd_even_merge\<close> (\<open>merge.h\<close>) on plain lists.
  A stage \<open>(s, b, d)\<close> exchanges every element of a block of size \<open>s\<close> with parity \<open>b\<close> with the element \<open>d\<close> places
  further, when there is one.  By the zero-one principle it is enough to sort truth values.  Both networks split into the
  same network on the elements with even index and on those with odd index, followed by a merge of the two, in which the
  numbers of zeros of the two come together; a list whose length is no power of two is padded with ones, which no
  comparator moves.
\<close>

section \<open>Stages\<close>

type_synonym comparator = "nat \<times> bool \<times> nat"

fun stage :: "('r \<Rightarrow> 'r \<Rightarrow> bool) \<Rightarrow> comparator \<Rightarrow> 'r list \<Rightarrow> 'r list" where
  "stage gt (s, b, d) R = map (\<lambda>i.
     if odd (i div s) = b \<and> i + d < length R then (if gt (R ! i) (R ! (i + d)) then R ! (i + d) else R ! i)
     else if odd (i div s) \<noteq> b \<and> d \<le> i then (if gt (R ! (i - d)) (R ! i) then R ! (i - d) else R ! i)
     else R ! i) [0..<length R]"

declare stage.simps [simp del]

definition stages :: "('r \<Rightarrow> 'r \<Rightarrow> bool) \<Rightarrow> comparator list \<Rightarrow> 'r list \<Rightarrow> 'r list" where
  "stages gt cs R = foldl (\<lambda>R c. stage gt c R) R cs"

fun stage_ok :: "comparator \<Rightarrow> bool" where
  "stage_ok (s, b, d) \<longleftrightarrow> 0 < s \<and> (\<exists>c. odd c \<and> d = c * s)"

fun double :: "comparator \<Rightarrow> comparator" where
  "double (s, b, d) = (2 * s, b, 2 * d)"

lemma length_stage [simp]: "length (stage gt c R) = length R"
  by (cases c) (simp add: stage.simps)

lemma stages_simps [simp]: "stages gt [] R = R" "stages gt (c # cs) R = stages gt cs (stage gt c R)"
  "stages gt (cs @ cs') R = stages gt cs' (stages gt cs R)"
  by (simp_all add: stages_def)

lemma length_stages [simp]: "length (stages gt cs R) = length R"
  by (induction cs arbitrary: R) simp_all

lemma stage_ok_double: "stage_ok c \<Longrightarrow> stage_ok (double c)"
  by (cases c) (auto simp: mult.left_commute)

lemma block_shift:
  assumes "0 < s" and "odd c"
  shows "odd ((i + c * s) div s) \<longleftrightarrow> even ((i :: nat) div s)"
  using assms by (simp add: div_mult_self3)

lemma map_stage:
  assumes "\<And>x y. f (if gt x y then y else x) = (if gt' (f x) (f y) then f y else f x)"
    and "\<And>x y. f (if gt x y then x else y) = (if gt' (f x) (f y) then f x else f y)"
  shows "map f (stage gt c R) = stage gt' c (map f R)"
proof (cases c)
  case (fields s b d)
  show ?thesis unfolding fields
  proof (rule nth_equalityI)
    fix i assume "i < length (map f (stage gt (s, b, d) R))"
    then show "map f (stage gt (s, b, d) R) ! i = stage gt' (s, b, d) (map f R) ! i"
      using assms(1) [of "R ! i" "R ! (i + d)"] assms(2) [of "R ! (i - d)" "R ! i"]
      by (auto simp: stage.simps split: if_splits)
  qed simp
qed

lemma map_stages:
  assumes "\<And>x y. f (if gt x y then y else x) = (if gt' (f x) (f y) then f y else f x)"
    and "\<And>x y. f (if gt x y then x else y) = (if gt' (f x) (f y) then f x else f y)"
  shows "map f (stages gt cs R) = stages gt' cs (map f R)"
  by (induction cs arbitrary: R) (simp_all add: map_stage [where f = f and gt = gt and gt' = gt', OF assms])

lemma mset_stage:
  assumes "stage_ok c"
  shows "mset (stage gt c R) = mset R"
proof (cases c)
  case (fields s b d)
  obtain e where e: "0 < s" "odd e" "d = e * s" using assms fields by auto
  define p where "p i = (if odd (i div s) = b \<and> i + d < length R then (if gt (R ! i) (R ! (i + d)) then i + d else i)
     else if odd (i div s) \<noteq> b \<and> d \<le> i then (if gt (R ! (i - d)) (R ! i) then i - d else i) else i)" for i
  have up: "odd ((i + d) div s) = b \<longleftrightarrow> odd (i div s) \<noteq> b" for i using block_shift [OF e(1,2)] e(3) by auto
  have down: "odd ((i - d) div s) = b \<longleftrightarrow> odd (i div s) \<noteq> b" if "d \<le> i" for i using up [of "i - d"] that by auto
  have "p i < length R \<and> p (p i) = i" if "i < length R" for i
    using that up [of i] down [of i] by (auto simp: p_def)
  then have "mset (map (\<lambda>i. R ! p i) [0..<length R]) = mset R" by (rule involution_perm)
  moreover have "stage gt c R = map (\<lambda>i. R ! p i) [0..<length R]"
    unfolding fields stage.simps p_def by (intro map_cong) auto
  ultimately show ?thesis by simp
qed

lemma mset_stages: "\<forall>c \<in> set cs. stage_ok c \<Longrightarrow> mset (stages gt cs R) = mset R"
  by (induction cs arbitrary: R) (simp_all add: mset_stage)

section \<open>Truth values\<close>

lemma nth_stage01:
  "i < length v \<Longrightarrow> stage gt01 (s, b, d) v ! i =
    (if odd (i div s) = b \<and> i + d < length v then v ! i \<and> v ! (i + d)
     else if odd (i div s) \<noteq> b \<and> d \<le> i then v ! (i - d) \<or> v ! i else v ! i)"
  by (auto simp: stage.simps gt01_def)

lemma stage_pad: "stage gt01 c (v @ replicate j True) = stage gt01 c v @ replicate j True"
proof (cases c)
  case (fields s b d)
  show ?thesis unfolding fields
    by (rule nth_equalityI) (auto simp: nth_stage01 nth_append)
qed

lemma stages_pad: "stages gt01 cs (v @ replicate j True) = stages gt01 cs v @ replicate j True"
  by (induction cs arbitrary: v) (simp_all add: stage_pad)

text \<open>The elements with even and with odd index.\<close>

definition half :: "nat \<Rightarrow> 'b list \<Rightarrow> 'b list" where
  "half o' v = map (\<lambda>i. v ! (2 * i + o')) [0..<length v div 2]"

lemma length_half [simp]: "length (half o' v) = length v div 2"
  by (simp add: half_def)

lemma half_stage:
  assumes "even (length v)" and "o' < 2"
  shows "half o' (stage gt01 (double c) v) = stage gt01 c (half o' v)"
proof (cases c)
  case (fields s b d)
  have q: "(2 * i + o') div (2 * s) = i div s" for i using assms(2) by (simp add: div_mult2_eq)
  have b: "2 * i + o' + 2 * d < length v \<longleftrightarrow> i + d < length v div 2" for i using assms by auto
  have l: "2 * d \<le> 2 * i + o' \<longleftrightarrow> d \<le> i" for i using assms(2) by auto
  show ?thesis unfolding fields
  proof (rule nth_equalityI)
    fix i assume "i < length (half o' (stage gt01 (double (s, b, d)) v))"
    then have i: "i < length v div 2" by simp
    then have "2 * i + o' < length v" using assms by auto
    moreover have "2 * i + o' - 2 * d = 2 * (i - d) + o'" if "d \<le> i" using that by simp
    moreover have "i - d < length v div 2" using i by simp
    ultimately show "half o' (stage gt01 (double (s, b, d)) v) ! i = stage gt01 (s, b, d) (half o' v) ! i"
      using i q b l by (simp add: nth_stage01 half_def) (simp add: algebra_simps)
  qed simp
qed

lemma half_stages:
  "even (length v) \<Longrightarrow> o' < 2 \<Longrightarrow> half o' (stages gt01 (map double cs) v) = stages gt01 cs (half o' v)"
  by (induction cs arbitrary: v) (simp_all add: half_stage)

section \<open>Merging\<close>

text \<open>Both halves are sorted: \<open>p\<close> zeros among the even, \<open>q\<close> among the odd indices.\<close>

definition steps :: "nat \<Rightarrow> nat \<Rightarrow> nat \<Rightarrow> bool list \<Rightarrow> bool" where
  "steps m p q v \<longleftrightarrow> length v = 2 * m \<and> q \<le> p \<and> p \<le> m \<and> (\<forall>i < m. v ! (2 * i) = (p \<le> i) \<and> v ! (2 * i + 1) = (q \<le> i))"

lemma merge_stage:
  assumes "steps m p q v" and "0 < d" and "p - q \<le> 2 * d"
  shows "steps m (min p (q + d)) (max q (p - d)) (stage gt01 (1, True, 2 * d - 1) v)"
  unfolding steps_def
proof (intro conjI allI impI)
  note v = assms(1) [unfolded steps_def]
  fix i assume i: "i < m"
  have e: "2 * i + 1 + (2 * d - 1) = 2 * (i + d)" "2 * i - (2 * d - 1) = 2 * (i - d) + 1" if "d \<le> i" for i
    using assms(2) that by simp_all
  show "stage gt01 (1, True, 2 * d - 1) v ! (2 * i) = (min p (q + d) \<le> i)"
  proof (cases "d \<le> i")
    case True
    then have "v ! (2 * i - (2 * d - 1)) = (q \<le> i - d)" using e(2) v i by simp
    then show ?thesis using True v i by (auto simp: nth_stage01)
  next
    case False
    then show ?thesis using v i by (auto simp: nth_stage01)
  qed
  show "stage gt01 (1, True, 2 * d - 1) v ! (2 * i + 1) = (max q (p - d) \<le> i)"
  proof (cases "i + d < m")
    case True
    have "2 * i + 1 + (2 * d - 1) = 2 * (i + d)" using assms(2) by simp
    then have "v ! (2 * i + 1 + (2 * d - 1)) = (p \<le> i + d)" using v True by metis
    then show ?thesis using True v i assms(2) by (auto simp: nth_stage01)
  next
    case False
    then show ?thesis using v i assms(2) by (auto simp: nth_stage01)
  qed
qed (use assms in \<open>auto simp: steps_def\<close>)

lemma merge_stages:
  assumes "steps m p q v" and "p - q \<le> 2 ^ k"
  shows "\<exists>p' q'. steps m p' q' (stages gt01 (map (\<lambda>j. (1, True, 2 ^ Suc j - 1)) (rev [0..<k])) v) \<and> p' - q' \<le> 1"
  using assms
proof (induction k arbitrary: p q v)
  case (Suc k)
  have "(2 :: nat) ^ Suc k - 1 = 2 * 2 ^ k - 1" by simp
  then have "steps m (min p (q + 2 ^ k)) (max q (p - 2 ^ k)) (stage gt01 (1, True, 2 ^ Suc k - 1) v)"
    using merge_stage [OF Suc.prems(1), of "2 ^ k"] Suc.prems(2) by simp
  moreover have "min p (q + 2 ^ k) - max q (p - 2 ^ k) \<le> 2 ^ k" using Suc.prems(2) by (auto simp: min_def max_def)
  ultimately show ?case using Suc.IH by simp
qed auto

lemma steps_sorted:
  assumes "steps m p q v" and "p - q \<le> 1"
  shows "sorted v"
proof -
  have "v ! i \<longrightarrow> v ! Suc i" if "Suc i < length v" for i
  proof (cases "even i")
    case True
    then obtain j where "i = 2 * j" by blast
    then show ?thesis using assms that by (auto simp: steps_def)
  next
    case False
    then obtain j where "i = 2 * j + 1" by (rule oddE)
    moreover have "v ! (2 * Suc j) = (p \<le> Suc j)" if "Suc j < m" using that assms(1) unfolding steps_def by blast
    ultimately show ?thesis using assms that by (auto simp: steps_def)
  qed
  then show ?thesis by (simp add: sorted_iff_nth_Suc le_bool_def)
qed

lemma sorted_zeros: "sorted v \<Longrightarrow> i < length v \<Longrightarrow> v ! i \<longleftrightarrow> count (mset v) False \<le> i"
proof (induction v arbitrary: i)
  case (Cons x v)
  show ?case
  proof (cases x)
    case True
    then have "\<forall>y \<in> set v. y" using Cons.prems(1) by auto
    then have "count (mset v) False = 0" by (metis count_eq_zero_iff set_mset_mset)
    moreover have "(x # v) ! i" using True Cons.prems \<open>\<forall>y \<in> set v. y\<close> by (cases i) auto
    ultimately show ?thesis using True by (metis (full_types) count_add_mset le0 mset.simps(2))
  next
    case False
    then show ?thesis using Cons by (cases i) auto
  qed
qed simp

lemma halves_steps:
  assumes "length v = 2 * m" and "sorted (half 0 v)" and "sorted (half 1 v)"
    and "count (mset (half 1 v)) False \<le> count (mset (half 0 v)) False"
  shows "steps m (count (mset (half 0 v)) False) (count (mset (half 1 v)) False) v"
proof -
  have "count (mset (half 0 v)) False \<le> m" using count_le_replicate_mset_subset_eq [of "count (mset (half 0 v)) False" "mset (half 0 v)" False]
      size_mset_mono [of "replicate_mset (count (mset (half 0 v)) False) False" "mset (half 0 v)"] assms(1) by simp
  then show ?thesis
    using assms sorted_zeros [OF assms(2)] sorted_zeros [OF assms(3)] by (simp add: steps_def half_def)
qed

section \<open>The pairwise network\<close>

fun pairwise_stages :: "nat \<Rightarrow> comparator list" where
  "pairwise_stages 0 = []"
| "pairwise_stages (Suc k) =
     (1, False, 1) # map double (pairwise_stages k) @ map (\<lambda>j. (1, True, 2 ^ Suc j - 1)) (rev [0..<k])"

lemma pairwise_stages_ok: "c \<in> set (pairwise_stages k) \<Longrightarrow> stage_ok c"
proof (induction k arbitrary: c)
  case (Suc k)
  then show ?case by (auto intro: stage_ok_double)
qed simp

lemma first_stage:
  assumes "length v = 2 * m" and "i < m"
  shows "stage gt01 (1, False, 1) v ! (2 * i) = (v ! (2 * i) \<and> v ! (2 * i + 1))"
    and "stage gt01 (1, False, 1) v ! (2 * i + 1) = (v ! (2 * i) \<or> v ! (2 * i + 1))"
  using assms by (simp_all add: nth_stage01)

lemma count_False_mono:
  assumes "length xs = length ys" and "\<forall>i < length xs. xs ! i \<longrightarrow> ys ! i"
  shows "count (mset ys) False \<le> count (mset xs) False"
  using assms
proof (induction xs ys rule: list_induct2)
  case (Cons x xs y ys)
  have "\<forall>i < length xs. xs ! i \<longrightarrow> ys ! i" using Cons.prems by (auto dest: spec [of _ "Suc _"])
  then show ?case using Cons.IH Cons.prems [rule_format, of 0] by auto
qed simp

lemma pairwise01: "length v = 2 ^ k \<Longrightarrow> sorted (stages gt01 (pairwise_stages k) v)"
proof (induction k arbitrary: v)
  case 0
  then show ?case by (cases v) auto
next
  case (Suc k)
  let ?m = "2 ^ k :: nat" and ?v1 = "stage gt01 (1, False, 1) v"
  let ?v2 = "stages gt01 (map double (pairwise_stages k)) ?v1"
  have l: "length v = 2 * ?m" using Suc.prems by simp
  have h: "half o' ?v2 = stages gt01 (pairwise_stages k) (half o' ?v1)" if "o' < 2" for o'
    using half_stages [of ?v1 o'] that l by simp
  have ms: "mset (half o' ?v2) = mset (half o' ?v1)" if "o' < 2" for o'
    using h [OF that] mset_stages pairwise_stages_ok by metis
  have "sorted (half o' ?v2)" if "o' < 2" for o' using h [OF that] Suc.IH [of "half o' ?v1"] l by (simp only: length_half length_stage)
  moreover have "count (mset (half 1 ?v1)) False \<le> count (mset (half 0 ?v1)) False"
    using first_stage [OF l] l by (intro count_False_mono) (simp_all add: half_def)
  ultimately obtain p q where "steps ?m p q ?v2"
    using halves_steps [of ?v2 ?m] ms l by fastforce
  moreover from this have "p - q \<le> ?m" unfolding steps_def by linarith
  ultimately obtain p' q' where "steps ?m p' q' (stages gt01 (map (\<lambda>j. (1, True, 2 ^ Suc j - 1)) (rev [0..<k])) ?v2)" "p' - q' \<le> 1"
    using merge_stages by blast
  then have "sorted (stages gt01 (map (\<lambda>j. (1, True, 2 ^ Suc j - 1)) (rev [0..<k])) ?v2)" by (rule steps_sorted)
  then show ?case by (simp only: pairwise_stages.simps stages_simps)
qed

section \<open>The odd-even merge\<close>

fun odd_even_stages :: "nat \<Rightarrow> comparator list" where
  "odd_even_stages 0 = [(1, False, 1)]"
| "odd_even_stages (Suc k) = map double (odd_even_stages k) @ [(1, True, 1)]"

lemma odd_even_stages_ok: "c \<in> set (odd_even_stages k) \<Longrightarrow> stage_ok c"
  by (induction k arbitrary: c) (auto intro: stage_ok_double)

text \<open>Of the zeros of a sorted list, the even indices have as many as the odd ones, or one more.\<close>

lemma count_threshold: "c \<le> m \<Longrightarrow> count (mset (map (\<lambda>i. c \<le> i) [0..<m])) False = c"
proof (induction m)
  case (Suc m)
  then show ?case
  proof (cases "c = Suc m")
    case True
    then have "map (\<lambda>i. c \<le> i) [0..<Suc m] = replicate (Suc m) False"
      by (intro nth_equalityI) (simp_all del: upt_Suc replicate_Suc)
    then show ?thesis using True by (simp only: mset_replicate count_replicate_mset) simp
  qed simp
qed simp

lemma half_zeros:
  assumes "sorted v" and "length v = 2 * m" and "o' < 2"
  shows "count (mset (half o' v)) False = (count (mset v) False + 1 - o') div 2"
proof -
  let ?z = "count (mset v) False"
  have "half o' v = map (\<lambda>i. (?z + 1 - o') div 2 \<le> i) [0..<m]"
    unfolding half_def using assms sorted_zeros [OF assms(1)] by (intro nth_equalityI) auto
  moreover have "?z \<le> 2 * m" using count_le_replicate_mset_subset_eq [of ?z "mset v" False]
      size_mset_mono [of "replicate_mset ?z False" "mset v"] assms(2) by simp
  ultimately show ?thesis using count_threshold [of "(?z + 1 - o') div 2" m] by simp
qed

lemma half_append: "even (length xs) \<Longrightarrow> o' < 2 \<Longrightarrow> half o' (xs @ ys) = half o' xs @ half o' ys"
proof (rule nth_equalityI)
  fix i assume a: "even (length xs)" "o' < 2" "i < length (half o' (xs @ ys))"
  show "half o' (xs @ ys) ! i = (half o' xs @ half o' ys) ! i"
  proof (cases "i < length xs div 2")
    case True
    then have "2 * i + o' < length xs" using a(1,2) by auto
    then show ?thesis using a True by (simp add: half_def nth_append)
  next
    case False
    then have "\<not> 2 * i + o' < length xs" "2 * i + o' - length xs = 2 * (i - length xs div 2) + o'" using a(1,2) by auto
    moreover have "i - length xs div 2 < length ys div 2" using a(1,3) False by auto
    ultimately show ?thesis using a False by (simp add: half_def nth_append)
  qed
qed (use mult_div_mod_eq in auto)

lemma sorted_half:
  assumes "sorted (v :: bool list)" and "o' < 2"
  shows "sorted (half o' v)"
  unfolding sorted_iff_nth_mono
proof (intro allI impI)
  fix i j assume a: "i \<le> j" "j < length (half o' v)"
  then have "2 * j + o' < length v" using assms(2) by auto
  then show "half o' v ! i \<le> half o' v ! j"
    using a sorted_nth_mono [OF assms(1), of "2 * i + o'" "2 * j + o'"] by (simp add: half_def)
qed

lemma odd_even01:
  assumes "length a = 2 ^ k" and "length b = 2 ^ k" and "sorted a" and "sorted b"
  shows "sorted (stages gt01 (odd_even_stages k) (a @ b))"
  using assms
proof (induction k arbitrary: a b)
  case 0
  then obtain x y where "a = [x]" "b = [y]" by (auto simp: length_Suc_conv)
  then show ?case by (auto simp: stage.simps gt01_def)
next
  case (Suc k)
  let ?m = "2 ^ Suc k :: nat"
  let ?v = "stages gt01 (map double (odd_even_stages k)) (a @ b)"
  have l: "length a = 2 * 2 ^ k" "length b = 2 * 2 ^ k" using Suc.prems by simp_all
  have h: "half o' ?v = stages gt01 (odd_even_stages k) (half o' a @ half o' b)" if "o' < 2" for o'
    using half_stages [of "a @ b" o'] half_append [of a o' b] that l by simp
  have srt: "sorted (half o' ?v)" if "o' < 2" for o'
    using h [OF that] Suc.IH [of "half o' a" "half o' b"] sorted_half [OF Suc.prems(3) that] sorted_half [OF Suc.prems(4) that] l
    by (simp only: length_half)
  have z: "count (mset (half o' ?v)) False = (count (mset a) False + 1 - o') div 2 + (count (mset b) False + 1 - o') div 2" if "o' < 2" for o'
  proof -
    have "mset (half o' ?v) = mset (half o' a) + mset (half o' b)"
      using h [OF that] mset_stages odd_even_stages_ok by (metis mset_append)
    then show ?thesis using half_zeros [OF Suc.prems(3) l(1) that] half_zeros [OF Suc.prems(4) l(2) that] by simp
  qed
  let ?p = "count (mset (half 0 ?v)) False" and ?q = "count (mset (half 1 ?v)) False"
  have "steps ?m ?p ?q ?v"
    using halves_steps [of ?v ?m] srt [of 0] srt [of 1] z [of 0] z [of 1] l by simp
  moreover have "?p - ?q \<le> 2 * 1" using z [of 0] z [of 1] by simp
  ultimately have "steps ?m (min ?p (?q + 1)) (max ?q (?p - 1)) (stage gt01 (1, True, 2 * 1 - 1) ?v)"
    by (intro merge_stage) simp_all
  moreover have "min ?p (?q + 1) - max ?q (?p - 1) \<le> 1" by simp
  ultimately have "sorted (stage gt01 (1, True, 2 * 1 - 1) ?v)" by (rule steps_sorted)
  moreover have "2 * 1 - 1 = (1 :: nat)" by simp
  ultimately show ?case by (simp only: odd_even_stages.simps stages_simps)
qed

section \<open>Rows compared by a key\<close>

lemma key_threshold: "map (\<lambda>z. t < z) (map key (stages (key_gt key) cs R)) = stages gt01 cs (map (\<lambda>x. t < key x) R)"
  using map_stages [of "\<lambda>x. t < key x" "key_gt key" gt01 cs R] key_gt_map [of t key] by (simp add: comp_def)

lemma pairwise_sorted:
  fixes key :: "'r \<Rightarrow> 'k::linorder"
  assumes "length R \<le> 2 ^ k"
  shows "sorted (map key (stages (key_gt key) (pairwise_stages k) R))"
proof (rule zero_one)
  fix t
  let ?v = "map (\<lambda>x. t < key x) R"
  have "sorted (stages gt01 (pairwise_stages k) (?v @ replicate (2 ^ k - length R) True))"
    using assms by (intro pairwise01) simp
  then have "sorted (stages gt01 (pairwise_stages k) ?v)" unfolding stages_pad sorted_append by simp
  then show "sorted (map (\<lambda>z. t < z) (map key (stages (key_gt key) (pairwise_stages k) R)))"
    unfolding key_threshold .
qed

lemma odd_even_sorted:
  fixes key :: "'r \<Rightarrow> 'k::linorder"
  assumes "length A = 2 ^ k" and "length B = 2 ^ k" and "sorted (map key A)" and "sorted (map key B)"
  shows "sorted (map key (stages (key_gt key) (odd_even_stages k) (A @ B)))"
proof (rule zero_one)
  fix t
  have m: "sorted (map (\<lambda>x. t < key x) R)" if "sorted (map key R)" for R
    using that by (auto simp: sorted_iff_nth_mono intro: less_le_trans)
  have "sorted (stages gt01 (odd_even_stages k) (map (\<lambda>x. t < key x) A @ map (\<lambda>x. t < key x) B))"
    using assms m by (intro odd_even01) simp_all
  then show "sorted (map (\<lambda>z. t < z) (map key (stages (key_gt key) (odd_even_stages k) (A @ B))))"
    unfolding key_threshold map_append .
qed

end
