(* ===== verification/View_Proofs.thy ===== *)
theory View_Proofs
  imports Vector_Views
begin

text \<open>
  What the access patterns of \<open>mapping_access_vector.h\<close> show of the vector they are taken from, as operations on
  lists: an alternating subset is the sublist of the indices \<open>j\<close> with \<open>j mod (inc + exc) < inc\<close>, a filter by flags is the
  sublist at the nonzero flags, repetition and cycling are concatenations, the reverse direction is the reversed list.
  Every pattern stays inside the storage, and the patterns without repetition stay free of duplicates.
\<close>

lemma nths_filter: "nths xs A = map ((!) xs) (filter (\<lambda>i. i \<in> A) [0..<length xs])"
proof -
  have "zip xs [0..<length xs] = map (\<lambda>i. (xs ! i, i)) [0..<length xs]"
    by (rule nth_equalityI) simp_all
  then show ?thesis by (simp add: nths_def filter_map comp_def)
qed

lemma remapped_view:
  assumes "\<forall>j \<in> set js. j < total_size v" and "valid_view v"
  shows "\<exists>v'. remapped v js = Some v' \<and> valid_view v' \<and> extent v' = extent v \<and> total_size v' = length js \<and>
    (\<forall>d. view_get v' d = map ((!) (view_get v d)) js) \<and> (distinct (positions v) \<longrightarrow> distinct js \<longrightarrow> distinct (positions v'))"
proof -
  have "\<forall>j \<in> set js. positions v ! j < extent v"
    using assms by (auto simp: valid_view_def)
  moreover have "distinct (map ((!) (positions v)) js)" if "distinct (positions v)" "distinct js"
    using that assms(1) by (auto simp: distinct_map inj_on_def nth_eq_iff_index_eq)
  ultimately show ?thesis
    using remapped_Some [OF assms(1)] view_get_remapped [OF assms(1)]
    by (auto simp: valid_view_def)
qed

section \<open>Alternating subsets\<close>

lemma div_mod_less: "j < N \<longleftrightarrow> j div c < N div c \<or> j div c = N div c \<and> j mod c < (N :: nat) mod c"
proof -
  have less: "a < b" if "a div c < b div c" for a b :: nat
    using that div_le_mono [of b a c] by (meson leD not_less)
  have same: "a < b \<longleftrightarrow> a mod c < b mod c" if "a div c = b div c" for a b :: nat
    using that div_mult_mod_eq [of a c] div_mult_mod_eq [of b c] by (metis add_less_cancel_left)
  show ?thesis using less [of j N] less [of N j] same [of j N] by (meson less_asym linorder_neqE_nat)
qed

lemma spread_bounds:
  assumes "0 < inc"
  shows "(t div inc * (inc + e) + t mod inc) div (inc + e) = t div inc"
    and "(t div inc * (inc + e) + t mod inc) mod (inc + e) = (t :: nat) mod inc"
proof -
  have "t mod inc < inc + e" using assms by (simp add: trans_less_add1)
  then show "(t div inc * (inc + e) + t mod inc) div (inc + e) = t div inc"
    "(t div inc * (inc + e) + t mod inc) mod (inc + e) = t mod inc" using assms by (simp_all only: div_mult_self3 mod_mult_self3) simp_all
qed

lemma spread_mono:
  assumes "0 < inc" and "t < (t' :: nat)"
  shows "t div inc * (inc + e) + t mod inc < t' div inc * (inc + e) + t' mod inc"
  using assms(2) div_mod_less [of t t' inc] spread_bounds [OF assms(1)]
    div_mod_less [of "t div inc * (inc + e) + t mod inc" "t' div inc * (inc + e) + t' mod inc" "inc + e"] by simp

lemma spread_set:
  fixes N :: nat
  assumes "0 < inc" and "c = inc + e"
  shows "(\<lambda>t. t div inc * c + t mod inc) ` {..<N div c * inc + min inc (N mod c)} = {j. j < N \<and> j mod c < inc}"
    (is "?f ` ?T = ?J")
proof (intro equalityI subsetI)
  fix j assume "j \<in> ?f ` ?T"
  then obtain t where t: "t < N div c * inc + min inc (N mod c)" "j = ?f t" by auto
  have d: "j div c = t div inc" "j mod c = t mod inc" using spread_bounds [OF assms(1), of t e] t(2) assms(2) by simp_all
  have "t div inc < N div c \<or> t div inc = N div c \<and> t mod inc < N mod c"
  proof (cases "t < N div c * inc")
    case True
    then show ?thesis using assms(1) by (simp add: div_less_iff_less_mult)
  next
    case False
    define s where "s = t - N div c * inc"
    have "t = s + N div c * inc" "s < inc" "s < N mod c" using False t(1) by (simp_all add: s_def)
    then show ?thesis using assms(1) by simp
  qed
  then have "j < N"
    using d div_mod_less [of j N c] by simp
  then show "j \<in> ?J" using d(2) assms(1) by simp
next
  fix j assume j: "j \<in> ?J"
  define t where "t = j div c * inc + j mod c"
  have t: "t div inc = j div c" "t mod inc = j mod c" using j by (simp_all add: t_def)
  have "t < N div c * inc + min inc (N mod c)"
  proof (cases "j div c = N div c")
    case True
    then have "j mod c < N mod c" using j div_mod_less [of j N c] by simp
    then show ?thesis using j True by (simp add: t_def)
  next
    case False
    then have "Suc (j div c) \<le> N div c" using j div_le_mono [of j N c] by simp
    then have "Suc (j div c) * inc \<le> N div c * inc" by (rule mult_le_mono1)
    then show ?thesis using j by (simp add: t_def)
  qed
  moreover have "?f t = j" by (simp only: t div_mult_mod_eq)
  ultimately show "j \<in> ?f ` ?T" by force
qed

lemma alternating_loop_filter:
  assumes "c = inc + e"
  shows "alternating_loop inc c 0 (N div c * inc + min inc (N mod c)) = filter (\<lambda>j. j mod c < inc) [0..<N]"
proof (cases "inc = 0")
  case True
  then show ?thesis by (simp add: alternating_loop.simps)
next
  case False
  let ?n = "N div c * inc + min inc (N mod c)"
  have eq: "alternating_loop inc c 0 ?n = map (\<lambda>t. t div inc * c + t mod inc) [0..<?n]"
    using False by (intro nth_equalityI) (simp_all add: alternating_loop_length alternating_loop_nth)
  have "sorted_wrt (<) (map (\<lambda>t. t div inc * c + t mod inc) [0..<?n])"
    using spread_mono [of inc _ _ e] False assms by (auto simp: sorted_wrt_iff_nth_less)
  moreover have "set (map (\<lambda>t. t div inc * c + t mod inc) [0..<?n]) = set (filter (\<lambda>j. j mod c < inc) [0..<N])"
    using spread_set [of inc c e N] False assms by (auto simp: atLeast0LessThan)
  ultimately show ?thesis
    unfolding eq by (intro strict_sorted_equal) (simp_all add: sorted_wrt_filter)
qed

lemma alternating_view:
  assumes "valid_view v" and "0 < inc + e"
  shows "\<exists>v'. alternating_subset_reference inc (Some e) v = Some v' \<and> valid_view v' \<and> extent v' = extent v \<and>
    (\<forall>d. view_get v' d = nths (view_get v d) {j. j mod (inc + e) < inc}) \<and>
    (distinct (positions v) \<longrightarrow> distinct (positions v'))"
proof -
  let ?js = "filter (\<lambda>j. j mod (inc + e) < inc) [0..<total_size v]"
  have "alternating_subset_reference inc (Some e) v = remapped v ?js"
    using assms(2) by (auto simp: alternating_subset_reference_def Let_def alternating_loop_filter [OF refl])
  then show ?thesis using remapped_view [of ?js v] assms(1) by (auto simp: nths_filter)
qed

section \<open>Other patterns\<close>

lemma remapped_as:
  fixes g :: "'b list \<Rightarrow> 'b list"
  assumes "\<forall>j \<in> set js. j < total_size v" and "valid_view v" and "\<And>d. map ((!) (view_get v d)) js = g (view_get v d)"
  shows "\<exists>v'. remapped v js = Some v' \<and> valid_view v' \<and> (\<forall>d. view_get v' d = g (view_get v d))"
  using remapped_view [OF assms(1,2)] view_get_remapped [OF assms(1)] by (metis assms(3))

lemma included_view:
  assumes "valid_view v"
  shows "\<exists>v'. included_reference flag v = Some v' \<and> valid_view v' \<and>
    (\<forall>d. view_get v' d = nths (view_get v d) {i. i < length flag \<and> flag ! i \<noteq> 0})"
proof -
  let ?js = "filter (\<lambda>i. flag ! i \<noteq> 0) [0..<min (total_size v) (length flag)]"
  have js: "?js = filter (\<lambda>i. i < length flag \<and> flag ! i \<noteq> 0) [0..<total_size v]"
  proof (cases "total_size v \<le> length flag")
    case True
    then show ?thesis by (auto intro!: filter_cong simp: min_def)
  next
    case False
    then have s: "[0..<total_size v] = [0..<length flag] @ [length flag..<total_size v]"
      using upt_add_eq_append [of 0 "length flag" "total_size v - length flag"] by simp
    show ?thesis unfolding s using False by (auto simp: min_def intro!: filter_cong)
  qed
  have "included_reference flag v = remapped v ?js" by (simp add: included_reference_def)
  then show ?thesis using remapped_view [of ?js v] assms js by (auto simp: nths_filter)
qed

lemma repeated_view:
  assumes "valid_view v"
  shows "\<exists>v'. repeated_subset_reference r v = Some v' \<and> valid_view v' \<and>
    (\<forall>d. view_get v' d = concat (map (replicate r) (view_get v d)))"
proof -
  let ?js = "concat (map (replicate r) [0..<total_size v])"
  have "map ((!) (view_get v d)) ?js = concat (map (replicate r) (view_get v d))" for d :: "'a list"
  proof -
    have "map ((!) (view_get v d)) ?js = concat (map (replicate r) (map ((!) (view_get v d)) [0..<length (view_get v d)]))"
      by (simp add: map_concat comp_def)
    then show ?thesis by (simp only: map_nth)
  qed
  from remapped_as [OF _ assms this] show ?thesis by (simp add: repeated_subset_reference_def)
qed

lemma cyclic_view:
  assumes "valid_view v"
  shows "\<exists>v'. cyclic_subset_reference c v = Some v' \<and> valid_view v' \<and>
    (\<forall>d. view_get v' d = concat (replicate c (view_get v d)))"
proof -
  let ?js = "concat (replicate c [0..<total_size v])"
  have "map ((!) (view_get v d)) ?js = concat (replicate c (view_get v d))" for d :: "'a list"
    using map_nth [of "view_get v d"] by (simp add: map_concat)
  from remapped_as [OF _ assms this] show ?thesis by (simp add: cyclic_subset_reference_def)
qed

lemma reversed_view:
  assumes "valid_view v"
  shows "\<exists>v'. directed_subset_reference (- 1) v = Some v' \<and> valid_view v' \<and> (\<forall>d. view_get v' d = rev (view_get v d))"
proof -
  let ?js = "map (\<lambda>i. total_size v - 1 - i) [0..<total_size v]"
  have g: "map ((!) (view_get v d)) ?js = rev (view_get v d)" for d :: "'a list"
    by (rule nth_equalityI) (simp_all add: rev_nth)
  have "\<forall>j \<in> set ?js. j < total_size v" by auto
  from remapped_as [OF this assms g] show ?thesis by (simp only: directed_subset_reference_def simp_thms if_True)
qed

end
