(* ===== verification/Network_Proofs.thy ===== *)
theory Network_Proofs
  imports Sorting_Proofs Pairwise_Network View_Proofs
begin

text \<open>
  \<open>pairwise_sort\<close> and \<open>odd_even_merge\<close> on shared columns run the comparator stages of the plain networks: the two
  views of a round show the left and the right elements of its comparators, so the opened rows go through one stage
  per round, and the rounds generated for \<open>n\<close> rows are the stages of the full network that fit into \<open>n\<close> rows.
\<close>

section \<open>One stage\<close>

lemma block_parity: "0 < s \<Longrightarrow> i mod (s + s) < s \<longleftrightarrow> even (i div (s :: nat))"
proof -
  assume s: "0 < s"
  have "i mod (s + s) = s * (i div s mod 2) + i mod s" using mod_mult2_eq [of i s 2] by (simp add: mult_2_right)
  then show ?thesis using s by (cases "even (i div s)") (simp_all add: even_iff_mod_2_eq_zero odd_iff_mod_2_eq_one)
qed

definition round_ok :: "nat \<Rightarrow> nat \<Rightarrow> nat \<Rightarrow> nat \<Rightarrow> bool" where
  "round_ok N l r s \<longleftrightarrow> 0 < s \<and> (l = 0 \<or> l = s) \<and> r < N \<and> (\<exists>c. odd c \<and> r = l + c * s)"

definition shown :: "nat \<Rightarrow> nat \<Rightarrow> nat \<Rightarrow> nat \<Rightarrow> nat list" where
  "shown N l r s = map ((+) l) (filter (\<lambda>j. j mod (s + s) < s) [0..<N - r])"

lemma round_set:
  assumes "round_ok N l r s"
  shows "set (shown N l r s) = {i. odd (i div s) = (l \<noteq> 0) \<and> i + (r - l) < N}"
proof -
  obtain c where c: "0 < s" "l = 0 \<or> l = s" "r = l + c * s" "odd c" "r < N" using assms by (auto simp: round_ok_def)
  have "odd (i div s) = (l \<noteq> 0) \<and> i + (r - l) < N \<longleftrightarrow> l \<le> i \<and> (i - l) mod (s + s) < s \<and> i - l < N - r" for i
  proof (cases "l = 0")
    case True
    then show ?thesis using c block_parity [OF c(1), of i] by auto
  next
    case False
    then have l: "l = s" using c(2) by simp
    have "odd (i div s) \<Longrightarrow> s \<le> i" by (metis div_less even_zero not_less)
    moreover have "even ((i - s) div s) = odd (i div s)" if "s \<le> i" using that c(1) by (simp add: le_div_geq)
    ultimately show ?thesis using c l block_parity [OF c(1), of "i - s"] False by auto
  qed
  moreover have "set (shown N l r s) = {i. l \<le> i \<and> (i - l) mod (s + s) < s \<and> i - l < N - r}"
    by (auto simp: shown_def image_iff intro!: exI [of _ "_ - l"] bexI [of _ "_ - l"])
  ultimately show ?thesis by auto
qed

lemma shown_shift: "l \<le> r \<Longrightarrow> shown N r r s = map (\<lambda>i. i + (r - l)) (shown N l r s)"
  by (simp add: shown_def)

lemma round_pair:
  assumes "round_ok N l r s"
  shows "pair_ok (shown N l r s) (shown N r r s) N"
proof -
  obtain c where c: "0 < s" "r = l + c * s" "odd c" using assms by (auto simp: round_ok_def)
  have sh: "shown N r r s = map (\<lambda>i. i + c * s) (shown N l r s)" using shown_shift [of l r N s] c by simp
  have "odd ((i + c * s) div s) \<noteq> (l \<noteq> 0)" if "i \<in> set (shown N l r s)" for i
    using that round_set [OF assms] block_shift [OF c(1,3), of i] by auto
  then have "set (shown N l r s) \<inter> set (shown N r r s) = {}" using round_set [OF assms] sh by auto
  moreover have "distinct (shown N l r s)" "distinct (shown N r r s)" by (simp_all add: shown_def distinct_map)
  moreover have "\<forall>i \<in> set (shown N l r s). i < N \<and> i + c * s < N" using round_set [OF assms] c by auto
  moreover have "length (shown N l r s) = length (shown N r r s)" by (simp add: shown_def)
  moreover have "\<forall>i \<in> set (shown N r r s). i < N" unfolding sh using calculation(4) by simp
  ultimately show ?thesis unfolding pair_ok_def by (simp add: ball_Un)
qed

lemma mix_stage:
  assumes "round_ok (length R) l r s"
  shows "mix (shown (length R) l r s) (shown (length R) r r s)
      (\<lambda>i. gt (R ! (shown (length R) l r s ! i)) (R ! (shown (length R) r r s ! i))) R = stage gt (s, l \<noteq> 0, r - l) R"
    (is "mix ?ix ?iy ?b R = _")
proof (rule nth_equalityI)
  note p = round_pair [OF assms]
  obtain c where c: "0 < s" "r = l + c * s" "odd c" using assms by (auto simp: round_ok_def)
  have sh: "?iy = map (\<lambda>i. i + (r - l)) ?ix" using shown_shift [of l r "length R" s] c(2) by simp
  fix i assume "i < length (mix ?ix ?iy ?b R)"
  then have i: "i < length R" by simp
  have left: "i \<in> set ?ix \<longleftrightarrow> odd (i div s) = (l \<noteq> 0) \<and> i + (r - l) < length R" for i using round_set [OF assms] by simp
  have "i \<in> set ?iy \<longleftrightarrow> (r - l \<le> i \<and> i - (r - l) \<in> set ?ix)"
    unfolding sh by (auto simp: image_iff intro!: bexI [of _ "i - (r - l)"])
  also have "\<dots> \<longleftrightarrow> odd (i div s) \<noteq> (l \<noteq> 0) \<and> r - l \<le> i"
    using block_shift [OF c(1,3), of "i - (r - l)"] i c(2) left [of "i - (r - l)"] by auto
  finally have right: "i \<in> set ?iy \<longleftrightarrow> odd (i div s) \<noteq> (l \<noteq> 0) \<and> r - l \<le> i" .
  consider (l) t where "t < length ?ix" "i = ?ix ! t" | (r) t where "t < length ?ix" "i = ?iy ! t" | (n) "i \<notin> set ?ix" "i \<notin> set ?iy"
    unfolding in_set_conv_nth by (metis length_map sh)
  then show "mix ?ix ?iy ?b R ! i = stage gt (s, l \<noteq> 0, r - l) R ! i"
  proof cases
    case l
    then have "?iy ! t = i + (r - l)" by (simp add: sh)
    moreover have "i \<in> set ?ix" using l by simp
    ultimately show ?thesis using nth_mix(1) [OF p l(1), of ?b] l left [of i] i by (simp add: stage.simps)
  next
    case r
    then have "?ix ! t = i - (r - l)" by (simp add: sh)
    moreover have "i \<in> set ?iy" using r sh by simp
    ultimately show ?thesis using nth_mix(2) [OF p r(1), of ?b] r right i by (auto simp: stage.simps)
  next
    case n
    then show ?thesis using nth_mix(3) [OF p n, of ?b] left [of i] right i by (auto simp: stage.simps)
  qed
qed simp

lemma alternating_remapped:
  "0 < inc + e \<Longrightarrow> alternating_subset_reference inc (Some e) v = remapped v (filter (\<lambda>j. j mod (inc + e) < inc) [0..<total_size v])"
  by (auto simp: alternating_subset_reference_def Let_def alternating_loop_filter [OF refl])

lemma shown_view:
  assumes "0 < s" and "r < N" and "l \<le> r"
  shows "\<exists>v u. slice l (N - (r - l)) (base N) = Some v \<and> alternating_subset_reference s (Some s) v = Some u \<and> positions u = shown N l r s"
proof -
  let ?v = "(base N)\<lparr>mapping := Some [l..<l + (N - r)]\<rparr>"
  let ?js = "filter (\<lambda>j. j mod (s + s) < s) [0..<N - r]"
  have "slice l (N - (r - l)) (base N) = Some ?v" using assms by (auto simp: slice_def min_def)
  moreover have "alternating_subset_reference s (Some s) ?v = remapped ?v ?js"
    using alternating_remapped [of s s ?v] assms(1) by simp
  moreover have "\<forall>j \<in> set ?js. j < total_size ?v" by auto
  note r = remapped_Some [OF this]
  moreover have "map ((!) (positions ?v)) ?js = shown N l r s" by (auto simp: shown_def)
  ultimately show ?thesis by simp
qed

section \<open>Pairwise sort\<close>

definition to_stage :: "pairwise_round \<Rightarrow> comparator" where
  "to_stage r = (step r, start_left r \<noteq> 0, start_right r - start_left r)"

abbreviation pw_round_ok :: "nat \<Rightarrow> pairwise_round \<Rightarrow> bool" where
  "pw_round_ok N r \<equiv> round_ok N (start_left r) (start_right r) (step r)"

lemma pw_views:
  assumes "pw_round_ok N r"
  shows "\<exists>v. pw_left r N = Some v \<and> positions v = shown N (start_left r) (start_right r) (step r)"
    and "\<exists>v. pw_right r N = Some v \<and> positions v = shown N (start_right r) (start_right r) (step r)"
proof -
  have a: "0 < step r" "start_right r < N" "start_left r \<le> start_right r" using assms by (auto simp: round_ok_def)
  show "\<exists>v. pw_left r N = Some v \<and> positions v = shown N (start_left r) (start_right r) (step r)"
    using shown_view [OF a] by (auto simp: pw_left_def)
  show "\<exists>v. pw_right r N = Some v \<and> positions v = shown N (start_right r) (start_right r) (step r)"
    using shown_view [OF a(1,2) order.refl] by (auto simp: pw_right_def slice_from_def)
qed

context arithmetic_protocol
begin

lemma run_pairwise_correct:
  fixes t :: "'a shared_table"
  assumes "ok st" and "keys t \<noteq> []" and "length order = length (keys t)" and "table_ok n k 0 N t"
    and "\<forall>r \<in> set rs. pw_round_ok N r"
  shows "\<exists>t' st'. run_pairwise P order rs t st = Some (t', st') \<and> ok st' \<and> table_ok n k 0 N t' \<and>
    length (keys t') = length (keys t) \<and>
    table_rows N t' = stages (key_gt (row_key order)) (map to_stage rs) (table_rows N t)"
  using assms
proof (induction rs arbitrary: t st)
  case (Cons r rs)
  have r: "pw_round_ok N r" using Cons.prems(5) by simp
  obtain vx vy where v: "pw_left r N = Some vx" "pw_right r N = Some vy"
    "positions vx = shown N (start_left r) (start_right r) (step r)" "positions vy = shown N (start_right r) (start_right r) (step r)"
    using pw_views [OF r] by blast
  obtain t1 st1 where 1: "sort_round P (pw_left r) (pw_right r) False order t st = Some (t1, st1)" "ok st1" "table_ok n k 0 N t1"
    "length (keys t1) = length (keys t)" "table_rows N t1 = stage (key_gt (row_key order)) (to_stage r) (table_rows N t)"
    using sort_round_plain [where lv = "pw_left r" and rv = "pw_right r", OF Cons.prems(1-4) v round_pair [OF r]]
      mix_stage [of "table_rows N t" "start_left r" "start_right r" "step r" "key_gt (row_key order)"] r
    by (auto simp: to_stage_def)
  have "keys t1 \<noteq> []" "length order = length (keys t1)" using 1(4) Cons.prems(2,3) by auto
  from Cons.IH [OF 1(2) this 1(3)] Cons.prems(5) 1 show ?case by auto
qed simp

end

section \<open>The generated rounds\<close>

definition pw_full :: "nat \<Rightarrow> pairwise_round list" where
  "pw_full k = map (\<lambda>i. \<lparr>start_left = 0, start_right = 2 ^ i, step = 2 ^ i\<rparr>) [0..<k] @
     concat (map (\<lambda>t. map (\<lambda>j. \<lparr>start_left = 2 ^ (k - 2 - t), start_right = 2 ^ Suc j * 2 ^ (k - 2 - t), step = 2 ^ (k - 2 - t)\<rparr>)
       (rev [0..<Suc t])) [0..<k - 1])"

lemma pow2_above_power: "\<exists>k. pow2_above n (2 ^ i) = 2 ^ k \<and> n \<le> 2 ^ k"
proof (induction n "(2 :: nat) ^ i" arbitrary: i rule: pow2_above.induct)
  case (1 n)
  show ?case
  proof (cases "n \<le> 2 ^ i")
    case True
    then show ?thesis by (subst pow2_above.simps) auto
  next
    case False
    then have "pow2_above n (2 ^ i) = pow2_above n (2 ^ Suc i)" by (subst pow2_above.simps) simp
    then show ?thesis using 1 [of "Suc i"] False by simp
  qed
qed

lemma pw_first_power:
  "i \<le> k \<Longrightarrow> pw_first n (2 ^ k) (2 ^ i)
    = filter (\<lambda>r. start_right r < n) (map (\<lambda>i. \<lparr>start_left = 0, start_right = 2 ^ i, step = 2 ^ i\<rparr>) [i..<k])"
proof (induction "k - i" arbitrary: i)
  case 0
  then show ?case by (subst pw_first.simps) simp
next
  case (Suc d)
  then have "i < k" by simp
  then have "[i..<k] = i # [Suc i..<k]" "(2 :: nat) ^ i < 2 ^ k" by (simp_all add: upt_conv_Cons)
  moreover have "pw_first n (2 ^ k) (2 ^ Suc i) = filter (\<lambda>r. start_right r < n)
      (map (\<lambda>i. \<lparr>start_left = 0, start_right = 2 ^ i, step = 2 ^ i\<rparr>) [Suc i..<k])"
    using Suc by (intro Suc.hyps(1)) simp_all
  ultimately show ?case by (subst pw_first.simps) simp
qed

lemma pw_inner_power:
  "pw_inner n a (2 ^ j - 1) = filter (\<lambda>r. start_right r < n)
     (map (\<lambda>j. \<lparr>start_left = a, start_right = 2 ^ Suc j * a, step = a\<rparr>) (rev [0..<j]))"
proof (induction j)
  case 0
  then show ?case by (subst pw_inner.simps) simp
next
  case (Suc j)
  have "(2 ^ Suc j - 1) div 2 = (2 ^ j - 1 :: nat)" by simp
  moreover have "(1 :: nat) \<le> 2 ^ j" by simp
  then have "(2 :: nat) ^ Suc j - 1 \<noteq> 0" "2 ^ Suc j - 1 + 1 = (2 :: nat) ^ Suc j" unfolding power_Suc by linarith+
  ultimately show ?case using Suc by (subst pw_inner.simps) (simp del: power_Suc)
qed

lemma pw_second_power:
  "t \<le> k \<Longrightarrow> pw_second n (2 ^ Suc k) (2 ^ k div 2 ^ Suc t) (2 ^ Suc t - 1) =
    filter (\<lambda>r. start_right r < n) (concat (map (\<lambda>t. map (\<lambda>j. \<lparr>start_left = 2 ^ (k - 1 - t), start_right = 2 ^ Suc j * 2 ^ (k - 1 - t), step = 2 ^ (k - 1 - t)\<rparr>)
       (rev [0..<Suc t])) [t..<k]))"
proof (induction "k - t" arbitrary: t)
  case 0
  then show ?case by (subst pw_second.simps) simp
next
  case (Suc d)
  then have t: "t < k" by simp
  then have a: "2 ^ k div 2 ^ Suc t = (2 :: nat) ^ (k - 1 - t)" by (simp add: power_diff [symmetric] Suc_le_eq del: power_Suc)
  have "(2 :: nat) ^ (k - 1 - t) div 2 = 2 ^ k div 2 ^ Suc (Suc t)"
    unfolding a [symmetric] by (simp add: div_mult2_eq [symmetric] mult.commute)
  moreover have "(1 :: nat) \<le> 2 ^ t" by simp
  then have "2 * (2 ^ Suc t - 1) + 1 = (2 :: nat) ^ Suc (Suc t) - 1" unfolding power_Suc by linarith
  moreover have "(2 :: nat) ^ Suc t \<le> 2 ^ Suc k" "(0 :: nat) < 2 ^ Suc t" using t by (auto intro: power_increasing simp del: power_Suc)
  then have "\<not> (2 :: nat) ^ Suc k \<le> 2 ^ Suc t - 1" by linarith
  moreover have "[t..<k] = t # [Suc t..<k]" using t by (simp add: upt_conv_Cons)
  moreover note Suc.hyps(1) [of "Suc t"] 
  ultimately show ?case using Suc.hyps(2) t
    by (subst pw_second.simps) (simp add: a pw_inner_power [unfolded One_nat_def] del: power_Suc upt_Suc)
qed

lemma pow2_above_least: "i \<le> m \<Longrightarrow> n \<le> 2 ^ m \<Longrightarrow> pow2_above n (2 ^ i) \<le> 2 ^ m"
proof (induction "m - i" arbitrary: i)
  case 0
  then show ?case by (subst pow2_above.simps) simp
next
  case (Suc d)
  show ?case
  proof (cases "n \<le> 2 ^ i")
    case True
    then show ?thesis using Suc.prems(1) by (subst pow2_above.simps) (simp add: power_increasing)
  next
    case False
    then have "pow2_above n (2 ^ i) = pow2_above n (2 ^ Suc i)" by (subst pow2_above.simps) simp
    then show ?thesis using Suc.hyps(1) [of "Suc i"] Suc.hyps(2) Suc.prems(2) by simp
  qed
qed

lemma pw_comparisons_fit:
  assumes "n \<le> 2 ^ 15"
  shows "pw_comparisons n = Some (pw_rounds n)"
proof -
  have "pow2_above n 1 \<le> 2 ^ 15" using pow2_above_least [of 0 15 n] assms by simp
  then have "pow2_above n 1 * (pow2_above n 1 + 1) \<le> 2 ^ 15 * (2 ^ 15 + 1)" by (intro mult_mono) simp_all
  also have "\<dots> < (2 :: nat) ^ 31" by simp
  finally show ?thesis by (simp add: pw_comparisons_def Let_def)
qed

lemma pw_rounds_full:
  "\<exists>k. n \<le> 2 ^ k \<and> pw_rounds n = filter (\<lambda>r. start_right r < n) (pw_full k)"
proof -
  obtain k where k: "pow2_above n 1 = 2 ^ k" "n \<le> 2 ^ k" using pow2_above_power [of n 0] by auto
  have "pw_rounds n = filter (\<lambda>r. start_right r < n) (pw_full k)"
  proof (cases k)
    case 0
    then have "pw_second n 1 0 1 = []" by (subst pw_second.simps) simp
    then show ?thesis using 0 k(1) pw_first_power [of 0 0 n] by (simp add: pw_rounds_def pw_full_def Let_def)
  next
    case (Suc k')
    have "2 ^ Suc k' div 4 = (2 :: nat) ^ k' div 2 ^ Suc 0" "(1 :: nat) = 2 ^ Suc 0 - 1" by simp_all
    then show ?thesis using Suc k(1) pw_first_power [of 0 k n] pw_second_power [of 0 k' n]
      by (simp add: pw_rounds_def pw_full_def Let_def)
  qed
  then show ?thesis using k(2) by blast
qed

lemma pw_full_stages: "map to_stage (pw_full k) = pairwise_stages k"
proof (induction k)
  case (Suc k)
  define A where "A k = map (\<lambda>i. (2 ^ i :: nat, False, 2 ^ i :: nat)) [0..<k]" for k :: nat
  define B where "B a t = map (\<lambda>j. (2 ^ a :: nat, True, (2 ^ Suc j - 1) * 2 ^ a :: nat)) (rev [0..<Suc t])" for a t :: nat
  have e: "map to_stage (pw_full k) = A k @ concat (map (\<lambda>t. B (k - 2 - t) t) [0..<k - 1])" for k
    unfolding A_def B_def pw_full_def map_append map_concat map_map
    by (simp add: to_stage_def comp_def diff_mult_distrib del: upt_Suc power_Suc)
  have "A (Suc k) = (1, False, 1) # map double (A k)"
    unfolding A_def by (simp only: upt_conv_Cons [of 0 "Suc k"] map_Suc_upt [symmetric] list.map map_map zero_less_Suc) (simp add: comp_def)
  moreover have "concat (map (\<lambda>t. B (Suc k - 2 - t) t) [0..<Suc k - 1]) =
      map double (concat (map (\<lambda>t. B (k - 2 - t) t) [0..<k - 1])) @ map (\<lambda>j. (1, True, 2 ^ Suc j - 1)) (rev [0..<k])"
  proof (cases k)
    case (Suc k')
    have "B (k' - t) t = map double (B (k' - 1 - t) t)" if "t < k'" for t
    proof -
      have "k' - t = Suc (k' - 1 - t)" using that by simp
      then have "(2 :: nat) ^ (k' - t) = 2 * 2 ^ (k' - 1 - t)" by simp
      then show ?thesis unfolding B_def by (simp del: upt_Suc power_Suc)
    qed
    then have "map (\<lambda>t. B (k' - t) t) [0..<k'] = map (\<lambda>t. map double (B (k' - 1 - t) t)) [0..<k']" by simp
    moreover have "B 0 k' = map (\<lambda>j. (1, True, 2 ^ Suc j - 1)) (rev [0..<k])" unfolding B_def Suc by simp
    ultimately have "concat (map (\<lambda>t. B (k' - t) t) [0..<k']) @ B 0 k' =
        map double (concat (map (\<lambda>t. B (k' - 1 - t) t) [0..<k'])) @ map (\<lambda>j. (1, True, 2 ^ Suc j - 1)) (rev [0..<k])"
      by (simp only: map_concat map_map comp_def)
    then show ?thesis using Suc by simp
  qed simp
  ultimately show ?case unfolding pairwise_stages.simps Suc.IH [symmetric] e by simp
qed (simp add: pw_full_def)

lemma pw_full_shape:
  assumes "r \<in> set (pw_full k)"
  shows "0 < step r" and "start_left r = 0 \<or> start_left r = step r" and "\<exists>c. odd c \<and> start_right r = start_left r + c * step r"
proof -
  have "2 ^ Suc j * a = a + (2 ^ Suc j - 1) * a" for j a :: nat
    by (simp add: diff_mult_distrib)
  moreover have "odd (2 ^ Suc j - 1 :: nat)" for j by simp
  ultimately have "\<exists>c. odd c \<and> 2 ^ Suc j * a = a + c * a" for j a :: nat by blast
  then show "0 < step r" "start_left r = 0 \<or> start_left r = step r" "\<exists>c. odd c \<and> start_right r = start_left r + c * step r"
    using assms by (auto simp: pw_full_def simp del: upt_Suc power_Suc intro: exI [of _ 1])
qed

lemma skip_stage:
  assumes "0 < s" and "l = 0 \<or> l = s" and "odd c" and "r = l + c * s" and "length R \<le> r"
  shows "stage gt (s, l \<noteq> 0, r - l) R = R"
proof (rule nth_equalityI)
  fix i assume "i < length (stage gt (s, l \<noteq> 0, r - l) R)"
  then have i: "i < length R" by simp
  have a: "\<not> (odd (i div s) = (l \<noteq> 0) \<and> i + (r - l) < length R)"
  proof
    assume h: "odd (i div s) = (l \<noteq> 0) \<and> i + (r - l) < length R"
    then have "l \<le> i" using assms(2) by (metis div_less even_zero le0 not_less)
    then show False using h assms(4,5) by linarith
  qed
  have b: "\<not> (odd (i div s) \<noteq> (l \<noteq> 0) \<and> r - l \<le> i)"
  proof
    assume h: "odd (i div s) \<noteq> (l \<noteq> 0) \<and> r - l \<le> i"
    have "c \<le> i div s" using h assms(1,4) by (simp add: less_eq_div_iff_mult_less_eq)
    moreover have "l \<noteq> 0 \<Longrightarrow> c \<noteq> i div s" using h assms(3) by auto
    ultimately have "l = 0 \<or> Suc c \<le> i div s" by linarith
    then have "r \<le> i" using assms(1,2,4) h by (auto simp: less_eq_div_iff_mult_less_eq)
    then show False using i assms(5) by simp
  qed
  show "stage gt (s, l \<noteq> 0, r - l) R ! i = R ! i" using i a b by (auto simp: stage.simps)
qed simp

lemma stages_fitting:
  assumes "\<forall>r \<in> set rs. 0 < step r \<and> (start_left r = 0 \<or> start_left r = step r) \<and> (\<exists>c. odd c \<and> start_right r = start_left r + c * step r)"
  shows "stages gt (map to_stage (filter (\<lambda>r. start_right r < length R) rs)) R = stages gt (map to_stage rs) R"
  using assms
proof (induction rs arbitrary: R)
  case (Cons r rs)
  have "stage gt (to_stage r) R = R" if "\<not> start_right r < length R"
    using skip_stage [of "step r" "start_left r" _ "start_right r" R gt] Cons.prems that by (auto simp: to_stage_def)
  then show ?case using Cons.IH [of R] Cons.IH [of "stage gt (to_stage r) R"] Cons.prems by auto
qed simp

context arithmetic_protocol
begin

theorem pairwise_sort_correct:
  fixes t :: "'a shared_table"
  assumes "ok st" and "keys t \<noteq> []" and "length order = length (keys t)" and "table_ok n k 0 N t" and "0 < N" and "N \<le> 2 ^ 15"
  shows "\<exists>t' st'. pairwise_sort P t order st = Some (t', st') \<and> ok st' \<and> table_ok n k 0 N t' \<and>
    sorted (map (row_key order) (table_rows N t')) \<and> mset (table_rows N t') = mset (table_rows N t)"
proof -
  have "\<forall>c \<in> set (keys t). is_sharing n k 0 N c" using assms(4) by (simp add: table_ok_def)
  then have sz: "sh_size (keys t ! 0) = N" using columns_size [OF _ pos] assms(2) by (metis length_greater_0_conv nth_mem)
  obtain l where l: "N \<le> 2 ^ l" "pw_rounds N = filter (\<lambda>r. start_right r < N) (pw_full l)"
    using pw_rounds_full by blast
  have "\<forall>r \<in> set (pw_rounds N). pw_round_ok N r"
    unfolding l(2) using pw_full_shape by (auto simp: round_ok_def)
  then obtain t' st' where t': "run_pairwise P order (pw_rounds N) t st = Some (t', st')" "ok st'" "table_ok n k 0 N t'"
    "table_rows N t' = stages (key_gt (row_key order)) (map to_stage (pw_rounds N)) (table_rows N t)"
    using run_pairwise_correct [OF assms(1-4)] by blast
  have "stages (key_gt (row_key order)) (map to_stage (pw_rounds N)) (table_rows N t)
      = stages (key_gt (row_key order)) (pairwise_stages l) (table_rows N t)"
    unfolding l(2) pw_full_stages [symmetric]
    using stages_fitting [of "pw_full l" "key_gt (row_key order)" "table_rows N t"] pw_full_shape by simp
  moreover have "mset (stages gt (pairwise_stages l) (table_rows N t)) = mset (table_rows N t)" for gt
    by (rule mset_stages) (use pairwise_stages_ok in blast)
  ultimately show ?thesis
    using t' sz assms(2,3,5) pairwise_sorted [of "table_rows N t" l "row_key order"] l(1)
      pw_comparisons_fit [OF assms(6)] by (simp add: pairwise_sort_def)
qed

end

section \<open>Odd-even merge\<close>

lemma odd_even_stages_eq: "odd_even_stages k = (2 ^ k, False, 2 ^ k) # map (\<lambda>j. (2 ^ j, True, 2 ^ j)) (rev [0..<k])"
proof (induction k)
  case (Suc k)
  have "map (\<lambda>j. ((2 :: nat) ^ j, True, (2 :: nat) ^ j)) (rev [0..<Suc k]) =
      map double (map (\<lambda>j. (2 ^ j, True, 2 ^ j)) (rev [0..<k])) @ [(1, True, 1)]"
    by (simp only: upt_conv_Cons [of 0 "Suc k"] map_Suc_upt [symmetric] rev.simps rev_map map_append list.map map_map zero_less_Suc)
      (simp add: comp_def)
  then show ?case using Suc by (simp del: upt_Suc)
qed simp

lemma scatter_update: "j \<notin> set ix \<Longrightarrow> scatter ix u (d[j := x]) = (scatter ix u d)[j := x]"
proof (induction ix arbitrary: u d)
  case (Cons i ix)
  then show ?case by (cases u) (auto simp: list_update_swap)
qed simp

lemma scatter_commute: "set ix \<inter> set iy = {} \<Longrightarrow> scatter ix u (scatter iy w d) = scatter iy w (scatter ix u d)"
proof (induction iy arbitrary: w d)
  case (Cons j iy)
  then show ?case by (cases w) (simp_all add: scatter_update)
qed simp

lemma mix_ge:
  fixes d :: "'a::len vec"
  shows "mix ix iy (\<lambda>t. \<not> sint (d ! (ix ! t)) < sint (d ! (iy ! t))) d = mix ix iy (\<lambda>t. sint (d ! (iy ! t)) < sint (d ! (ix ! t))) d"
proof -
  have "(if \<not> sint x < sint y then y else x) = (if sint y < sint x then y else x)"
    "(if \<not> sint x < sint y then x else y) = (if sint y < sint x then x else y)" for x y :: "'a word"
    using sint_inject [of x y] by auto
  then show ?thesis unfolding mix_def by simp
qed

context arithmetic_protocol
begin

lemma compare_swap_correct:
  fixes X :: "'a sharing"
  assumes ok: "ok st" and X: "is_sharing n k 0 N X" and v: "positions vx = ix" "positions vy = iy" and p: "pair_ok ix iy N"
  shows "\<exists>Y st'. compare_swap P vx vy X st = Some (Y, st') \<and> ok st' \<and> is_sharing n k 0 N Y \<and>
    reveal_b Y = mix ix iy (\<lambda>t. sint (reveal_b X ! (iy ! t)) < sint (reveal_b X ! (ix ! t))) (reveal_b X)"
proof -
  have ln: "length iy = length ix" "total_size vx = length ix" "total_size vy = length ix"
    using p v length_positions [of vx] length_positions [of vy] by (simp_all add: pair_ok_def)
  have ixN: "\<forall>i \<in> set (positions vx). i < N" "\<forall>i \<in> set (positions vy). i < N" "distinct ix" "distinct iy" "set ix \<inter> set iy = {}"
    using p v by (auto simp: pair_ok_def)
  note gx = get_sharing [OF X pos ixN(1), unfolded ln] and gy = get_sharing [OF X pos ixN(2), unfolded ln]
  let ?b = "\<lambda>t. \<not> sint (reveal_b X ! (ix ! t)) < sint (reveal_b X ! (iy ! t))"
  obtain C st1 where C: "b_ge P (sh_get vx X) (sh_get vy X) st = Some (C, st1)" "ok st1" "is_sharing n k 0 (length ix) C"
    "reveal_b C = map2 (\<lambda>x y. of_bool (\<not> sint x < sint y)) (reveal_b (sh_get vx X)) (reveal_b (sh_get vy X))"
    using b_orders_correct(1) [OF ok gx(1) gy(1)] by blast
  have c: "bit (reveal_b C ! t) 0 = ?b t" if "t < length ix" for t
    using that ln unfolding C(4) gx(2) gy(2) by (simp add: view_get_def v)
  obtain T st2 where T: "multiplex_b P C (sh_get vx X) (sh_get vy X) st1 = Some (T, st2)" "ok st2" "is_sharing n k 0 (length ix) T"
    "\<forall>j < length ix. reveal_b T ! j = (if bit (reveal_b C ! j) 0 then reveal_b (sh_get vy X) ! j else reveal_b (sh_get vx X) ! j)"
    using multiplex_b_correct [OF C(2,3) gx(1) gy(1)] by blast
  obtain U st3 where U: "multiplex_b P C (sh_get vy X) (sh_get vx X) st2 = Some (U, st3)" "ok st3" "is_sharing n k 0 (length ix) U"
    "\<forall>j < length ix. reveal_b U ! j = (if bit (reveal_b C ! j) 0 then reveal_b (sh_get vx X) ! j else reveal_b (sh_get vy X) ! j)"
    using multiplex_b_correct [OF T(2) C(3) gy(1) gx(1)] by blast
  have t: "reveal_b T = map (\<lambda>i. if ?b i then reveal_b X ! (iy ! i) else reveal_b X ! (ix ! i)) [0..<length ix]"
    using T(4) c len [OF T(3)] ln by (intro nth_equalityI) (simp_all add: gx(2) gy(2) view_get_def v)
  have u: "reveal_b U = map (\<lambda>i. if ?b i then reveal_b X ! (ix ! i) else reveal_b X ! (iy ! i)) [0..<length ix]"
    using U(4) c len [OF U(3)] ln by (intro nth_equalityI) (simp_all add: gx(2) gy(2) view_get_def v)
  note s1 = set_sharing [OF X U(3) [folded ln(1)] pos ixN(4) ixN(2) [unfolded v(2)] v(2)]
  note s2 = set_sharing [OF s1(1) T(3) pos ixN(3) ixN(1) [unfolded v(1)] v(1)]
  have "reveal_b (sh_set vx T (sh_set vy U X)) = mix ix iy ?b (reveal_b X)"
    unfolding s2(2) s1(2) t u mix_def by (rule scatter_commute [OF ixN(5)])
  then show ?thesis using C(1) T(1) U(1,2) s2(1) mix_ge [of ix iy "reveal_b X"] by (simp add: compare_swap_def Let_def)
qed

lemma compare_swap_stage:
  fixes X :: "'a sharing"
  assumes "ok st" and X: "is_sharing n k 0 N X" and "round_ok N l r s"
    and "positions vx = shown N l r s" and "positions vy = shown N r r s"
  shows "\<exists>Y st'. compare_swap P vx vy X st = Some (Y, st') \<and> ok st' \<and> is_sharing n k 0 N Y \<and>
    reveal_b Y = stage (key_gt sint) (s, l \<noteq> 0, r - l) (reveal_b X)"
  using compare_swap_correct [OF assms(1,2,4,5) round_pair [OF assms(3)]]
    mix_stage [of "reveal_b X" l r s "key_gt sint"] assms(3) len [OF X] by simp

lemma odd_even_loop_correct:
  fixes X :: "'a sharing"
  assumes "ok st" and "is_sharing n k 0 (2 ^ Suc l) X" and "j \<le> l"
  shows "\<exists>Y st'. odd_even_loop P (2 ^ j div 2) X st = Some (Y, st') \<and> ok st' \<and> is_sharing n k 0 (2 ^ Suc l) Y \<and>
    reveal_b Y = stages (key_gt sint) (map (\<lambda>j. (2 ^ j, True, 2 ^ j)) (rev [0..<j])) (reveal_b X)"
  using assms
proof (induction j arbitrary: X st)
  case 0
  then show ?case by (subst odd_even_loop.simps) simp
next
  case (Suc j)
  let ?N = "2 ^ Suc l :: nat" and ?d = "2 ^ j :: nat"
  have sz: "sh_size X = ?N" using is_sharing_size [OF Suc.prems(2), of 0] pos by (simp add: sh_size_def)
  have "(2 :: nat) ^ Suc j < ?N" using Suc.prems(3) by (intro power_strict_increasing) simp_all
  then have b: "?d + ?d < ?N" by (simp only: power_Suc mult_2)
  have r: "round_ok ?N ?d (?d + ?d) ?d" using b by (auto simp: round_ok_def intro!: exI [of _ 1])
  obtain v u v' u' where v: "slice ?d (?N - ?d) (base ?N) = Some v" "alternating_subset_reference ?d (Some ?d) v = Some u"
      "positions u = shown ?N ?d (?d + ?d) ?d"
    and v': "slice (?d * 2) ?N (base ?N) = Some v'" "alternating_subset_reference ?d (Some ?d) v' = Some u'"
      "positions u' = shown ?N (?d + ?d) (?d + ?d) ?d"
    using shown_view [of ?d "?d + ?d" ?N ?d] shown_view [of ?d "?d + ?d" ?N "?d + ?d"] b by (auto simp: mult_2_right)
  obtain Y st1 where Y: "compare_swap P u u' X st = Some (Y, st1)" "ok st1" "is_sharing n k 0 ?N Y"
    "reveal_b Y = stage (key_gt sint) (?d, True, ?d) (reveal_b X)"
    using compare_swap_stage [OF Suc.prems(1,2) r v(3) v'(3)] by auto
  obtain Z st' where Z: "odd_even_loop P (?d div 2) Y st1 = Some (Z, st')" "ok st'" "is_sharing n k 0 ?N Z"
    "reveal_b Z = stages (key_gt sint) (map (\<lambda>j. (2 ^ j, True, 2 ^ j)) (rev [0..<j])) (reveal_b Y)"
    using Suc.IH [OF Y(2,3)] Suc.prems(3) by auto
  have "odd_even_loop P ?d X st = Some (Z, st')"
    using v(1,2) v'(1,2) Y(1) Z(1) by (subst odd_even_loop.simps) (simp add: Let_def sz del: power_Suc)
  then show ?case using Z(2-4) Y(4) by simp
qed

theorem odd_even_merge_correct:
  fixes X :: "'a sharing"
  assumes ok: "ok st" and X: "is_sharing n k 0 (2 ^ Suc l) X"
    and srt: "sorted (map sint (take (2 ^ l) (reveal_b X)))" "sorted (map sint (drop (2 ^ l) (reveal_b X)))"
  shows "\<exists>Y st'. odd_even_merge P X st = Some (Y, st') \<and> ok st' \<and> is_sharing n k 0 (2 ^ Suc l) Y \<and>
    sorted (map sint (reveal_b Y)) \<and> mset (reveal_b Y) = mset (reveal_b X)"
proof -
  let ?N = "2 ^ Suc l :: nat" and ?h = "2 ^ l :: nat"
  have sz: "sh_size X = ?N" using is_sharing_size [OF X, of 0] pos by (simp add: sh_size_def)
  have r: "round_ok ?N 0 ?h ?h" by (auto simp: round_ok_def intro!: exI [of _ 1])
  have sh: "shown ?N 0 ?h ?h = [0..<?h]" "shown ?N ?h ?h ?h = [?h..<?N]"
    by (auto simp: shown_def mult_2 filter_id_conv map_add_upt intro!: nth_equalityI)
  let ?c1 = "(base ?N)\<lparr>mapping := Some [0..<?h]\<rparr>" and ?c2 = "(base ?N)\<lparr>mapping := Some [?h..<?N]\<rparr>"
  have c: "slice 0 ?h (base ?N) = Some ?c1" "slice ?h ?N (base ?N) = Some ?c2" by (simp_all add: slice_def mult_2)
  obtain Y st1 where Y: "compare_swap P ?c1 ?c2 X st = Some (Y, st1)" "ok st1" "is_sharing n k 0 ?N Y"
    "reveal_b Y = stage (key_gt sint) (?h, False, ?h) (reveal_b X)"
    using compare_swap_stage [OF ok X r, of ?c1 ?c2] sh by auto
  obtain Z st' where Z: "odd_even_loop P (?h div 2) Y st1 = Some (Z, st')" "ok st'" "is_sharing n k 0 ?N Z"
    "reveal_b Z = stages (key_gt sint) (map (\<lambda>j. (2 ^ j, True, 2 ^ j)) (rev [0..<l])) (reveal_b Y)"
    using odd_even_loop_correct [OF Y(2,3) order.refl] by auto
  have "?N div 4 = ?h div 2" "?N div 2 = ?h" "?N - ?h = ?h" by simp_all
  then have "odd_even_merge P X st = Some (Z, st')"
    using c Y(1) Z(1) by (simp add: odd_even_merge_def Let_def sz del: power_Suc)
  moreover have z: "reveal_b Z = stages (key_gt sint) (odd_even_stages l) (reveal_b X)"
    unfolding odd_even_stages_eq by (simp add: Z(4) Y(4))
  moreover have "sorted (map sint (reveal_b Z))"
    using odd_even_sorted [of "take ?h (reveal_b X)" l "drop ?h (reveal_b X)" sint] srt len [OF X] unfolding z by simp
  moreover have "mset (reveal_b Z) = mset (reveal_b X)" unfolding z by (rule mset_stages) (use odd_even_stages_ok in blast)
  ultimately show ?thesis using Z(2,3) by blast
qed

end

end
