(* ===== verification/Segmented_Scan.thy ===== *)
theory Segmented_Scan
  imports Main
begin

text \<open>
  Segmented prefix aggregation as a reference, and the argument that a prefix network computes it.
  Positions carry labels; a group is a run of equal labels.  \<open>window\<close> aggregates the elements of
  a position's group that lie at most \<open>w\<close> before it; two adjacent windows combine, so a network
  that always combines adjacent windows ends with the full ones, which are the scan.
\<close>

section \<open>The reference\<close>

primrec seg_scan :: "(nat \<Rightarrow> 'l) \<Rightarrow> ('b \<Rightarrow> 'b \<Rightarrow> 'b) \<Rightarrow> 'b list \<Rightarrow> nat \<Rightarrow> 'b" where
  "seg_scan L f xs 0 = xs ! 0"
| "seg_scan L f xs (Suc j) = (if L j = L (Suc j) then f (seg_scan L f xs j) (xs ! Suc j) else xs ! Suc j)"

definition contiguous :: "nat \<Rightarrow> (nat \<Rightarrow> 'l) \<Rightarrow> bool" where
  "contiguous n L \<longleftrightarrow> (\<forall>i j l. i < j \<longrightarrow> j < l \<longrightarrow> l < n \<longrightarrow> L i = L l \<longrightarrow> L j = L l)"

primrec window :: "(nat \<Rightarrow> 'l) \<Rightarrow> ('b \<Rightarrow> 'b \<Rightarrow> 'b) \<Rightarrow> 'b list \<Rightarrow> nat \<Rightarrow> nat \<Rightarrow> 'b" where
  "window L f xs 0 j = xs ! j"
| "window L f xs (Suc w) j =
     (if Suc w \<le> j \<and> L (j - Suc w) = L j then f (xs ! (j - Suc w)) (window L f xs w j) else window L f xs w j)"

locale segmented =
  fixes n :: nat and L :: "nat \<Rightarrow> 'l" and f :: "'b \<Rightarrow> 'b \<Rightarrow> 'b"
  assumes groups: "contiguous n L" and assoc: "f (f x y) z = f x (f y z)"
begin

lemma window_combine:
  assumes "j < n" and "Suc w \<le> j"
  shows "window L f xs (v + Suc w) j =
    (if L (j - Suc w) = L j then f (window L f xs v (j - Suc w)) (window L f xs w j) else window L f xs w j)"
proof (induction v)
  case 0
  then show ?case using assms by simp
next
  case (Suc v)
  let ?s = "j - Suc w"
  have s: "?s - Suc v = j - Suc (v + Suc w)" by simp
  show ?case
  proof (cases "L ?s = L j")
    case True
    then show ?thesis
      using Suc assms assoc [of "xs ! (?s - Suc v)" "window L f xs v ?s" "window L f xs w j"] s by (auto simp: not_le)
  next
    case False
    have "\<not> (Suc (v + Suc w) \<le> j \<and> L (j - Suc (v + Suc w)) = L j)"
    proof
      assume a: "Suc (v + Suc w) \<le> j \<and> L (j - Suc (v + Suc w)) = L j"
      then have "j - Suc (v + Suc w) < ?s" "?s < j" using assms by linarith+
      then show False using a False groups assms(1) unfolding contiguous_def by blast
    qed
    then have "window L f xs (Suc v + Suc w) j = window L f xs (v + Suc w) j"
      by (simp only: add_Suc window.simps(2) if_False)
    then show ?thesis using Suc False by simp
  qed
qed

lemma window_full:
  assumes "j < n"
  shows "window L f xs j j = seg_scan L f xs j"
  using assms
proof (induction j)
  case (Suc j)
  have "window L f xs (j + Suc 0) (Suc j) =
      (if L j = L (Suc j) then f (window L f xs j j) (xs ! Suc j) else xs ! Suc j)"
    using window_combine [of "Suc j" 0 xs j] Suc.prems by simp
  then show ?case using Suc by simp
qed simp

lemma window_beyond: "j \<le> w \<Longrightarrow> window L f xs w j = window L f xs j j"
proof (induction w)
  case (Suc w)
  then show ?case by (cases "j = Suc w") auto
qed simp

end

section \<open>One level\<close>

text \<open>A level combines the source \<open>s\<close> into the target \<open>t\<close> of every pair, reading before writing.\<close>

definition agg_level :: "(nat \<Rightarrow> 'l) \<Rightarrow> ('b \<Rightarrow> 'b \<Rightarrow> 'b) \<Rightarrow> (nat \<times> nat) list \<Rightarrow> 'b list \<Rightarrow> 'b list" where
  "agg_level L f ps xs = map (\<lambda>p. case map_of (map (\<lambda>(s, t). (t, s)) ps) p of
     Some s \<Rightarrow> if L s = L p then f (xs ! s) (xs ! p) else xs ! p | None \<Rightarrow> xs ! p) [0..<length xs]"

lemma length_agg_level [simp]: "length (agg_level L f ps xs) = length xs"
  by (simp add: agg_level_def)

lemma nth_agg_level:
  assumes "distinct (map snd ps)" and "p < length xs"
  shows "(s, p) \<in> set ps \<Longrightarrow> agg_level L f ps xs ! p = (if L s = L p then f (xs ! s) (xs ! p) else xs ! p)"
    and "p \<notin> snd ` set ps \<Longrightarrow> agg_level L f ps xs ! p = xs ! p"
proof -
  let ?m = "map (\<lambda>(s, t). (t, s)) ps"
  have d: "distinct (map fst ?m)" using assms(1) by (simp add: comp_def case_prod_beta)
  show "(s, p) \<in> set ps \<Longrightarrow> agg_level L f ps xs ! p = (if L s = L p then f (xs ! s) (xs ! p) else xs ! p)"
    using map_of_is_SomeI [OF d, of p s] assms(2) by (force simp: agg_level_def)
  assume "p \<notin> snd ` set ps"
  then have "map_of ?m p = None" by (force simp: map_of_eq_None_iff)
  then show "agg_level L f ps xs ! p = xs ! p" using assms(2) by (simp add: agg_level_def)
qed

section \<open>The Brent-Kung network\<close>

definition up_pairs :: "nat \<Rightarrow> nat \<Rightarrow> (nat \<times> nat) list" where
  "up_pairs r i = map (\<lambda>k. (2 ^ i - 1 + k * (2 * 2 ^ i), 2 * 2 ^ i - 1 + k * (2 * 2 ^ i))) [0..<2 ^ (r - Suc i)]"

definition down_pairs :: "nat \<Rightarrow> nat \<Rightarrow> (nat \<times> nat) list" where
  "down_pairs r i = map (\<lambda>k. (2 * 2 ^ i - 1 + k * (2 * 2 ^ i), 3 * 2 ^ i - 1 + k * (2 * 2 ^ i))) [0..<2 ^ (r - Suc i) - 1]"

definition bk_pairs :: "nat \<Rightarrow> nat \<Rightarrow> (nat \<times> nat) list" where
  "bk_pairs r l = (if l < r then up_pairs r l else down_pairs r (2 * r - 2 - l))"

text \<open>The state between levels: position \<open>p\<close> holds the window of \<open>w p\<close> elements.\<close>

definition holds_windows :: "nat \<Rightarrow> (nat \<Rightarrow> 'l) \<Rightarrow> ('b \<Rightarrow> 'b \<Rightarrow> 'b) \<Rightarrow> 'b list \<Rightarrow> (nat \<Rightarrow> nat) \<Rightarrow> 'b list \<Rightarrow> bool" where
  "holds_windows n L f xs w ys \<longleftrightarrow> length ys = n \<and> (\<forall>p < n. 0 < w p \<and> ys ! p = window L f xs (w p - 1) p)"

context segmented
begin

lemma level_windows:
  assumes "holds_windows n L f xs w ys" and "distinct (map snd ps)"
    and p: "\<And>s t. (s, t) \<in> set ps \<Longrightarrow> t < n \<and> w t \<le> t \<and> s = t - w t \<and> w' t = w s + w t"
    and q: "\<And>t. t < n \<Longrightarrow> t \<notin> snd ` set ps \<Longrightarrow> w' t = w t"
  shows "holds_windows n L f xs w' (agg_level L f ps ys)"
  unfolding holds_windows_def
proof (intro conjI allI impI)
  have ys: "length ys = n" "\<And>p. p < n \<Longrightarrow> 0 < w p \<and> ys ! p = window L f xs (w p - 1) p"
    using assms(1) by (simp_all add: holds_windows_def)
  then show "length (agg_level L f ps ys) = n" by simp
  fix t assume t: "t < n"
  have "0 < w' t \<and> agg_level L f ps ys ! t = window L f xs (w' t - 1) t"
  proof (cases "t \<in> snd ` set ps")
    case True
    then obtain s where s: "(s, t) \<in> set ps" by auto
    note a = p [OF s]
    have "s < n" using a by linarith
    then have w: "0 < w t" "0 < w s" using ys(2) t by blast+
    have e: "w' t - 1 = (w s - 1) + Suc (w t - 1)" using a w by simp
    have "agg_level L f ps ys ! t = (if L s = L t then f (ys ! s) (ys ! t) else ys ! t)"
      using nth_agg_level(1) [OF assms(2) _ s, of ys L f] t ys(1) by simp
    also have "\<dots> = window L f xs (w' t - 1) t"
      unfolding e using window_combine [of t "w t - 1" xs "w s - 1"] t a w ys(2) [OF \<open>s < n\<close>] ys(2) [OF t] by simp
    finally show ?thesis using a w by simp
  next
    case False
    then show ?thesis using nth_agg_level(2) [OF assms(2) _ False, of ys L f] t ys q [OF t False] by simp
  qed
  then show "0 < w' t" "agg_level L f ps ys ! t = window L f xs (w' t - 1) t" by simp_all
qed

end

primrec low :: "nat \<Rightarrow> nat \<Rightarrow> nat" where
  "low 0 p = 1"
| "low (Suc l) p = (if 2 ^ Suc l dvd Suc p then 2 ^ Suc l else low l p)"

definition full_at :: "nat \<Rightarrow> nat \<Rightarrow> nat \<Rightarrow> nat" where
  "full_at r i p = (if 2 ^ i dvd Suc p then Suc p else low r p)"

lemma low_pos: "0 < low l p"
  by (induction l) simp_all

lemma low_dvd: "2 ^ l dvd Suc p \<Longrightarrow> low l p = 2 ^ l"
  by (cases l) simp_all

lemma low_exact: "i \<le> l \<Longrightarrow> 2 ^ i dvd Suc p \<Longrightarrow> \<not> 2 ^ Suc i dvd Suc p \<Longrightarrow> low l p = 2 ^ i"
proof (induction l)
  case (Suc l)
  show ?case
  proof (cases "i = Suc l")
    case True
    then show ?thesis using Suc.prems low_dvd by blast
  next
    case False
    then have "\<not> 2 ^ Suc l dvd Suc p" using Suc.prems by (meson le_SucE le_imp_power_dvd dvd_trans not_less_eq_eq)
    then show ?thesis using Suc False by simp
  qed
qed simp

lemma multiple_at:
  assumes "c dvd Suc t" and "0 < c" and "t < c * m"
  shows "\<exists>k < m. t = c - 1 + k * (c :: nat)"
proof -
  obtain q where q: "Suc t = c * q" using assms(1) by (auto simp: dvd_def)
  then have "0 < q" by (cases q) simp_all
  then obtain k where k: "q = Suc k" by (cases q) simp_all
  have "t = c - 1 + k * c" using q assms(2) by (simp add: k algebra_simps) 
  moreover have "k < m"
  proof -
    have "c * q \<le> c * m" using assms(3) q by linarith
    then have "q \<le> m" using assms(2) mult_le_cancel1 [of c q m] by blast
    then show ?thesis using k by simp
  qed
  ultimately show ?thesis by blast
qed

lemma power_split: "i < r \<Longrightarrow> 2 ^ r = 2 * 2 ^ i * (2 :: nat) ^ (r - Suc i)"
  by (simp add: power_add [symmetric] flip: power_Suc)

lemma up_pair:
  assumes "i < r" and "(s, t) \<in> set (up_pairs r i)"
  shows "t < 2 ^ r" and "2 * 2 ^ i dvd Suc t" and "s = t - 2 ^ i" and "2 ^ i \<le> t" and "2 ^ i dvd Suc s"
proof -
  obtain k where k: "k < 2 ^ (r - Suc i)" "s = 2 ^ i - 1 + k * (2 * 2 ^ i)" "t = 2 * 2 ^ i - 1 + k * (2 * 2 ^ i)"
    using assms(2) by (auto simp: up_pairs_def)
  have p: "0 < (2 :: nat) ^ i" by simp
  have st: "Suc t = 2 * 2 ^ i * Suc k" "Suc s = 2 ^ i * (2 * k + 1)" using p by (simp_all add: k(2,3) algebra_simps)
  have "2 * 2 ^ i * Suc k \<le> 2 * 2 ^ i * 2 ^ (r - Suc i)" using k(1) by (intro mult_le_mono2) simp
  then show "t < 2 ^ r" using st(1) power_split [OF assms(1)] by simp
  show "2 * 2 ^ i dvd Suc t" "2 ^ i dvd Suc s" unfolding st by (rule dvd_triv_left)+
  show "s = t - 2 ^ i" "2 ^ i \<le> t" using p k by simp_all
qed

lemma down_pair:
  assumes "Suc i < r" and "(s, t) \<in> set (down_pairs r i)"
  shows "t < 2 ^ r" and "2 ^ i dvd Suc t" and "\<not> 2 * 2 ^ i dvd Suc t" and "s = t - 2 ^ i" and "2 ^ i \<le> t" and "2 * 2 ^ i dvd Suc s"
proof -
  obtain k where k: "k < 2 ^ (r - Suc i) - 1" "s = 2 * 2 ^ i - 1 + k * (2 * 2 ^ i)" "t = 3 * 2 ^ i - 1 + k * (2 * 2 ^ i)"
    using assms(2) by (auto simp: down_pairs_def)
  have p: "0 < (2 :: nat) ^ i" by simp
  have st: "Suc t = 2 ^ i * (2 * k + 3)" "Suc s = 2 * 2 ^ i * Suc k" using p by (simp_all add: k(2,3) algebra_simps)
  have "2 * k + 3 \<le> 2 * 2 ^ (r - Suc i)" using k(1) by linarith
  then have "2 ^ i * (2 * k + 3) \<le> 2 ^ i * (2 * 2 ^ (r - Suc i))" by (intro mult_le_mono2)
  then have "Suc t \<le> 2 ^ r" unfolding st(1) using power_split [of i r] assms(1) by (simp add: ac_simps)
  then show "t < 2 ^ r" by simp
  show "2 ^ i dvd Suc t" "2 * 2 ^ i dvd Suc s" unfolding st by (rule dvd_triv_left)+
  have "\<not> 2 dvd 2 * k + 3" by presburger
  then show "\<not> 2 * 2 ^ i dvd Suc t" unfolding st(1) using p by (metis mult.commute nat_mult_dvd_cancel1)
  show "s = t - 2 ^ i" "2 ^ i \<le> t" using p k by simp_all
qed

lemma up_targets:
  assumes "i < r" and "t < 2 ^ r" and "2 * 2 ^ i dvd Suc t"
  shows "t \<in> snd ` set (up_pairs r i)"
  using multiple_at [OF assms(3), of "2 ^ (r - Suc i)"] assms(2) power_split [OF assms(1)]
  by (force simp: up_pairs_def)

lemma down_targets:
  assumes "Suc i < r" and "t < 2 ^ r" and "2 ^ i dvd Suc t" and "\<not> 2 * 2 ^ i dvd Suc t" and "Suc t \<noteq> 2 ^ i"
  shows "t \<in> snd ` set (down_pairs r i)"
proof -
  have p: "0 < (2 :: nat) ^ i" by simp
  obtain m where m: "Suc t = 2 ^ i * m" using assms(3) by (auto simp: dvd_def)
  have "odd m"
  proof
    assume "2 dvd m"
    then show False using assms(4) m by (metis mult.commute mult_dvd_mono dvd_refl)
  qed
  moreover have "m \<noteq> 1" using assms(5) m by simp
  ultimately obtain k where k: "m = 2 * k + 3" by (metis One_nat_def Suc_1 add_Suc_right mult_Suc_right numeral_3_eq_3 oddE old.nat.exhaust
        add_0_right mult_0_right plus_1_eq_Suc add.commute)
  have "Suc t \<le> 2 ^ r" using assms(2) by simp
  then have "2 ^ i * m \<le> 2 ^ i * (2 * 2 ^ (r - Suc i))" using assms(1) m power_split [of i r] by (simp add: ac_simps)
  then have "m \<le> 2 * 2 ^ (r - Suc i)" using p mult_le_cancel1 [of "2 ^ i" m] by blast
  then have "2 * k + 3 \<le> 2 * 2 ^ (r - Suc i)" using k by simp
  then have "k < 2 ^ (r - Suc i) - 1" by linarith
  moreover have "t = 3 * 2 ^ i - 1 + k * (2 * 2 ^ i)" using m p by (simp add: k algebra_simps)
  ultimately show ?thesis by (force simp: down_pairs_def)
qed

lemma distinct_stride: "0 < d \<Longrightarrow> distinct (map (\<lambda>k. a + k * (d :: nat)) [0..<m])"
  by (auto simp: distinct_map inj_on_def)

lemma distinct_targets: "distinct (map snd (up_pairs r i))" "distinct (map snd (down_pairs r i))"
  unfolding up_pairs_def down_pairs_def map_map comp_def snd_conv by (rule distinct_stride, simp)+

context segmented
begin

lemma up_step:
  assumes "n = 2 ^ r" and "i < r" and "holds_windows n L f xs (low i) ys"
  shows "holds_windows n L f xs (low (Suc i)) (agg_level L f (up_pairs r i) ys)"
proof (rule level_windows [OF assms(3) distinct_targets(1)])
  fix s t assume "(s, t) \<in> set (up_pairs r i)"
  note u = up_pair [OF assms(2) this]
  have "2 ^ i dvd Suc t" using u(2) by (metis dvd_mult_right dvd_trans dvd_triv_right)
  then have "low i t = 2 ^ i" "low i s = 2 ^ i" using u(5) by (simp_all add: low_dvd)
  then show "t < n \<and> low i t \<le> t \<and> s = t - low i t \<and> low (Suc i) t = low i s + low i t"
    using u assms(1) by simp
next
  fix t assume t: "t < n" "t \<notin> snd ` set (up_pairs r i)"
  then have "\<not> 2 * 2 ^ i dvd Suc t" using up_targets [OF assms(2)] assms(1) by blast
  then show "low (Suc i) t = low i t" by simp
qed

lemma down_step:
  assumes "n = 2 ^ r" and "Suc i < r" and "holds_windows n L f xs (full_at r (Suc i)) ys"
  shows "holds_windows n L f xs (full_at r i) (agg_level L f (down_pairs r i) ys)"
proof (rule level_windows [OF assms(3) distinct_targets(2)])
  fix s t assume "(s, t) \<in> set (down_pairs r i)"
  note u = down_pair [OF assms(2) this]
  have "low r t = 2 ^ i" using u(2,3) assms(2) by (intro low_exact) simp_all
  then show "t < n \<and> full_at r (Suc i) t \<le> t \<and> s = t - full_at r (Suc i) t \<and> full_at r i t = full_at r (Suc i) s + full_at r (Suc i) t"
    using u assms(1) by (simp add: full_at_def)
next
  fix t assume t: "t < n" "t \<notin> snd ` set (down_pairs r i)"
  show "full_at r i t = full_at r (Suc i) t"
  proof (cases "2 ^ i dvd Suc t \<and> \<not> 2 * 2 ^ i dvd Suc t")
    case True
    then have "Suc t = 2 ^ i" using down_targets [OF assms(2)] t assms(1) by blast
    moreover have "low r t = 2 ^ i" using True assms(2) by (intro low_exact) simp_all
    ultimately show ?thesis using True by (simp add: full_at_def)
  next
    case False
    then show ?thesis by (auto simp: full_at_def dest: dvd_mult_right)
  qed
qed

lemma up_phase:
  assumes "n = 2 ^ r" and "length xs = n" and "l \<le> r"
  shows "holds_windows n L f xs (low l) (foldl (\<lambda>ys i. agg_level L f (up_pairs r i) ys) xs [0..<l])"
  using assms(3)
proof (induction l)
  case 0
  then show ?case using assms(2) by (simp add: holds_windows_def)
next
  case (Suc l)
  then have "holds_windows n L f xs (low l) (foldl (\<lambda>ys i. agg_level L f (up_pairs r i) ys) xs [0..<l])" by simp
  from up_step [OF assms(1) _ this] show ?case using Suc.prems by (simp del: low.simps)
qed

lemma down_phase:
  assumes "n = 2 ^ r" and "l \<le> r - 1" and "holds_windows n L f xs (full_at r (r - 1)) ys"
  shows "holds_windows n L f xs (full_at r (r - 1 - l)) (foldl (\<lambda>ys i. agg_level L f (down_pairs r (r - 2 - i)) ys) ys [0..<l])"
  using assms(2)
proof (induction l)
  case 0
  then show ?case using assms(3) by simp
next
  case (Suc l)
  have e: "r - 1 - l = Suc (r - 2 - l)" "r - 1 - Suc l = r - 2 - l" "Suc (r - 2 - l) < r" using Suc.prems by simp_all
  show ?case using down_step [OF assms(1) e(3)] Suc e by simp
qed

lemma bk_scan:
  assumes "n = 2 ^ r" and "0 < r" and "length xs = n" and "j < n"
  shows "foldl (\<lambda>ys l. agg_level L f (bk_pairs r l) ys) xs [0..<2 * r - 1] ! j = seg_scan L f xs j"
proof -
  let ?up = "foldl (\<lambda>ys i. agg_level L f (up_pairs r i) ys) xs [0..<r]"
  have split: "[0..<2 * r - 1] = [0..<r] @ map (\<lambda>i. i + r) [0..<r - 1]"
    using upt_add_eq_append [of 0 r "r - 1"] assms(2) by (simp add: map_add_upt add.commute mult_2)
  have "foldl (\<lambda>ys l. agg_level L f (bk_pairs r l) ys) xs [0..<r] = ?up"
    by (intro foldl_cong) (simp_all add: bk_pairs_def)
  moreover have "foldl (\<lambda>ys l. agg_level L f (bk_pairs r l) ys) ys (map (\<lambda>i. i + r) [0..<r - 1])
      = foldl (\<lambda>ys i. agg_level L f (down_pairs r (r - 2 - i)) ys) ys [0..<r - 1]" for ys
    unfolding foldl_map by (intro foldl_cong) (auto simp: bk_pairs_def mult_2)
  ultimately have e: "foldl (\<lambda>ys l. agg_level L f (bk_pairs r l) ys) xs [0..<2 * r - 1]
      = foldl (\<lambda>ys i. agg_level L f (down_pairs r (r - 2 - i)) ys) ?up [0..<r - 1]"
    unfolding split foldl_append by simp
  have "low r p = full_at r (r - 1) p" if "p < n" for p
  proof (cases "2 ^ (r - 1) dvd Suc p")
    case True
    have r: "2 ^ r = 2 ^ (r - 1) * (2 :: nat)" using assms(2) by (cases r) simp_all
    then have "p < 2 ^ (r - 1) * 2" using that assms(1) by simp
    from multiple_at [OF True _ this] obtain k where k: "k < 2" "p = 2 ^ (r - 1) - 1 + k * 2 ^ (r - 1)"
      by auto
    then have "Suc p = 2 ^ (r - 1) \<or> Suc p = 2 ^ r" using r by (auto simp: less_2_cases_iff)
    then show ?thesis
    proof
      assume a: "Suc p = 2 ^ (r - 1)"
      have "\<not> 2 ^ Suc (r - 1) dvd Suc p" unfolding a by (simp add: power_dvd_imp_le [of 2])
      then have "low r p = 2 ^ (r - 1)" using True by (intro low_exact) simp_all
      then show ?thesis using a by (simp add: full_at_def)
    next
      assume a: "Suc p = 2 ^ r"
      then show ?thesis using low_dvd [of r p] True by (simp add: full_at_def)
    qed
  qed (simp add: full_at_def)
  then have "holds_windows n L f xs (full_at r (r - 1)) ?up"
    using up_phase [OF assms(1,3), of r] by (simp add: holds_windows_def)
  from down_phase [OF assms(1) order.refl this]
  have "foldl (\<lambda>ys l. agg_level L f (bk_pairs r l) ys) xs [0..<2 * r - 1] ! j = window L f xs j j"
    unfolding e using assms(4) by (simp add: holds_windows_def full_at_def)
  then show ?thesis using window_full [OF assms(4)] by simp
qed

end

section \<open>The Hillis-Steele network\<close>

definition hs_pairs :: "nat \<Rightarrow> nat \<Rightarrow> (nat \<times> nat) list" where
  "hs_pairs r i = map (\<lambda>k. (k, k + 2 ^ i)) [0..<2 ^ r - 2 ^ i]"

context segmented
begin

lemma hs_step:
  assumes "n = 2 ^ r" and "i < r" and "holds_windows n L f xs (\<lambda>p. min (2 ^ i) (Suc p)) ys"
  shows "holds_windows n L f xs (\<lambda>p. min (2 ^ Suc i) (Suc p)) (agg_level L f (hs_pairs r i) ys)"
proof (rule level_windows [OF assms(3)])
  show "distinct (map snd (hs_pairs r i))" by (auto simp: hs_pairs_def distinct_map inj_on_def)
  fix s t assume "(s, t) \<in> set (hs_pairs r i)"
  then have st: "t = s + 2 ^ i" "t < n" using assms(1) by (auto simp: hs_pairs_def)
  have "(2 :: nat) ^ Suc i = 2 ^ i + 2 ^ i" by simp
  then show "t < n \<and> min (2 ^ i) (Suc t) \<le> t \<and> s = t - min (2 ^ i) (Suc t) \<and>
      min (2 ^ Suc i) (Suc t) = min (2 ^ i) (Suc s) + min (2 ^ i) (Suc t)"
    using st by (auto simp: min_def simp del: power_Suc)
next
  fix t assume t: "t < n" "t \<notin> snd ` set (hs_pairs r i)"
  have "t < 2 ^ i"
  proof (rule ccontr)
    assume "\<not> t < 2 ^ i"
    then have "(t - 2 ^ i, t) \<in> set (hs_pairs r i)" using t(1) assms(1) by (auto simp: hs_pairs_def image_iff)
    then show False using t(2) by force
  qed
  then show "min (2 ^ Suc i) (Suc t) = min (2 ^ i) (Suc t)" by simp
qed

lemma hs_scan:
  assumes "n = 2 ^ r" and "length xs = n" and "j < n"
  shows "foldl (\<lambda>ys i. agg_level L f (hs_pairs r i) ys) xs [0..<r] ! j = seg_scan L f xs j"
proof -
  have "holds_windows n L f xs (\<lambda>p. min (2 ^ l) (Suc p)) (foldl (\<lambda>ys i. agg_level L f (hs_pairs r i) ys) xs [0..<l])" if "l \<le> r" for l
    using that
  proof (induction l)
    case 0
    then show ?case using assms(2) by (simp add: holds_windows_def min_def)
  next
    case (Suc l)
    then have "holds_windows n L f xs (\<lambda>p. min (2 ^ l) (Suc p)) (foldl (\<lambda>ys i. agg_level L f (hs_pairs r i) ys) xs [0..<l])" by simp
    from hs_step [OF assms(1) _ this] show ?case using Suc.prems by (simp del: power_Suc)
  qed
  from this [of r] have "foldl (\<lambda>ys i. agg_level L f (hs_pairs r i) ys) xs [0..<r] ! j
      = window L f xs (min (2 ^ r) (Suc j) - 1) j"
    using assms(3) by (simp add: holds_windows_def)
  moreover have "min (2 ^ r) (Suc j) = Suc j" using assms(1,3) by simp
  ultimately show ?thesis using window_full [OF assms(3), of xs] by simp
qed

end

end
