(* ===== verification/Prefix_Network.thy ===== *)
theory Prefix_Network
  imports Sorting_Proofs Segmented_Scan
begin

text \<open>
  Prefix networks (\<open>core/operators/prefix_network.h\<close>): Brent-Kung and Hillis-Steele.  A network is a
  sequence of levels; a level shows two views of a vector, the sources and the targets of the elements it combines.
  The level gap \<open>1 << i\<close> is an \<open>int\<close>, so networks have at most \<open>2 ^ 31\<close> elements.
  The levels of both networks are the pairs of \<open>Segmented_Scan\<close>, read forwards or backwards.
\<close>

section \<open>Networks\<close>

datatype direction = Forward | Reverse

record prefix_network =
  pn_n :: nat
  pn_reversed :: bool

definition prefix_network_new :: "direction \<Rightarrow> nat \<Rightarrow> prefix_network option" where
  "prefix_network_new dir n = (if is_power_of_two n then Some \<lparr>pn_n = n, pn_reversed = (dir = Reverse)\<rparr> else None)"

text \<open>\<open>SharedVector::subset\<close> ends at the last element; \<open>resize\<close> of a view keeps a prefix of its positions, and is
  modelled where it does not grow the vector.\<close>

definition sv_subset :: "nat \<Rightarrow> nat \<Rightarrow> view \<Rightarrow> view option" where
  "sv_subset start stride v = (if total_size v = 0 then None else simple_subset_reference start stride (total_size v - 1) v)"

definition shrink_view :: "nat \<Rightarrow> view \<Rightarrow> view option" where
  "shrink_view n v = (if total_size v < n then None else Some (fst (view_resize n v ([] :: nat list))))"

section \<open>Brent-Kung\<close>

definition half_depth :: "prefix_network \<Rightarrow> nat" where
  "half_depth nw = bit_width (pn_n nw - 1)"

definition bk_depth :: "prefix_network \<Rightarrow> int" where
  "bk_depth nw = 2 * int (half_depth nw) - 1"

definition bk_level_size :: "prefix_network \<Rightarrow> nat \<Rightarrow> nat" where
  "bk_level_size nw i =
     (if i < half_depth nw
      then let gap = 2 ^ i in (pn_n nw - 2 * gap) div (2 * gap) + 1
      else let gap = 2 ^ (2 * half_depth nw - 2 - i) in (pn_n nw - 3 * gap) div (2 * gap) + 1)"

definition bk_level :: "prefix_network \<Rightarrow> nat \<Rightarrow> view \<Rightarrow> (view \<times> view) option" where
  "bk_level nw i input =
     (if i < half_depth nw
      then let gap = 2 ^ i in do {
        a \<leftarrow> sv_subset (1 * gap - 1) (gap * 2) input;
        b \<leftarrow> sv_subset (2 * gap - 1) (gap * 2) input;
        a \<leftarrow> shrink_view (total_size b) a;
        Some (a, b)
      }
      else let gap = 2 ^ (2 * half_depth nw - 2 - i) in do {
        a \<leftarrow> sv_subset (2 * gap - 1) (gap * 2) input;
        b \<leftarrow> sv_subset (3 * gap - 1) (gap * 2) input;
        a \<leftarrow> shrink_view (total_size b) a;
        Some (a, b)
      })"

section \<open>Hillis-Steele\<close>

definition hs_depth :: "prefix_network \<Rightarrow> nat" where
  "hs_depth nw = bit_width (pn_n nw - 1)"

definition hs_level_size :: "prefix_network \<Rightarrow> nat \<Rightarrow> nat" where
  "hs_level_size nw i =
     (let gap = (if pn_reversed nw then i + 1 else hs_depth nw - i) in pn_n nw - pn_n nw div 2 ^ gap)"

definition hs_level :: "prefix_network \<Rightarrow> nat \<Rightarrow> view \<Rightarrow> (view \<times> view) option" where
  "hs_level nw i input =
     (let s = hs_level_size nw i in do {
        a \<leftarrow> slice 0 s input;
        b \<leftarrow> slice_from (pn_n nw - s) input;
        Some (a, b)
      })"

section \<open>Levels\<close>

definition level ::
  "(prefix_network \<Rightarrow> nat \<Rightarrow> view \<Rightarrow> (view \<times> view) option) \<Rightarrow> int \<Rightarrow> prefix_network \<Rightarrow> nat
    \<Rightarrow> nat \<Rightarrow> (view \<times> view) option" where
  "level lv depth nw i m =
     (if int i < depth then do {
        inr \<leftarrow> (if pn_reversed nw then directed_subset_reference (- 1) (base m) else Some (base m));
        lv nw i inr
      } else None)"

text \<open>The iterator runs from level 0 until the index equals the depth, which a negative depth never is.\<close>

definition level_range :: "int \<Rightarrow> nat list option" where
  "level_range depth = (if depth < 0 then None else Some [0..<nat depth])"

section \<open>The positions of a level\<close>

definition at_dir :: "bool \<Rightarrow> nat \<Rightarrow> nat \<Rightarrow> nat" where
  "at_dir b n p = (if b then n - 1 - p else p)"

definition in_dir :: "bool \<Rightarrow> 'b list \<Rightarrow> 'b list" where
  "in_dir b xs = (if b then rev xs else xs)"

lemma length_in_dir [simp]: "length (in_dir b xs) = length xs"
  by (simp add: in_dir_def)

lemma nth_in_dir: "p < length xs \<Longrightarrow> in_dir b xs ! p = xs ! at_dir b (length xs) p"
  by (simp add: in_dir_def at_dir_def rev_nth)

lemma in_dir_in_dir [simp]: "in_dir b (in_dir b xs) = xs"
  by (simp add: in_dir_def)

lemma at_dir_less: "p < n \<Longrightarrow> at_dir b n p < n"
  by (simp add: at_dir_def)

lemma at_dir_at_dir: "p < n \<Longrightarrow> at_dir b n (at_dir b n p) = p"
  by (simp add: at_dir_def)

lemma at_dir_inj: "p < n \<Longrightarrow> p' < n \<Longrightarrow> at_dir b n p = at_dir b n p' \<Longrightarrow> p = p'"
  using at_dir_at_dir by metis

lemma start_view:
  "\<exists>v. (if b then directed_subset_reference (- 1) (base n) else Some (base n)) = Some v \<and>
     positions v = map (at_dir b n) [0..<n] \<and> total_size v = n"
proof (cases b)
  case True
  have "\<forall>j \<in> set (map (\<lambda>i. n - 1 - i) [0..<n]). j < total_size (base n)" by auto
  from remapped_Some [OF this] have "directed_subset_reference (- 1) (base n)
      = Some ((base n)\<lparr>mapping := Some (map ((!) (positions (base n))) (map (\<lambda>i. n - 1 - i) [0..<n]))\<rparr>)"
    by (simp only: directed_subset_reference_def simp_thms if_True positions_base)
  then show ?thesis using True by (auto simp: at_dir_def)
qed (auto simp: at_dir_def intro!: nth_equalityI)

lemma mult_less_div: "k \<le> a div c \<Longrightarrow> k * c \<le> (a :: nat)"
  using div_times_less_eq_dividend le_trans mult_le_mono1 by blast

lemma subset_view:
  assumes "1 < s" and "start < total_size v"
  shows "\<exists>u. sv_subset start s v = Some u \<and>
    mapping u = Some (map (\<lambda>k. positions v ! (start + k * s)) [0..<(total_size v - 1 - start) div s + 1])"
proof -
  let ?m = "(total_size v - 1 - start) div s + 1"
  have le: "start + k * s < total_size v" if "k < ?m" for k
    using mult_less_div [of k "total_size v - 1 - start" s] that assms(2) by simp
  have "?m \<le> total_size v" using assms(2) div_le_dividend [of "total_size v - 1 - start" s] by linarith
  moreover have "start \<le> total_size v - 1" "total_size v \<noteq> 0" using assms(2) by linarith+
  ultimately have "sv_subset start s v = remapped v (map (\<lambda>k. start + k * s) [0..<?m])"
    using assms by (simp add: sv_subset_def simple_subset_reference_def min_absorb2 del: One_nat_def)
  moreover have "\<forall>j \<in> set (map (\<lambda>k. start + k * s) [0..<?m]). j < total_size v" using le by auto
  ultimately show ?thesis using remapped_Some [of _ v] by (simp add: comp_def)
qed

lemma stride_count:
  assumes "0 < c" and "0 < m"
  shows "(c * m - 1 - (c - 1)) div c + 1 = (m :: nat)"
proof -
  obtain m' where m: "m = Suc m'" using assms(2) by (cases m) simp_all
  have "c * m - 1 - (c - 1) = c * m'" using assms(1) by (simp add: m)
  then show ?thesis using assms(1) m by simp
qed

lemma half_count:
  assumes "0 < g" and "0 < m"
  shows "(2 * g * m - 1 - (g - 1)) div (2 * g) + 1 = (m :: nat)"
proof -
  obtain m' where m: "m = Suc m'" using assms(2) by (cases m) simp_all
  have "2 * g * m - 1 - (g - 1) = m' * (2 * g) + g" using assms(1) by (simp add: m algebra_simps)
  then have "(2 * g * m - 1 - (g - 1)) div (2 * g) = m' + g div (2 * g)" using assms(1) by (simp only: div_mult_self3)
  then show ?thesis using assms(1) m by simp
qed

lemma later_count:
  assumes "0 < g" and "1 < m"
  shows "(2 * g * m - 1 - (3 * g - 1)) div (2 * g) + 1 = (m :: nat) - 1"
proof -
  obtain m' where m: "m = Suc (Suc m')" using assms(2) by (metis less_imp_Suc_add One_nat_def add_Suc)
  have "2 * g * m - 1 - (3 * g - 1) = m' * (2 * g) + g" using assms(1) by (simp add: m algebra_simps)
  then have "(2 * g * m - 1 - (3 * g - 1)) div (2 * g) = m' + g div (2 * g)" using assms(1) by (simp only: div_mult_self3)
  then show ?thesis using assms(1) m by simp
qed

lemma bit_width_power: "0 < r \<Longrightarrow> bit_width (2 ^ r - 1) = r"
proof (induction r)
  case (Suc r)
  have h: "(2 ^ Suc r - 1) div 2 = (2 ^ r - 1 :: nat)" by simp
  have "(1 :: nat) < 2 ^ Suc r" by (rule one_less_power) simp_all
  then have z: "(2 :: nat) ^ Suc r - 1 \<noteq> 0" by linarith
  have "bit_width (2 ^ r - 1) = r" using Suc.IH by (cases "r = 0") (simp_all add: bit_width.simps)
  then show ?case using z by (subst bit_width.simps) (simp only: h if_False)
qed simp

abbreviation prefix_net :: "nat \<Rightarrow> bool \<Rightarrow> prefix_network" where
  "prefix_net r b \<equiv> \<lparr>pn_n = 2 ^ r, pn_reversed = b\<rparr>"

lemma half_depth_net: "0 < r \<Longrightarrow> half_depth (prefix_net r b) = r"
  using bit_width_power [of r] by (simp add: half_depth_def)

lemma bk_depth_net: "0 < r \<Longrightarrow> bk_depth (prefix_net r b) = int (2 * r - 1)"
  by (simp add: bk_depth_def half_depth_net)

section \<open>A level shows the pairs of the reference network\<close>

definition shows_pairs :: "bool \<Rightarrow> nat \<Rightarrow> (nat \<times> nat) list \<Rightarrow> view \<Rightarrow> view \<Rightarrow> bool" where
  "shows_pairs b n ps va vb \<longleftrightarrow>
     positions va = map (\<lambda>(s, t). at_dir b n s) ps \<and> positions vb = map (\<lambda>(s, t). at_dir b n t) ps"

lemma shows_pairs_size:
  assumes "shows_pairs b n ps va vb"
  shows "total_size va = length ps" and "total_size vb = length ps"
  using assms length_positions [of va] length_positions [of vb] by (simp_all add: shows_pairs_def)

lemma positions_mapping: "mapping v = Some m \<Longrightarrow> positions v = m \<and> total_size v = length m"
  by (simp add: positions_def total_size_def)

lemma shrink_mapped: "mapping v = Some m \<Longrightarrow> n \<le> length m \<Longrightarrow>
    \<exists>u. shrink_view n v = Some u \<and> positions u = take n m"
  by (auto simp: shrink_view_def view_resize_def total_size_def positions_def)

lemma two_strides:
  assumes v: "positions v = map (at_dir b n) [0..<n]" and "1 < s" and "i < n" and "j < n"
    and j: "(n - 1 - j) div s + 1 = c" and i: "c \<le> (n - 1 - i) div s + 1"
    and ps: "ps = map (\<lambda>k. (i + k * s, j + k * s)) [0..<c]"
  shows "\<exists>va vb. do {
      a \<leftarrow> sv_subset i s v;
      b \<leftarrow> sv_subset j s v;
      a \<leftarrow> shrink_view (total_size b) a;
      Some (a, b)
    } = Some (va, vb) \<and> shows_pairs b n ps va vb"
proof -
  have n: "total_size v = n" using v length_positions [of v] by simp
  obtain a where a: "sv_subset i s v = Some a" "mapping a = Some (map (\<lambda>k. positions v ! (i + k * s)) [0..<(n - 1 - i) div s + 1])"
    using subset_view [of s i v] assms(2,3) n by auto
  obtain b' where b': "sv_subset j s v = Some b'" "mapping b' = Some (map (\<lambda>k. positions v ! (j + k * s)) [0..<c])"
    using subset_view [of s j v] assms(2,4) n j by auto
  have c: "total_size b' = c" "positions b' = map (\<lambda>k. positions v ! (j + k * s)) [0..<c]"
    using positions_mapping [OF b'(2)] by simp_all
  obtain u where u: "shrink_view c a = Some u" "positions u = map (\<lambda>k. positions v ! (i + k * s)) [0..<c]"
    using shrink_mapped [OF a(2), of c] i take_upt [of 0 c "(n - 1 - i) div s + 1"] by (auto simp: take_map simp del: upt_Suc)
  have below: "i + k * s < n" "j + k * s < n" if "k < c" for k
    using mult_less_div [of k "n - 1 - i" s] mult_less_div [of k "n - 1 - j" s] that i j assms(3,4) by linarith+
  have "shows_pairs b n ps u b'" unfolding shows_pairs_def ps u(2) c(2) v using below by auto
  then show ?thesis using a(1) b'(1) u(1) c(1) by simp
qed

lemma bk_level_view:
  assumes r: "0 < r" and l: "l < 2 * r - 1" and v: "positions v = map (at_dir b (2 ^ r)) [0..<2 ^ r]"
  shows "bk_level_size (prefix_net r b) l = length (bk_pairs r l)"
    and "\<exists>va vb. bk_level (prefix_net r b) l v = Some (va, vb) \<and> shows_pairs b (2 ^ r) (bk_pairs r l) va vb"
proof -
  have "bk_level_size (prefix_net r b) l = length (bk_pairs r l) \<and>
      (\<exists>va vb. bk_level (prefix_net r b) l v = Some (va, vb) \<and> shows_pairs b (2 ^ r) (bk_pairs r l) va vb)"
  proof (cases "l < r")
    case True
    let ?g = "2 ^ l :: nat" and ?m = "2 ^ (r - Suc l) :: nat"
    have n: "2 ^ r = 2 * ?g * ?m" using power_split [OF True] .
    have "0 < ?g" by simp
    then have g: "0 < ?g" "0 < ?m" "1 < ?g * 2" by (simp, simp, linarith)
    have up: "up_pairs r l = map (\<lambda>k. (?g - 1 + k * (?g * 2), 2 * ?g - 1 + k * (?g * 2))) [0..<?m]"
      by (simp add: up_pairs_def mult.commute)
    have i: "(2 ^ r - 1 - (?g - 1)) div (?g * 2) + 1 = ?m"
      unfolding n mult.commute [of ?g 2] by (rule half_count [OF g(1,2)])
    have j: "(2 ^ r - 1 - (2 * ?g - 1)) div (?g * 2) + 1 = ?m"
      unfolding n mult.commute [of ?g 2] by (rule stride_count) simp_all
    have "2 * ?g * 1 \<le> 2 * ?g * ?m" by (rule mult_le_mono2) simp
    then have b: "?g - 1 < 2 ^ r" "2 * ?g - 1 < 2 ^ r" using n g by linarith+
    have "2 ^ r - 1 - (2 * ?g - 1) = 2 ^ r - 2 * ?g" by simp
    then have sz: "(2 ^ r - 2 * ?g) div (2 * ?g) + 1 = ?m" using j by (simp add: mult.commute)
    show ?thesis
      using two_strides [OF v g(3) b j eq_refl [OF i [symmetric]] up] True sz
      by (simp add: bk_level_def bk_level_size_def half_depth_net [OF r] bk_pairs_def Let_def up)
  next
    case False
    define i where "i = 2 * r - 2 - l"
    have il: "2 * r - Suc (Suc l) = i" "2 * r - 2 - l = i" by (simp_all add: i_def)
    have ir: "Suc i < r" using False l by (simp add: i_def)
    let ?g = "2 ^ i :: nat" and ?m = "2 ^ (r - Suc i) :: nat"
    have n: "2 ^ r = 2 * ?g * ?m" using power_split [of i r] ir by simp
    have "0 < ?g" by simp
    moreover have "1 < ?m" using ir by (intro one_less_power) simp_all
    ultimately have g: "0 < ?g" "1 < ?m" "1 < ?g * 2" by (simp, simp, linarith)
    have down: "down_pairs r i = map (\<lambda>k. (2 * ?g - 1 + k * (?g * 2), 3 * ?g - 1 + k * (?g * 2))) [0..<?m - 1]"
      by (simp add: down_pairs_def mult.commute)
    have a: "(2 ^ r - 1 - (2 * ?g - 1)) div (?g * 2) + 1 = ?m"
      unfolding n mult.commute [of ?g 2] by (rule stride_count) simp_all
    have j: "(2 ^ r - 1 - (3 * ?g - 1)) div (?g * 2) + 1 = ?m - 1"
      unfolding n mult.commute [of ?g 2] by (rule later_count [OF g(1,2)])
    have "2 * ?g * 2 \<le> 2 * ?g * ?m" using g(2) by (intro mult_le_mono2) simp
    then have b: "2 * ?g - 1 < 2 ^ r" "3 * ?g - 1 < 2 ^ r" using n g by linarith+
    have "2 ^ r - 1 - (3 * ?g - 1) = 2 ^ r - 3 * ?g" by simp
    then have sz: "(2 ^ r - 3 * ?g) div (2 * ?g) + 1 = ?m - 1" using j by (simp add: mult.commute)
    have "?m - 1 \<le> (2 ^ r - 1 - (2 * ?g - 1)) div (?g * 2) + 1" unfolding a by simp
    from two_strides [OF v g(3) b j this down] show ?thesis
      using False sz by (simp add: bk_level_def bk_level_size_def half_depth_net [OF r] bk_pairs_def Let_def il down)
  qed
  then show "bk_level_size (prefix_net r b) l = length (bk_pairs r l)"
    "\<exists>va vb. bk_level (prefix_net r b) l v = Some (va, vb) \<and> shows_pairs b (2 ^ r) (bk_pairs r l) va vb" by simp_all
qed

lemma hs_level_view:
  assumes "i < r"
  shows "hs_level_size (prefix_net r False) i = length (hs_pairs r i)"
    and "\<exists>va vb. hs_level (prefix_net r False) i (base (2 ^ r)) = Some (va, vb) \<and> shows_pairs False (2 ^ r) (hs_pairs r i) va vb"
proof -
  have d: "hs_depth (prefix_net r False) = r" using bit_width_power [of r] assms by (simp add: hs_depth_def)
  have "2 ^ r = 2 ^ i * (2 :: nat) ^ (r - i)" using assms by (simp add: power_add [symmetric])
  then have "2 ^ r div (2 :: nat) ^ (r - i) = 2 ^ i" by simp
  then have s: "hs_level_size (prefix_net r False) i = 2 ^ r - 2 ^ i" using d by (simp add: hs_level_size_def)
  have le: "(2 :: nat) ^ i \<le> 2 ^ r" using assms by simp
  show "hs_level_size (prefix_net r False) i = length (hs_pairs r i)" by (simp add: s hs_pairs_def)
  have "slice 0 (2 ^ r - 2 ^ i) (base (2 ^ r)) = Some ((base (2 ^ r))\<lparr>mapping := Some [0..<2 ^ r - 2 ^ i]\<rparr>)"
    by (simp add: slice_def)
  moreover have "slice_from (2 ^ i) (base (2 ^ r)) = Some ((base (2 ^ r))\<lparr>mapping := Some [2 ^ i..<2 ^ r]\<rparr>)"
    using le by (simp add: slice_from_def slice_def min_def)
  moreover have "[2 ^ i..<2 ^ r] = map (\<lambda>k. k + 2 ^ i) [0..<2 ^ r - 2 ^ i]" using le by (simp add: map_add_upt)
  ultimately show "\<exists>va vb. hs_level (prefix_net r False) i (base (2 ^ r)) = Some (va, vb) \<and> shows_pairs False (2 ^ r) (hs_pairs r i) va vb"
    using le s by (simp add: hs_level_def shows_pairs_def hs_pairs_def at_dir_def Let_def comp_def)
qed

section \<open>Writing the results of a level\<close>

lemma bk_pairs_below:
  assumes "0 < r" and "l < 2 * r - 1"
  shows "distinct (map snd (bk_pairs r l))" and "(s, t) \<in> set (bk_pairs r l) \<Longrightarrow> s < 2 ^ r \<and> t < 2 ^ r"
proof -
  show "distinct (map snd (bk_pairs r l))" by (simp add: bk_pairs_def distinct_targets)
  assume st: "(s, t) \<in> set (bk_pairs r l)"
  show "s < 2 ^ r \<and> t < 2 ^ r"
  proof (cases "l < r")
    case True
    then have m: "(s, t) \<in> set (up_pairs r l)" using st by (simp add: bk_pairs_def)
    show ?thesis using up_pair(1) [OF True m] up_pair(3) [OF True m] by linarith
  next
    case False
    then have m: "(s, t) \<in> set (down_pairs r (2 * r - 2 - l))" using st by (simp add: bk_pairs_def)
    have "Suc (2 * r - 2 - l) < r" using False assms by linarith
    from down_pair(1) [OF this m] down_pair(4) [OF this m] show ?thesis by linarith
  qed
qed

lemma level_scatter:
  assumes d: "distinct (map snd ps)" and ps: "\<And>s t. (s, t) \<in> set ps \<Longrightarrow> s < n \<and> t < n"
    and x: "length x = n" "length u = length ps"
    and u: "\<And>k. k < length ps \<Longrightarrow> u ! k = (if L (fst (ps ! k)) = L (snd (ps ! k))
        then f (in_dir b x ! fst (ps ! k)) (in_dir b x ! snd (ps ! k)) else in_dir b x ! snd (ps ! k))"
  shows "in_dir b (scatter (map (\<lambda>(s, t). at_dir b n t) ps) u x) = agg_level L f ps (in_dir b x)"
proof (rule nth_equalityI)
  show "length (in_dir b (scatter (map (\<lambda>(s, t). at_dir b n t) ps) u x)) = length (agg_level L f ps (in_dir b x))" by simp
  let ?ix = "map (\<lambda>(s, t). at_dir b n t) ps"
  have in_ps: "ps ! k \<in> set ps" if "k < length ps" for k using that by simp
  have eq: "?ix = map (at_dir b n) (map snd ps)" by (simp add: case_prod_beta)
  have below: "\<forall>t \<in> set (map snd ps). t < n" using ps by auto
  then have "inj_on (at_dir b n) (set (map snd ps))" using at_dir_inj [of _ n] by (intro inj_onI) blast
  then have ix: "distinct ?ix" unfolding eq using d by (subst distinct_map) simp
  have ib: "\<forall>i \<in> set ?ix. i < length x" unfolding eq x(1) using below at_dir_less by auto
  fix p assume "p < length (in_dir b (scatter ?ix u x))"
  then have p: "p < n" using x(1) by simp
  have l: "in_dir b (scatter ?ix u x) ! p = scatter ?ix u x ! at_dir b n p" using p x(1) by (simp add: nth_in_dir)
  show "in_dir b (scatter ?ix u x) ! p = agg_level L f ps (in_dir b x) ! p"
  proof (cases "p \<in> snd ` set ps")
    case True
    then obtain k where k: "k < length ps" "p = snd (ps ! k)" by (metis imageE in_set_conv_nth)
    then have e: "(fst (ps ! k), p) \<in> set ps" using in_ps by simp
    have "?ix ! k = at_dir b n p" using k by (simp add: case_prod_beta)
    then have "scatter ?ix u x ! at_dir b n p = u ! k" using nth_scatter [OF ix _ _ ib, of u k] x(2) k(1) by simp
    then show ?thesis using l u [OF k(1)] k(2) nth_agg_level(1) [OF d _ e, of "in_dir b x" L f] p x(1) by simp
  next
    case False
    have "at_dir b n p \<notin> set ?ix"
    proof
      assume "at_dir b n p \<in> set ?ix"
      then obtain s t where st: "(s, t) \<in> set ps" "at_dir b n p = at_dir b n t" by auto
      then have "p = t" using at_dir_inj p ps by blast
      then show False using False st(1) by force
    qed
    then show ?thesis using l nth_agg_level(2) [OF d _ False, of "in_dir b x" L f] p x(1)
      by (simp add: nth_scatter_other nth_in_dir)
  qed
qed

end
