(* ===== verification/Aggregation.thy ===== *)
theory Aggregation
  imports Prefix_Network
begin

text \<open>
  Grouped aggregation over shared columns (\<open>core/operators/aggregation.h\<close>) on the Brent-Kung network, its aggregation
  functions, the local prefix sum \<open>tree_prefix_sum\<close>, and the marking of distinct rows
  (\<open>core/operators/distinct.h\<close>).  The function pointers the code compares are datatypes; a column is a value,
  so an output is assumed not to alias the input of another aggregation.  \<open>pub_b\<close> and \<open>pub_a\<close> are the engine's
  \<open>public_share_b\<close> and \<open>public_share_a\<close>.
\<close>

section \<open>Aggregation functions\<close>

datatype agg_b = Bit_or | Max_b | Min_b | Copy_b | Valid

datatype agg_a = Sum_a | Count_a | Copy_a

definition min_max_agg ::
  "('a::len, 'st) protocol \<Rightarrow> 'a sharing \<Rightarrow> 'a sharing \<Rightarrow> 'a sharing \<Rightarrow> bool \<Rightarrow> 'st \<Rightarrow> ('a sharing \<times> 'st) option" where
  "min_max_agg P group_bits a b minimum st = do {
     (b_greater, st) \<leftarrow> b_gt P b a st;
     let b_greater = (if minimum then sv_not_b_1 P b_greater else b_greater);
     (inner, st) \<leftarrow> multiplex_b P b_greater a b st;
     multiplex_b P group_bits a inner st
   }"

definition bit_or_agg ::
  "('a::len, 'st) protocol \<Rightarrow> 'a sharing \<Rightarrow> 'a sharing \<Rightarrow> 'a sharing \<Rightarrow> 'st \<Rightarrow> ('a sharing \<times> 'st) option" where
  "bit_or_agg P group_bits a b st = do {
     let ext = sv_extend_lsb group_bits;
     (t, st) \<leftarrow> v_and_b P ext b st;
     or_b P a t st
   }"

definition valid_agg ::
  "('a::len, 'st) protocol \<Rightarrow> 'a sharing \<Rightarrow> 'a sharing \<Rightarrow> 'a sharing \<Rightarrow> 'st \<Rightarrow> ('a sharing \<times> 'st) option" where
  "valid_agg P group_bits a b st = do {
     (agg, st) \<leftarrow> v_and_b P a b st;
     multiplex_b P group_bits a agg st
   }"

definition sum_agg ::
  "('a::len, 'st) protocol \<Rightarrow> 'a sharing \<Rightarrow> 'a sharing \<Rightarrow> 'a sharing \<Rightarrow> 'st \<Rightarrow> ('a sharing \<times> 'st) option" where
  "sum_agg P group_bits a b st = do {
     (t, st) \<leftarrow> v_multiply_a P group_bits b st;
     Some (add_a a t, st)
   }"

fun agg_b_fun ::
  "('a::len, 'st) protocol \<Rightarrow> agg_b \<Rightarrow> 'a sharing \<Rightarrow> 'a sharing \<Rightarrow> 'a sharing \<Rightarrow> 'st \<Rightarrow> ('a sharing \<times> 'st) option" where
  "agg_b_fun P Bit_or g a b st = bit_or_agg P g a b st"
| "agg_b_fun P Max_b g a b st = min_max_agg P g a b False st"
| "agg_b_fun P Min_b g a b st = min_max_agg P g a b True st"
| "agg_b_fun P Copy_b g a b st = multiplex_b P g a b st"
| "agg_b_fun P Valid g a b st = valid_agg P g a b st"

fun agg_a_fun ::
  "('a::len, 'st) protocol \<Rightarrow> agg_a \<Rightarrow> 'a sharing \<Rightarrow> 'a sharing \<Rightarrow> 'a sharing \<Rightarrow> 'st \<Rightarrow> ('a sharing \<times> 'st) option" where
  "agg_a_fun P Sum_a g a b st = sum_agg P g a b st"
| "agg_a_fun P Count_a g a b st = sum_agg P g a b st"
| "agg_a_fun P Copy_a g a b st = multiplex_a P g a b st"

section \<open>Preparing the outputs\<close>

definition repeated_share :: "nat \<Rightarrow> 'a::len sharing \<Rightarrow> 'a sharing option" where
  "repeated_share m x = do {
     v \<leftarrow> repeated_subset_reference m (base (sh_size x));
     Some (sh_get v x)
   }"

text \<open>The levels work on \<open>out\<close> as it stands in the specification: the assignment before them writes the
  elements and leaves that vector's precision.\<close>

definition sh_assign :: "'a::len sharing \<Rightarrow> 'a sharing \<Rightarrow> 'a sharing option" where
  "sh_assign x y = (if sh_size x \<noteq> sh_size y then None else Some (p_setPrecision (a_prec x) y))"

type_synonym 'a spec_b = "'a sharing \<times> 'a sharing \<times> agg_b"
type_synonym 'a spec_a = "'a sharing \<times> 'a sharing \<times> agg_a"

fun init_a ::
  "('a::len, 'st) protocol \<Rightarrow> nat \<Rightarrow> 'a sharing \<Rightarrow> 'a sharing option \<Rightarrow> 'a spec_a list \<Rightarrow> 'st
    \<Rightarrow> (('a sharing \<times> agg_a) list \<times> 'st) option" where
  "init_a P total_n one_a sel [] st = Some ([], st)"
| "init_a P total_n one_a sel ((inp, out, func) # spec) st = do {
     (new, st) \<leftarrow> (if func = Count_a
        then (case sel of Some s \<Rightarrow> sv_b2a_bit P s st
          | None \<Rightarrow> do { v \<leftarrow> repeated_share total_n one_a; Some (v, st) })
        else Some (inp, st));
     out \<leftarrow> sh_assign out new;
     (rest, st) \<leftarrow> init_a P total_n one_a sel spec st;
     Some ((out, func) # rest, st)
   }"

fun init_b :: "'a::len spec_b list \<Rightarrow> ('a sharing \<times> agg_b) list option" where
  "init_b [] = Some []"
| "init_b ((inp, out, func) # spec) = do {
     out \<leftarrow> sh_assign out inp;
     rest \<leftarrow> init_b spec;
     Some ((out, func) # rest)
   }"

section \<open>One level\<close>

abbreviation bk :: "prefix_network \<Rightarrow> nat \<Rightarrow> nat \<Rightarrow> (view \<times> view) option" where
  "bk nw i m \<equiv> level bk_level (bk_depth nw) nw i m"

fun key_loop ::
  "('a::len, 'st) protocol \<Rightarrow> prefix_network \<Rightarrow> nat \<Rightarrow> 'a sharing list \<Rightarrow> 'a sharing \<Rightarrow> 'st \<Rightarrow> ('a sharing \<times> 'st) option" where
  "key_loop P nw i [] g st = Some (g, st)"
| "key_loop P nw i (k # ks) g st = do {
     (va, vb) \<leftarrow> bk nw i (sh_size k);
     (e, st) \<leftarrow> equal_b P (sh_get va k) (sh_get vb k) st;
     (g, st) \<leftarrow> v_and_b P g e st;
     key_loop P nw i ks g st
   }"

definition key_groups ::
  "('a::len, 'st) protocol \<Rightarrow> prefix_network \<Rightarrow> nat \<Rightarrow> 'a sharing \<Rightarrow> 'a sharing list \<Rightarrow> 'st \<Rightarrow> ('a sharing \<times> 'st) option" where
  "key_groups P nw i one_b ks st =
     (case ks of
        [] \<Rightarrow> do { g \<leftarrow> repeated_share (bk_level_size nw i) one_b; Some (g, st) }
      | k # ks \<Rightarrow> do {
          (va, vb) \<leftarrow> bk nw i (sh_size k);
          (g, st) \<leftarrow> equal_b P (sh_get va k) (sh_get vb k) st;
          key_loop P nw i ks g st
        })"

definition sel_groups ::
  "('a::len, 'st) protocol \<Rightarrow> prefix_network \<Rightarrow> nat \<Rightarrow> bool \<Rightarrow> 'a sharing option \<Rightarrow> 'a sharing \<Rightarrow> 'st \<Rightarrow> ('a sharing \<times> 'st) option" where
  "sel_groups P nw i any_noncopy sel g st =
     (case sel of
        Some s \<Rightarrow>
          if any_noncopy then do {
            (sa, sb) \<leftarrow> bk nw i (sh_size s);
            v_and_b P g (sv_not_b_1 P (xor_b (sh_get sa s) (sh_get sb s))) st
          } else Some (g, st)
      | None \<Rightarrow> Some (g, st))"

fun agg_b_loop ::
  "('a::len, 'st) protocol \<Rightarrow> prefix_network \<Rightarrow> nat \<Rightarrow> 'a sharing \<Rightarrow> 'a sharing \<Rightarrow> ('a sharing \<times> agg_b) list \<Rightarrow> 'st
    \<Rightarrow> (('a sharing \<times> agg_b) list \<times> 'st) option" where
  "agg_b_loop P nw i group_bits join_group_bits [] st = Some ([], st)"
| "agg_b_loop P nw i group_bits join_group_bits ((out, func) # spec) st = do {
     (a, b) \<leftarrow> bk nw i (sh_size out);
     let g = (if func = Copy_b then join_group_bits else group_bits);
     (u, st) \<leftarrow> agg_b_fun P func g (sh_get b out) (sh_get a out) st;
     (spec, st) \<leftarrow> agg_b_loop P nw i group_bits join_group_bits spec st;
     Some ((sh_set b u out, func) # spec, st)
   }"

fun agg_a_loop ::
  "('a::len, 'st) protocol \<Rightarrow> prefix_network \<Rightarrow> nat \<Rightarrow> 'a sharing \<Rightarrow> 'a sharing \<Rightarrow> ('a sharing \<times> agg_a) list \<Rightarrow> 'st
    \<Rightarrow> (('a sharing \<times> agg_a) list \<times> 'st) option" where
  "agg_a_loop P nw i group_bits join_group_bits [] st = Some ([], st)"
| "agg_a_loop P nw i group_bits join_group_bits ((out, func) # spec) st = do {
     (a, b) \<leftarrow> bk nw i (sh_size out);
     let g = (if func = Copy_a then join_group_bits else group_bits);
     (u, st) \<leftarrow> agg_a_fun P func g (sh_get b out) (sh_get a out) st;
     (spec, st) \<leftarrow> agg_a_loop P nw i group_bits join_group_bits spec st;
     Some ((sh_set b u out, func) # spec, st)
   }"

text \<open>The group bits for arithmetic aggregations: ones without keys, otherwise converted where some
  aggregation needs them; \<open>A_ group_bits_a(sz, engine)\<close> starts as zeros.\<close>

definition group_bits_arith ::
  "('a::len, 'st) protocol \<Rightarrow> nat \<Rightarrow> 'a sharing \<Rightarrow> bool \<Rightarrow> ('a sharing \<times> agg_a) list \<Rightarrow> 'a sharing \<Rightarrow> 'a sharing \<Rightarrow> 'st
    \<Rightarrow> (('a sharing \<times> 'a sharing) \<times> 'st) option" where
  "group_bits_arith P sz one_a no_keys as g jg st =
     (if no_keys then do {
        ones \<leftarrow> repeated_share sz one_a;
        Some ((ones, ones), st)
      }
      else let zeros = p_setPrecision 0 (p_construct_like one_a sz) in do {
        (ga, st) \<leftarrow> (if \<exists>x \<in> set as. snd x \<noteq> Copy_a then sv_b2a_bit P g st else Some (zeros, st));
        (jga, st) \<leftarrow> (if \<exists>x \<in> set as. snd x = Copy_a then sv_b2a_bit P jg st else Some (zeros, st));
        Some ((ga, jga), st)
      })"

text \<open>\<open>join_group_bits_b = group_bits_b\<close> copies into a fresh vector, whose precision is \<open>0\<close>.\<close>

definition aggregate_level ::
  "('a::len, 'st) protocol \<Rightarrow> prefix_network \<Rightarrow> 'a sharing \<Rightarrow> 'a sharing \<Rightarrow> 'a sharing list \<Rightarrow> 'a sharing option \<Rightarrow> nat
    \<Rightarrow> ('a sharing \<times> agg_b) list \<times> ('a sharing \<times> agg_a) list \<Rightarrow> 'st
    \<Rightarrow> ((('a sharing \<times> agg_b) list \<times> ('a sharing \<times> agg_a) list) \<times> 'st) option" where
  "aggregate_level P nw one_b one_a ks sel i outs st =
     (let (bs, as) = outs;
          any_noncopy = ((\<exists>x \<in> set as. snd x \<noteq> Copy_a) \<or> (\<exists>x \<in> set bs. snd x \<noteq> Copy_b)) in do {
        (group_bits_b, st) \<leftarrow> key_groups P nw i one_b ks st;
        let join_group_bits_b = p_setPrecision 0 group_bits_b;
        (group_bits_b, st) \<leftarrow> sel_groups P nw i any_noncopy sel group_bits_b st;
        let group_bits_b = p_mask group_bits_b 1;
        (bs, st) \<leftarrow> agg_b_loop P nw i group_bits_b join_group_bits_b bs st;
        ((group_bits_a, join_group_bits_a), st) \<leftarrow>
          group_bits_arith P (bk_level_size nw i) one_a (ks = []) as group_bits_b join_group_bits_b st;
        (as, st) \<leftarrow> agg_a_loop P nw i group_bits_a join_group_bits_a as st;
        Some ((bs, as), st)
      })"

section \<open>The aggregation\<close>

fun aggregate_levels ::
  "('a::len, 'st) protocol \<Rightarrow> prefix_network \<Rightarrow> 'a sharing \<Rightarrow> 'a sharing \<Rightarrow> 'a sharing list \<Rightarrow> 'a sharing option \<Rightarrow> nat list
    \<Rightarrow> ('a sharing \<times> agg_b) list \<times> ('a sharing \<times> agg_a) list \<Rightarrow> 'st
    \<Rightarrow> ((('a sharing \<times> agg_b) list \<times> ('a sharing \<times> agg_a) list) \<times> 'st) option" where
  "aggregate_levels P nw one_b one_a ks sel [] outs st = Some (outs, st)"
| "aggregate_levels P nw one_b one_a ks sel (i # is) outs st = do {
     (outs, st) \<leftarrow> aggregate_level P nw one_b one_a ks sel i outs st;
     aggregate_levels P nw one_b one_a ks sel is outs st
   }"

definition aggregation_size :: "'a::len sharing list \<Rightarrow> 'a spec_b list \<Rightarrow> 'a spec_a list \<Rightarrow> nat option" where
  "aggregation_size ks agg_spec_b agg_spec_a =
     (case ks of k # _ \<Rightarrow> Some (sh_size k)
      | [] \<Rightarrow> (case agg_spec_b of s # _ \<Rightarrow> Some (sh_size (fst s))
      | [] \<Rightarrow> (case agg_spec_a of s # _ \<Rightarrow> Some (sh_size (fst s)) | [] \<Rightarrow> None)))"

definition aggregate ::
  "('a::len, 'st) protocol \<Rightarrow> ('a vec \<Rightarrow> 'a sharing option) \<Rightarrow> ('a vec \<Rightarrow> 'a sharing option) \<Rightarrow> 'a sharing list
    \<Rightarrow> 'a spec_b list \<Rightarrow> 'a spec_a list \<Rightarrow> direction \<Rightarrow> 'a sharing option \<Rightarrow> 'st
    \<Rightarrow> ((('a sharing \<times> agg_b) list \<times> ('a sharing \<times> agg_a) list) \<times> 'st) option" where
  "aggregate P pub_b pub_a ks agg_spec_b agg_spec_a dir sel st = do {
     total_n \<leftarrow> aggregation_size ks agg_spec_b agg_spec_a;
     if \<not> is_power_of_two total_n then None
     else do {
       shared_one_b \<leftarrow> pub_b [1];
       shared_one_a \<leftarrow> pub_a [1];
       (as, st) \<leftarrow> init_a P total_n shared_one_a sel agg_spec_a st;
       bs \<leftarrow> init_b agg_spec_b;
       nw \<leftarrow> prefix_network_new dir total_n;
       levels \<leftarrow> level_range (bk_depth nw);
       aggregate_levels P nw shared_one_b shared_one_a ks sel levels (bs, as) st
     }
   }"

definition aggregate_sel ::
  "('a::len, 'st) protocol \<Rightarrow> ('a vec \<Rightarrow> 'a sharing option) \<Rightarrow> ('a vec \<Rightarrow> 'a sharing option) \<Rightarrow> 'a sharing list
    \<Rightarrow> 'a spec_b list \<Rightarrow> 'a spec_a list \<Rightarrow> 'a sharing \<Rightarrow> 'st
    \<Rightarrow> ((('a sharing \<times> agg_b) list \<times> ('a sharing \<times> agg_a) list) \<times> 'st) option" where
  "aggregate_sel P pub_b pub_a ks agg_spec_b agg_spec_a sel st =
     aggregate P pub_b pub_a ks agg_spec_b agg_spec_a Reverse (Some sel) st"

section \<open>Prefix sums and distinct rows\<close>

fun prefix_sum_loop :: "bool \<Rightarrow> nat \<Rightarrow> nat list \<Rightarrow> 'a::len sharing \<Rightarrow> 'a sharing option" where
  "prefix_sum_loop reverse n [] v = Some v"
| "prefix_sum_loop reverse n (i # is) v = do {
     y \<leftarrow> (if reverse then directed_subset_reference (- 1) (base n) else Some (base n));
     let d = n div 2 ^ i;
     let d_rest = n - d;
     a \<leftarrow> slice 0 d_rest y;
     b \<leftarrow> slice_from d y;
     prefix_sum_loop reverse n is (sh_set b (add_a (sh_get b v) (sh_get a v)) v)
   }"

definition tree_prefix_sum :: "'a::len sharing \<Rightarrow> bool \<Rightarrow> 'a sharing option" where
  "tree_prefix_sum v reverse =
     (let n = sh_size v in
      if \<not> is_power_of_two n then None
      else prefix_sum_loop reverse n [1..<Suc (bit_width n - 1)] v)"

fun distinct_loop ::
  "('a::len, 'st) protocol \<Rightarrow> 'a sharing list \<Rightarrow> 'a sharing \<Rightarrow> 'st \<Rightarrow> ('a sharing \<times> 'st) option" where
  "distinct_loop P [] rest st = Some (rest, st)"
| "distinct_loop P (k # ks) rest st = do {
     va \<leftarrow> slice 0 (sh_size k - 1) (base (sh_size k));
     vb \<leftarrow> slice_from 1 (base (sh_size k));
     (ne, st) \<leftarrow> b_ne P (sh_get va k) (sh_get vb k) st;
     (rest, st) \<leftarrow> or_b P rest ne st;
     distinct_loop P ks rest st
   }"

definition distinct_rows ::
  "('a::len, 'st) protocol \<Rightarrow> ('a vec \<Rightarrow> 'a sharing option) \<Rightarrow> 'a sharing list \<Rightarrow> 'a sharing \<Rightarrow> 'st \<Rightarrow> ('a sharing \<times> 'st) option" where
  "distinct_rows P pub_b ks res st =
     (if ks = [] \<or> sh_size res = 0 then None
      else do {
        let res = p_construct_like res (sh_size res);
        vf \<leftarrow> slice 0 1 (base (sh_size res));
        one \<leftarrow> pub_b [1];
        let res = sh_set vf one res;
        vr \<leftarrow> slice_from 1 (base (sh_size res));
        (rest, st) \<leftarrow> distinct_loop P ks (sh_get vr res) st;
        Some (sh_set vr rest res, st)
      })"

end
