(* ===== verification/Aggregation_Proofs.thy ===== *)
theory Aggregation_Proofs
  imports Aggregation
begin

text \<open>
  Aggregation is correct: what the aggregation functions compute on opened values, that one level of the network
  combines every pair of one group and leaves the others, and from there that \<open>aggregate\<close> returns the segmented
  scan of every input column over the runs of equal keys.
\<close>

section \<open>The plain aggregation\<close>

fun op_b :: "agg_b \<Rightarrow> 'a::len word \<Rightarrow> 'a word \<Rightarrow> 'a word" where
  "op_b Bit_or s t = t OR s"
| "op_b Max_b s t = (if sint t < sint s then s else t)"
| "op_b Min_b s t = (if sint t < sint s then t else s)"
| "op_b Copy_b s t = s"
| "op_b Valid s t = t AND s"

fun op_a :: "agg_a \<Rightarrow> 'a::len word \<Rightarrow> 'a word \<Rightarrow> 'a word" where
  "op_a Sum_a s t = t + s"
| "op_a Count_a s t = t + s"
| "op_a Copy_a s t = s"

lemma op_b_assoc: "op_b f (op_b f x y) z = op_b f x (op_b f y z)"
  by (cases f) (auto simp: ac_simps)

lemma op_a_assoc: "op_a f (op_a f x y) z = op_a f x (op_a f y z)"
  by (cases f) (auto simp: ac_simps)

definition row_label :: "bool \<Rightarrow> 'a::len vec list \<Rightarrow> 'a vec option \<Rightarrow> nat \<Rightarrow> 'a word list \<times> bool" where
  "row_label d ks sel p = (map (\<lambda>c. in_dir d c ! p) ks, case sel of Some s \<Rightarrow> bit (in_dir d s ! p) 0 | None \<Rightarrow> False)"

definition label_b :: "bool \<Rightarrow> 'a::len vec list \<Rightarrow> 'a vec option \<Rightarrow> agg_b \<Rightarrow> nat \<Rightarrow> 'a word list \<times> bool" where
  "label_b d ks sel f = row_label d ks (if f = Copy_b then None else sel)"

definition label_a :: "bool \<Rightarrow> 'a::len vec list \<Rightarrow> 'a vec option \<Rightarrow> agg_a \<Rightarrow> nat \<Rightarrow> 'a word list \<times> bool" where
  "label_a d ks sel f = row_label d ks (if f = Copy_a \<or> ks = [] then None else sel)"

definition group_scan :: "bool \<Rightarrow> (nat \<Rightarrow> 'l) \<Rightarrow> ('b \<Rightarrow> 'b \<Rightarrow> 'b) \<Rightarrow> 'b list \<Rightarrow> 'b list" where
  "group_scan d L f x = in_dir d (map (seg_scan L f (in_dir d x)) [0..<length x])"

definition input_a :: "'a::len vec option \<Rightarrow> agg_a \<Rightarrow> 'a vec \<Rightarrow> 'a vec" where
  "input_a sel f x = (if f = Count_a then (case sel of Some s \<Rightarrow> map (\<lambda>y. y AND 1) s | None \<Rightarrow> replicate (length x) 1) else x)"

section \<open>The aggregation functions\<close>

lemma word_and_one: "(x :: 'a::len word) AND 1 = of_bool (bit x 0)"
  by (simp add: and_one_eq mod_2_eq_odd bit_0)

context arithmetic_protocol
begin

lemma or_b_correct:
  fixes A B :: "'a sharing"
  assumes ok: "ok st" and A: "is_sharing n k 0 m A" and B: "is_sharing n k 0 m B"
  shows "\<exists>R st'. or_b P A B st = Some (R, st') \<and> ok st' \<and> is_sharing n k 0 m R \<and>
    reveal_b R = map2 (OR) (reveal_b A) (reveal_b B)"
proof -
  note a = not_sharing [OF A] and b = not_sharing [OF B]
  obtain Z st' where z: "v_and_b P (v_not_b P A) (v_not_b P B) st = Some (Z, st')" "ok st'" "is_sharing n k 0 m Z"
    "reveal_b Z = map2 (AND) (reveal_b (v_not_b P A)) (reveal_b (v_not_b P B))" by (rule and_obtains [OF ok a(1) b(1)])
  have "map NOT (map2 (AND) (map NOT u) (map NOT v)) = map2 (OR) u v" for u v :: "'a vec"
    by (rule nth_equalityI) simp_all
  then have "reveal_b (v_not_b P Z) = map2 (OR) (reveal_b A) (reveal_b B)"
    using not_sharing(2) [OF z(3)] z(4) a(2) b(2) by simp
  then show ?thesis using z(1,2) not_sharing(1) [OF z(3)] by (simp add: or_b_def)
qed

lemma min_max_correct:
  fixes G A B :: "'a sharing"
  assumes ok: "ok st" and G: "is_sharing n k 0 m G" and A: "is_sharing n k 0 m A" and B: "is_sharing n k 0 m B"
  shows "\<exists>R st'. min_max_agg P G A B minimum st = Some (R, st') \<and> ok st' \<and> is_sharing n k 0 m R \<and>
    (\<forall>j < m. reveal_b R ! j = (if bit (reveal_b G ! j) 0
       then op_b (if minimum then Min_b else Max_b) (reveal_b B ! j) (reveal_b A ! j) else reveal_b A ! j))"
proof -
  obtain C st1 where C: "b_gt P B A st = Some (C, st1)" "ok st1" "is_sharing n k 0 m C" "bit_shares C"
    "reveal_b C = map2 (\<lambda>x y. of_bool (sint y < sint x)) (reveal_b B) (reveal_b A)" using b_gt_correct [OF ok B A] by blast
  define D where "D = (if minimum then sv_not_b_1 P C else C)"
  have D: "is_sharing n k 0 m D"
    "reveal_b D = map2 (\<lambda>x y. of_bool ((sint y < sint x) \<noteq> minimum)) (reveal_b B) (reveal_b A)"
    using C(3,5) not1_sharing [OF C(3-5)] by (simp_all add: D_def)
  obtain I st2 where I: "multiplex_b P D A B st1 = Some (I, st2)" "ok st2" "is_sharing n k 0 m I"
    "\<forall>j < m. reveal_b I ! j = (if bit (reveal_b D ! j) 0 then reveal_b B ! j else reveal_b A ! j)"
    using multiplex_b_correct [OF C(2) D(1) A B] by blast
  obtain R st3 where R: "multiplex_b P G A I st2 = Some (R, st3)" "ok st3" "is_sharing n k 0 m R"
    "\<forall>j < m. reveal_b R ! j = (if bit (reveal_b G ! j) 0 then reveal_b I ! j else reveal_b A ! j)"
    using multiplex_b_correct [OF I(2) G A I(3)] by blast
  have "min_max_agg P G A B minimum st = Some (R, st3)"
    using C(1) I(1) R(1) by (simp add: min_max_agg_def D_def Let_def)
  moreover have "reveal_b I ! j = op_b (if minimum then Min_b else Max_b) (reveal_b B ! j) (reveal_b A ! j)" if "j < m" for j
    using that I(4) D(2) len [OF A] len [OF B] by (auto simp: bit_0)
  ultimately show ?thesis using R(2-4) by auto
qed

lemma agg_b_fun_correct:
  fixes G A B :: "'a sharing"
  assumes ok: "ok st" and G: "is_sharing n k 0 m G" and A: "is_sharing n k 0 m A" and B: "is_sharing n k 0 m B"
  shows "\<exists>R st'. agg_b_fun P f G A B st = Some (R, st') \<and> ok st' \<and> is_sharing n k 0 m R \<and>
    (\<forall>j < m. reveal_b R ! j = (if bit (reveal_b G ! j) 0 then op_b f (reveal_b B ! j) (reveal_b A ! j) else reveal_b A ! j))"
proof (cases f)
  case Bit_or
  note E = sv_extend_sharing [OF G pos]
  obtain T st1 where T: "v_and_b P (sv_extend_lsb G) B st = Some (T, st1)" "ok st1" "is_sharing n k 0 m T"
    "reveal_b T = map2 (AND) (reveal_b (sv_extend_lsb G)) (reveal_b B)" by (rule and_obtains [OF ok E(1) B])
  obtain R st2 where R: "or_b P A T st1 = Some (R, st2)" "ok st2" "is_sharing n k 0 m R"
    "reveal_b R = map2 (OR) (reveal_b A) (reveal_b T)" using or_b_correct [OF T(2) A T(3)] by blast
  have "reveal_b T ! j = (if bit (reveal_b G ! j) 0 then reveal_b B ! j else 0)" if j: "j < m" for j
    using j E(2) T(4) len [OF G] len [OF B] by (intro bit_word_eqI) (simp add: bit_and_iff extend_lsb_def bit_extend)
  then show ?thesis using Bit_or T(1) R len [OF A] len [OF T(3)] by (simp add: bit_or_agg_def)
next
  case Valid
  obtain T st1 where T: "v_and_b P A B st = Some (T, st1)" "ok st1" "is_sharing n k 0 m T"
    "reveal_b T = map2 (AND) (reveal_b A) (reveal_b B)" by (rule and_obtains [OF ok A B])
  then show ?thesis using Valid multiplex_b_correct [OF T(2) G A T(3)] len [OF A] len [OF B] by (auto simp: valid_agg_def)
next
  case Max_b
  then show ?thesis using min_max_correct [OF assms, of False] by (simp only: agg_b_fun.simps if_False)
next
  case Min_b
  then show ?thesis using min_max_correct [OF assms, of True] by (simp only: agg_b_fun.simps if_True)
next
  case Copy_b
  then show ?thesis using multiplex_b_correct [OF ok G A B] by (simp only: agg_b_fun.simps op_b.simps)
qed

lemma agg_a_fun_correct:
  fixes G A B :: "'a sharing"
  assumes ok: "ok st" and G: "is_sharing n k 0 m G" and A: "is_sharing n k 0 m A" and B: "is_sharing n k 0 m B"
    and g: "\<And>j. j < m \<Longrightarrow> reveal_a G ! j = of_bool (g j)"
  shows "\<exists>R st'. agg_a_fun P f G A B st = Some (R, st') \<and> ok st' \<and> is_sharing n k 0 m R \<and>
    (\<forall>j < m. reveal_a R ! j = (if g j then op_a f (reveal_a B ! j) (reveal_a A ! j) else reveal_a A ! j))"
proof -
  have l: "length (reveal_a G) = m" "length (reveal_a A) = m" "length (reveal_a B) = m"
    using length_reveal(2) [OF _ pos] G A B by blast+
  have sum: "\<exists>R st'. sum_agg P G A D st = Some (R, st') \<and> ok st' \<and> is_sharing n k 0 m R \<and>
    (\<forall>j < m. reveal_a R ! j = reveal_a A ! j + (if g j then reveal_a D ! j else 0))" if D: "is_sharing n k 0 m D" for D :: "'a sharing"
  proof -
    have d: "length (reveal_a D) = m" using length_reveal(2) [OF D pos] .
    obtain T st1 where T: "v_multiply_a P G D st = Some (T, st1)" "ok st1" "is_sharing n k 0 m T"
      "reveal_a T = map2 (*) (reveal_a G) (reveal_a D)" using mult_law [OF ok G D] by blast
    note R = add_sharing [OF A T(3) pos]
    have "reveal_a (add_a A T) ! j = reveal_a A ! j + (if g j then reveal_a D ! j else 0)" if "j < m" for j
      using that g [OF that] l d T(4) R(2) by simp
    then show ?thesis using T(1,2) R(1) by (simp add: sum_agg_def)
  qed
  note S = sub_sharing [OF B A pos]
  have "multiplex_a P G A B st = sum_agg P G A (sub_a B A) st" by (simp add: multiplex_a_def sum_agg_def)
  then show ?thesis using sum [OF B] sum [OF S(1)] S(2) l by (cases f) auto
qed

end

section \<open>One level\<close>

lemma view_get_pairs:
  assumes "shows_pairs b N ps va vb" and "length x = N" and "\<And>s t. (s, t) \<in> set ps \<Longrightarrow> s < N \<and> t < N" and "k < length ps"
  shows "view_get va x ! k = in_dir b x ! fst (ps ! k)" and "view_get vb x ! k = in_dir b x ! snd (ps ! k)"
proof -
  have "(fst (ps ! k), snd (ps ! k)) \<in> set ps" using assms(4) by simp
  then have "fst (ps ! k) < N" "snd (ps ! k) < N" using assms(3) by blast+
  then show "view_get va x ! k = in_dir b x ! fst (ps ! k)" "view_get vb x ! k = in_dir b x ! snd (ps ! k)"
    using assms(1,2,4) by (simp_all add: view_get_def shows_pairs_def nth_in_dir case_prod_beta)
qed

text \<open>A level of the network on vectors of size \<open>N\<close>: the views, and the pairs they show.\<close>

definition level_shows :: "prefix_network \<Rightarrow> nat \<Rightarrow> nat \<Rightarrow> (nat \<times> nat) list \<Rightarrow> view \<Rightarrow> view \<Rightarrow> bool" where
  "level_shows nw i N ps va vb \<longleftrightarrow> bk nw i N = Some (va, vb) \<and> shows_pairs (pn_reversed nw) N ps va vb \<and>
     bk_level_size nw i = length ps \<and> distinct (map snd ps) \<and> (\<forall>(s, t) \<in> set ps. s < N \<and> t < N)"

lemma level_shows_net:
  assumes "0 < r" and "l < 2 * r - 1"
  shows "\<exists>va vb. level_shows (prefix_net r b) l (2 ^ r) (bk_pairs r l) va vb"
proof -
  obtain v where v: "(if b then directed_subset_reference (- 1) (base (2 ^ r)) else Some (base (2 ^ r))) = Some v"
    "positions v = map (at_dir b (2 ^ r)) [0..<2 ^ r]" using start_view by blast
  obtain va vb where "bk_level (prefix_net r b) l v = Some (va, vb)" "shows_pairs b (2 ^ r) (bk_pairs r l) va vb"
    using bk_level_view(2) [OF assms v(2)] by blast
  then show ?thesis
    using v(1) bk_level_view(1) [OF assms v(2)] bk_pairs_below [OF assms] assms bk_depth_net [OF assms(1), of b]
    by (auto simp: level_shows_def level_def)
qed

context arithmetic_protocol
begin

lemma size_is: "is_sharing n k q m (X :: 'a sharing) \<Longrightarrow> sh_size X = m"
  using is_sharing_size [of n k q m X 0] pos by (simp add: sh_size_def)

lemma level_get:
  fixes X :: "'a sharing"
  assumes v: "level_shows nw i N ps va vb" and X: "is_sharing n k 0 N X"
  shows "is_sharing n k 0 (length ps) (sh_get va X)" and "is_sharing n k 0 (length ps) (sh_get vb X)"
    and "j < length ps \<Longrightarrow> reveal_b (sh_get va X) ! j = in_dir (pn_reversed nw) (reveal_b X) ! fst (ps ! j)"
    and "j < length ps \<Longrightarrow> reveal_b (sh_get vb X) ! j = in_dir (pn_reversed nw) (reveal_b X) ! snd (ps ! j)"
    and "j < length ps \<Longrightarrow> reveal_a (sh_get va X) ! j = in_dir (pn_reversed nw) (reveal_a X) ! fst (ps ! j)"
    and "j < length ps \<Longrightarrow> reveal_a (sh_get vb X) ! j = in_dir (pn_reversed nw) (reveal_a X) ! snd (ps ! j)"
proof -
  have s: "shows_pairs (pn_reversed nw) N ps va vb" and b: "\<And>s t. (s, t) \<in> set ps \<Longrightarrow> s < N \<and> t < N"
    using v by (auto simp: level_shows_def)
  have ix: "\<forall>i \<in> set (positions va). i < N" "\<forall>i \<in> set (positions vb). i < N"
    using s b at_dir_less by (auto simp: shows_pairs_def)
  note ga = get_sharing [OF X pos ix(1), unfolded shows_pairs_size [OF s]]
    and gb = get_sharing [OF X pos ix(2), unfolded shows_pairs_size [OF s]]
  have l: "length (reveal_b X) = N" "length (reveal_a X) = N" using length_reveal [OF X pos] by simp_all
  show "is_sharing n k 0 (length ps) (sh_get va X)" "is_sharing n k 0 (length ps) (sh_get vb X)" by (rule ga(1), rule gb(1))
  show "j < length ps \<Longrightarrow> reveal_b (sh_get va X) ! j = in_dir (pn_reversed nw) (reveal_b X) ! fst (ps ! j)"
    "j < length ps \<Longrightarrow> reveal_b (sh_get vb X) ! j = in_dir (pn_reversed nw) (reveal_b X) ! snd (ps ! j)"
    "j < length ps \<Longrightarrow> reveal_a (sh_get va X) ! j = in_dir (pn_reversed nw) (reveal_a X) ! fst (ps ! j)"
    "j < length ps \<Longrightarrow> reveal_a (sh_get vb X) ! j = in_dir (pn_reversed nw) (reveal_a X) ! snd (ps ! j)"
    unfolding ga(2,3) gb(2,3) using view_get_pairs [OF s l(1) b] view_get_pairs [OF s l(2) b] by simp_all
qed

lemma level_set:
  fixes X U :: "'a sharing"
  assumes v: "level_shows nw i N ps va vb" and X: "is_sharing n k 0 N X" and U: "is_sharing n k q' (length ps) U"
  shows "is_sharing n k 0 N (sh_set vb U X)"
    and "(\<And>j. j < length ps \<Longrightarrow> reveal_b U ! j = (if L (fst (ps ! j)) = L (snd (ps ! j))
        then f (in_dir (pn_reversed nw) (reveal_b X) ! fst (ps ! j)) (in_dir (pn_reversed nw) (reveal_b X) ! snd (ps ! j))
        else in_dir (pn_reversed nw) (reveal_b X) ! snd (ps ! j))) \<Longrightarrow>
      in_dir (pn_reversed nw) (reveal_b (sh_set vb U X)) = agg_level L f ps (in_dir (pn_reversed nw) (reveal_b X))"
    and "(\<And>j. j < length ps \<Longrightarrow> reveal_a U ! j = (if L (fst (ps ! j)) = L (snd (ps ! j))
        then f (in_dir (pn_reversed nw) (reveal_a X) ! fst (ps ! j)) (in_dir (pn_reversed nw) (reveal_a X) ! snd (ps ! j))
        else in_dir (pn_reversed nw) (reveal_a X) ! snd (ps ! j))) \<Longrightarrow>
      in_dir (pn_reversed nw) (reveal_a (sh_set vb U X)) = agg_level L f ps (in_dir (pn_reversed nw) (reveal_a X))"
proof -
  let ?b = "pn_reversed nw" and ?ix = "map (\<lambda>(s, t). at_dir (pn_reversed nw) N t) ps"
  have s: "positions vb = ?ix" and d: "distinct (map snd ps)" and b: "\<And>s t. (s, t) \<in> set ps \<Longrightarrow> s < N \<and> t < N"
    using v by (auto simp: level_shows_def shows_pairs_def)
  have eq: "?ix = map (at_dir ?b N) (map snd ps)" by (simp add: case_prod_beta)
  have below: "\<forall>t \<in> set (map snd ps). t < N" using b by auto
  then have "inj_on (at_dir ?b N) (set (map snd ps))" using at_dir_inj [of _ N] by (intro inj_onI) blast
  then have ix: "distinct ?ix" unfolding eq using d by (subst distinct_map) simp
  have ib: "\<forall>i \<in> set ?ix. i < N" unfolding eq using below at_dir_less by auto
  have U': "is_sharing n k q' (length ?ix) U" using U by simp
  note S = set_sharing [OF X U' pos ix ib s]
  show "is_sharing n k 0 N (sh_set vb U X)" by (rule S(1))
  have l: "length (reveal_b X) = N" "length (reveal_a X) = N" "length (reveal_b U) = length ps" "length (reveal_a U) = length ps"
    using length_reveal [OF X pos] length_reveal [OF U pos] by simp_all
  show "(\<And>j. j < length ps \<Longrightarrow> reveal_b U ! j = (if L (fst (ps ! j)) = L (snd (ps ! j))
        then f (in_dir (pn_reversed nw) (reveal_b X) ! fst (ps ! j)) (in_dir (pn_reversed nw) (reveal_b X) ! snd (ps ! j))
        else in_dir (pn_reversed nw) (reveal_b X) ! snd (ps ! j))) \<Longrightarrow>
      in_dir (pn_reversed nw) (reveal_b (sh_set vb U X)) = agg_level L f ps (in_dir (pn_reversed nw) (reveal_b X))"
    unfolding S(2) by (rule level_scatter [OF d b l(1,3)])
  show "(\<And>j. j < length ps \<Longrightarrow> reveal_a U ! j = (if L (fst (ps ! j)) = L (snd (ps ! j))
        then f (in_dir (pn_reversed nw) (reveal_a X) ! fst (ps ! j)) (in_dir (pn_reversed nw) (reveal_a X) ! snd (ps ! j))
        else in_dir (pn_reversed nw) (reveal_a X) ! snd (ps ! j))) \<Longrightarrow>
      in_dir (pn_reversed nw) (reveal_a (sh_set vb U X)) = agg_level L f ps (in_dir (pn_reversed nw) (reveal_a X))"
    unfolding S(3) by (rule level_scatter [OF d b l(2,4)])
qed

lemma agg_b_loop_correct:
  fixes G J :: "'a sharing"
  assumes "ok st" and v: "level_shows nw i N ps va vb"
    and G: "is_sharing n k 0 (length ps) G" and J: "is_sharing n k 0 (length ps) J"
    and "\<forall>x \<in> set bs. is_sharing n k 0 N (fst x)"
    and "\<And>f j. f \<in> snd ` set bs \<Longrightarrow> j < length ps \<Longrightarrow>
      bit (reveal_b (if f = Copy_b then J else G) ! j) 0 = (L f (fst (ps ! j)) = L f (snd (ps ! j)))"
  shows "\<exists>bs' st'. agg_b_loop P nw i G J bs st = Some (bs', st') \<and> ok st' \<and> map snd bs' = map snd bs \<and>
    (\<forall>x \<in> set bs'. is_sharing n k 0 N (fst x)) \<and>
    map (\<lambda>x. in_dir (pn_reversed nw) (reveal_b (fst x))) bs'
      = map (\<lambda>x. agg_level (L (snd x)) (op_b (snd x)) ps (in_dir (pn_reversed nw) (reveal_b (fst x)))) bs"
  using assms(1,5,6)
proof (induction bs arbitrary: st)
  case (Cons x bs)
  obtain X f where x: "x = (X, f)" by (cases x)
  let ?g = "if f = Copy_b then J else G"
  have X: "is_sharing n k 0 N X" using Cons.prems(2) x by simp
  note g = level_get(1,2) [OF v X] and e = level_get(3,4) [OF v X]
  have gs: "is_sharing n k 0 (length ps) ?g" using G J by simp
  obtain U st1 where U: "agg_b_fun P f ?g (sh_get vb X) (sh_get va X) st = Some (U, st1)" "ok st1"
    "is_sharing n k 0 (length ps) U" "\<forall>j < length ps. reveal_b U ! j = (if bit (reveal_b ?g ! j) 0
       then op_b f (reveal_b (sh_get va X) ! j) (reveal_b (sh_get vb X) ! j) else reveal_b (sh_get vb X) ! j)"
    using agg_b_fun_correct [OF Cons.prems(1) gs g(2,1)] by blast
  have u: "reveal_b U ! j = (if L f (fst (ps ! j)) = L f (snd (ps ! j))
      then op_b f (in_dir (pn_reversed nw) (reveal_b X) ! fst (ps ! j)) (in_dir (pn_reversed nw) (reveal_b X) ! snd (ps ! j))
      else in_dir (pn_reversed nw) (reveal_b X) ! snd (ps ! j))" if "j < length ps" for j
    using that U(4) e [OF that] Cons.prems(3) [of f j] x by auto
  note S = level_set(1) [OF v X U(3)] and T = level_set(2) [OF v X U(3) u]
  obtain bs' st' where r: "agg_b_loop P nw i G J bs st1 = Some (bs', st')" "ok st'" "map snd bs' = map snd bs"
    "\<forall>x \<in> set bs'. is_sharing n k 0 N (fst x)"
    "map (\<lambda>x. in_dir (pn_reversed nw) (reveal_b (fst x))) bs'
      = map (\<lambda>x. agg_level (L (snd x)) (op_b (snd x)) ps (in_dir (pn_reversed nw) (reveal_b (fst x)))) bs"
    using Cons.IH [OF U(2)] Cons.prems(2,3) by auto
  have "agg_b_loop P nw i G J (x # bs) st = Some ((sh_set vb U X, f) # bs', st')"
    using U(1) r(1) v size_is [OF X] x by (simp add: level_shows_def Let_def)
  then show ?case using S T r(2-5) x by auto
qed simp

lemma agg_a_loop_correct:
  fixes G J :: "'a sharing"
  assumes "ok st" and v: "level_shows nw i N ps va vb"
    and "\<forall>x \<in> set as. is_sharing n k 0 N (fst x)"
    and "\<And>f. f \<in> snd ` set as \<Longrightarrow> is_sharing n k 0 (length ps) (if f = Copy_a then J else G)"
    and "\<And>f j. f \<in> snd ` set as \<Longrightarrow> j < length ps \<Longrightarrow>
      reveal_a (if f = Copy_a then J else G) ! j = of_bool (L f (fst (ps ! j)) = L f (snd (ps ! j)))"
  shows "\<exists>as' st'. agg_a_loop P nw i G J as st = Some (as', st') \<and> ok st' \<and> map snd as' = map snd as \<and>
    (\<forall>x \<in> set as'. is_sharing n k 0 N (fst x)) \<and>
    map (\<lambda>x. in_dir (pn_reversed nw) (reveal_a (fst x))) as'
      = map (\<lambda>x. agg_level (L (snd x)) (op_a (snd x)) ps (in_dir (pn_reversed nw) (reveal_a (fst x)))) as"
  using assms(1,3-)
proof (induction as arbitrary: st)
  case (Cons x as)
  obtain X f where x: "x = (X, f)" by (cases x)
  let ?g = "if f = Copy_a then J else G"
  have X: "is_sharing n k 0 N X" using Cons.prems(2) x by simp
  note g = level_get(1,2) [OF v X] and e = level_get(5,6) [OF v X]
  have gs: "is_sharing n k 0 (length ps) ?g" using Cons.prems(3) [of f] x by simp
  have gb: "reveal_a ?g ! j = of_bool (L f (fst (ps ! j)) = L f (snd (ps ! j)))" if "j < length ps" for j
    using that Cons.prems(4) [of f j] x by simp
  obtain U st1 where U: "agg_a_fun P f ?g (sh_get vb X) (sh_get va X) st = Some (U, st1)" "ok st1"
    "is_sharing n k 0 (length ps) U" "\<forall>j < length ps. reveal_a U ! j = (if L f (fst (ps ! j)) = L f (snd (ps ! j))
       then op_a f (reveal_a (sh_get va X) ! j) (reveal_a (sh_get vb X) ! j) else reveal_a (sh_get vb X) ! j)"
    using agg_a_fun_correct [OF Cons.prems(1) gs g(2,1) gb] by blast
  have u: "reveal_a U ! j = (if L f (fst (ps ! j)) = L f (snd (ps ! j))
      then op_a f (in_dir (pn_reversed nw) (reveal_a X) ! fst (ps ! j)) (in_dir (pn_reversed nw) (reveal_a X) ! snd (ps ! j))
      else in_dir (pn_reversed nw) (reveal_a X) ! snd (ps ! j))" if "j < length ps" for j
    using that U(4) e [OF that] by auto
  note S = level_set(1) [OF v X U(3)] and T = level_set(3) [OF v X U(3) u]
  obtain as' st' where r: "agg_a_loop P nw i G J as st1 = Some (as', st')" "ok st'" "map snd as' = map snd as"
    "\<forall>x \<in> set as'. is_sharing n k 0 N (fst x)"
    "map (\<lambda>x. in_dir (pn_reversed nw) (reveal_a (fst x))) as'
      = map (\<lambda>x. agg_level (L (snd x)) (op_a (snd x)) ps (in_dir (pn_reversed nw) (reveal_a (fst x)))) as"
    using Cons.IH [OF U(2)] Cons.prems(2-4) by auto
  have "agg_a_loop P nw i G J (x # as) st = Some ((sh_set vb U X, f) # as', st')"
    using U(1) r(1) v size_is [OF X] x by (simp add: level_shows_def Let_def)
  then show ?case using S T r(2-5) x by auto
qed simp

end

section \<open>The group bits\<close>

lemma bit_shares_get:
  assumes "is_sharing n k 0 N X" and "bit_shares X" and "\<forall>i \<in> set (positions v). i < N"
  shows "bit_shares (sh_get v X)"
  using assms(2,3) column_length [OF assms(1)] by (fastforce simp: bit_shares_def sh_get_def apply_return_def view_get_def)

lemma bit_shares_xor:
  assumes "bit_shares X" and "bit_shares Y"
  shows "bit_shares (xor_b X Y)"
proof -
  have "x = 0 \<or> x = 1" if h: "e \<in> set (xor_b X Y)" "c \<in> set (cols e)" "x \<in> set c" for e c x
  proof -
    from h(1) have "e \<in> (\<lambda>p. evec_op (XOR) (fst p) (snd p)) ` set (zip X Y)" by (simp add: xor_b_def case_prod_beta)
    then obtain p where p: "p \<in> set (zip X Y)" "e = evec_op (XOR) (fst p) (snd p)" by (elim imageE)
    define u v where "u = fst p" and "v = snd p"
    have uv: "u \<in> set X" "v \<in> set Y" "e = evec_op (XOR) u v" using p by (auto simp: u_def v_def intro: set_zip_leftD [of _ "snd p"] set_zip_rightD [of "fst p"])
    from h(2) uv(3) have "c \<in> (\<lambda>a. vec_op (XOR) (fst a) (snd a)) ` set (zip (cols u) (cols v))"
      by (simp add: evec_op_def case_prod_beta)
    then obtain a where a: "a \<in> set (zip (cols u) (cols v))" "c = vec_op (XOR) (fst a) (snd a)" by (elim imageE)
    then have ab: "fst a \<in> set (cols u)" "snd a \<in> set (cols v)"
      by (auto intro: set_zip_leftD [of _ "snd a"] set_zip_rightD [of "fst a"])
    obtain y z where "y \<in> set (fst a)" "z \<in> set (snd a)" "x = y XOR z"
      using h(3) a(2) by (auto simp: vxor_def elim!: in_set_zipE)
    then show ?thesis using assms uv(1,2) ab(1,2) by (fastforce simp: bit_shares_def)
  qed
  then show ?thesis by (auto simp: bit_shares_def)
qed

definition same_row :: "bool \<Rightarrow> 'a::len vec list \<Rightarrow> nat \<times> nat \<Rightarrow> bool" where
  "same_row d ks p \<longleftrightarrow> (\<forall>c \<in> set ks. in_dir d c ! fst p = in_dir d c ! snd p)"

lemma row_label_eq:
  "(row_label d ks sel s = row_label d ks sel t) \<longleftrightarrow> same_row d ks (s, t) \<and>
     (case sel of Some c \<Rightarrow> bit (in_dir d c ! s) 0 = bit (in_dir d c ! t) 0 | None \<Rightarrow> True)"
  by (auto simp: row_label_def same_row_def split: option.splits)

context arithmetic_protocol
begin

lemma repeated_share_correct:
  fixes X :: "'a sharing"
  assumes X: "is_sharing n k 0 1 X"
  shows "\<exists>R. repeated_share m X = Some R \<and> is_sharing n k 0 m R \<and> reveal_b R = replicate m (reveal_b X ! 0) \<and>
    reveal_a R = replicate m (reveal_a X ! 0)"
proof -
  have "\<forall>j \<in> set (concat (map (replicate m) [0..<total_size (base 1)])). j < total_size (base 1)" by auto
  from remapped_Some [OF this] have v: "repeated_subset_reference m (base 1) = Some ((base 1)\<lparr>mapping := Some (replicate m 0)\<rparr>)"
    by (simp add: repeated_subset_reference_def)
  let ?v = "(base 1)\<lparr>mapping := Some (replicate m 0)\<rparr>"
  have p: "\<forall>i \<in> set (positions ?v). i < 1" by simp
  show ?thesis using get_sharing [OF X pos p] v size_is [OF X] by (simp add: repeated_share_def view_get_def)
qed

lemma equal_at:
  fixes X :: "'a sharing"
  assumes ok: "ok st" and v: "level_shows nw i N ps va vb" and X: "is_sharing n k 0 N X"
  shows "\<exists>E st'. equal_b P (sh_get va X) (sh_get vb X) st = Some (E, st') \<and> ok st' \<and> is_sharing n k 0 (length ps) E \<and>
    reveal_b E = map (\<lambda>p. of_bool (same_row (pn_reversed nw) [reveal_b X] p)) ps"
proof -
  note g = level_get(1,2) [OF v X]
  obtain E st' where E: "equal_b P (sh_get va X) (sh_get vb X) st = Some (E, st')" "ok st'" "is_sharing n k 0 (length ps) E"
    "reveal_b E = map2 (\<lambda>x y. of_bool (x = y)) (reveal_b (sh_get va X)) (reveal_b (sh_get vb X))"
    using equal_b_correct [OF ok g] by blast
  have "reveal_b E = map (\<lambda>p. of_bool (same_row (pn_reversed nw) [reveal_b X] p)) ps"
    using E(4) len [OF g(1)] len [OF g(2)] level_get(3,4) [OF v X] by (intro nth_equalityI) (simp_all add: same_row_def)
  then show ?thesis using E by blast
qed

lemma key_loop_correct:
  fixes G :: "'a sharing"
  assumes "ok st" and v: "level_shows nw i N ps va vb" and "\<forall>c \<in> set ks. is_sharing n k 0 N c"
    and "is_sharing n k 0 (length ps) G" and "reveal_b G = map (\<lambda>p. of_bool (g p)) ps"
  shows "\<exists>R st'. key_loop P nw i ks G st = Some (R, st') \<and> ok st' \<and> is_sharing n k 0 (length ps) R \<and>
    reveal_b R = map (\<lambda>p. of_bool (g p \<and> same_row (pn_reversed nw) (map reveal_b ks) p)) ps"
  using assms(1,3-)
proof (induction ks arbitrary: st G g)
  case Nil
  then show ?case by (simp add: same_row_def)
next
  case (Cons c ks)
  have c: "is_sharing n k 0 N c" using Cons.prems(2) by simp
  obtain E st1 where E: "equal_b P (sh_get va c) (sh_get vb c) st = Some (E, st1)" "ok st1" "is_sharing n k 0 (length ps) E"
    "reveal_b E = map (\<lambda>p. of_bool (same_row (pn_reversed nw) [reveal_b c] p)) ps" using equal_at [OF Cons.prems(1) v c] by blast
  obtain Z st2 where Z: "v_and_b P G E st1 = Some (Z, st2)" "ok st2" "is_sharing n k 0 (length ps) Z"
    "reveal_b Z = map2 (AND) (reveal_b G) (reveal_b E)" by (rule and_obtains [OF E(2) Cons.prems(3) E(3)])
  have z: "reveal_b Z = map (\<lambda>p. of_bool (g p \<and> same_row (pn_reversed nw) [reveal_b c] p)) ps"
    unfolding Z(4) Cons.prems(4) E(4) by (rule nth_equalityI) auto
  obtain R st' where R: "key_loop P nw i ks Z st2 = Some (R, st')" "ok st'" "is_sharing n k 0 (length ps) R"
    "reveal_b R = map (\<lambda>p. of_bool ((g p \<and> same_row (pn_reversed nw) [reveal_b c] p) \<and> same_row (pn_reversed nw) (map reveal_b ks) p)) ps"
    using Cons.IH [OF Z(2) _ Z(3) z] Cons.prems(2) by auto
  moreover have "key_loop P nw i (c # ks) G st = Some (R, st')"
    using E(1) Z(1) R(1) v size_is [OF c] by (simp add: level_shows_def)
  ultimately show ?case by (simp add: same_row_def conj_assoc)
qed

lemma key_groups_correct:
  fixes one_b :: "'a sharing"
  assumes ok: "ok st" and v: "level_shows nw i N ps va vb" and ks: "\<forall>c \<in> set ks. is_sharing n k 0 N c"
    and one: "is_sharing n k 0 1 one_b" "reveal_b one_b = [1]"
  shows "\<exists>R st'. key_groups P nw i one_b ks st = Some (R, st') \<and> ok st' \<and> is_sharing n k 0 (length ps) R \<and>
    reveal_b R = map (\<lambda>p. of_bool (same_row (pn_reversed nw) (map reveal_b ks) p)) ps"
proof (cases ks)
  case Nil
  obtain R where R: "repeated_share (length ps) one_b = Some R" "is_sharing n k 0 (length ps) R"
    "reveal_b R = replicate (length ps) (reveal_b one_b ! 0)" using repeated_share_correct [OF one(1)] by blast
  then show ?thesis using Nil ok v one(2) by (simp add: key_groups_def level_shows_def same_row_def map_replicate_const)
next
  case (Cons c cs)
  have c: "is_sharing n k 0 N c" "\<forall>c \<in> set cs. is_sharing n k 0 N c" using ks Cons by simp_all
  obtain E st1 where E: "equal_b P (sh_get va c) (sh_get vb c) st = Some (E, st1)" "ok st1" "is_sharing n k 0 (length ps) E"
    "reveal_b E = map (\<lambda>p. of_bool (same_row (pn_reversed nw) [reveal_b c] p)) ps" using equal_at [OF ok v c(1)] by blast
  obtain R st' where R: "key_loop P nw i cs E st1 = Some (R, st')" "ok st'" "is_sharing n k 0 (length ps) R"
    "reveal_b R = map (\<lambda>p. of_bool (same_row (pn_reversed nw) [reveal_b c] p \<and> same_row (pn_reversed nw) (map reveal_b cs) p)) ps"
    using key_loop_correct [OF E(2) v c(2) E(3,4)] by blast
  moreover have "key_groups P nw i one_b ks st = Some (R, st')"
    using Cons E(1) R(1) v size_is [OF c(1)] by (simp add: key_groups_def level_shows_def)
  ultimately show ?thesis using Cons by (simp add: same_row_def)
qed

lemma sel_groups_correct:
  fixes J :: "'a sharing"
  assumes ok: "ok st" and v: "level_shows nw i N ps va vb" and J: "is_sharing n k 0 (length ps) J"
    and j: "reveal_b J = map (\<lambda>p. of_bool (g p)) ps"
    and sel: "case sel of Some s \<Rightarrow> is_sharing n k 0 N s \<and> bit_shares s | None \<Rightarrow> True"
  shows "\<exists>R st'. sel_groups P nw i noncopy sel J st = Some (R, st') \<and> ok st' \<and> is_sharing n k 0 (length ps) R \<and>
    (noncopy \<longrightarrow> (\<forall>t < length ps. bit (reveal_b R ! t) 0 = (g (ps ! t) \<and> (case sel of Some s \<Rightarrow>
       bit (in_dir (pn_reversed nw) (reveal_b s) ! fst (ps ! t)) 0 = bit (in_dir (pn_reversed nw) (reveal_b s) ! snd (ps ! t)) 0
       | None \<Rightarrow> True))))"
proof (cases "noncopy \<and> sel \<noteq> None")
  case False
  then show ?thesis using ok J j by (auto simp: sel_groups_def bit_0 split: option.splits)
next
  case True
  then obtain s where s: "sel = Some s" "is_sharing n k 0 N s" "bit_shares s" using sel by auto
  note g = level_get(1,2) [OF v s(2)] and e = level_get(3,4) [OF v s(2)]
  have "\<forall>i \<in> set (positions va). i < N" "\<forall>i \<in> set (positions vb). i < N"
    using v at_dir_less by (auto simp: level_shows_def shows_pairs_def)
  then have bits: "bit_shares (xor_b (sh_get va s) (sh_get vb s))"
    using bit_shares_xor bit_shares_get [OF s(2,3)] by blast
  note X = xor_sharing [OF g pos]
  note N = sv_not1_law [OF X(1) bits]
  let ?M = "sv_not_b_1 P (xor_b (sh_get va s) (sh_get vb s))"
  obtain Z st' where Z: "v_and_b P J ?M st = Some (Z, st')" "ok st'" "is_sharing n k 0 (length ps) Z"
    "reveal_b Z = map2 (AND) (reveal_b J) (reveal_b ?M)" by (rule and_obtains [OF ok J N(1)])
  have "bit (reveal_b Z ! t) 0 = (g (ps ! t) \<and> bit (in_dir (pn_reversed nw) (reveal_b s) ! fst (ps ! t)) 0
      = bit (in_dir (pn_reversed nw) (reveal_b s) ! snd (ps ! t)) 0)" if t: "t < length ps" for t
    using t Z(4) j N(3) X(2) e [OF t] len [OF g(1)] len [OF g(2)] by (auto simp: bit_simps)
  then show ?thesis using Z True s v size_is [OF s(2)] by (auto simp: sel_groups_def level_shows_def)
qed

lemma group_bits_arith_correct:
  fixes G J one_a :: "'a sharing"
  assumes ok: "ok st" and G: "is_sharing n k 0 m G" and J: "is_sharing n k 0 m J"
    and one: "is_sharing n k 0 1 one_a" "reveal_a one_a = [1]"
  shows "\<exists>ga jga st'. group_bits_arith P m one_a no_keys as G J st = Some ((ga, jga), st') \<and> ok st' \<and>
    (\<forall>f \<in> snd ` set as. is_sharing n k 0 m (if f = Copy_a then jga else ga) \<and>
       (\<forall>j < m. reveal_a (if f = Copy_a then jga else ga) ! j
          = (if no_keys then 1 else of_bool (bit (reveal_b (if f = Copy_a then J else G) ! j) 0))))"
proof (cases no_keys)
  case True
  then show ?thesis using ok repeated_share_correct [OF one(1), of m] one(2) by (auto simp: group_bits_arith_def)
next
  case False
  let ?z = "p_setPrecision 0 (p_construct_like one_a m)"
  have conv: "\<exists>R st'. (if c then sv_b2a_bit P X st else Some (?z, st)) = Some (R, st') \<and> ok st' \<and>
      (c \<longrightarrow> is_sharing n k 0 m R \<and> (\<forall>j < m. reveal_a R ! j = of_bool (bit (reveal_b X ! j) 0)))"
    if "ok st" "is_sharing n k 0 m X" for X st c
    using sv_b2a_law [OF that] that(1) len [OF that(2)] by (auto simp: word_and_one)
  obtain ga st1 where ga: "(if \<exists>x \<in> set as. snd x \<noteq> Copy_a then sv_b2a_bit P G st else Some (?z, st)) = Some (ga, st1)" "ok st1"
    "(\<exists>x \<in> set as. snd x \<noteq> Copy_a) \<longrightarrow> is_sharing n k 0 m ga \<and> (\<forall>j < m. reveal_a ga ! j = of_bool (bit (reveal_b G ! j) 0))"
    using conv [OF ok G] by blast
  obtain jga st2 where jga: "(if \<exists>x \<in> set as. snd x = Copy_a then sv_b2a_bit P J st1 else Some (?z, st1)) = Some (jga, st2)" "ok st2"
    "(\<exists>x \<in> set as. snd x = Copy_a) \<longrightarrow> is_sharing n k 0 m jga \<and> (\<forall>j < m. reveal_a jga ! j = of_bool (bit (reveal_b J ! j) 0))"
    using conv [OF ga(2) J] by blast
  have "group_bits_arith P m one_a no_keys as G J st = Some ((ga, jga), st2)"
    using False ga(1) jga(1) by (simp add: group_bits_arith_def Let_def)
  then show ?thesis using False ga(3) jga(2,3) by (intro exI conjI) auto
qed

lemma aggregate_level_correct:
  fixes one_a one_b :: "'a sharing"
  assumes ok: "ok st" and v: "level_shows nw i N ps va vb" and ks: "\<forall>c \<in> set ks. is_sharing n k 0 N c"
    and ob: "is_sharing n k 0 1 one_b" "reveal_b one_b = [1]" and oa: "is_sharing n k 0 1 one_a" "reveal_a one_a = [1]"
    and sel: "case sel of Some s \<Rightarrow> is_sharing n k 0 N s \<and> bit_shares s | None \<Rightarrow> True"
    and bs: "\<forall>x \<in> set bs. is_sharing n k 0 N (fst x)" and as: "\<forall>x \<in> set as. is_sharing n k 0 N (fst x)"
  shows "\<exists>bs' as' st'. aggregate_level P nw one_b one_a ks sel i (bs, as) st = Some ((bs', as'), st') \<and> ok st' \<and>
    map snd bs' = map snd bs \<and> map snd as' = map snd as \<and>
    (\<forall>x \<in> set bs'. is_sharing n k 0 N (fst x)) \<and> (\<forall>x \<in> set as'. is_sharing n k 0 N (fst x)) \<and>
    map (\<lambda>x. in_dir (pn_reversed nw) (reveal_b (fst x))) bs' = map (\<lambda>x. agg_level
      (label_b (pn_reversed nw) (map reveal_b ks) (map_option reveal_b sel) (snd x)) (op_b (snd x)) ps
      (in_dir (pn_reversed nw) (reveal_b (fst x)))) bs \<and>
    map (\<lambda>x. in_dir (pn_reversed nw) (reveal_a (fst x))) as' = map (\<lambda>x. agg_level
      (label_a (pn_reversed nw) (map reveal_b ks) (map_option reveal_b sel) (snd x)) (op_a (snd x)) ps
      (in_dir (pn_reversed nw) (reveal_a (fst x)))) as"
proof -
  let ?d = "pn_reversed nw" and ?K = "map reveal_b ks" and ?S = "map_option reveal_b sel"
  let ?nc = "(\<exists>x \<in> set as. snd x \<noteq> Copy_a) \<or> (\<exists>x \<in> set bs. snd x \<noteq> Copy_b)"
  obtain J st1 where J: "key_groups P nw i one_b ks st = Some (J, st1)" "ok st1" "is_sharing n k 0 (length ps) J"
    "reveal_b J = map (\<lambda>p. of_bool (same_row ?d ?K p)) ps" using key_groups_correct [OF ok v ks ob] by blast
  obtain G0 st2 where G0: "sel_groups P nw i ?nc sel J st1 = Some (G0, st2)" "ok st2" "is_sharing n k 0 (length ps) G0"
    "?nc \<longrightarrow> (\<forall>t < length ps. bit (reveal_b G0 ! t) 0 = (same_row ?d ?K (ps ! t) \<and> (case sel of Some s \<Rightarrow>
       bit (in_dir ?d (reveal_b s) ! fst (ps ! t)) 0 = bit (in_dir ?d (reveal_b s) ! snd (ps ! t)) 0 | None \<Rightarrow> True)))"
    using sel_groups_correct [OF J(2) v J(3,4) sel, of ?nc] by blast
  let ?G = "p_mask G0 1"
  have G: "is_sharing n k 0 (length ps) ?G" and g: "bit (reveal_b ?G ! t) 0 = bit (reveal_b G0 ! t) 0" if "t < length ps" for t
    using bitfun_sharing(1,2) [OF G0(3) pos, of 1] len [OF G0(3)] that by (simp_all add: mask_vec_def bit_simps)
  have G: "is_sharing n k 0 (length ps) ?G" by (rule bitfun_sharing(1) [OF G0(3) pos])
  have j: "bit (reveal_b J ! t) 0 = same_row ?d ?K (ps ! t)" if "t < length ps" for t using that J(4) by (simp add: bit_0)
  have gj: "bit (reveal_b ?G ! t) 0 = (row_label ?d ?K ?S (fst (ps ! t)) = row_label ?d ?K ?S (snd (ps ! t)))" if "t < length ps" "?nc" for t
    using g [OF that(1)] G0(4) that by (auto simp: row_label_eq split: option.splits)
  have jj: "bit (reveal_b J ! t) 0 = (row_label ?d ?K None (fst (ps ! t)) = row_label ?d ?K None (snd (ps ! t)))" if "t < length ps" for t
    using j [OF that] by (simp add: row_label_eq)
  have lb: "bit (reveal_b (if f = Copy_b then J else ?G) ! t) 0 = (label_b ?d ?K ?S f (fst (ps ! t)) = label_b ?d ?K ?S f (snd (ps ! t)))"
    if "f \<in> snd ` set bs" "t < length ps" for f t
    using jj [OF that(2)] gj [OF that(2)] that(1) by (cases "f = Copy_b") (auto simp: label_b_def)
  obtain bs' st3 where B: "agg_b_loop P nw i ?G J bs st2 = Some (bs', st3)" "ok st3" "map snd bs' = map snd bs"
    "\<forall>x \<in> set bs'. is_sharing n k 0 N (fst x)" "map (\<lambda>x. in_dir ?d (reveal_b (fst x))) bs'
      = map (\<lambda>x. agg_level (label_b ?d ?K ?S (snd x)) (op_b (snd x)) ps (in_dir ?d (reveal_b (fst x)))) bs"
    using agg_b_loop_correct [OF G0(2) v G J(3) bs lb] by blast
  obtain ga jga st4 where A: "group_bits_arith P (length ps) one_a (ks = []) as ?G J st3 = Some ((ga, jga), st4)" "ok st4"
    "\<forall>f \<in> snd ` set as. is_sharing n k 0 (length ps) (if f = Copy_a then jga else ga) \<and>
       (\<forall>t < length ps. reveal_a (if f = Copy_a then jga else ga) ! t
          = (if ks = [] then 1 else of_bool (bit (reveal_b (if f = Copy_a then J else ?G) ! t) 0)))"
    using group_bits_arith_correct [OF B(2) G J(3) oa] by blast
  have la: "reveal_a (if f = Copy_a then jga else ga) ! t = of_bool (label_a ?d ?K ?S f (fst (ps ! t)) = label_a ?d ?K ?S f (snd (ps ! t)))"
    if "f \<in> snd ` set as" "t < length ps" for f t
  proof (cases "ks = []")
    case True
    then show ?thesis using bspec [OF A(3) that(1)] that(2) by (simp add: label_a_def row_label_def)
  next
    case False
    have "reveal_a (if f = Copy_a then jga else ga) ! t = of_bool (bit (reveal_b (if f = Copy_a then J else ?G) ! t) 0)"
      using conjunct2 [OF bspec [OF A(3) that(1)]] that(2) False by simp
    then show ?thesis using jj [OF that(2)] gj [OF that(2)] that(1) False by (cases "f = Copy_a") (auto simp: label_a_def)
  qed
  have ga: "is_sharing n k 0 (length ps) (if f = Copy_a then jga else ga)" if "f \<in> snd ` set as" for f
    by (rule conjunct1 [OF bspec [OF A(3) that]])
  obtain as' st5 where C: "agg_a_loop P nw i ga jga as st4 = Some (as', st5)" "ok st5" "map snd as' = map snd as"
    "\<forall>x \<in> set as'. is_sharing n k 0 N (fst x)" "map (\<lambda>x. in_dir ?d (reveal_a (fst x))) as'
      = map (\<lambda>x. agg_level (label_a ?d ?K ?S (snd x)) (op_a (snd x)) ps (in_dir ?d (reveal_a (fst x)))) as"
    using agg_a_loop_correct [OF A(2) v as ga la] by blast
  have "aggregate_level P nw one_b one_a ks sel i (bs, as) st = Some ((bs', as'), st5)"
    using J(1) G0(1) B(1) A(1) C(1) v setPrecision_id [OF J(3)] by (simp add: aggregate_level_def Let_def level_shows_def)
  then show ?thesis using B(3-5) C(2-5) by blast
qed

end

section \<open>All levels\<close>

lemma map_after:
  assumes "map a ys = map b xs" and "map g ys = map h xs"
  shows "map (\<lambda>y. F (a y) (g y)) ys = map (\<lambda>x. F (b x) (h x)) xs"
proof (rule nth_equalityI)
  have l: "length ys = length xs" using assms(1) map_eq_imp_length_eq by blast
  then show "length (map (\<lambda>y. F (a y) (g y)) ys) = length (map (\<lambda>x. F (b x) (h x)) xs)" by simp
  fix i assume "i < length (map (\<lambda>y. F (a y) (g y)) ys)"
  then have "i < length ys" "i < length xs" using l by simp_all
  then show "map (\<lambda>y. F (a y) (g y)) ys ! i = map (\<lambda>x. F (b x) (h x)) xs ! i"
    using arg_cong [OF assms(1), of "\<lambda>zs. zs ! i"] arg_cong [OF assms(2), of "\<lambda>zs. zs ! i"] by simp
qed

definition run_levels :: "nat \<Rightarrow> (nat \<Rightarrow> 'l) \<Rightarrow> ('b \<Rightarrow> 'b \<Rightarrow> 'b) \<Rightarrow> nat list \<Rightarrow> 'b list \<Rightarrow> 'b list" where
  "run_levels r L f ls xs = foldl (\<lambda>ys l. agg_level L f (bk_pairs r l) ys) xs ls"

lemma run_levels_simps [simp]: "run_levels r L f [] xs = xs"
  "run_levels r L f (l # ls) xs = run_levels r L f ls (agg_level L f (bk_pairs r l) xs)"
  by (simp_all add: run_levels_def)

context arithmetic_protocol
begin

lemma aggregate_levels_correct:
  fixes one_a one_b :: "'a sharing"
  assumes "ok st" and r: "0 < r" and ks: "\<forall>c \<in> set ks. is_sharing n k 0 (2 ^ r) c"
    and ob: "is_sharing n k 0 1 one_b" "reveal_b one_b = [1]" and oa: "is_sharing n k 0 1 one_a" "reveal_a one_a = [1]"
    and sel: "case sel of Some s \<Rightarrow> is_sharing n k 0 (2 ^ r) s \<and> bit_shares s | None \<Rightarrow> True"
    and "\<forall>x \<in> set bs. is_sharing n k 0 (2 ^ r) (fst x)" and "\<forall>x \<in> set as. is_sharing n k 0 (2 ^ r) (fst x)"
    and "\<forall>l \<in> set ls. l < 2 * r - 1"
  shows "\<exists>bs' as' st'. aggregate_levels P (prefix_net r d) one_b one_a ks sel ls (bs, as) st = Some ((bs', as'), st') \<and> ok st' \<and>
    map snd bs' = map snd bs \<and> map snd as' = map snd as \<and>
    (\<forall>x \<in> set bs'. is_sharing n k 0 (2 ^ r) (fst x)) \<and> (\<forall>x \<in> set as'. is_sharing n k 0 (2 ^ r) (fst x)) \<and>
    map (\<lambda>x. in_dir d (reveal_b (fst x))) bs' = map (\<lambda>x. run_levels r
      (label_b d (map reveal_b ks) (map_option reveal_b sel) (snd x)) (op_b (snd x)) ls (in_dir d (reveal_b (fst x)))) bs \<and>
    map (\<lambda>x. in_dir d (reveal_a (fst x))) as' = map (\<lambda>x. run_levels r
      (label_a d (map reveal_b ks) (map_option reveal_b sel) (snd x)) (op_a (snd x)) ls (in_dir d (reveal_a (fst x)))) as"
  using assms(1,9-11)
proof (induction ls arbitrary: st bs as)
  case (Cons l ls)
  let ?K = "map reveal_b ks" and ?S = "map_option reveal_b sel"
  obtain va vb where v: "level_shows (prefix_net r d) l (2 ^ r) (bk_pairs r l) va vb"
    using level_shows_net [OF r, of l d] Cons.prems(4) by auto
  obtain bs1 as1 st1 where 1: "aggregate_level P (prefix_net r d) one_b one_a ks sel l (bs, as) st = Some ((bs1, as1), st1)" "ok st1"
    "map snd bs1 = map snd bs" "map snd as1 = map snd as"
    "\<forall>x \<in> set bs1. is_sharing n k 0 (2 ^ r) (fst x)" "\<forall>x \<in> set as1. is_sharing n k 0 (2 ^ r) (fst x)"
    "map (\<lambda>x. in_dir d (reveal_b (fst x))) bs1 = map (\<lambda>x. agg_level (label_b d ?K ?S (snd x)) (op_b (snd x)) (bk_pairs r l) (in_dir d (reveal_b (fst x)))) bs"
    "map (\<lambda>x. in_dir d (reveal_a (fst x))) as1 = map (\<lambda>x. agg_level (label_a d ?K ?S (snd x)) (op_a (snd x)) (bk_pairs r l) (in_dir d (reveal_a (fst x)))) as"
    using aggregate_level_correct [OF Cons.prems(1) v ks ob oa sel Cons.prems(2,3)] by auto
  obtain bs' as' st' where 2: "aggregate_levels P (prefix_net r d) one_b one_a ks sel ls (bs1, as1) st1 = Some ((bs', as'), st')" "ok st'"
    "map snd bs' = map snd bs1" "map snd as' = map snd as1"
    "\<forall>x \<in> set bs'. is_sharing n k 0 (2 ^ r) (fst x)" "\<forall>x \<in> set as'. is_sharing n k 0 (2 ^ r) (fst x)"
    "map (\<lambda>x. in_dir d (reveal_b (fst x))) bs' = map (\<lambda>x. run_levels r (label_b d ?K ?S (snd x)) (op_b (snd x)) ls (in_dir d (reveal_b (fst x)))) bs1"
    "map (\<lambda>x. in_dir d (reveal_a (fst x))) as' = map (\<lambda>x. run_levels r (label_a d ?K ?S (snd x)) (op_a (snd x)) ls (in_dir d (reveal_a (fst x)))) as1"
    using Cons.IH [OF 1(2,5,6)] Cons.prems(4) by auto
  show ?case
    using 1(1,3,4) 2(1-6) map_after [OF 1(3,7), of "\<lambda>f. run_levels r (label_b d ?K ?S f) (op_b f) ls"]
      map_after [OF 1(4,8), of "\<lambda>f. run_levels r (label_a d ?K ?S f) (op_a f) ls"]
    by (simp add: 2(7,8))
qed simp

lemma init_b_correct:
  fixes spec :: "'a spec_b list"
  assumes "\<forall>s \<in> set spec. is_sharing n k 0 N (fst s) \<and> sh_size (fst (snd s)) = N \<and> a_prec (fst (snd s)) = 0"
  shows "init_b spec = Some (map (\<lambda>s. (fst s, snd (snd s))) spec)"
  using assms by (induction spec) (auto simp: sh_assign_def size_is setPrecision_id)

lemma init_a_correct:
  fixes spec :: "'a spec_a list"
  assumes "ok st" and "is_sharing n k 0 1 one_a" "reveal_a one_a = [1]"
    and sel: "case sel of Some s \<Rightarrow> is_sharing n k 0 N s | None \<Rightarrow> True"
    and "\<forall>s \<in> set spec. is_sharing n k 0 N (fst s) \<and> sh_size (fst (snd s)) = N \<and> a_prec (fst (snd s)) = 0"
  shows "\<exists>as st'. init_a P N one_a sel spec st = Some (as, st') \<and> ok st' \<and> map snd as = map (snd \<circ> snd) spec \<and>
    (\<forall>x \<in> set as. is_sharing n k 0 N (fst x)) \<and>
    map (\<lambda>x. reveal_a (fst x)) as = map (\<lambda>s. input_a (map_option reveal_b sel) (snd (snd s)) (reveal_a (fst s))) spec"
  using assms(1,5)
proof (induction spec arbitrary: st)
  case (Cons s spec)
  obtain inp out f where s: "s = (inp, out, f)" by (cases s)
  have inp: "is_sharing n k 0 N inp" "sh_size out = N" using Cons.prems(2) s by simp_all
  have li: "length (reveal_a inp) = N" using length_reveal(2) [OF inp(1) pos] .
  let ?src = "if f = Count_a
        then (case sel of Some s \<Rightarrow> sv_b2a_bit P s st
          | None \<Rightarrow> do { v \<leftarrow> repeated_share N one_a; Some (v, st) })
        else Some (inp, st)"
  have "\<exists>X st1. ?src = Some (X, st1) \<and> ok st1 \<and> is_sharing n k 0 N X \<and> reveal_a X = input_a (map_option reveal_b sel) f (reveal_a inp)"
  proof (cases "f = Count_a")
    case True
    show ?thesis
    proof (cases sel)
      case None
      then show ?thesis using True repeated_share_correct [OF assms(2), of N] assms(3) Cons.prems(1) li
        by (auto simp: input_a_def)
    next
      case (Some c)
      then have "is_sharing n k 0 N c" using sel by simp
      from sv_b2a_law [OF Cons.prems(1) this] show ?thesis using True Some by (auto simp: input_a_def)
    qed
  next
    case False
    then show ?thesis using Cons.prems(1) inp by (simp add: input_a_def)
  qed
  then obtain X st1 where X: "?src = Some (X, st1)" "ok st1" "is_sharing n k 0 N X"
    "reveal_a X = input_a (map_option reveal_b sel) f (reveal_a inp)" by blast
  obtain as st' where r: "init_a P N one_a sel spec st1 = Some (as, st')" "ok st'" "map snd as = map (snd \<circ> snd) spec"
    "\<forall>x \<in> set as. is_sharing n k 0 N (fst x)"
    "map (\<lambda>x. reveal_a (fst x)) as = map (\<lambda>s. input_a (map_option reveal_b sel) (snd (snd s)) (reveal_a (fst s))) spec"
    using Cons.IH [OF X(2)] Cons.prems(2) by auto
  have "init_a P N one_a sel (s # spec) st = Some ((X, f) # as, st')"
    using X(1) r(1) inp(2) size_is [OF X(3)] s Cons.prems(2) setPrecision_id [OF X(3)] by (simp add: sh_assign_def)
  then show ?case using X(3,4) r(2-5) s by simp
qed simp

end

section \<open>The reference\<close>

interpretation ungrouped: segmented n "\<lambda>_. ()" "op_b f" for n and f :: agg_b
  by unfold_locales (simp_all add: contiguous_def op_b_assoc)

interpretation ungrouped_a: segmented n "\<lambda>_. ()" "op_a f" for n and f :: agg_a
  by unfold_locales (simp_all add: contiguous_def op_a_assoc)

lemma contiguous_cong:
  assumes "contiguous n L" and "\<And>p. p < n \<Longrightarrow> L p = L' p"
  shows "contiguous n L'"
  unfolding contiguous_def
proof (intro allI impI)
  fix i j l assume h: "i < j" "j < l" "l < n" "L' i = L' l"
  then have "L i = L' i" "L j = L' j" "L l = L' l" by (intro assms(2); linarith)+
  then show "L' j = L' l" using assms(1) h unfolding contiguous_def by metis
qed

lemma contiguous_dir:
  assumes "contiguous n L"
  shows "contiguous n (\<lambda>p. L (at_dir d n p))"
proof (cases d)
  case True
  have "L (n - 1 - j) = L (n - 1 - l)" if "i < j" "j < l" "l < n" "L (n - 1 - i) = L (n - 1 - l)" for i j l
  proof -
    have "n - 1 - l < n - 1 - j" "n - 1 - j < n - 1 - i" "n - 1 - i < n" using that by linarith+
    then have "L (n - 1 - j) = L (n - 1 - i)" using assms that(4) unfolding contiguous_def by metis
    then show ?thesis using that(4) by simp
  qed
  then show ?thesis using True by (simp add: contiguous_def at_dir_def)
qed (use assms in \<open>simp add: at_dir_def\<close>)

lemma row_label_dir:
  assumes "\<forall>c \<in> set ks. length c = N" and "case sel of Some s \<Rightarrow> length s = N | None \<Rightarrow> True" and "p < N"
  shows "row_label d ks sel p = row_label False ks sel (at_dir d N p)"
proof -
  have "in_dir d c ! p = in_dir False c ! at_dir d N p" if "length c = N" for c :: "'a vec"
    using nth_in_dir [of p c d] that assms(3) by (simp add: in_dir_def)
  then show ?thesis using assms(1,2) by (auto simp: row_label_def split: option.splits)
qed

lemma contiguous_row_label:
  assumes "\<forall>c \<in> set ks. length c = N" and "case sel of Some s \<Rightarrow> length s = N | None \<Rightarrow> True"
    and "contiguous N (row_label False ks sel)"
  shows "contiguous N (row_label d ks sel)"
  using contiguous_dir [OF assms(3), of d] by (rule contiguous_cong) (rule row_label_dir [OF assms(1,2), symmetric])

lemma run_levels_scan:
  assumes "contiguous (2 ^ r) L" and "\<And>x y z. f (f x y) z = f x (f y z)" and "0 < r" and "length x = 2 ^ r"
    and "in_dir d y = run_levels r L f [0..<2 * r - 1] (in_dir d x)"
  shows "y = group_scan d L f x"
proof -
  have "in_dir d y = map (seg_scan L f (in_dir d x)) [0..<2 ^ r]"
  proof (rule nth_equalityI)
    have "length (foldl (\<lambda>ys l. agg_level L f (bk_pairs r l) ys) z ls) = length z" for z ls
      by (induction ls arbitrary: z) simp_all
    then have l: "length (in_dir d y) = 2 ^ r" unfolding assms(5) run_levels_def using assms(4) by simp
    then show "length (in_dir d y) = length (map (seg_scan L f (in_dir d x)) [0..<2 ^ r])" by simp
    fix j assume "j < length (in_dir d y)"
    then have j: "j < 2 ^ r" using l by simp
    have "segmented (2 ^ r) L f" using assms(1,2) by unfold_locales
    from segmented.bk_scan [OF this refl assms(3) _ j] show "in_dir d y ! j = map (seg_scan L f (in_dir d x)) [0..<2 ^ r] ! j"
      unfolding assms(5) run_levels_def using assms(4) j by simp
  qed
  then have "y = in_dir d (map (seg_scan L f (in_dir d x)) [0..<2 ^ r])" by (metis in_dir_in_dir)
  then show ?thesis using assms(4) by (simp add: group_scan_def)
qed

lemma length_input_a: "length x = N \<Longrightarrow> case sel of Some s \<Rightarrow> length s = N | None \<Rightarrow> True \<Longrightarrow> length (input_a sel f x) = N"
  by (auto simp: input_a_def split: option.splits)

lemma level_range_net: "0 < r \<Longrightarrow> level_range (bk_depth (prefix_net r d)) = Some [0..<2 * r - 1]"
  by (simp only: level_range_def bk_depth_net nat_int) simp

lemma columns_scan:
  assumes "map snd ys = map (snd \<circ> snd) xs"
    and "map (\<lambda>y. in_dir d (R (fst y))) ys
      = map (\<lambda>s. run_levels r (L (snd (snd s))) (f (snd (snd s))) [0..<2 * r - 1] (in_dir d (u s))) xs"
    and "0 < r" and "\<And>g x y z. f g (f g x y) z = f g x (f g y z)"
    and "\<And>s. s \<in> set xs \<Longrightarrow> contiguous (2 ^ r) (L (snd (snd s))) \<and> length (u s) = 2 ^ r"
  shows "map (\<lambda>y. (R (fst y), snd y)) ys = map (\<lambda>s. (group_scan d (L (snd (snd s))) (f (snd (snd s))) (u s), snd (snd s))) xs"
proof (rule nth_equalityI)
  have l: "length ys = length xs" using assms(1) map_eq_imp_length_eq by blast
  then show "length (map (\<lambda>y. (R (fst y), snd y)) ys)
    = length (map (\<lambda>s. (group_scan d (L (snd (snd s))) (f (snd (snd s))) (u s), snd (snd s))) xs)" by simp
  fix i assume "i < length (map (\<lambda>y. (R (fst y), snd y)) ys)"
  then have i: "i < length ys" "i < length xs" using l by simp_all
  let ?s = "xs ! i"
  have c: "contiguous (2 ^ r) (L (snd (snd ?s)))" "length (u ?s) = 2 ^ r" using assms(5) [of ?s] i by simp_all
  have "in_dir d (R (fst (ys ! i))) = run_levels r (L (snd (snd ?s))) (f (snd (snd ?s))) [0..<2 * r - 1] (in_dir d (u ?s))"
    using arg_cong [OF assms(2), of "\<lambda>zs. zs ! i"] i by simp
  from run_levels_scan [OF c(1) assms(4) assms(3) c(2) this]
  have "R (fst (ys ! i)) = group_scan d (L (snd (snd ?s))) (f (snd (snd ?s))) (u ?s)" .
  moreover have "snd (ys ! i) = snd (snd ?s)" using arg_cong [OF assms(1), of "\<lambda>zs. zs ! i"] i by simp
  ultimately show "map (\<lambda>y. (R (fst y), snd y)) ys ! i
    = map (\<lambda>s. (group_scan d (L (snd (snd s))) (f (snd (snd s))) (u s), snd (snd s))) xs ! i" using i by simp
qed

definition agg_inputs ::
  "nat \<Rightarrow> nat \<Rightarrow> nat \<Rightarrow> 'a::len sharing list \<Rightarrow> 'a spec_b list \<Rightarrow> 'a spec_a list \<Rightarrow> 'a sharing option \<Rightarrow> bool" where
  "agg_inputs n k N ks sb sa sel \<longleftrightarrow> (ks = [] \<longrightarrow> sb \<noteq> [] \<or> sa \<noteq> []) \<and>
     (\<forall>c \<in> set ks. is_sharing n k 0 N c) \<and>
     (\<forall>s \<in> set sb. is_sharing n k 0 N (fst s) \<and> sh_size (fst (snd s)) = N \<and> a_prec (fst (snd s)) = 0) \<and>
     (\<forall>s \<in> set sa. is_sharing n k 0 N (fst s) \<and> sh_size (fst (snd s)) = N \<and> a_prec (fst (snd s)) = 0) \<and>
     (case sel of Some s \<Rightarrow> is_sharing n k 0 N s \<and> bit_shares s | None \<Rightarrow> True)"

definition agg_grouped :: "nat \<Rightarrow> 'a::len sharing list \<Rightarrow> 'a spec_b list \<Rightarrow> 'a spec_a list \<Rightarrow> 'a sharing option \<Rightarrow> bool" where
  "agg_grouped N ks sb sa sel \<longleftrightarrow>
     (\<forall>s \<in> set sb. contiguous N (label_b False (map reveal_b ks) (map_option reveal_b sel) (snd (snd s)))) \<and>
     (\<forall>s \<in> set sa. contiguous N (label_a False (map reveal_b ks) (map_option reveal_b sel) (snd (snd s))))"

definition scanned_b :: "bool \<Rightarrow> 'a::len sharing list \<Rightarrow> 'a sharing option \<Rightarrow> 'a spec_b \<Rightarrow> 'a vec" where
  "scanned_b d ks sel s = (let f = snd (snd s) in
     group_scan d (label_b d (map reveal_b ks) (map_option reveal_b sel) f) (op_b f) (reveal_b (fst s)))"

definition scanned_a :: "bool \<Rightarrow> 'a::len sharing list \<Rightarrow> 'a sharing option \<Rightarrow> 'a spec_a \<Rightarrow> 'a vec" where
  "scanned_a d ks sel s = (let f = snd (snd s) in
     group_scan d (label_a d (map reveal_b ks) (map_option reveal_b sel) f) (op_a f)
       (input_a (map_option reveal_b sel) f (reveal_a (fst s))))"

context arithmetic_protocol
begin

theorem aggregate_correct:
  fixes ks :: "'a sharing list"
  assumes ok: "ok st" and r: "0 < r" and inp: "agg_inputs n k (2 ^ r) ks sb sa sel" and grp: "agg_grouped (2 ^ r) ks sb sa sel"
    and pb: "pub_b [1] = Some one_b" "is_sharing n k 0 1 one_b" "reveal_b one_b = [1]"
    and pa: "pub_a [1] = Some one_a" "is_sharing n k 0 1 one_a" "reveal_a one_a = [1]"
  shows "\<exists>bs as st'. aggregate P pub_b pub_a ks sb sa dir sel st = Some ((bs, as), st') \<and> ok st' \<and>
    (\<forall>x \<in> set bs. is_sharing n k 0 (2 ^ r) (fst x)) \<and> (\<forall>x \<in> set as. is_sharing n k 0 (2 ^ r) (fst x)) \<and>
    map (\<lambda>x. (reveal_b (fst x), snd x)) bs = map (\<lambda>s. (scanned_b (dir = Reverse) ks sel s, snd (snd s))) sb \<and>
    map (\<lambda>x. (reveal_a (fst x), snd x)) as = map (\<lambda>s. (scanned_a (dir = Reverse) ks sel s, snd (snd s))) sa"
proof -
  let ?d = "dir = Reverse" and ?K = "map reveal_b ks" and ?S = "map_option reveal_b sel"
  have ks: "\<forall>c \<in> set ks. is_sharing n k 0 (2 ^ r) c"
    and sb: "\<forall>s \<in> set sb. is_sharing n k 0 (2 ^ r) (fst s) \<and> sh_size (fst (snd s)) = 2 ^ r \<and> a_prec (fst (snd s)) = 0"
    and sa: "\<forall>s \<in> set sa. is_sharing n k 0 (2 ^ r) (fst s) \<and> sh_size (fst (snd s)) = 2 ^ r \<and> a_prec (fst (snd s)) = 0"
    and sel: "case sel of Some s \<Rightarrow> is_sharing n k 0 (2 ^ r) s \<and> bit_shares s | None \<Rightarrow> True"
    and some: "ks = [] \<Longrightarrow> sb \<noteq> [] \<or> sa \<noteq> []"
    using inp by (simp_all add: agg_inputs_def)
  have sel': "case sel of Some s \<Rightarrow> is_sharing n k 0 (2 ^ r) s | None \<Rightarrow> True" using sel by (auto split: option.splits)
  have sz: "aggregation_size ks sb sa = Some (2 ^ r)"
    using ks sb sa some size_is by (cases ks; cases sb; cases sa) (auto simp: aggregation_size_def)
  have pow: "is_power_of_two (2 ^ r)" by (simp add: is_power_of_two_def log2_floor_power)
  have lK: "\<forall>c \<in> set ?K. length c = 2 ^ r" using ks len by auto
  have lS: "case ?S of Some s \<Rightarrow> length s = 2 ^ r | None \<Rightarrow> True" using sel' len by (auto split: option.splits)
  obtain as0 st1 where a0: "init_a P (2 ^ r) one_a sel sa st = Some (as0, st1)" "ok st1" "map snd as0 = map (snd \<circ> snd) sa"
    "\<forall>x \<in> set as0. is_sharing n k 0 (2 ^ r) (fst x)" "map (\<lambda>x. reveal_a (fst x)) as0 = map (\<lambda>s. input_a ?S (snd (snd s)) (reveal_a (fst s))) sa"
    using init_a_correct [OF ok pa(2,3) sel' sa] by blast
  define bs0 where "bs0 = map (\<lambda>s. (fst s, snd (snd s))) sb"
  have b0: "init_b sb = Some bs0" "\<forall>x \<in> set bs0. is_sharing n k 0 (2 ^ r) (fst x)"
    using init_b_correct [of sb "2 ^ r"] sb by (auto simp: bs0_def)
  have below: "\<forall>l \<in> set [0..<2 * r - 1]. l < 2 * r - 1" by simp
  obtain bs as st2 where L: "aggregate_levels P (prefix_net r ?d) one_b one_a ks sel [0..<2 * r - 1] (bs0, as0) st1 = Some ((bs, as), st2)" "ok st2"
    "map snd bs = map snd bs0" "map snd as = map snd as0"
    "\<forall>x \<in> set bs. is_sharing n k 0 (2 ^ r) (fst x)" "\<forall>x \<in> set as. is_sharing n k 0 (2 ^ r) (fst x)"
    "map (\<lambda>x. in_dir ?d (reveal_b (fst x))) bs = map (\<lambda>x. run_levels r (label_b ?d ?K ?S (snd x)) (op_b (snd x)) [0..<2 * r - 1] (in_dir ?d (reveal_b (fst x)))) bs0"
    "map (\<lambda>x. in_dir ?d (reveal_a (fst x))) as = map (\<lambda>x. run_levels r (label_a ?d ?K ?S (snd x)) (op_a (snd x)) [0..<2 * r - 1] (in_dir ?d (reveal_a (fst x)))) as0"
    using aggregate_levels_correct [OF a0(2) r ks pb(2,3) pa(2,3) sel b0(2) a0(4) below] by blast
  have run: "aggregate P pub_b pub_a ks sb sa dir sel st = Some ((bs, as), st2)"
    using sz pow pb(1) pa(1) a0(1) b0(1) L(1) level_range_net [OF r]
    by (simp add: aggregate_def prefix_network_new_def)
  have B: "map (\<lambda>x. (reveal_b (fst x), snd x)) bs = map (\<lambda>s. (scanned_b ?d ks sel s, snd (snd s))) sb"
    unfolding scanned_b_def Let_def
  proof (rule columns_scan [OF _ _ r op_b_assoc])
    show "map snd bs = map (snd \<circ> snd) sb" using L(3) by (simp add: bs0_def comp_def)
    show "map (\<lambda>x. in_dir ?d (reveal_b (fst x))) bs = map (\<lambda>s. run_levels r (label_b ?d ?K ?S (snd (snd s))) (op_b (snd (snd s)))
      [0..<2 * r - 1] (in_dir ?d (reveal_b (fst s)))) sb" using L(7) by (simp add: bs0_def comp_def)
    show "contiguous (2 ^ r) (label_b ?d ?K ?S (snd (snd s))) \<and> length (reveal_b (fst s)) = 2 ^ r" if "s \<in> set sb" for s
      using grp sb that len lK lS contiguous_row_label [of ?K "2 ^ r" _ ?d] by (auto simp: agg_grouped_def label_b_def)
  qed
  have A: "map (\<lambda>x. (reveal_a (fst x), snd x)) as = map (\<lambda>s. (scanned_a ?d ks sel s, snd (snd s))) sa"
    unfolding scanned_a_def Let_def
  proof (rule columns_scan [OF _ _ r op_a_assoc])
    show "map snd as = map (snd \<circ> snd) sa" using L(4) a0(3) by simp
    show "map (\<lambda>x. in_dir ?d (reveal_a (fst x))) as = map (\<lambda>s. run_levels r (label_a ?d ?K ?S (snd (snd s))) (op_a (snd (snd s)))
      [0..<2 * r - 1] (in_dir ?d (input_a ?S (snd (snd s)) (reveal_a (fst s))))) sa"
      unfolding L(8) using map_after [OF a0(3,5), of "\<lambda>f x. run_levels r (label_a ?d ?K ?S f) (op_a f) [0..<2 * r - 1] (in_dir ?d x)"]
      by simp
    show "contiguous (2 ^ r) (label_a ?d ?K ?S (snd (snd s))) \<and> length (input_a ?S (snd (snd s)) (reveal_a (fst s))) = 2 ^ r"
      if "s \<in> set sa" for s
    proof
      show "contiguous (2 ^ r) (label_a ?d ?K ?S (snd (snd s)))"
        using grp that lK lS contiguous_row_label [of ?K "2 ^ r" _ ?d] by (auto simp: agg_grouped_def label_a_def)
      show "length (input_a ?S (snd (snd s)) (reveal_a (fst s))) = 2 ^ r"
        using sa that length_reveal(2) [OF _ pos] lS by (intro length_input_a) blast+
    qed
  qed
  show ?thesis using run L(2,5,6) A B by blast
qed

end

end
