(* ===== verification/Prefix_Sums.thy ===== *)
theory Prefix_Sums
  imports Aggregation_Proofs
begin

text \<open>
  \<open>tree_prefix_sum\<close> computes prefix sums (suffix sums in reverse): after the distances \<open>n/2, \<dots>, D\<close> every position
  holds the sum of the positions before it that lie a multiple of \<open>D\<close> apart.  \<open>distinct\<close> marks the first row of
  every run of equal keys.
\<close>

section \<open>Sums along a stride\<close>

function strided :: "nat \<Rightarrow> 'b::comm_monoid_add list \<Rightarrow> nat \<Rightarrow> 'b" where
  "strided D x j = (if D = 0 \<or> j < D then x ! j else x ! j + strided D x (j - D))"
  by auto
termination by (relation "measure (\<lambda>(D, x, j). j)") auto

declare strided.simps [simp del]

lemma strided_less: "j < D \<Longrightarrow> strided D x j = x ! j"
  by (subst strided.simps) simp

lemma strided_step: "0 < D \<Longrightarrow> D \<le> j \<Longrightarrow> strided D x j = x ! j + strided D x (j - D)"
  by (subst strided.simps) simp

lemma strided_halve:
  "0 < d \<Longrightarrow> strided d x j = strided (2 * d) x j + (if d \<le> j then strided (2 * d) x (j - d) else 0)"
proof (induction j rule: less_induct)
  case (less j)
  consider "j < d" | "d \<le> j" "j < 2 * d" | "2 * d \<le> j" by linarith
  then show ?case
  proof cases
    case 1
    then show ?thesis by (simp add: strided_less)
  next
    case 2
    have "j - d < d" using 2 by linarith
    then show ?thesis using 2 less.prems by (simp add: strided_step [of d j] strided_less)
  next
    case 3
    have l: "strided d x (j - d) = strided (2 * d) x (j - d) + (if d \<le> j - d then strided (2 * d) x (j - d - d) else 0)"
      using less.IH [of "j - d"] less.prems 3 by simp
    have e: "j - d - d = j - 2 * d" "d \<le> j - d" "d \<le> j" using 3 by simp_all
    have "strided (2 * d) x j = x ! j + strided (2 * d) x (j - 2 * d)" using less.prems 3 by (intro strided_step) simp_all
    moreover have "strided d x j = x ! j + strided d x (j - d)" using less.prems e(3) by (intro strided_step)
    ultimately show ?thesis using l e by (simp only: if_True add.assoc add.commute add.left_commute)
  qed
qed

lemma strided_one: "j < length x \<Longrightarrow> strided 1 x j = sum_list (take (Suc j) x)"
proof (induction j)
  case 0
  then show ?case by (cases x) (simp_all add: strided_less)
next
  case (Suc j)
  then show ?case using strided_step [of 1 "Suc j" x] by (simp add: take_Suc_conv_app_nth [of "Suc j"] add.commute)
qed

section \<open>One distance\<close>

lemma slice_positions:
  assumes "start \<le> stop" and "stop \<le> total_size v"
  shows "\<exists>u. slice start stop v = Some u \<and> positions u = take (stop - start) (drop start (positions v))"
  using assms by (auto simp: slice_def positions_def total_size_def Let_def min_def split: option.splits)

definition shift_pairs :: "nat \<Rightarrow> nat \<Rightarrow> (nat \<times> nat) list" where
  "shift_pairs N d = map (\<lambda>k. (k, k + d)) [0..<N - d]"

lemma shift_views:
  assumes "positions y = map (at_dir b N) [0..<N]" and "d \<le> N"
  shows "\<exists>va vb. slice 0 (N - d) y = Some va \<and> slice_from d y = Some vb \<and> shows_pairs b N (shift_pairs N d) va vb"
proof -
  have n: "total_size y = N" using assms(1) length_positions [of y] by simp
  obtain va where va: "slice 0 (N - d) y = Some va" "positions va = take (N - d) (positions y)"
    using slice_positions [of 0 "N - d" y] n by auto
  obtain vb where vb: "slice d N y = Some vb" "positions vb = take (N - d) (drop d (positions y))"
    using slice_positions [of d N y] n assms(2) by auto
  have "drop d [0..<N] = map (\<lambda>k. k + d) [0..<N - d]" using assms(2) by (simp add: map_add_upt)
  then have "positions vb = map (\<lambda>k. at_dir b N (k + d)) [0..<N - d]"
    unfolding vb(2) assms(1) by (simp add: drop_map take_map comp_def)
  moreover have "positions va = map (at_dir b N) [0..<N - d]" unfolding va(2) assms(1) by (simp add: take_map)
  ultimately have "shows_pairs b N (shift_pairs N d) va vb" by (simp add: shows_pairs_def shift_pairs_def comp_def)
  then show ?thesis using va(1) vb(1) n by (simp add: slice_from_def)
qed

lemma shift_step:
  fixes v :: "'a::len sharing"
  assumes v: "is_sharing n k q N v" and pos: "0 < k" "0 < n" and p: "shows_pairs b N (shift_pairs N d) va vb" and d: "d \<le> N"
  shows "is_sharing n k q N (sh_set vb (add_a (sh_get vb v) (sh_get va v)) v)"
    and "j < N \<Longrightarrow> in_dir b (reveal_a (sh_set vb (add_a (sh_get vb v) (sh_get va v)) v)) ! j
      = in_dir b (reveal_a v) ! j + (if d \<le> j then in_dir b (reveal_a v) ! (j - d) else 0)"
proof -
  let ?ps = "shift_pairs N d" and ?x = "reveal_a v"
  have below: "s < N \<and> t < N" if "(s, t) \<in> set ?ps" for s t using that by (auto simp: shift_pairs_def)
  have dist: "distinct (map snd ?ps)" by (auto simp: shift_pairs_def distinct_map inj_on_def)
  have ixa: "\<forall>i \<in> set (positions va). i < N" and ixb: "\<forall>i \<in> set (positions vb). i < N"
    using p below at_dir_less by (auto simp: shows_pairs_def)
  note ga = get_sharing [OF v pos ixa, unfolded shows_pairs_size [OF p]]
    and gb = get_sharing [OF v pos ixb, unfolded shows_pairs_size [OF p]]
  note U = add_sharing [OF gb(1) ga(1) pos]
  let ?ix = "map (\<lambda>(s, t). at_dir b N t) ?ps"
  have vb: "positions vb = ?ix" using p by (simp add: shows_pairs_def)
  have "inj_on (at_dir b N) (set (map snd ?ps))" using at_dir_inj [of _ N] below by (intro inj_onI) auto
  then have d': "distinct (map (at_dir b N) (map snd ?ps))" using dist by (subst distinct_map) simp
  have "?ix = map (at_dir b N) (map snd ?ps)" by (simp add: case_prod_beta)
  then have "distinct ?ix" using d' by (simp only:)
  note S = set_sharing [OF v _ pos this ixb [unfolded vb] vb, of q "add_a (sh_get vb v) (sh_get va v)", unfolded length_map, OF U(1)]
  show "is_sharing n k q N (sh_set vb (add_a (sh_get vb v) (sh_get va v)) v)" by (rule S(1))
  have l: "length ?x = N" "length (reveal_a (add_a (sh_get vb v) (sh_get va v))) = length ?ps"
    using length_reveal(2) [OF v pos] length_reveal(2) [OF U(1) pos] by simp_all
  have u: "reveal_a (add_a (sh_get vb v) (sh_get va v)) ! i = (if () = ()
      then (\<lambda>s t. t + s) (in_dir b ?x ! fst (?ps ! i)) (in_dir b ?x ! snd (?ps ! i)) else in_dir b ?x ! snd (?ps ! i))"
    if "i < length ?ps" for i
    using that view_get_pairs [OF p l(1) below that] U(2) ga(3) gb(3) length_reveal(2) [OF ga(1) pos] length_reveal(2) [OF gb(1) pos]
    by simp
  have e: "in_dir b (reveal_a (sh_set vb (add_a (sh_get vb v) (sh_get va v)) v)) = agg_level (\<lambda>_. ()) (\<lambda>s t. t + s) ?ps (in_dir b ?x)"
    unfolding S(3) by (rule level_scatter [OF dist below l u])
  assume j: "j < N"
  show "in_dir b (reveal_a (sh_set vb (add_a (sh_get vb v) (sh_get va v)) v)) ! j
      = in_dir b ?x ! j + (if d \<le> j then in_dir b ?x ! (j - d) else 0)"
  proof (cases "d \<le> j")
    case True
    then have "(j - d, j) \<in> set ?ps" using j by (auto simp: shift_pairs_def image_iff intro!: bexI [of _ "j - d"])
    then show ?thesis unfolding e using nth_agg_level(1) [OF dist, of j "in_dir b ?x" "j - d" "\<lambda>_. ()" "\<lambda>s t. t + s"] True j l(1) by simp
  next
    case False
    then have "j \<notin> snd ` set ?ps" by (auto simp: shift_pairs_def)
    then show ?thesis unfolding e using nth_agg_level(2) [OF dist, of j "in_dir b ?x" "\<lambda>_. ()" "\<lambda>s t. t + s"] False j l(1) by simp
  qed
qed

section \<open>The prefix sum\<close>

lemma prefix_sum_loop_correct:
  fixes v :: "'a::len sharing"
  assumes "is_sharing n k q (2 ^ r) v" and pos: "0 < k" "0 < n" and "i \<le> r"
    and "\<And>j. j < 2 ^ r \<Longrightarrow> in_dir b (reveal_a v) ! j = strided (2 ^ (r - i)) x j"
  shows "\<exists>w. prefix_sum_loop b (2 ^ r) [Suc i..<Suc r] v = Some w \<and> is_sharing n k q (2 ^ r) w \<and>
    (\<forall>j < 2 ^ r. in_dir b (reveal_a w) ! j = strided 1 x j)"
  using assms(1,4,5)
proof (induction "r - i" arbitrary: i v)
  case 0
  then show ?case by simp
next
  case (Suc m)
  then have i: "Suc i \<le> r" by simp
  obtain y where y: "(if b then directed_subset_reference (- 1) (base (2 ^ r)) else Some (base (2 ^ r))) = Some y"
    "positions y = map (at_dir b (2 ^ r)) [0..<2 ^ r]" using start_view by blast
  let ?d = "2 ^ (r - Suc i) :: nat"
  have d: "2 ^ r div 2 ^ Suc i = ?d" using i by (simp add: power_diff)
  have dd: "2 * ?d = 2 ^ (r - i)" "?d \<le> 2 ^ r" using i by (simp_all add: Suc_diff_Suc flip: power_Suc)
  obtain va vb where v: "slice 0 (2 ^ r - ?d) y = Some va" "slice_from ?d y = Some vb" "shows_pairs b (2 ^ r) (shift_pairs (2 ^ r) ?d) va vb"
    using shift_views [OF y(2) dd(2)] by blast
  let ?w = "sh_set vb (add_a (sh_get vb v) (sh_get va v)) v"
  note s = shift_step [OF Suc.prems(1) pos v(3) dd(2)]
  have "in_dir b (reveal_a ?w) ! j = strided ?d x j" if "j < 2 ^ r" for j
    using s(2) [OF that] strided_halve [of ?d x j] that Suc.prems(3) [OF that] Suc.prems(3) [of "j - ?d"] dd(1) by simp
  moreover have m: "m = r - Suc i" using Suc.hyps(2) by linarith
  ultimately obtain w where w: "prefix_sum_loop b (2 ^ r) [Suc (Suc i)..<Suc r] ?w = Some w" "is_sharing n k q (2 ^ r) w"
    "\<forall>j < 2 ^ r. in_dir b (reveal_a w) ! j = strided 1 x j"
    using Suc.hyps(1) [OF m s(1) i] by blast
  have "[Suc i..<Suc r] = Suc i # [Suc (Suc i)..<Suc r]" using i by (simp add: upt_conv_Cons del: upt_Suc)
  then have "prefix_sum_loop b (2 ^ r) [Suc i..<Suc r] v = Some w" using y(1) v(1,2) w(1) d by (simp del: upt_Suc power_Suc)
  then show ?case using w(2,3) by blast
qed

lemma bit_width_pow: "bit_width (2 ^ r) = Suc r"
proof (induction r)
  case (Suc r)
  then show ?case by (subst bit_width.simps) simp
qed (simp add: bit_width.simps)

theorem tree_prefix_sum_correct:
  fixes v :: "'a::len sharing"
  assumes v: "is_sharing n k q (2 ^ r) v" and pos: "0 < k" "0 < n"
  shows "\<exists>w. tree_prefix_sum v b = Some w \<and> is_sharing n k q (2 ^ r) w \<and>
    reveal_a w = in_dir b (map (\<lambda>j. sum_list (take (Suc j) (in_dir b (reveal_a v)))) [0..<2 ^ r])"
proof -
  let ?x = "in_dir b (reveal_a v)"
  have l: "length (reveal_a v) = 2 ^ r" using length_reveal(2) [OF v pos] .
  have sz: "sh_size v = 2 ^ r" using is_sharing_size [OF v] pos by (simp add: sh_size_def)
  have "?x ! j = strided (2 ^ (r - 0)) ?x j" if "j < 2 ^ r" for j using that by (simp add: strided_less)
  then obtain w where w: "prefix_sum_loop b (2 ^ r) [Suc 0..<Suc r] v = Some w" "is_sharing n k q (2 ^ r) w"
    "\<forall>j < 2 ^ r. in_dir b (reveal_a w) ! j = strided 1 ?x j"
    using prefix_sum_loop_correct [OF v pos, of 0 b ?x] by blast
  have "in_dir b (reveal_a w) = map (\<lambda>j. sum_list (take (Suc j) ?x)) [0..<2 ^ r]"
    using w(3) strided_one [of _ ?x] l length_reveal(2) [OF w(2) pos] by (intro nth_equalityI) simp_all
  then have "reveal_a w = in_dir b (map (\<lambda>j. sum_list (take (Suc j) ?x)) [0..<2 ^ r])" by (metis in_dir_in_dir)
  moreover have "tree_prefix_sum v b = Some w"
    using w(1) by (simp add: tree_prefix_sum_def sz bit_width_pow is_power_of_two_def log2_floor_power Let_def del: upt_Suc)
  ultimately show ?thesis using w(2) by blast
qed

section \<open>Distinct rows\<close>

lemma slice_base:
  assumes "start \<le> stop" and "stop \<le> N"
  shows "\<exists>u. slice start stop (base N) = Some u \<and> positions u = [start..<stop]"
  using slice_positions [of start stop "base N"] assms by (simp add: take_upt)

lemma scatter_upt:
  assumes "length u = stop - start" and "start \<le> stop" and "stop \<le> length d" and "j < length d"
  shows "scatter [start..<stop] u d ! j = (if start \<le> j \<and> j < stop then u ! (j - start) else d ! j)"
proof (cases "start \<le> j \<and> j < stop")
  case True
  then show ?thesis using assms nth_scatter [of "[start..<stop]" u "j - start" d] by auto
next
  case False
  then show ?thesis by (auto intro!: nth_scatter_other)
qed

context arithmetic_protocol
begin

lemma distinct_loop_correct:
  fixes R :: "'a sharing"
  assumes "ok st" and "\<forall>c \<in> set ks. is_sharing n k q N c" and "0 < N"
    and "is_sharing n k 0 (N - 1) R" and "reveal_b R = map (\<lambda>j. of_bool (g j)) [0..<N - 1]"
  shows "\<exists>R' st'. distinct_loop P ks R st = Some (R', st') \<and> ok st' \<and> is_sharing n k 0 (N - 1) R' \<and>
    reveal_b R' = map (\<lambda>j. of_bool (g j \<or> (\<exists>c \<in> set ks. reveal_b c ! j \<noteq> reveal_b c ! Suc j))) [0..<N - 1]"
  using assms(1,2,4,5)
proof (induction ks arbitrary: st R g)
  case (Cons c ks)
  have c: "is_sharing n k q N c" using Cons.prems(2) by simp
  obtain va vb where v: "slice 0 (N - 1) (base N) = Some va" "positions va = [0..<N - 1]"
    "slice 1 N (base N) = Some vb" "positions vb = [1..<N]" using slice_base [of 0 "N - 1" N] slice_base [of 1 N N] assms(3) by auto
  have t: "total_size va = N - 1" "total_size vb = N - 1" using v(2,4) length_positions [of va] length_positions [of vb] by simp_all
  have ix: "\<forall>i \<in> set (positions va). i < N" "\<forall>i \<in> set (positions vb). i < N" using v(2,4) by auto
  note ga = get_sharing [OF c pos ix(1), unfolded t] and gb = get_sharing [OF c pos ix(2), unfolded t]
  obtain E st1 where E: "b_ne P (sh_get va c) (sh_get vb c) st = Some (E, st1)" "ok st1" "is_sharing n k 0 (N - 1) E"
    "reveal_b E = map2 (\<lambda>x y. of_bool (\<not> x = y)) (reveal_b (sh_get va c)) (reveal_b (sh_get vb c))"
    using b_orders_correct(3) [OF Cons.prems(1) ga(1) gb(1)] by blast
  have e: "reveal_b E = map (\<lambda>j. of_bool (reveal_b c ! j \<noteq> reveal_b c ! Suc j)) [0..<N - 1]"
    unfolding E(4) ga(2) gb(2) view_get_def v(2,4) by (rule nth_equalityI) simp_all
  obtain R1 st2 where R1: "or_b P R E st1 = Some (R1, st2)" "ok st2" "is_sharing n k 0 (N - 1) R1"
    "reveal_b R1 = map2 (OR) (reveal_b R) (reveal_b E)" using or_b_correct [OF E(2) Cons.prems(3) E(3)] by blast
  have r1: "reveal_b R1 = map (\<lambda>j. of_bool (g j \<or> reveal_b c ! j \<noteq> reveal_b c ! Suc j)) [0..<N - 1]"
    unfolding R1(4) Cons.prems(4) e by (rule nth_equalityI) auto
  obtain R' st' where R': "distinct_loop P ks R1 st2 = Some (R', st')" "ok st'" "is_sharing n k 0 (N - 1) R'"
    "reveal_b R' = map (\<lambda>j. of_bool ((g j \<or> reveal_b c ! j \<noteq> reveal_b c ! Suc j) \<or> (\<exists>c \<in> set ks. reveal_b c ! j \<noteq> reveal_b c ! Suc j))) [0..<N - 1]"
    using Cons.IH [OF R1(2) _ R1(3) r1] Cons.prems(2) by auto
  have "distinct_loop P (c # ks) R st = Some (R', st')"
    using v(1,3) E(1) R1(1) R'(1) size_is [OF c] by (simp add: slice_from_def)
  then show ?case using R' by (simp add: disj_assoc)
qed simp

theorem distinct_correct:
  fixes ks :: "'a sharing list"
  assumes ok: "ok st" and ks: "ks \<noteq> []" "\<forall>c \<in> set ks. is_sharing n k q N c" and N: "0 < N"
    and res: "is_sharing n k 0 N res" and pb: "pub_b [1] = Some one_b" "is_sharing n k 0 1 one_b" "reveal_b one_b = [1]"
  shows "\<exists>R st'. distinct_rows P pub_b ks res st = Some (R, st') \<and> ok st' \<and> is_sharing n k 0 N R \<and>
    reveal_b R = map (\<lambda>j. of_bool (j = 0 \<or> (\<exists>c \<in> set ks. reveal_b c ! (j - 1) \<noteq> reveal_b c ! j))) [0..<N]"
proof -
  have sz: "sh_size res = N" using size_is [OF res] .
  let ?Z = "p_construct_like res N"
  note Z = construct_sharing [OF res pos, of N]
  obtain vf where vf: "slice 0 1 (base N) = Some vf" "positions vf = [0..<1]" using slice_base [of 0 1 N] N by auto
  obtain vr where vr: "slice 1 N (base N) = Some vr" "positions vr = [1..<N]" using slice_base [of 1 N N] N by auto
  have one: "is_sharing n k 0 (length [0..<1]) one_b" using pb(2) by simp
  have tf: "distinct [0..<1]" "\<forall>i \<in> set [0..<1]. i < N" "distinct [1..<N]" "\<forall>i \<in> set [1..<N]. i < N" using N by auto
  let ?F = "sh_set vf one_b ?Z"
  note F = set_sharing(1,2) [OF Z(1) one pos tf(1,2) vf(2)]
  have t: "total_size vr = N - 1" using vr(2) length_positions [of vr] by simp
  note g = get_sharing(1,2) [OF F(1) pos tf(4) [folded vr(2)], unfolded t]
  have f: "reveal_b ?F ! j = of_bool (j = 0)" if "j < N" for j
    unfolding F(2) Z(2) pb(3) using that scatter_upt [of "[1]" 1 0 "replicate N 0" j] N by auto
  have z: "reveal_b (sh_get vr ?F) = map (\<lambda>j. of_bool False) [0..<N - 1]"
    unfolding g(2) view_get_def vr(2) using f by (intro nth_equalityI) simp_all
  obtain R st' where R: "distinct_loop P ks (sh_get vr ?F) st = Some (R, st')" "ok st'" "is_sharing n k 0 (N - 1) R"
    "reveal_b R = map (\<lambda>j. of_bool (False \<or> (\<exists>c \<in> set ks. reveal_b c ! j \<noteq> reveal_b c ! Suc j))) [0..<N - 1]"
    using distinct_loop_correct [OF ok ks(2) N g(1) z] by blast
  have R': "is_sharing n k 0 (length [1..<N]) R" using R(3) by simp
  note W = set_sharing(1,2) [OF F(1) R' pos tf(3,4) vr(2)]
  have "reveal_b (sh_set vr R ?F) = map (\<lambda>j. of_bool (j = 0 \<or> (\<exists>c \<in> set ks. reveal_b c ! (j - 1) \<noteq> reveal_b c ! j))) [0..<N]"
  proof (rule nth_equalityI)
    show "length (reveal_b (sh_set vr R ?F))
      = length (map (\<lambda>j. of_bool (j = 0 \<or> (\<exists>c \<in> set ks. reveal_b c ! (j - 1) \<noteq> reveal_b c ! j))) [0..<N])" using len [OF W(1)] by simp
    fix j assume "j < length (reveal_b (sh_set vr R ?F))"
    then have j: "j < N" using len [OF W(1)] by simp
    have "reveal_b (sh_set vr R ?F) ! j = (if 1 \<le> j then reveal_b R ! (j - 1) else reveal_b ?F ! j)"
      unfolding W(2) using scatter_upt [of "reveal_b R" N 1 "reveal_b ?F" j] j N len [OF R(3)] len [OF F(1)] by simp
    then show "reveal_b (sh_set vr R ?F) ! j
      = map (\<lambda>j. of_bool (j = 0 \<or> (\<exists>c \<in> set ks. reveal_b c ! (j - 1) \<noteq> reveal_b c ! j))) [0..<N] ! j"
      using j f [OF j] R(4) by (cases j) auto
  qed
  moreover have "distinct_rows P pub_b ks res st = Some (sh_set vr R ?F, st')"
    using ks(1) N sz size_is [OF Z(1)] size_is [OF F(1)] vf(1) vr(1) pb(1) R(1) by (simp add: distinct_rows_def slice_from_def Let_def)
  ultimately show ?thesis using R(2) W(1) by blast
qed

text \<open>A result column of another precision: the first disjunction throws.\<close>

theorem distinct_mismatch:
  fixes ks :: "'a sharing list"
  assumes mismatch: "\<And>m X Y st. is_sharing n k q m X \<Longrightarrow> is_sharing n k 0 m Y \<Longrightarrow> 0 < m \<Longrightarrow> v_and_b P X Y st = None"
    and ok: "ok st" and ks: "ks \<noteq> []" "\<forall>c \<in> set ks. is_sharing n k q' N c" and N: "1 < N"
    and res: "is_sharing n k q N res" and pb: "pub_b [1] = Some one_b" "is_sharing n k 0 1 one_b"
  shows "distinct_rows P pub_b ks res st = None"
proof -
  let ?Z = "p_construct_like res N"
  note Z = construct_sharing [OF res pos, of N]
  obtain vf where vf: "slice 0 1 (base N) = Some vf" "positions vf = [0..<1]" using slice_base [of 0 1 N] N by auto
  obtain va where va: "slice 0 (N - 1) (base N) = Some va" "positions va = [0..<N - 1]" using slice_base [of 0 "N - 1" N] N by auto
  obtain vr where vr: "slice 1 N (base N) = Some vr" "positions vr = [1..<N]" using slice_base [of 1 N N] N by auto
  have one: "is_sharing n k 0 (length [0..<1]) one_b" using pb(2) by simp
  have tf: "distinct [0..<1]" "\<forall>i \<in> set [0..<1]. i < N" using N by auto
  let ?F = "sh_set vf one_b ?Z"
  note F = set_sharing(1) [OF Z(1) one pos tf vf(2)]
  have t: "total_size vr = N - 1" "total_size va = N - 1"
    using va(2) vr(2) length_positions [of va] length_positions [of vr] by simp_all
  have ix: "\<forall>i \<in> set (positions va). i < N" "\<forall>i \<in> set (positions vr). i < N" using va(2) vr(2) by auto
  note g = get_sharing(1) [OF F pos ix(2), unfolded t]
  obtain c cs where c: "ks = c # cs" "is_sharing n k q' N c" using ks by (cases ks) auto
  note gc = get_sharing(1) [OF c(2) pos ix(1), unfolded t] get_sharing(1) [OF c(2) pos ix(2), unfolded t]
  obtain E st1 where E: "b_ne P (sh_get va c) (sh_get vr c) st = Some (E, st1)" "is_sharing n k 0 (N - 1) E"
    using b_orders_correct(3) [OF ok gc] by blast
  have "or_b P (sh_get vr ?F) E st1 = None"
    using mismatch [OF not_sharing(1) [OF g] not_sharing(1) [OF E(2)]] N by (simp add: or_b_def)
  then have "distinct_loop P ks (sh_get vr ?F) st = None"
    using va(1) vr(1) E(1) size_is [OF c(2)] by (simp add: c(1) slice_from_def)
  then show ?thesis
    using ks(1) N size_is [OF res] size_is [OF Z(1)] size_is [OF F] vf(1) vr(1) pb(1) by (simp add: distinct_rows_def slice_from_def Let_def)
qed

end

end
