(* ===== verification/Group_By.thy ===== *)
theory Group_By
  imports Prefix_Sums
begin

text \<open>
  Sorting composed with aggregation, the way tables are grouped: after a sort by the keys equal keys are adjacent, so
  the aggregation's groups are the sets of rows with equal keys, and the last row of every group holds the
  aggregate of all rows with its key.
\<close>

section \<open>Sorted rows are grouped\<close>

lemma signed_key_inj:
  assumes "signed_key order u = signed_key order v" and "length u = length order" and "length v = length order"
  shows "u = v"
proof (rule nth_equalityI)
  fix i assume "i < length u"
  then have "i < length order" "signed_key order u ! i = signed_key order v ! i" using assms by simp_all
  then show "u ! i = v ! i" using assms(2,3) by (auto simp: signed_key_def intro: signed_word_eqI split: if_splits)
qed (use assms in simp)

lemma sorted_contiguous:
  assumes "sorted (map (row_key order) R)" and "\<forall>x \<in> set R. length (fst x) = length order"
  shows "contiguous (length R) (\<lambda>p. fst (R ! p))"
  unfolding contiguous_def
proof (intro allI impI)
  fix i j l assume h: "i < j" "j < l" "l < length R" "fst (R ! i) = fst (R ! l)"
  have "row_key order (R ! i) \<le> row_key order (R ! j)" "row_key order (R ! j) \<le> row_key order (R ! l)"
    using assms(1) h sorted_nth_mono [of "map (row_key order) R" i j] sorted_nth_mono [of "map (row_key order) R" j l] by simp_all
  then have "signed_key order (fst (R ! j)) = signed_key order (fst (R ! l))" using h(4) by (simp add: row_key_def)
  then show "fst (R ! j) = fst (R ! l)" using assms(2) h by (intro signed_key_inj) simp_all
qed

section \<open>Sums of groups\<close>

lemma seg_scan_sum:
  assumes "contiguous N L" and "j < N"
  shows "seg_scan L (\<lambda>s t. t + s) x j = (\<Sum>i | i \<le> j \<and> L i = L j. x ! i :: 'b::comm_monoid_add)"
  using assms(2)
proof (induction j)
  case 0
  have "{i :: nat. i \<le> 0 \<and> L i = L 0} = {0}" by auto
  then show ?case by simp
next
  case (Suc j)
  show ?case
  proof (cases "L j = L (Suc j)")
    case True
    then have "{i. i \<le> Suc j \<and> L i = L (Suc j)} = insert (Suc j) {i. i \<le> j \<and> L i = L j}" by (auto simp: le_Suc_eq)
    then show ?thesis using Suc True by simp
  next
    case False
    have "i = Suc j" if "i \<le> Suc j" "L i = L (Suc j)" for i
    proof (rule ccontr)
      assume "i \<noteq> Suc j"
      then have "i < j \<or> i = j" using that(1) by linarith
      then show False using assms(1) that(2) False Suc.prems unfolding contiguous_def by blast
    qed
    then have "{i. i \<le> Suc j \<and> L i = L (Suc j)} = {Suc j}" by auto
    then show ?thesis using False by simp
  qed
qed

lemma group_end:
  assumes "contiguous N L" and "j < N" and "Suc j = N \<or> L (Suc j) \<noteq> L j"
  shows "{i. i \<le> j \<and> L i = L j} = {i. i < N \<and> L i = L j}"
proof -
  have "i \<le> j" if "i < N" "L i = L j" for i
  proof (rule ccontr)
    assume "\<not> i \<le> j"
    then have "i = Suc j \<or> Suc j < i" by linarith
    then show False using assms that unfolding contiguous_def by (metis Suc_lessD lessI not_less_eq order_less_irrefl)
  qed
  then show ?thesis using assms(2) by auto
qed

lemma sum_rows: "(\<Sum>i | i < length R \<and> P (R ! i). h (R ! i) :: 'b::comm_monoid_add) = (\<Sum>x \<leftarrow> R. if P x then h x else 0)"
proof -
  have "(\<Sum>x \<leftarrow> R. if P x then h x else 0) = (\<Sum>i < length R. if P (R ! i) then h (R ! i) else 0)"
    by (simp add: sum_list_sum_nth atLeast0LessThan)
  also have "\<dots> = (\<Sum>i \<in> {..<length R} \<inter> {i. P (R ! i)}. h (R ! i))" by (simp add: sum.inter_restrict)
  also have "{..<length R} \<inter> {i. P (R ! i)} = {i. i < length R \<and> P (R ! i)}" by auto
  finally show ?thesis by simp
qed

lemma group_scan_total:
  assumes "contiguous (length R) (\<lambda>p. fst (R ! p))" and "length x = length R" and "\<And>i. i < length R \<Longrightarrow> x ! i = h (R ! i)"
    and "\<And>p p'. p < length R \<Longrightarrow> p' < length R \<Longrightarrow> (L p = L p') = (fst (R ! p) = fst (R ! p'))"
    and "j < length R" and "Suc j = length R \<or> fst (R ! Suc j) \<noteq> fst (R ! j)" and "mset R = mset R'"
  shows "group_scan False L (\<lambda>s t. t + s) x ! j = (\<Sum>r \<leftarrow> R'. if fst r = fst (R ! j) then h r else 0 :: 'b::comm_monoid_add)"
proof -
  let ?K = "\<lambda>p. fst (R ! p)"
  have L: "contiguous (length R) L"
    unfolding contiguous_def
  proof (intro allI impI)
    fix i j l assume h: "i < j" "j < l" "l < length R" "L i = L l"
    then have "?K i = ?K l" using assms(4) [of i l] by simp
    then have "?K j = ?K l" using assms(1) h unfolding contiguous_def by blast
    then show "L j = L l" using assms(4) [of j l] h by simp
  qed
  have "group_scan False L (\<lambda>s t. t + s) x ! j = (\<Sum>i | i \<le> j \<and> L i = L j. x ! i)"
    using seg_scan_sum [OF L assms(5)] assms(2,5) by (simp add: group_scan_def in_dir_def)
  also have "{i. i \<le> j \<and> L i = L j} = {i. i \<le> j \<and> ?K i = ?K j}" using assms(4) [of _ j] assms(5) by auto
  also have "\<dots> = {i. i < length R \<and> ?K i = ?K j}" using group_end [OF assms(1,5)] assms(6) by simp
  also have "(\<Sum>i \<in> \<dots>. x ! i) = (\<Sum>i | i < length R \<and> ?K i = ?K j. h (R ! i))" using assms(3) by (intro sum.cong) auto
  also have "\<dots> = (\<Sum>r \<leftarrow> R. if fst r = ?K j then h r else 0)" by (rule sum_rows)
  also have "\<dots> = (\<Sum>r \<leftarrow> R'. if fst r = ?K j then h r else 0)" by (simp only: sum_mset_sum_list [symmetric] mset_map assms(7))
  finally show ?thesis .
qed

section \<open>Group by\<close>

definition sum_specs :: "'a::len sharing list \<Rightarrow> 'a spec_a list" where
  "sum_specs cs = map (\<lambda>c. (c, c, Sum_a)) cs"

context arithmetic_protocol
begin

theorem group_by_sum_correct:
  fixes t :: "'a shared_table"
  assumes ok: "ok st" and r: "0 < r" "r \<le> 30" and ks: "keys t \<noteq> []" "length order = length (keys t)" and t: "table_ok n k 0 (2 ^ r) t"
    and pb: "pub_b [1] = Some one_b" "is_sharing n k 0 1 one_b" "reveal_b one_b = [1]"
    and pa: "pub_a [1] = Some one_a" "is_sharing n k 0 1 one_a" "reveal_a one_a = [1]"
  shows "\<exists>t' st' as st''. bitonic_sort P t order st = Some (t', st') \<and>
    aggregate P pub_b pub_a (keys t') [] (sum_specs (data_a t')) Forward None st' = Some (([], as), st'') \<and> ok st'' \<and>
    mset (table_rows (2 ^ r) t') = mset (table_rows (2 ^ r) t) \<and> length as = length (data_a t) \<and>
    (\<forall>c < length as. is_sharing n k 0 (2 ^ r) (fst (as ! c)) \<and>
      (\<forall>i < 2 ^ r. Suc i = 2 ^ r \<or> fst (table_rows (2 ^ r) t' ! Suc i) \<noteq> fst (table_rows (2 ^ r) t' ! i) \<longrightarrow>
        reveal_a (fst (as ! c)) ! i =
          (\<Sum>row \<leftarrow> table_rows (2 ^ r) t. if fst row = fst (table_rows (2 ^ r) t' ! i) then fst (snd row) ! c else 0)))"
proof -
  let ?N = "2 ^ r :: nat"
  obtain t' st1 where s: "bitonic_sort P t order st = Some (t', st1)" "ok st1" "table_ok n k 0 ?N t'"
    "sorted (map (row_key order) (table_rows ?N t'))" "mset (table_rows ?N t') = mset (table_rows ?N t)"
    using bitonic_sort_correct [OF ok ks t] r(2) by auto
  let ?R = "table_rows ?N t'"
  have "?R ! 0 \<in> set ?R" by (intro nth_mem) simp
  then have "?R ! 0 \<in> set (table_rows ?N t)" using s(5) by (metis set_mset_mset)
  then have l: "length (data_a t') = length (data_a t)" "length (keys t') = length (keys t)" by (auto simp: table_rows_def dest!: map_eq_imp_length_eq)
  have lk: "\<forall>x \<in> set ?R. length (fst x) = length order" using l(2) ks(2) by (auto simp: table_rows_def)
  have c: "contiguous ?N (\<lambda>p. fst (?R ! p))" using sorted_contiguous [OF s(4) lk] by simp
  have key: "row_label False (map reveal_b (keys t')) None p = (fst (?R ! p), False)" if "p < ?N" for p
    using that by (simp add: row_label_def in_dir_def table_rows_def comp_def)
  have cl: "contiguous ?N (row_label False (map reveal_b (keys t')) None)"
  proof (rule contiguous_cong)
    show "contiguous ?N (\<lambda>p. (fst (?R ! p), False))" using c by (simp add: contiguous_def)
  qed (simp add: key)
  have da: "\<forall>c \<in> set (data_a t'). is_sharing n k 0 ?N c" using s(3) by (simp add: table_ok_def)
  have inp: "agg_inputs n k ?N (keys t') [] (sum_specs (data_a t')) None"
    using s(3) l(2) ks(1) size_is by (auto simp: agg_inputs_def table_ok_def sum_specs_def dest: is_sharing_a_prec)
  have grp: "agg_grouped ?N (keys t') [] (sum_specs (data_a t')) None" using cl by (simp add: agg_grouped_def label_a_def)
  obtain as st2 where a: "aggregate P pub_b pub_a (keys t') [] (sum_specs (data_a t')) Forward None st1 = Some (([], as), st2)" "ok st2"
    "\<forall>x \<in> set as. is_sharing n k 0 ?N (fst x)"
    "map (\<lambda>x. (reveal_a (fst x), snd x)) as = map (\<lambda>s. (scanned_a False (keys t') None s, snd (snd s))) (sum_specs (data_a t'))"
    using aggregate_correct [where dir = Forward and pub_b = pub_b and pub_a = pub_a, OF s(2) r(1) inp grp pb pa] by auto
  have la: "length as = length (data_a t)" using map_eq_imp_length_eq [OF a(4)] l(1) by (simp add: sum_specs_def)
  have "reveal_a (fst (as ! i)) ! j = (\<Sum>row \<leftarrow> table_rows ?N t. if fst row = fst (?R ! j) then fst (snd row) ! i else 0)"
    if i: "i < length as" and j: "j < ?N" and e: "Suc j = ?N \<or> fst (?R ! Suc j) \<noteq> fst (?R ! j)" for i j
  proof -
    let ?X = "data_a t' ! i"
    have X: "is_sharing n k 0 ?N ?X" using da i la l(1) by simp
    have "(reveal_a (fst (as ! i)), snd (as ! i)) = (scanned_a False (keys t') None (?X, ?X, Sum_a), Sum_a)"
      using arg_cong [OF a(4), of "\<lambda>zs. zs ! i"] i la l(1) by (simp add: sum_specs_def)
    then have "reveal_a (fst (as ! i)) = group_scan False (row_label False (map reveal_b (keys t')) None) (\<lambda>s t. t + s) (reveal_a ?X)"
      by (simp add: scanned_a_def label_a_def input_a_def op_a.simps [abs_def] fun_eq_iff)
    also have "\<dots> ! j = (\<Sum>row \<leftarrow> table_rows ?N t. if fst row = fst (?R ! j) then fst (snd row) ! i else 0)"
    proof (rule group_scan_total)
      show "contiguous (length ?R) (\<lambda>p. fst (?R ! p))" using c by simp
      show "length (reveal_a ?X) = length ?R" using length_reveal(2) [OF X pos] by simp
      show "reveal_a ?X ! p = fst (snd (?R ! p)) ! i" if "p < length ?R" for p
        using that i la l(1) by (simp add: table_rows_def)
      show "(row_label False (map reveal_b (keys t')) None p = row_label False (map reveal_b (keys t')) None p') = (fst (?R ! p) = fst (?R ! p'))"
        if "p < length ?R" "p' < length ?R" for p p' using that key by simp
    qed (use j e s(5) in simp_all)
    finally show ?thesis .
  qed
  moreover have "is_sharing n k 0 ?N (fst (as ! i))" if "i < length as" for i using a(3) that by simp
  ultimately show ?thesis using s(1,5) a(1,2) la by blast
qed

end

end
