(* ===== verification/Division.thy ===== *)
theory Division
  imports Shared_Vectors
begin

text \<open>
  Division of two secret vectors (\<open>BSharedVector::operator/\<close> in \<open>core/operators/circuits.h\<close>): non-restoring
  division on shares of twice the width.  The protocol record is the one of the double width, the
  operands and the quotient have the width of the vector.  The theorem is that the quotient is the
  floor of the signed quotient, for every positive divisor and every dividend.
\<close>

section \<open>The circuit\<close>

text \<open>Copy-and-cast assignment between shared vectors of different widths: a signed conversion of every share.  The
  run time copies the elements into a fresh vector, whose precision stays \<open>0\<close>.\<close>

definition sh_cast :: "'a::len sharing \<Rightarrow> 'b::len sharing" where
  "sh_cast X = map (\<lambda>e. \<lparr>cols = map (map scast) (cols e), prec = 0\<rparr>) X"

fun div_loop ::
  "bool \<Rightarrow> ('b::len, 'st) protocol \<Rightarrow> nat \<Rightarrow> 'b sharing \<Rightarrow> 'b sharing \<Rightarrow> 'b sharing \<Rightarrow> 'b sharing \<Rightarrow> 'st
    \<Rightarrow> (('b sharing \<times> 'b sharing) \<times> 'st) option" where
  "div_loop use_rca P 0 d neg_d q r st = Some ((q, r), st)"
| "div_loop use_rca P (Suc i) d neg_d q r st = do {
     let c = sv_not_b_1 P (sv_ltz r);
     let q = xor_b q (sv_left_shift c i);
     (s, st) \<leftarrow> multiplex_b P c d neg_d st;
     (r, st) \<leftarrow> b_plus use_rca P (sv_left_shift r 1) s st;
     div_loop use_rca P i d neg_d q r st
   }"

definition b_div ::
  "bool \<Rightarrow> ('b::len, 'st) protocol \<Rightarrow> 'a::len sharing \<Rightarrow> 'a sharing \<Rightarrow> 'st \<Rightarrow> ('a sharing \<times> 'st) option" where
  "b_div use_rca P x y st = do {
     let r = sh_cast x;
     let d = p_bit_left_shift (sh_cast y) LENGTH('a);
     let q = p_setPrecision 0 (sv_new r);
     (neg_d, st) \<leftarrow> b_negate use_rca P d st;
     ((q, r), st) \<leftarrow> div_loop use_rca P LENGTH('a) d neg_d q r st;
     (t, st) \<leftarrow> b_plus use_rca P (sv_not_b P q) (sv_ltz r) st;
     (q, st) \<leftarrow> b_minus use_rca P q t st;
     Some (sh_cast q, st)
   }"

section \<open>Casts\<close>

lemma map_vxor_scast:
  "map (scast :: 'a::len word \<Rightarrow> 'b::len word) (vxor x y) = vxor (map scast x) (map scast y)"
  by (rule nth_equalityI) (simp_all add: signed_xor_eq)

lemma vxor_all_scast:
  assumes "\<forall>x \<in> set xs. length x = m"
  shows "map (scast :: 'a::len word \<Rightarrow> 'b::len word) (vxor_all m xs) = vxor_all m (map (map scast) xs)"
  using assms by (induction xs) (simp_all add: map_vxor_scast)

lemma cast_sharing:
  fixes X :: "'a::len sharing"
  assumes "is_sharing n k q m X" and "0 < k" and "0 < n"
  shows "is_sharing n k 0 m (sh_cast X :: 'b::len sharing)" and "reveal_b (sh_cast X :: 'b sharing) = map scast (reveal_b X)"
proof -
  from assms(1) obtain xs where xs: "X = share_out k q xs" "length xs = n" "\<forall>x \<in> set xs. length x = m"
    by (elim is_sharingE)
  have e: "(sh_cast X :: 'b sharing) = share_out k 0 (map (map scast) xs)"
  proof (rule nth_equalityI)
    fix p assume "p < length (sh_cast X :: 'b sharing)"
    then have p: "p < length xs" by (simp add: sh_cast_def xs(1))
    then have "(p + j) mod length xs < length xs" for j by (intro mod_less_divisor) auto
    then show "(sh_cast X :: 'b sharing) ! p = share_out k 0 (map (map scast) xs) ! p"
      using p by (simp add: sh_cast_def xs(1) nth_share_out comp_def)
  qed (simp add: sh_cast_def xs(1))
  have l: "\<forall>x \<in> set (map (map scast) xs :: 'b vec list). length x = m" using xs(3) by auto
  show "is_sharing n k 0 m (sh_cast X :: 'b sharing)" unfolding e using l xs(2) assms(2) by (simp add: is_sharing_share_out)
  have "reveal_b (sh_cast X :: 'b sharing) = vxor_all m (map (map scast) xs)"
    unfolding e using l xs(2) assms(2,3) by (intro reveal_b_share_out) simp_all
  also have "\<dots> = map scast (vxor_all m xs)" using xs(3) by (simp add: vxor_all_scast)
  also have "vxor_all m xs = reveal_b X" unfolding xs(1) using xs assms(2,3) by (intro reveal_b_share_out [symmetric]) simp_all
  finally show "reveal_b (sh_cast X :: 'b sharing) = map scast (reveal_b X)" .
qed

section \<open>One division on words\<close>

fun div_word :: "nat \<Rightarrow> 'b::len word \<Rightarrow> 'b word \<Rightarrow> 'b word \<Rightarrow> 'b word \<times> 'b word" where
  "div_word 0 d q r = (q, r)"
| "div_word (Suc i) d q r = div_word i d (q XOR push_bit i (of_bool (0 \<le> sint r)))
     (2 * r + (if 0 \<le> sint r then - d else d))"

lemma signed_take_bit_range:
  assumes "- (2 ^ m) \<le> x" and "x < 2 ^ m"
  shows "signed_take_bit m x = (x :: int)"
  using assms by (simp add: signed_take_bit_int_eq_self)

lemma sint_of_int_range:
  assumes "- (2 ^ (LENGTH('b::len) - 1)) \<le> x" and "x < 2 ^ (LENGTH('b) - 1)"
  shows "sint (word_of_int x :: 'b word) = x"
  using assms by (simp add: sint_sbintrunc' signed_take_bit_range)

lemma div_word_step:
  fixes r d :: "'b::len word"
  assumes "- D \<le> sint r" and "sint r < D" and "sint d = D" and "0 < D"
  shows "sint (2 * r + (if 0 \<le> sint r then - d else d)) = 2 * sint r - (if 0 \<le> sint r then D else - D)"
proof -
  let ?x = "2 * sint r - (if 0 \<le> sint r then D else - D)"
  have b: "D < 2 ^ (LENGTH('b) - 1)" using sint_lt [of d] assms(3) by simp
  have r: "- D \<le> ?x" "?x < D" using assms by auto
  have "word_of_int ?x = 2 * r + (if 0 \<le> sint r then - d else d)"
    by (simp flip: assms(3))
  moreover have "sint (word_of_int ?x :: 'b word) = ?x" by (rule sint_of_int_range) (use r b in linarith)+
  ultimately show ?thesis by (simp only:)
qed

lemma push_bit_append:
  fixes b :: int
  shows "push_bit (Suc i) (word_of_int b :: 'b::len word) XOR push_bit i (of_bool c) = push_bit i (word_of_int (2 * b + of_bool c))"
proof -
  have "push_bit (Suc i) (word_of_int b :: 'b word) = push_bit i (2 * word_of_int b)" by (simp add: push_bit_eq_mult)
  then have "push_bit (Suc i) (word_of_int b :: 'b word) XOR push_bit i (of_bool c) = push_bit i ((2 * word_of_int b) XOR of_bool c)"
    by (simp only: push_bit_xor)
  also have "(2 * word_of_int b) XOR of_bool c = (word_of_int (2 * b + of_bool c) :: 'b word)"
    by (cases c) (simp_all add: xor_one_eq)
  finally show ?thesis .
qed

lemma div_word_invariant:
  fixes d r :: "'b::len word" and b :: int
  assumes "sint d = D" and "0 < D" and "- D \<le> sint r" and "sint r < D"
  shows "\<exists>C r'. div_word i d (push_bit i (word_of_int b)) r = (word_of_int (2 ^ i * b + C), r') \<and>
    sint r' = 2 ^ i * sint r - D * (2 * C - (2 ^ i - 1)) \<and> - D \<le> sint r' \<and> sint r' < D"
  using assms(3,4)
proof (induction i arbitrary: b r)
  case 0
  then show ?case by (intro exI [of _ 0] exI [of _ r]) simp
next
  case (Suc i)
  define c where "c = (0 \<le> sint r)"
  let ?r = "2 * r + (if 0 \<le> sint r then - d else d)"
  have s: "sint ?r = 2 * sint r - (if 0 \<le> sint r then D else - D)" by (rule div_word_step [OF Suc.prems assms(1,2)])
  then have range: "- D \<le> sint ?r" "sint ?r < D" using Suc.prems assms(2) by (auto split: if_splits)
  obtain C r' where C: "div_word i d (push_bit i (word_of_int (2 * b + of_bool c))) ?r = (word_of_int (2 ^ i * (2 * b + of_bool c) + C), r')"
    "sint r' = 2 ^ i * sint ?r - D * (2 * C - (2 ^ i - 1))" "- D \<le> sint r'" "sint r' < D"
    using Suc.IH [OF range, of "2 * b + of_bool c"] by blast
  have "div_word (Suc i) d (push_bit (Suc i) (word_of_int b)) r = (word_of_int (2 ^ i * (2 * b + of_bool c) + C), r')"
    using C(1) by (simp only: div_word.simps push_bit_append c_def [symmetric])
  also have "2 ^ i * (2 * b + of_bool c) + C = 2 ^ Suc i * b + (2 ^ i * of_bool c + C)" by (simp add: algebra_simps)
  finally have run: "div_word (Suc i) d (push_bit (Suc i) (word_of_int b)) r = (word_of_int (2 ^ Suc i * b + (2 ^ i * of_bool c + C)), r')" .
  have "sint r' = 2 ^ Suc i * sint r - D * (2 * (2 ^ i * of_bool c + C) - (2 ^ Suc i - 1))"
    unfolding C(2) s c_def by (cases "0 \<le> sint r") (simp_all add: algebra_simps)
  then show ?case using run C(3,4) by blast
qed

lemma scast_narrow:
  assumes "LENGTH('b::len) = 2 * LENGTH('a::len)"
  shows "scast (word_of_int z :: 'b word) = (word_of_int z :: 'a word)"
  by (rule bit_word_eqI) (auto simp: bit_simps assms)

lemma div_word_quotient:
  fixes x y :: "'a::len word"
  assumes w: "LENGTH('b::len) = 2 * LENGTH('a)" and y: "0 < sint y"
    and run: "div_word LENGTH('a) (push_bit LENGTH('a) (scast y)) 0 (scast x :: 'b word) = (q, r)"
  shows "scast (q - (NOT q + of_bool (sint r < 0))) = (word_of_int (sint x div sint y) :: 'a word)"
proof -
  let ?L = "LENGTH('a)" and ?d = "push_bit LENGTH('a) (scast y) :: 'b word"
  define D where "D = sint y * 2 ^ ?L"
  have yb: "sint y < 2 ^ (?L - 1)" "sint y \<ge> 1" using sint_lt [of y] y by simp_all
  have p: "(2 :: int) ^ (LENGTH('b) - 1) = 2 ^ (?L - 1) * 2 ^ ?L" unfolding w by (simp flip: power_add)
  have xb: "- (2 ^ (?L - 1)) \<le> sint x" "sint x < 2 ^ (?L - 1)" using sint_ge [of x] sint_lt [of x] by simp_all
  have "(2 :: int) ^ (?L - 1) \<le> 2 ^ ?L" by (rule power_increasing) simp_all
  moreover have D1: "2 ^ ?L \<le> D" unfolding D_def using yb(2) by (simp add: mult_le_cancel_right1)
  ultimately have range: "- D \<le> sint x" "sint x < D" using xb by linarith+
  have Db: "D < 2 ^ (LENGTH('b) - 1)" unfolding D_def p using yb(1) by simp
  have up: "sint (scast z :: 'b word) = sint z" for z :: "'a word"
    by (rule sint_up_scast) (simp add: is_up w)
  have D0: "0 < D" unfolding D_def using y by simp
  have "?d = word_of_int D"
    by (simp only: push_bit_eq_mult D_def scast_eq of_int_mult of_int_power of_int_numeral)
  moreover have "sint (word_of_int D :: 'b word) = D"
    by (rule sint_of_int_range) (use D0 Db in \<open>simp_all add: order_trans [of _ 0]\<close>)
  ultimately have d: "sint ?d = D" by (simp only:)
  from div_word_invariant [OF d D0, of "scast x" ?L 0] range
  obtain C where C: "q = word_of_int C" "sint r = 2 ^ ?L * sint x - D * (2 * C - (2 ^ ?L - 1))" "- D \<le> sint r" "sint r < D"
    using run by (auto simp: up)
  define S where "S = 2 * C - (2 ^ ?L - 1)"
  have rs: "sint r = 2 ^ ?L * (sint x - sint y * S)" unfolding C(2) D_def S_def by (simp add: algebra_simps)
  have "- sint y \<le> sint x - sint y * S" "sint x - sint y * S < sint y"
    using C(3,4) unfolding rs D_def by (simp_all add: mult.commute flip: mult_minus_left)
  moreover have "(sint r < 0) = (sint x - sint y * S < 0)" unfolding rs by (simp add: mult_less_0_iff)
  ultimately have div: "sint x div sint y = S - of_bool (sint r < 0)"
    by (intro int_div_pos_eq [where r = "sint x - sint y * (S - of_bool (sint r < 0))"]) (auto simp: algebra_simps)
  have "q - (NOT q + of_bool (sint r < 0)) = word_of_int (S - of_bool (sint r < 0) + 2 ^ ?L)"
    unfolding C(1) S_def by (simp add: not_eq_complement algebra_simps)
  then have "scast (q - (NOT q + of_bool (sint r < 0))) = (word_of_int (S - of_bool (sint r < 0) + 2 ^ ?L) :: 'a word)"
    by (simp only: scast_narrow [OF w])
  then show ?thesis unfolding div by simp
qed

section \<open>The division of shared vectors\<close>

text \<open>Division subtracts, so it relies on a protocol whose subtraction is exact: the parallel-prefix adder
  needs an odd number of parties for that.\<close>

locale subtracting_protocol = conversion_protocol +
  fixes use_rca :: bool
  assumes exact_minus: "use_rca \<or> odd n"
begin

lemma b_plus_correct:
  fixes A B :: "'a sharing"
  assumes "ok st" and "is_sharing n k q m A" and "is_sharing n k q m B"
  shows "\<exists>R st'. b_plus use_rca P A B st = Some (R, st') \<and> ok st' \<and> is_sharing n k q m R \<and>
    reveal_b R = map2 (+) (reveal_b A) (reveal_b B)"
  using binary_adder_correct [OF assms, of use_rca False] by (simp add: b_plus_def)

lemma div_loop_correct:
  fixes d neg_d q r :: "'a sharing"
  assumes "ok st" and d: "is_sharing n k 0 m d" and nd: "is_sharing n k 0 m neg_d" "reveal_b neg_d = map uminus (reveal_b d)"
    and "is_sharing n k 0 m q" and "is_sharing n k 0 m r"
  shows "\<exists>Q R st'. div_loop use_rca P i d neg_d q r st = Some ((Q, R), st') \<and> ok st' \<and> is_sharing n k 0 m Q \<and> is_sharing n k 0 m R \<and>
    (\<forall>j < m. (reveal_b Q ! j, reveal_b R ! j) = div_word i (reveal_b d ! j) (reveal_b q ! j) (reveal_b r ! j))"
  using assms(1,5,6)
proof (induction i arbitrary: q r st)
  case 0
  then show ?case by simp
next
  case (Suc i)
  note L = sv_ltz_sharing [OF Suc.prems(3) pos]
  let ?c = "sv_not_b_1 P (sv_ltz r)"
  have c: "is_sharing n k 0 m ?c" "reveal_b ?c = map (\<lambda>x. x XOR 1) (reveal_b (sv_ltz r))"
    using sv_not1_law [OF L(1,3)] by simp_all
  note cs = sv_left_shift_sharing [OF c(1) pos, of i] and rs = sv_left_shift_sharing [OF Suc.prems(3) pos, of 1]
  note q = xor_sharing [OF Suc.prems(2) cs(1) pos]
  have lr: "length (reveal_b r) = m" "length (reveal_b d) = m" "length (reveal_b q) = m"
    using len [OF Suc.prems(3)] len [OF d] len [OF Suc.prems(2)] by simp_all
  have cj: "reveal_b ?c ! j = of_bool (0 \<le> sint (reveal_b r ! j))" if "j < m" for j
    using that lr by (simp add: c(2) L(2) ltz_vec_def not_less)
  obtain M st1 where M: "multiplex_b P ?c d neg_d st = Some (M, st1)" "ok st1" "is_sharing n k 0 m M"
    "\<forall>j < m. reveal_b M ! j = (if bit (reveal_b ?c ! j) 0 then reveal_b neg_d ! j else reveal_b d ! j)"
    using multiplex_b_correct [OF Suc.prems(1) c(1) d nd(1)] by blast
  obtain R st2 where R: "b_plus use_rca P (sv_left_shift r 1) M st1 = Some (R, st2)" "ok st2" "is_sharing n k 0 m R"
    "reveal_b R = map2 (+) (reveal_b (sv_left_shift r 1)) (reveal_b M)" using b_plus_correct [OF M(2) rs(1) M(3)] by blast
  have Rj: "reveal_b R ! j = 2 * reveal_b r ! j + (if 0 \<le> sint (reveal_b r ! j) then - reveal_b d ! j else reveal_b d ! j)" if j: "j < m" for j
    unfolding R(4) rs(2) using j lr M(4) cj [OF j] len [OF M(3)] by (simp add: bit_left_shift_def nd(2) push_bit_eq_mult)
  have Qj: "reveal_b (xor_b q (sv_left_shift ?c i)) ! j = reveal_b q ! j XOR push_bit i (of_bool (0 \<le> sint (reveal_b r ! j)))" if j: "j < m" for j
    using j lr cj [OF j] len [OF c(1)] by (simp add: q(2) cs(2) bit_left_shift_def)
  obtain Q' R' st' where F: "div_loop use_rca P i d neg_d (xor_b q (sv_left_shift ?c i)) R st2 = Some ((Q', R'), st')" "ok st'"
    "is_sharing n k 0 m Q'" "is_sharing n k 0 m R'"
    "\<forall>j < m. (reveal_b Q' ! j, reveal_b R' ! j) = div_word i (reveal_b d ! j) (reveal_b (xor_b q (sv_left_shift ?c i)) ! j) (reveal_b R ! j)"
    using Suc.IH [OF R(2) q(1) R(3)] by blast
  have "div_loop use_rca P (Suc i) d neg_d q r st = Some ((Q', R'), st')"
    using M(1) R(1) F(1) by (simp add: Let_def)
  then show ?case using F(2-5) Rj Qj by (intro exI [of _ Q'] exI [of _ R'] exI [of _ st']) simp
qed

theorem b_div_correct:
  fixes X Y :: "'c::len sharing"
  assumes ok: "ok st" and X: "is_sharing n k q m X" and Y: "is_sharing n k q' m Y"
    and w: "LENGTH('a) = 2 * LENGTH('c)"
  shows "\<exists>R st'. b_div use_rca P X Y st = Some (R, st') \<and> ok st' \<and> is_sharing n k 0 m R \<and>
    (\<forall>j < m. 0 < sint (reveal_b Y ! j) \<longrightarrow> reveal_b R ! j = word_of_int (sint (reveal_b X ! j) div sint (reveal_b Y ! j)))"
proof -
  let ?r = "sh_cast X :: 'a sharing" and ?d = "p_bit_left_shift (sh_cast Y) LENGTH('c) :: 'a sharing"
  note r = cast_sharing [where 'b = 'a, OF X pos] and cy = cast_sharing [where 'b = 'a, OF Y pos]
  note d = shift_sharing(5,6) [OF cy(1) pos, of "LENGTH('c)"]
  note z = sv_new_sharing [OF r(1)] and z' = sv_new_sharing [OF d(1)]
  note sq = setPrecision_sharing [OF z(1) pos, of 0] and sq' = setPrecision_sharing [OF z'(1) pos, of 0]
  have e: "map2 (\<lambda>x y. (x - y) XOR of_bool (\<not> use_rca \<and> even n)) u v = map2 (-) u v" for u v :: "'a vec"
    using exact_minus by auto
  obtain N st1 where N: "b_negate use_rca P ?d st = Some (N, st1)" "ok st1" "is_sharing n k 0 m N"
    "reveal_b N = map2 (-) (replicate m 0) (reveal_b ?d)"
    using b_minus_correct [OF ok sq'(1) d(1), of use_rca] unfolding e sq'(2) z'(2) by (auto simp: b_negate_def)
  have ld: "length (reveal_b ?d) = m" "length (reveal_b X) = m" "length (reveal_b Y) = m"
    using len [OF d(1)] length_reveal(1) [OF X pos] length_reveal(1) [OF Y pos] by simp_all
  have N': "reveal_b N = map uminus (reveal_b ?d)" using ld by (intro vec_eqI) (simp_all add: N(4))
  obtain Q R st2 where L: "div_loop use_rca P LENGTH('c) ?d N (p_setPrecision 0 (sv_new ?r)) ?r st1 = Some ((Q, R), st2)" "ok st2"
    "is_sharing n k 0 m Q" "is_sharing n k 0 m R"
    "\<forall>j < m. (reveal_b Q ! j, reveal_b R ! j) = div_word LENGTH('c) (reveal_b ?d ! j) (reveal_b (p_setPrecision 0 (sv_new ?r)) ! j) (reveal_b ?r ! j)"
    using div_loop_correct [OF N(2) d(1) N(3) N' sq(1) r(1)] by blast
  note nq = sv_not_sharing [OF L(3)] and s = sv_ltz_sharing [OF L(4) pos]
  obtain T st3 where T: "b_plus use_rca P (sv_not_b P Q) (sv_ltz R) st2 = Some (T, st3)" "ok st3" "is_sharing n k 0 m T"
    "reveal_b T = map2 (+) (reveal_b (sv_not_b P Q)) (reveal_b (sv_ltz R))" using b_plus_correct [OF L(2) nq(1) s(1)] by blast
  obtain F st4 where F: "b_minus use_rca P Q T st3 = Some (F, st4)" "ok st4" "is_sharing n k 0 m F"
    "reveal_b F = map2 (-) (reveal_b Q) (reveal_b T)" using b_minus_correct [OF T(2) L(3) T(3), of use_rca] unfolding e by blast
  note C = cast_sharing [where 'b = 'c, OF F(3) pos]
  have "reveal_b (sh_cast F :: 'c sharing) ! j = word_of_int (sint (reveal_b X ! j) div sint (reveal_b Y ! j))"
    if j: "j < m" and y: "0 < sint (reveal_b Y ! j)" for j
  proof -
    have lq: "length (reveal_b Q) = m" "length (reveal_b R) = m" "length (reveal_b F) = m" "length (reveal_b T) = m"
      using len [OF L(3)] len [OF L(4)] len [OF F(3)] len [OF T(3)] by simp_all
    have "div_word LENGTH('c) (push_bit LENGTH('c) (scast (reveal_b Y ! j))) 0 (scast (reveal_b X ! j) :: 'a word) = (reveal_b Q ! j, reveal_b R ! j)"
      using L(5) j ld by (simp add: d(2) cy(2) r(2) sq(2) z(2) bit_left_shift_def)
    from div_word_quotient [OF w y this] show ?thesis
      using j lq by (simp add: C(2) F(4) T(4) nq(2) s(2) ltz_vec_def)
  qed
  moreover have "b_div use_rca P X Y st = Some (sh_cast F, st4)"
    using N(1) L(1) T(1) F(1) by (simp add: b_div_def Let_def)
  ultimately show ?thesis using F(2) C(1) by blast
qed

end

end
