(* ===== verification/Operator_Instances.thy ===== *)
theory Operator_Instances
  imports Network_Proofs Group_By Division Replicated_3PC_Conv Replicated_3PC_Arith Beaver_2PC_Conv
begin

text \<open>
  The operator layer (sorting, merging, division) on the two protocols: each protocol provides the
  arithmetic contract that the column swap of \<open>sorting.h\<close> relies on, so every lemma proved for an
  abstract protocol becomes a fact about replicated secret sharing and about Beaver triples.
\<close>

interpretation rep3a: arithmetic_protocol "replicated_3pc aes :: ('a::len, ('a, 's) world) protocol" 3 2 "rep3_ok aes"
proof unfold_locales
  fix st :: "('a, 's) world" and m and X Y :: "'a sharing"
  assume "rep3_ok aes st" "is_sharing 3 2 0 m X" "is_sharing 3 2 0 m Y"
  then show "\<exists>Z st'. v_multiply_a (replicated_3pc aes) X Y st = Some (Z, st') \<and> rep3_ok aes st' \<and> is_sharing 3 2 0 m Z \<and>
      reveal_a Z = map2 (*) (reveal_a X) (reveal_a Y)"
    using rep3_multiply_correct [of aes st 0 m X Y] by (simp add: replicated_3pc_def)
qed

interpretation bva: arithmetic_protocol "beaver_2pc aes ole wan :: ('a::len, ('a, 's) beaver_state) protocol" 2 1 "bv_ok aes ole"
proof unfold_locales
  fix st :: "('a, 's) beaver_state" and m and X Y :: "'a sharing"
  assume "bv_ok aes ole st" "is_sharing 2 1 0 m X" "is_sharing 2 1 0 m Y"
  then show "\<exists>Z st'. v_multiply_a (beaver_2pc aes ole wan) X Y st = Some (Z, st') \<and> bv_ok aes ole st' \<and> is_sharing 2 1 0 m Z \<and>
      reveal_a Z = map2 (*) (reveal_a X) (reveal_a Y)"
    using bv_multiply_correct [of aes ole st 0 m X Y] by (simp add: beaver_2pc_def)
qed

interpretation rep3s: subtracting_protocol "replicated_3pc aes :: ('a::len, ('a, 's) world) protocol" 3 2 "rep3_ok aes" use_rca
  by unfold_locales simp

interpretation bvs: subtracting_protocol "beaver_2pc aes ole wan :: ('a::len, ('a, 's) beaver_state) protocol" 2 1 "bv_ok aes ole" True
  by unfold_locales simp

text \<open>Both protocols check the precision of the operands of a conjunction.\<close>

lemma bind_throws:
  "Option.bind x (\<lambda>(a, b). None) = None" "Option.bind y (\<lambda>((a, b), c). None) = None"
  by (cases x; simp add: case_prod_beta) (cases y; simp add: case_prod_beta)

interpretation rep3p: precision_checking "replicated_3pc aes :: ('a::len, ('a, 's) world) protocol" 3 2 "rep3_ok aes"
proof unfold_locales
  fix q q' m and X Y :: "'a sharing" and st :: "('a, 's) world"
  assume "is_sharing 3 2 q m X" "is_sharing 3 2 q' m Y" "q \<noteq> q'"
  then show "v_and_b (replicated_3pc aes) X Y st = None"
    by (simp add: replicated_3pc_def rep3_and_b_def handle_precision_mismatch bind_throws Let_def del: for_parties.simps)
qed

interpretation bvp: precision_checking "beaver_2pc aes ole wan :: ('a::len, ('a, 's) beaver_state) protocol" 2 1 "bv_ok aes ole"
proof unfold_locales
  fix q q' m and X Y :: "'a sharing" and st :: "('a, 's) beaver_state"
  assume "is_sharing 2 1 q m X" "is_sharing 2 1 q' m Y" "q \<noteq> q'"
  then show "v_and_b (beaver_2pc aes ole wan) X Y st = None"
    using handle_precision_mismatch [of 2 1 q m X q' Y] by (simp add: beaver_2pc_def bv_and_b_def bind_throws Let_def split: prod.splits)
qed

end
