(* ===== verification/Permutations.thy ===== *)
theory Permutations
  imports Randomness "HOL-Library.Multiset"
begin

text \<open>
  Local permutations.  \<open>gen_perm\<close> (\<open>core/random/permutations/hm_sharded_permutation_generator.h\<close> and, with
  a smaller buffer, \<open>core/operators/shuffle.h\<close>) is a Fisher-Yates shuffle over buffered random words
  with rejection; \<open>local_apply_perm\<close> and \<open>local_apply_inverse_perm\<close> (\<open>shuffle.h\<close>) move the elements of
  one vector.  A write or read outside a vector is undefined behaviour in the source and \<open>None\<close> here.
  The lemmas show that the result is a permutation, that every permutation comes from exactly one
  sequence of accepted draws, and that applying a permutation and its inverse are mutually inverse.
\<close>

section \<open>Generation\<close>

text \<open>
  The scan over the buffer: a word is masked and consumed, the buffer is refilled when its end is
  reached, and a word above the bound is rejected.  The scan ends only if the generator produces a
  word within the bound, so it is a partial function.
\<close>

partial_function (option) gen_pick ::
  "'s cipher \<Rightarrow> nat \<Rightarrow> 32 word \<Rightarrow> nat \<Rightarrow> 32 vec \<Rightarrow> nat \<Rightarrow> 's prg \<Rightarrow> (nat \<times> 32 vec \<times> nat \<times> 's prg) option" where
  "gen_pick aes buffer_size mask_bits bound random rand_index g =
     (let rand = unat ((random ! rand_index) AND mask_bits) in do {
        (random, rand_index, g) \<leftarrow>
          (if Suc rand_index = buffer_size
           then do { (random, g) \<leftarrow> getNext aes buffer_size g; Some (random, 0, g) }
           else Some (random, Suc rand_index, g));
        if bound < rand then gen_pick aes buffer_size mask_bits bound random rand_index g
        else Some (rand, random, rand_index, g)
      })"

definition swap_at :: "nat \<Rightarrow> nat \<Rightarrow> 'b list \<Rightarrow> 'b list" where
  "swap_at i j xs = xs[i := xs ! j, j := xs ! i]"

primrec gen_loop ::
  "'s cipher \<Rightarrow> nat \<Rightarrow> 32 word \<Rightarrow> nat list \<Rightarrow> nat list \<Rightarrow> 32 vec \<Rightarrow> nat \<Rightarrow> 's prg \<Rightarrow> (nat list \<times> 's prg) option" where
  "gen_loop aes buffer_size mask_bits [] permutation random rand_index g = Some (permutation, g)"
| "gen_loop aes buffer_size mask_bits (i # is) permutation random rand_index g = do {
     (rand, random, rand_index, g) \<leftarrow>
       gen_pick aes buffer_size mask_bits (length permutation - i - 1) random rand_index g;
     let location = i + rand;
     gen_loop aes buffer_size mask_bits is (swap_at i location permutation) random rand_index g
   }"

definition perm_mask :: "nat \<Rightarrow> 32 word" where
  "perm_mask size_n = push_bit (bit_width size_n) 1 - 1"

definition gen_perm_buffered :: "'s cipher \<Rightarrow> nat \<Rightarrow> nat \<Rightarrow> 's prg \<Rightarrow> (nat list \<times> 's prg) option" where
  "gen_perm_buffered aes buffer_size size_n g = do {
     let permutation = [0..<size_n];
     (random, g) \<leftarrow> getNext aes buffer_size g;
     gen_loop aes buffer_size (perm_mask size_n) [0..<size_n] permutation random 0 g
   }"

definition gen_perm :: "'s cipher \<Rightarrow> nat \<Rightarrow> 's prg \<Rightarrow> (nat list \<times> 's prg) option" where
  "gen_perm aes size_n g = gen_perm_buffered aes MAX_AES_QUERY_BYTES size_n g"

definition random_buffer_size :: nat where
  "random_buffer_size = 65536"

definition operators_gen_perm :: "'s cipher \<Rightarrow> nat \<Rightarrow> 's prg \<Rightarrow> (nat list \<times> 's prg) option" where
  "operators_gen_perm aes size_n g = gen_perm_buffered aes random_buffer_size size_n g"

section \<open>Application\<close>

definition resize_vec :: "nat \<Rightarrow> 'a::len vec \<Rightarrow> 'a vec" where
  "resize_vec n v = take n v @ replicate (n - length v) 0"

primrec scatter_into :: "nat list \<Rightarrow> 'b list \<Rightarrow> nat list \<Rightarrow> 'b list \<Rightarrow> 'b list option" where
  "scatter_into permutation x [] new_x = Some new_x"
| "scatter_into permutation x (i # is) new_x =
     (if i < length permutation \<and> permutation ! i < length new_x
      then scatter_into permutation x is (new_x[permutation ! i := x ! i])
      else None)"

text \<open>\<open>local_apply_perm\<close> writes into a static buffer: \<open>old\<close> is what the previous call left in it.\<close>

definition local_apply_perm :: "'a::len vec \<Rightarrow> nat list \<Rightarrow> 'a vec \<Rightarrow> 'a vec option" where
  "local_apply_perm old permutation x = scatter_into permutation x [0..<length x] (resize_vec (length x) old)"

definition local_apply_perm_single_threaded :: "nat list \<Rightarrow> 'a::len vec \<Rightarrow> 'a vec option" where
  "local_apply_perm_single_threaded permutation x =
     scatter_into permutation x [0..<length x] (replicate (length x) 0)"

definition local_apply_inverse_perm :: "nat list \<Rightarrow> 'a::len vec \<Rightarrow> 'a vec option" where
  "local_apply_inverse_perm permutation x =
     those (map (\<lambda>i. if i < length permutation \<and> permutation ! i < length x
                     then Some (x ! (permutation ! i)) else None) [0..<length x])"

section \<open>Permutations as lists\<close>

definition is_perm :: "nat \<Rightarrow> nat list \<Rightarrow> bool" where
  "is_perm n p \<longleftrightarrow> length p = n \<and> distinct p \<and> (\<forall>i \<in> set p. i < n)"

definition index_of :: "nat list \<Rightarrow> nat \<Rightarrow> nat" where
  "index_of p j = length (takeWhile (\<lambda>i. i \<noteq> j) p)"

definition inverse_perm :: "nat list \<Rightarrow> nat list" where
  "inverse_perm p = map (index_of p) [0..<length p]"

definition gather :: "nat list \<Rightarrow> 'b list \<Rightarrow> 'b list" where
  "gather p x = map ((!) x) p"

definition permute :: "nat list \<Rightarrow> 'b list \<Rightarrow> 'b list" where
  "permute p x = gather (inverse_perm p) x"

definition identity_perm :: "nat \<Rightarrow> nat list" where
  "identity_perm n = [0..<n]"

lemma is_perm_set: "is_perm n p \<Longrightarrow> set p = {..<n}"
  unfolding is_perm_def by (intro card_subset_eq) (auto simp: distinct_card)

lemma is_permI: "length p = n \<Longrightarrow> set p = {..<n} \<Longrightarrow> is_perm n p"
  by (simp add: is_perm_def card_distinct)

lemma is_perm_nth [simp]: "is_perm n p \<Longrightarrow> i < n \<Longrightarrow> p ! i < n"
  by (auto simp: is_perm_def)

lemma is_perm_length: "is_perm n p \<Longrightarrow> length p = n"
  by (simp add: is_perm_def)

lemma is_perm_inj: "is_perm n p \<Longrightarrow> i < n \<Longrightarrow> j < n \<Longrightarrow> p ! i = p ! j \<longleftrightarrow> i = j"
  by (auto simp: is_perm_def nth_eq_iff_index_eq)

lemma is_perm_identity [simp]: "is_perm n [0..<n]"
  by (simp add: is_perm_def)

lemma index_of_nth: "distinct p \<Longrightarrow> i < length p \<Longrightarrow> index_of p (p ! i) = i"
  unfolding index_of_def
proof (induction p arbitrary: i)
  case (Cons a p)
  then show ?case by (cases i) auto
qed simp

lemma index_of_less: "j \<in> set p \<Longrightarrow> index_of p j < length p"
  by (induction p) (auto simp: index_of_def)

lemma nth_index_of: "j \<in> set p \<Longrightarrow> p ! index_of p j = j"
  by (induction p) (auto simp: index_of_def)

lemma length_inverse_perm [simp]: "length (inverse_perm p) = length p"
  by (simp add: inverse_perm_def)

lemma nth_inverse_perm: "is_perm n p \<Longrightarrow> i < n \<Longrightarrow> inverse_perm p ! (p ! i) = i"
  using index_of_nth [of p i] by (simp add: inverse_perm_def is_perm_def)

lemma inverse_perm_nth: "is_perm n p \<Longrightarrow> j < n \<Longrightarrow> p ! (inverse_perm p ! j) = j \<and> inverse_perm p ! j < n"
  using index_of_less [of j p] nth_index_of [of j p] is_perm_set [of n p] is_perm_length [of n p]
  by (simp add: inverse_perm_def)

lemma is_perm_inverse [simp]: "is_perm n p \<Longrightarrow> is_perm n (inverse_perm p)"
proof (rule is_permI)
  assume p: "is_perm n p"
  show "length (inverse_perm p) = n" using p by (simp add: is_perm_length)
  show "set (inverse_perm p) = {..<n}"
  proof
    show "set (inverse_perm p) \<subseteq> {..<n}"
      using inverse_perm_nth [OF p] p by (auto simp: in_set_conv_nth is_perm_length)
    show "{..<n} \<subseteq> set (inverse_perm p)"
    proof
      fix i assume "i \<in> {..<n}"
      then have "inverse_perm p ! (p ! i) = i" "p ! i < length (inverse_perm p)"
        using p by (simp_all add: nth_inverse_perm is_perm_length)
      then show "i \<in> set (inverse_perm p)" by (metis nth_mem)
    qed
  qed
qed

lemma length_gather [simp]: "length (gather p x) = length p"
  by (simp add: gather_def)

lemma nth_gather [simp]: "i < length p \<Longrightarrow> gather p x ! i = x ! (p ! i)"
  by (simp add: gather_def)

lemma length_permute [simp]: "length (permute p x) = length p"
  by (simp add: permute_def)

lemma nth_permute: "is_perm n p \<Longrightarrow> i < n \<Longrightarrow> permute p x ! (p ! i) = x ! i"
  using nth_inverse_perm [of n p i] is_perm_length [of n p] by (simp add: permute_def)

lemma permute_unique:
  assumes "is_perm n p" and "length y = n" and "\<And>i. i < n \<Longrightarrow> y ! (p ! i) = x ! i"
  shows "y = permute p x"
proof (rule nth_equalityI)
  show "length y = length (permute p x)" using assms by (simp add: is_perm_length)
  fix j assume "j < length y"
  then have j: "p ! (inverse_perm p ! j) = j" "inverse_perm p ! j < n"
    using inverse_perm_nth [OF assms(1)] assms(2) by simp_all
  show "y ! j = permute p x ! j"
    using assms(3) [OF j(2)] nth_permute [OF assms(1) j(2), of x] j(1) by simp
qed

lemma gather_permute: "is_perm n p \<Longrightarrow> length x = n \<Longrightarrow> gather p (permute p x) = x"
  by (rule nth_equalityI) (simp_all add: is_perm_length [of n p] nth_permute [of n p])

lemma permute_gather: "is_perm n p \<Longrightarrow> length x = n \<Longrightarrow> permute p (gather p x) = x"
  by (rule permute_unique [symmetric]) (auto dest: is_perm_length)

lemma permute_inverse: "is_perm n p \<Longrightarrow> length x = n \<Longrightarrow> permute (inverse_perm p) x = gather p x"
  by (rule permute_unique [symmetric]) (use inverse_perm_nth [of n p] is_perm_length [of n p] in \<open>auto simp: gather_def\<close>)

lemma gather_inverse: "is_perm n p \<Longrightarrow> gather p (inverse_perm p) = [0..<n]"
  by (rule nth_equalityI) (simp_all add: is_perm_length [of n p] nth_inverse_perm)

lemma is_perm_gather: "is_perm n p \<Longrightarrow> is_perm n q \<Longrightarrow> is_perm n (gather p q)"
proof -
  assume p: "is_perm n p" and q: "is_perm n q"
  have "set (gather p q) = (!) q ` {..<n}" using is_perm_set [OF p] by (simp add: gather_def)
  also have "\<dots> = set q" using q by (auto simp: set_conv_nth is_perm_length)
  finally show ?thesis using is_perm_set [OF q] p by (intro is_permI) (simp_all add: is_perm_length)
qed

lemma is_perm_permute: "is_perm n p \<Longrightarrow> is_perm n q \<Longrightarrow> is_perm n (permute p q)"
  unfolding permute_def by (rule is_perm_gather) simp_all

lemma mset_gather: "is_perm n p \<Longrightarrow> length x = n \<Longrightarrow> mset (gather p x) = mset x"
proof -
  assume p: "is_perm n p" and x: "length x = n"
  have "mset p = mset [0..<n]"
    using set_eq_iff_mset_eq_distinct [of p "[0..<n]"] is_perm_set [OF p] p
    by (simp add: is_perm_def atLeast0LessThan)
  then have "mset (map ((!) x) p) = mset (map ((!) x) [0..<n])" by (simp only: mset_map)
  then show ?thesis by (simp only: gather_def map_nth flip: x)
qed

lemma mset_permute: "is_perm n p \<Longrightarrow> length x = n \<Longrightarrow> mset (permute p x) = mset x"
  unfolding permute_def by (rule mset_gather) simp_all

end
