(* ===== verification/Permutation_Proofs.thy ===== *)
theory Permutation_Proofs
  imports Permutations
begin

text \<open>
  What the local permutation code promises.  \<open>gen_perm\<close> returns, and returns a permutation, as soon as
  every buffer drawn from the generator holds a word whose masked bits are zero; applying a permutation to a vector is \<^const>\<open>permute\<close>,
  whatever an earlier call left in the static buffer, and the inverse application is \<^const>\<open>gather\<close>.
\<close>

section \<open>Application\<close>

lemma scatter_into_perm:
  assumes "is_perm n p" and "distinct is" and "set is \<subseteq> {..<n}" and "length y = n"
  shows "\<exists>z. scatter_into p x is y = Some z \<and> length z = n \<and> (\<forall>j < n. z ! (p ! j) = (if j \<in> set is then x ! j else y ! (p ! j)))"
  using assms(2-)
proof (induction "is" arbitrary: y)
  case (Cons i "is")
  have i: "i < n" "i \<notin> set is" using Cons.prems by auto
  obtain z where z: "scatter_into p x is (y[p ! i := x ! i]) = Some z" "length z = n"
    "\<forall>j < n. z ! (p ! j) = (if j \<in> set is then x ! j else y[p ! i := x ! i] ! (p ! j))"
    using Cons.IH [of "y[p ! i := x ! i]"] Cons.prems by auto
  have "y[p ! i := x ! i] ! (p ! j) = (if j = i then x ! i else y ! (p ! j))" if "j < n" for j
    using that i assms(1) Cons.prems(3) by (simp add: nth_list_update is_perm_inj [of n p])
  then show ?case using z i assms(1) Cons.prems(3) is_perm_length [OF assms(1)]
    by (intro exI [of _ z]) auto
qed simp

lemma length_resize_vec [simp]: "length (resize_vec n v) = n"
  by (simp add: resize_vec_def)

lemma scatter_into_permute:
  assumes "is_perm n p" and "length x = n" and "length y = n"
  shows "scatter_into p x [0..<n] y = Some (permute p x)"
proof -
  obtain z where "scatter_into p x [0..<n] y = Some z" "length z = n" "\<forall>j < n. z ! (p ! j) = x ! j"
    using scatter_into_perm [OF assms(1), of "[0..<n]" y x] assms(3) by (auto simp: atLeast0LessThan)
  then show ?thesis using permute_unique [OF assms(1), of z x] by simp
qed

lemma local_apply_perm_permute: "is_perm n p \<Longrightarrow> length x = n \<Longrightarrow> local_apply_perm old p x = Some (permute p x)"
  by (simp add: local_apply_perm_def scatter_into_permute [of n])

lemma single_threaded_permute: "is_perm n p \<Longrightarrow> length x = n \<Longrightarrow> local_apply_perm_single_threaded p x = Some (permute p x)"
  by (simp add: local_apply_perm_single_threaded_def scatter_into_permute [of n])

lemma those_Some: "those (map (\<lambda>i. Some (f i)) xs) = Some (map f xs)"
  by (induction xs) simp_all

lemma local_apply_inverse_gather:
  assumes "is_perm n p" and "length x = n"
  shows "local_apply_inverse_perm p x = Some (gather p x)"
proof -
  have "map (\<lambda>i. if i < length p \<and> p ! i < length x then Some (x ! (p ! i)) else None) [0..<length x]
      = map (\<lambda>i. Some (x ! (p ! i))) [0..<length x]"
    using assms is_perm_length [OF assms(1)] by simp
  then have "local_apply_inverse_perm p x = Some (map (\<lambda>i. x ! (p ! i)) [0..<length x])"
    unfolding local_apply_inverse_perm_def by (simp only: those_Some)
  also have "map (\<lambda>i. x ! (p ! i)) [0..<length x] = gather p x"
    using assms is_perm_length [OF assms(1)] by (intro nth_equalityI) simp_all
  finally show ?thesis .
qed

lemma scatter_into_out_of_range: "i \<in> set is \<Longrightarrow> length p \<le> i \<or> length y \<le> p ! i \<Longrightarrow> scatter_into p x is y = None"
  by (induction "is" arbitrary: y) auto

section \<open>Fisher-Yates\<close>

lemma length_swap_at [simp]: "length (swap_at i j p) = length p"
  by (simp add: swap_at_def)

lemma nth_swap_at: "i < length p \<Longrightarrow> j < length p \<Longrightarrow> l < length p \<Longrightarrow>
    swap_at i j p ! l = (if l = i then p ! j else if l = j then p ! i else p ! l)"
  by (auto simp: swap_at_def nth_list_update)

lemma distinct_swap_at [simp]: "i < length p \<Longrightarrow> j < length p \<Longrightarrow> distinct (swap_at i j p) = distinct p"
  by (simp add: swap_at_def)

lemma set_swap_at [simp]: "i < length p \<Longrightarrow> j < length p \<Longrightarrow> set (swap_at i j p) = set p"
  by (simp add: swap_at_def)

fun place :: "nat \<Rightarrow> nat list \<Rightarrow> nat list \<Rightarrow> nat list" where
  "place i [] p = p"
| "place i (r # rs) p = place (Suc i) rs (swap_at i (i + r) p)"

text \<open>The draws of an accepted run: position \<open>i\<close> is exchanged with one of the positions not yet settled.\<close>

definition draws :: "nat \<Rightarrow> nat \<Rightarrow> nat list \<Rightarrow> bool" where
  "draws n i rs \<longleftrightarrow> length rs = n - i \<and> (\<forall>j < n - i. rs ! j \<le> n - 1 - (i + j))"

lemma draws_end [simp]: "draws n n rs \<longleftrightarrow> rs = []"
  by (auto simp: draws_def)

lemma draws_Cons: "i < n \<Longrightarrow> draws n i (r # rs) \<longleftrightarrow> r \<le> n - 1 - i \<and> draws n (Suc i) rs"
proof -
  assume "i < n"
  then have "n - i = Suc (n - Suc i)" by simp
  then show ?thesis by (auto simp: draws_def All_less_Suc2)
qed

lemma place_facts:
  assumes "i \<le> length p" and "draws (length p) i rs"
  shows "length (place i rs p) = length p \<and> (\<forall>j < i. place i rs p ! j = p ! j) \<and>
    (distinct p \<longrightarrow> distinct (place i rs p)) \<and> set (place i rs p) = set p"
  using assms
proof (induction i rs p rule: place.induct)
  case (2 i r rs p)
  have i: "i < length p" using "2.prems" by (auto simp: draws_def)
  then have r: "i + r < length p" "draws (length p) (Suc i) rs" using "2.prems" by (auto simp: draws_Cons)
  then have "\<forall>j < i. swap_at i (i + r) p ! j = p ! j" by (auto simp: nth_swap_at)
  then show ?case using "2.IH" r i by simp
qed simp

section \<open>The scan for a word in range\<close>

definition fair_words :: "'s cipher \<Rightarrow> nat \<Rightarrow> 32 word \<Rightarrow> bool" where
  "fair_words aes buffer_size mask_bits \<longleftrightarrow>
     (\<forall>g. \<exists>w \<in> set (rnd aes buffer_size g :: 32 vec). w AND mask_bits = 0)"

lemma getNext_32: "cipher_ok TYPE(32) aes \<Longrightarrow> getNext aes n g = Some (rnd aes n g :: 32 vec, adv TYPE(32) aes n g)"
  by (simp add: getNext_def cipher_ok_def rnd_def adv_def)

lemma gen_pick_in_buffer:
  assumes c: "cipher_ok TYPE(32) aes" and "idx \<le> j" and "j < buffer_size" and "length buf = buffer_size"
    and "buf ! j AND mask_bits = 0"
  shows "\<exists>r buf' idx' g'. gen_pick aes buffer_size mask_bits bound buf idx g = Some (r, buf', idx', g') \<and>
    r \<le> bound \<and> length buf' = buffer_size \<and> idx' < buffer_size"
  using assms(2)
proof (induction idx rule: inc_induct)
  case base
  then show ?case using assms(3-5) c by (subst gen_pick.simps) (simp add: getNext_32)
next
  case (step idx)
  have "Suc idx < buffer_size" using step.hyps assms(3) by simp
  then show ?case using step.IH assms(4) by (subst gen_pick.simps) (auto simp: Let_def not_less)
qed

lemma gen_pick_returns:
  assumes c: "cipher_ok TYPE(32) aes" and f: "fair_words aes buffer_size mask_bits"
    and "idx < buffer_size" and "length buf = buffer_size"
  shows "\<exists>r buf' idx' g'. gen_pick aes buffer_size mask_bits bound buf idx g = Some (r, buf', idx', g') \<and>
    r \<le> bound \<and> length buf' = buffer_size \<and> idx' < buffer_size"
proof -
  have fresh: "\<exists>r buf' idx' g'. gen_pick aes buffer_size mask_bits bound (rnd aes buffer_size h) 0 g = Some (r, buf', idx', g') \<and>
    r \<le> bound \<and> length buf' = buffer_size \<and> idx' < buffer_size" for g h
  proof -
    obtain j where j: "j < buffer_size" "(rnd aes buffer_size h :: 32 vec) ! j AND mask_bits = 0"
      using f c unfolding fair_words_def by (metis in_set_conv_nth length_rnd)
    show ?thesis by (rule gen_pick_in_buffer [OF c, of 0 j]) (use j c in simp_all)
  qed
  have le: "idx \<le> buffer_size - 1" using assms(3) by simp
  then show ?thesis
  proof (induction idx rule: inc_induct)
    case base
    have "Suc (buffer_size - 1) = buffer_size" using assms(3) by simp
    then show ?case using fresh c assms(3) by (subst gen_pick.simps) (auto simp: getNext_32 Let_def)
  next
    case (step idx)
    have "Suc idx < buffer_size" using step.hyps by simp
    then show ?case using step.IH assms(4) by (subst gen_pick.simps) (auto simp: Let_def not_less)
  qed
qed

lemma gen_loop_returns:
  assumes c: "cipher_ok TYPE(32) aes" and f: "fair_words aes buffer_size mask_bits"
    and "i \<le> n" and "length p = n" and "idx < buffer_size" and "length buf = buffer_size"
  shows "\<exists>rs g'. draws n i rs \<and> gen_loop aes buffer_size mask_bits [i..<n] p buf idx g = Some (place i rs p, g')"
  using assms(3-)
proof (induction i arbitrary: p buf idx g rule: inc_induct)
  case base
  then show ?case by simp
next
  case (step i)
  obtain r buf' idx' g1 where r: "gen_pick aes buffer_size mask_bits (n - i - 1) buf idx g = Some (r, buf', idx', g1)"
    "r \<le> n - i - 1" "length buf' = buffer_size" "idx' < buffer_size"
    using gen_pick_returns [OF c f step.prems(2,3)] by blast
  obtain rs g' where rs: "draws n (Suc i) rs"
    "gen_loop aes buffer_size mask_bits [Suc i..<n] (swap_at i (i + r) p) buf' idx' g1 = Some (place (Suc i) rs (swap_at i (i + r) p), g')"
    using step.IH [of "swap_at i (i + r) p" idx' buf' g1] step.prems(1) r by auto
  have "[i..<n] = i # [Suc i..<n]" using step.hyps by (simp add: upt_conv_Cons)
  then show ?case using r rs step.hyps step.prems(1)
    by (intro exI [of _ "r # rs"] exI [of _ g']) (simp add: draws_Cons)
qed

lemma gen_perm_buffered_returns:
  assumes "cipher_ok TYPE(32) aes" and "fair_words aes buffer_size (perm_mask n)" and "0 < buffer_size"
  shows "\<exists>rs g'. draws n 0 rs \<and> gen_perm_buffered aes buffer_size n g = Some (place 0 rs [0..<n], g')"
  using gen_loop_returns [OF assms(1,2), of 0 n "[0..<n]" 0] assms
  by (simp add: gen_perm_buffered_def getNext_32 Let_def)

lemma place_is_perm: "draws n 0 rs \<Longrightarrow> is_perm n (place 0 rs [0..<n])"
  using place_facts [of 0 "[0..<n]" rs] by (simp add: is_perm_def)

lemma gen_perm_returns:
  assumes "cipher_ok TYPE(32) aes" and "fair_words aes MAX_AES_QUERY_BYTES (perm_mask n)"
  shows "\<exists>p g'. gen_perm aes n g = Some (p, g') \<and> is_perm n p"
proof -
  have "0 < MAX_AES_QUERY_BYTES" by (simp add: MAX_AES_QUERY_BYTES_def)
  then show ?thesis using gen_perm_buffered_returns [OF assms, of g] place_is_perm by (auto simp: gen_perm_def)
qed

end
