(* ===== verification/Protocol_Base.thy ===== *)
theory Protocol_Base
  imports Main
begin

text \<open>
  The base class of all protocols (\<open>core/protocols/interface/protocol_base.h\<close>): which party holds which
  share, the groups of parties that share randomness, and who sends which share to whom when a group
  reshares a vector.  A \<open>std::set<int>\<close> of parties is an ascending list.  The theorems say that the
  groups are exactly the subsets of the requested size, and that the send and receive assignments of
  different parties match message for message.
\<close>

section \<open>Share maps\<close>

definition generatePartyShareMappings :: "nat \<Rightarrow> nat \<Rightarrow> nat list list" where
  "generatePartyShareMappings numParties replicationNumber =
     map (\<lambda>i. map (\<lambda>j. (i + j) mod numParties) [0..<replicationNumber]) [0..<numParties]"

definition push_holder :: "nat \<Rightarrow> nat list list \<Rightarrow> nat \<Rightarrow> nat list list" where
  "push_holder p acc s = acc[s := acc ! s @ [p]]"

text \<open>The final loop of the source sorts copies of the lists and changes nothing.\<close>

definition generateSharePartyMappings :: "nat \<Rightarrow> nat \<Rightarrow> nat list list" where
  "generateSharePartyMappings numParties replicationNumber =
     (let psm = generatePartyShareMappings numParties replicationNumber
      in foldl (\<lambda>acc p. foldl (push_holder p) acc (psm ! p)) (replicate numParties []) [0..<numParties])"

section \<open>Assignments\<close>

datatype reshare_action = Send | Receive

record reshare_assignment =
  action :: reshare_action
  ranks :: "int list"
  shareIdx :: "nat list"

definition first_in_group :: "nat list \<Rightarrow> nat list \<Rightarrow> nat option" where
  "first_in_group grp s_parties = find (\<lambda>q. q \<in> set grp) s_parties"

definition is_canonical :: "nat list \<Rightarrow> nat \<Rightarrow> nat list \<Rightarrow> bool" where
  "is_canonical grp p s_parties = (case first_in_group grp s_parties of None \<Rightarrow> True | Some q \<Rightarrow> q = p)"

definition generate_send_assignment :: "nat \<Rightarrow> nat \<Rightarrow> nat \<Rightarrow> nat list \<Rightarrow> reshare_assignment" where
  "generate_send_assignment n k p grp =
     (let s2p_map = generateSharePartyMappings n k;
          p2s_map = generatePartyShareMappings n k;
          my_shares = p2s_map ! p;
          canonical = map (\<lambda>si. is_canonical grp p (s2p_map ! (my_shares ! si))) [0..<k];
          sends = concat (map (\<lambda>q. if q \<in> set grp then [] else
                    concat (map (\<lambda>qs. case find (\<lambda>si. my_shares ! si = qs \<and> canonical ! si) [0..<k] of
                        Some si \<Rightarrow> [(int q - int p, si)] | None \<Rightarrow> []) (p2s_map ! q))) [0..<n])
      in \<lparr>action = Send, ranks = map fst sends, shareIdx = map snd sends\<rparr>)"

definition generate_recv_assignment :: "nat \<Rightarrow> nat \<Rightarrow> nat \<Rightarrow> nat list \<Rightarrow> reshare_assignment" where
  "generate_recv_assignment n k p grp =
     (let s2p_map = generateSharePartyMappings n k;
          p2s_map = generatePartyShareMappings n k;
          send_parties = concat (map (\<lambda>s. case first_in_group grp (s2p_map ! s) of
              Some q \<Rightarrow> [int q - int p] | None \<Rightarrow> []) (p2s_map ! p))
      in \<lparr>action = Receive, ranks = send_parties, shareIdx = []\<rparr>)"

section \<open>Groups\<close>

fun generateAllCombinations :: "nat list \<Rightarrow> nat list \<Rightarrow> nat \<Rightarrow> nat list list" where
  "generateAllCombinations elems partial_set 0 = [partial_set]"
| "generateAllCombinations elems partial_set (Suc size_left) =
     concat (map (\<lambda>element. generateAllCombinations
         (filter (\<lambda>x. \<not> x < element \<and> x \<noteq> element) elems) (insort element partial_set) size_left) elems)"

text \<open>With more adversaries than parties the size is negative, no branch of the recursion ends and nothing is collected.\<close>

definition generateGroups :: "nat \<Rightarrow> nat \<Rightarrow> nat \<Rightarrow> nat list list" where
  "generateGroups num_parties parties_to_reconstruct num_adversaries =
     (if num_parties = 1 then [ [0] ]
      else if num_parties \<ge> 4 \<and> num_adversaries = 1 then
        map (\<lambda>i. map (\<lambda>j. i * parties_to_reconstruct + j) [0..<parties_to_reconstruct]) [0..<2]
      else if num_parties < num_adversaries then []
      else let group_size = num_parties - num_adversaries in
        if group_size = 1 then [] else generateAllCombinations [0..<num_parties] [] group_size)"

definition getGroups :: "nat \<Rightarrow> nat list list" where
  "getGroups numParties = generateGroups numParties 2 1"

definition generateRandomnessGroups :: "nat \<Rightarrow> nat \<Rightarrow> nat \<Rightarrow> nat list list" where
  "generateRandomnessGroups n n_reconstruct n_adversary =
     generateGroups n n_reconstruct n_adversary @ [ [0..<n] ]"

text \<open>The constructor: the assignment of party \<open>pID\<close> for every group.\<close>

definition reshareMap :: "nat \<Rightarrow> nat \<Rightarrow> nat \<Rightarrow> nat list \<rightharpoonup> reshare_assignment" where
  "reshareMap n k pID grp =
     (if grp \<in> set (getGroups n)
      then Some (if pID \<in> set grp then generate_send_assignment n k pID grp else generate_recv_assignment n k pID grp)
      else None)"

section \<open>Combinations\<close>

definition ascending :: "nat list \<Rightarrow> bool" where
  "ascending xs \<longleftrightarrow> sorted_wrt (<) xs"

lemma ascending_distinct: "ascending xs \<Longrightarrow> distinct xs"
  by (simp add: ascending_def strict_sorted_iff)

lemma insort_last: "\<forall>x \<in> set xs. x < (e :: nat) \<Longrightarrow> insort e xs = xs @ [e]"
  by (induction xs) auto

lemma ascending_snoc: "ascending (xs @ [e]) \<longleftrightarrow> ascending xs \<and> (\<forall>x \<in> set xs. x < e)"
  by (auto simp: ascending_def sorted_wrt_append)

lemma combinations_set:
  assumes "ascending elems" and "ascending part" and "\<forall>x \<in> set part. \<forall>y \<in> set elems. x < y"
  shows "set (generateAllCombinations elems part m) =
    {part @ ys | ys. ascending ys \<and> set ys \<subseteq> set elems \<and> length ys = m}"
  using assms
proof (induction elems part m rule: generateAllCombinations.induct)
  case (2 elems part m)
  let ?f = "\<lambda>e. filter (\<lambda>x. \<not> x < e \<and> x \<noteq> e) elems"
  have step: "set (generateAllCombinations (?f e) (insort e part) m) =
      {(part @ [e]) @ ys | ys. ascending ys \<and> set ys \<subseteq> set (?f e) \<and> length ys = m}" if e: "e \<in> set elems" for e
  proof -
    have ins: "insort e part = part @ [e]" using "2.prems"(3) e by (intro insort_last) auto
    show ?thesis unfolding ins
      by (rule "2.IH" [OF e, unfolded ins])
        (use "2.prems" e in \<open>auto simp: ascending_snoc ascending_def sorted_wrt_filter sorted_wrt_append\<close>)
  qed
  have eq: "(\<exists>e ys. e \<in> set elems \<and> zs = (part @ [e]) @ ys \<and> ascending ys \<and> set ys \<subseteq> set (?f e) \<and> length ys = m) =
      (\<exists>ys. zs = part @ ys \<and> ascending ys \<and> set ys \<subseteq> set elems \<and> length ys = Suc m)" for zs
  proof (intro iffI; elim exE conjE)
    fix e ys
    assume a: "e \<in> set elems" "zs = (part @ [e]) @ ys" "ascending ys" "set ys \<subseteq> set (?f e)" "length ys = m"
    then show "\<exists>ys. zs = part @ ys \<and> ascending ys \<and> set ys \<subseteq> set elems \<and> length ys = Suc m"
      by (intro exI [of _ "e # ys"]) (auto simp: ascending_def)
  next
    fix ys
    assume a: "zs = part @ ys" "ascending ys" "set ys \<subseteq> set elems" "length ys = Suc m"
    then obtain e zs' where "ys = e # zs'" by (cases ys) auto
    with a show "\<exists>e ys. e \<in> set elems \<and> zs = (part @ [e]) @ ys \<and> ascending ys \<and> set ys \<subseteq> set (?f e) \<and> length ys = m"
      by (intro exI [of _ e] exI [of _ zs']) (auto simp: ascending_def)
  qed
  have "zs \<in> set (generateAllCombinations elems part (Suc m)) \<longleftrightarrow>
      (\<exists>e ys. e \<in> set elems \<and> zs = (part @ [e]) @ ys \<and> ascending ys \<and> set ys \<subseteq> set (?f e) \<and> length ys = m)" for zs
    using step by fastforce
  then show ?case unfolding eq by blast
qed (auto simp: ascending_def)

lemma combinations_distinct:
  assumes "ascending elems" and "ascending part" and "\<forall>x \<in> set part. \<forall>y \<in> set elems. x < y"
  shows "distinct (generateAllCombinations elems part m)"
  using assms
proof (induction elems part m rule: generateAllCombinations.induct)
  case (2 elems part m)
  let ?f = "\<lambda>e. filter (\<lambda>x. \<not> x < e \<and> x \<noteq> e) elems"
  let ?g = "\<lambda>e. generateAllCombinations (?f e) (insort e part) m"
  have ins: "insort e part = part @ [e]" if "e \<in> set elems" for e
    using "2.prems"(3) that by (intro insort_last) auto
  have pre: "ascending (?f e)" "ascending (part @ [e])" "\<forall>x \<in> set (part @ [e]). \<forall>y \<in> set (?f e). x < y"
    if "e \<in> set elems" for e
    using that "2.prems" by (auto simp: ascending_def sorted_wrt_filter sorted_wrt_append)
  have d: "distinct (?g e)" if "e \<in> set elems" for e
    using "2.IH" [OF that] pre [OF that] unfolding ins [OF that] by blast
  have start: "\<exists>ys. zs = part @ e # ys" if "e \<in> set elems" "zs \<in> set (?g e)" for e zs
    using that combinations_set [OF pre [OF that(1)], of m] unfolding ins [OF that(1)] by auto
  have disj: "set (?g e) \<inter> set (?g e') = {}" if "e \<in> set elems" "e' \<in> set elems" "e \<noteq> e'" for e e'
    using start [OF that(1)] start [OF that(2)] that(3) by fastforce
  have aux: "distinct es \<Longrightarrow> set es \<subseteq> set elems \<Longrightarrow> distinct (concat (map ?g es))" for es
  proof (induction es)
    case (Cons e es)
    then have "set (?g e) \<inter> (\<Union>e' \<in> set es. set (?g e')) = {}" using disj by fastforce
    with Cons d show ?case by auto
  qed simp
  show ?case using aux [of elems] ascending_distinct [OF "2.prems"(1)] by simp
qed simp

section \<open>Holders of a share\<close>

lemma length_p2s [simp]: "length (generatePartyShareMappings n k) = n"
  by (simp add: generatePartyShareMappings_def)

lemma nth_p2s: "p < n \<Longrightarrow> generatePartyShareMappings n k ! p = map (\<lambda>j. (p + j) mod n) [0..<k]"
  by (simp add: generatePartyShareMappings_def)

lemma mod_shift:
  assumes "i < n"
  shows "(p + i) mod n = (if p mod n + i < n then p mod n + i else p mod n + i - (n :: nat))"
proof -
  have l: "p mod n < n" using assms by simp
  have "(p mod n + i) mod n = (if p mod n + i < n then p mod n + i else p mod n + i - n)"
  proof (cases "p mod n + i < n")
    case False
    then have "(p mod n + i) mod n = (p mod n + i - n) mod n" by (simp add: le_mod_geq)
    moreover have "p mod n + i - n < n" using l assms by linarith
    ultimately show ?thesis using False by simp
  qed simp
  then show ?thesis unfolding mod_add_left_eq .
qed

lemma mod_shift_inj:
  assumes "i < n" and "j < n" and "(p + i) mod n = (p + j) mod (n :: nat)"
  shows "i = j"
proof -
  have "p mod n < n" using assms(1) by simp
  then show ?thesis using assms(1,2) assms(3) [unfolded mod_shift [OF assms(1)] mod_shift [OF assms(2)]]
    by (auto split: if_splits)
qed

lemma distinct_p2s: "k \<le> n \<Longrightarrow> p < n \<Longrightarrow> distinct (generatePartyShareMappings n k ! p)"
  by (auto simp: nth_p2s distinct_map inj_on_def) (metis mod_shift_inj order_less_le_trans)

lemma p2s_less: "p < n \<Longrightarrow> s \<in> set (generatePartyShareMappings n k ! p) \<Longrightarrow> s < n"
  by (auto simp: nth_p2s)

lemma push_holders:
  assumes "distinct ss" and "\<forall>s \<in> set ss. s < length acc"
  shows "length (foldl (push_holder p) acc ss) = length acc"
    and "s < length acc \<Longrightarrow> foldl (push_holder p) acc ss ! s = (if s \<in> set ss then acc ! s @ [p] else acc ! s)"
  using assms by (induction ss arbitrary: acc) (auto simp: push_holder_def nth_list_update)

lemma s2p_fold:
  assumes "k \<le> n" and "m \<le> n"
  shows "length (foldl (\<lambda>acc p. foldl (push_holder p) acc (generatePartyShareMappings n k ! p)) (replicate n []) [0..<m]) = n \<and>
    (\<forall>s < n. foldl (\<lambda>acc p. foldl (push_holder p) acc (generatePartyShareMappings n k ! p)) (replicate n []) [0..<m] ! s
      = filter (\<lambda>p. s \<in> set (generatePartyShareMappings n k ! p)) [0..<m])"
  using assms(2)
proof (induction m)
  case (Suc m)
  let ?a = "foldl (\<lambda>acc p. foldl (push_holder p) acc (generatePartyShareMappings n k ! p)) (replicate n []) [0..<m]"
  have l: "length ?a = n" and m: "m < n" using Suc by simp_all
  have d: "distinct (generatePartyShareMappings n k ! m)" "\<forall>s \<in> set (generatePartyShareMappings n k ! m). s < length ?a"
    using distinct_p2s [OF assms(1) m] p2s_less [OF m] l by auto
  show ?case using push_holders [OF d] l m Suc by simp
qed simp

lemma nth_s2p:
  assumes "k \<le> n" and "s < n"
  shows "generateSharePartyMappings n k ! s = filter (\<lambda>p. s \<in> set (generatePartyShareMappings n k ! p)) [0..<n]"
  using s2p_fold [OF assms(1), of n] assms(2) by (simp add: generateSharePartyMappings_def Let_def)

section \<open>Matching of the assignments\<close>

definition lowest_holder :: "nat \<Rightarrow> nat \<Rightarrow> nat list \<Rightarrow> nat \<Rightarrow> nat option" where
  "lowest_holder n k grp s = first_in_group grp (generateSharePartyMappings n k ! s)"

lemma lowest_holder_SomeD:
  assumes "lowest_holder n k grp s = Some q" and "k \<le> n" and "s < n"
  shows "q < n" and "q \<in> set grp" and "s \<in> set (generatePartyShareMappings n k ! q)"
    and "\<forall>q' < q. q' \<in> set grp \<longrightarrow> s \<notin> set (generatePartyShareMappings n k ! q')"
proof -
  let ?f = "filter (\<lambda>p. s \<in> set (generatePartyShareMappings n k ! p)) [0..<n]"
  obtain i where i: "i < length ?f" "?f ! i \<in> set grp" "q = ?f ! i" "\<forall>j < i. ?f ! j \<notin> set grp"
    using assms(1) unfolding lowest_holder_def first_in_group_def nth_s2p [OF assms(2,3)] find_Some_iff by auto
  then have m: "q \<in> set ?f" using nth_mem by blast
  then show "q < n" "q \<in> set grp" "s \<in> set (generatePartyShareMappings n k ! q)" using i by auto
  show "\<forall>q' < q. q' \<in> set grp \<longrightarrow> s \<notin> set (generatePartyShareMappings n k ! q')"
  proof (intro allI impI notI)
    fix q' assume q: "q' < q" "q' \<in> set grp" "s \<in> set (generatePartyShareMappings n k ! q')"
    then have "q' \<in> set ?f" using m by auto
    then obtain j where j: "j < length ?f" "?f ! j = q'" by (meson in_set_conv_nth)
    have "sorted ?f" by (rule sorted_wrt_filter) simp
    then have "j < i" using q(1) i(1,3) j by (metis leD linorder_neqE_nat nat_less_le sorted_nth_mono)
    then show False using i(4) j(2) q(2) by blast
  qed
qed

text \<open>The index that a sender looks up for a wanted share.\<close>

lemma send_lookup:
  assumes "p < n" and "k \<le> n" and "s < n" and "p \<in> set grp"
  shows "find (\<lambda>si. generatePartyShareMappings n k ! p ! si = s \<and>
      map (\<lambda>si. is_canonical grp p (generateSharePartyMappings n k ! (generatePartyShareMappings n k ! p ! si))) [0..<k] ! si) [0..<k]
    = None \<longleftrightarrow> lowest_holder n k grp s \<noteq> Some p"
    and "find (\<lambda>si. generatePartyShareMappings n k ! p ! si = s \<and>
      map (\<lambda>si. is_canonical grp p (generateSharePartyMappings n k ! (generatePartyShareMappings n k ! p ! si))) [0..<k] ! si) [0..<k]
    = Some i \<Longrightarrow> i < k \<and> generatePartyShareMappings n k ! p ! i = s"
proof -
  let ?my = "generatePartyShareMappings n k ! p"
  let ?P = "\<lambda>si. ?my ! si = s \<and> map (\<lambda>si. is_canonical grp p (generateSharePartyMappings n k ! (?my ! si))) [0..<k] ! si"
  have P: "?P si \<longleftrightarrow> ?my ! si = s \<and> (lowest_holder n k grp s = None \<or> lowest_holder n k grp s = Some p)" if "si < k" for si
    using that by (auto simp: is_canonical_def lowest_holder_def split: option.splits)
  have held: "lowest_holder n k grp s \<noteq> None" if "si < k" "?my ! si = s" for si
  proof -
    have "s \<in> set ?my" using that assms(1) nth_mem [of si ?my] by (simp add: nth_p2s)
    then show ?thesis using assms
      by (auto simp: lowest_holder_def first_in_group_def nth_s2p find_None_iff)
  qed
  show "find ?P [0..<k] = None \<longleftrightarrow> lowest_holder n k grp s \<noteq> Some p"
  proof
    assume a: "find ?P [0..<k] = None"
    show "lowest_holder n k grp s \<noteq> Some p"
    proof
      assume h: "lowest_holder n k grp s = Some p"
      then have "s \<in> set ?my" using lowest_holder_SomeD(3) assms by blast
      then obtain si where "si < k" "?my ! si = s" using assms(1) by (auto simp: in_set_conv_nth nth_p2s)
      then show False using a P h by (auto simp: find_None_iff)
    qed
  qed (use P held in \<open>fastforce simp: find_None_iff\<close>)
  show "find ?P [0..<k] = Some i \<Longrightarrow> i < k \<and> ?my ! i = s"
    by (auto simp: find_Some_iff)
qed

definition sends_to :: "nat \<Rightarrow> nat \<Rightarrow> nat list \<Rightarrow> nat \<Rightarrow> nat \<Rightarrow> nat list" where
  "sends_to n k grp p q =
     (let sa = generate_send_assignment n k p grp
      in map (\<lambda>(r, si). generatePartyShareMappings n k ! p ! si)
           (filter (\<lambda>(r, si). r = int q - int p) (zip (ranks sa) (shareIdx sa))))"

lemma concat_single: "distinct xs \<Longrightarrow> concat (map (\<lambda>x. if x = q then f x else []) xs) = (if q \<in> set xs then f q else [])"
  by (induction xs) auto

lemma sends_to_lookup:
  fixes S defines "S \<equiv> generatePartyShareMappings"
  assumes "q < n" and "q \<notin> set grp"
  shows "sends_to n k grp p q = map (\<lambda>(r, si). S n k ! p ! si) (concat (map (\<lambda>qs.
      case find (\<lambda>si. S n k ! p ! si = qs \<and>
        map (\<lambda>si. is_canonical grp p (generateSharePartyMappings n k ! (S n k ! p ! si))) [0..<k] ! si) [0..<k] of
      Some si \<Rightarrow> [(int q - int p, si)] | None \<Rightarrow> []) (S n k ! q)))"
proof -
  define L where "L qs = find (\<lambda>si. S n k ! p ! si = qs \<and>
        map (\<lambda>si. is_canonical grp p (generateSharePartyMappings n k ! (S n k ! p ! si))) [0..<k] ! si) [0..<k]" for qs
  define W where "W q' = concat (map (\<lambda>qs. case L qs of Some si \<Rightarrow> [(int q' - int p, si)] | None \<Rightarrow> []) (S n k ! q'))" for q'
  have sel: "filter (\<lambda>(r, si). r = int q - int p) (W q') = (if q' = q then W q' else [])" for q'
    by (auto simp: W_def filter_concat comp_def filter_empty_conv intro!: arg_cong [where f = concat] split: option.splits)
  have "filter (\<lambda>(r, si). r = int q - int p) (concat (map (\<lambda>q'. if q' \<in> set grp then [] else W q') [0..<n]))
      = concat (map (\<lambda>q'. if q' = q then W q' else []) [0..<n])"
    unfolding filter_concat map_map using assms(3)
    by (intro arg_cong [where f = concat] map_cong) (auto simp: sel)
  also have "\<dots> = W q" using assms(2) by (simp add: concat_single)
  finally have "filter (\<lambda>(r, si). r = int q - int p) (concat (map (\<lambda>q'. if q' \<in> set grp then [] else W q') [0..<n])) = W q" .
  moreover have "sends_to n k grp p q = map (\<lambda>(r, si). S n k ! p ! si)
      (filter (\<lambda>(r, si). r = int q - int p) (concat (map (\<lambda>q'. if q' \<in> set grp then [] else W q') [0..<n])))"
    unfolding sends_to_def generate_send_assignment_def Let_def W_def L_def S_def by (simp add: zip_map_fst_snd)
  ultimately show ?thesis unfolding W_def L_def by (simp only:)
qed

lemma sends_to_matches:
  assumes "p < n" and "q < n" and "k \<le> n" and "p \<in> set grp" and "q \<notin> set grp"
  shows "sends_to n k grp p q = filter (\<lambda>s. lowest_holder n k grp s = Some p) (generatePartyShareMappings n k ! q)"
proof -
  let ?S = "generatePartyShareMappings n k"
  define L where "L qs = find (\<lambda>si. ?S ! p ! si = qs \<and>
        map (\<lambda>si. is_canonical grp p (generateSharePartyMappings n k ! (?S ! p ! si))) [0..<k] ! si) [0..<k]" for qs
  have L1: "(L s = None) = (lowest_holder n k grp s \<noteq> Some p)" if "s < n" for s
    unfolding L_def by (rule send_lookup(1) [OF assms(1,3) that assms(4)])
  have L2: "L s = Some i \<Longrightarrow> ?S ! p ! i = s" if "s < n" for s i
    unfolding L_def by (drule send_lookup(2) [OF assms(1,3) that assms(4)]) simp
  have "map (\<lambda>(r, si). ?S ! p ! si) (concat (map (\<lambda>qs. case L qs of Some si \<Rightarrow> [(int q - int p, si)] | None \<Rightarrow> []) qss))
      = filter (\<lambda>s. lowest_holder n k grp s = Some p) qss" if "\<forall>s \<in> set qss. s < n" for qss
    using that
  proof (induction qss)
    case (Cons s qss)
    then show ?case using L1 [of s] L2 [of s] by (cases "L s") auto
  qed simp
  then show ?thesis
    unfolding sends_to_lookup [OF assms(2,5)] L_def [symmetric] using p2s_less [OF assms(2)] by blast
qed

lemma recv_ranks:
  "ranks (generate_recv_assignment n k q grp) =
    map (\<lambda>s. int (the (lowest_holder n k grp s)) - int q)
      (filter (\<lambda>s. lowest_holder n k grp s \<noteq> None) (generatePartyShareMappings n k ! q))"
proof -
  have "concat (map (\<lambda>s. case first_in_group grp (T ! s) of Some p \<Rightarrow> [int p - int q] | None \<Rightarrow> []) ss) =
      map (\<lambda>s. int (the (first_in_group grp (T ! s))) - int q) (filter (\<lambda>s. first_in_group grp (T ! s) \<noteq> None) ss)"
    for T ss by (induction ss) (auto split: option.splits)
  then show ?thesis by (simp add: generate_recv_assignment_def lowest_holder_def Let_def)
qed

text \<open>With enough members every share has a holder in the group.\<close>

lemma group_covers:
  assumes "k \<le> n" and "s < n" and "\<forall>p \<in> set grp. p < n" and "distinct grp" and "n < length grp + k"
  shows "lowest_holder n k grp s \<noteq> None"
proof -
  let ?H = "{p. p < n \<and> s \<in> set (generatePartyShareMappings n k ! p)}"
  have "(\<lambda>j. (s + n - j) mod n) ` {..<k} \<subseteq> ?H"
  proof
    fix p assume "p \<in> (\<lambda>j. (s + n - j) mod n) ` {..<k}"
    then obtain j where j: "j < k" "p = (s + n - j) mod n" by auto
    have "(p + j) mod n = (s + n - j + j) mod n" unfolding j(2) by (rule mod_add_left_eq)
    also have "\<dots> = s" using j(1) assms(1,2) by simp
    finally have "s \<in> set (generatePartyShareMappings n k ! p)"
      using j assms(2) by (auto simp: nth_p2s image_iff intro!: bexI [of _ j])
    then show "p \<in> ?H" using j(2) assms(2) by simp
  qed
  moreover have "inj_on (\<lambda>j. (s + n - j) mod n) {..<k}"
  proof (rule inj_onI)
    fix i j assume a: "i \<in> {..<k}" "j \<in> {..<k}" "(s + n - i) mod n = (s + n - j) mod n"
    have "((s + n - i) mod n + (i + j)) mod n = ((s + n - j) mod n + (i + j)) mod n" using a(3) by simp
    then have "(s + n - i + (i + j)) mod n = (s + n - j + (i + j)) mod n" by (simp only: mod_add_left_eq)
    moreover have "s + n - i + (i + j) = (s + n) + j" "s + n - j + (i + j) = (s + n) + i" using a(1,2) assms(1) by auto
    ultimately have "((s + n) + j) mod n = ((s + n) + i) mod n" by simp
    then show "i = j" using mod_shift_inj [of j n i "s + n"] a(1,2) assms(1) by simp
  qed
  ultimately have "card {..<k} \<le> card ?H" by (intro card_inj_on_le) simp_all
  then have "k \<le> card ?H" by simp
  moreover have "card (set grp \<union> ?H) \<le> n"
    using card_mono [of "{..<n}" "set grp \<union> ?H"] assms(3) by auto
  moreover have "card (set grp) = length grp" using assms(4) by (rule distinct_card)
  ultimately have "set grp \<inter> ?H \<noteq> {}"
    using card_Un_Int [of "set grp" ?H] assms(5) by (intro notI) simp
  then show ?thesis
    by (auto simp: lowest_holder_def first_in_group_def nth_s2p [OF assms(1,2)] find_None_iff)
qed

lemma matched_assignments:
  assumes "p < n" and "q < n" and "k \<le> n" and "p \<in> set grp" and "q \<notin> set grp"
    and "\<forall>s < n. lowest_holder n k grp s \<noteq> None"
  shows "sends_to n k grp p q = map fst (filter (\<lambda>(s, r). r = int p - int q)
    (zip (generatePartyShareMappings n k ! q) (ranks (generate_recv_assignment n k q grp))))"
proof -
  let ?ss = "generatePartyShareMappings n k ! q" and ?h = "lowest_holder n k grp"
  have lt: "\<forall>s \<in> set ?ss. s < n" using p2s_less [OF assms(2)] by blast
  have rk: "ranks (generate_recv_assignment n k q grp) = map (\<lambda>s. int (the (?h s)) - int q) ?ss"
    using lt assms(6) by (simp add: recv_ranks filter_id_conv)
  have z: "map fst (filter (\<lambda>(s, r). r = int p - int q) (zip ss (map (\<lambda>s. int (the (?h s)) - int q) ss)))
      = filter (\<lambda>s. ?h s = Some p) ss" if "\<forall>s \<in> set ss. ?h s \<noteq> None" for ss
    using that by (induction ss) auto
  show ?thesis unfolding rk sends_to_matches [OF assms(1-5)] using z [of ?ss] lt assms(6) by simp
qed

end
