(* ===== verification/Reshare.thy ===== *)
theory Reshare
  imports Protocol_Base Communication EVector
begin

text \<open>
  \<open>Protocol::reshare\<close> (\<open>core/protocols/interface/protocol.h\<close>): a group of parties rerandomises a shared
  vector with a zero sharing from its common generator and sends the new shares to the parties
  outside the group.  The joint run lets the members act first.  The theorem covers every number of
  parties and every replication factor: the secret is unchanged, every party ends with the new
  shares, and no message is left over.
\<close>

section \<open>One party\<close>

definition receiveBroadcast ::
  "nat \<Rightarrow> nat \<Rightarrow> 'a::len vec list \<Rightarrow> int list \<Rightarrow> ('a, 's) world \<Rightarrow> ('a vec list \<times> ('a, 's) world) option" where
  "receiveBroadcast n p bufs partyIDs w =
     (if length bufs \<noteq> length partyIDs then None
      else foldr (\<lambda>(buf, rel) rest w. do {
          (v, w) \<leftarrow> receiveShares n p buf rel w;
          (vs, w) \<leftarrow> rest w;
          Some (v # vs, w)
        }) (zip bufs partyIDs) (\<lambda>w. Some ([], w)) w)"

definition zero_vectors ::
  "bool \<Rightarrow> 's cipher \<Rightarrow> nat \<Rightarrow> nat \<Rightarrow> nat list \<Rightarrow> 's manager \<Rightarrow> ('a::len vec list \<times> 's manager) option" where
  "zero_vectors binary aes n sz grp m =
     (if binary then groupGetNextBinary aes n sz grp m else groupGetNextArithmetic aes n sz grp m)"

text \<open>\<open>reshareMap[group]\<close> of a group that was never registered is a default assignment: send, to nobody.\<close>

definition party_reshare ::
  "bool \<Rightarrow> 's cipher \<Rightarrow> nat \<Rightarrow> nat \<Rightarrow> nat list \<Rightarrow> nat \<Rightarrow> 'a::len evec \<Rightarrow> ('a, 's) world
    \<Rightarrow> ('a evec \<times> ('a, 's) world) option" where
  "party_reshare binary aes n k grp p v w =
     (let ra = (case reshareMap n k p grp of Some ra \<Rightarrow> ra | None \<Rightarrow> \<lparr>action = Send, ranks = [], shareIdx = []\<rparr>) in
      case action ra of
        Send \<Rightarrow>
          if length (ranks ra) \<noteq> length (shareIdx ra) then None
          else do {
            (rand, m) \<leftarrow> zero_vectors binary aes n (evec_size v) grp (mgrs w ! p);
            let my_shares = generatePartyShareMappings n k ! p;
            let f = (if binary then (XOR) else (+));
            let v = v\<lparr>cols := map (\<lambda>i. vec_op f (col i v) (rand ! (my_shares ! i))) [0..<k]\<rparr>;
            let w = w\<lparr>mgrs := (mgrs w)[p := m]\<rparr>;
            let w = foldl (\<lambda>w (r, si). sendShares n p (col si v) r w) w (zip (ranks ra) (shareIdx ra));
            Some (v, w)
          }
      | Receive \<Rightarrow> do {
          (cs, w) \<leftarrow> receiveBroadcast n p (cols v) (ranks ra) w;
          Some (v\<lparr>cols := cs\<rparr>, w)
        })"

section \<open>All parties\<close>

primrec reshare_run ::
  "bool \<Rightarrow> 's cipher \<Rightarrow> nat \<Rightarrow> nat \<Rightarrow> nat list \<Rightarrow> nat list \<Rightarrow> 'a::len sharing \<Rightarrow> ('a, 's) world
    \<Rightarrow> ('a sharing \<times> ('a, 's) world) option" where
  "reshare_run binary aes n k grp [] X w = Some (X, w)"
| "reshare_run binary aes n k grp (p # ps) X w = do {
     (v, w) \<leftarrow> party_reshare binary aes n k grp p (X ! p) w;
     reshare_run binary aes n k grp ps (X[p := v]) w
   }"

definition reshare ::
  "bool \<Rightarrow> 's cipher \<Rightarrow> nat \<Rightarrow> nat \<Rightarrow> nat list \<Rightarrow> 'a::len sharing \<Rightarrow> ('a, 's) world
    \<Rightarrow> ('a sharing \<times> ('a, 's) world) option" where
  "reshare binary aes n k grp X w =
     reshare_run binary aes n k grp (grp @ filter (\<lambda>p. p \<notin> set grp) [0..<n]) X w"

section \<open>The common zero sharing\<close>

lemma group_loop_common:
  assumes "cipher_ok TYPE('a::len) aes"
  shows "\<exists>vs g'. length vs = Suc i \<and> (length v = sz \<longrightarrow> (\<forall>u \<in> set vs. length u = sz)) \<and>
    last vs = foldl (map2 f) v (butlast vs) \<and>
    (\<forall>m. store m obj = g \<longrightarrow>
       group_loop aes f (Some obj) sz i (v :: 'a vec) m = Some (vs, m\<lparr>store := (store m)(obj := g')\<rparr>))"
proof (induction i arbitrary: v g)
  case 0
  have "group_loop aes f (Some obj) sz 0 v m = Some ([v], m\<lparr>store := (store m)(obj := g)\<rparr>)" if "store m obj = g" for m
  proof -
    have "(store m)(obj := g) = store m" using that by auto
    then show ?thesis by simp
  qed
  then show ?case by (intro exI [of _ "[v]"] exI [of _ g]) (auto simp del: group_loop.simps fun_upd_apply)
next
  case (Suc i)
  let ?r = "rnd aes sz g :: 'a vec" and ?g = "adv TYPE('a) aes sz g"
  obtain vs g' where vs: "length vs = Suc i" "length (map2 f v ?r) = sz \<longrightarrow> (\<forall>u \<in> set vs. length u = sz)"
    "last vs = foldl (map2 f) (map2 f v ?r) (butlast vs)"
    "\<And>m. store m obj = ?g \<Longrightarrow> group_loop aes f (Some obj) sz i (map2 f v ?r) m = Some (vs, m\<lparr>store := (store m)(obj := g')\<rparr>)"
    using Suc [of "map2 f v ?r" ?g] by blast
  have run: "group_loop aes f (Some obj) sz (Suc i) v m = Some (?r # vs, m\<lparr>store := (store m)(obj := g')\<rparr>)" if "store m obj = g" for m
    using vs(4) [of "m\<lparr>store := (store m)(obj := ?g)\<rparr>"] that assms by (simp add: draw_Some)
  have ne: "vs \<noteq> []" using vs(1) by auto
  have r: "length ?r = sz" using assms by simp
  show ?case
  proof (intro exI [of _ "?r # vs"] exI [of _ g'] conjI allI impI)
    show "length (?r # vs) = Suc (Suc i)" using vs(1) by simp
    show "\<forall>u \<in> set (?r # vs). length u = sz" if "length v = sz" using vs(2) r that by simp
    show "last (?r # vs) = foldl (map2 f) v (butlast (?r # vs))" using ne vs(3) by (simp del: length_rnd)
  qed (rule run)
qed

lemma foldl_vxor_zero:
  assumes "\<forall>u \<in> set us. length u = m" and "length v = m"
  shows "foldl (map2 (XOR)) v us = vxor (v :: 'a::len vec) (vxor_all m us)"
  using assms
proof (induction us arbitrary: v)
  case (Cons u us)
  have "foldl (map2 (XOR)) (map2 (XOR) v u) us = vxor (map2 (XOR) v u) (vxor_all m us)" using Cons by simp
  also have "\<dots> = vxor v (vxor u (vxor_all m us))" unfolding vxor_def [symmetric]
    by (intro vec_eqI) (simp_all add: xor.assoc)
  finally show ?case by simp
qed simp

lemma foldl_vsub_zero:
  assumes "\<forall>u \<in> set us. length u = m" and "length v = m"
  shows "vadd (foldl (map2 (-)) v us) (vadd_all m us) = (v :: 'a::len vec)"
  using assms
proof (induction us arbitrary: v)
  case (Cons u us)
  have l: "length (foldl (map2 (-)) x us) = m" if "length x = m" for x :: "'a vec"
    using that Cons.prems(1) by (induction us arbitrary: x) auto
  have "vadd (foldl (map2 (-)) (map2 (-) v u) us) (vadd u (vadd_all m us))
      = vadd u (vadd (foldl (map2 (-)) (map2 (-) v u) us) (vadd_all m us))"
    by (intro vec_eqI) (simp_all add: ac_simps)
  also have "\<dots> = vadd u (map2 (-) v u)" using Cons by simp
  also have "\<dots> = v" using Cons.prems by (intro vec_eqI) simp_all
  finally show ?case by simp
qed simp

lemma vxor_all_append: "\<forall>u \<in> set (us @ vs). length u = m \<Longrightarrow> vxor_all m (us @ vs) = vxor (vxor_all m us) (vxor_all m vs)"
  by (induction us) (auto intro!: vec_eqI simp: xor.assoc)

lemma vadd_all_append: "\<forall>u \<in> set (us @ vs). length u = m \<Longrightarrow> vadd_all m (us @ vs) = vadd (vadd_all m us) (vadd_all m vs)"
  by (induction us) (auto intro!: vec_eqI simp: add.assoc)

definition group_prg_ok :: "nat list \<Rightarrow> 's prg \<Rightarrow> 's manager \<Rightarrow> bool" where
  "group_prg_ok grp g m \<longleftrightarrow> get_group m grp = Some (GroupPRG grp) \<and> store m (GroupPRG grp) = g"

lemma zero_vectors_common:
  assumes "cipher_ok TYPE('a::len) aes" and "0 < n"
  shows "\<exists>(rand :: 'a vec list) g'. length rand = n \<and> (\<forall>u \<in> set rand. length u = sz) \<and>
    (if binary then vxor_all sz rand = replicate sz 0 else vadd_all sz rand = replicate sz 0) \<and>
    (\<forall>m. group_prg_ok grp g m \<longrightarrow> zero_vectors binary aes n sz grp m =
       Some (rand, m\<lparr>store := (store m)(GroupPRG grp := g')\<rparr>))"
proof -
  let ?z = "replicate sz 0 :: 'a vec" and ?f = "if binary then (XOR) else (-) :: 'a word \<Rightarrow> 'a word \<Rightarrow> 'a word"
  obtain vs g' where vs: "length vs = Suc (n - 1)" "\<forall>u \<in> set vs. length u = sz"
    "last vs = foldl (map2 ?f) ?z (butlast vs)"
    "\<And>m. store m (GroupPRG grp) = g \<Longrightarrow> group_loop aes ?f (Some (GroupPRG grp)) sz (n - 1) ?z m
       = Some (vs, m\<lparr>store := (store m)(GroupPRG grp := g')\<rparr>)"
    using group_loop_common [OF assms(1), of "n - 1" ?z sz ?f "GroupPRG grp" g] by auto
  have ne: "vs \<noteq> []" using vs(1) by auto
  then have e: "butlast vs @ [last vs] = vs" by simp
  have b: "\<forall>u \<in> set (butlast vs). length u = sz" "length (last vs) = sz" using vs(2) ne by (auto dest: in_set_butlastD)
  have "if binary then vxor_all sz vs = ?z else vadd_all sz vs = ?z"
  proof (cases binary)
    case True
    have l: "last vs = vxor ?z (vxor_all sz (butlast vs))"
      using vs(3) True foldl_vxor_zero [OF b(1), of ?z] by simp
    have "vxor_all sz (butlast vs @ [last vs]) = vxor (vxor_all sz (butlast vs)) (last vs)"
      using b by (subst vxor_all_append) auto
    also have "\<dots> = vxor (vxor_all sz (butlast vs)) (vxor ?z (vxor_all sz (butlast vs)))"
      by (rule arg_cong [OF l])
    also have "vxor (vxor_all sz (butlast vs)) (vxor ?z (vxor_all sz (butlast vs))) = ?z"
      using b(1) by (intro vec_eqI) (simp_all add: ac_simps)
    finally show ?thesis using True unfolding e by simp
  next
    case False
    have "vadd_all sz (butlast vs @ [last vs]) = vadd (vadd_all sz (butlast vs)) (last vs)"
      using b by (subst vadd_all_append) auto
    also have "\<dots> = vadd (last vs) (vadd_all sz (butlast vs))"
      using b by (intro vec_eqI) (simp_all add: add.commute)
    also have "\<dots> = ?z" using vs(3) False foldl_vsub_zero [OF b(1), of ?z] by simp
    finally show ?thesis using False unfolding e by simp
  qed
  moreover have "zero_vectors binary aes n sz grp m = Some (vs, m\<lparr>store := (store m)(GroupPRG grp := g')\<rparr>)"
    if "group_prg_ok grp g m" for m
    using that vs(4) [of m] assms(2)
    by (cases binary) (simp_all add: zero_vectors_def groupGetNextBinary_def groupGetNextArithmetic_def group_prg_ok_def)
  ultimately show ?thesis using vs(1,2) assms(2) by (intro exI [of _ vs] exI [of _ g']) simp
qed

section \<open>The members send\<close>

lemma abs_rank_difference: "q < n \<Longrightarrow> abs_rank n p (int q - int p) = q"
  by (simp add: rank_simps)

lemma find_upt_less: "Some i = find P [0..<k] \<Longrightarrow> i < k"
  by (auto simp: eq_commute [of "Some i"] find_Some_iff)

lemma send_assignment_elem:
  assumes "(r, si) \<in> set (zip (ranks (generate_send_assignment n k p grp)) (shareIdx (generate_send_assignment n k p grp)))"
  shows "si < k" and "\<exists>q < n. q \<notin> set grp \<and> r = int q - int p"
  using assms unfolding generate_send_assignment_def Let_def
  by (auto simp: zip_map_fst_snd dest!: find_upt_less split: if_splits option.splits)

lemma send_assignment_action [simp]:
  "action (generate_send_assignment n k p grp) = Send"
  "length (shareIdx (generate_send_assignment n k p grp)) = length (ranks (generate_send_assignment n k p grp))"
  "action (generate_recv_assignment n k p grp) = Receive"
  by (simp_all add: generate_send_assignment_def generate_recv_assignment_def Let_def)

lemma sends_chan:
  "chan (foldl (\<lambda>w (r, si). sendShares n p (f si) r w) w rs) a b =
     chan w a b @ (if a = p then map (\<lambda>(r, si). f si) (filter (\<lambda>(r, si). abs_rank n p r = b) rs) else [])"
  "mgrs (foldl (\<lambda>w (r, si). sendShares n p (f si) r w) w rs) = mgrs w"
  by (induction rs arbitrary: w) auto

lemma sends_to_outside: "b \<in> set grp \<or> n \<le> b \<Longrightarrow> sends_to n k grp p b = []"
  unfolding sends_to_def Let_def map_is_Nil_conv filter_empty_conv
  using send_assignment_elem(2) [of _ _ n k p grp] by fastforce

lemma sent_messages:
  assumes "p < n" and "length ys = n"
  shows "map (\<lambda>(r, si). col si (share_out k q ys ! p)) (filter (\<lambda>(r, si). abs_rank n p r = b)
      (zip (ranks (generate_send_assignment n k p grp)) (shareIdx (generate_send_assignment n k p grp))))
    = map ((!) ys) (sends_to n k grp p b)"
proof -
  let ?z = "zip (ranks (generate_send_assignment n k p grp)) (shareIdx (generate_send_assignment n k p grp))"
  have "filter (\<lambda>(r, si). abs_rank n p r = b) ?z = filter (\<lambda>(r, si). r = int b - int p) ?z"
    by (rule filter_cong [OF refl]) (auto dest!: send_assignment_elem(2) simp: abs_rank_difference)
  moreover have "col si (share_out k q ys ! p) = ys ! (generatePartyShareMappings n k ! p ! si)"
    if "(r, si) \<in> set ?z" for r si
    using send_assignment_elem(1) [OF that] assms by (simp add: col_def nth_share_out nth_p2s)
  ultimately show ?thesis unfolding sends_to_def Let_def map_map by (intro map_cong) auto
qed

lemma member_reshare:
  fixes xs rand :: "'a::len vec list"
  assumes "grp \<in> set (getGroups n)" and "p \<in> set grp" and "p < n" and "0 < k"
    and "length xs = n" and "\<forall>x \<in> set xs. length x = m" and "length rand = n" and "length (mgrs w) = n"
    and z: "zero_vectors binary aes n m grp (mgrs w ! p) = Some (rand, mg)"
    and Y: "Y = share_out k q (map2 (vec_op (if binary then (XOR) else (+))) xs rand)"
  shows "\<exists>w'. party_reshare binary aes n k grp p (share_out k q xs ! p) w = Some (Y ! p, w') \<and>
    mgrs w' = (mgrs w)[p := mg] \<and>
    (\<forall>a b. chan w' a b = chan w a b @
      (if a = p then map ((!) (map2 (vec_op (if binary then (XOR) else (+))) xs rand)) (sends_to n k grp p b) else []))"
proof -
  let ?f = "if binary then (XOR) else (+) :: 'a word \<Rightarrow> 'a word \<Rightarrow> 'a word" and ?v = "share_out k q xs ! p"
  let ?sa = "generate_send_assignment n k p grp"
  have sz: "evec_size ?v = m" using assms by (intro evec_size_share_out) simp_all
  have lt: "(p + j) mod n < n" for j using assms(3) by (intro mod_less_divisor) simp
  have v: "?v\<lparr>cols := map (\<lambda>i. vec_op ?f (col i ?v) (rand ! (generatePartyShareMappings n k ! p ! i))) [0..<k]\<rparr> = Y ! p"
    using assms(3,5,7) lt unfolding Y by (simp add: nth_share_out col_def nth_p2s)
  have "party_reshare binary aes n k grp p ?v w = Some (Y ! p,
      foldl (\<lambda>w (r, si). sendShares n p (col si (Y ! p)) r w) (w\<lparr>mgrs := (mgrs w)[p := mg]\<rparr>) (zip (ranks ?sa) (shareIdx ?sa)))"
    using z assms(1,2) v unfolding party_reshare_def reshareMap_def Let_def sz by simp
  moreover have "map (\<lambda>(r, si). col si (Y ! p)) (filter (\<lambda>(r, si). abs_rank n p r = b) (zip (ranks ?sa) (shareIdx ?sa)))
      = map ((!) (map2 (vec_op ?f) xs rand)) (sends_to n k grp p b)" for b
    unfolding Y using assms(3,5,7) by (intro sent_messages) simp_all
  ultimately show ?thesis by (simp add: sends_chan)
qed

lemma send_phase:
  fixes xs rand :: "'a::len vec list" and binary
  defines "ys \<equiv> map2 (vec_op (if binary then (XOR) else (+))) xs rand"
  assumes "grp \<in> set (getGroups n)" and "\<forall>p \<in> set grp. p < n" and "0 < k"
    and "length xs = n" and "\<forall>x \<in> set xs. length x = m" and "length rand = n"
    and z: "\<And>mg. group_prg_ok grp g mg \<Longrightarrow>
      zero_vectors binary aes n m grp mg = Some (rand, mg\<lparr>store := (store mg)(GroupPRG grp := g')\<rparr>)"
    and "distinct ps" and "set ps \<subseteq> set grp" and "length X = n" and "\<forall>p \<in> set ps. X ! p = share_out k q xs ! p"
    and "length (mgrs w) = n" and "\<forall>p \<in> set ps. group_prg_ok grp g (mgrs w ! p)"
  shows "\<exists>X' w'. reshare_run binary aes n k grp (ps @ rest) X w = reshare_run binary aes n k grp rest X' w' \<and>
    length X' = n \<and> (\<forall>p < n. X' ! p = (if p \<in> set ps then share_out k q ys ! p else X ! p)) \<and>
    length (mgrs w') = n \<and> (\<forall>p < n. mgrs w' ! p = (if p \<in> set ps
      then (mgrs w ! p)\<lparr>store := (store (mgrs w ! p))(GroupPRG grp := g')\<rparr> else mgrs w ! p)) \<and>
    (\<forall>a b. chan w' a b = chan w a b @ (if a \<in> set ps then map ((!) ys) (sends_to n k grp a b) else []))"
  using assms(9-)
proof (induction ps arbitrary: X w)
  case Nil
  then show ?case by (intro exI [of _ X] exI [of _ w]) simp
next
  case (Cons p ps)
  let ?mg = "(mgrs w ! p)\<lparr>store := (store (mgrs w ! p))(GroupPRG grp := g')\<rparr>"
  have p: "p \<in> set grp" "p < n" using Cons.prems(2) assms(3) by auto
  have "zero_vectors binary aes n m grp (mgrs w ! p) = Some (rand, ?mg)" using Cons.prems by (intro z) simp
  from member_reshare [OF assms(2) p assms(4-7) Cons.prems(5) this refl, of q, folded ys_def]
  obtain w1 where w1: "party_reshare binary aes n k grp p (share_out k q xs ! p) w = Some (share_out k q ys ! p, w1)"
    "mgrs w1 = (mgrs w)[p := ?mg]"
    "\<forall>a b. chan w1 a b = chan w a b @ (if a = p then map ((!) ys) (sends_to n k grp p b) else [])" by blast
  have nth: "mgrs w1 ! r = mgrs w ! r" "(X[p := share_out k q ys ! p]) ! r = X ! r" if "r \<noteq> p" for r
    using that by (simp_all add: w1(2))
  have np: "mgrs w1 ! r = mgrs w ! r" "(X[p := share_out k q ys ! p]) ! r = X ! r" if "r \<in> set ps" for r
    using Cons.prems(1) that nth by fastforce+
  have lw: "length (mgrs w1) = n" using Cons.prems(5) w1(2) by simp
  have "\<exists>X' w'. reshare_run binary aes n k grp (ps @ rest) (X[p := share_out k q ys ! p]) w1 = reshare_run binary aes n k grp rest X' w' \<and>
    length X' = n \<and> (\<forall>r < n. X' ! r = (if r \<in> set ps then share_out k q ys ! r else X[p := share_out k q ys ! p] ! r)) \<and>
    length (mgrs w') = n \<and> (\<forall>r < n. mgrs w' ! r = (if r \<in> set ps
      then (mgrs w1 ! r)\<lparr>store := (store (mgrs w1 ! r))(GroupPRG grp := g')\<rparr> else mgrs w1 ! r)) \<and>
    (\<forall>a b. chan w' a b = chan w1 a b @ (if a \<in> set ps then map ((!) ys) (sends_to n k grp a b) else []))"
    by (rule Cons.IH) (use Cons.prems np lw in simp_all)
  then obtain X' w' where X': "reshare_run binary aes n k grp (ps @ rest) (X[p := share_out k q ys ! p]) w1 = reshare_run binary aes n k grp rest X' w'"
    "length X' = n" "\<forall>r < n. X' ! r = (if r \<in> set ps then share_out k q ys ! r else X[p := share_out k q ys ! p] ! r)"
    "length (mgrs w') = n" "\<forall>r < n. mgrs w' ! r = (if r \<in> set ps
      then (mgrs w1 ! r)\<lparr>store := (store (mgrs w1 ! r))(GroupPRG grp := g')\<rparr> else mgrs w1 ! r)"
    "\<forall>a b. chan w' a b = chan w1 a b @ (if a \<in> set ps then map ((!) ys) (sends_to n k grp a b) else [])" by blast
  show ?case
  proof (intro exI [of _ X'] exI [of _ w'] conjI allI impI)
    show "reshare_run binary aes n k grp ((p # ps) @ rest) X w = reshare_run binary aes n k grp rest X' w'"
      using Cons.prems(4) w1(1) X'(1) by simp
    show "X' ! r = (if r \<in> set (p # ps) then share_out k q ys ! r else X ! r)" if "r < n" for r
      using X'(3) that Cons.prems(3) by (cases "r = p") auto
    show "mgrs w' ! r = (if r \<in> set (p # ps) then (mgrs w ! r)\<lparr>store := (store (mgrs w ! r))(GroupPRG grp := g')\<rparr> else mgrs w ! r)"
      if "r < n" for r
      using X'(5) that Cons.prems(1,5) w1(2) nth(1) [of r] by (cases "r = p") (auto simp del: fun_upd_apply)
    show "chan w' a b = chan w a b @ (if a \<in> set (p # ps) then map ((!) ys) (sends_to n k grp a b) else [])" for a b
      using X'(6) w1(3) Cons.prems(1) by auto
  qed (use X' in simp_all)
qed

section \<open>The others receive\<close>

lemma receive_shares_held:
  fixes ys :: "'a::len vec list"
  assumes "\<forall>s \<in> set ss. \<exists>a < n. hold s = Some a" and "length bufs = length ss"
    and "\<forall>s \<in> set ss. length (ys ! s) = m" and "\<forall>b \<in> set bufs. length b = m"
    and "\<And>a. chan w a p = map ((!) ys) (filter (\<lambda>s. hold s = Some a) ss)"
  shows "\<exists>w'. foldr (\<lambda>(buf, rel) rest w. do {
          (v, w) \<leftarrow> receiveShares n p buf rel w;
          (vs, w) \<leftarrow> rest w;
          Some (v # vs, w)
        }) (zip bufs (map (\<lambda>s. int (the (hold s)) - int p) ss)) (\<lambda>w. Some ([], w)) w = Some (map ((!) ys) ss, w') \<and>
    mgrs w' = mgrs w \<and> (\<forall>a b. chan w' a b = (if b = p then [] else chan w a b))"
  using assms
proof (induction ss arbitrary: bufs w)
  case Nil
  then show ?case by auto
next
  case (Cons s ss)
  obtain a where a: "a < n" "hold s = Some a" using Cons.prems(1) by auto
  obtain b bs where b: "bufs = b # bs" using Cons.prems(2) by (cases bufs) auto
  let ?w = "w\<lparr>chan := (chan w)(a := (chan w a)(p := map ((!) ys) (filter (\<lambda>s. hold s = Some a) ss)))\<rparr>"
  have c: "chan w a p = (ys ! s) # map ((!) ys) (filter (\<lambda>s. hold s = Some a) ss)" using Cons.prems(5) a(2) by simp
  have r: "receiveShares n p b (int a - int p) w = Some (ys ! s, ?w)"
    using c Cons.prems(3,4) b by (simp add: receiveShares_def abs_rank_difference [OF a(1)])
  have ch: "chan ?w a' p = map ((!) ys) (filter (\<lambda>s. hold s = Some a') ss)" for a'
    using Cons.prems(5) [of a'] a(2) by auto
  obtain w' where w': "foldr (\<lambda>(buf, rel) rest w. do {
          (v, w) \<leftarrow> receiveShares n p buf rel w;
          (vs, w) \<leftarrow> rest w;
          Some (v # vs, w)
        }) (zip bs (map (\<lambda>s. int (the (hold s)) - int p) ss)) (\<lambda>w. Some ([], w)) ?w = Some (map ((!) ys) ss, w')"
    "mgrs w' = mgrs ?w" "\<forall>a b. chan w' a b = (if b = p then [] else chan ?w a b)"
    using Cons.IH [of bs ?w, OF _ _ _ _ ch] Cons.prems(1-4) b by auto
  then show ?case using r a(2) b by auto
qed

lemma outsider_reshare:
  fixes ys :: "'a::len vec list"
  assumes "grp \<in> set (getGroups n)" and "p \<notin> set grp" and "p < n" and "k \<le> n"
    and "\<forall>s < n. lowest_holder n k grp s \<noteq> None" and "length ys = n" and "\<forall>y \<in> set ys. length y = m"
    and "length (cols v) = k" and "\<forall>c \<in> set (cols v). length c = m" and "prec v = q"
    and "\<And>a. chan w a p = (if a \<in> set grp then map ((!) ys) (sends_to n k grp a p) else [])"
    and "\<forall>p \<in> set grp. p < n"
  shows "\<exists>w'. party_reshare binary aes n k grp p v w = Some (share_out k q ys ! p, w') \<and>
    mgrs w' = mgrs w \<and> (\<forall>a b. chan w' a b = (if b = p then [] else chan w a b))"
proof -
  let ?ss = "generatePartyShareMappings n k ! p" and ?h = "lowest_holder n k grp"
  have lt: "\<forall>s \<in> set ?ss. s < n" using p2s_less [OF assms(3)] by blast
  have h: "\<exists>a < n. a \<in> set grp \<and> ?h s = Some a" if "s < n" for s
    using assms(5) lowest_holder_SomeD(1,2) [OF _ assms(4) that] that by blast
  have c: "chan w a p = map ((!) ys) (filter (\<lambda>s. ?h s = Some a) ?ss)" for a
  proof (cases "a \<in> set grp")
    case True
    then show ?thesis using assms(11) sends_to_matches [of a n p k grp] assms(2-4,12) by simp
  next
    case False
    then have "\<forall>s \<in> set ?ss. ?h s \<noteq> Some a" using lt h by force
    then show ?thesis using assms(11) False by (simp add: filter_empty_conv)
  qed
  have rk: "ranks (generate_recv_assignment n k p grp) = map (\<lambda>s. int (the (?h s)) - int p) ?ss"
    using lt assms(5) by (simp add: recv_ranks filter_id_conv)
  have len: "length ?ss = k" using assms(3) by (simp add: nth_p2s)
  have h': "\<forall>s \<in> set ?ss. \<exists>a < n. ?h s = Some a" using lt h by blast
  have "\<exists>w'. receiveBroadcast n p (cols v) (ranks (generate_recv_assignment n k p grp)) w = Some (map ((!) ys) ?ss, w') \<and>
    mgrs w' = mgrs w \<and> (\<forall>a b. chan w' a b = (if b = p then [] else chan w a b))"
    using receive_shares_held [of ?ss n ?h "cols v" ys m w p, OF _ _ _ assms(9) c] h' len assms(6-8) lt
    by (simp add: receiveBroadcast_def rk)
  then obtain w' where "receiveBroadcast n p (cols v) (ranks (generate_recv_assignment n k p grp)) w = Some (map ((!) ys) ?ss, w')"
    "mgrs w' = mgrs w" "\<forall>a b. chan w' a b = (if b = p then [] else chan w a b)" by blast
  moreover have "v\<lparr>cols := map ((!) ys) ?ss\<rparr> = share_out k q ys ! p"
    using assms(3,6,10) by (simp add: nth_share_out nth_p2s)
  ultimately show ?thesis using assms(1,2) by (simp add: party_reshare_def reshareMap_def)
qed

lemma receive_phase:
  fixes ys :: "'a::len vec list"
  assumes "grp \<in> set (getGroups n)" and "k \<le> n" and "\<forall>s < n. lowest_holder n k grp s \<noteq> None"
    and "length ys = n" and "\<forall>y \<in> set ys. length y = m" and "\<forall>p \<in> set grp. p < n"
    and "distinct ps" and "\<forall>p \<in> set ps. p < n \<and> p \<notin> set grp" and "length X = n"
    and "\<forall>p \<in> set ps. length (cols (X ! p)) = k \<and> (\<forall>c \<in> set (cols (X ! p)). length c = m) \<and> prec (X ! p) = q"
    and "\<And>a b. chan w a b = (if a \<in> set grp \<and> b \<in> set ps then map ((!) ys) (sends_to n k grp a b) else [])"
  shows "\<exists>X' w'. reshare_run binary aes n k grp ps X w = Some (X', w') \<and> length X' = n \<and>
    (\<forall>p < n. X' ! p = (if p \<in> set ps then share_out k q ys ! p else X ! p)) \<and> mgrs w' = mgrs w \<and> quiet w'"
  using assms(7-)
proof (induction ps arbitrary: X w)
  case Nil
  then show ?case by (simp add: quiet_def fun_eq_iff)
next
  case (Cons p ps)
  have "\<exists>w'. party_reshare binary aes n k grp p (X ! p) w = Some (share_out k q ys ! p, w') \<and>
    mgrs w' = mgrs w \<and> (\<forall>a b. chan w' a b = (if b = p then [] else chan w a b))"
    by (rule outsider_reshare [where m = m]) (use assms(1-6) Cons.prems in auto)
  then obtain w1 where w1: "party_reshare binary aes n k grp p (X ! p) w = Some (share_out k q ys ! p, w1)"
    "mgrs w1 = mgrs w" "\<forall>a b. chan w1 a b = (if b = p then [] else chan w a b)" by blast
  have np: "(X[p := share_out k q ys ! p]) ! r = X ! r" if "r \<in> set ps" for r
    using Cons.prems(1) that by (intro nth_list_update_neq) auto
  have ch: "chan w1 a b = (if a \<in> set grp \<and> b \<in> set ps then map ((!) ys) (sends_to n k grp a b) else [])" for a b
    using Cons.prems(1,5) w1(3) by auto
  have "\<exists>X' w'. reshare_run binary aes n k grp ps (X[p := share_out k q ys ! p]) w1 = Some (X', w') \<and> length X' = n \<and>
    (\<forall>r < n. X' ! r = (if r \<in> set ps then share_out k q ys ! r else X[p := share_out k q ys ! p] ! r)) \<and>
    mgrs w' = mgrs w1 \<and> quiet w'"
    by (rule Cons.IH) (use Cons.prems np ch in simp_all)
  then obtain X' w' where X': "reshare_run binary aes n k grp ps (X[p := share_out k q ys ! p]) w1 = Some (X', w')"
    "length X' = n" "\<forall>r < n. X' ! r = (if r \<in> set ps then share_out k q ys ! r else X[p := share_out k q ys ! p] ! r)"
    "mgrs w' = mgrs w1" "quiet w'" by blast
  have "X' ! r = (if r \<in> set (p # ps) then share_out k q ys ! r else X ! r)" if "r < n" for r
    using X'(3) that Cons.prems(3) by (cases "r = p") auto
  then show ?case using w1(1,2) X'(1,2,4,5) by (intro exI [of _ X'] exI [of _ w']) simp
qed

section \<open>The whole protocol\<close>

lemma masked_sharing:
  fixes xs rand :: "'a::len vec list"
  assumes "length xs = n" and "\<forall>x \<in> set xs. length x = m" and "length rand = n" and "\<forall>u \<in> set rand. length u = m"
  shows "vxor_all m (map2 (vec_op (XOR)) xs rand) = vxor (vxor_all m xs) (vxor_all m rand)"
    and "vadd_all m (map2 (vec_op (+)) xs rand) = vadd (vadd_all m xs) (vadd_all m rand)"
  using assms
proof (induction xs rand arbitrary: n rule: list_induct2')
  case (4 x xs r rs)
  {
    case 1
    then have "vxor_all m (map2 (vec_op (XOR)) xs rs) = vxor (vxor_all m xs) (vxor_all m rs)"
      using "4.IH"(1) [of "n - 1"] by auto
    then show ?case using 1 by (auto intro!: vec_eqI simp: vec_op_def ac_simps)
  next
    case 2
    then have "vadd_all m (map2 (vec_op (+)) xs rs) = vadd (vadd_all m xs) (vadd_all m rs)"
      using "4.IH"(2) [of "n - 1"] by auto
    then show ?case using 2 by (auto intro!: vec_eqI simp: vec_op_def ac_simps)
  }
qed (auto intro!: vec_eqI)

lemma getGroups_members:
  assumes "grp \<in> set (getGroups n)" and "2 \<le> n"
  shows "\<forall>p \<in> set grp. p < n" and "distinct grp"
proof -
  have "(\<forall>p \<in> set grp. p < n) \<and> distinct grp"
  proof (cases "4 \<le> n")
    case True
    then show ?thesis using assms by (auto simp: getGroups_def generateGroups_def upt_rec numeral_2_eq_2 split: if_splits)
  next
    case False
    then have "grp \<in> set (generateAllCombinations [0..<n] [] (n - 1))"
      using assms by (auto simp: getGroups_def generateGroups_def Let_def split: if_splits)
    then show ?thesis
      using combinations_set [of "[0..<n]" "[]" "n - 1"] ascending_distinct by (auto simp: ascending_def)
  qed
  then show "\<forall>p \<in> set grp. p < n" "distinct grp" by simp_all
qed

lemma reshare_members:
  fixes X :: "'a::len sharing" and xs :: "'a vec list"
  assumes "cipher_ok TYPE('a) aes" and "grp \<in> set (getGroups n)" and "2 \<le> n" and "0 < k" and "k \<le> n"
    and "n < length grp + k" and xs: "length xs = n" "\<forall>x \<in> set xs. length x = m"
    and X: "length X = n" "\<forall>p \<in> set grp. X ! p = share_out k q xs ! p"
      "\<forall>p < n. p \<notin> set grp \<longrightarrow> length (cols (X ! p)) = k \<and> (\<forall>c \<in> set (cols (X ! p)). length c = m) \<and> prec (X ! p) = q"
    and "quiet w" and "length (mgrs w) = n" and "\<forall>p \<in> set grp. group_prg_ok grp g (mgrs w ! p)"
  shows "\<exists>Y w' g'. reshare binary aes n k grp X w = Some (Y, w') \<and> is_sharing n k q m Y \<and>
    (if binary then reveal_b Y = vxor_all m xs else reveal_a Y = vadd_all m xs) \<and>
    quiet w' \<and> length (mgrs w') = n \<and> (\<forall>p < n. mgrs w' ! p = (if p \<in> set grp
      then (mgrs w ! p)\<lparr>store := (store (mgrs w ! p))(GroupPRG grp := g')\<rparr> else mgrs w ! p))"
proof -
  note G = getGroups_members [OF assms(2,3)]
  obtain rand :: "'a vec list" and g' where rand: "length rand = n" "\<forall>u \<in> set rand. length u = m"
    "if binary then vxor_all m rand = replicate m 0 else vadd_all m rand = replicate m 0"
    "\<And>mg. group_prg_ok grp g mg \<Longrightarrow> zero_vectors binary aes n m grp mg = Some (rand, mg\<lparr>store := (store mg)(GroupPRG grp := g')\<rparr>)"
    using zero_vectors_common [OF assms(1), of n m binary grp g] assms(3) by auto
  define ys where "ys = map2 (vec_op (if binary then (XOR) else (+))) xs rand"
  have ys: "length ys = n" using xs(1) rand(1) by (simp add: ys_def)
  have ysm: "\<forall>y \<in> set ys. length y = m"
    using xs(2) rand(2) by (auto simp: ys_def vec_op_def set_zip)
  let ?out = "filter (\<lambda>p. p \<notin> set grp) [0..<n]"
  have "\<exists>X' w'. reshare_run binary aes n k grp (grp @ ?out) X w = reshare_run binary aes n k grp ?out X' w' \<and>
    length X' = n \<and> (\<forall>p < n. X' ! p = (if p \<in> set grp then share_out k q ys ! p else X ! p)) \<and>
    length (mgrs w') = n \<and> (\<forall>p < n. mgrs w' ! p = (if p \<in> set grp
      then (mgrs w ! p)\<lparr>store := (store (mgrs w ! p))(GroupPRG grp := g')\<rparr> else mgrs w ! p)) \<and>
    (\<forall>a b. chan w' a b = chan w a b @ (if a \<in> set grp then map ((!) ys) (sends_to n k grp a b) else []))"
    unfolding ys_def by (rule send_phase [where g = g and m = m]) (use assms G rand in simp_all)
  then obtain X1 w1 where X1: "reshare binary aes n k grp X w = reshare_run binary aes n k grp ?out X1 w1"
    "length X1 = n" "\<forall>p < n. X1 ! p = (if p \<in> set grp then share_out k q ys ! p else X ! p)"
    "length (mgrs w1) = n" "\<forall>p < n. mgrs w1 ! p = (if p \<in> set grp
      then (mgrs w ! p)\<lparr>store := (store (mgrs w ! p))(GroupPRG grp := g')\<rparr> else mgrs w ! p)"
    "\<forall>a b. chan w1 a b = chan w a b @ (if a \<in> set grp then map ((!) ys) (sends_to n k grp a b) else [])"
    unfolding reshare_def by blast
  have ch: "chan w1 a b = (if a \<in> set grp \<and> b \<in> set ?out then map ((!) ys) (sends_to n k grp a b) else [])" for a b
    using X1(6) assms(12) sends_to_outside [of b grp n k a] by (auto simp: quiet_def)
  have out: "length (cols (X1 ! p)) = k \<and> (\<forall>c \<in> set (cols (X1 ! p)). length c = m) \<and> prec (X1 ! p) = q"
    if "p \<in> set ?out" for p
    using that X1(3) X(3) by auto
  have cov: "\<forall>s < n. lowest_holder n k grp s \<noteq> None" using group_covers assms(5,6) G by blast
  have "\<exists>X' w'. reshare_run binary aes n k grp ?out X1 w1 = Some (X', w') \<and> length X' = n \<and>
    (\<forall>p < n. X' ! p = (if p \<in> set ?out then share_out k q ys ! p else X1 ! p)) \<and> mgrs w' = mgrs w1 \<and> quiet w'"
    by (rule receive_phase [OF assms(2,5) cov ys ysm G(1)]) (use X1(2) ch out in auto)
  then obtain Y w' where Y: "reshare_run binary aes n k grp ?out X1 w1 = Some (Y, w')" "length Y = n"
    "\<forall>p < n. Y ! p = (if p \<in> set ?out then share_out k q ys ! p else X1 ! p)" "mgrs w' = mgrs w1" "quiet w'" by blast
  have eq: "Y = share_out k q ys" using Y(2,3) ys X1(3) by (intro nth_equalityI) auto
  have sh: "is_sharing n k q m Y" unfolding eq using is_sharing_share_out ys ysm assms(4) by blast
  have rev: "reveal_b (share_out k q ys) = vxor_all m ys \<and> reveal_a (share_out k q ys) = vadd_all m ys"
    using ys ysm assms(3,4) by (intro conjI reveal_b_share_out reveal_a_share_out) auto
  have "if binary then reveal_b Y = vxor_all m xs else reveal_a Y = vadd_all m xs"
    using masked_sharing [OF xs rand(1,2)] rand(3) xs(2) rev unfolding eq ys_def
    by (cases binary) (auto intro!: vec_eqI)
  then show ?thesis using X1(1,4,5) Y(1,4,5) sh
    by (intro exI [of _ Y] exI [of _ w'] exI [of _ g']) simp
qed

lemma reshare_correct:
  fixes X :: "'a::len sharing"
  assumes "cipher_ok TYPE('a) aes" and "grp \<in> set (getGroups n)" and "2 \<le> n" and "0 < k" and "k \<le> n"
    and "n < length grp + k" and "is_sharing n k q m X" and "quiet w" and "length (mgrs w) = n"
    and "\<forall>p \<in> set grp. group_prg_ok grp g (mgrs w ! p)"
  shows "\<exists>Y w' g'. reshare binary aes n k grp X w = Some (Y, w') \<and> is_sharing n k q m Y \<and>
    (if binary then reveal_b Y = reveal_b X else reveal_a Y = reveal_a X) \<and>
    quiet w' \<and> length (mgrs w') = n \<and> (\<forall>p \<in> set grp. group_prg_ok grp g' (mgrs w' ! p))"
proof -
  note G = getGroups_members [OF assms(2,3)]
  obtain xs where xs: "X = share_out k q xs" "length xs = n" "\<forall>x \<in> set xs. length x = m"
    using assms(7) by (rule is_sharingE)
  have rev: "reveal_b X = vxor_all m xs" "reveal_a X = vadd_all m xs"
    unfolding xs(1) using xs(2,3) assms(3,4) by (auto intro!: reveal_b_share_out reveal_a_share_out)
  have "\<forall>p < n. p \<notin> set grp \<longrightarrow> length (cols (X ! p)) = k \<and> (\<forall>c \<in> set (cols (X ! p)). length c = m) \<and> prec (X ! p) = q"
    using xs by (auto simp: nth_share_out)
  moreover have "length X = n" "\<forall>p \<in> set grp. X ! p = share_out k q xs ! p" using xs by simp_all
  ultimately obtain Y w' g' where Y: "reshare binary aes n k grp X w = Some (Y, w')" "is_sharing n k q m Y"
    "if binary then reveal_b Y = vxor_all m xs else reveal_a Y = vadd_all m xs" "quiet w'" "length (mgrs w') = n"
    "\<forall>p < n. mgrs w' ! p = (if p \<in> set grp
      then (mgrs w ! p)\<lparr>store := (store (mgrs w ! p))(GroupPRG grp := g')\<rparr> else mgrs w ! p)"
    using reshare_members [OF assms(1-6) xs(2,3) _ _ _ assms(8-10), of X q binary] by blast
  have "\<forall>p \<in> set grp. group_prg_ok grp g' (mgrs w' ! p)"
    using assms(10) Y(6) G(1) by (auto simp: group_prg_ok_def get_group_def split: if_splits)
  then show ?thesis using Y(1-5) rev by (intro exI [of _ Y] exI [of _ w'] exI [of _ g']) simp
qed

end
