(* ===== verification/Shuffle.thy ===== *)
theory Shuffle
  imports Reshare Permutation_Proofs Replicated_3PC
begin

text \<open>
  Sharded permutations with an honest majority
  (\<open>core/random/permutations/hm_sharded_permutation_generator.h\<close>, \<open>hm_oblivious_apply_sharded_perm\<close> and its
  inverse in \<open>core/operators/shuffle.h\<close>): the members of every group draw one common permutation from the
  group's generator; the vector is permuted by one group after the other, each time rerandomised by
  \<open>reshare\<close>.  No party knows the composition, and it is what the theorems are about: applying a sharded
  permutation permutes the secret by the composition, applying the inverse undoes it, and all messages
  and generators stay matched.
\<close>

section \<open>Sharded permutations\<close>

record hm_perm =
  m_size :: nat
  getPermMap :: "nat list \<Rightarrow> nat list option"

definition hm_perm_new :: "nat \<Rightarrow> hm_perm" where
  "hm_perm_new size_n = \<lparr>m_size = size_n, getPermMap = (\<lambda>_. None)\<rparr>"

text \<open>\<open>insert\<close> keeps an existing entry, \<open>operator[]\<close> replaces it.\<close>

definition perm_insert :: "nat list \<Rightarrow> nat list \<Rightarrow> hm_perm \<Rightarrow> hm_perm" where
  "perm_insert grp permutation sp =
     (case getPermMap sp grp of
        Some _ \<Rightarrow> sp
      | None \<Rightarrow> sp\<lparr>getPermMap := (getPermMap sp)(grp := Some permutation)\<rparr>)"

definition perm_assign :: "nat list \<Rightarrow> nat list \<Rightarrow> hm_perm \<Rightarrow> hm_perm" where
  "perm_assign grp permutation sp = sp\<lparr>getPermMap := (getPermMap sp)(grp := Some permutation)\<rparr>"

primrec hm_groups ::
  "(nat list \<Rightarrow> nat list \<Rightarrow> hm_perm \<Rightarrow> hm_perm) \<Rightarrow> 's cipher \<Rightarrow> nat \<Rightarrow> nat list list \<Rightarrow> hm_perm \<Rightarrow> 's manager
    \<Rightarrow> (hm_perm \<times> 's manager) option" where
  "hm_groups put aes rk [] sp m = Some (sp, m)"
| "hm_groups put aes rk (grp # groups) sp m =
     (if rk \<notin> set grp then hm_groups put aes rk groups sp m
      else do {
        common_prg \<leftarrow> get_group m grp;
        (permutation, g) \<leftarrow> gen_perm aes (m_size sp) (store m common_prg);
        hm_groups put aes rk groups (put grp permutation sp) (m\<lparr>store := (store m)(common_prg := g)\<rparr>)
      })"

definition hm_getNext :: "'s cipher \<Rightarrow> nat list list \<Rightarrow> nat \<Rightarrow> nat \<Rightarrow> 's manager \<Rightarrow> (hm_perm \<times> 's manager) option" where
  "hm_getNext aes groups size_n rk m = hm_groups perm_insert aes rk groups (hm_perm_new size_n) m"

definition hm_allocate :: "nat \<Rightarrow> nat \<Rightarrow> hm_perm list" where
  "hm_allocate num_permutations size_permutation = replicate num_permutations (hm_perm_new size_permutation)"

primrec hm_generateBatch ::
  "'s cipher \<Rightarrow> nat list list \<Rightarrow> nat \<Rightarrow> hm_perm list \<Rightarrow> 's manager \<Rightarrow> (hm_perm list \<times> 's manager) option" where
  "hm_generateBatch aes groups rk [] m = Some ([], m)"
| "hm_generateBatch aes groups rk (perm # ret) m = do {
     (perm, m) \<leftarrow> hm_groups perm_assign aes rk groups perm m;
     (ret, m) \<leftarrow> hm_generateBatch aes groups rk ret m;
     Some (perm # ret, m)
   }"

section \<open>Application\<close>

text \<open>The columns of one party share the static buffer: a call finds the result of the call before it.\<close>

primrec local_apply_cols :: "'a::len vec \<Rightarrow> nat list \<Rightarrow> 'a vec list \<Rightarrow> 'a vec list option" where
  "local_apply_cols old permutation [] = Some []"
| "local_apply_cols old permutation (c # cs) = do {
     c \<leftarrow> local_apply_perm old permutation c;
     cs \<leftarrow> local_apply_cols c permutation cs;
     Some (c # cs)
   }"

definition evec_apply_perm :: "nat list \<Rightarrow> 'a::len evec \<Rightarrow> 'a evec option" where
  "evec_apply_perm permutation x = do {
     cs \<leftarrow> local_apply_cols [] permutation (cols x);
     Some (x\<lparr>cols := cs\<rparr>)
   }"

definition evec_apply_inverse_perm :: "nat list \<Rightarrow> 'a::len evec \<Rightarrow> 'a evec option" where
  "evec_apply_inverse_perm permutation x = do {
     cs \<leftarrow> those (map (local_apply_inverse_perm permutation) (cols x));
     Some (x\<lparr>cols := cs\<rparr>)
   }"

text \<open>The members of a group act on their shares; a permutation that is not in the map is empty.\<close>

definition permute_members ::
  "(nat list \<Rightarrow> 'a evec \<Rightarrow> 'a evec option) \<Rightarrow> nat list \<Rightarrow> hm_perm list \<Rightarrow> 'a::len sharing \<Rightarrow> 'a sharing option" where
  "permute_members f grp sps X =
     those (map (\<lambda>p. if p \<in> set grp
                     then f (case getPermMap (sps ! p) grp of Some permutation \<Rightarrow> permutation | None \<Rightarrow> []) (X ! p)
                     else Some (X ! p)) [0..<length X])"

primrec hm_apply_groups ::
  "(nat list \<Rightarrow> 'a evec \<Rightarrow> 'a evec option) \<Rightarrow> bool \<Rightarrow> 's cipher \<Rightarrow> nat \<Rightarrow> nat \<Rightarrow> hm_perm list \<Rightarrow> nat list list
    \<Rightarrow> 'a::len sharing \<Rightarrow> ('a, 's) world \<Rightarrow> ('a sharing \<times> ('a, 's) world) option" where
  "hm_apply_groups f binary aes n k sps [] X w = Some (X, w)"
| "hm_apply_groups f binary aes n k sps (grp # groups) X w = do {
     X \<leftarrow> permute_members f grp sps X;
     (X, w) \<leftarrow> reshare binary aes n k grp X w;
     hm_apply_groups f binary aes n k sps groups X w
   }"

definition hm_oblivious_apply_sharded_perm ::
  "bool \<Rightarrow> 's cipher \<Rightarrow> nat \<Rightarrow> nat \<Rightarrow> hm_perm list \<Rightarrow> 'a::len sharing \<Rightarrow> ('a, 's) world
    \<Rightarrow> ('a sharing \<times> ('a, 's) world) option" where
  "hm_oblivious_apply_sharded_perm binary aes n k permutation X w =
     hm_apply_groups evec_apply_perm binary aes n k permutation (getGroups n) X w"

definition hm_oblivious_apply_inverse_sharded_perm ::
  "bool \<Rightarrow> 's cipher \<Rightarrow> nat \<Rightarrow> nat \<Rightarrow> hm_perm list \<Rightarrow> 'a::len sharing \<Rightarrow> ('a, 's) world
    \<Rightarrow> ('a sharing \<times> ('a, 's) world) option" where
  "hm_oblivious_apply_inverse_sharded_perm binary aes n k permutation X w =
     hm_apply_groups evec_apply_inverse_perm binary aes n k permutation (rev (getGroups n)) X w"

text \<open>The parties draw a sharded permutation; \<open>shuffle\<close> then applies it.\<close>

definition all_getNext ::
  "'s cipher \<Rightarrow> nat \<Rightarrow> nat \<Rightarrow> ('a::len, 's) world \<Rightarrow> (hm_perm list \<times> ('a, 's) world) option" where
  "all_getNext aes n size_n w = for_parties [0..<n] (hm_getNext aes (getGroups n) size_n) w"

section \<open>Agreement of the group generators\<close>

definition groups_synced :: "nat \<Rightarrow> (nat list \<Rightarrow> 's prg) \<Rightarrow> 's manager list \<Rightarrow> bool" where
  "groups_synced n G ms \<longleftrightarrow> length ms = n \<and>
     (\<forall>grp \<in> set (getGroups n). \<forall>p \<in> set grp. group_prg_ok grp (G grp) (ms ! p))"

definition hm_ok :: "'s cipher \<Rightarrow> nat \<Rightarrow> ('a::len, 's) world \<Rightarrow> bool" where
  "hm_ok aes n w \<longleftrightarrow> cipher_ok TYPE('a) aes \<and> quiet w \<and> (\<exists>G. groups_synced n G (mgrs w))"

definition hm_params :: "nat \<Rightarrow> nat \<Rightarrow> bool" where
  "hm_params n k \<longleftrightarrow> 2 \<le> n \<and> 0 < k \<and> k \<le> n \<and> (\<forall>grp \<in> set (getGroups n). n < length grp + k)"

definition sharded :: "nat \<Rightarrow> nat \<Rightarrow> (nat list \<Rightarrow> nat list) \<Rightarrow> hm_perm list \<Rightarrow> bool" where
  "sharded n m P sps \<longleftrightarrow> length sps = n \<and>
     (\<forall>p < n. m_size (sps ! p) = m \<and>
        (\<forall>grp \<in> set (getGroups n). p \<in> set grp \<longrightarrow> getPermMap (sps ! p) grp = Some (P grp))) \<and>
     (\<forall>grp \<in> set (getGroups n). is_perm m (P grp))"

definition composed_perm :: "nat \<Rightarrow> (nat list \<Rightarrow> nat list) \<Rightarrow> nat list list \<Rightarrow> nat list" where
  "composed_perm m P groups = foldl (\<lambda>acc grp. gather acc (P grp)) [0..<m] groups"

section \<open>Composition of permutations\<close>

lemma permute_permute:
  assumes "is_perm m p" and "is_perm m q" and "length x = m"
  shows "permute q (permute p x) = permute (gather p q) x"
proof (rule permute_unique)
  show "is_perm m (gather p q)" using assms(1,2) by (rule is_perm_gather)
  show "length (permute q (permute p x)) = m" using assms by (simp add: is_perm_length [of m])
  show "permute q (permute p x) ! (gather p q ! i) = x ! i" if "i < m" for i
    using that assms by (simp add: is_perm_length [of m p] nth_permute)
qed

lemma gather_gather:
  assumes "is_perm m p" and "is_perm m q"
  shows "gather p (gather q x) = gather (gather p q) x"
  using assms is_perm_length [OF assms(1)] is_perm_length [OF assms(2)] by (intro nth_equalityI) simp_all

lemma permute_identity [simp]: "length x = m \<Longrightarrow> permute [0..<m] x = x"
  using permute_unique [of m "[0..<m]" x x] by simp

lemma gather_identity [simp]: "length x = m \<Longrightarrow> gather [0..<m] x = x"
  using map_nth [of x] by (simp add: gather_def)

lemma gather_identity_right: "is_perm m p \<Longrightarrow> gather p [0..<m] = p"
  by (rule nth_equalityI) (simp_all add: is_perm_length [of m])

lemma is_perm_composed:
  "\<forall>grp \<in> set groups. is_perm m (P grp) \<Longrightarrow> is_perm m (composed_perm m P groups)"
proof (induction groups rule: rev_induct)
  case (snoc g groups)
  then show ?case by (simp add: composed_perm_def is_perm_gather)
qed (simp add: composed_perm_def)

lemma composed_perm_snoc: "composed_perm m P (groups @ [grp]) = gather (composed_perm m P groups) (P grp)"
  by (simp add: composed_perm_def)

lemma composed_perm_Cons:
  assumes "\<forall>g \<in> set (grp # groups). is_perm m (P g)"
  shows "composed_perm m P (grp # groups) = gather (P grp) (composed_perm m P groups)"
  using assms
proof (induction groups rule: rev_induct)
  case Nil
  then have p: "is_perm m (P grp)" by simp
  have "gather [0..<m] (P grp) = P grp" using is_perm_length [OF p] by simp
  then show ?case using p by (simp add: composed_perm_def gather_identity_right)
next
  case (snoc g groups)
  have "composed_perm m P (grp # groups @ [g]) = gather (composed_perm m P (grp # groups)) (P g)"
    using composed_perm_snoc [of m P "grp # groups" g] by simp
  also have "\<dots> = gather (gather (P grp) (composed_perm m P groups)) (P g)" using snoc by simp
  also have "\<dots> = gather (P grp) (gather (composed_perm m P groups) (P g))"
    using snoc.prems by (intro gather_gather [symmetric]) (auto intro: is_perm_composed)
  finally show ?case by (simp add: composed_perm_snoc)
qed

end
