(* ===== verification/Shuffle_Proofs.thy ===== *)
theory Shuffle_Proofs
  imports Shuffle
begin

text \<open>
  Correctness of sharded permutations: one step (members permute, all reshare) permutes the secret;
  the whole application permutes it by the composition of the groups' permutations and the inverse
  application, in the opposite order, undoes it; the generators draw a common permutation per group and
  stay synchronised.
\<close>

section \<open>Permutations commute with opening\<close>

lemma vxor_all_gather:
  assumes "is_perm m p" and "\<forall>x \<in> set xs. length x = m"
  shows "vxor_all m (map (gather p) xs) = gather p (vxor_all m xs)"
proof (rule xor_hom_vxor_all [OF _ assms(2)])
  show "xor_hom m m (gather p)"
    using assms(1) by (auto simp: xor_hom_def is_perm_def intro!: vec_eqI)
qed

lemma vadd_all_gather:
  assumes "is_perm m p" and "\<forall>x \<in> set xs. length x = m"
  shows "vadd_all m (map (gather p) xs) = gather p (vadd_all m xs)"
  using assms(2)
proof (induction xs)
  case Nil
  then show ?case using assms(1) by (auto simp: is_perm_def intro!: vec_eqI)
next
  case (Cons x xs)
  then show ?case using assms(1) by (auto simp: is_perm_def intro!: vec_eqI)
qed

lemma evec_apply_perm_share_out:
  assumes "is_perm m p" and "\<forall>c \<in> set (cols x). length c = m"
  shows "evec_apply_perm p x = Some (x\<lparr>cols := map (permute p) (cols x)\<rparr>)"
proof -
  have "local_apply_cols old p cs = Some (map (permute p) cs)" if "\<forall>c \<in> set cs. length c = m" for old and cs :: "'a vec list"
    using that by (induction cs arbitrary: old) (simp_all add: local_apply_perm_permute [OF assms(1)])
  then show ?thesis using assms(2) by (simp add: evec_apply_perm_def)
qed

lemma evec_apply_inverse_share_out:
  assumes "is_perm m p" and "\<forall>c \<in> set (cols x). length c = m"
  shows "evec_apply_inverse_perm p x = Some (x\<lparr>cols := map (gather p) (cols x)\<rparr>)"
proof -
  have "map (local_apply_inverse_perm p) (cols x) = map (\<lambda>c. Some (gather p c)) (cols x)"
    using assms by (simp add: local_apply_inverse_gather)
  then have "those (map (local_apply_inverse_perm p) (cols x)) = Some (map (gather p) (cols x))"
    by (simp only: those_Some)
  then show ?thesis by (simp add: evec_apply_inverse_perm_def)
qed

lemma permute_members_sharing:
  fixes xs :: "'a::len vec list"
  assumes f: "\<And>x :: 'a evec. \<forall>c \<in> set (cols x). length c = m \<Longrightarrow> f p x = Some (x\<lparr>cols := map h (cols x)\<rparr>)"
    and "length xs = n" and "\<forall>x \<in> set xs. length x = m" and "0 < n"
    and "\<forall>r \<in> set grp. r < n \<longrightarrow> getPermMap (sps ! r) grp = Some p"
  shows "permute_members f grp sps (share_out k q xs) =
    Some (map (\<lambda>r. if r \<in> set grp then share_out k q (map h xs) ! r else share_out k q xs ! r) [0..<n])"
proof -
  have l: "\<forall>c \<in> set (cols (share_out k q xs ! r)). length c = m" if "r < n" for r
    using that assms(2-4) by (auto simp: nth_share_out)
  have "f p (share_out k q xs ! r) = Some (share_out k q (map h xs) ! r)" if "r < n" for r
    using f [OF l [OF that]] that assms(2,4) by (simp add: nth_share_out comp_def)
  then have "map (\<lambda>r. if r \<in> set grp
      then f (case getPermMap (sps ! r) grp of Some permutation \<Rightarrow> permutation | None \<Rightarrow> []) (share_out k q xs ! r)
      else Some (share_out k q xs ! r)) [0..<n]
    = map (\<lambda>r. Some (if r \<in> set grp then share_out k q (map h xs) ! r else share_out k q xs ! r)) [0..<n]"
    using assms(5) by (intro map_cong) auto
  then show ?thesis unfolding permute_members_def length_share_out assms(2) by (simp only: those_Some)
qed

section \<open>One group\<close>

text \<open>Everything but the generators of the groups is left alone.\<close>

definition only_groups :: "nat \<Rightarrow> 's manager \<Rightarrow> 's manager \<Rightarrow> bool" where
  "only_groups n m m' \<longleftrightarrow> (\<exists>s. m' = m\<lparr>store := s\<rparr> \<and> (\<forall>obj. obj \<notin> GroupPRG ` set (getGroups n) \<longrightarrow> s obj = store m obj))"

definition group_only :: "nat \<Rightarrow> 's manager list \<Rightarrow> 's manager list \<Rightarrow> bool" where
  "group_only n ms ms' \<longleftrightarrow> list_all2 (only_groups n) ms ms'"

lemma only_groups_refl [simp]: "only_groups n m m"
  unfolding only_groups_def by (rule exI [of _ "store m"]) simp

lemma only_groups_storeI:
  "(\<And>obj. obj \<notin> GroupPRG ` set (getGroups n) \<Longrightarrow> s obj = store m obj) \<Longrightarrow> only_groups n m (m\<lparr>store := s\<rparr>)"
  unfolding only_groups_def by blast

lemma only_groups_upd [simp]:
  "grp \<in> set (getGroups n) \<Longrightarrow> only_groups n m (m\<lparr>store := (store m)(GroupPRG grp := g)\<rparr>)"
  by (rule only_groups_storeI) auto

lemma only_groups_trans: "only_groups n m m' \<Longrightarrow> only_groups n m' m'' \<Longrightarrow> only_groups n m m''"
  unfolding only_groups_def by fastforce

lemma group_only_refl [simp]: "group_only n ms ms"
  by (simp add: group_only_def list_all2_refl)

lemma group_only_trans: "group_only n ms ms' \<Longrightarrow> group_only n ms' ms'' \<Longrightarrow> group_only n ms ms''"
  unfolding group_only_def by (rule list_all2_trans [where ?P2.0 = "only_groups n"]) (auto intro: only_groups_trans)

lemma group_onlyI: "length ms = n' \<Longrightarrow> length ms' = n' \<Longrightarrow> \<forall>p < n'. only_groups n (ms ! p) (ms' ! p) \<Longrightarrow> group_only n ms ms'"
  by (simp add: group_only_def list_all2_conv_all_nth)

lemma groups_synced_update:
  assumes "groups_synced n G ms" and "grp \<in> set (getGroups n)" and "2 \<le> n" and "length ms' = n"
    and "\<forall>p < n. ms' ! p = (if p \<in> set grp
      then (ms ! p)\<lparr>store := (store (ms ! p))(GroupPRG grp := g')\<rparr> else ms ! p)"
  shows "groups_synced n (G(grp := g')) ms'"
proof -
  have "group_prg_ok h ((G(grp := g')) h) (ms' ! p)" if h: "h \<in> set (getGroups n)" "p \<in> set h" for h p
  proof -
    have p: "p < n" using getGroups_members(1) [OF h(1) assms(3)] h(2) by blast
    have "group_prg_ok h (G h) (ms ! p)" using assms(1) h by (simp add: groups_synced_def)
    then show ?thesis using assms(5) p h(2) by (auto simp: group_prg_ok_def get_group_def split: if_splits)
  qed
  then show ?thesis using assms(4) by (simp add: groups_synced_def)
qed

lemma hm_step:
  fixes X :: "'a::len sharing" and w :: "('a, 's) world"
  assumes "hm_ok aes n w" and "hm_params n k" and "sharded n m P sps" and "is_sharing n k q m X"
    and grp: "grp \<in> set (getGroups n)"
    and f: "\<And>x :: 'a evec. \<forall>c \<in> set (cols x). length c = m \<Longrightarrow> f (P grp) x = Some (x\<lparr>cols := map (gather u) (cols x)\<rparr>)"
    and u: "is_perm m u"
  shows "\<exists>X' Y w'. permute_members f grp sps X = Some X' \<and> reshare binary aes n k grp X' w = Some (Y, w') \<and>
    hm_ok aes n w' \<and> group_only n (mgrs w) (mgrs w') \<and> is_sharing n k q m Y \<and>
    (if binary then reveal_b Y = gather u (reveal_b X) else reveal_a Y = gather u (reveal_a X))"
proof -
  have n: "2 \<le> n" "0 < k" "k \<le> n" "n < length grp + k" using assms(2) grp by (simp_all add: hm_params_def)
  note mem = getGroups_members(1) [OF grp n(1)]
  obtain xs where xs: "X = share_out k q xs" "length xs = n" "\<forall>x \<in> set xs. length x = m"
    using assms(4) by (rule is_sharingE)
  let ?X = "map (\<lambda>r. if r \<in> set grp then share_out k q (map (gather u) xs) ! r else share_out k q xs ! r) [0..<n]"
  have pm: "permute_members f grp sps X = Some ?X"
    unfolding xs(1) by (rule permute_members_sharing [where p = "P grp"])
      (use f xs n(1) assms(3) grp in \<open>auto simp: sharded_def\<close>)
  obtain G where G: "groups_synced n G (mgrs w)" and w: "cipher_ok TYPE('a) aes" "quiet w"
    using assms(1) by (auto simp: hm_ok_def)
  have "\<exists>Y w' g'. reshare binary aes n k grp ?X w = Some (Y, w') \<and> is_sharing n k q m Y \<and>
    (if binary then reveal_b Y = vxor_all m (map (gather u) xs) else reveal_a Y = vadd_all m (map (gather u) xs)) \<and>
    quiet w' \<and> length (mgrs w') = n \<and> (\<forall>p < n. mgrs w' ! p = (if p \<in> set grp
      then (mgrs w ! p)\<lparr>store := (store (mgrs w ! p))(GroupPRG grp := g')\<rparr> else mgrs w ! p))"
    by (rule reshare_members [OF w(1) grp n, where g = "G grp"])
      (use xs u w G grp mem in \<open>auto simp: is_perm_def nth_share_out groups_synced_def\<close>)
  then obtain Y w' g' where Y: "reshare binary aes n k grp ?X w = Some (Y, w')" "is_sharing n k q m Y"
    "if binary then reveal_b Y = vxor_all m (map (gather u) xs) else reveal_a Y = vadd_all m (map (gather u) xs)"
    "quiet w'" "length (mgrs w') = n" "\<forall>p < n. mgrs w' ! p = (if p \<in> set grp
      then (mgrs w ! p)\<lparr>store := (store (mgrs w ! p))(GroupPRG grp := g')\<rparr> else mgrs w ! p)" by blast
  have "reveal_b X = vxor_all m xs" "reveal_a X = vadd_all m xs"
    unfolding xs(1) using xs(2,3) n by (auto intro!: reveal_b_share_out reveal_a_share_out)
  moreover have "hm_ok aes n w'"
    using groups_synced_update [OF G grp n(1) Y(5,6)] w(1) Y(4) unfolding hm_ok_def by blast
  moreover have "group_only n (mgrs w) (mgrs w')"
    using Y(5,6) G grp by (intro group_onlyI [of _ n]) (auto simp: groups_synced_def)
  ultimately show ?thesis
    using pm Y vxor_all_gather [OF u xs(3)] vadd_all_gather [OF u xs(3)] by auto
qed

section \<open>The whole application\<close>

definition revealed :: "bool \<Rightarrow> 'a::len sharing \<Rightarrow> 'a vec" where
  "revealed binary X = (if binary then reveal_b X else reveal_a X)"

lemma length_revealed: "is_sharing n k q m X \<Longrightarrow> hm_params n k \<Longrightarrow> length (revealed binary X) = m"
  by (simp add: revealed_def hm_params_def length_reveal)

lemma hm_apply_groups_correct:
  fixes X :: "'a::len sharing" and w :: "('a, 's) world"
  assumes "hm_params n k" and "sharded n m P sps" and "set groups \<subseteq> set (getGroups n)"
    and f: "\<And>p (x :: 'a evec). is_perm m p \<Longrightarrow> \<forall>c \<in> set (cols x). length c = m \<Longrightarrow> f p x = Some (x\<lparr>cols := map (gather (h p)) (cols x)\<rparr>)"
    and h: "\<And>p. is_perm m p \<Longrightarrow> is_perm m (h p)"
    and "hm_ok aes n w" and "is_sharing n k q m X"
  shows "\<exists>Y w'. hm_apply_groups f binary aes n k sps groups X w = Some (Y, w') \<and> hm_ok aes n w' \<and>
    group_only n (mgrs w) (mgrs w') \<and> is_sharing n k q m Y \<and>
    revealed binary Y = foldl (\<lambda>x grp. gather (h (P grp)) x) (revealed binary X) groups"
  using assms(3,6,7)
proof (induction groups arbitrary: X w)
  case Nil
  then show ?case by simp
next
  case (Cons grp groups)
  have g: "grp \<in> set (getGroups n)" and p: "is_perm m (P grp)"
    using Cons.prems(1) assms(2) by (auto simp: sharded_def)
  obtain X' Y w' where step: "permute_members f grp sps X = Some X'" "reshare binary aes n k grp X' w = Some (Y, w')"
    "hm_ok aes n w'" "group_only n (mgrs w) (mgrs w')" "is_sharing n k q m Y"
    "if binary then reveal_b Y = gather (h (P grp)) (reveal_b X) else reveal_a Y = gather (h (P grp)) (reveal_a X)"
    using hm_step [where f = f and u = "h (P grp)" and binary = binary, OF Cons.prems(2) assms(1,2) Cons.prems(3) g f [OF p] h [OF p]]
    by blast
  have "\<exists>Z w''. hm_apply_groups f binary aes n k sps groups Y w' = Some (Z, w'') \<and> hm_ok aes n w'' \<and>
    group_only n (mgrs w') (mgrs w'') \<and> is_sharing n k q m Z \<and>
    revealed binary Z = foldl (\<lambda>x grp. gather (h (P grp)) x) (revealed binary Y) groups"
    using Cons.prems(1) step(3,5) by (intro Cons.IH) auto
  then show ?case using step group_only_trans [OF step(4)] by (auto simp: revealed_def split: if_splits)
qed

lemma foldl_permute:
  assumes "\<forall>g \<in> set groups. is_perm m (P g)" and "length x = m"
  shows "foldl (\<lambda>x g. permute (P g) x) x groups = permute (composed_perm m P groups) x"
  using assms(1)
proof (induction groups rule: rev_induct)
  case Nil
  then show ?case using assms(2) by (simp add: composed_perm_def)
next
  case (snoc g groups)
  have "is_perm m (composed_perm m P groups)" using snoc.prems by (intro is_perm_composed) simp
  then show ?case
    using snoc assms(2) permute_permute [of m "composed_perm m P groups" "P g" x] by (simp add: composed_perm_snoc)
qed

lemma foldl_gather_rev:
  assumes "\<forall>g \<in> set groups. is_perm m (P g)" and "length x = m"
  shows "foldl (\<lambda>x g. gather (P g) x) x (rev groups) = gather (composed_perm m P groups) x"
  using assms(1)
proof (induction groups)
  case Nil
  then show ?case using assms(2) by (simp add: composed_perm_def)
next
  case (Cons g groups)
  have "is_perm m (composed_perm m P groups)" using Cons.prems by (intro is_perm_composed) simp
  then show ?case
    using Cons composed_perm_Cons [OF Cons.prems] gather_gather [of m "P g" "composed_perm m P groups" x] by simp
qed

lemma sharded_perms: "sharded n m P sps \<Longrightarrow> \<forall>g \<in> set (getGroups n). is_perm m (P g)"
  by (simp add: sharded_def)

lemma hm_apply_correct:
  fixes X :: "'a::len sharing" and w :: "('a, 's) world"
  assumes "hm_params n k" and "sharded n m P sps" and "hm_ok aes n w" and "is_sharing n k q m X"
  shows "\<exists>Y w'. hm_oblivious_apply_sharded_perm binary aes n k sps X w = Some (Y, w') \<and> hm_ok aes n w' \<and>
    group_only n (mgrs w) (mgrs w') \<and> is_sharing n k q m Y \<and> revealed binary Y = permute (composed_perm m P (getGroups n)) (revealed binary X)"
proof -
  have "\<exists>Y w'. hm_apply_groups evec_apply_perm binary aes n k sps (getGroups n) X w = Some (Y, w') \<and> hm_ok aes n w' \<and>
    group_only n (mgrs w) (mgrs w') \<and> is_sharing n k q m Y \<and>
    revealed binary Y = foldl (\<lambda>x grp. gather (inverse_perm (P grp)) x) (revealed binary X) (getGroups n)"
    by (rule hm_apply_groups_correct [OF assms(1,2) subset_refl _ _ assms(3,4)])
      (simp_all add: evec_apply_perm_share_out permute_def [abs_def])
  then show ?thesis
    using foldl_permute [OF sharded_perms [OF assms(2)] length_revealed [OF assms(4,1)]]
    by (simp add: hm_oblivious_apply_sharded_perm_def permute_def)
qed

lemma hm_apply_inverse_correct:
  fixes X :: "'a::len sharing" and w :: "('a, 's) world"
  assumes "hm_params n k" and "sharded n m P sps" and "hm_ok aes n w" and "is_sharing n k q m X"
  shows "\<exists>Y w'. hm_oblivious_apply_inverse_sharded_perm binary aes n k sps X w = Some (Y, w') \<and> hm_ok aes n w' \<and>
    group_only n (mgrs w) (mgrs w') \<and> is_sharing n k q m Y \<and> revealed binary Y = gather (composed_perm m P (getGroups n)) (revealed binary X)"
proof -
  have "\<exists>Y w'. hm_apply_groups evec_apply_inverse_perm binary aes n k sps (rev (getGroups n)) X w = Some (Y, w') \<and> hm_ok aes n w' \<and>
    group_only n (mgrs w) (mgrs w') \<and> is_sharing n k q m Y \<and>
    revealed binary Y = foldl (\<lambda>x grp. gather (P grp) x) (revealed binary X) (rev (getGroups n))"
    by (rule hm_apply_groups_correct [OF assms(1,2) _ _ _ assms(3,4)]) (simp_all add: evec_apply_inverse_share_out)
  then show ?thesis
    using foldl_gather_rev [OF sharded_perms [OF assms(2)] length_revealed [OF assms(4,1)]]
    by (simp add: hm_oblivious_apply_inverse_sharded_perm_def)
qed

end
