(* ===== verification/Elementwise.thy ===== *)
theory Elementwise
  imports Permutation_Proofs Shuffle_Proofs
begin

text \<open>
  Elementwise permutations (\<open>core/containers/permutation.h\<close>) and the operators on them
  (\<open>core/operators/shuffle.h\<close>): a permutation is itself a secret-shared vector of destinations.  It is
  applied, inverted, composed and converted by hiding it behind a random sharded permutation, opening
  the result and permuting locally.  The operators use the engine through the record \<open>shuffler\<close>; what they
  rely on is the locale \<open>shuffling_protocol\<close>.
\<close>

section \<open>The engine's interface\<close>

record (overloaded) ('a, 'pm, 'st) shuffler =
  s_getNext :: "nat \<Rightarrow> bool \<Rightarrow> 'st \<Rightarrow> ('pm \<times> 'st) option"
  s_getNextPair :: "nat \<Rightarrow> bool \<Rightarrow> bool \<Rightarrow> 'st \<Rightarrow> (('pm \<times> 'pm) \<times> 'st) option"
  s_apply :: "bool \<Rightarrow> 'pm \<Rightarrow> 'a::len evec list \<Rightarrow> 'st \<Rightarrow> ('a evec list \<times> 'st) option"
  s_apply_inverse :: "bool \<Rightarrow> 'pm \<Rightarrow> 'a evec list \<Rightarrow> 'st \<Rightarrow> ('a evec list \<times> 'st) option"
  s_open :: "bool \<Rightarrow> 'a evec list \<Rightarrow> 'st \<Rightarrow> ('a vec list \<times> 'st) option"
  s_public_share :: "'a vec \<Rightarrow> 'a evec list option"
  s_reserve :: "nat \<Rightarrow> nat \<Rightarrow> nat \<Rightarrow> 'st \<Rightarrow> (unit \<times> 'st) option"

record (overloaded) 'a elem_perm =
  sharedVector :: "'a::len evec list"
  encoding :: bool

text \<open>An opened permutation is a vector of signed integers; a negative one is no position.\<close>

definition as_std_vector :: "'a::len vec \<Rightarrow> nat list option" where
  "as_std_vector v = those (map (\<lambda>x. if sint x < 0 then None else Some (nat (sint x))) v)"

definition apply_opened ::
  "(nat list \<Rightarrow> 'a evec \<Rightarrow> 'a evec option) \<Rightarrow> 'a vec list \<Rightarrow> 'a::len sharing \<Rightarrow> 'a sharing option" where
  "apply_opened f opened X = those (map2 (\<lambda>v x. as_std_vector v \<bind> (\<lambda>permutation. f permutation x)) opened X)"

definition elem_new :: "('a::len, 'pm, 'st) shuffler \<Rightarrow> nat \<Rightarrow> bool \<Rightarrow> 'a elem_perm option" where
  "elem_new S size_n enc = do {
     v \<leftarrow> s_public_share S (map of_nat [0..<size_n]);
     Some \<lparr>sharedVector = v, encoding = enc\<rparr>
   }"

definition elem_size :: "'a::len elem_perm \<Rightarrow> nat" where
  "elem_size p = sh_size (sharedVector p)"

section \<open>Operators\<close>

definition oblivious_apply_elementwise_perm ::
  "('a::len, 'pm, 'st) shuffler \<Rightarrow> bool \<Rightarrow> 'a sharing \<Rightarrow> 'a elem_perm \<Rightarrow> 'st \<Rightarrow> ('a sharing \<times> 'st) option" where
  "oblivious_apply_elementwise_perm S binary x perm st = do {
     ((pi_1, pi_2), st) \<leftarrow> s_getNextPair S (sh_size x) binary (encoding perm) st;
     (x, st) \<leftarrow> s_apply S binary pi_1 x st;
     (permutation, st) \<leftarrow> s_apply S (encoding perm) pi_2 (sharedVector perm) st;
     (pi_perm, st) \<leftarrow> s_open S (encoding perm) permutation st;
     x \<leftarrow> apply_opened evec_apply_perm pi_perm x;
     Some (x, st)
   }"

text \<open>Both arguments are references: the result is the new \<open>rho\<close>, and \<open>sigma\<close> is left shuffled.\<close>

definition compose_permutations ::
  "('a::len, 'pm, 'st) shuffler \<Rightarrow> 'a elem_perm \<Rightarrow> 'a elem_perm \<Rightarrow> 'st \<Rightarrow> ('a elem_perm \<times> 'a elem_perm \<times> 'st) option" where
  "compose_permutations S sigma rho st =
     (if encoding sigma \<noteq> encoding rho then None
      else do {
        (pi, st) \<leftarrow> s_getNext S (elem_size sigma) (encoding sigma) st;
        (s, st) \<leftarrow> s_apply S (encoding sigma) pi (sharedVector sigma) st;
        let sigma = sigma\<lparr>sharedVector := s\<rparr>;
        (pi_sigma, st) \<leftarrow> s_open S (encoding sigma) (sharedVector sigma) st;
        r \<leftarrow> apply_opened evec_apply_inverse_perm pi_sigma (sharedVector rho);
        (r, st) \<leftarrow> s_apply_inverse S (encoding rho) pi r st;
        Some (rho\<lparr>sharedVector := r\<rparr>, sigma, st)
      })"

definition sv_shuffle ::
  "('a::len, 'pm, 'st) shuffler \<Rightarrow> bool \<Rightarrow> 'a sharing \<Rightarrow> 'st \<Rightarrow> ('a sharing \<times> 'st) option" where
  "sv_shuffle S binary x st = do {
     (sharded_perm, st) \<leftarrow> s_getNext S (sh_size x) binary st;
     s_apply S binary sharded_perm x st
   }"

primrec apply_to_columns ::
  "('a::len, 'pm, 'st) shuffler \<Rightarrow> bool \<Rightarrow> 'a elem_perm \<Rightarrow> 'a sharing list \<Rightarrow> 'st \<Rightarrow> ('a sharing list \<times> 'st) option" where
  "apply_to_columns S binary permutation [] st = Some ([], st)"
| "apply_to_columns S binary permutation (c # cs) st = do {
     (c, st) \<leftarrow> oblivious_apply_elementwise_perm S binary c permutation st;
     (cs, st) \<leftarrow> apply_to_columns S binary permutation cs st;
     Some (c # cs, st)
   }"

definition shuffle_columns ::
  "('a::len, 'pm, 'st) shuffler \<Rightarrow> 'a sharing list \<Rightarrow> 'a sharing list \<Rightarrow> nat \<Rightarrow> 'st
    \<Rightarrow> (('a sharing list \<times> 'a sharing list) \<times> 'st) option" where
  "shuffle_columns S data_a data_b size_n st =
     (if data_a = [] then None
      else do {
        (sharded_perm, st) \<leftarrow> s_getNext S size_n True st;
        permutation \<leftarrow> elem_new S size_n True;
        (v, st) \<leftarrow> s_apply S True sharded_perm (sharedVector permutation) st;
        let permutation = permutation\<lparr>sharedVector := v\<rparr>;
        (data_a, st) \<leftarrow> apply_to_columns S False permutation data_a st;
        (data_b, st) \<leftarrow> apply_to_columns S True permutation data_b st;
        Some ((data_a, data_b), st)
      })"

section \<open>Methods of an elementwise permutation\<close>

definition elem_shuffle :: "('a::len, 'pm, 'st) shuffler \<Rightarrow> 'a elem_perm \<Rightarrow> 'st \<Rightarrow> ('a elem_perm \<times> 'st) option" where
  "elem_shuffle S p st = do {
     (v, st) \<leftarrow> sv_shuffle S (encoding p) (sharedVector p) st;
     Some (p\<lparr>sharedVector := v\<rparr>, st)
   }"

definition elem_invert :: "('a::len, 'pm, 'st) shuffler \<Rightarrow> 'a elem_perm \<Rightarrow> 'st \<Rightarrow> ('a elem_perm \<times> 'st) option" where
  "elem_invert S p st = do {
     inverse \<leftarrow> elem_new S (elem_size p) (encoding p);
     (v, st) \<leftarrow> oblivious_apply_elementwise_perm S (encoding p) (sharedVector inverse) p st;
     Some (p\<lparr>sharedVector := v\<rparr>, st)
   }"

text \<open>
  The conversion of a permutation for more than two parties.  Every party publicly shares the vector
  it has opened itself.
\<close>

definition public_share_each :: "('a::len, 'pm, 'st) shuffler \<Rightarrow> 'a vec list \<Rightarrow> 'a sharing option" where
  "public_share_each S opened =
     those (map (\<lambda>p. s_public_share S (opened ! p) \<bind> (\<lambda>X. Some (X ! p))) [0..<length opened])"

definition elem_b2a :: "('a::len, 'pm, 'st) shuffler \<Rightarrow> 'a elem_perm \<Rightarrow> 'st \<Rightarrow> ('a elem_perm \<times> 'st) option" where
  "elem_b2a S p st =
     (if \<not> encoding p then None
      else do {
        (pi, st) \<leftarrow> s_getNext S (elem_size p) True st;
        (v, st) \<leftarrow> s_apply S True pi (sharedVector p) st;
        (pi_perm, st) \<leftarrow> s_open S True v st;
        ret \<leftarrow> public_share_each S pi_perm;
        (ret, st) \<leftarrow> s_apply_inverse S False pi ret st;
        Some (p\<lparr>sharedVector := ret, encoding := False\<rparr>, st)
      })"

definition sv_repeat :: "nat \<Rightarrow> 'a::len sharing \<Rightarrow> 'a sharing" where
  "sv_repeat size_n X = map (apply_return (\<lambda>c. concat (map (replicate size_n) c))) X"

definition elem_reverse ::
  "('a::len, 'pm, 'st) shuffler \<Rightarrow> ('a, 'st) protocol \<Rightarrow> 'a elem_perm \<Rightarrow> 'st \<Rightarrow> ('a elem_perm \<times> 'st) option" where
  "elem_reverse S P p st =
     (if encoding p then None
      else do {
        negative_one \<leftarrow> s_public_share S [- 1];
        additive_constant \<leftarrow> s_public_share S [of_nat (elem_size p) - 1];
        (v, st) \<leftarrow> v_multiply_a P (sharedVector p) (sv_repeat (elem_size p) negative_one) st;
        let v = add_a v (sv_repeat (elem_size p) additive_constant);
        Some (p\<lparr>sharedVector := v\<rparr>, st)
      })"

text \<open>\<open>negate\<close> works on a vector that shares its storage with the permutation.\<close>

definition elem_negate ::
  "('a::len, 'pm, 'st) shuffler \<Rightarrow> ('a, 'st) protocol \<Rightarrow> 'a elem_perm \<Rightarrow> 'st \<Rightarrow> ('a elem_perm \<times> 'st) option" where
  "elem_negate S P p st = do {
     negative_one \<leftarrow> s_public_share S [- 1];
     let negative_one = sv_repeat (elem_size p) negative_one;
     (v, st) \<leftarrow> v_multiply_a P (sharedVector p) negative_one st;
     let v = add_a v negative_one;
     Some (p\<lparr>sharedVector := v\<rparr>, st)
   }"

end
