(* ===== verification/Radix_Sort.thy ===== *)
theory Radix_Sort
  imports Elementwise Vector_Algebra Protocol
begin

text \<open>
  \<open>radix_sort_ccs\<close> (\<open>core/operators/radixsort.h\<close>), for elements of the width of the permutations: one
  pass per bit.  A pass converts the bit to an arithmetic sharing, computes every element's destination
  with a prefix sum over the zeros followed by the ones, selects with one multiplication, applies the
  resulting permutation to the vector and composes it with the permutation so far.
\<close>

section \<open>Local operations on sharings\<close>

definition sv_concat :: "'a::len sharing \<Rightarrow> 'a sharing \<Rightarrow> 'a sharing" where
  "sv_concat s0 s1 = map2 (apply_input (@)) s0 s1"

definition sv_prefix_sum :: "'a::len sharing \<Rightarrow> 'a sharing" where
  "sv_prefix_sum s = map (apply_to vec_prefix_sum) s"

definition sv_first_half :: "nat \<Rightarrow> 'a::len sharing \<Rightarrow> 'a sharing" where
  "sv_first_half n s = map (apply_return (take n)) s"

definition sv_second_half :: "nat \<Rightarrow> 'a::len sharing \<Rightarrow> 'a sharing" where
  "sv_second_half n s = map (apply_return (drop n)) s"

text \<open>\<open>s.slice(0, 1) -= 1\<close>: a public sharing of one is subtracted from the first element.\<close>

definition sub_first :: "'a::len vec \<Rightarrow> 'a vec \<Rightarrow> 'a vec" where
  "sub_first t u = (case t of [] \<Rightarrow> [] | x # xs \<Rightarrow> (x - hd u) # xs)"

definition sv_sub_first :: "'a::len sharing \<Rightarrow> 'a sharing \<Rightarrow> 'a sharing" where
  "sv_sub_first s u = map2 (apply_input sub_first) s u"

section \<open>One pass\<close>

definition radix_bit_perm ::
  "('a::len, 'pm, 'st) shuffler \<Rightarrow> ('a, 'st) protocol \<Rightarrow> 'a sharing \<Rightarrow> 'a sharing \<Rightarrow> 'st \<Rightarrow> ('a elem_perm \<times> 'st) option" where
  "radix_bit_perm S P one f1 st = do {
     let n = sh_size f1;
     let s0 = sub_a one f1;
     let s = sv_concat s0 f1;
     minus \<leftarrow> s_public_share S [1];
     let s = sv_sub_first s minus;
     let s = sv_prefix_sum s;
     let s0 = sv_first_half n s;
     let s1 = sv_second_half n s;
     let s1 = sub_a s1 s0;
     (f1, st) \<leftarrow> v_multiply_a P f1 s1 st;
     let s0 = add_a s0 f1;
     Some (\<lparr>sharedVector = s0, encoding = False\<rparr>, st)
   }"

text \<open>\<open>v_shift\<close> is a fresh vector: an engine call fills its elements and leaves its precision \<open>0\<close>.\<close>

definition radix_bit ::
  "('a::len, 'pm, 'st) shuffler \<Rightarrow> ('a, 'st) protocol \<Rightarrow> bool \<Rightarrow> nat \<Rightarrow> 'a sharing \<Rightarrow> nat \<Rightarrow> 'a sharing \<Rightarrow> 'st
    \<Rightarrow> ('a elem_perm \<times> 'st) option" where
  "radix_bit S P full_width bits one i v st = do {
     let v_shift = p_setPrecision 0 (p_bit_arithmetic_right_shift v i);
     let v_shift = (if full_width \<and> i = bits - 1 then inplace_invert_b P v_shift else v_shift);
     (f1, st) \<leftarrow> v_b2a_bit P v_shift st;
     radix_bit_perm S P one f1 st
   }"

section \<open>All bits\<close>

primrec radix_loop ::
  "('a::len, 'pm, 'st) shuffler \<Rightarrow> ('a, 'st) protocol \<Rightarrow> bool \<Rightarrow> nat \<Rightarrow> 'a sharing \<Rightarrow> nat list \<Rightarrow> 'a sharing \<Rightarrow> 'a elem_perm \<Rightarrow> 'st
    \<Rightarrow> (('a sharing \<times> 'a elem_perm) \<times> 'st) option" where
  "radix_loop S P full_width bits one [] v total_perm st = Some ((v, total_perm), st)"
| "radix_loop S P full_width bits one (i # is) v total_perm st = do {
     (bit_perm, st) \<leftarrow> radix_bit S P full_width bits one i v st;
     (v, st) \<leftarrow> oblivious_apply_elementwise_perm S True v bit_perm st;
     (total_perm, sigma, st) \<leftarrow> compose_permutations S total_perm bit_perm st;
     radix_loop S P full_width bits one is v total_perm st
   }"

definition radix_sort_ccs ::
  "('a::len, 'pm, 'st) shuffler \<Rightarrow> ('a, 'st) protocol \<Rightarrow> 'a sharing \<Rightarrow> nat \<Rightarrow> bool \<Rightarrow> 'st
    \<Rightarrow> (('a sharing \<times> 'a elem_perm) \<times> 'st) option" where
  "radix_sort_ccs S P v bits full_width st = do {
     let n = sh_size v;
     (u, st) \<leftarrow> s_reserve S n (bits + 2) 0 st;
     one \<leftarrow> s_public_share S (replicate n 1);
     total_perm \<leftarrow> elem_new S n False;
     radix_loop S P full_width bits one [0..<bits] v total_perm st
   }"

end
