(* ===== verification/Stable_Partition.thy ===== *)
theory Stable_Partition
  imports Permutation_Proofs Vector_Algebra
begin

text \<open>
  The pure content of radix sort: the destinations that the prefix sums compute are the stable partition
  of a vector by one bit, and partitioning a vector that is stably sorted on the low bits by the next bit
  sorts it stably on one bit more.
\<close>

section \<open>Destinations of a stable partition\<close>

definition count_below :: "(nat \<Rightarrow> bool) \<Rightarrow> nat \<Rightarrow> nat" where
  "count_below b j = length (filter b [0..<j])"

definition partition_order :: "(nat \<Rightarrow> bool) \<Rightarrow> nat \<Rightarrow> nat list" where
  "partition_order b m = filter (\<lambda>j. \<not> b j) [0..<m] @ filter b [0..<m]"

definition destinations :: "(nat \<Rightarrow> bool) \<Rightarrow> nat \<Rightarrow> nat list" where
  "destinations b m =
     map (\<lambda>j. if b j then count_below (\<lambda>j. \<not> b j) m + count_below b j else count_below (\<lambda>j. \<not> b j) j) [0..<m]"

lemma count_below_Suc: "count_below b (Suc j) = count_below b j + of_bool (b j)"
  by (simp add: count_below_def)

lemma filter_upt_nth:
  assumes "j < m" and "b j"
  shows "filter b [0..<m] ! count_below b j = j" and "count_below b j < count_below b m"
proof -
  have e: "[0..<m] = [0..<j] @ j # [Suc j..<m]"
    using assms(1) upt_add_eq_append [of 0 j "m - j"] by (simp add: upt_conv_Cons)
  show "filter b [0..<m] ! count_below b j = j" "count_below b j < count_below b m"
    unfolding count_below_def e using assms(2) by (simp_all add: nth_append)
qed

lemma partition_order_perm: "is_perm m (partition_order b m)"
proof (rule is_permI)
  show "set (partition_order b m) = {..<m}" by (auto simp: partition_order_def)
  show "length (partition_order b m) = m"
    using sum_length_filter_compl [of b "[0..<m]"] by (simp add: partition_order_def)
qed

lemma destinations_inverse:
  assumes "j < m"
  shows "partition_order b m ! (destinations b m ! j) = j" and "destinations b m ! j < m"
proof -
  let ?n = "\<lambda>j. \<not> b j"
  have t: "count_below ?n m + count_below b m = m"
    using sum_length_filter_compl [of b "[0..<m]"] by (simp add: count_below_def)
  have l: "length (filter ?n [0..<m]) = count_below ?n m" by (simp add: count_below_def)
  have "partition_order b m ! (destinations b m ! j) = j \<and> destinations b m ! j < m"
  proof (cases "b j")
    case True
    then have d: "destinations b m ! j = length (filter ?n [0..<m]) + count_below b j"
      using assms l by (simp add: destinations_def)
    show ?thesis unfolding partition_order_def d nth_append_length_plus
      using filter_upt_nth [of j m b, OF assms True] t l by simp
  next
    case False
    then have d: "destinations b m ! j = count_below ?n j" using assms by (simp add: destinations_def)
    show ?thesis unfolding partition_order_def d
      using filter_upt_nth [of j m ?n, OF assms False] t l by (simp add: nth_append)
  qed
  then show "partition_order b m ! (destinations b m ! j) = j" "destinations b m ! j < m" by simp_all
qed

lemma destinations_eq: "destinations b m = inverse_perm (partition_order b m)"
proof (rule nth_equalityI)
  have p: "is_perm m (partition_order b m)" by (rule partition_order_perm)
  show "length (destinations b m) = length (inverse_perm (partition_order b m))"
    using p by (simp add: destinations_def is_perm_def)
  fix j assume "j < length (destinations b m)"
  then have j: "j < m" by (simp add: destinations_def)
  have "inverse_perm (partition_order b m) ! (partition_order b m ! (destinations b m ! j)) = destinations b m ! j"
    by (rule nth_inverse_perm [OF p destinations_inverse(2) [OF j]])
  then show "destinations b m ! j = inverse_perm (partition_order b m) ! j"
    using destinations_inverse(1) [OF j] by simp
qed

lemma destinations_perm: "is_perm m (destinations b m)"
  unfolding destinations_eq by (rule is_perm_inverse [OF partition_order_perm])

lemma permute_destinations:
  assumes "length x = m" and "\<And>j. j < m \<Longrightarrow> b j = Q (x ! j)"
  shows "permute (destinations b m) x = filter (\<lambda>y. \<not> Q y) x @ filter Q x"
proof -
  have p: "is_perm m (partition_order b m)" by (rule partition_order_perm)
  have "permute (destinations b m) x = gather (partition_order b m) x"
  proof (rule permute_unique [symmetric, OF destinations_perm])
    show "length (gather (partition_order b m) x) = m" using p by (simp add: is_perm_def)
    show "gather (partition_order b m) x ! (destinations b m ! i) = x ! i" if "i < m" for i
      using destinations_inverse [OF that] p by (simp add: is_perm_def)
  qed
  also have "\<dots> = map ((!) x) (filter (\<lambda>j. \<not> Q (x ! j)) [0..<m]) @ map ((!) x) (filter (\<lambda>j. Q (x ! j)) [0..<m])"
    using assms(2) unfolding gather_def partition_order_def map_append
    by (intro arg_cong2 [where f = "(@)"] arg_cong [where f = "map ((!) x)"] filter_cong) auto
  also have "\<dots> = filter (\<lambda>y. \<not> Q y) (map ((!) x) [0..<m]) @ filter Q (map ((!) x) [0..<m])"
    by (simp add: filter_map comp_def)
  also have "map ((!) x) [0..<m] = x" using map_nth [of x] assms(1) by simp
  finally show ?thesis .
qed

section \<open>One more bit\<close>

lemma sort_one_bit:
  fixes key :: "'b \<Rightarrow> nat"
  assumes "\<And>x. x \<in> set xs \<Longrightarrow> key x < c"
  shows "filter (\<lambda>y. \<not> Q y) (sort_key key xs) @ filter Q (sort_key key xs) = sort_key (\<lambda>x. key x + (if Q x then c else 0)) xs"
proof (rule properties_for_sort_key [symmetric])
  let ?v = "sort_key key xs" and ?k = "\<lambda>x. key x + (if Q x then c else 0)"
  show "mset (filter (\<lambda>y. \<not> Q y) ?v @ filter Q ?v) = mset xs"
    using multiset_partition [of "mset xs" Q] by (simp add: mset_filter add.commute)
  show "filter (\<lambda>x. ?k k = ?k x) (filter (\<lambda>y. \<not> Q y) ?v @ filter Q ?v) = filter (\<lambda>x. ?k k = ?k x) xs"
    if k: "k \<in> set (filter (\<lambda>y. \<not> Q y) ?v @ filter Q ?v)" for k
  proof -
    have lt: "key x < c" if "x \<in> set ?v" for x using that assms by simp
    have kv: "k \<in> set ?v" using k by auto
    have eq: "(?k k = ?k x) = (key k = key x \<and> Q k = Q x)" if "x \<in> set ?v" for x
      using lt [OF that] lt [OF kv] by auto
    have "filter (\<lambda>x. ?k k = ?k x) (filter (\<lambda>y. \<not> Q y) ?v @ filter Q ?v)
      = filter (\<lambda>x. key k = key x \<and> Q k = Q x) (filter (\<lambda>y. \<not> Q y) ?v @ filter Q ?v)"
      by (rule filter_cong [OF refl]) (simp only: set_append set_filter Un_iff mem_Collect_eq, metis eq)
    also have "\<dots> = filter (\<lambda>x. Q k = Q x) (filter (\<lambda>x. key x = key k) ?v)"
      by (cases "Q k") (auto simp: filter_empty_conv intro!: filter_cong)
    also have "\<dots> = filter (\<lambda>x. Q k = Q x) (filter (\<lambda>x. key x = key k) xs)" by (simp only: sort_key_stable)
    also have "\<dots> = filter (\<lambda>x. key x = key k \<and> Q k = Q x) xs" by (simp only: filter_filter)
    also have "\<dots> = filter (\<lambda>x. ?k k = ?k x) xs"
      by (rule filter_cong [OF refl]) (metis eq set_sort)
    finally show ?thesis .
  qed
  have s: "sorted (map key (filter R ?v))" for R by (rule sorted_filter) simp
  have "map ?k (filter (\<lambda>y. \<not> Q y) ?v) = map key (filter (\<lambda>y. \<not> Q y) ?v)" by simp
  then have "sorted (map ?k (filter (\<lambda>y. \<not> Q y) ?v))" using s [of "\<lambda>y. \<not> Q y"] by (simp only:)
  moreover have "sorted (map ?k (filter Q ?v))"
  proof -
    have e: "map ?k (filter Q ?v) = map (\<lambda>z. z + c) (map key (filter Q ?v))" by simp
    have mono: "sorted (map (\<lambda>z. z + c) zs)" if "sorted zs" for zs using that by (induction zs) auto
    show ?thesis unfolding e by (rule mono) (rule s)
  qed
  ultimately show "sorted (map ?k (filter (\<lambda>y. \<not> Q y) ?v @ filter Q ?v))"
    using assms by (fastforce simp: sorted_append)
qed

lemma sort_key_cong_order:
  assumes "\<And>x y. x \<in> set xs \<Longrightarrow> y \<in> set xs \<Longrightarrow> f x \<le> f y \<longleftrightarrow> g x \<le> g y"
  shows "sort_key f xs = sort_key g xs"
proof (rule properties_for_sort_key)
  show "mset (sort_key g xs) = mset xs" by simp
  have eq: "f x = f y \<longleftrightarrow> g x = g y" if "x \<in> set xs" "y \<in> set xs" for x y
    using assms [OF that] assms [OF that(2,1)] by (metis antisym order.refl)
  show "filter (\<lambda>x. f k = f x) (sort_key g xs) = filter (\<lambda>x. f k = f x) xs" if k: "k \<in> set (sort_key g xs)" for k
  proof -
    have "filter (\<lambda>x. f k = f x) (sort_key g xs) = filter (\<lambda>x. g x = g k) (sort_key g xs)"
      using k eq by (intro filter_cong) auto
    also have "\<dots> = filter (\<lambda>x. g x = g k) xs" by (rule sort_key_stable)
    also have "\<dots> = filter (\<lambda>x. f k = f x) xs" using k eq by (intro filter_cong) auto
    finally show ?thesis .
  qed
  have "sorted (map g (sort_key g xs))" by simp
  then show "sorted (map f (sort_key g xs))"
    using assms unfolding sorted_map by (elim sorted_wrt_mono_rel [rotated]) auto
qed

end
