(* ===== verification/Elementwise_Proofs.thy ===== *)
theory Elementwise_Proofs
  imports Elementwise
begin

text \<open>
  The contract between the operators on elementwise permutations and the engine, and their
  correctness inside it: applying a shared permutation permutes the secret, composition, inversion,
  conversion, reversal and negation reveal the composed, inverted, converted and shifted permutation.
\<close>

section \<open>Opened permutations\<close>

lemma sint_of_nat_small: "i < 2 ^ (LENGTH('a) - 1) \<Longrightarrow> sint (of_nat i :: 'a::len word) = int i"
proof -
  assume i: "i < 2 ^ (LENGTH('a) - 1)"
  have "int i < 2 ^ (LENGTH('a) - 1)" using i by (metis of_nat_less_iff of_nat_numeral of_nat_power)
  moreover have "- (2 ^ (LENGTH('a) - 1)) \<le> (0 :: int)" by simp
  then have "- (2 ^ (LENGTH('a) - 1)) \<le> int i" by linarith
  ultimately have "signed_take_bit (LENGTH('a) - 1) (int i) = int i" by (intro signed_take_bit_int_eq_self)
  then show ?thesis by (simp add: signed_of_nat)
qed

lemma as_std_vector_perm:
  assumes "is_perm m p" and "m \<le> 2 ^ (LENGTH('a) - 1)"
  shows "as_std_vector (map of_nat p :: 'a::len vec) = Some p"
proof -
  have "sint (of_nat i :: 'a word) = int i" if "i \<in> set p" for i
    using that assms by (intro sint_of_nat_small) (auto simp: is_perm_def)
  then have "map (\<lambda>x. if sint x < 0 then None else Some (nat (sint x))) (map of_nat p :: 'a vec) = map (\<lambda>i. Some i) p"
    by simp
  then have "as_std_vector (map of_nat p :: 'a vec) = Some (map (\<lambda>i. i) p)"
    unfolding as_std_vector_def by (simp only: those_Some)
  then show ?thesis by simp
qed

lemma apply_opened_sharing:
  fixes X :: "'a::len sharing"
  assumes f: "\<And>x :: 'a evec. \<forall>c \<in> set (cols x). length c = m \<Longrightarrow> f p x = Some (x\<lparr>cols := map (gather u) (cols x)\<rparr>)"
    and u: "is_perm m u" and p: "is_perm m p" "m \<le> 2 ^ (LENGTH('a) - 1)"
    and X: "is_sharing n k q m X" and pos: "0 < k" "0 < n"
  shows "\<exists>Y. apply_opened f (replicate n (map of_nat p)) X = Some Y \<and> is_sharing n k q m Y \<and>
    (\<forall>b. revealed b Y = gather u (revealed b X))"
proof -
  obtain xs where xs: "X = share_out k q xs" "length xs = n" "\<forall>x \<in> set xs. length x = m"
    using X by (rule is_sharingE)
  let ?Y = "share_out k q (map (gather u) xs)"
  have "f p (share_out k q xs ! r) = Some (?Y ! r)" if "r < n" for r
    using f [of "share_out k q xs ! r"] that xs pos by (auto simp: nth_share_out comp_def)
  then have "map2 (\<lambda>v x. as_std_vector v \<bind> (\<lambda>permutation. f permutation x)) (replicate n (map of_nat p :: 'a vec)) X
    = map (\<lambda>r. Some (?Y ! r)) [0..<n]"
    using as_std_vector_perm [OF p] xs(1,2) by (intro nth_equalityI) simp_all
  then have "apply_opened f (replicate n (map of_nat p)) X = Some (map ((!) ?Y) [0..<n])"
    unfolding apply_opened_def by (simp only: those_Some)
  also have "map ((!) ?Y) [0..<n] = ?Y" using xs(2) map_nth [of ?Y] by simp
  finally have run: "apply_opened f (replicate n (map of_nat p)) X = Some ?Y" .
  have l: "length (map (gather u) xs) = n" "\<forall>x \<in> set (map (gather u) xs). length x = m"
    using xs(2) u by (auto simp: is_perm_def)
  have "reveal_b X = vxor_all m xs" "reveal_a X = vadd_all m xs"
    "reveal_b ?Y = vxor_all m (map (gather u) xs)" "reveal_a ?Y = vadd_all m (map (gather u) xs)"
    unfolding xs(1) using xs(2,3) l pos by (auto intro!: reveal_b_share_out reveal_a_share_out)
  then have "revealed b ?Y = gather u (revealed b X)" for b
    using vxor_all_gather [OF u xs(3)] vadd_all_gather [OF u xs(3)] by (simp add: revealed_def)
  moreover have "is_sharing n k q m ?Y" using l pos by (simp add: is_sharing_share_out)
  ultimately show ?thesis using run by blast
qed

lemma apply_opened_perm:
  fixes X :: "'a::len sharing"
  assumes "is_perm m p" and "m \<le> 2 ^ (LENGTH('a) - 1)" and "is_sharing n k q m X" and "0 < k" and "0 < n"
  shows "\<exists>Y. apply_opened evec_apply_perm (replicate n (map of_nat p)) X = Some Y \<and> is_sharing n k q m Y \<and>
    (\<forall>b. revealed b Y = permute p (revealed b X))"
  unfolding permute_def using assms
  by (intro apply_opened_sharing) (simp_all add: evec_apply_perm_share_out permute_def [abs_def])

lemma apply_opened_inverse:
  fixes X :: "'a::len sharing"
  assumes "is_perm m p" and "m \<le> 2 ^ (LENGTH('a) - 1)" and "is_sharing n k q m X" and "0 < k" and "0 < n"
  shows "\<exists>Y. apply_opened evec_apply_inverse_perm (replicate n (map of_nat p)) X = Some Y \<and> is_sharing n k q m Y \<and>
    (\<forall>b. revealed b Y = gather p (revealed b X))"
  using assms by (intro apply_opened_sharing) (simp_all add: evec_apply_inverse_share_out)

lemma gather_map: "is_perm m p \<Longrightarrow> length x = m \<Longrightarrow> gather p (map f x) = map f (gather p x)"
  by (intro nth_equalityI) (auto simp: is_perm_def)

lemma permute_map: "is_perm m p \<Longrightarrow> length x = m \<Longrightarrow> permute p (map f x) = map f (permute p x)"
  unfolding permute_def by (rule gather_map) simp_all

section \<open>The contract\<close>

locale shuffling_protocol =
  fixes S :: "('a::len, 'pm, 'st) shuffler" and n k m :: nat and ok :: "'st \<Rightarrow> bool" and acts :: "bool \<Rightarrow> nat list \<Rightarrow> 'pm \<Rightarrow> bool"
  assumes n_pos: "0 < n" and k_pos: "0 < k" and fits: "ok st \<Longrightarrow> m \<le> 2 ^ (LENGTH('a) - 1)"
    and next_law: "ok st \<Longrightarrow> \<exists>pi T st'. s_getNext S m enc st = Some (pi, st') \<and> is_perm m T \<and> acts enc T pi \<and> ok st'"
    and pair_law: "ok st \<Longrightarrow> \<exists>pi1 pi2 T st'. s_getNextPair S m enc1 enc2 st = Some ((pi1, pi2), st') \<and>
        is_perm m T \<and> acts enc1 T pi1 \<and> acts enc2 T pi2 \<and> ok st'"
    and apply_law: "ok st \<Longrightarrow> is_perm m T \<Longrightarrow> acts b T pi \<Longrightarrow> is_sharing n k q m X \<Longrightarrow>
      \<exists>Y st'. s_apply S b pi X st = Some (Y, st') \<and> ok st' \<and> is_sharing n k q m Y \<and>
        revealed b Y = permute T (revealed b X)"
    and inverse_law: "ok st \<Longrightarrow> is_perm m T \<Longrightarrow> acts b T pi \<Longrightarrow> is_sharing n k q m X \<Longrightarrow>
      \<exists>Y st'. s_apply_inverse S b pi X st = Some (Y, st') \<and> ok st' \<and> is_sharing n k q m Y \<and>
        revealed b Y = gather T (revealed b X)"
    and open_law: "ok st \<Longrightarrow> is_sharing n k q m X \<Longrightarrow>
      \<exists>st'. s_open S b X st = Some (replicate n (revealed b X), st') \<and> ok st'"
    and public_law: "\<exists>X. s_public_share S x = Some X \<and> is_sharing n k 0 (length x) X \<and> reveal_b X = x \<and> reveal_a X = x"
begin

definition perm_shared :: "nat list \<Rightarrow> 'a elem_perm \<Rightarrow> bool" where
  "perm_shared p e \<longleftrightarrow> is_perm m p \<and> is_sharing n k 0 m (sharedVector e) \<and>
     revealed (encoding e) (sharedVector e) = map of_nat p"

lemma size_of: "is_sharing n k q m X \<Longrightarrow> sh_size X = m"
  using is_sharing_size [of n k q m X 0] n_pos k_pos by (simp add: sh_size_def)

lemma len: "is_sharing n k q m X \<Longrightarrow> length (revealed b X) = m"
  using n_pos k_pos by (simp add: revealed_def)

text \<open>A shared permutation is hidden by a sharded one and opened: every party sees the shuffled permutation.\<close>

lemma open_shuffled:
  assumes "ok st" and "is_perm m T" and "acts (encoding e) T pi" and e: "perm_shared p e"
  shows "\<exists>V st1 st2. s_apply S (encoding e) pi (sharedVector e) st = Some (V, st1) \<and>
    s_open S (encoding e) V st1 = Some (replicate n (map of_nat (permute T p)), st2) \<and> ok st2 \<and>
    is_sharing n k 0 m V \<and> is_perm m (permute T p)"
proof -
  have p: "is_perm m p" "is_sharing n k 0 m (sharedVector e)" "revealed (encoding e) (sharedVector e) = map of_nat p"
    using e by (simp_all add: perm_shared_def)
  obtain V st1 where V: "s_apply S (encoding e) pi (sharedVector e) st = Some (V, st1)" "ok st1" "is_sharing n k 0 m V"
    "revealed (encoding e) V = permute T (map of_nat p)"
    using apply_law [OF assms(1-3) p(2)] p(3) by auto
  have "permute T (map of_nat p :: 'a vec) = map of_nat (permute T p)"
    using p(1) by (intro permute_map [OF assms(2)]) (simp add: is_perm_def)
  then show ?thesis using V open_law [OF V(2,3), of "encoding e"] is_perm_permute [OF assms(2) p(1)] by auto
qed

lemma elementwise_correct:
  assumes "ok st" and X: "is_sharing n k q m X" and e: "perm_shared p e"
  shows "\<exists>Y st'. oblivious_apply_elementwise_perm S b X e st = Some (Y, st') \<and> ok st' \<and> is_sharing n k q m Y \<and>
    revealed b Y = permute p (revealed b X)"
proof -
  obtain pi1 pi2 T st1 where T: "s_getNextPair S m b (encoding e) st = Some ((pi1, pi2), st1)" "is_perm m T"
    "acts b T pi1" "acts (encoding e) T pi2" "ok st1" using pair_law [OF assms(1)] by blast
  obtain X1 st2 where X1: "s_apply S b pi1 X st1 = Some (X1, st2)" "ok st2" "is_sharing n k q m X1"
    "revealed b X1 = permute T (revealed b X)" using apply_law [OF T(5,2,3) X] by blast
  obtain V st3 st4 where V: "s_apply S (encoding e) pi2 (sharedVector e) st2 = Some (V, st3)"
    "s_open S (encoding e) V st3 = Some (replicate n (map of_nat (permute T p)), st4)" "ok st4"
    "is_perm m (permute T p)" using open_shuffled [OF X1(2) T(2,4) e] by blast
  obtain Y where Y: "apply_opened evec_apply_perm (replicate n (map of_nat (permute T p))) X1 = Some Y"
    "is_sharing n k q m Y" "revealed b Y = permute (permute T p) (revealed b X1)"
    using apply_opened_perm [OF V(4) fits [OF assms(1)] X1(3) k_pos n_pos] by blast
  have p: "is_perm m p" using e by (simp add: perm_shared_def)
  have "permute (permute T p) (permute T (revealed b X)) = permute (gather T (permute T p)) (revealed b X)"
    by (rule permute_permute [OF T(2) V(4) len [OF X]])
  also have "gather T (permute T p) = p" using T(2) p by (intro gather_permute) (simp_all add: is_perm_def)
  finally show ?thesis using T(1) X1(1,4) V(1-3) Y size_of [OF X]
    by (auto simp: oblivious_apply_elementwise_perm_def)
qed

lemma compose_correct:
  assumes "ok st" and s: "perm_shared p sigma" and r: "perm_shared q rho" and "encoding sigma = encoding rho"
  shows "\<exists>R sigma' st'. compose_permutations S sigma rho st = Some (R, sigma', st') \<and> ok st' \<and>
    perm_shared (gather p q) R \<and> encoding R = encoding rho"
proof -
  have p: "is_perm m p" "is_sharing n k 0 m (sharedVector sigma)"
    and q: "is_perm m q" "is_sharing n k 0 m (sharedVector rho)" "revealed (encoding rho) (sharedVector rho) = map of_nat q"
    using s r by (simp_all add: perm_shared_def)
  obtain pi T st1 where T: "s_getNext S m (encoding sigma) st = Some (pi, st1)" "is_perm m T" "acts (encoding sigma) T pi" "ok st1"
    using next_law [OF assms(1)] by blast
  obtain V st2 st3 where V: "s_apply S (encoding sigma) pi (sharedVector sigma) st1 = Some (V, st2)"
    "s_open S (encoding sigma) V st2 = Some (replicate n (map of_nat (permute T p)), st3)" "ok st3"
    "is_perm m (permute T p)" using open_shuffled [OF T(4,2,3) s] by blast
  obtain R1 where R1: "apply_opened evec_apply_inverse_perm (replicate n (map of_nat (permute T p))) (sharedVector rho) = Some R1"
    "is_sharing n k 0 m R1" "revealed (encoding rho) R1 = gather (permute T p) (map of_nat q)"
    using apply_opened_inverse [OF V(4) fits [OF assms(1)] q(2) k_pos n_pos] q(3) by auto
  obtain R st4 where R: "s_apply_inverse S (encoding rho) pi R1 st3 = Some (R, st4)" "ok st4" "is_sharing n k 0 m R"
    "revealed (encoding rho) R = gather T (gather (permute T p) (map of_nat q))"
    using inverse_law [OF V(3) T(2) T(3) [unfolded assms(4)] R1(2)] R1(3) by auto
  have "gather T (gather (permute T p) (map of_nat q :: 'a vec)) = gather (gather T (permute T p)) (map of_nat q)"
    by (rule gather_gather [OF T(2) V(4)])
  also have "gather T (permute T p) = p" using T(2) p(1) by (intro gather_permute) (simp_all add: is_perm_def)
  also have "gather p (map of_nat q :: 'a vec) = map of_nat (gather p q)"
    using p(1) q(1) by (intro gather_map) (simp_all add: is_perm_def)
  finally have "perm_shared (gather p q) (rho\<lparr>sharedVector := R\<rparr>)"
    using R is_perm_gather [OF p(1) q(1)] by (simp add: perm_shared_def)
  moreover have "compose_permutations S sigma rho st = Some (rho\<lparr>sharedVector := R\<rparr>, sigma\<lparr>sharedVector := V\<rparr>, st4)"
    using T(1) V(1,2) R1(1) R(1) assms(4) size_of [OF p(2)] by (simp add: compose_permutations_def elem_size_def)
  ultimately show ?thesis using R(2) by auto
qed

lemma elem_new_correct: "\<exists>e. elem_new S m enc = Some e \<and> perm_shared [0..<m] e \<and> encoding e = enc"
proof -
  obtain X where "s_public_share S (map of_nat [0..<m]) = Some X" "is_sharing n k 0 m X"
    "reveal_b X = map of_nat [0..<m]" "reveal_a X = map of_nat [0..<m]"
    using public_law [of "map of_nat [0..<m]"] by auto
  then show ?thesis by (auto simp: elem_new_def perm_shared_def revealed_def)
qed

lemma invert_correct:
  assumes "ok st" and e: "perm_shared p e"
  shows "\<exists>e' st'. elem_invert S e st = Some (e', st') \<and> ok st' \<and> perm_shared (inverse_perm p) e' \<and> encoding e' = encoding e"
proof -
  have p: "is_perm m p" "is_sharing n k 0 m (sharedVector e)" using e by (simp_all add: perm_shared_def)
  obtain i where i: "elem_new S m (encoding e) = Some i" "perm_shared [0..<m] i" "encoding i = encoding e"
    using elem_new_correct by blast
  obtain Y st' where Y: "oblivious_apply_elementwise_perm S (encoding e) (sharedVector i) e st = Some (Y, st')" "ok st'"
    "is_sharing n k 0 m Y" "revealed (encoding e) Y = permute p (map of_nat [0..<m])"
    using elementwise_correct [OF assms(1) _ e, of 0 "sharedVector i" "encoding e"] i by (auto simp: perm_shared_def)
  have "permute p (map of_nat [0..<m] :: 'a vec) = map of_nat (permute p [0..<m])"
    by (rule permute_map [OF p(1)]) simp
  also have "permute p [0..<m] = inverse_perm p"
    unfolding permute_def using p(1) by (intro gather_identity_right) simp
  finally have "perm_shared (inverse_perm p) (e\<lparr>sharedVector := Y\<rparr>)" using Y p(1) by (simp add: perm_shared_def)
  then show ?thesis using i(1) Y(1,2) size_of [OF p(2)] by (auto simp: elem_invert_def elem_size_def)
qed

lemma shuffle_correct:
  assumes "ok st" and X: "is_sharing n k q m X"
  shows "\<exists>Y T st'. sv_shuffle S b X st = Some (Y, st') \<and> ok st' \<and> is_sharing n k q m Y \<and> is_perm m T \<and>
    revealed b Y = permute T (revealed b X)"
proof -
  obtain pi T st1 where T: "s_getNext S m b st = Some (pi, st1)" "is_perm m T" "acts b T pi" "ok st1"
    using next_law [OF assms(1)] by blast
  then show ?thesis using apply_law [OF T(4,2,3) X] size_of [OF X] by (auto simp: sv_shuffle_def)
qed

lemma apply_to_columns_correct:
  assumes "ok st" and "\<forall>c \<in> set cs. \<exists>q. is_sharing n k q m c" and e: "perm_shared p e"
  shows "\<exists>ds st'. apply_to_columns S b e cs st = Some (ds, st') \<and> ok st' \<and>
    map (revealed b) ds = map (\<lambda>c. permute p (revealed b c)) cs \<and> (\<forall>d \<in> set ds. \<exists>q. is_sharing n k q m d)"
  using assms(1,2)
proof (induction cs arbitrary: st)
  case (Cons c cs)
  obtain q where q: "is_sharing n k q m c" using Cons.prems(2) by auto
  obtain Y st1 where Y: "oblivious_apply_elementwise_perm S b c e st = Some (Y, st1)" "ok st1" "is_sharing n k q m Y"
    "revealed b Y = permute p (revealed b c)" using elementwise_correct [OF Cons.prems(1) q e] by blast
  obtain ds st' where "apply_to_columns S b e cs st1 = Some (ds, st')" "ok st'"
    "map (revealed b) ds = map (\<lambda>c. permute p (revealed b c)) cs" "\<forall>d \<in> set ds. \<exists>q. is_sharing n k q m d"
    using Cons.IH [OF Y(2)] Cons.prems(2) by auto
  then show ?case using Y by auto
qed simp

text \<open>A table is shuffled by one permutation for all its columns, so its rows stay together.\<close>

lemma shuffle_columns_correct:
  assumes "ok st" and "\<forall>c \<in> set as. \<exists>q. is_sharing n k q m c" and "\<forall>c \<in> set bs. \<exists>q. is_sharing n k q m c" and "as \<noteq> []"
  shows "\<exists>as' bs' T st'. shuffle_columns S as bs m st = Some ((as', bs'), st') \<and> ok st' \<and> is_perm m T \<and>
    map reveal_a as' = map (\<lambda>c. permute T (reveal_a c)) as \<and> map reveal_b bs' = map (\<lambda>c. permute T (reveal_b c)) bs"
proof -
  obtain pi T st1 where T: "s_getNext S m True st = Some (pi, st1)" "is_perm m T" "acts True T pi" "ok st1"
    using next_law [OF assms(1)] by blast
  obtain i where i: "elem_new S m True = Some i" "perm_shared [0..<m] i" "encoding i"
    using elem_new_correct [of True] by auto
  obtain V st2 where V: "s_apply S True pi (sharedVector i) st1 = Some (V, st2)" "ok st2" "is_sharing n k 0 m V"
    "revealed True V = permute T (map of_nat [0..<m])"
    using apply_law [OF T(4,2,3), of 0 "sharedVector i"] i(2,3) by (auto simp: perm_shared_def)
  have "permute T (map of_nat [0..<m] :: 'a vec) = map of_nat (inverse_perm T)"
    using permute_map [OF T(2), of "[0..<m]" of_nat] gather_identity_right [of m "inverse_perm T"] T(2)
    by (simp add: permute_def)
  then have e: "perm_shared (inverse_perm T) (i\<lparr>sharedVector := V\<rparr>)"
    using V i T(2) by (simp add: perm_shared_def)
  obtain as' st3 where a: "apply_to_columns S False (i\<lparr>sharedVector := V\<rparr>) as st2 = Some (as', st3)" "ok st3"
    "map (revealed False) as' = map (\<lambda>c. permute (inverse_perm T) (revealed False c)) as"
    using apply_to_columns_correct [OF V(2) assms(2) e] by blast
  obtain bs' st4 where b: "apply_to_columns S True (i\<lparr>sharedVector := V\<rparr>) bs st3 = Some (bs', st4)" "ok st4"
    "map (revealed True) bs' = map (\<lambda>c. permute (inverse_perm T) (revealed True c)) bs"
    using apply_to_columns_correct [OF a(2) assms(3) e] by blast
  have "shuffle_columns S as bs m st = Some ((as', bs'), st4)"
    using T(1) i(1) V(1) a(1) b(1) assms(4) by (simp add: shuffle_columns_def Let_def)
  moreover have "revealed False = (reveal_a :: 'a sharing \<Rightarrow> 'a vec)" "revealed True = (reveal_b :: 'a sharing \<Rightarrow> 'a vec)"
    by (simp_all add: revealed_def fun_eq_iff)
  ultimately show ?thesis using a(3) b(2,3) is_perm_inverse [OF T(2)] by metis
qed

end

text \<open>With an honest majority a permutation acts on either kind of sharing, which the conversion of a shared permutation uses.\<close>

locale free_shuffling = shuffling_protocol S n k m ok acts
  for S :: "('a::len, 'pm, 'st) shuffler" and n k m :: nat and ok :: "'st \<Rightarrow> bool" and acts :: "bool \<Rightarrow> nat list \<Rightarrow> 'pm \<Rightarrow> bool" +
  assumes acts_free: "acts b T pi \<Longrightarrow> acts c T pi"
begin

lemma b2a_correct:
  assumes "ok st" and e: "perm_shared p e" and "encoding e"
  shows "\<exists>e' st'. elem_b2a S e st = Some (e', st') \<and> ok st' \<and> perm_shared p e' \<and> \<not> encoding e'"
proof -
  have p: "is_perm m p" "is_sharing n k 0 m (sharedVector e)" using e by (simp_all add: perm_shared_def)
  obtain pi T st1 where T: "s_getNext S m True st = Some (pi, st1)" "is_perm m T" "acts True T pi" "ok st1"
    using next_law [OF assms(1)] by blast
  obtain V st2 st3 where V: "s_apply S True pi (sharedVector e) st1 = Some (V, st2)"
    "s_open S True V st2 = Some (replicate n (map of_nat (permute T p)), st3)" "ok st3"
    "is_perm m (permute T p)" using open_shuffled [OF T(4,2) acts_free [OF T(3)] e] assms(3) by auto
  have lp: "length (permute T p) = m" using V(4) by (simp add: is_perm_def)
  obtain X where X: "s_public_share S (map of_nat (permute T p)) = Some X" "is_sharing n k 0 m X"
    "reveal_a X = map of_nat (permute T p)"
    using public_law [of "map of_nat (permute T p)"] lp by auto
  have "map (\<lambda>p'. s_public_share S (replicate n (map of_nat (permute T p)) ! p') \<bind> (\<lambda>X. Some (X ! p'))) [0..<n]
    = map (\<lambda>p'. Some (X ! p')) [0..<n]" using X(1) by simp
  then have "public_share_each S (replicate n (map of_nat (permute T p))) = Some (map ((!) X) [0..<n])"
    unfolding public_share_each_def length_replicate by (simp only: those_Some)
  also have "map ((!) X) [0..<n] = X" using map_nth [of X] is_sharing_length [OF X(2)] by simp
  finally have each: "public_share_each S (replicate n (map of_nat (permute T p))) = Some X" .
  obtain Y st4 where Y: "s_apply_inverse S False pi X st3 = Some (Y, st4)" "ok st4" "is_sharing n k 0 m Y"
    "revealed False Y = gather T (map of_nat (permute T p))"
    using inverse_law [OF V(3) T(2) acts_free [OF T(3)] X(2), of False] X(3) by (auto simp: revealed_def)
  have "gather T (map of_nat (permute T p) :: 'a vec) = map of_nat (gather T (permute T p))"
    using lp by (intro gather_map [OF T(2)])
  also have "gather T (permute T p) = p" using T(2) p(1) by (intro gather_permute) (simp_all add: is_perm_def)
  finally have "perm_shared p (e\<lparr>sharedVector := Y, encoding := False\<rparr>)" using Y p(1) by (simp add: perm_shared_def)
  then show ?thesis using T(1) V(1,2) each Y(1,2) assms(3) size_of [OF p(2)]
    by (auto simp: elem_b2a_def elem_size_def)
qed

end

end
