(* ===== verification/Radix_Proofs.thy ===== *)
theory Radix_Proofs
  imports Radix_Sort Stable_Partition Elementwise_Proofs Sorting_Proofs
begin

text \<open>
  Correctness of radix sort inside the contract of a sorting engine: the prefix sums open to the
  destinations of the stable partition by one bit, every pass extends the stable order by one bit, and the
  returned permutation is the one that sorts the input.
\<close>

section \<open>Additive local operations\<close>

definition add_hom :: "nat \<Rightarrow> nat \<Rightarrow> ('a::len vec \<Rightarrow> 'a vec) \<Rightarrow> bool" where
  "add_hom m m' F \<longleftrightarrow> (\<forall>x. length x = m \<longrightarrow> length (F x) = m') \<and>
     (\<forall>x y. length x = m \<longrightarrow> length y = m \<longrightarrow> F (vadd x y) = vadd (F x) (F y))"

definition add_hom2 :: "nat \<Rightarrow> nat \<Rightarrow> nat \<Rightarrow> ('a::len vec \<Rightarrow> 'a vec \<Rightarrow> 'a vec) \<Rightarrow> bool" where
  "add_hom2 m1 m2 m' F \<longleftrightarrow> (\<forall>x y. length x = m1 \<longrightarrow> length y = m2 \<longrightarrow> length (F x y) = m') \<and>
     (\<forall>x x' y y'. length x = m1 \<longrightarrow> length x' = m1 \<longrightarrow> length y = m2 \<longrightarrow> length y' = m2 \<longrightarrow>
        F (vadd x x') (vadd y y') = vadd (F x y) (F x' y'))"

lemma vadd_idem_zero: "length z = m \<Longrightarrow> vadd z z = z \<Longrightarrow> z = replicate m (0 :: 'a::len word)"
proof (rule nth_equalityI)
  assume z: "length z = m" "vadd z z = z"
  show "length z = length (replicate m (0 :: 'a word))" using z by simp
  fix i assume i: "i < length z"
  have "vadd z z ! i = z ! i + z ! i" using i by simp
  then have "z ! i + z ! i = z ! i" unfolding z(2) by simp
  then show "z ! i = replicate m 0 ! i" using i z(1) by simp
qed

lemma add_hom2_zero: "add_hom2 m1 m2 m' F \<Longrightarrow> F (replicate m1 0) (replicate m2 0) = replicate m' 0"
proof (rule vadd_idem_zero)
  assume F: "add_hom2 m1 m2 m' F"
  show "length (F (replicate m1 0) (replicate m2 0)) = m'" using F by (simp add: add_hom2_def)
  have "vadd (replicate m1 0) (replicate m1 0 :: 'a vec) = replicate m1 0"
    "vadd (replicate m2 0) (replicate m2 0 :: 'a vec) = replicate m2 0" by simp_all
  then show "vadd (F (replicate m1 0) (replicate m2 0)) (F (replicate m1 0) (replicate m2 0)) = F (replicate m1 0) (replicate m2 0)"
    using F unfolding add_hom2_def by (metis length_replicate)
qed

lemma add_hom2_all:
  assumes "add_hom2 m1 m2 m' F" and "length xs = length ys"
    and "\<forall>x \<in> set xs. length x = m1" and "\<forall>y \<in> set ys. length y = m2"
  shows "vadd_all m' (map2 F xs ys) = F (vadd_all m1 xs) (vadd_all m2 ys)"
  using assms(2-4)
proof (induction xs ys rule: list_induct2)
  case Nil
  then show ?case using add_hom2_zero [OF assms(1)] by simp
next
  case (Cons x xs y ys)
  then show ?case using assms(1) by (simp add: add_hom2_def)
qed

lemma reveal_add_hom2:
  assumes F: "add_hom2 m1 m2 m' F" and X: "is_sharing n k q m1 X" and Y: "is_sharing n k q' m2 Y" and pos: "0 < k" "0 < n"
  shows "is_sharing n k q m' (map2 (apply_input F) X Y)" and "reveal_a (map2 (apply_input F) X Y) = F (reveal_a X) (reveal_a Y)"
proof -
  obtain xs where xs: "X = share_out k q xs" "length xs = n" "\<forall>x \<in> set xs. length x = m1" using X by (rule is_sharingE)
  obtain ys where ys: "Y = share_out k q' ys" "length ys = n" "\<forall>y \<in> set ys. length y = m2" using Y by (rule is_sharingE)
  have e: "map2 (apply_input F) X Y = share_out k q (map2 F xs ys)"
    unfolding xs(1) ys(1) by (rule apply_input_share_out) (simp add: xs ys)
  have l: "length (map2 F xs ys) = n" "\<forall>z \<in> set (map2 F xs ys). length z = m'"
    using F xs ys by (auto simp: add_hom2_def elim!: in_set_zipE)
  show "is_sharing n k q m' (map2 (apply_input F) X Y)" unfolding e using l pos by (simp add: is_sharing_share_out)
  have "reveal_a X = vadd_all m1 xs" "reveal_a Y = vadd_all m2 ys" "reveal_a (share_out k q (map2 F xs ys)) = vadd_all m' (map2 F xs ys)"
    unfolding xs(1) ys(1) using xs ys l pos by (auto intro!: reveal_a_share_out)
  then show "reveal_a (map2 (apply_input F) X Y) = F (reveal_a X) (reveal_a Y)"
    unfolding e using add_hom2_all [OF F _ xs(3) ys(3)] xs(2) ys(2) by simp
qed

lemma add_hom_add_hom2: "add_hom m m' F \<Longrightarrow> add_hom2 m 0 m' (\<lambda>x y. F x)"
  by (simp add: add_hom_def add_hom2_def)

lemma reveal_add_hom:
  assumes F: "add_hom m m' F" and X: "is_sharing n k q m X" and pos: "0 < k" "0 < n"
  shows "is_sharing n k q m' (map (apply_return F) X)" and "reveal_a (map (apply_return F) X) = F (reveal_a X)"
    and "is_sharing n k q m' (map (apply_to F) X)" and "reveal_a (map (apply_to F) X) = F (reveal_a X)"
proof -
  obtain xs where xs: "X = share_out k q xs" "length xs = n" "\<forall>x \<in> set xs. length x = m" using X by (rule is_sharingE)
  let ?ys = "replicate n ([] :: 'a vec)"
  have m2: "map2 (\<lambda>x y. F x) xs ?ys = map F xs" using xs(2) by (intro nth_equalityI) simp_all
  have l: "length (map F xs) = n" "\<forall>z \<in> set (map F xs). length z = m'" using F xs by (auto simp: add_hom_def)
  have r: "reveal_a X = vadd_all m xs" "reveal_a (share_out k q (map F xs)) = vadd_all m' (map F xs)"
    unfolding xs(1) using xs l pos by (auto intro!: reveal_a_share_out)
  have "vadd_all m' (map F xs) = F (vadd_all m xs)"
    using add_hom2_all [OF add_hom_add_hom2 [OF F], of xs ?ys] xs m2 by simp
  then show "is_sharing n k q m' (map (apply_return F) X)" "reveal_a (map (apply_return F) X) = F (reveal_a X)"
    "is_sharing n k q m' (map (apply_to F) X)" "reveal_a (map (apply_to F) X) = F (reveal_a X)"
    using r l pos unfolding xs(1) apply_return_share_out apply_to_share_out by (simp_all add: is_sharing_share_out)
qed

section \<open>The operations of one pass\<close>

lemma add_hom2_append: "add_hom2 m1 m2 (m1 + m2) (@)"
  by (auto simp: add_hom2_def vadd_def)

lemma add_hom_take: "add_hom (m + m') m (take m)"
  by (auto simp: add_hom_def vadd_def take_zip take_map)

lemma add_hom_drop: "add_hom (m + m') m' (drop m)"
  by (auto simp: add_hom_def vadd_def drop_zip drop_map)

lemma length_sub_first [simp]: "length (sub_first t u) = length t"
  by (simp add: sub_first_def split: list.split)

lemma add_hom2_sub_first: "add_hom2 m 1 m sub_first"
proof -
  have "sub_first (vadd x x') (vadd y y') = vadd (sub_first x y) (sub_first x' y')"
    if "length x = m" "length x' = m" "length y = 1" "length y' = 1" for x x' y y' :: "'a vec"
    using that by (cases x; cases x'; cases y; cases y') (auto simp: sub_first_def vadd_def)
  then show ?thesis by (auto simp: add_hom2_def sub_first_def split: list.split)
qed

lemma sum_take_vadd: "length x = length y \<Longrightarrow> sum_list (take i (vadd x y)) = sum_list (take i x) + sum_list (take i y)"
  unfolding vadd_def
proof (induction x y arbitrary: i rule: list_induct2)
  case (Cons a x b y)
  then show ?case by (cases i) simp_all
qed simp

lemma add_hom_prefix_sum: "add_hom m m vec_prefix_sum"
  by (auto simp: add_hom_def nth_vec_prefix_sum sum_take_vadd intro!: vec_eqI)

lemma sub_first_prefix_sum:
  assumes "j < length x"
  shows "vec_prefix_sum (sub_first x [c]) ! j = sum_list (take (Suc j) x) - c"
  using assms by (cases x) (simp_all add: sub_first_def nth_vec_prefix_sum)

lemma sum_list_of_bool: "(\<Sum>l \<leftarrow> [0..<j]. of_bool (b l)) = (of_nat (count_below b j) :: 'a::len word)"
  by (induction j) (simp_all add: count_below_Suc, simp add: count_below_def)

lemma prefix_sum_destinations:
  fixes b :: "nat \<Rightarrow> bool" and m :: nat
  defines "s \<equiv> vec_prefix_sum (sub_first (map (\<lambda>j. of_bool (\<not> b j)) [0..<m] @ map (\<lambda>j. of_bool (b j)) [0..<m]) [1 :: 'a::len word])"
  assumes "j < m"
  shows "s ! j + of_bool (b j) * (s ! (m + j) - s ! j) = of_nat (destinations b m ! j)"
proof -
  let ?z = "map (\<lambda>j. of_bool (\<not> b j)) [0..<m] :: 'a vec" and ?o = "map (\<lambda>j. of_bool (b j)) [0..<m] :: 'a vec"
  have t: "take (Suc j) ?z = map (\<lambda>j. of_bool (\<not> b j)) [0..<Suc j]" "take (Suc j) ?o = map (\<lambda>j. of_bool (b j)) [0..<Suc j]"
    using assms(2) by (simp_all add: take_map del: upt_Suc)
  have "s ! j = of_nat (count_below (\<lambda>j. \<not> b j) (Suc j)) - 1"
    unfolding s_def using assms(2) t(1) sum_list_of_bool [of "\<lambda>j. \<not> b j" "Suc j"] by (simp add: sub_first_prefix_sum del: upt_Suc)
  moreover have "s ! (m + j) = of_nat (count_below (\<lambda>j. \<not> b j) m) + of_nat (count_below b (Suc j)) - 1"
    unfolding s_def using assms(2) t(2) sum_list_of_bool [where 'a = 'a, of "\<lambda>j. \<not> b j" m] sum_list_of_bool [where 'a = 'a, of b "Suc j"]
    by (simp add: sub_first_prefix_sum del: upt_Suc)
  ultimately show ?thesis using assms(2) by (simp add: destinations_def count_below_Suc)
qed

section \<open>Keys\<close>

definition radix_key_bit :: "bool \<Rightarrow> nat \<Rightarrow> nat \<Rightarrow> 'a::len word \<Rightarrow> bool" where
  "radix_key_bit full bits i x = (if full \<and> i = bits - 1 then \<not> bit x i else bit x i)"

definition radix_key :: "bool \<Rightarrow> nat \<Rightarrow> nat \<Rightarrow> 'a::len word \<Rightarrow> nat" where
  "radix_key full bits i x = (\<Sum>j < i. if radix_key_bit full bits j x then 2 ^ j else 0)"

lemma radix_key_Suc:
  "radix_key full bits (Suc i) = (\<lambda>x. radix_key full bits i x + (if radix_key_bit full bits i x then 2 ^ i else 0))"
  by (simp add: radix_key_def fun_eq_iff)

lemma radix_key_less: "radix_key full bits i x < 2 ^ i"
  by (induction i) (auto simp: radix_key_def)

lemma radix_key_unsigned: "radix_key False bits i x = unat (take_bit i x)"
proof (induction i)
  case (Suc i)
  have "unat (take_bit (Suc i) x) = unat (take_bit i x) + of_bool (bit x i) * 2 ^ i"
    by (simp add: unsigned_take_bit_eq take_bit_Suc_from_most bit_unsigned_iff)
  then show ?case using Suc by (simp add: radix_key_Suc radix_key_bit_def)
qed (simp add: radix_key_def)

lemma radix_key_signed:
  fixes x :: "'a::len word"
  shows "int (radix_key True LENGTH('a) LENGTH('a) x) = sint x + 2 ^ (LENGTH('a) - 1)"
proof -
  let ?L = "LENGTH('a) - 1"
  have L: "LENGTH('a) = Suc ?L" by simp
  have low: "radix_key True LENGTH('a) i x = unat (take_bit i x)" if "i \<le> ?L" for i
  proof -
    have "radix_key True LENGTH('a) i x = radix_key False LENGTH('a) i x"
      unfolding radix_key_def using that by (intro sum.cong) (auto simp: radix_key_bit_def)
    then show ?thesis by (simp add: radix_key_unsigned)
  qed
  have "radix_key True LENGTH('a) LENGTH('a) x = unat (take_bit ?L x) + (if bit x ?L then 0 else 2 ^ ?L)"
    using fun_cong [OF radix_key_Suc [of True "LENGTH('a)" ?L], of x] low [of ?L] L by (auto simp: radix_key_bit_def)
  moreover have "sint x = int (unat (take_bit ?L x)) - of_bool (bit x ?L) * 2 ^ ?L"
  proof -
    have t: "take_bit (Suc ?L) (uint x) = uint x"
      unfolding L [symmetric] by (intro take_bit_int_eq_self) (simp_all add: unsigned_less)
    have bu: "bit (uint x) ?L = bit x ?L" by (simp add: bit_uint_iff)
    have u: "uint x = take_bit ?L (uint x) + of_bool (bit x ?L) * 2 ^ ?L"
      using take_bit_Suc_from_most [of ?L "uint x"] unfolding t bu by (simp only: mult.commute add.commute)
    have "sint x = take_bit (Suc ?L) (uint x) - 2 ^ Suc ?L * of_bool (bit (uint x) ?L)"
      unfolding sint_uint by (simp only: signed_take_bit_eq_take_bit_minus One_nat_def)
    also note t
    finally have "sint x = uint x - 2 * 2 ^ ?L * of_bool (bit x ?L)" unfolding bu power_Suc .
    moreover have "int (unat (take_bit ?L x)) = take_bit ?L (uint x)" by (simp add: unsigned_take_bit_eq of_nat_take_bit)
    ultimately show ?thesis using u by (cases "bit x ?L") simp_all
  qed
  ultimately show ?thesis by simp
qed

lemma radix_sort_signed:
  fixes x :: "'a::len vec"
  shows "sort_key (radix_key True LENGTH('a) LENGTH('a)) x = sort_key sint x"
proof (rule sort_key_cong_order)
  fix a b :: "'a word"
  have "radix_key True LENGTH('a) LENGTH('a) a \<le> radix_key True LENGTH('a) LENGTH('a) b \<longleftrightarrow>
    int (radix_key True LENGTH('a) LENGTH('a) a) \<le> int (radix_key True LENGTH('a) LENGTH('a) b)" by simp
  then show "radix_key True LENGTH('a) LENGTH('a) a \<le> radix_key True LENGTH('a) LENGTH('a) b \<longleftrightarrow> sint a \<le> sint b"
    by (simp only: radix_key_signed) simp
qed

section \<open>The contract of a sorting engine\<close>

locale sorting_engine = shuffling_protocol S n k m ok acts
  for S :: "('a::len, 'pm, 'st) shuffler" and n k m :: nat and ok :: "'st \<Rightarrow> bool" and acts :: "bool \<Rightarrow> nat list \<Rightarrow> 'pm \<Rightarrow> bool" +
  fixes P :: "('a, 'st) protocol"
  assumes reserve_law: "ok st \<Longrightarrow> \<exists>st'. s_reserve S m num pairs st = Some ((), st') \<and> ok st'"
    and not_law: "is_sharing n k q m X \<Longrightarrow> is_sharing n k q m (v_not_b P X) \<and>
        reveal_b (v_not_b P X) = map NOT (reveal_b X)"
    and b2a_law: "ok st \<Longrightarrow> is_sharing n k q m X \<Longrightarrow>
      \<exists>R st'. v_b2a_bit P X st = Some (R, st') \<and> ok st' \<and> is_sharing n k 0 m R \<and>
        reveal_a R = map (\<lambda>x. x AND 1) (reveal_b X)"
    and mult_law: "ok st \<Longrightarrow> is_sharing n k 0 m X \<Longrightarrow> is_sharing n k 0 m Y \<Longrightarrow>
      \<exists>Z st'. v_multiply_a P X Y st = Some (Z, st') \<and> ok st' \<and> is_sharing n k 0 m Z \<and>
        reveal_a Z = map2 (*) (reveal_a X) (reveal_a Y)"
begin

lemma public_obtains:
  obtains X where "s_public_share S x = Some X" "is_sharing n k 0 (length x) X" "reveal_b X = x" "reveal_a X = x"
  using public_law by blast

lemma radix_bit_perm_correct:
  assumes "ok st" and f1: "is_sharing n k 0 m f1" "reveal_a f1 = map (\<lambda>j. of_bool (b j)) [0..<m]"
    and one: "is_sharing n k 0 m one" "reveal_a one = replicate m 1"
  shows "\<exists>e st'. radix_bit_perm S P one f1 st = Some (e, st') \<and> ok st' \<and> perm_shared (destinations b m) e \<and> \<not> encoding e"
proof -
  let ?z = "map (\<lambda>j. of_bool (\<not> b j)) [0..<m] :: 'a vec" and ?o = "map (\<lambda>j. of_bool (b j)) [0..<m] :: 'a vec"
  note pos = k_pos n_pos
  obtain u where u: "s_public_share S [1] = Some u" "is_sharing n k 0 1 u" "reveal_a u = [1]"
    using public_obtains [of "[1]"] by auto
  let ?c = "sv_sub_first (sv_concat (sub_a one f1) f1) u"
  let ?p = "sv_prefix_sum ?c"
  let ?lo = "sv_first_half m ?p"
  let ?hi = "sub_a (sv_second_half m ?p) ?lo"
  note d = sub_sharing [OF one(1) f1(1) pos]
  have "reveal_a (sub_a one f1) = ?z"
    unfolding d(2) one(2) f1(2) by (intro nth_equalityI) simp_all
  note d = d(1) this
  note cc = reveal_add_hom2 [OF add_hom2_append d(1) f1(1) pos, folded sv_concat_def]
  note c = reveal_add_hom2 [OF add_hom2_sub_first cc(1) u(2) pos, folded sv_sub_first_def]
  note s = reveal_add_hom(3,4) [OF add_hom_prefix_sum c(1) pos, folded sv_prefix_sum_def]
  note h0 = reveal_add_hom(1,2) [OF add_hom_take s(1) pos, folded sv_first_half_def]
  note h1 = reveal_add_hom(1,2) [OF add_hom_drop s(1) pos, folded sv_second_half_def]
  note s1 = sub_sharing [OF h1(1) h0(1) pos]
  obtain Z st' where Z: "v_multiply_a P f1 ?hi st = Some (Z, st')" "ok st'" "is_sharing n k 0 m Z"
    "reveal_a Z = map2 (*) (reveal_a f1) (reveal_a ?hi)" using mult_law [OF assms(1) f1(1) s1(1)] by blast
  note r = add_sharing [OF h0(1) Z(3) pos]
  let ?s = "vec_prefix_sum (sub_first (?z @ ?o) [1])"
  have ls: "length ?s = m + m" by simp
  have rs: "reveal_a ?p = ?s" unfolding s(2) c(2) cc(2) d(2) f1(2) u(3) ..
  have "reveal_a (add_a ?lo Z) = map of_nat (destinations b m)"
  proof (rule nth_equalityI)
    have ld: "length (destinations b m) = m" by (simp add: destinations_def)
    show "length (reveal_a (add_a ?lo Z)) = length (map of_nat (destinations b m) :: 'a vec)"
      using r(1) pos ld by simp
    fix j assume "j < length (reveal_a (add_a ?lo Z))"
    then have j: "j < m" using r(1) pos by simp
    have "reveal_a (add_a ?lo Z) ! j = ?s ! j + of_bool (b j) * (?s ! (m + j) - ?s ! j)"
      unfolding r(2) Z(4) s1(2) h0(2) h1(2) rs f1(2) using j ls by simp
    also have "\<dots> = of_nat (destinations b m ! j)" by (rule prefix_sum_destinations [OF j])
    finally show "reveal_a (add_a ?lo Z) ! j = map of_nat (destinations b m) ! j" using j ld by simp
  qed
  then have "perm_shared (destinations b m) \<lparr>sharedVector = add_a ?lo Z, encoding = False\<rparr>"
    using r(1) by (simp add: perm_shared_def revealed_def destinations_perm)
  moreover have "radix_bit_perm S P one f1 st = Some (\<lparr>sharedVector = add_a ?lo Z, encoding = False\<rparr>, st')"
    using u(1) Z(1) size_of [OF f1(1)]
    by (simp add: radix_bit_perm_def Let_def)
  ultimately show ?thesis using Z(2) by auto
qed

text \<open>The bit that pass \<open>i\<close> sorts by, inverted for the sign bit.\<close>

lemma radix_bit_correct:
  assumes "ok st" and v: "is_sharing n k q m v" and i: "i < LENGTH('a)"
    and one: "is_sharing n k 0 m one" "reveal_a one = replicate m 1"
  shows "\<exists>e st'. radix_bit S P full bits one i v st = Some (e, st') \<and> ok st' \<and> \<not> encoding e \<and>
    perm_shared (destinations (\<lambda>j. radix_key_bit full bits i (reveal_b v ! j)) m) e"
proof -
  note pos = k_pos n_pos
  let ?x = "p_setPrecision 0 (p_bit_arithmetic_right_shift v i)"
  let ?y = "if full \<and> i = bits - 1 then inplace_invert_b P ?x else ?x"
  note x = setPrecision_sharing(1,2) [OF shift_sharing(1) [OF v pos, of i] pos, of 0, unfolded shift_sharing(2) [OF v pos]]
  have lv: "length (reveal_b v) = m" using v pos by simp
  have y: "is_sharing n k 0 m ?y" "reveal_b ?y = (if full \<and> i = bits - 1 then map NOT (reveal_b ?x) else reveal_b ?x)"
    unfolding inplace_invert_b_def
    using x(1) not_law [OF x(1)] by (cases "full \<and> i = bits - 1"; simp only: if_True if_False simp_thms; fail)+
  obtain f1 st1 where f1: "v_b2a_bit P ?y st = Some (f1, st1)" "ok st1" "is_sharing n k 0 m f1"
    "reveal_a f1 = map (\<lambda>x. x AND 1) (reveal_b ?y)" using b2a_law [OF assms(1) y(1)] by blast
  have b: "reveal_a f1 = map (\<lambda>j. of_bool (radix_key_bit full bits i (reveal_b v ! j))) [0..<m]"
  proof (rule nth_equalityI)
    show "length (reveal_a f1) = length (map (\<lambda>j. of_bool (radix_key_bit full bits i (reveal_b v ! j))) [0..<m] :: 'a vec)"
      using f1(3) pos by simp
    fix j assume "j < length (reveal_a f1)"
    then have j: "j < m" using f1(3) pos by simp
    have "reveal_a f1 ! j = (if full \<and> i = bits - 1 then NOT (signed_drop_bit i (reveal_b v ! j)) else signed_drop_bit i (reveal_b v ! j)) AND 1"
      unfolding f1(4) y(2) x(2) using j lv by (simp add: bit_arithmetic_right_shift_def)
    also have "\<dots> = of_bool (radix_key_bit full bits i (reveal_b v ! j))"
      using i by (intro bit_word_eqI) (auto simp: bit_simps radix_key_bit_def)
    finally show "reveal_a f1 ! j = map (\<lambda>j. of_bool (radix_key_bit full bits i (reveal_b v ! j))) [0..<m] ! j"
      using j by simp
  qed
  show ?thesis using radix_bit_perm_correct [OF f1(2,3) b one] f1(1) by (auto simp: radix_bit_def Let_def)
qed

lemma radix_loop_correct:
  assumes "ok st" and "is_sharing n k q m v" and "perm_shared T tp" and "\<not> encoding tp"
    and one: "is_sharing n k 0 m one" "reveal_a one = replicate m 1"
    and "i \<le> bits" and "bits \<le> LENGTH('a)"
    and "length x = m" and "permute T x = reveal_b v" and "reveal_b v = sort_key (radix_key full bits i) x"
  shows "\<exists>v' tp' T' st'. radix_loop S P full bits one [i..<bits] v tp st = Some ((v', tp'), st') \<and> ok st' \<and>
    is_sharing n k q m v' \<and> perm_shared T' tp' \<and> \<not> encoding tp' \<and>
    permute T' x = reveal_b v' \<and> reveal_b v' = sort_key (radix_key full bits bits) x"
  using assms(7,1-4,10,11)
proof (induction i arbitrary: v tp T st rule: inc_induct)
  case base
  then show ?case by auto
next
  case (step i)
  have i: "i < LENGTH('a)" using step.hyps assms(8) by simp
  let ?Q = "radix_key_bit full bits i" and ?d = "destinations (\<lambda>j. radix_key_bit full bits i (reveal_b v ! j)) m"
  obtain e st1 where e: "radix_bit S P full bits one i v st = Some (e, st1)" "ok st1" "\<not> encoding e" "perm_shared ?d e"
    using radix_bit_correct [OF step.prems(1,2) i one, of full bits] by blast
  obtain w st2 where w: "oblivious_apply_elementwise_perm S True v e st1 = Some (w, st2)" "ok st2" "is_sharing n k q m w"
    "reveal_b w = permute ?d (reveal_b v)" using elementwise_correct [OF e(2) step.prems(2) e(4), of True] by (auto simp: revealed_def)
  obtain R sigma st3 where R: "compose_permutations S tp e st2 = Some (R, sigma, st3)" "ok st3"
    "perm_shared (gather T ?d) R" "encoding R = encoding e"
    using compose_correct [OF w(2) step.prems(3) e(4)] step.prems(4) e(3) by auto
  have lv: "length (reveal_b v) = m" using step.prems(2) k_pos n_pos by simp
  have "reveal_b w = filter (\<lambda>y. \<not> ?Q y) (reveal_b v) @ filter ?Q (reveal_b v)"
    unfolding w(4) by (rule permute_destinations [OF lv]) simp
  also have "\<dots> = sort_key (radix_key full bits (Suc i)) x"
    unfolding step.prems(6) radix_key_Suc by (rule sort_one_bit) (rule radix_key_less)
  finally have s: "reveal_b w = sort_key (radix_key full bits (Suc i)) x" .
  have T: "is_perm m T" "is_perm m ?d" using step.prems(3) e(4) by (simp_all add: perm_shared_def)
  have "permute (gather T ?d) x = permute ?d (permute T x)" by (rule permute_permute [symmetric, OF T assms(9)])
  then have "permute (gather T ?d) x = reveal_b w" using w(4) step.prems(5) by simp
  then obtain v' tp' T' st' where "radix_loop S P full bits one [Suc i..<bits] w R st3 = Some ((v', tp'), st')" "ok st'"
    "is_sharing n k q m v'" "perm_shared T' tp'" "\<not> encoding tp'"
    "permute T' x = reveal_b v'" "reveal_b v' = sort_key (radix_key full bits bits) x"
    using step.IH [OF R(2) w(3) R(3) _ _ s] R(4) e(3) by auto
  moreover have "[i..<bits] = i # [Suc i..<bits]" using step.hyps by (simp add: upt_conv_Cons)
  ultimately show ?case using e(1) w(1) R(1) by auto
qed

lemma radix_sort_correct:
  assumes "ok st" and "is_sharing n k q m v" and "bits \<le> LENGTH('a)"
  shows "\<exists>v' tp T st'. radix_sort_ccs S P v bits full st = Some ((v', tp), st') \<and> ok st' \<and>
    is_sharing n k q m v' \<and> perm_shared T tp \<and> permute T (reveal_b v) = reveal_b v' \<and>
    reveal_b v' = sort_key (radix_key full bits bits) (reveal_b v)"
proof -
  obtain st1 where r: "s_reserve S m (bits + 2) 0 st = Some ((), st1)" "ok st1" using reserve_law [OF assms(1)] by blast
  obtain one where one: "s_public_share S (replicate m 1) = Some one" "is_sharing n k 0 m one" "reveal_a one = replicate m 1"
    using public_obtains [of "replicate m 1"] by auto
  obtain e where e: "elem_new S m False = Some e" "perm_shared [0..<m] e" "\<not> encoding e"
    using elem_new_correct [of False] by auto
  have lv: "length (reveal_b v) = m" using assms(2) k_pos n_pos by simp
  have "reveal_b v = sort_key (radix_key full bits 0) (reveal_b v)"
    by (rule properties_for_sort_key [symmetric]) (simp_all add: radix_key_def sorted_map sorted_wrt_iff_nth_less)
  then show ?thesis
    using radix_loop_correct [OF r(2) assms(2) e(2,3) one(2,3) _ assms(3) lv _ _, of 0 full] r(1) one(1) e(1) size_of [OF assms(2)] lv
    by (auto simp: radix_sort_ccs_def)
qed

end

end
