(* ===== verification/Shuffle_Generation.thy ===== *)
theory Shuffle_Generation
  imports Shuffle_Proofs
begin

text \<open>
  Generation of sharded permutations: all members of a group draw the same permutation, so the parties'
  maps form one sharded permutation, and the generators of every group stay in agreement.
\<close>

section \<open>One party\<close>

definition group_perm :: "'s cipher \<Rightarrow> nat \<Rightarrow> 's prg \<Rightarrow> nat list" where
  "group_perm aes m g = fst (the (gen_perm aes m g))"

definition group_adv :: "'s cipher \<Rightarrow> nat \<Rightarrow> 's prg \<Rightarrow> 's prg" where
  "group_adv aes m g = snd (the (gen_perm aes m g))"

definition fair_cipher :: "'s cipher \<Rightarrow> nat \<Rightarrow> bool" where
  "fair_cipher aes m \<longleftrightarrow> cipher_ok TYPE(32) aes \<and> fair_words aes MAX_AES_QUERY_BYTES (perm_mask m)"

lemma gen_perm_run:
  assumes "fair_cipher aes m"
  shows "gen_perm aes m g = Some (group_perm aes m g, group_adv aes m g)" and "is_perm m (group_perm aes m g)"
  using gen_perm_returns [of aes m g] assms by (auto simp: fair_cipher_def group_perm_def group_adv_def)

definition puts :: "(nat list \<Rightarrow> nat list \<Rightarrow> hm_perm \<Rightarrow> hm_perm) \<Rightarrow> bool" where
  "puts put \<longleftrightarrow> (\<forall>g p sp. getPermMap sp g = None \<longrightarrow> put g p sp = sp\<lparr>getPermMap := (getPermMap sp)(g := Some p)\<rparr>)"

lemma puts_insert [simp]: "puts perm_insert" "puts perm_assign"
  by (simp_all add: puts_def perm_insert_def perm_assign_def)

definition adv_groups :: "nat list list \<Rightarrow> nat \<Rightarrow> (nat list \<Rightarrow> 's prg) \<Rightarrow> 's manager \<Rightarrow> 's manager" where
  "adv_groups groups rk G m = m\<lparr>store := (\<lambda>obj. case obj of
     GroupPRG g \<Rightarrow> if g \<in> set groups \<and> rk \<in> set g then G g else store m obj | _ \<Rightarrow> store m obj)\<rparr>"

lemma hm_groups_run:
  assumes "fair_cipher aes s" and "puts put" and "m_size sp = s" and "distinct groups"
    and "\<forall>g \<in> set groups. getPermMap sp g = None"
    and "\<forall>g \<in> set groups. rk \<in> set g \<longrightarrow> group_prg_ok g (G g) m"
  shows "hm_groups put aes rk groups sp m = Some
    (sp\<lparr>getPermMap := (\<lambda>g. if g \<in> set groups \<and> rk \<in> set g then Some (group_perm aes s (G g)) else getPermMap sp g)\<rparr>,
     adv_groups groups rk (\<lambda>g. group_adv aes s (G g)) m)"
  using assms(3-)
proof (induction groups arbitrary: sp m)
  case Nil
  have "(case obj of GroupPRG g \<Rightarrow> store m obj | _ \<Rightarrow> store m obj) = store m obj" for obj
    by (cases obj) simp_all
  then show ?case by (simp add: adv_groups_def cong: prg_obj.case_cong)
next
  case (Cons g groups)
  show ?case
  proof (cases "rk \<in> set g")
    case False
    then have "hm_groups put aes rk (g # groups) sp m = hm_groups put aes rk groups sp m" by simp
    also have "\<dots> = Some
      (sp\<lparr>getPermMap := (\<lambda>h. if h \<in> set groups \<and> rk \<in> set h then Some (group_perm aes s (G h)) else getPermMap sp h)\<rparr>,
       adv_groups groups rk (\<lambda>g. group_adv aes s (G g)) m)"
      using Cons.prems by (intro Cons.IH) simp_all
    also have "adv_groups groups rk (\<lambda>g. group_adv aes s (G g)) m = adv_groups (g # groups) rk (\<lambda>g. group_adv aes s (G g)) m"
      unfolding adv_groups_def using False
      by (intro arg_cong [where f = "\<lambda>f. m\<lparr>store := f\<rparr>"] ext) (auto split: prg_obj.split)
    also have "(\<lambda>h. if h \<in> set groups \<and> rk \<in> set h then Some (group_perm aes s (G h)) else getPermMap sp h)
      = (\<lambda>h. if h \<in> set (g # groups) \<and> rk \<in> set h then Some (group_perm aes s (G h)) else getPermMap sp h)"
      using False by auto
    finally show ?thesis .
  next
    case True
    let ?p = "group_perm aes s (G g)" and ?a = "group_adv aes s (G g)"
    let ?sp = "sp\<lparr>getPermMap := (getPermMap sp)(g := Some ?p)\<rparr>"
    let ?m = "m\<lparr>store := (store m)(GroupPRG g := ?a)\<rparr>"
    have ok: "group_prg_ok g (G g) m" using Cons.prems(4) True by simp
    have oks: "\<forall>h \<in> set groups. rk \<in> set h \<longrightarrow> group_prg_ok h (G h) ?m"
      using Cons.prems(2,4) by (auto simp: group_prg_ok_def get_group_def)
    have "hm_groups put aes rk (g # groups) sp m = hm_groups put aes rk groups ?sp ?m"
      using True ok assms(2) Cons.prems(1,3) gen_perm_run(1) [OF assms(1)]
      by (simp add: group_prg_ok_def puts_def)
    also have "\<dots> = Some
      (?sp\<lparr>getPermMap := (\<lambda>h. if h \<in> set groups \<and> rk \<in> set h then Some (group_perm aes s (G h)) else getPermMap ?sp h)\<rparr>,
       adv_groups groups rk (\<lambda>g. group_adv aes s (G g)) ?m)"
      using Cons.prems oks by (intro Cons.IH) auto
    also have "adv_groups groups rk (\<lambda>g. group_adv aes s (G g)) ?m = adv_groups (g # groups) rk (\<lambda>g. group_adv aes s (G g)) m"
      unfolding adv_groups_def using True
      by (simp add: fun_eq_iff split: prg_obj.split)
    also have "?sp\<lparr>getPermMap := (\<lambda>h. if h \<in> set groups \<and> rk \<in> set h then Some (group_perm aes s (G h)) else getPermMap ?sp h)\<rparr>
      = sp\<lparr>getPermMap := (\<lambda>h. if h \<in> set (g # groups) \<and> rk \<in> set h then Some (group_perm aes s (G h)) else getPermMap sp h)\<rparr>"
      using True Cons.prems(2) by (simp add: fun_eq_iff)
    finally show ?thesis .
  qed
qed

lemma adv_groups_ok:
  assumes "group_prg_ok grp g m"
  shows "group_prg_ok grp (if grp \<in> set groups \<and> rk \<in> set grp then G grp else g) (adv_groups groups rk G m)"
  using assms by (auto simp: group_prg_ok_def adv_groups_def get_group_def)

lemma adv_groups_only: "set gs \<subseteq> set (getGroups n) \<Longrightarrow> only_groups n m (adv_groups gs rk G m)"
  unfolding adv_groups_def by (rule only_groups_storeI) (auto split: prg_obj.split)

section \<open>All parties\<close>

lemma for_parties_all:
  assumes "distinct ps" and "\<forall>p \<in> set ps. p < length (mgrs w) \<and> f p (mgrs w ! p) = Some (r p, m' p)"
  shows "\<exists>ms. for_parties ps f w = Some (map r ps, w\<lparr>mgrs := ms\<rparr>) \<and> length ms = length (mgrs w) \<and>
    (\<forall>p < length (mgrs w). ms ! p = (if p \<in> set ps then m' p else mgrs w ! p))"
  using assms
proof (induction ps arbitrary: w)
  case Nil
  then show ?case by (intro exI [of _ "mgrs w"]) simp
next
  case (Cons p ps)
  let ?w = "w\<lparr>mgrs := (mgrs w)[p := m' p]\<rparr>"
  have "mgrs ?w ! r = mgrs w ! r" if "r \<in> set ps" for r
    using that Cons.prems(1) by (cases "r = p") simp_all
  then obtain ms where ms: "for_parties ps f ?w = Some (map r ps, ?w\<lparr>mgrs := ms\<rparr>)" "length ms = length (mgrs w)"
    "\<forall>r < length (mgrs w). ms ! r = (if r \<in> set ps then m' r else mgrs ?w ! r)"
    using Cons.IH [of ?w] Cons.prems by auto
  have "for_parties (p # ps) f w = Some (map r (p # ps), w\<lparr>mgrs := ms\<rparr>)"
    using Cons.prems(2) ms(1) by simp
  moreover have "\<forall>r < length (mgrs w). ms ! r = (if r \<in> set (p # ps) then m' r else mgrs w ! r)"
    using ms(3) Cons.prems(2) by (auto simp: nth_list_update)
  ultimately show ?case using ms(2) by blast
qed

lemma distinct_getGroups: "2 \<le> n \<Longrightarrow> distinct (getGroups n)"
proof (cases "4 \<le> n")
  case True
  then show ?thesis by (simp add: getGroups_def generateGroups_def upt_rec)
next
  case False
  moreover assume "2 \<le> n"
  ultimately have "n = 2 \<or> n = 3" by auto
  then show ?thesis by (auto simp: getGroups_def generateGroups_def upt_rec numeral_eq_Suc)
qed

lemma all_getNext_correct:
  fixes w :: "('a::len, 's) world"
  assumes ok: "hm_ok aes n w" and n: "2 \<le> n" and f: "fair_cipher aes s"
  shows "\<exists>P sps w'. all_getNext aes n s w = Some (sps, w') \<and> sharded n s P sps \<and> hm_ok aes n w' \<and>
    group_only n (mgrs w) (mgrs w')"
proof -
  obtain G where G: "groups_synced n G (mgrs w)" and w: "cipher_ok TYPE('a) aes" "quiet w"
    using ok by (auto simp: hm_ok_def)
  let ?gs = "getGroups n" and ?P = "\<lambda>g. group_perm aes s (G g)" and ?A = "\<lambda>g. group_adv aes s (G g)"
  let ?sp = "\<lambda>p. (hm_perm_new s)\<lparr>getPermMap := (\<lambda>g. if g \<in> set ?gs \<and> p \<in> set g then Some (?P g) else None)\<rparr>"
  let ?m = "\<lambda>p. adv_groups ?gs p ?A (mgrs w ! p)"
  have "hm_getNext aes ?gs s p (mgrs w ! p) = Some (?sp p, ?m p)" for p
    using hm_groups_run [OF f puts_insert(1) _ distinct_getGroups [OF n], of "hm_perm_new s" p G "mgrs w ! p"] G
    by (simp add: hm_getNext_def hm_perm_new_def groups_synced_def cong: if_cong)
  then obtain ms where ms: "all_getNext aes n s w = Some (map ?sp [0..<n], w\<lparr>mgrs := ms\<rparr>)" "length ms = n"
    "\<forall>p < n. ms ! p = ?m p"
    using for_parties_all [of "[0..<n]" w "hm_getNext aes ?gs s" ?sp ?m] G
    by (auto simp: all_getNext_def groups_synced_def)
  have "groups_synced n ?A ms"
  proof -
    have "group_prg_ok g (?A g) (ms ! p)" if g: "g \<in> set ?gs" "p \<in> set g" for g p
    proof -
      have "p < n" using getGroups_members(1) [OF g(1) n] g(2) by blast
      moreover have "group_prg_ok g (G g) (mgrs w ! p)" using G g by (simp add: groups_synced_def)
      ultimately show ?thesis using adv_groups_ok [of g "G g" "mgrs w ! p" ?gs p ?A] ms(3) g by simp
    qed
    then show ?thesis using ms(2) by (simp add: groups_synced_def)
  qed
  then have "hm_ok aes n (w\<lparr>mgrs := ms\<rparr>)" using w by (auto simp: hm_ok_def quiet_def)
  moreover have "group_only n (mgrs w) ms"
    using ms(2,3) G adv_groups_only [OF subset_refl] by (intro group_onlyI [of _ n]) (auto simp: groups_synced_def)
  moreover have "sharded n s ?P (map ?sp [0..<n])"
    using gen_perm_run(2) [OF f] by (simp add: sharded_def hm_perm_new_def)
  ultimately show ?thesis using ms(1) by (intro exI [of _ ?P] exI [of _ "map ?sp [0..<n]"] exI [of _ "w\<lparr>mgrs := ms\<rparr>"]) simp
qed

end
