(* ===== verification/Permutation_Manager.thy ===== *)
theory Permutation_Manager
  imports Shuffle_Generation
begin

text \<open>
  \<open>PermutationManager\<close> (\<open>core/random/permutations/permutation_manager.h\<close>): a queue of sharded permutations of
  one stored size and, with two parties, a queue of pairs.  All parties run the same calls, so the
  state is the joint one and an element of a queue is the list of the parties' objects.  The generator
  behind the manager is a record of its methods; the contract it provides is the locale
  \<open>permutation_source\<close>, which the honest-majority generator fulfils.
\<close>

section \<open>The generator's interface\<close>

record ('pm, 'st) perm_generator =
  g_getNext :: "nat \<Rightarrow> 'st \<Rightarrow> ('pm \<times> 'st) option"
  g_allocate :: "nat \<Rightarrow> nat \<Rightarrow> 'pm list"
  g_setup_pair :: "'pm \<Rightarrow> 'pm \<Rightarrow> 'st \<Rightarrow> (('pm \<times> 'pm) \<times> 'st) option"
  g_generateBatch :: "'pm list \<Rightarrow> 'st \<Rightarrow> ('pm list \<times> 'st) option"
  g_convert :: "bool \<Rightarrow> 'pm \<Rightarrow> 'st \<Rightarrow> ('pm \<times> 'st) option"
  g_size :: "'pm \<Rightarrow> nat"
  g_clone :: "'pm \<Rightarrow> 'pm"

record 'pm perm_manager =
  queue :: "'pm list"
  pair_queue :: "('pm \<times> 'pm) list"
  stored_size :: nat
  have_shown_warning :: bool

definition perm_manager_new :: "'pm perm_manager" where
  "perm_manager_new = \<lparr>queue = [], pair_queue = [], stored_size = 0, have_shown_warning = False\<rparr>"

section \<open>Reserving\<close>

primrec setup_pairs ::
  "('pm, 'st) perm_generator \<Rightarrow> nat list \<Rightarrow> 'pm list \<Rightarrow> 'st \<Rightarrow> ('pm list \<times> 'st) option" where
  "setup_pairs pgen [] ret st = Some (ret, st)"
| "setup_pairs pgen (i # is) ret st = do {
     ((p, q), st) \<leftarrow> g_setup_pair pgen (ret ! (2 * i)) (ret ! (2 * i + 1)) st;
     setup_pairs pgen is (ret[2 * i := p, 2 * i + 1 := q]) st
   }"

definition empty_other_size :: "nat \<Rightarrow> 'pm perm_manager \<Rightarrow> 'pm perm_manager" where
  "empty_other_size size_permutation pm =
     (if (queue pm \<noteq> [] \<or> pair_queue pm \<noteq> []) \<and> stored_size pm \<noteq> size_permutation
      then pm\<lparr>queue := [], pair_queue := []\<rparr> else pm)\<lparr>stored_size := size_permutation\<rparr>"

definition reserve ::
  "('pm, 'st) perm_generator \<Rightarrow> nat \<Rightarrow> nat \<Rightarrow> nat \<Rightarrow> nat \<Rightarrow> 'pm perm_manager \<Rightarrow> 'st
    \<Rightarrow> ('pm perm_manager \<times> 'st) option" where
  "reserve pgen numParties size_permutation num_permutations num_pairs pm st =
     (let (num_permutations, num_pairs) =
            (if numParties \<noteq> 2 then (num_permutations + num_pairs, 0) else (num_permutations, num_pairs));
          pm = empty_other_size size_permutation pm
      in if num_permutations \<le> length (queue pm) \<and> num_pairs \<le> length (pair_queue pm) then Some (pm, st)
         else do {
           let num_permutations =
             (if length (queue pm) < num_permutations then num_permutations - length (queue pm) else num_permutations);
           let num_pairs =
             (if length (pair_queue pm) < num_pairs then num_pairs - length (pair_queue pm) else num_pairs);
           let num_to_generate = num_permutations + 2 * num_pairs;
           let ret = g_allocate pgen num_to_generate size_permutation;
           (ret, st) \<leftarrow> (if numParties = 2 then setup_pairs pgen [0..<num_pairs] ret st else Some (ret, st));
           (ret, st) \<leftarrow> g_generateBatch pgen ret st;
           let pm = (if numParties = 2
             then pm\<lparr>pair_queue := pair_queue pm @ map (\<lambda>i. (ret ! (2 * i), ret ! (2 * i + 1))) [0..<num_pairs]\<rparr>
             else pm);
           let pm = pm\<lparr>queue := queue pm @ map ((!) ret) [num_pairs * 2..<num_to_generate]\<rparr>;
           Some (pm, st)
         })"

section \<open>Taking permutations\<close>

definition pop_front :: "('pm, 'st) perm_generator \<Rightarrow> nat \<Rightarrow> 'pm perm_manager \<Rightarrow> ('pm \<times> 'pm perm_manager) option" where
  "pop_front pgen size_permutation pm =
     (case queue pm of
        [] \<Rightarrow> None
      | next # rest \<Rightarrow>
          if g_size pgen next \<noteq> size_permutation then None else Some (next, pm\<lparr>queue := rest\<rparr>))"

definition pm_getNext ::
  "('pm, 'st) perm_generator \<Rightarrow> nat \<Rightarrow> nat \<Rightarrow> bool \<Rightarrow> 'pm perm_manager \<Rightarrow> 'st
    \<Rightarrow> ('pm \<times> 'pm perm_manager \<times> 'st) option" where
  "pm_getNext pgen numParties size_permutation dm_encoding pm st = do {
     (next, pm, st) \<leftarrow>
       (if queue pm = []
        then do {
          (next, st) \<leftarrow> g_getNext pgen size_permutation st;
          Some (next, pm\<lparr>have_shown_warning := True\<rparr>, st)
        }
        else do {
          (pm, st) \<leftarrow> (if size_permutation \<noteq> stored_size pm
            then reserve pgen numParties size_permutation 1 0 pm st else Some (pm, st));
          (next, pm) \<leftarrow> pop_front pgen size_permutation pm;
          Some (next, pm, st)
        });
     (next, st) \<leftarrow> (if numParties = 2 then g_convert pgen dm_encoding next st else Some (next, st));
     Some (next, pm, st)
   }"

definition pm_getNextPair ::
  "('pm, 'st) perm_generator \<Rightarrow> nat \<Rightarrow> nat \<Rightarrow> bool \<Rightarrow> bool \<Rightarrow> 'pm perm_manager \<Rightarrow> 'st
    \<Rightarrow> (('pm \<times> 'pm) \<times> 'pm perm_manager \<times> 'st) option" where
  "pm_getNextPair pgen numParties size_permutation dm_encoding_1 dm_encoding_2 pm st =
     (if numParties \<noteq> 2
      then do {
        (perm, pm, st) \<leftarrow>
          (if queue pm = []
           then do {
             (perm, st) \<leftarrow> g_getNext pgen size_permutation st;
             Some (perm, pm\<lparr>have_shown_warning := True\<rparr>, st)
           }
           else do {
             (perm, pm) \<leftarrow> pop_front pgen size_permutation pm;
             Some (perm, pm, st)
           });
        Some ((perm, g_clone pgen perm), pm, st)
      }
      else do {
        (pm, st) \<leftarrow> (if pair_queue pm = []
          then reserve pgen numParties size_permutation 0 1 (pm\<lparr>have_shown_warning := True\<rparr>) st else Some (pm, st));
        ((perm1, perm2), pm) \<leftarrow> (case pair_queue pm of
            [] \<Rightarrow> None | p # rest \<Rightarrow> Some (p, pm\<lparr>pair_queue := rest\<rparr>));
        (perm1, st) \<leftarrow> g_convert pgen dm_encoding_1 perm1 st;
        (perm2, st) \<leftarrow> g_convert pgen dm_encoding_2 perm2 st;
        Some ((perm1, perm2), pm, st)
      })"

section \<open>What the manager relies on\<close>

definition manager_ok :: "(nat \<Rightarrow> 'pm \<Rightarrow> bool) \<Rightarrow> 'pm perm_manager \<Rightarrow> bool" where
  "manager_ok valid pm \<longleftrightarrow> pair_queue pm = [] \<and> (\<forall>p \<in> set (queue pm). valid (stored_size pm) p)"

locale permutation_source =
  fixes pgen :: "('pm, 'st) perm_generator" and numParties :: nat and good :: "nat \<Rightarrow> bool"
    and valid :: "nat \<Rightarrow> 'pm \<Rightarrow> bool" and ok :: "'st \<Rightarrow> bool"
  assumes not_two: "numParties \<noteq> 2"
    and next_law: "good s \<Longrightarrow> ok st \<Longrightarrow> \<exists>p st'. g_getNext pgen s st = Some (p, st') \<and> valid s p \<and> ok st'"
    and batch_law: "good s \<Longrightarrow> ok st \<Longrightarrow>
      \<exists>ps st'. g_generateBatch pgen (g_allocate pgen num s) st = Some (ps, st') \<and> length ps = num \<and>
        (\<forall>p \<in> set ps. valid s p) \<and> ok st'"
    and size_law: "valid s p \<Longrightarrow> g_size pgen p = s"
    and clone_law: "g_clone pgen p = p"
begin

lemma reserve_correct:
  assumes "good s" and "ok st" and "manager_ok valid pm"
  shows "\<exists>pm' st'. reserve pgen numParties s num pairs pm st = Some (pm', st') \<and> ok st' \<and> manager_ok valid pm' \<and>
    stored_size pm' = s \<and>
    length (queue pm') = max (if stored_size pm = s then length (queue pm) else 0) (num + pairs)"
proof -
  define pm0 where "pm0 = empty_other_size s pm"
  have pm0: "manager_ok valid pm0" "stored_size pm0 = s" "length (queue pm0) = (if stored_size pm = s then length (queue pm) else 0)"
    using assms(3) by (auto simp: pm0_def empty_other_size_def manager_ok_def)
  show ?thesis
  proof (cases "num + pairs \<le> length (queue pm0)")
    case True
    then show ?thesis using pm0 assms(2) not_two by (auto simp: reserve_def pm0_def [symmetric])
  next
    case False
    obtain ps st' where ps: "g_generateBatch pgen (g_allocate pgen (num + pairs - length (queue pm0)) s) st = Some (ps, st')"
      "length ps = num + pairs - length (queue pm0)" "\<forall>p \<in> set ps. valid s p" "ok st'"
      using batch_law [OF assms(1,2)] by blast
    let ?pm = "pm0\<lparr>queue := queue pm0 @ ps\<rparr>"
    have "map ((!) ps) [0..<length ps] = ps" by (rule map_nth)
    then have "reserve pgen numParties s num pairs pm st = Some (?pm, st')"
      using False not_two ps(1,2) pm0(1) by (simp add: reserve_def pm0_def [symmetric] manager_ok_def)
    moreover have "manager_ok valid ?pm" using pm0 ps(3) by (auto simp: manager_ok_def)
    ultimately show ?thesis using ps(2,4) pm0 False by (intro exI [of _ ?pm] exI [of _ st']) auto
  qed
qed

lemma pop_correct:
  assumes "manager_ok valid pm" and "queue pm \<noteq> []" and "stored_size pm = s"
  shows "\<exists>p pm'. pop_front pgen s pm = Some (p, pm') \<and> valid s p \<and> manager_ok valid pm' \<and> stored_size pm' = s"
  using assms size_law by (cases "queue pm") (auto simp: pop_front_def manager_ok_def)

lemma getNext_correct:
  assumes "good s" and "ok st" and "manager_ok valid pm"
  shows "\<exists>p pm' st'. pm_getNext pgen numParties s enc pm st = Some (p, pm', st') \<and> valid s p \<and> ok st' \<and>
    manager_ok valid pm' \<and> (queue pm' \<noteq> [] \<longrightarrow> stored_size pm' = s)"
proof (cases "queue pm = []")
  case True
  then show ?thesis using next_law [OF assms(1,2)] assms(3) not_two
    by (auto simp: pm_getNext_def manager_ok_def)
next
  case False
  have "\<exists>pm1 st1. (if s \<noteq> stored_size pm then reserve pgen numParties s 1 0 pm st else Some (pm, st)) = Some (pm1, st1) \<and>
    ok st1 \<and> manager_ok valid pm1 \<and> stored_size pm1 = s \<and> queue pm1 \<noteq> []"
  proof (cases "s = stored_size pm")
    case True
    then show ?thesis using False assms by auto
  next
    case other: False
    then show ?thesis using reserve_correct [OF assms, of 1 0] by fastforce
  qed
  then obtain pm1 st1 where r: "(if s \<noteq> stored_size pm then reserve pgen numParties s 1 0 pm st else Some (pm, st)) = Some (pm1, st1)"
    "ok st1" "manager_ok valid pm1" "stored_size pm1 = s" "queue pm1 \<noteq> []" by blast
  then obtain p pm' where "pop_front pgen s pm1 = Some (p, pm')" "valid s p" "manager_ok valid pm'" "stored_size pm' = s"
    using pop_correct by blast
  then show ?thesis using r False not_two by (simp add: pm_getNext_def)
qed

lemma getNextPair_correct:
  assumes "good s" and "ok st" and "manager_ok valid pm" and "queue pm = [] \<or> stored_size pm = s"
  shows "\<exists>p pm' st'. pm_getNextPair pgen numParties s enc1 enc2 pm st = Some ((p, p), pm', st') \<and> valid s p \<and> ok st' \<and>
    manager_ok valid pm' \<and> (queue pm' = [] \<or> stored_size pm' = s)"
proof (cases "queue pm = []")
  case True
  then show ?thesis using next_law [OF assms(1,2)] assms(3) not_two clone_law
    by (auto simp: pm_getNextPair_def manager_ok_def)
next
  case False
  then show ?thesis using pop_correct [OF assms(3), of s] assms not_two clone_law
    by (auto simp: pm_getNextPair_def)
qed

lemma getNextPair_wrong_size:
  assumes "manager_ok valid pm" and "queue pm \<noteq> []" and "stored_size pm \<noteq> s"
  shows "pm_getNextPair pgen numParties s enc1 enc2 pm st = None"
  using assms not_two size_law by (cases "queue pm") (auto simp: pm_getNextPair_def pop_front_def manager_ok_def)

end

end
