(* ===== verification/Permutation_Source.thy ===== *)
theory Permutation_Source
  imports Permutation_Manager
begin

text \<open>
  The honest-majority generator behind the permutation manager: \<open>HMShardedPermutationGenerator\<close> of every
  party, run jointly, with one worker.  It fulfils the manager's contract for every number of parties
  above two.
\<close>

definition all_allocate :: "nat \<Rightarrow> nat \<Rightarrow> nat \<Rightarrow> hm_perm list list" where
  "all_allocate n num_permutations size_permutation =
     map (\<lambda>i. map (\<lambda>p. hm_allocate num_permutations size_permutation ! i) [0..<n]) [0..<num_permutations]"

definition all_generateBatch ::
  "'s cipher \<Rightarrow> nat \<Rightarrow> hm_perm list list \<Rightarrow> ('a::len, 's) world \<Rightarrow> (hm_perm list list \<times> ('a, 's) world) option" where
  "all_generateBatch aes n ret w = do {
     (rows, w) \<leftarrow> for_parties [0..<n] (\<lambda>p m. hm_generateBatch aes (getGroups n) p (map (\<lambda>sp. sp ! p) ret) m) w;
     Some (map (\<lambda>i. map (\<lambda>row. row ! i) rows) [0..<length ret], w)
   }"

definition hm_generator :: "'s cipher \<Rightarrow> nat \<Rightarrow> (hm_perm list, ('a::len, 's) world) perm_generator" where
  "hm_generator aes n =
     \<lparr>g_getNext = all_getNext aes n, g_allocate = all_allocate n, g_setup_pair = (\<lambda>_ _ _. None),
      g_generateBatch = all_generateBatch aes n, g_convert = (\<lambda>_ p st. Some (p, st)),
      g_size = (\<lambda>sps. m_size (sps ! 0)), g_clone = (\<lambda>sps. sps)\<rparr>"

definition hm_valid :: "nat \<Rightarrow> nat \<Rightarrow> hm_perm list \<Rightarrow> bool" where
  "hm_valid n s sps \<longleftrightarrow> (\<exists>P. sharded n s P sps)"

section \<open>Batches\<close>

definition party_perm :: "nat list list \<Rightarrow> nat \<Rightarrow> (nat list \<Rightarrow> nat list) \<Rightarrow> nat \<Rightarrow> hm_perm" where
  "party_perm gs s P rk =
     (hm_perm_new s)\<lparr>getPermMap := (\<lambda>g. if g \<in> set gs \<and> rk \<in> set g then Some (P g) else None)\<rparr>"

lemma party_batch:
  assumes f: "fair_cipher aes s" and d: "distinct gs" and gs: "set gs \<subseteq> set (getGroups n)"
    and "\<forall>g \<in> set gs. rk \<in> set g \<longrightarrow> group_prg_ok g (G g) m"
  shows "\<exists>m'. hm_generateBatch aes gs rk (replicate num (hm_perm_new s)) m = Some
      (map (\<lambda>i. party_perm gs s (\<lambda>g. group_perm aes s ((group_adv aes s ^^ i) (G g))) rk) [0..<num], m') \<and>
    (\<forall>g \<in> set gs. rk \<in> set g \<longrightarrow> group_prg_ok g ((group_adv aes s ^^ num) (G g)) m') \<and> only_groups n m m'"
  using assms(4)
proof (induction num arbitrary: G m)
  case 0
  then show ?case by simp
next
  case (Suc num)
  let ?G = "\<lambda>g. group_adv aes s (G g)" and ?m = "adv_groups gs rk (\<lambda>g. group_adv aes s (G g)) m"
  have run: "hm_groups perm_assign aes rk gs (hm_perm_new s) m = Some (party_perm gs s (\<lambda>g. group_perm aes s (G g)) rk, ?m)"
    using hm_groups_run [OF f puts_insert(2) _ d, of "hm_perm_new s" rk G m] Suc.prems
    by (simp add: hm_perm_new_def party_perm_def cong: if_cong)
  have ok: "\<forall>g \<in> set gs. rk \<in> set g \<longrightarrow> group_prg_ok g (?G g) ?m"
    using adv_groups_ok [of _ _ m gs rk ?G] Suc.prems by fastforce
  obtain m' where m': "hm_generateBatch aes gs rk (replicate num (hm_perm_new s)) ?m = Some
      (map (\<lambda>i. party_perm gs s (\<lambda>g. group_perm aes s ((group_adv aes s ^^ i) (?G g))) rk) [0..<num], m')"
    "\<forall>g \<in> set gs. rk \<in> set g \<longrightarrow> group_prg_ok g ((group_adv aes s ^^ num) (?G g)) m'" "only_groups n ?m m'"
    using Suc.IH [OF ok] by blast
  have o: "only_groups n m m'" by (rule only_groups_trans [OF adv_groups_only [OF gs] m'(3)])
  have "map (\<lambda>i. party_perm gs s (\<lambda>g. group_perm aes s ((group_adv aes s ^^ i) (G g))) rk) [0..<Suc num] =
    party_perm gs s (\<lambda>g. group_perm aes s (G g)) rk #
      map (\<lambda>i. party_perm gs s (\<lambda>g. group_perm aes s ((group_adv aes s ^^ i) (?G g))) rk) [0..<num]"
    unfolding map_upt_Suc by (simp add: funpow_swap1)
  then show ?case using run m'(1,2) o by (simp add: funpow_swap1 del: upt_Suc)
qed

lemma all_batch_correct:
  fixes w :: "('a::len, 's) world"
  assumes ok: "hm_ok aes n w" and n: "2 \<le> n" and f: "fair_cipher aes s"
  shows "\<exists>ps w'. all_generateBatch aes n (all_allocate n num s) w = Some (ps, w') \<and> length ps = num \<and>
    (\<forall>p \<in> set ps. hm_valid n s p) \<and> hm_ok aes n w' \<and> group_only n (mgrs w) (mgrs w')"
proof -
  obtain G where G: "groups_synced n G (mgrs w)" and w: "cipher_ok TYPE('a) aes" "quiet w"
    using ok by (auto simp: hm_ok_def)
  let ?gs = "getGroups n" and ?adv = "\<lambda>i g. (group_adv aes s ^^ i) (G g)"
  let ?row = "\<lambda>p. map (\<lambda>i. party_perm ?gs s (\<lambda>g. group_perm aes s (?adv i g)) p) [0..<num]"
  have al: "map (\<lambda>sp. sp ! p) (all_allocate n num s) = replicate num (hm_perm_new s)" if "p < n" for p
    using that by (intro nth_equalityI) (simp_all add: all_allocate_def hm_allocate_def)
  have "\<forall>p. \<exists>m'. p < n \<longrightarrow> hm_generateBatch aes ?gs p (replicate num (hm_perm_new s)) (mgrs w ! p) = Some (?row p, m') \<and>
      (\<forall>g \<in> set ?gs. p \<in> set g \<longrightarrow> group_prg_ok g (?adv num g) m') \<and> only_groups n (mgrs w ! p) m'"
    using party_batch [OF f distinct_getGroups [OF n] subset_refl, of _ G] G by (auto simp: groups_synced_def)
  then obtain m' where m': "\<And>p. p < n \<Longrightarrow> hm_generateBatch aes ?gs p (replicate num (hm_perm_new s)) (mgrs w ! p) = Some (?row p, m' p)"
    "\<And>p g. p < n \<Longrightarrow> g \<in> set ?gs \<Longrightarrow> p \<in> set g \<Longrightarrow> group_prg_ok g (?adv num g) (m' p)"
    "\<And>p. p < n \<Longrightarrow> only_groups n (mgrs w ! p) (m' p)" by metis
  obtain ms where ms: "for_parties [0..<n] (\<lambda>p m. hm_generateBatch aes ?gs p (map (\<lambda>sp. sp ! p) (all_allocate n num s)) m) w
      = Some (map ?row [0..<n], w\<lparr>mgrs := ms\<rparr>)" "length ms = n" "\<forall>p < n. ms ! p = m' p"
    using for_parties_all [of "[0..<n]" w "\<lambda>p m. hm_generateBatch aes ?gs p (map (\<lambda>sp. sp ! p) (all_allocate n num s)) m" ?row m']
      m'(1) al G by (auto simp: groups_synced_def)
  let ?ps = "map (\<lambda>i. map (\<lambda>row. row ! i) (map ?row [0..<n])) [0..<num]"
  have "all_generateBatch aes n (all_allocate n num s) w = Some (?ps, w\<lparr>mgrs := ms\<rparr>)"
    using ms(1) by (simp add: all_generateBatch_def all_allocate_def)
  moreover have "hm_ok aes n (w\<lparr>mgrs := ms\<rparr>)"
  proof -
    have "group_prg_ok g (?adv num g) (ms ! p)" if g: "g \<in> set ?gs" "p \<in> set g" for g p
    proof -
      have "p < n" using getGroups_members(1) [OF g(1) n] g(2) by blast
      then show ?thesis using m'(2) g ms(3) by simp
    qed
    then have "groups_synced n (?adv num) ms" using ms(2) by (simp add: groups_synced_def)
    then show ?thesis using w by (auto simp: hm_ok_def quiet_def)
  qed
  moreover have "group_only n (mgrs w) ms"
    using ms(2,3) m'(3) G by (intro group_onlyI [of _ n]) (auto simp: groups_synced_def)
  moreover have "hm_valid n s p" if p: "p \<in> set ?ps" for p
  proof -
    obtain i where i: "i < num" "p = map (\<lambda>row. row ! i) (map ?row [0..<n])" using p by auto
    have "sharded n s (\<lambda>g. group_perm aes s (?adv i g)) p"
      using i gen_perm_run(2) [OF f] by (simp add: sharded_def party_perm_def hm_perm_new_def)
    then show ?thesis by (auto simp: hm_valid_def)
  qed
  ultimately show ?thesis by (intro exI [of _ ?ps] exI [of _ "w\<lparr>mgrs := ms\<rparr>"]) simp
qed

text \<open>The state is one that was reached from \<open>w0\<close> by advancing generators of groups only.\<close>

definition hm_from :: "'s cipher \<Rightarrow> nat \<Rightarrow> ('a::len, 's) world \<Rightarrow> ('a, 's) world \<Rightarrow> bool" where
  "hm_from aes n w0 w \<longleftrightarrow> hm_ok aes n w \<and> group_only n (mgrs w0) (mgrs w)"

interpretation hms: permutation_source "hm_generator aes (n + 3) :: (hm_perm list, ('a::len, 's) world) perm_generator"
  "n + 3" "fair_cipher aes" "hm_valid (n + 3)" "hm_from aes (n + 3) w0"
proof unfold_locales
  fix s num :: nat and st :: "('a, 's) world"
  assume a: "fair_cipher aes s" "hm_from aes (n + 3) w0 st"
  then have b: "hm_ok aes (n + 3) st" "group_only (n + 3) (mgrs w0) (mgrs st)" by (simp_all add: hm_from_def)
  show "\<exists>p st'. g_getNext (hm_generator aes (n + 3)) s st = Some (p, st') \<and> hm_valid (n + 3) s p \<and> hm_from aes (n + 3) w0 st'"
    using all_getNext_correct [OF b(1) _ a(1)] group_only_trans [OF b(2)]
    by (fastforce simp: hm_generator_def hm_valid_def hm_from_def)
  show "\<exists>ps st'. g_generateBatch (hm_generator aes (n + 3)) (g_allocate (hm_generator aes (n + 3) :: (hm_perm list, ('a, 's) world) perm_generator) num s) st = Some (ps, st') \<and>
      length ps = num \<and> (\<forall>p \<in> set ps. hm_valid (n + 3) s p) \<and> hm_from aes (n + 3) w0 st'"
    using all_batch_correct [OF b(1) _ a(1), of num] group_only_trans [OF b(2)] unfolding hm_from_def
    by (simp add: hm_generator_def) blast
next
  show "n + 3 \<noteq> 2" by simp
qed (auto simp: hm_generator_def hm_valid_def sharded_def)

end
