(* ===== verification/Shuffle_3PC.thy ===== *)
theory Shuffle_3PC
  imports Permutation_Source Elementwise_Proofs Replicated_3PC_Conv Replicated_3PC_Arith
begin

text \<open>
  Shuffling in the replicated three-party protocol: the state is the parties' world together with their
  permutation manager.  The protocol's own operations use the generators shared with the neighbours and
  leave those of the groups alone, and resharing does the converse, so the two invariants hold together;
  the three-party engine fulfils the contract of the operators on elementwise permutations.
\<close>

section \<open>Generators that an operation leaves alone\<close>

definition steady_mgr :: "'s manager \<Rightarrow> 's manager \<Rightarrow> bool" where
  "steady_mgr m m' \<longleftrightarrow> (\<exists>s. m' = m\<lparr>store := s\<rparr> \<and> (\<forall>grp \<in> set (getGroups 3). s (GroupPRG grp) = store m (GroupPRG grp)))"

definition steady :: "'s manager list \<Rightarrow> 's manager list \<Rightarrow> bool" where
  "steady ms ms' \<longleftrightarrow> list_all2 steady_mgr ms ms'"

definition world_3 :: "'s manager list \<Rightarrow> bool" where
  "world_3 ms \<longleftrightarrow> length ms = 3 \<and> (\<forall>p < 3. mgr3 p (ms ! p))"

lemma steady_mgr_refl [simp]: "steady_mgr m m"
  unfolding steady_mgr_def by (rule exI [of _ "store m"]) simp

lemma steady_mgr_trans: "steady_mgr m m' \<Longrightarrow> steady_mgr m' m'' \<Longrightarrow> steady_mgr m m''"
  unfolding steady_mgr_def by fastforce

lemma steady_refl [simp]: "steady ms ms"
  by (simp add: steady_def list_all2_refl)

lemma steady_trans: "steady ms ms' \<Longrightarrow> steady ms' ms'' \<Longrightarrow> steady ms ms''"
  unfolding steady_def by (rule list_all2_trans [where ?P2.0 = steady_mgr]) (auto intro: steady_mgr_trans)

lemma steady_update: "p < length ms \<Longrightarrow> steady_mgr (ms ! p) m \<Longrightarrow> steady ms (ms[p := m])"
  by (simp add: steady_def list_all2_conv_all_nth nth_list_update)

lemma steady_mgr3: "steady_mgr m m' \<Longrightarrow> mgr3 p m' = mgr3 p m"
  by (auto simp: steady_mgr_def)

lemma steady_world: "steady ms ms' \<Longrightarrow> world_3 ms \<Longrightarrow> world_3 ms'"
  by (auto simp: steady_def world_3_def list_all2_conv_all_nth steady_mgr3)

lemma steady_synced:
  assumes "steady ms ms'" and "groups_synced 3 G ms"
  shows "groups_synced 3 G ms'"
proof -
  have "group_prg_ok g (G g) (ms' ! p)" if g: "g \<in> set (getGroups 3)" "p \<in> set g" for g p
  proof -
    have "p < 3" using getGroups_members(1) [OF g(1)] g(2) by auto
    then have "steady_mgr (ms ! p) (ms' ! p)" "group_prg_ok g (G g) (ms ! p)"
      using assms g by (simp_all add: steady_def list_all2_conv_all_nth groups_synced_def)
    then show ?thesis using g(1) by (auto simp: steady_mgr_def group_prg_ok_def get_group_def)
  qed
  then show ?thesis using assms by (simp add: groups_synced_def steady_def list_all2_conv_all_nth)
qed

lemma steady_mgr_rel [simp]: "steady_mgr m (m\<lparr>store := (store m)(RelPRG j := g)\<rparr>)"
  unfolding steady_mgr_def by (rule exI [of _ "(store m)(RelPRG j := g)"]) simp

lemma draw_steady: "draw aes (Some (RelPRG j)) n m = Some (v, m') \<Longrightarrow> steady_mgr m m'"
  by (auto simp: draw_def bind_eq_Some_conv)

lemma draw_rel_steady:
  "mgr3 p m \<Longrightarrow> r = 1 \<or> r = - 1 \<Longrightarrow> draw aes (get_rel m r) n m = Some (v, m') \<Longrightarrow> steady_mgr m m'"
  using draw_steady [of aes 1 n m v m'] draw_steady [of aes 2 n m v m'] by auto

lemma getNextArithmetic_steady:
  fixes v :: "'a::len vec" and m m' :: "'s manager"
  assumes "cipher_ok TYPE('a) aes" and "mgr3 p m" and "getNextArithmetic aes n m = Some (v, m')"
  shows "steady_mgr m m'"
proof -
  have "steady_mgr m (m\<lparr>store := (store m)(RelPRG 2 := g, RelPRG 1 := h)\<rparr>)" for g h
    unfolding steady_mgr_def by (rule exI [of _ "(store m)(RelPRG 2 := g, RelPRG 1 := h)"]) simp
  then show ?thesis using assms(3) getNextArithmetic_mgr3 [OF assms(2,1), of n] by auto
qed

section \<open>Operations of the protocol\<close>

lemma for_parties_steady:
  assumes "\<And>p m x m'. p < 3 \<Longrightarrow> mgr3 p m \<Longrightarrow> f p m = Some (x, m') \<Longrightarrow> steady_mgr m m'"
    and "\<forall>p \<in> set ps. p < 3" and "world_3 (mgrs w)" and "for_parties ps f w = Some (xs, w')"
  shows "steady (mgrs w) (mgrs w')"
  using assms(2-)
proof (induction ps arbitrary: w xs)
  case (Cons p ps)
  obtain x m xs' where x: "f p (mgrs w ! p) = Some (x, m)"
    "for_parties ps f (w\<lparr>mgrs := (mgrs w)[p := m]\<rparr>) = Some (xs', w')"
    using Cons.prems(3) by (auto simp: bind_eq_Some_conv)
  have p: "p < 3" "mgr3 p (mgrs w ! p)" "p < length (mgrs w)" using Cons.prems(1,2) by (simp_all add: world_3_def)
  have s: "steady (mgrs w) ((mgrs w)[p := m])" using assms(1) [OF p(1,2) x(1)] p(3) by (intro steady_update)
  have "steady (mgrs (w\<lparr>mgrs := (mgrs w)[p := m]\<rparr>)) (mgrs w')"
    using Cons.prems(1) x(2) steady_world [OF s Cons.prems(2)] by (intro Cons.IH) simp_all
  then show ?case using steady_trans [OF s] by simp
qed simp

lemma truncate_P1_steady:
  fixes w w' :: "('a::len, 's) world"
  assumes "world_3 (mgrs w)" and "truncate_P1 aes x w = Some (y, w')"
  shows "steady (mgrs w) (mgrs w')"
proof (cases "prec x = 0")
  case False
  then obtain v :: "'a vec" and m where m: "draw aes (get_rel (mgrs w ! 1) 1) (evec_size x) (mgrs w ! 1) = Some (v, m)"
    "mgrs w' = (mgrs w)[1 := m]"
    using assms(2) by (auto simp: truncate_P1_def bind_eq_Some_conv Let_def)
  have "mgr3 1 (mgrs w ! 1)" "1 < length (mgrs w)" using assms(1) by (simp_all add: world_3_def)
  then show ?thesis using draw_rel_steady [OF _ _ m(1)] unfolding m(2) by (intro steady_update) auto
qed (use assms in \<open>simp add: truncate_P1_def\<close>)

lemma truncate_P2_steady:
  fixes w w' :: "('a::len, 's) world"
  assumes "world_3 (mgrs w)" and "truncate_P2 aes x w = Some (y, w')"
  shows "steady (mgrs w) (mgrs w')"
proof (cases "prec x = 0")
  case False
  then obtain v :: "'a vec" and m where m: "draw aes (get_rel (mgrs w ! 2) (- 1)) (evec_size x) (mgrs w ! 2) = Some (v, m)"
    "mgrs w' = (mgrs w)[2 := m]"
    using assms(2) by (auto simp: truncate_P2_def bind_eq_Some_conv Let_def)
  have "mgr3 2 (mgrs w ! 2)" "2 < length (mgrs w)" using assms(1) by (simp_all add: world_3_def)
  then show ?thesis using draw_rel_steady [OF _ _ m(1)] unfolding m(2) by (intro steady_update) auto
qed (use assms in \<open>simp add: truncate_P2_def\<close>)

lemma truncate_steady:
  fixes w w' :: "('a::len, 's) world"
  assumes "world_3 (mgrs w)" and "rep3_truncate aes X w = Some (Y, w')"
  shows "steady (mgrs w) (mgrs w')"
proof -
  obtain y1 w1 y2 w2 y0 where y: "truncate_P1 aes (X ! 1) w = Some (y1, w1)" "truncate_P2 aes (X ! 2) w1 = Some (y2, w2)"
    "truncate_P0 (X ! 0) w2 = Some (y0, w')"
    using assms(2) by (auto simp: rep3_truncate_def bind_eq_Some_conv)
  note s1 = truncate_P1_steady [OF assms(1) y(1)]
  note s2 = truncate_P2_steady [OF steady_world [OF s1 assms(1)] y(2)]
  have "mgrs w' = mgrs w2" using y(3) by (auto simp: truncate_P0_def bind_eq_Some_conv Let_def dest: receive_mgrs split: if_splits)
  then show ?thesis using steady_trans [OF s1 s2] by simp
qed

lemma product_steady:
  fixes w w' :: "('a::len, 's) world"
  assumes c: "cipher_ok TYPE('a) aes" and "world_3 (mgrs w)" and "rep3_product aes terms sz X Y w = Some (Z, w')"
  shows "steady (mgrs w) (mgrs w')"
proof -
  obtain rs :: "'a vec list" and w1 w2 U where r: "for_parties [0, 1, 2] (\<lambda>p m. getNextArithmetic aes sz m) w = Some (rs, w1)"
    "mgrs w2 = mgrs w1" "rep3_truncate aes U w2 = Some (Z, w')"
    using assms(3) by (auto simp: rep3_product_def bind_eq_Some_conv Let_def simp del: for_parties.simps dest!: exchange_mgrs)
  have s: "steady (mgrs w) (mgrs w1)"
    by (rule for_parties_steady [OF _ _ assms(2) r(1)]) (auto intro: getNextArithmetic_steady [OF c])
  show ?thesis using steady_trans [OF s] truncate_steady [OF _ r(3)] steady_world [OF s assms(2)] unfolding r(2) by simp
qed

lemma b2a_local_steady:
  fixes x :: "'a::len evec" and m m' :: "'s manager"
  assumes c: "cipher_ok TYPE('a) aes" and "mgr3 p m" and "b2a_local aes x p m = Some (r, m')"
  shows "steady_mgr m m'"
proof -
  obtain u m1 v where "getNextArithmetic aes (evec_size x) m = Some (u :: 'a vec, m1)"
    "getNextArithmetic aes (evec_size x) m1 = Some (v :: 'a vec, m')"
    using assms(3) by (auto simp: b2a_local_def bind_eq_Some_conv Let_def)
  then show ?thesis using getNextArithmetic_steady [OF c] assms(2) steady_mgr3 steady_mgr_trans by metis
qed

lemma b2a_steady:
  fixes w w' :: "('a::len, 's) world"
  assumes c: "cipher_ok TYPE('a) aes" and "world_3 (mgrs w)" and "rep3_b2a_bit aes X w = Some (Z, w')"
  shows "steady (mgrs w) (mgrs w')"
proof -
  obtain rs w1 w2 U where r: "for_parties [0, 1, 2] (\<lambda>p. b2a_local aes (X ! p) p) w = Some (rs, w1)"
    "mgrs w2 = mgrs w1" "rep3_multiply_a aes U U w2 = Some (Z, w')"
    using assms(3) by (auto simp: rep3_b2a_bit_def bind_eq_Some_conv Let_def simp del: for_parties.simps dest!: exchange_mgrs)
  have s: "steady (mgrs w) (mgrs w1)"
    by (rule for_parties_steady [OF _ _ assms(2) r(1)]) (auto intro: b2a_local_steady [OF c])
  show ?thesis
    using steady_trans [OF s] product_steady [OF c _ r(3) [unfolded rep3_multiply_a_def]] steady_world [OF s assms(2)]
    unfolding r(2) by simp
qed

lemma rep3_secret_share_steady:
  fixes w w' :: "('a::len, 's) world"
  assumes "world_3 (mgrs w)" and "d < 3" and "rep3_secret_share f aes data d w = Some (X, w')"
  shows "steady (mgrs w) (mgrs w')"
proof -
  have l: "d < length (mgrs w)" "get_group (mgrs w ! d) [] = Some LocalPRG" using assms(1,2) by (simp_all add: world_3_def mgr3_def get_group_def)
  have c: "mgrs v' = mgrs v" if "receive_columns n d p v = Some (e, v')" for n p e and v v' :: "('a, 's) world"
    using that by (auto simp: receive_columns_def bind_eq_Some_conv dest!: receive_mgrs)
  obtain sh m where m: "rep3_get_shares f aes data (mgrs w ! d) = Some (sh, m)" "mgrs w' = (mgrs w)[d := m]"
    using assms(3) by (auto simp: rep3_secret_share_def bind_eq_Some_conv Let_def dest!: c)
  have t: "steady_mgr m' m'' \<and> get_group m'' [] = get_group m' []" if "draw aes (Some LocalPRG) n m' = Some (v :: 'a vec, m'')" for n m' m'' v
    using that by (auto simp: draw_def bind_eq_Some_conv steady_mgr_def get_group_def)
  have "steady_mgr (mgrs w ! d) m"
    using m(1) l(2) steady_mgr_trans unfolding rep3_get_shares_def by (auto simp: bind_eq_Some_conv Let_def dest!: t)
  then show ?thesis unfolding m(2) using l(1) by (intro steady_update)
qed

section \<open>The three-party engine\<close>

type_synonym ('a, 's) shuffle_state = "('a, 's) world \<times> hm_perm list perm_manager"

definition on_world ::
  "(('a::len, 's) world \<Rightarrow> ('x \<times> ('a, 's) world) option) \<Rightarrow> ('a, 's) shuffle_state \<Rightarrow> ('x \<times> ('a, 's) shuffle_state) option" where
  "on_world f st = do { (x, w) \<leftarrow> f (fst st); Some (x, (w, snd st)) }"

definition rep3_shuffler :: "'s cipher \<Rightarrow> ('a::len, hm_perm list, ('a, 's) shuffle_state) shuffler" where
  "rep3_shuffler aes =
     \<lparr>s_getNext = (\<lambda>size_n enc st. do {
        (p, pm, w) \<leftarrow> pm_getNext (hm_generator aes 3) 3 size_n enc (snd st) (fst st);
        Some (p, (w, pm)) }),
      s_getNextPair = (\<lambda>size_n enc1 enc2 st. do {
        (p, pm, w) \<leftarrow> pm_getNextPair (hm_generator aes 3) 3 size_n enc1 enc2 (snd st) (fst st);
        Some (p, (w, pm)) }),
      s_apply = (\<lambda>binary pi X. on_world (hm_oblivious_apply_sharded_perm binary aes 3 2 pi X)),
      s_apply_inverse = (\<lambda>binary pi X. on_world (hm_oblivious_apply_inverse_sharded_perm binary aes 3 2 pi X)),
      s_open = (\<lambda>binary X. on_world (if binary then rep3_unchecked_open_b X else rep3_unchecked_open_a X)),
      s_public_share = (\<lambda>x. rep3_public_share x []),
      s_reserve = (\<lambda>size_n num_permutations num_pairs st. do {
        (pm, w) \<leftarrow> reserve (hm_generator aes 3) 3 size_n num_permutations num_pairs (snd st) (fst st);
        Some ((), (w, pm)) })\<rparr>"

definition shuffle_3pc :: "'s cipher \<Rightarrow> ('a::len, ('a, 's) shuffle_state) protocol" where
  "shuffle_3pc aes =
     \<lparr>v_and_b = (\<lambda>X Y. on_world (rep3_and_b aes X Y)), v_not_b = rep3_not_b,
      v_not_b_1 = rep3_not_b_1, v_multiply_a = (\<lambda>X Y. on_world (rep3_multiply_a aes X Y)),
      v_b2a_bit = (\<lambda>X. on_world (rep3_b2a_bit aes X)),
      v_redistribute_shares_b = (\<lambda>X. on_world (rep3_redistribute_shares_b aes X)),
      v_div_const_a = (\<lambda>X c. on_world (rep3_div_const_a aes X c))\<rparr>"

definition shuffle_ok_3 :: "'s cipher \<Rightarrow> nat \<Rightarrow> ('a::len, 's) shuffle_state \<Rightarrow> bool" where
  "shuffle_ok_3 aes m st \<longleftrightarrow> rep3_ok aes (fst st) \<and> hm_ok aes 3 (fst st) \<and> fair_cipher aes m \<and>
     m \<le> 2 ^ (LENGTH('a) - 1) \<and> manager_ok (hm_valid 3) (snd st) \<and> (queue (snd st) = [] \<or> stored_size (snd st) = m)"

definition acts_3 :: "nat \<Rightarrow> nat list \<Rightarrow> hm_perm list \<Rightarrow> bool" where
  "acts_3 m T pi \<longleftrightarrow> (\<exists>P. sharded 3 m P pi \<and> T = composed_perm m P (getGroups 3))"

lemma getGroups_3: "getGroups 3 = [ [0, 1], [0, 2], [1, 2] ]"
  by code_simp

lemma hm_params_3 [simp]: "hm_params 3 2"
  by (simp add: hm_params_def getGroups_3)

lemma only_groups_3:
  assumes "only_groups 3 m m'"
  shows "mgr3 p m' = mgr3 p m" and "store m' (RelPRG j) = store m (RelPRG j)"
    and "store m' (GroupPRG [0, 1, 2]) = store m (GroupPRG [0, 1, 2])"
  using assms by (auto simp: only_groups_def getGroups_3)

lemma group_only_rep3:
  fixes w w' :: "('a::len, 's) world"
  assumes "rep3_ok aes w" and "group_only 3 (mgrs w) (mgrs w')" and "quiet w'"
  shows "rep3_ok aes w'"
proof -
  from assms(1) obtain m0 m1 m2 where m: "mgrs w = [m0, m1, m2]" "rep3_synced [m0, m1, m2]"
    and c: "cipher_ok TYPE('a) aes" by (rule rep3_okE)
  obtain n0 n1 n2 where n: "mgrs w' = [n0, n1, n2]" "only_groups 3 m0 n0" "only_groups 3 m1 n1" "only_groups 3 m2 n2"
    using assms(2) m(1) by (auto simp: group_only_def list_all2_Cons1)
  note f = only_groups_3 [OF n(2)] only_groups_3 [OF n(3)] only_groups_3 [OF n(4)]
  have "rep3_synced [n0, n1, n2]" using m(2) by (simp add: rep3_synced_def f f [unfolded One_nat_def])
  then show ?thesis using c assms(3) n(1) by (simp add: rep3_ok_def)
qed

lemma steady_rep3:
  assumes "rep3_ok aes w'" and "hm_ok aes 3 w" and "steady (mgrs w) (mgrs w')"
  shows "hm_ok aes 3 w'"
  using assms steady_synced unfolding hm_ok_def rep3_ok_def by blast

lemma rep3_world_3: "rep3_ok aes w \<Longrightarrow> world_3 (mgrs w)"
  by (elim rep3_okE) (auto simp: world_3_def rep3_synced_def numeral_3_eq_3 less_Suc_eq numeral_2_eq_2)

lemma hm_acts:
  fixes st :: "('a::len, 's) shuffle_state" and X :: "'a sharing"
  assumes "shuffle_ok_3 aes m st" and "acts_3 m T pi" and "is_sharing 3 2 q m X"
  shows "\<exists>Y st'. s_apply (rep3_shuffler aes) b pi X st = Some (Y, st') \<and> shuffle_ok_3 aes m st' \<and> is_sharing 3 2 q m Y \<and>
      revealed b Y = permute T (revealed b X)"
    and "\<exists>Y st'. s_apply_inverse (rep3_shuffler aes) b pi X st = Some (Y, st') \<and> shuffle_ok_3 aes m st' \<and> is_sharing 3 2 q m Y \<and>
      revealed b Y = gather T (revealed b X)"
proof -
  obtain P where P: "sharded 3 m P pi" "T = composed_perm m P (getGroups 3)" using assms(2) by (auto simp: acts_3_def)
  have w: "rep3_ok aes (fst st)" "hm_ok aes 3 (fst st)" using assms(1) by (simp_all add: shuffle_ok_3_def)
  have q: "rep3_ok aes w'" if "hm_ok aes 3 w'" "group_only 3 (mgrs (fst st)) (mgrs w')" for w' :: "('a, 's) world"
    using that group_only_rep3 [OF w(1)] by (simp add: hm_ok_def)
  show "\<exists>Y st'. s_apply (rep3_shuffler aes) b pi X st = Some (Y, st') \<and> shuffle_ok_3 aes m st' \<and> is_sharing 3 2 q m Y \<and>
      revealed b Y = permute T (revealed b X)"
    using hm_apply_correct [OF hm_params_3 P(1) w(2) assms(3), of b] assms(1) P(2) q
    by (auto simp: rep3_shuffler_def on_world_def shuffle_ok_3_def)
  show "\<exists>Y st'. s_apply_inverse (rep3_shuffler aes) b pi X st = Some (Y, st') \<and> shuffle_ok_3 aes m st' \<and> is_sharing 3 2 q m Y \<and>
      revealed b Y = gather T (revealed b X)"
    using hm_apply_inverse_correct [OF hm_params_3 P(1) w(2) assms(3), of b] assms(1) P(2) q
    by (auto simp: rep3_shuffler_def on_world_def shuffle_ok_3_def)
qed

lemma hm_valid_acts: "hm_valid 3 m pi \<Longrightarrow> \<exists>T. is_perm m T \<and> acts_3 m T pi"
  unfolding hm_valid_def acts_3_def using is_perm_composed sharded_perms by blast

lemma hm_takes:
  fixes st :: "('a::len, 's) shuffle_state"
  assumes "shuffle_ok_3 aes m st"
  shows "\<exists>pi T st'. s_getNext (rep3_shuffler aes) m enc st = Some (pi, st') \<and> is_perm m T \<and> acts_3 m T pi \<and> shuffle_ok_3 aes m st'"
    and "\<exists>pi T st'. s_getNextPair (rep3_shuffler aes) m enc1 enc2 st = Some ((pi, pi), st') \<and> is_perm m T \<and> acts_3 m T pi \<and> shuffle_ok_3 aes m st'"
proof -
  have ok: "rep3_ok aes (fst st)" "hm_from aes 3 (fst st) (fst st)" "fair_cipher aes m" "manager_ok (hm_valid 3) (snd st)"
    "queue (snd st) = [] \<or> stored_size (snd st) = m"
    using assms by (simp_all add: shuffle_ok_3_def hm_from_def)
  have again: "shuffle_ok_3 aes m (w', pm')" if "hm_from aes 3 (fst st) w'" "manager_ok (hm_valid 3) pm'"
    "queue pm' = [] \<or> stored_size pm' = m" for w' :: "('a, 's) world" and pm'
    using that assms group_only_rep3 [OF ok(1)] by (auto simp: shuffle_ok_3_def hm_from_def hm_ok_def)
  obtain p pm' w' where p: "pm_getNext (hm_generator aes 3) 3 m enc (snd st) (fst st) = Some (p, pm', w')" "hm_valid 3 m p"
    "hm_from aes 3 (fst st) w'" "manager_ok (hm_valid 3) pm'" "queue pm' \<noteq> [] \<longrightarrow> stored_size pm' = m"
    using hms.getNext_correct [where n = 0, simplified, OF ok(3,2,4), of enc] by auto
  then show "\<exists>pi T st'. s_getNext (rep3_shuffler aes) m enc st = Some (pi, st') \<and> is_perm m T \<and> acts_3 m T pi \<and> shuffle_ok_3 aes m st'"
    using again [OF p(3,4)] hm_valid_acts [OF p(2)] by (auto simp: rep3_shuffler_def)
  obtain p pm' w' where p: "pm_getNextPair (hm_generator aes 3) 3 m enc1 enc2 (snd st) (fst st) = Some ((p, p), pm', w')" "hm_valid 3 m p"
    "hm_from aes 3 (fst st) w'" "manager_ok (hm_valid 3) pm'" "queue pm' = [] \<or> stored_size pm' = m"
    using hms.getNextPair_correct [where n = 0, simplified, OF ok(3,2,4,5), of enc1 enc2] by auto
  then show "\<exists>pi T st'. s_getNextPair (rep3_shuffler aes) m enc1 enc2 st = Some ((pi, pi), st') \<and> is_perm m T \<and> acts_3 m T pi \<and> shuffle_ok_3 aes m st'"
    using again [OF p(3-5)] hm_valid_acts [OF p(2)] by (auto simp: rep3_shuffler_def)
qed

lemma rep3_public_share_correct:
  fixes x :: "'a::len vec"
  shows "\<exists>X. rep3_public_share x [] = Some X \<and> is_sharing 3 2 0 (length x) X \<and> reveal_b X = x \<and> reveal_a X = x"
proof -
  let ?z = "replicate (length x) 0 :: 'a vec"
  have "rep3_public_share x [] = Some (share_out 2 0 [x, ?z, ?z])"
    by (simp add: rep3_public_share_def share_out_3)
  moreover have "vadd x (vadd ?z ?z) = x" "vxor x (vxor ?z ?z) = x" by (intro vec_eqI; simp)+
  ultimately show ?thesis using is_sharing_3 [of x "length x" ?z ?z 0] reveal_3 [of x "length x" ?z ?z 0] by simp
qed

interpretation sh3: free_shuffling "rep3_shuffler aes :: ('a::len, hm_perm list, ('a, 's) shuffle_state) shuffler" 3 2 m
  "shuffle_ok_3 aes m" "\<lambda>_. acts_3 m"
proof unfold_locales
  fix st :: "('a, 's) shuffle_state" and enc enc1 enc2 b and T pi q and X :: "'a sharing"
  assume ok: "shuffle_ok_3 aes m st"
  then show "m \<le> 2 ^ (LENGTH('a) - 1)" by (simp add: shuffle_ok_3_def)
  show "\<exists>pi T st'. s_getNext (rep3_shuffler aes) m enc st = Some (pi, st') \<and> is_perm m T \<and> acts_3 m T pi \<and> shuffle_ok_3 aes m st'"
    by (rule hm_takes(1) [OF ok])
  show "\<exists>pi1 pi2 T st'. s_getNextPair (rep3_shuffler aes) m enc1 enc2 st = Some ((pi1, pi2), st') \<and>
      is_perm m T \<and> acts_3 m T pi1 \<and> acts_3 m T pi2 \<and> shuffle_ok_3 aes m st'"
    using hm_takes(2) [OF ok, of enc1 enc2] by blast
  assume X: "is_sharing 3 2 q m X"
  show "\<exists>st'. s_open (rep3_shuffler aes) b X st = Some (replicate 3 (revealed b X), st') \<and> shuffle_ok_3 aes m st'"
    using ok rep3_open_correct [of aes "fst st", OF _ X]
    by (auto simp: rep3_shuffler_def on_world_def shuffle_ok_3_def revealed_def rep3_ok_def hm_ok_def tally_def quiet_def)
  assume T: "acts_3 m T pi"
  show "\<exists>Y st'. s_apply (rep3_shuffler aes) b pi X st = Some (Y, st') \<and> shuffle_ok_3 aes m st' \<and> is_sharing 3 2 q m Y \<and>
      revealed b Y = permute T (revealed b X)"
    by (rule hm_acts(1) [OF ok T X])
  show "\<exists>Y st'. s_apply_inverse (rep3_shuffler aes) b pi X st = Some (Y, st') \<and> shuffle_ok_3 aes m st' \<and> is_sharing 3 2 q m Y \<and>
      revealed b Y = gather T (revealed b X)"
    by (rule hm_acts(2) [OF ok T X])
next
  fix x :: "'a vec"
  show "\<exists>X. s_public_share (rep3_shuffler aes :: ('a, hm_perm list, ('a, 's) shuffle_state) shuffler) x = Some X \<and>
      is_sharing 3 2 0 (length x) X \<and> reveal_b X = x \<and> reveal_a X = x"
    using rep3_public_share_correct [of x] by (simp add: rep3_shuffler_def)
qed simp_all

end
