(* ===== verification/Radix_3PC.thy ===== *)
theory Radix_3PC
  imports Radix_Proofs Shuffle_3PC
begin

text \<open>
  Reversal and negation of elementwise permutations, which multiply by public constants, and the
  three-party engine as an instance of the sorting contract.
\<close>

section \<open>Reversal and negation\<close>

lemma add_hom_repeat: "add_hom 1 m (\<lambda>c. concat (map (replicate m) c))"
  by (auto simp: add_hom_def vadd_def length_Suc_conv intro!: nth_equalityI)

context sorting_engine
begin

lemma repeat_public:
  "\<exists>X. s_public_share S [c] = Some X \<and> is_sharing n k 0 m (sv_repeat m X) \<and> reveal_a (sv_repeat m X) = replicate m c"
proof -
  obtain X where X: "s_public_share S [c] = Some X" "is_sharing n k 0 1 X" "reveal_a X = [c]"
    using public_obtains [of "[c]"] by auto
  then show ?thesis using reveal_add_hom(1,2) [OF add_hom_repeat X(2) k_pos n_pos, of m, folded sv_repeat_def] by simp
qed

lemma reverse_correct:
  assumes "ok st" and e: "perm_shared p e" and "\<not> encoding e"
  shows "\<exists>e' st'. elem_reverse S P e st = Some (e', st') \<and> ok st' \<and> \<not> encoding e' \<and>
    perm_shared (map (\<lambda>i. m - 1 - i) p) e'"
proof -
  have p: "is_perm m p" "is_sharing n k 0 m (sharedVector e)" "reveal_a (sharedVector e) = map of_nat p"
    using e assms(3) by (simp_all add: perm_shared_def revealed_def)
  obtain N where N: "s_public_share S [- 1] = Some N" "is_sharing n k 0 m (sv_repeat m N)" "reveal_a (sv_repeat m N) = replicate m (- 1)"
    using repeat_public by blast
  obtain C where C: "s_public_share S [of_nat m - 1] = Some C" "is_sharing n k 0 m (sv_repeat m C)"
    "reveal_a (sv_repeat m C) = replicate m (of_nat m - 1)" using repeat_public by blast
  obtain Z st' where Z: "v_multiply_a P (sharedVector e) (sv_repeat m N) st = Some (Z, st')" "ok st'" "is_sharing n k 0 m Z"
    "reveal_a Z = map2 (*) (reveal_a (sharedVector e)) (reveal_a (sv_repeat m N))"
    using mult_law [OF assms(1) p(2) N(2)] by blast
  note a = add_sharing [OF Z(3) C(2) k_pos n_pos]
  have lp: "length p = m" "\<And>i. i < m \<Longrightarrow> p ! i < m" using p(1) by (simp_all add: is_perm_length)
  have "reveal_a (add_a Z (sv_repeat m C)) = map of_nat (map (\<lambda>i. m - 1 - i) p)"
  proof (rule nth_equalityI)
    show "length (reveal_a (add_a Z (sv_repeat m C))) = length (map of_nat (map (\<lambda>i. m - 1 - i) p) :: 'a vec)"
      using a(1) lp k_pos n_pos by simp
    fix i assume "i < length (reveal_a (add_a Z (sv_repeat m C)))"
    then have i: "i < m" using a(1) k_pos n_pos by simp
    have "reveal_a (add_a Z (sv_repeat m C)) ! i = of_nat m - 1 - of_nat (p ! i)"
      unfolding a(2) Z(4) N(3) C(3) p(3) using i lp(1) by simp
    also have "\<dots> = of_nat (m - 1 - p ! i)" using lp(2) [OF i] by (simp add: of_nat_diff)
    finally show "reveal_a (add_a Z (sv_repeat m C)) ! i = map of_nat (map (\<lambda>i. m - 1 - i) p) ! i" using i lp(1) by simp
  qed
  moreover have "is_perm m (map (\<lambda>i. m - 1 - i) p)"
    unfolding is_perm_def distinct_map
  proof (intro conjI inj_onI ballI)
    fix x y assume xy: "x \<in> set p" "y \<in> set p" and "m - 1 - x = m - 1 - y"
    moreover have "x < m" "y < m" using xy p(1) by (auto simp: is_perm_def)
    ultimately show "x = y" by linarith
  qed (use p(1) in \<open>auto simp: is_perm_def\<close>)
  ultimately have "perm_shared (map (\<lambda>i. m - 1 - i) p) (e\<lparr>sharedVector := add_a Z (sv_repeat m C)\<rparr>)"
    using a(1) assms(3) by (simp add: perm_shared_def revealed_def)
  then show ?thesis using N(1) C(1) Z(1,2) assms(3) size_of [OF p(2)] by (auto simp: elem_reverse_def elem_size_def Let_def)
qed

lemma negate_correct:
  assumes "ok st" and p: "is_perm m p" and X: "is_sharing n k 0 m (sharedVector e)"
    and r: "reveal_a (sharedVector e) = map (\<lambda>i. - of_nat (Suc i)) p" and "\<not> encoding e"
  shows "\<exists>e' st'. elem_negate S P e st = Some (e', st') \<and> ok st' \<and> \<not> encoding e' \<and> perm_shared p e'"
proof -
  obtain N where N: "s_public_share S [- 1] = Some N" "is_sharing n k 0 m (sv_repeat m N)" "reveal_a (sv_repeat m N) = replicate m (- 1)"
    using repeat_public by blast
  obtain Z st' where Z: "v_multiply_a P (sharedVector e) (sv_repeat m N) st = Some (Z, st')" "ok st'" "is_sharing n k 0 m Z"
    "reveal_a Z = map2 (*) (reveal_a (sharedVector e)) (reveal_a (sv_repeat m N))"
    using mult_law [OF assms(1) X N(2)] by blast
  note a = add_sharing [OF Z(3) N(2) k_pos n_pos]
  have "reveal_a (add_a Z (sv_repeat m N)) = map of_nat p"
    unfolding a(2) Z(4) N(3) r using p by (intro nth_equalityI) (simp_all add: is_perm_length [of m p])
  then have "perm_shared p (e\<lparr>sharedVector := add_a Z (sv_repeat m N)\<rparr>)"
    using a(1) assms(5) p by (simp add: perm_shared_def revealed_def)
  then show ?thesis using N(1) Z(1,2) assms(5) size_of [OF X] by (auto simp: elem_negate_def elem_size_def Let_def)
qed

end

section \<open>Three parties\<close>

lemma rep3_reserve:
  fixes st :: "('a::len, 's) shuffle_state"
  assumes "shuffle_ok_3 aes m st"
  shows "\<exists>st'. s_reserve (rep3_shuffler aes) m num pairs st = Some ((), st') \<and> shuffle_ok_3 aes m st'"
proof -
  have ok: "rep3_ok aes (fst st)" "hm_from aes 3 (fst st) (fst st)" "fair_cipher aes m" "manager_ok (hm_valid 3) (snd st)"
    using assms by (simp_all add: shuffle_ok_3_def hm_from_def)
  obtain pm' w' where p: "reserve (hm_generator aes 3) 3 m num pairs (snd st) (fst st) = Some (pm', w')"
    "hm_from aes 3 (fst st) w'" "manager_ok (hm_valid 3) pm'" "stored_size pm' = m"
    using hms.reserve_correct [where n = 0, simplified, OF ok(3,2,4), of num pairs] by auto
  then have "shuffle_ok_3 aes m (w', pm')"
    using assms group_only_rep3 [OF ok(1)] by (auto simp: shuffle_ok_3_def hm_from_def hm_ok_def)
  then show ?thesis using p(1) by (simp add: rep3_shuffler_def)
qed

interpretation rx3: sorting_engine "rep3_shuffler aes :: ('a::len, hm_perm list, ('a, 's) shuffle_state) shuffler" 3 2 m
  "shuffle_ok_3 aes m" "\<lambda>_. acts_3 m" "shuffle_3pc aes :: ('a, ('a, 's) shuffle_state) protocol"
proof unfold_locales
  fix st :: "('a, 's) shuffle_state" and num pairs q and X Y :: "'a sharing"
  show "is_sharing 3 2 q m (v_not_b (shuffle_3pc aes :: ('a, ('a, 's) shuffle_state) protocol) X) \<and>
        reveal_b (v_not_b (shuffle_3pc aes :: ('a, ('a, 's) shuffle_state) protocol) X) = map NOT (reveal_b X)"
    if "is_sharing 3 2 q m X"
    using rep3_not_b_correct [OF that] by (simp add: shuffle_3pc_def replicated_3pc_def)
  assume ok: "shuffle_ok_3 aes m st"
  show "\<exists>st'. s_reserve (rep3_shuffler aes) m num pairs st = Some ((), st') \<and> shuffle_ok_3 aes m st'"
    by (rule rep3_reserve [OF ok])
  have w: "rep3_ok aes (fst st)" "hm_ok aes 3 (fst st)" "cipher_ok TYPE('a) aes"
    using ok by (simp_all add: shuffle_ok_3_def rep3_ok_def)
  have again: "shuffle_ok_3 aes m (w', snd st)" if "rep3_ok aes w'" "steady (mgrs (fst st)) (mgrs w')" for w' :: "('a, 's) world"
    using that ok steady_rep3 [OF that(1) w(2) that(2)] by (simp add: shuffle_ok_3_def)
  note b2a = b2a_steady [OF w(3) rep3_world_3 [OF w(1)]]
    and mul = product_steady [OF w(3) rep3_world_3 [OF w(1)], folded rep3_multiply_a_def]
  show "\<exists>R st'. v_b2a_bit (shuffle_3pc aes) X st = Some (R, st') \<and> shuffle_ok_3 aes m st' \<and> is_sharing 3 2 0 m R \<and>
        reveal_a R = map (\<lambda>x. x AND 1) (reveal_b X)" if "is_sharing 3 2 q m X"
    using rep3_b2a_correct [OF w(1) that] again b2a by (fastforce simp: shuffle_3pc_def on_world_def)
  show "\<exists>Z st'. v_multiply_a (shuffle_3pc aes) X Y st = Some (Z, st') \<and> shuffle_ok_3 aes m st' \<and> is_sharing 3 2 0 m Z \<and>
        reveal_a Z = map2 (*) (reveal_a X) (reveal_a Y)" if "is_sharing 3 2 0 m X" "is_sharing 3 2 0 m Y"
    using rep3_multiply_correct [OF w(1) that] again mul by (fastforce simp: shuffle_3pc_def on_world_def rep3_multiply_a_def)
qed

end
