(* ===== verification/Network_Scan.thy ===== *)
theory Network_Scan
  imports Aggregation_Proofs
begin

text \<open>
  Both prefix networks compute the segmented scan: running an associative operation over plain vectors through the views
  of the levels, combining source into target where the labels agree, leaves the scan of every group.  The
  Brent-Kung network does so in both directions.
\<close>

definition combine_level ::
  "(prefix_network \<Rightarrow> nat \<Rightarrow> view \<Rightarrow> (view \<times> view) option) \<Rightarrow> int \<Rightarrow> prefix_network \<Rightarrow> 'l list \<Rightarrow> ('b \<Rightarrow> 'b \<Rightarrow> 'b)
    \<Rightarrow> nat \<Rightarrow> 'b list \<Rightarrow> 'b list option" where
  "combine_level lv depth nw ls f l xs = do {
     (va, vb) \<leftarrow> level lv depth nw l (length xs);
     view_set vb (map2 (\<lambda>(a, b) (s, t). if a = b then f s t else t)
       (zip (view_get va ls) (view_get vb ls)) (zip (view_get va xs) (view_get vb xs))) xs
   }"

fun run_network ::
  "(prefix_network \<Rightarrow> nat \<Rightarrow> view \<Rightarrow> (view \<times> view) option) \<Rightarrow> int \<Rightarrow> prefix_network \<Rightarrow> 'l list \<Rightarrow> ('b \<Rightarrow> 'b \<Rightarrow> 'b)
    \<Rightarrow> nat list \<Rightarrow> 'b list \<Rightarrow> 'b list option" where
  "run_network lv depth nw ls f [] xs = Some xs"
| "run_network lv depth nw ls f (l # rest) xs = do {
     xs \<leftarrow> combine_level lv depth nw ls f l xs;
     run_network lv depth nw ls f rest xs
   }"

lemma combine_level_pairs:
  assumes "level lv depth nw l n = Some (va, vb)" and s: "shows_pairs d n ps va vb" and "distinct (map snd ps)"
    and b: "\<And>s t. (s, t) \<in> set ps \<Longrightarrow> s < n \<and> t < n" and "length ls = n" and "length xs = n"
  shows "\<exists>ys. combine_level lv depth nw ls f l xs = Some ys \<and> length ys = n \<and>
    in_dir d ys = agg_level ((!) (in_dir d ls)) f ps (in_dir d xs)"
proof -
  let ?u = "map2 (\<lambda>(a, b) (s, t). if a = b then f s t else t)
       (zip (view_get va ls) (view_get vb ls)) (zip (view_get va xs) (view_get vb xs))"
  have lu: "length ?u = length ps" using shows_pairs_size [OF s] by simp
  have "?u ! k = (if in_dir d ls ! fst (ps ! k) = in_dir d ls ! snd (ps ! k)
      then f (in_dir d xs ! fst (ps ! k)) (in_dir d xs ! snd (ps ! k)) else in_dir d xs ! snd (ps ! k))" if k: "k < length ps" for k
    using view_get_pairs [OF s assms(5) b k] view_get_pairs [OF s assms(6) b k] k shows_pairs_size [OF s] by simp
  from level_scatter [OF assms(3) b assms(6) lu this]
  have "in_dir d (scatter (positions vb) ?u xs) = agg_level ((!) (in_dir d ls)) f ps (in_dir d xs)"
    using s by (simp add: shows_pairs_def)
  moreover have "combine_level lv depth nw ls f l xs = Some (scatter (positions vb) ?u xs)"
    using assms(1,6) lu shows_pairs_size [OF s] by (simp add: combine_level_def view_set_def)
  ultimately show ?thesis using assms(6) by simp
qed

lemma run_network_pairs:
  assumes "\<And>l. l \<in> set levels \<Longrightarrow> \<exists>va vb. level lv depth nw l n = Some (va, vb) \<and> shows_pairs d n (ps l) va vb \<and>
      distinct (map snd (ps l)) \<and> (\<forall>(s, t) \<in> set (ps l). s < n \<and> t < n)"
    and "length ls = n" and "length xs = n"
  shows "\<exists>ys. run_network lv depth nw ls f levels xs = Some ys \<and> length ys = n \<and>
    in_dir d ys = foldl (\<lambda>ys l. agg_level ((!) (in_dir d ls)) f (ps l) ys) (in_dir d xs) levels"
  using assms(1,3)
proof (induction levels arbitrary: xs)
  case (Cons l levels)
  obtain va vb where v: "level lv depth nw l n = Some (va, vb)" "shows_pairs d n (ps l) va vb" "distinct (map snd (ps l))"
    "\<And>s t. (s, t) \<in> set (ps l) \<Longrightarrow> s < n \<and> t < n" using Cons.prems(1) [of l] by fastforce
  obtain ys where ys: "combine_level lv depth nw ls f l xs = Some ys" "length ys = n"
    "in_dir d ys = agg_level ((!) (in_dir d ls)) f (ps l) (in_dir d xs)"
    using combine_level_pairs [OF v assms(2) Cons.prems(2)] by blast
  from Cons.IH [OF Cons.prems(1) ys(2)] show ?case using ys(1,3) by simp
qed simp

lemma scan_of_list:
  assumes "length ls = n" and "length xs = n" and "length ys = n"
    and "\<And>j. j < n \<Longrightarrow> in_dir d ys ! j = seg_scan L f (in_dir d xs) j"
  shows "ys = group_scan d L f xs"
proof -
  have "in_dir d ys = map (seg_scan L f (in_dir d xs)) [0..<n]" using assms(3,4) by (intro nth_equalityI) simp_all
  then show ?thesis using assms(2) in_dir_in_dir [of d ys] by (simp add: group_scan_def)
qed

theorem networks_scan:
  assumes "contiguous (2 ^ r) ((!) (in_dir d ls))" and "\<And>x y z. f (f x y) z = f x (f y z)" and "0 < r"
    and "length ls = 2 ^ r" and "length xs = 2 ^ r"
  shows "run_network bk_level (bk_depth (prefix_net r d)) (prefix_net r d) ls f [0..<nat (bk_depth (prefix_net r d))] xs
      = Some (group_scan d ((!) (in_dir d ls)) f xs)"
    and "\<not> d \<Longrightarrow> run_network hs_level (int (hs_depth (prefix_net r d))) (prefix_net r d) ls f [0..<hs_depth (prefix_net r d)] xs
      = Some (group_scan d ((!) (in_dir d ls)) f xs)"
proof -
  have sg: "segmented (2 ^ r) ((!) (in_dir d ls)) f" using assms(1,2) by unfold_locales
  have bk: "\<exists>va vb. level bk_level (bk_depth (prefix_net r d)) (prefix_net r d) l (2 ^ r) = Some (va, vb) \<and> shows_pairs d (2 ^ r) (bk_pairs r l) va vb \<and>
      distinct (map snd (bk_pairs r l)) \<and> (\<forall>(s, t) \<in> set (bk_pairs r l). s < 2 ^ r \<and> t < 2 ^ r)" if "l \<in> set [0..<2 * r - 1]" for l
    using level_shows_net [OF assms(3), of l d] that by (auto simp: level_shows_def)
  obtain ys where ys: "run_network bk_level (bk_depth (prefix_net r d)) (prefix_net r d) ls f [0..<2 * r - 1] xs = Some ys" "length ys = 2 ^ r"
    "in_dir d ys = foldl (\<lambda>ys l. agg_level ((!) (in_dir d ls)) f (bk_pairs r l) ys) (in_dir d xs) [0..<2 * r - 1]"
    using run_network_pairs [OF bk assms(4,5)] by blast
  have "in_dir d ys ! j = seg_scan ((!) (in_dir d ls)) f (in_dir d xs) j" if "j < 2 ^ r" for j
    unfolding ys(3) using segmented.bk_scan [OF sg refl assms(3) _ that] assms(5) by simp
  from scan_of_list [OF assms(4,5) ys(2) this]
  show "run_network bk_level (bk_depth (prefix_net r d)) (prefix_net r d) ls f [0..<nat (bk_depth (prefix_net r d))] xs
      = Some (group_scan d ((!) (in_dir d ls)) f xs)" using ys(1) by (simp only: bk_depth_net [OF assms(3)] nat_int)
  assume d: "\<not> d"
  have dep: "hs_depth (prefix_net r d) = r" using bit_width_power [OF assms(3)] by (simp add: hs_depth_def)
  have hs: "\<exists>va vb. level hs_level (int (hs_depth (prefix_net r d))) (prefix_net r d) l (2 ^ r) = Some (va, vb) \<and> shows_pairs d (2 ^ r) (hs_pairs r l) va vb \<and>
      distinct (map snd (hs_pairs r l)) \<and> (\<forall>(s, t) \<in> set (hs_pairs r l). s < 2 ^ r \<and> t < 2 ^ r)" if "l \<in> set [0..<r]" for l
    using hs_level_view(2) [of l r] that d dep
    by (auto simp: level_def hs_pairs_def distinct_map inj_on_def)
  obtain zs where zs: "run_network hs_level (int (hs_depth (prefix_net r d))) (prefix_net r d) ls f [0..<r] xs = Some zs" "length zs = 2 ^ r"
    "in_dir d zs = foldl (\<lambda>ys l. agg_level ((!) (in_dir d ls)) f (hs_pairs r l) ys) (in_dir d xs) [0..<r]"
    using run_network_pairs [OF hs assms(4,5)] by blast
  have "in_dir d zs ! j = seg_scan ((!) (in_dir d ls)) f (in_dir d xs) j" if "j < 2 ^ r" for j
    unfolding zs(3) using segmented.hs_scan [OF sg refl _ that] assms(5) by simp
  from scan_of_list [OF assms(4,5) zs(2) this]
  show "run_network hs_level (int (hs_depth (prefix_net r d))) (prefix_net r d) ls f [0..<hs_depth (prefix_net r d)] xs
      = Some (group_scan d ((!) (in_dir d ls)) f xs)" using zs(1) dep by simp
qed

end
