(* ===== verification/Plaintext_1PC.thy ===== *)
theory Plaintext_1PC
  imports Network_Proofs
begin

text \<open>
  The insecure one-party protocol (\<open>core/protocols/plaintext_1pc.h\<close>), the reference that other protocols are
  tested against: every operation acts on the plaintext and counts elements and rounds.  A sharing is
  the list of its only party's \<open>EVector\<close>.  Counters are maps from the names of the methods to 64-bit
  integers that wrap around.  The record \<open>protocol\<close> has no state for local methods, so a
  complement counts only where it is called directly.
\<close>

section \<open>Counters\<close>

type_synonym counter = "string \<rightharpoonup> 64 word"

record pt_state =
  op_counter :: counter
  mark_op_counter :: "string \<rightharpoonup> 64 word option"
  round_counter :: counter
  mark_round_counter :: "string \<rightharpoonup> 64 word option"

definition pt_new :: pt_state where
  "pt_new = \<lparr>op_counter = Map.empty, mark_op_counter = Map.empty, round_counter = Map.empty, mark_round_counter = Map.empty\<rparr>"

definition bump :: "string \<Rightarrow> 64 word \<Rightarrow> counter \<Rightarrow> counter" where
  "bump f x c = c(f \<mapsto> (case c f of None \<Rightarrow> 0 | Some v \<Rightarrow> v) + x)"

definition count_op :: "string \<Rightarrow> nat \<Rightarrow> pt_state \<Rightarrow> pt_state" where
  "count_op f x st = st\<lparr>op_counter := bump f (of_nat x) (op_counter st)\<rparr>"

definition count_round :: "string \<Rightarrow> pt_state \<Rightarrow> pt_state" where
  "count_round f st = st\<lparr>round_counter := bump f 1 (round_counter st)\<rparr>"

definition mark_statistics :: "pt_state \<Rightarrow> pt_state" where
  "mark_statistics st =
     st\<lparr>mark_op_counter := mark_op_counter st ++ (\<lambda>k. map_option Some (op_counter st k)),
        mark_round_counter := mark_round_counter st ++ (\<lambda>k. map_option Some (round_counter st k))\<rparr>"

definition clear_statistics :: "pt_state \<Rightarrow> pt_state" where
  "clear_statistics st = pt_new"

section \<open>Operations\<close>

definition pt_add_a :: "'a::len evec \<Rightarrow> 'a evec \<Rightarrow> pt_state \<Rightarrow> 'a evec \<times> pt_state" where
  "pt_add_a x y st = (evec_op (+) x y, count_op ''add_a'' (evec_size x) st)"

definition pt_sub_a :: "'a::len evec \<Rightarrow> 'a evec \<Rightarrow> pt_state \<Rightarrow> 'a evec \<times> pt_state" where
  "pt_sub_a x y st = (evec_op (-) x y, count_op ''sub_a'' (evec_size x) st)"

text \<open>The divisor is the \<open>int\<close> \<open>1 << precision\<close>, converted to the type of the data.\<close>

definition pt_truncate :: "'a::len evec \<Rightarrow> 'a evec option" where
  "pt_truncate x =
     (if 31 < prec x then None
      else let divisor = scast (push_bit (prec x) 1 :: 32 word) in
        if divisor = 0 then None
        else Some (x\<lparr>cols := (cols x)[0 := vec_elem_op sdiv_w (cols x ! 0) divisor]\<rparr>))"

definition pt_multiply_a :: "'a::len evec \<Rightarrow> 'a evec \<Rightarrow> pt_state \<Rightarrow> ('a evec \<times> pt_state) option" where
  "pt_multiply_a x y st = do {
     let z = evec_op (*) x y;
     let st = count_round ''multiply_a'' (count_op ''multiply_a'' (evec_size x) st);
     if prec x \<noteq> prec y then None
     else if 0 < prec x then do {
       z \<leftarrow> pt_truncate (matchPrecision z x);
       Some (z, st)
     }
     else Some (z, st)
   }"

definition pt_neg_a :: "'a::len evec \<Rightarrow> pt_state \<Rightarrow> 'a evec \<times> pt_state" where
  "pt_neg_a x st = (evec_unop uminus x, count_op ''neg_a'' (evec_size x) st)"

definition pt_div_const_a :: "'a::len evec \<Rightarrow> 'a word \<Rightarrow> pt_state \<Rightarrow> (('a evec \<times> 'a evec) \<times> pt_state) option" where
  "pt_div_const_a x c st =
     (if c = 0 then None
      else Some ((evec_elem_op sdiv_w x c, evec_elem_op (-) (evec_new 1 (evec_size x)) 1),
        count_round ''div_const_a'' (count_op ''div_const_a'' (evec_size x) st)))"

definition pt_dot_product_a :: "'a::len evec \<Rightarrow> 'a evec \<Rightarrow> nat \<Rightarrow> pt_state \<Rightarrow> 'a evec \<times> pt_state" where
  "pt_dot_product_a x y aggSize st =
     (apply_input_return (dot_product aggSize) x y,
      count_round ''dot_product_a'' (count_op ''dot_product_a'' (evec_size x) st))"

definition pt_xor_b :: "'a::len evec \<Rightarrow> 'a evec \<Rightarrow> pt_state \<Rightarrow> 'a evec \<times> pt_state" where
  "pt_xor_b x y st = (evec_op (XOR) x y, count_op ''xor_b'' (evec_size x) st)"

definition pt_and_b :: "'a::len evec \<Rightarrow> 'a evec \<Rightarrow> pt_state \<Rightarrow> 'a evec \<times> pt_state" where
  "pt_and_b x y st = (evec_op (AND) x y, count_round ''and_b'' (count_op ''and_b'' (evec_size x) st))"

definition pt_not_b :: "'a::len evec \<Rightarrow> pt_state \<Rightarrow> 'a evec \<times> pt_state" where
  "pt_not_b x st = (evec_unop NOT x, count_op ''not_b'' (evec_size x) st)"

definition pt_not_b_1 :: "'a::len evec \<Rightarrow> pt_state \<Rightarrow> 'a evec \<times> pt_state" where
  "pt_not_b_1 x st = (evec_unop lnot_w x, count_op ''not_b_1'' (evec_size x) st)"

definition pt_ltz :: "'a::len evec \<Rightarrow> pt_state \<Rightarrow> 'a evec \<times> pt_state" where
  "pt_ltz x st = (apply_return ltz_vec x, count_op ''ltz'' (evec_size x) st)"

definition pt_b2a_bit :: "'a::len evec \<Rightarrow> pt_state \<Rightarrow> 'a evec \<times> pt_state" where
  "pt_b2a_bit x st = (evec_elem_op (AND) x 1, count_round ''b2a_bit'' (count_op ''b2a_bit'' (evec_size x) st))"

definition pt_redistribute_shares_b :: "'a::len evec \<Rightarrow> pt_state \<Rightarrow> ('a evec \<times> 'a evec) \<times> pt_state" where
  "pt_redistribute_shares_b x st =
     ((x, evec_new 1 (evec_size x)),
      count_round ''redistribute_shares_b'' (count_op ''redistribute_shares_b'' (evec_size x) st))"

definition pt_reconstruct_from_a :: "'a::len evec list \<Rightarrow> 'a vec" where
  "pt_reconstruct_from_a sh = col 0 (sh ! 0)"

definition pt_reconstruct_from_b :: "'a::len evec list \<Rightarrow> 'a vec" where
  "pt_reconstruct_from_b sh = col 0 (sh ! 0)"

definition pt_unchecked_open_a :: "'a::len evec \<Rightarrow> pt_state \<Rightarrow> 'a vec \<times> pt_state" where
  "pt_unchecked_open_a sh st =
     (col 0 sh, count_round ''unchecked_open_a'' (count_op ''unchecked_open_a'' (evec_size sh) st))"

definition pt_unchecked_open_b :: "'a::len evec \<Rightarrow> pt_state \<Rightarrow> 'a vec \<times> pt_state" where
  "pt_unchecked_open_b sh st =
     (col 0 sh, count_round ''unchecked_open_b'' (count_op ''unchecked_open_b'' (evec_size sh) st))"

definition pt_get_shares_a :: "'a::len vec \<Rightarrow> 'a evec list" where
  "pt_get_shares_a data = [\<lparr>cols = [data], prec = 0\<rparr>]"

definition pt_get_shares_b :: "'a::len vec \<Rightarrow> 'a evec list" where
  "pt_get_shares_b data = [\<lparr>cols = [data], prec = 0\<rparr>]"

definition pt_secret_share_b_internal :: "'a::len vec \<Rightarrow> nat \<Rightarrow> pt_state \<Rightarrow> 'a evec \<times> pt_state" where
  "pt_secret_share_b_internal data data_party st =
     (pt_get_shares_b data ! 0,
      count_round ''secret_share_b_internal'' (count_op ''secret_share_b_internal'' (length data) st))"

definition pt_secret_share_a_internal :: "'a::len vec \<Rightarrow> nat \<Rightarrow> pt_state \<Rightarrow> 'a evec \<times> pt_state" where
  "pt_secret_share_a_internal data data_party st =
     (pt_get_shares_a data ! 0,
      count_round ''secret_share_a_internal'' (count_op ''secret_share_a_internal'' (length data) st))"

definition pt_public_share :: "'a::len vec \<Rightarrow> nat set \<Rightarrow> 'a evec" where
  "pt_public_share data who_knows = pt_get_shares_a data ! 0"

definition pt_reshare :: "'a::len evec \<Rightarrow> nat list \<Rightarrow> bool \<Rightarrow> pt_state \<Rightarrow> 'a evec \<times> pt_state" where
  "pt_reshare v grp binary st = (v, count_round ''reshare'' (count_op ''reshare'' (evec_size v) st))"

section \<open>The protocol object\<close>

definition single :: "'x \<times> pt_state \<Rightarrow> 'x list \<times> pt_state" where
  "single r = ([fst r], snd r)"

definition plaintext_1pc :: "('a::len, pt_state) protocol" where
  "plaintext_1pc =
     \<lparr>v_and_b = (\<lambda>X Y st. Some (single (pt_and_b (X ! 0) (Y ! 0) st))),
      v_not_b = (\<lambda>X. [fst (pt_not_b (X ! 0) pt_new)]),
      v_not_b_1 = (\<lambda>X. [fst (pt_not_b_1 (X ! 0) pt_new)]),
      v_multiply_a = (\<lambda>X Y st. map_option single (pt_multiply_a (X ! 0) (Y ! 0) st)),
      v_b2a_bit = (\<lambda>X st. Some (single (pt_b2a_bit (X ! 0) st))),
      v_redistribute_shares_b = (\<lambda>X st. case pt_redistribute_shares_b (X ! 0) st of ((u, v), st) \<Rightarrow> Some (([u], [v]), st)),
      v_div_const_a = (\<lambda>X c st. map_option (\<lambda>((u, v), st). (([u], [v]), st)) (pt_div_const_a (X ! 0) c st))\<rparr>"

section \<open>Correctness\<close>

definition pt_ok :: "pt_state \<Rightarrow> bool" where
  "pt_ok st \<longleftrightarrow> True"

lemma is_sharing_1E:
  assumes "is_sharing (Suc 0) (Suc 0) q m X"
  obtains x where "X = [\<lparr>cols = [x], prec = q\<rparr>]" and "length x = m"
  using assms by (elim is_sharingE) (auto simp: length_Suc_conv share_out_def)

lemma is_sharing_1 [simp]: "is_sharing (Suc 0) (Suc 0) q m [\<lparr>cols = [x], prec = q\<rparr>] \<longleftrightarrow> length x = m"
  by (auto simp: is_sharing_def share_out_def shares_def col_def)

lemma reveal_1 [simp]: "reveal_b [\<lparr>cols = [x], prec = q\<rparr>] = x" "reveal_a [\<lparr>cols = [x], prec = q\<rparr>] = x"
  by (auto simp: reveal_b_def reveal_a_def shares_def col_def evec_size_def vxor_all_def vadd_all_def intro!: vec_eqI)

interpretation pt: boolean_protocol "plaintext_1pc :: ('a::len, pt_state) protocol" 1 1 pt_ok
  by unfold_locales
    (auto elim!: is_sharing_1E simp: plaintext_1pc_def single_def pt_and_b_def pt_not_b_def evec_op_def evec_unop_def
      vec_op_def vec_unop_def pt_ok_def)

lemma sint_power:
  assumes "i < LENGTH('a) - 1"
  shows "sint (2 ^ i :: 'a::len word) = 2 ^ i"
proof -
  have "(2 :: int) ^ i < 2 ^ (LENGTH('a) - 1)" using assms by (intro power_strict_increasing) simp_all
  moreover have "- (2 ^ (LENGTH('a) - 1)) \<le> (2 :: int) ^ i" by (rule order.trans [of _ 0]) simp_all
  ultimately have "signed_take_bit (LENGTH('a) - 1) ((2 :: int) ^ i) = 2 ^ i" by (intro signed_take_bit_int_eq_self)
  then show ?thesis by (metis sint_sbintrunc' sint_uint word_of_int_2p)
qed

text \<open>The plaintext truncation rounds towards zero, where the secure ones round down.\<close>

lemma pt_multiply_correct:
  fixes x y :: "'a::len vec"
  assumes "length x = length y" and "q < 31" and "q < LENGTH('a) - 1"
  shows "\<exists>st'. v_multiply_a plaintext_1pc [\<lparr>cols = [x], prec = q\<rparr>] [\<lparr>cols = [y], prec = q\<rparr>] st =
    Some ([\<lparr>cols = [map2 (\<lambda>a b. word_of_int (sint (a * b) sdiv 2 ^ q)) x y], prec = q\<rparr>], st')"
proof -
  have d: "scast (2 ^ q :: 32 word) = (2 ^ q :: 'a word)"
  proof -
    have "sint (2 ^ q :: 32 word) = 2 ^ q" using assms(2) by (intro sint_power) simp
    then show ?thesis by (simp add: scast_eq word_of_int_2p)
  qed
  have s: "sint (2 ^ q :: 'a word) = 2 ^ q" by (rule sint_power [OF assms(3)])
  then have n: "(2 ^ q :: 'a word) \<noteq> 0" by (metis power_not_zero signed_0 zero_neq_numeral)
  show ?thesis
    using assms(2) n by (auto simp: plaintext_1pc_def single_def pt_multiply_a_def pt_truncate_def Let_def push_bit_eq_mult d sdiv_w_def s
        evec_op_def vec_op_def vec_elem_op_def matchPrecision_def intro!: vec_eqI)
qed

end
