(* ===== verification/Dishonest_Majority.thy ===== *)
theory Dishonest_Majority
  imports Permutation_Manager Elementwise Beaver_2PC
begin

text \<open>
  Permutation correlations of two parties (\<open>core/random/permutations/dm_sharded_permutation_generator.h\<close>, the generator
  \<open>dm_dummy.h\<close>, \<open>setup_dm_pair\<close> of \<open>permutation_manager.h\<close>) and their application (\<open>permute_and_share\<close> and its inverse in
  \<open>core/operators/shuffle.h\<close>).  A correlation gives each party a permutation and a part of \<open>pi(A) = B + C\<close>: the sender
  holds \<open>pi\<close> and \<open>C\<close>, the receiver \<open>A\<close> and \<open>B\<close>.  Correlations are generated at 128 bits and converted to the width of the
  data; a pointer to either kind is a sum.  The two parties run the same calls, so an object is the list of both parties' objects.
\<close>

section \<open>Correlations\<close>

record (overloaded) ('a, 's) dm_perm =
  dm_pi :: "nat list"
  dm_A :: "'a::len vec"
  dm_B :: "'a vec"
  dm_C :: "'a vec"
  dm_encoding :: bool
  dm_prg :: "'s prg option"

definition dm_perm_new :: "nat \<Rightarrow> ('a::len, 's) dm_perm" where
  "dm_perm_new n = \<lparr>dm_pi = replicate n 0, dm_A = replicate n 0, dm_B = replicate n 0, dm_C = replicate n 0,
     dm_encoding = True, dm_prg = None\<rparr>"

definition dm_size :: "('a::len, 's) dm_perm \<Rightarrow> nat" where
  "dm_size p = length (dm_pi p)"

definition dm_clone :: "('a::len, 's) dm_perm \<Rightarrow> ('a, 's) dm_perm" where
  "dm_clone p = p\<lparr>dm_prg := None\<rparr>"

text \<open>The conversion keeps the encoding and drops the generator; a 128-bit value is truncated, or sign-extended.\<close>

definition dm_perm_convert_type :: "('b::len, 's) dm_perm \<Rightarrow> ('a::len, 's) dm_perm" where
  "dm_perm_convert_type p = \<lparr>dm_pi = dm_pi p, dm_A = map scast (dm_A p), dm_B = map scast (dm_B p), dm_C = map scast (dm_C p),
     dm_encoding = dm_encoding p, dm_prg = None\<rparr>"

type_synonym ('a, 's) dm_object = "(128, 's) dm_perm list + ('a, 's) dm_perm list"

section \<open>The dummy generator\<close>

definition dm_common_perm :: "'s cipher \<Rightarrow> nat \<Rightarrow> 's manager \<Rightarrow> (nat list \<times> 's manager) option" where
  "dm_common_perm aes n m = do {
     all_prg \<leftarrow> get_group m [0, 1];
     (random_perm, g) \<leftarrow> gen_perm aes n (store m all_prg);
     Some (random_perm, m\<lparr>store := (store m)(all_prg := g)\<rparr>)
   }"

definition dm_getNextImpl ::
  "'s cipher \<Rightarrow> nat \<Rightarrow> nat list \<Rightarrow> nat list \<Rightarrow> (128, 's) dm_perm \<Rightarrow> 's manager \<Rightarrow> ((128, 's) dm_perm \<times> 's manager) option" where
  "dm_getNextImpl aes rk pi_0 pi_1 perm m = do {
     let n = dm_size perm;
     let all_prg = get_group m [0, 1];
     (A_0, m) \<leftarrow> draw aes all_prg n m;
     (B_0, m) \<leftarrow> draw aes all_prg n m;
     (A_1, m) \<leftarrow> draw aes all_prg n m;
     (B_1, m) \<leftarrow> draw aes all_prg n m;
     pi_A_0 \<leftarrow> local_apply_perm_single_threaded pi_0 A_0;
     pi_A_1 \<leftarrow> local_apply_perm_single_threaded pi_1 A_1;
     let C_0 = vec_op (XOR) pi_A_0 B_0;
     let C_1 = vec_op (XOR) pi_A_1 B_1;
     Some (if rk = 0 then perm\<lparr>dm_pi := pi_0, dm_A := A_1, dm_B := B_1, dm_C := C_0\<rparr>
           else perm\<lparr>dm_pi := pi_1, dm_A := A_0, dm_B := B_0, dm_C := C_1\<rparr>, m)
   }"

definition dm_from_common :: "'s cipher \<Rightarrow> (128, 's) dm_perm list \<Rightarrow> nat \<Rightarrow> 's manager \<Rightarrow> ((128, 's) dm_perm \<times> 's manager) option" where
  "dm_from_common aes perms rk m = do {
     (pi_0, m) \<leftarrow> dm_common_perm aes (dm_size (perms ! rk)) m;
     (pi_1, m) \<leftarrow> dm_common_perm aes (dm_size (perms ! rk)) m;
     dm_getNextImpl aes rk pi_0 pi_1 (perms ! rk) m
   }"

text \<open>The exchange of 32-bit permutations over the channels that carry shares: no share may be in flight, since it would be
  received in their place.\<close>

definition exchange_perms :: "nat list list \<Rightarrow> ('a::len, 's) world \<Rightarrow> (nat list list \<times> ('a, 's) world) option" where
  "exchange_perms perms w =
     (if chan w 0 1 \<noteq> [] \<or> chan w 1 0 \<noteq> [] then None
      else do {
        let v = (\<lparr>mgrs = mgrs w, chan = (\<lambda>_ _. []), bytes_sent = bytes_sent w\<rparr> :: (32, 's) world);
        (remote, v) \<leftarrow> exchangeShares 2 (map (map of_nat) perms) (map (\<lambda>p. replicate (length p) 0) perms) 1 1 v;
        remote \<leftarrow> those (map as_std_vector remote);
        Some (remote, w\<lparr>bytes_sent := bytes_sent v\<rparr>)
      })"

definition dm_from_keys ::
  "'s cipher \<Rightarrow> 's prg \<Rightarrow> 's prg \<Rightarrow> (128, 's) dm_perm list \<Rightarrow> ('a::len, 's) world \<Rightarrow> ((128, 's) dm_perm list \<times> ('a, 's) world) option" where
  "dm_from_keys aes g_0 g_1 perms w = do {
     (pi_0, g_0) \<leftarrow> gen_perm aes (dm_size (perms ! 0)) g_0;
     (pi_1, g_1) \<leftarrow> gen_perm aes (dm_size (perms ! 1)) g_1;
     (remote, w) \<leftarrow> exchange_perms [pi_0, pi_1] w;
     for_parties [0, 1] (\<lambda>p. if p = 0
       then dm_getNextImpl aes 0 pi_0 (remote ! 0) ((perms ! 0)\<lparr>dm_prg := Some g_0\<rparr>)
       else dm_getNextImpl aes 1 (remote ! 1) pi_1 ((perms ! 1)\<lparr>dm_prg := Some g_1\<rparr>)) w
   }"

text \<open>\<open>getNext\<close> in place; parties that disagree on whether there is a common generator are out of step.\<close>

definition dm_fill :: "'s cipher \<Rightarrow> (128, 's) dm_perm list \<Rightarrow> ('a::len, 's) world \<Rightarrow> ((128, 's) dm_perm list \<times> ('a, 's) world) option" where
  "dm_fill aes perms w =
     (case (dm_prg (perms ! 0), dm_prg (perms ! 1)) of
        (Some g_0, Some g_1) \<Rightarrow> dm_from_keys aes g_0 g_1 perms w
      | (None, None) \<Rightarrow> for_parties [0, 1] (dm_from_common aes perms) w
      | _ \<Rightarrow> None)"

definition dm_getNext :: "'s cipher \<Rightarrow> nat \<Rightarrow> ('a::len, 's) world \<Rightarrow> ((128, 's) dm_perm list \<times> ('a, 's) world) option" where
  "dm_getNext aes n w = dm_fill aes [dm_perm_new n, dm_perm_new n] w"

definition dm_allocate :: "nat \<Rightarrow> nat \<Rightarrow> ('a::len, 's) dm_object list" where
  "dm_allocate num_permutations size_permutation =
     replicate num_permutations (Inl [dm_perm_new size_permutation, dm_perm_new size_permutation])"

fun dm_generateBatch ::
  "'s cipher \<Rightarrow> ('a, 's) dm_object list \<Rightarrow> ('a::len, 's) world \<Rightarrow> (('a, 's) dm_object list \<times> ('a, 's) world) option" where
  "dm_generateBatch aes [] w = Some ([], w)"
| "dm_generateBatch aes (Inl perms # ret) w = do {
     (perms, w) \<leftarrow> dm_fill aes perms w;
     (ret, w) \<leftarrow> dm_generateBatch aes ret w;
     Some (Inl perms # ret, w)
   }"
| "dm_generateBatch aes (Inr perms # ret) w = None"

section \<open>Application\<close>

definition dm_add :: "bool \<Rightarrow> 'a::len vec \<Rightarrow> 'a vec \<Rightarrow> 'a vec" where
  "dm_add binary = vec_op (if binary then (XOR) else (+))"

definition dm_sub :: "bool \<Rightarrow> 'a::len vec \<Rightarrow> 'a vec \<Rightarrow> 'a vec" where
  "dm_sub binary = vec_op (if binary then (XOR) else (-))"

definition set_col0 :: "'a::len vec \<Rightarrow> 'a evec \<Rightarrow> 'a evec" where
  "set_col0 v x = x\<lparr>cols := (cols x)[0 := v]\<rparr>"

definition permute_and_share ::
  "nat \<Rightarrow> ('a::len, 's) dm_perm list \<Rightarrow> 'a sharing \<Rightarrow> ('a, 's) world \<Rightarrow> ('a sharing \<times> ('a, 's) world) option" where
  "permute_and_share send_party perm X w = do {
     let receiver = 1 - send_party;
     let r = perm ! receiver;
     let s = perm ! send_party;
     let blinded = dm_sub (dm_encoding r) (col 0 (X ! receiver)) (dm_A r);
     let w = sendShares 2 receiver blinded 1 w;
     let X_r = set_col0 (dm_B r) (X ! receiver);
     (delta, w) \<leftarrow> receiveShares 2 send_party (replicate (evec_size (X ! send_party)) 0) 1 w;
     delta \<leftarrow> local_apply_perm [] (dm_pi s) delta;
     let delta = dm_add (dm_encoding s) delta (dm_C s);
     X_s \<leftarrow> evec_apply_perm (dm_pi s) (X ! send_party);
     let X_s = set_col0 (dm_add (dm_encoding s) (col 0 X_s) delta) X_s;
     Some (X[receiver := X_r, send_party := X_s], w)
   }"

definition permute_and_share_inverse ::
  "nat \<Rightarrow> ('a::len, 's) dm_perm list \<Rightarrow> 'a sharing \<Rightarrow> ('a, 's) world \<Rightarrow> ('a sharing \<times> ('a, 's) world) option" where
  "permute_and_share_inverse send_party perm X w = do {
     let receiver = 1 - send_party;
     let r = perm ! receiver;
     let s = perm ! send_party;
     let blinded = dm_sub (dm_encoding r) (col 0 (X ! receiver)) (dm_B r);
     let w = sendShares 2 receiver blinded 1 w;
     let X_r = set_col0 (dm_A r) (X ! receiver);
     (delta, w) \<leftarrow> receiveShares 2 send_party (replicate (evec_size (X ! send_party)) 0) 1 w;
     let delta = dm_sub (dm_encoding s) delta (dm_C s);
     delta \<leftarrow> local_apply_inverse_perm (dm_pi s) delta;
     X_s \<leftarrow> evec_apply_inverse_perm (dm_pi s) (X ! send_party);
     let X_s = set_col0 (dm_add (dm_encoding s) (col 0 X_s) delta) X_s;
     Some (X[receiver := X_r, send_party := X_s], w)
   }"

definition dm_oblivious_apply_sharded_perm ::
  "('a::len, 's) dm_perm list \<Rightarrow> 'a sharing \<Rightarrow> ('a, 's) world \<Rightarrow> ('a sharing \<times> ('a, 's) world) option" where
  "dm_oblivious_apply_sharded_perm perm X w = do {
     (X, w) \<leftarrow> permute_and_share 0 perm X w;
     permute_and_share 1 perm X w
   }"

definition dm_oblivious_apply_inverse_sharded_perm ::
  "('a::len, 's) dm_perm list \<Rightarrow> 'a sharing \<Rightarrow> ('a, 's) world \<Rightarrow> ('a sharing \<times> ('a, 's) world) option" where
  "dm_oblivious_apply_inverse_sharded_perm perm X w = do {
     (X, w) \<leftarrow> permute_and_share_inverse 1 perm X w;
     permute_and_share_inverse 0 perm X w
   }"

end
