(* ===== verification/Full_Conversion.thy ===== *)
theory Full_Conversion
  imports Shared_Vectors Permutation_Proofs Replicated_3PC
begin

text \<open>
  \<open>BSharedVector::b2a\<close> (\<open>core/containers/b_shared_vector.h\<close>): the full-width conversion from boolean to arithmetic sharings.
  Every group of parties draws a common random vector and shares it publicly in both domains; the sum of the boolean masks is
  added with a binary adder and opened, and the sum of the arithmetic masks is subtracted again.  The
  engine's \<open>populateCommonRandom\<close>, \<open>public_share\<close> and \<open>open\<close> are arguments; the locale \<open>masking_protocol\<close> is what the conversion
  relies on.
\<close>

section \<open>The conversion\<close>

text \<open>The members of a group draw from its generator; a party outside leaves its vector zero.\<close>

definition populateCommonRandom ::
  "'s cipher \<Rightarrow> nat \<Rightarrow> nat list \<Rightarrow> nat \<Rightarrow> ('a::len, 's) world \<Rightarrow> ('a vec list \<times> ('a, 's) world) option" where
  "populateCommonRandom aes parties grp size_n =
     for_parties [0..<parties] (\<lambda>p m. if p \<in> set grp then draw aes (get_group m grp) size_n m else Some (replicate size_n 0, m))"

text \<open>Every party shares the vector it holds itself.\<close>

definition share_each :: "('a::len vec \<Rightarrow> 'a sharing option) \<Rightarrow> 'a vec list \<Rightarrow> 'a sharing option" where
  "share_each pub rs = those (map (\<lambda>p. pub (rs ! p) \<bind> (\<lambda>X. Some (X ! p))) [0..<length rs])"

primrec b2a_masks ::
  "('a::len, 'st) protocol \<Rightarrow> bool \<Rightarrow> (nat list \<Rightarrow> nat \<Rightarrow> 'st \<Rightarrow> ('a vec list \<times> 'st) option)
    \<Rightarrow> ('a vec \<Rightarrow> nat list \<Rightarrow> 'a sharing option) \<Rightarrow> nat \<Rightarrow> nat list list \<Rightarrow> 'a sharing \<Rightarrow> 'a sharing \<Rightarrow> 'st
    \<Rightarrow> (('a sharing \<times> 'a sharing) \<times> 'st) option" where
  "b2a_masks P use_rca common pub size_n [] a_re b_re st = Some ((a_re, b_re), st)"
| "b2a_masks P use_rca common pub size_n (g # gs) a_re b_re st = do {
     (myRandom, st) \<leftarrow> common g size_n st;
     a \<leftarrow> share_each (\<lambda>x. pub x g) myRandom;
     let a_re = add_a a_re a;
     b \<leftarrow> share_each (\<lambda>x. pub x g) myRandom;
     (b_re, st) \<leftarrow> b_plus use_rca P b_re b st;
     b2a_masks P use_rca common pub size_n gs a_re b_re st
   }"

definition b2a ::
  "('a::len, 'st) protocol \<Rightarrow> bool \<Rightarrow> (nat list \<Rightarrow> nat \<Rightarrow> 'st \<Rightarrow> ('a vec list \<times> 'st) option)
    \<Rightarrow> ('a vec \<Rightarrow> nat list \<Rightarrow> 'a sharing option) \<Rightarrow> ('a sharing \<Rightarrow> 'st \<Rightarrow> ('a vec list \<times> 'st) option)
    \<Rightarrow> nat list list \<Rightarrow> 'a sharing \<Rightarrow> 'st \<Rightarrow> ('a sharing \<times> 'st) option" where
  "b2a P use_rca common pub open_b groups x st = do {
     let zeros = p_setPrecision 0 (p_construct_like x (sh_size x));
     let current_precision = prec (x ! 0);
     ((a_re, b_re), st) \<leftarrow> b2a_masks P use_rca common pub (sh_size x) groups zeros zeros st;
     let b_re = p_setPrecision current_precision b_re;
     (masked, st) \<leftarrow> b_plus use_rca P x b_re st;
     (z, st) \<leftarrow> open_b masked st;
     let a_re = neg_a a_re;
     z \<leftarrow> share_each (\<lambda>x. pub x []) z;
     let a_re = add_a a_re z;
     Some (p_setPrecision current_precision a_re, st)
   }"

section \<open>Correctness\<close>

lemma neg_sharing:
  assumes "is_sharing n k q m X" and "0 < k" and "0 < n"
  shows "is_sharing n k q m (neg_a X)" and "reveal_a (neg_a X) = map uminus (reveal_a X)"
proof -
  from assms(1) obtain xs where xs: "X = share_out k q xs" "length xs = n" "\<forall>x \<in> set xs. length x = m"
    by (elim is_sharingE)
  have e: "neg_a X = share_out k q (map (map uminus) xs)"
    unfolding neg_a_def xs(1) evec_unop_def vec_unop_def by (rule map_share_out) simp
  have "vadd_all m (map (map uminus) ys) = map uminus (vadd_all m ys)" if "\<forall>y \<in> set ys. length y = m" for ys :: "'a vec list"
    using that by (induction ys) (auto simp: vadd_all_def vadd_def intro!: nth_equalityI)
  then show "is_sharing n k q m (neg_a X)" "reveal_a (neg_a X) = map uminus (reveal_a X)"
    unfolding e using xs assms(2,3) by (auto simp: is_sharing_share_out reveal_a_share_out [where m = m])
qed

lemma construct_reveal_a:
  assumes "is_sharing n k q m X" and "0 < k" and "0 < n"
  shows "reveal_a (p_construct_like X s) = replicate s 0"
proof -
  from assms(1) obtain xs where xs: "X = share_out k q xs" "length xs = n" by (elim is_sharingE)
  have e: "p_construct_like X s = share_out k q (map (\<lambda>_. replicate s 0) xs)"
    unfolding p_construct_like_def xs(1) by (rule construct_like_share_out)
  have "vadd_all s (map (\<lambda>_. replicate s 0) ys) = replicate s 0" for ys :: "'b list"
    by (induction ys) (auto simp: vadd_all_def vadd_def intro: nth_equalityI)
  then show ?thesis unfolding e using assms xs by (subst reveal_a_share_out [where m = s]) auto
qed

text \<open>Without groups the mask is zero, and the vector that is opened is a sharing of the secret.\<close>

context boolean_protocol
begin

lemma b2a_without_groups:
  assumes ok: "ok st" and X: "is_sharing n k q m X"
  shows "\<exists>masked st1 finish. is_sharing n k q m masked \<and> reveal_b masked = reveal_b X \<and>
    (\<forall>open_b. b2a P use_rca common pub open_b [] X st = open_b masked st1 \<bind> finish)"
proof -
  have sz: "sh_size X = m" "prec (X ! 0) = q"
    using X pos by (auto simp: sh_size_def is_sharing_size elim!: is_sharingE simp: nth_share_out)
  let ?z = "p_setPrecision 0 (p_construct_like X m)"
  note c = construct_sharing [OF X pos, of m]
  note z = setPrecision_sharing [OF c(1) pos, of 0]
  note b = setPrecision_sharing [OF z(1) pos, of q]
  obtain S st1 where S: "b_plus use_rca P X (p_setPrecision q ?z) st = Some (S, st1)" "is_sharing n k q m S"
    "reveal_b S = map2 (+) (reveal_b X) (reveal_b (p_setPrecision q ?z))"
    using binary_adder_correct [OF ok X b(1), of use_rca False] by (auto simp: b_plus_def)
  have "reveal_b S = reveal_b X" unfolding S(3) b(2) z(2) c(2) using X pos by (intro nth_equalityI) simp_all
  moreover have "b2a P use_rca common pub open_b [] X st = open_b S st1 \<bind> (\<lambda>(z, st). do {
      z \<leftarrow> share_each (\<lambda>x. pub x []) z;
      Some (p_setPrecision q (add_a (neg_a ?z) z), st)
    })" for open_b
    using S(1) sz by (simp add: b2a_def Let_def)
  ultimately show ?thesis using S(2) by blast
qed

end

locale masking_protocol = boolean_protocol P n k ok
  for P :: "('a::len, 'st) protocol" and n k :: nat and ok :: "'st \<Rightarrow> bool" +
  fixes common :: "nat list \<Rightarrow> nat \<Rightarrow> 'st \<Rightarrow> ('a vec list \<times> 'st) option" and pub :: "'a vec \<Rightarrow> nat list \<Rightarrow> 'a sharing option"
    and open_b :: "'a sharing \<Rightarrow> 'st \<Rightarrow> ('a vec list \<times> 'st) option" and groups :: "nat list list"
  assumes common_law: "g \<in> set groups \<Longrightarrow> ok st \<Longrightarrow> \<exists>rs st' A r. common g m st = Some (rs, st') \<and> ok st' \<and>
      share_each (\<lambda>x. pub x g) rs = Some A \<and> is_sharing n k 0 m A \<and> reveal_a A = r \<and> reveal_b A = r"
    and public_law: "\<exists>A. pub x [] = Some A \<and> is_sharing n k 0 (length x) A \<and> reveal_a A = x"
    and open_law: "ok st \<Longrightarrow> is_sharing n k q m X \<Longrightarrow> \<exists>st'. open_b X st = Some (replicate n (reveal_b X), st') \<and> ok st'"
begin

lemma plus_correct:
  assumes "ok st" and "is_sharing n k q m X" and "is_sharing n k q m Y"
  shows "\<exists>R st'. b_plus use_rca P X Y st = Some (R, st') \<and> ok st' \<and> is_sharing n k q m R \<and>
    reveal_b R = map2 (+) (reveal_b X) (reveal_b Y)"
  using binary_adder_correct [OF assms, of use_rca False] by (simp add: b_plus_def)

lemma masks_correct:
  assumes "ok st" and "is_sharing n k 0 m a" and "is_sharing n k 0 m b" and "reveal_a a = r" and "reveal_b b = r" and "set gs \<subseteq> set groups"
  shows "\<exists>a' b' st' r'. b2a_masks P use_rca common pub m gs a b st = Some ((a', b'), st') \<and> ok st' \<and>
    is_sharing n k 0 m a' \<and> is_sharing n k 0 m b' \<and> reveal_a a' = r' \<and> reveal_b b' = r'"
  using assms
proof (induction gs arbitrary: a b r st)
  case (Cons g gs)
  obtain rs st1 A where A: "common g m st = Some (rs, st1)" "ok st1" "share_each (\<lambda>x. pub x g) rs = Some A"
    "is_sharing n k 0 m A" "reveal_a A = reveal_b A" using common_law [of g st m] Cons.prems by auto
  note s = add_sharing [OF Cons.prems(2) A(4) pos]
  obtain B st2 where B: "b_plus use_rca P b A st1 = Some (B, st2)" "ok st2" "is_sharing n k 0 m B"
    "reveal_b B = map2 (+) (reveal_b b) (reveal_b A)"
    using plus_correct [OF A(2) Cons.prems(3) A(4), of use_rca] by blast
  have "reveal_a (add_a a A) = reveal_b B" using B(4) s(2) A(5) Cons.prems(4,5) by (simp add: vadd_def)
  from Cons.IH [OF B(2) s(1) B(3) this refl] Cons.prems(6) show ?case using A(1,3) B(1) by simp
qed auto

theorem b2a_correct:
  assumes ok: "ok st" and X: "is_sharing n k q m X"
  shows "\<exists>R st'. b2a P use_rca common pub open_b groups X st = Some (R, st') \<and> ok st' \<and> is_sharing n k q m R \<and> reveal_a R = reveal_b X"
proof -
  have sz: "sh_size X = m" "prec (X ! 0) = q"
    using X pos by (auto simp: sh_size_def is_sharing_size elim!: is_sharingE simp: nth_share_out)
  let ?z = "p_setPrecision 0 (p_construct_like X m)"
  note c = construct_sharing [OF X pos, of m]
  note z = setPrecision_sharing [OF c(1) pos, of 0]
  have za: "reveal_a (p_construct_like X m) = replicate m 0" by (rule construct_reveal_a [OF X pos])
  obtain a b st1 r where M: "b2a_masks P use_rca common pub m groups ?z ?z st = Some ((a, b), st1)" "ok st1"
    "is_sharing n k 0 m a" "is_sharing n k 0 m b" "reveal_a a = r" "reveal_b b = r"
    using masks_correct [OF ok z(1) z(1), of "replicate m 0" groups use_rca] z(2,3) c(2) za by auto
  note b' = setPrecision_sharing [OF M(4) pos, of q]
  obtain S st2 where S: "b_plus use_rca P X (p_setPrecision q b) st1 = Some (S, st2)" "ok st2" "is_sharing n k q m S"
    "reveal_b S = map2 (+) (reveal_b X) (reveal_b (p_setPrecision q b))"
    using plus_correct [OF M(2) X b'(1), of use_rca] by blast
  obtain st3 where o: "open_b S st2 = Some (replicate n (reveal_b S), st3)" "ok st3" using open_law [OF S(2,3)] by blast
  have lS: "length (reveal_b S) = m" using S(3) pos by simp
  obtain Z where Z: "pub (reveal_b S) [] = Some Z" "is_sharing n k 0 m Z" "reveal_a Z = reveal_b S"
    using public_law [of "reveal_b S"] lS by auto
  have "map (\<lambda>p. pub (replicate n (reveal_b S) ! p) [] \<bind> (\<lambda>X. Some (X ! p))) [0..<n] = map (\<lambda>p. Some (Z ! p)) [0..<n]"
    using Z(1) by simp
  then have "share_each (\<lambda>x. pub x []) (replicate n (reveal_b S)) = Some (map ((!) Z) [0..<n])"
    unfolding share_each_def length_replicate by (simp only: those_Some)
  also have "map ((!) Z) [0..<n] = Z" using map_nth [of Z] is_sharing_length [OF Z(2)] by simp
  finally have e: "share_each (\<lambda>x. pub x []) (replicate n (reveal_b S)) = Some Z" .
  note na = neg_sharing [OF M(3) pos]
  note s = add_sharing [OF na(1) Z(2) pos]
  note R = setPrecision_sharing [OF s(1) pos, of q]
  have "reveal_a (p_setPrecision q (add_a (neg_a a) Z)) = reveal_b X"
    unfolding R(3) s(2) na(2) Z(3) S(4) b'(2) M(5,6)
    using X M(3,5) pos by (intro nth_equalityI) (auto simp: vadd_def)
  then show ?thesis using M(1) S(1) o e R(1) sz by (auto simp: b2a_def Let_def)
qed

end

end
