(* ===== verification/Dishonest_Engine.thy ===== *)
theory Dishonest_Engine
  imports Dishonest_Majority Full_Conversion Setup Protocol_Base
begin

text \<open>
  The two-party engine behind the permutation manager: conversion of correlations to arithmetic shares
  (\<open>dm_perm_convert_b2a\<close>, with the secure conversion of a build with libOTe or with \<open>insecure_b2a\<close>), keys for pairs, the generator as the manager's
  interface, and the operators' interface over it.  The state adds to the protocol's the number of keys drawn; \<open>fresh\<close> yields the
  key that a party draws in a call.
\<close>

record (overloaded) ('a, 's) dm_state =
  dm_bv :: "('a::len, 's) beaver_state"
  seed_calls :: nat

definition on_bv ::
  "(('a::len, 's) beaver_state \<Rightarrow> ('x \<times> ('a, 's) beaver_state) option) \<Rightarrow> ('a, 's) dm_state \<Rightarrow> ('x \<times> ('a, 's) dm_state) option" where
  "on_bv f st = do { (x, b) \<leftarrow> f (dm_bv st); Some (x, st\<lparr>dm_bv := b\<rparr>) }"

definition on_net ::
  "(('a::len, 's) world \<Rightarrow> ('x \<times> ('a, 's) world) option) \<Rightarrow> ('a, 's) dm_state \<Rightarrow> ('x \<times> ('a, 's) dm_state) option" where
  "on_net f = on_bv (\<lambda>b. do { (x, w) \<leftarrow> f (net b); Some (x, b\<lparr>net := w\<rparr>) })"

section \<open>Keys for a pair\<close>

definition with_seeds :: "'s list \<Rightarrow> (128, 's) dm_perm list \<Rightarrow> (128, 's) dm_perm list" where
  "with_seeds seeds = map2 (\<lambda>sd p. p\<lparr>dm_prg := Some (new_prg sd)\<rparr>) seeds"

definition setup_dm_pair ::
  "(nat \<Rightarrow> nat \<Rightarrow> 's) \<Rightarrow> ('a::len, 's) dm_object \<Rightarrow> ('a, 's) dm_object \<Rightarrow> ('a, 's) dm_state
    \<Rightarrow> ((('a, 's) dm_object \<times> ('a, 's) dm_object) \<times> ('a, 's) dm_state) option" where
  "setup_dm_pair fresh p q st =
     (case (p, q) of
        (Inl p, Inl q) \<Rightarrow>
          let seeds = map (fresh (seed_calls st)) [0, 1]
          in Some ((Inl (with_seeds seeds p), Inl (with_seeds seeds q)), st\<lparr>seed_calls := seed_calls st + 1\<rparr>)
      | _ \<Rightarrow> None)"

section \<open>Conversion to arithmetic shares\<close>

definition insecure_b2a ::
  "('a::len sharing \<Rightarrow> 'st \<Rightarrow> ('a vec list \<times> 'st) option) \<Rightarrow> 'a sharing \<Rightarrow> 'st \<Rightarrow> ('a sharing \<times> 'st) option" where
  "insecure_b2a open_b X st = do {
     (opened, st) \<leftarrow> open_b X st;
     let a = p_setPrecision (prec (X ! 0)) (p_construct_like X (sh_size X));
     Some (a[0 := set_col0 (opened ! 0) (a ! 0)], st)
   }"

definition bv_b2a ::
  "'s cipher \<Rightarrow> 'a::len ole_source \<Rightarrow> bool \<Rightarrow> bool \<Rightarrow> 'a sharing \<Rightarrow> ('a, 's) beaver_state
    \<Rightarrow> ('a sharing \<times> ('a, 's) beaver_state) option" where
  "bv_b2a aes ole wan use_rca =
     b2a (beaver_2pc aes ole wan) use_rca
       (\<lambda>grp size_n b. do { (v, w) \<leftarrow> populateCommonRandom aes 2 grp size_n (net b); Some (v, b\<lparr>net := w\<rparr>) })
       (\<lambda>x who_knows. Some (bv_public_share x who_knows)) bv_unchecked_open_b (getGroups 2)"

text \<open>Party 0's \<open>B\<close> belongs with party 1's \<open>C\<close>, and the other way round.\<close>

definition dm_perm_convert_b2a ::
  "('a::len sharing \<Rightarrow> 'st \<Rightarrow> ('a sharing \<times> 'st) option) \<Rightarrow> ('a, 's) dm_perm list \<Rightarrow> 'st
    \<Rightarrow> (('a, 's) dm_perm list \<times> 'st) option" where
  "dm_perm_convert_b2a conv perm st = do {
     let B_binary = two_party_sharing (dm_B (perm ! 0)) (dm_C (perm ! 1));
     let C_binary = two_party_sharing (dm_C (perm ! 0)) (dm_B (perm ! 1));
     (B_arithmetic, st) \<leftarrow> conv B_binary st;
     (C_arithmetic, st) \<leftarrow> conv C_binary st;
     Some ([\<lparr>dm_pi = dm_pi (perm ! 0), dm_A = dm_A (perm ! 0), dm_B = col 0 (B_arithmetic ! 0), dm_C = col 0 (C_arithmetic ! 0),
              dm_encoding = False, dm_prg = None\<rparr>,
            \<lparr>dm_pi = dm_pi (perm ! 1), dm_A = dm_A (perm ! 1), dm_B = col 0 (C_arithmetic ! 1), dm_C = col 0 (B_arithmetic ! 1),
              dm_encoding = False, dm_prg = None\<rparr>], st)
   }"

definition dm_convert ::
  "'s cipher \<Rightarrow> 'a::len ole_source \<Rightarrow> bool \<Rightarrow> bool \<Rightarrow> bool \<Rightarrow> bool \<Rightarrow> ('a, 's) dm_object \<Rightarrow> ('a, 's) dm_state
    \<Rightarrow> (('a, 's) dm_object \<times> ('a, 's) dm_state) option" where
  "dm_convert aes ole wan use_rca use_libote enc p st =
     (case p of
        Inl perm \<Rightarrow>
          let perm = map dm_perm_convert_type perm
          in if enc then Some (Inr perm, st)
             else do {
               (perm, st) \<leftarrow> on_bv (dm_perm_convert_b2a
                 (if use_libote then bv_b2a aes ole wan use_rca else insecure_b2a bv_unchecked_open_b) perm) st;
               Some (Inr perm, st)
             }
      | Inr perm \<Rightarrow> None)"

section \<open>The manager's and the operators' interface\<close>

definition dm_generator ::
  "'s cipher \<Rightarrow> (nat \<Rightarrow> nat \<Rightarrow> 's) \<Rightarrow> 'a::len ole_source \<Rightarrow> bool \<Rightarrow> bool \<Rightarrow> bool
    \<Rightarrow> (('a, 's) dm_object, ('a, 's) dm_state) perm_generator" where
  "dm_generator aes fresh ole wan use_rca use_libote =
     \<lparr>g_getNext = (\<lambda>n. on_net (\<lambda>w. do { (p, w) \<leftarrow> dm_getNext aes n w; Some (Inl p, w) })),
      g_allocate = dm_allocate,
      g_setup_pair = setup_dm_pair fresh,
      g_generateBatch = (\<lambda>ps. on_net (dm_generateBatch aes ps)),
      g_convert = dm_convert aes ole wan use_rca use_libote,
      g_size = (\<lambda>p. case p of Inl perm \<Rightarrow> dm_size (perm ! 0) | Inr perm \<Rightarrow> dm_size (perm ! 0)),
      g_clone = map_sum (map dm_clone) (map dm_clone)\<rparr>"

type_synonym ('a, 's) shuffle_state_2 = "('a, 's) dm_state \<times> ('a, 's) dm_object perm_manager"

definition on_dm ::
  "(('a::len, 's) dm_state \<Rightarrow> ('x \<times> ('a, 's) dm_state) option) \<Rightarrow> ('a, 's) shuffle_state_2 \<Rightarrow> ('x \<times> ('a, 's) shuffle_state_2) option" where
  "on_dm f st = do { (x, d) \<leftarrow> f (fst st); Some (x, (d, snd st)) }"

definition dm_shuffler ::
  "'s cipher \<Rightarrow> (nat \<Rightarrow> nat \<Rightarrow> 's) \<Rightarrow> 'a::len ole_source \<Rightarrow> bool \<Rightarrow> bool \<Rightarrow> bool
    \<Rightarrow> ('a, ('a, 's) dm_object, ('a, 's) shuffle_state_2) shuffler" where
  "dm_shuffler aes fresh ole wan use_rca use_libote =
     (let pgen = dm_generator aes fresh ole wan use_rca use_libote in
      \<lparr>s_getNext = (\<lambda>size_n enc st. do {
         (p, pm, d) \<leftarrow> pm_getNext pgen 2 size_n enc (snd st) (fst st);
         Some (p, (d, pm)) }),
       s_getNextPair = (\<lambda>size_n enc1 enc2 st. do {
         (p, pm, d) \<leftarrow> pm_getNextPair pgen 2 size_n enc1 enc2 (snd st) (fst st);
         Some (p, (d, pm)) }),
       s_apply = (\<lambda>binary pi X. case pi of Inl p \<Rightarrow> (\<lambda>st. None) | Inr p \<Rightarrow> on_dm (on_net (dm_oblivious_apply_sharded_perm p X))),
       s_apply_inverse = (\<lambda>binary pi X. case pi of Inl p \<Rightarrow> (\<lambda>st. None) | Inr p \<Rightarrow> on_dm (on_net (dm_oblivious_apply_inverse_sharded_perm p X))),
       s_open = (\<lambda>binary X. on_dm (on_bv (if binary then bv_unchecked_open_b X else bv_unchecked_open_a X))),
       s_public_share = (\<lambda>x. Some (bv_public_share x [])),
       s_reserve = (\<lambda>size_n num_permutations num_pairs st. do {
         (pm, d) \<leftarrow> reserve pgen 2 size_n num_permutations num_pairs (snd st) (fst st);
         Some ((), (d, pm)) })\<rparr>)"

definition shuffle_2pc :: "'s cipher \<Rightarrow> 'a::len ole_source \<Rightarrow> bool \<Rightarrow> ('a, ('a, 's) shuffle_state_2) protocol" where
  "shuffle_2pc aes ole wan =
     \<lparr>v_and_b = (\<lambda>X Y. on_dm (on_bv (bv_and_b ole wan X Y))), v_not_b = bv_not_b, v_not_b_1 = bv_not_b_1,
      v_multiply_a = (\<lambda>X Y. on_dm (on_bv (bv_multiply_a ole wan X Y))),
      v_b2a_bit = (\<lambda>X. on_dm (on_bv (bv_b2a_bit ole wan X))),
      v_redistribute_shares_b = (\<lambda>X. on_dm (on_bv (bv_redistribute_shares_b aes X))),
      v_div_const_a = (\<lambda>X c. on_dm (on_bv (bv_div_const_a X c)))\<rparr>"

text \<open>With two parties an elementwise permutation is converted directly, without hiding it behind a random one.\<close>

definition elem_b2a_2 ::
  "('a::len sharing \<Rightarrow> 'st \<Rightarrow> ('a sharing \<times> 'st) option) \<Rightarrow> 'a elem_perm \<Rightarrow> 'st \<Rightarrow> ('a elem_perm \<times> 'st) option" where
  "elem_b2a_2 conv p st =
     (if \<not> encoding p then None
      else do {
        (a, st) \<leftarrow> conv (sharedVector p) st;
        Some (p\<lparr>sharedVector := a, encoding := False\<rparr>, st)
      })"

end
