(* ===== verification/Dishonest_Proofs.thy ===== *)
theory Dishonest_Proofs
  imports Dishonest_Majority Shuffle_Generation Elementwise_Proofs Beaver_2PC_Proofs
begin

text \<open>
  Correlations of two parties are correct: what the dummy generator produces satisfies \<open>pi(A) = B + C\<close> for both directions, a
  pair with common keys is one permutation, conversion of the width keeps the relation, and applying a correlation permutes the secret
  while the inverse restores it.
\<close>

section \<open>The relation\<close>

definition correlated :: "bool \<Rightarrow> nat \<Rightarrow> nat list \<Rightarrow> nat list \<Rightarrow> ('a::len, 's) dm_perm list \<Rightarrow> bool" where
  "correlated enc m pi_0 pi_1 p \<longleftrightarrow> length p = 2 \<and> is_perm m pi_0 \<and> is_perm m pi_1 \<and>
     (\<forall>r < 2. dm_encoding (p ! r) = enc \<and> length (dm_A (p ! r)) = m \<and> length (dm_B (p ! r)) = m \<and> length (dm_C (p ! r)) = m) \<and>
     dm_pi (p ! 0) = pi_0 \<and> dm_pi (p ! 1) = pi_1 \<and>
     permute pi_0 (dm_A (p ! 1)) = dm_add enc (dm_B (p ! 1)) (dm_C (p ! 0)) \<and>
     permute pi_1 (dm_A (p ! 0)) = dm_add enc (dm_B (p ! 0)) (dm_C (p ! 1))"

lemma dm_vec [simp]:
  "length x = m \<Longrightarrow> length y = m \<Longrightarrow> length (dm_add b x y) = m"
  "length x = m \<Longrightarrow> length y = m \<Longrightarrow> length (dm_sub b x y) = m"
  "j < length x \<Longrightarrow> j < length y \<Longrightarrow> dm_add b x y ! j = (if b then x ! j XOR y ! j else x ! j + y ! j)"
  "j < length x \<Longrightarrow> j < length y \<Longrightarrow> dm_sub b x y ! j = (if b then x ! j XOR y ! j else x ! j - y ! j)"
  by (simp_all add: dm_add_def dm_sub_def vec_op_def)

lemma scast_xor: "(scast (x XOR y :: 'b::len word) :: 'a::len word) = scast x XOR scast y"
  by (rule bit_word_eqI) (auto simp: bit_signed_iff bit_xor_iff)

lemma correlated_convert:
  fixes p :: "('b::len, 's) dm_perm list"
  assumes "correlated True m pi_0 pi_1 p"
  shows "correlated True m pi_0 pi_1 (map dm_perm_convert_type p :: ('a::len, 's) dm_perm list)"
proof -
  have x: "dm_add True (map scast u :: 'a vec) (map scast v) = map scast (dm_add True u v)" if "length u = length v" for u v :: "'b vec"
    using that by (intro nth_equalityI) (simp_all add: dm_add_def vec_op_def scast_xor)
  have q: "permute pi (map scast u :: 'a vec) = map scast (permute pi u)" if "is_perm m pi" "length u = m" for pi and u :: "'b vec"
    by (rule permute_map [OF that])
  show ?thesis using assms by (simp add: correlated_def dm_perm_convert_type_def x q less_2_cases_iff)
qed

section \<open>Generation\<close>

lemma dm_impl_run:
  fixes perm :: "(128, 's) dm_perm"
  assumes "cipher_ok TYPE(128) aes" and "group_prg_ok [0, 1] g m" and "dm_size perm = n" and p: "is_perm n pi_0" "is_perm n pi_1"
  shows "\<exists>A_0 B_0 A_1 B_1 C_0 C_1 g'. (\<forall>rk perm m. group_prg_ok [0, 1] g m \<longrightarrow> dm_size perm = n \<longrightarrow>
      dm_getNextImpl aes rk pi_0 pi_1 (perm :: (128, 's) dm_perm) m =
        Some (if rk = 0 then perm\<lparr>dm_pi := pi_0, dm_A := A_1, dm_B := B_1, dm_C := C_0\<rparr>
              else perm\<lparr>dm_pi := pi_1, dm_A := A_0, dm_B := B_0, dm_C := C_1\<rparr>, m\<lparr>store := (store m)(GroupPRG [0, 1] := g')\<rparr>)) \<and>
    length A_0 = n \<and> length B_0 = n \<and> length A_1 = n \<and> length B_1 = n \<and>
    C_0 = vec_op (XOR) (permute pi_0 A_0) B_0 \<and> C_1 = vec_op (XOR) (permute pi_1 A_1) B_1"
proof -
  let ?adv = "adv TYPE(128) aes n"
  let ?r = "\<lambda>i. rnd aes n ((?adv ^^ i) g) :: 128 vec"
  have l: "length (?r i) = n" for i using assms(1) by simp
  have "dm_getNextImpl aes rk pi_0 pi_1 (perm :: (128, 's) dm_perm) m =
        Some (if rk = 0 then perm\<lparr>dm_pi := pi_0, dm_A := ?r 2, dm_B := ?r 3, dm_C := vec_op (XOR) (permute pi_0 (?r 0)) (?r 1)\<rparr>
              else perm\<lparr>dm_pi := pi_1, dm_A := ?r 0, dm_B := ?r 1, dm_C := vec_op (XOR) (permute pi_1 (?r 2)) (?r 3)\<rparr>,
          m\<lparr>store := (store m)(GroupPRG [0, 1] := (?adv ^^ 4) g)\<rparr>)"
    if "group_prg_ok [0, 1] g m" "dm_size perm = n" for rk perm m
  proof -
    have s: "local_apply_perm_single_threaded pi_0 (?r 0) = Some (permute pi_0 (?r 0))"
      "local_apply_perm_single_threaded pi_1 (?r 2) = Some (permute pi_1 (?r 2))"
      by (rule single_threaded_permute [OF p(1) l], rule single_threaded_permute [OF p(2) l])
    show ?thesis using that s
      by (simp add: dm_getNextImpl_def group_prg_ok_def get_group_def draw_Some [OF assms(1)] numeral_eq_Suc Let_def)
  qed
  then show ?thesis using l [of 0] l [of 1] l [of 2] l [of 3]
    by - (rule exI [of _ "?r 0"], rule exI [of _ "?r 1"], rule exI [of _ "?r 2"], rule exI [of _ "?r 3"], rule exI, rule exI,
        rule exI [of _ "(?adv ^^ 4) g"], intro conjI allI impI, assumption?, simp_all)
qed

lemma two_managers:
  assumes "length ms = 2" and "\<forall>p < 2. group_prg_ok [0, 1] g (ms ! p)"
  obtains m0 m1 where "ms = [m0, m1]" and "group_prg_ok [0, 1] g m0" and "group_prg_ok [0, 1] g m1"
proof -
  from assms(1) obtain m0 m1 where "ms = [m0, m1]" by (metis length_0_conv length_Suc_conv numeral_2_eq_2)
  then show thesis using assms(2) that by (auto simp: less_2_cases_iff)
qed

definition common_only :: "'s manager list \<Rightarrow> 's manager list \<Rightarrow> bool" where
  "common_only ms ms' \<longleftrightarrow> (\<exists>g. ms' = map (\<lambda>m. m\<lparr>store := (store m)(GroupPRG [0, 1] := g)\<rparr>) ms)"

definition dm_synced :: "'s manager list \<Rightarrow> bool" where
  "dm_synced ms \<longleftrightarrow> length ms = 2 \<and> (\<exists>g. \<forall>p < 2. group_prg_ok [0, 1] g (ms ! p))"

lemma group_prg_store [simp]:
  "group_prg_ok grp g (m\<lparr>store := (store m)(GroupPRG grp := g')\<rparr>) \<longleftrightarrow> get_group m grp = Some (GroupPRG grp) \<and> g = g'"
  by (auto simp: group_prg_ok_def get_group_def)

lemma common_advanced:
  assumes "group_prg_ok [0, 1] g m0" and "group_prg_ok [0, 1] g m1"
  shows "dm_synced [m0\<lparr>store := (store m0)(GroupPRG [0, 1] := g')\<rparr>, m1\<lparr>store := (store m1)(GroupPRG [0, 1] := g')\<rparr>]"
    and "common_only [m0, m1] [m0\<lparr>store := (store m0)(GroupPRG [0, 1] := g')\<rparr>, m1\<lparr>store := (store m1)(GroupPRG [0, 1] := g')\<rparr>]"
  using assms by (auto simp: dm_synced_def common_only_def less_2_cases_iff group_prg_ok_def get_group_def)

lemma common_only_refl: "dm_synced ms \<Longrightarrow> common_only ms ms"
proof -
  assume "dm_synced ms"
  then obtain g where "length ms = 2" "\<forall>p < 2. group_prg_ok [0, 1] g (ms ! p)" by (auto simp: dm_synced_def)
  then obtain m0 m1 where "ms = [m0, m1]" "group_prg_ok [0, 1] g m0" "group_prg_ok [0, 1] g m1" by (rule two_managers)
  moreover have "m\<lparr>store := (store m)(GroupPRG [0, 1] := g)\<rparr> = m" if "group_prg_ok [0, 1] g m" for m
    using that by (auto simp: group_prg_ok_def)
  ultimately show ?thesis unfolding common_only_def by (intro exI [of _ g]) simp
qed

lemma common_only_trans: "common_only a b \<Longrightarrow> common_only b c \<Longrightarrow> common_only a c"
  by (auto simp: common_only_def)

lemma correlated_pair:
  fixes p q :: "(128, 's) dm_perm"
  assumes "is_perm m pi_0" "is_perm m pi_1" "length A_0 = m" "length B_0 = m" "length A_1 = m" "length B_1 = m"
    and "C_0 = vec_op (XOR) (permute pi_0 A_0) B_0" "C_1 = vec_op (XOR) (permute pi_1 A_1) B_1"
    and "dm_encoding p" "dm_encoding q"
  shows "correlated True m pi_0 pi_1
    [p\<lparr>dm_pi := pi_0, dm_A := A_1, dm_B := B_1, dm_C := C_0\<rparr>, q\<lparr>dm_pi := pi_1, dm_A := A_0, dm_B := B_0, dm_C := C_1\<rparr>]"
proof -
  have l: "length pi_0 = m" "length pi_1 = m" using assms(1,2) by (simp_all add: is_perm_length)
  have "dm_add True B_0 (vec_op (XOR) (permute pi_0 A_0) B_0) = permute pi_0 A_0"
    "dm_add True B_1 (vec_op (XOR) (permute pi_1 A_1) B_1) = permute pi_1 A_1"
    using assms l by (auto simp: dm_add_def vec_op_def ac_simps intro!: nth_equalityI)
  then show ?thesis using assms l by (simp add: correlated_def less_2_cases_iff vec_op_def)
qed

lemma from_common_correct:
  fixes w :: "('a::len, 's) world"
  assumes c: "cipher_ok TYPE(128) aes" and s: "dm_synced (mgrs w)" and f: "fair_cipher aes n"
  shows "\<exists>p pi_0 pi_1 w'. for_parties [0, 1] (dm_from_common aes [dm_perm_new n, dm_perm_new n]) w = Some (p, w') \<and>
    correlated True n pi_0 pi_1 p \<and> dm_synced (mgrs w') \<and> common_only (mgrs w) (mgrs w') \<and> chan w' = chan w"
proof -
  obtain g where "length (mgrs w) = 2" "\<forall>p < 2. group_prg_ok [0, 1] g (mgrs w ! p)" using s by (auto simp: dm_synced_def)
  then obtain m0 m1 where m: "mgrs w = [m0, m1]" "group_prg_ok [0, 1] g m0" "group_prg_ok [0, 1] g m1" by (rule two_managers)
  let ?pa = "group_perm aes n g" and ?g1 = "group_adv aes n g"
  let ?pb = "group_perm aes n ?g1" and ?g2 = "group_adv aes n ?g1"
  have r: "dm_common_perm aes n m = Some (group_perm aes n h, m\<lparr>store := (store m)(GroupPRG [0, 1] := group_adv aes n h)\<rparr>)"
    if "group_prg_ok [0, 1] h m" for h and m :: "'s manager"
    using that gen_perm_run(1) [OF f, of h] by (simp add: dm_common_perm_def group_prg_ok_def)
  note pm = gen_perm_run(2) [OF f]
  have "group_prg_ok [0, 1] ?g2 (m0\<lparr>store := (store m0)(GroupPRG [0, 1] := ?g2)\<rparr>)"
    using m(2) by (auto simp: group_prg_ok_def get_group_def)
  from dm_impl_run [OF c this _ pm pm, of "dm_perm_new n" g ?g1]
  obtain A_0 B_0 A_1 B_1 C_0 C_1 g' where
    i: "\<And>rk perm m. group_prg_ok [0, 1] ?g2 m \<Longrightarrow> dm_size perm = n \<Longrightarrow> dm_getNextImpl aes rk ?pa ?pb (perm :: (128, 's) dm_perm) m =
        Some (if rk = 0 then perm\<lparr>dm_pi := ?pa, dm_A := A_1, dm_B := B_1, dm_C := C_0\<rparr>
              else perm\<lparr>dm_pi := ?pb, dm_A := A_0, dm_B := B_0, dm_C := C_1\<rparr>, m\<lparr>store := (store m)(GroupPRG [0, 1] := g')\<rparr>)"
    and l: "length A_0 = n" "length B_0 = n" "length A_1 = n" "length B_1 = n"
      "C_0 = vec_op (XOR) (permute ?pa A_0) B_0" "C_1 = vec_op (XOR) (permute ?pb A_1) B_1"
    by (auto simp: dm_perm_new_def dm_size_def)
  have sz: "dm_size (dm_perm_new n :: (128, 's) dm_perm) = n" by (simp add: dm_size_def dm_perm_new_def)
  have d: "dm_from_common aes [dm_perm_new n, dm_perm_new n] rk m =
      Some (if rk = 0 then (dm_perm_new n)\<lparr>dm_pi := ?pa, dm_A := A_1, dm_B := B_1, dm_C := C_0\<rparr>
              else (dm_perm_new n)\<lparr>dm_pi := ?pb, dm_A := A_0, dm_B := B_0, dm_C := C_1\<rparr>, m\<lparr>store := (store m)(GroupPRG [0, 1] := g')\<rparr>)"
    if "rk < 2" "group_prg_ok [0, 1] g m" for rk and m :: "'s manager"
  proof -
    have e: "[dm_perm_new n, dm_perm_new n] ! rk = (dm_perm_new n :: (128, 's) dm_perm)" using that(1) by (auto simp: less_2_cases_iff)
    have "get_group m [0, 1] = Some (GroupPRG [0, 1])" using that(2) by (simp add: group_prg_ok_def)
    then show ?thesis unfolding dm_from_common_def e sz by (simp add: r [OF that(2)] r i sz get_group_def)
  qed
  let ?p = "[(dm_perm_new n)\<lparr>dm_pi := ?pa, dm_A := A_1, dm_B := B_1, dm_C := C_0\<rparr>,
     (dm_perm_new n)\<lparr>dm_pi := ?pb, dm_A := A_0, dm_B := B_0, dm_C := C_1\<rparr>] :: (128, 's) dm_perm list"
  let ?w = "w\<lparr>mgrs := [m0\<lparr>store := (store m0)(GroupPRG [0, 1] := g')\<rparr>, m1\<lparr>store := (store m1)(GroupPRG [0, 1] := g')\<rparr>]\<rparr>"
  have "for_parties [0, 1] (dm_from_common aes [dm_perm_new n, dm_perm_new n]) w = Some (?p, ?w)"
    using m d by simp
  moreover have "correlated True n ?pa ?pb ?p" using l by (intro correlated_pair pm) (simp_all add: dm_perm_new_def)
  moreover have "dm_synced (mgrs ?w)" "common_only (mgrs w) (mgrs ?w)"
    using common_advanced [OF m(2,3)] m(1) by simp_all
  ultimately show ?thesis by (intro exI [of _ ?p] exI [of _ ?pa] exI [of _ ?pb] exI [of _ ?w]) simp
qed

lemma exchange_perms_run:
  fixes w :: "('a::len, 's) world"
  assumes "chan w 0 1 = []" and "chan w 1 0 = []" and p: "is_perm n p" "is_perm n q" and "n \<le> 2 ^ 31"
  shows "\<exists>b. exchange_perms [p, q] w = Some ([q, p], w\<lparr>bytes_sent := b\<rparr>)"
proof -
  let ?v = "\<lparr>mgrs = mgrs w, chan = (\<lambda>_ _. []), bytes_sent = bytes_sent w\<rparr> :: (32, 's) world"
  have "exchangeShares 2 [map of_nat p, map of_nat q] [replicate n 0, replicate n 0] 1 1 ?v = Some ([map of_nat q, map of_nat p], tally 2 n ?v)"
    using p by (intro exchange_2) (simp_all add: quiet_def is_perm_length)
  moreover have "as_std_vector (map of_nat p :: 32 vec) = Some p" "as_std_vector (map of_nat q :: 32 vec) = Some q"
    using assms by (auto intro!: as_std_vector_perm)
  ultimately show ?thesis using assms(1,2) p by (intro exI [of _ "bytes_sent (tally 2 n ?v)"]) (simp add: exchange_perms_def is_perm_length)
qed

lemma from_keys_correct:
  fixes w :: "('a::len, 's) world"
  assumes c: "cipher_ok TYPE(128) aes" and s: "dm_synced (mgrs w)" and q: "quiet w" and f: "fair_cipher aes n" and "n \<le> 2 ^ 31"
  shows "\<exists>p w'. dm_from_keys aes g_0 g_1 [(dm_perm_new n)\<lparr>dm_prg := Some g_0\<rparr>, (dm_perm_new n)\<lparr>dm_prg := Some g_1\<rparr>] w = Some (p, w') \<and>
    correlated True n (group_perm aes n g_0) (group_perm aes n g_1) p \<and> dm_synced (mgrs w') \<and> common_only (mgrs w) (mgrs w') \<and> chan w' = chan w"
proof -
  obtain g where "length (mgrs w) = 2" "\<forall>p < 2. group_prg_ok [0, 1] g (mgrs w ! p)" using s by (auto simp: dm_synced_def)
  then obtain m0 m1 where m: "mgrs w = [m0, m1]" "group_prg_ok [0, 1] g m0" "group_prg_ok [0, 1] g m1" by (rule two_managers)
  let ?pa = "group_perm aes n g_0" and ?pb = "group_perm aes n g_1"
  note pm = gen_perm_run(2) [OF f]
  have sz: "dm_size ((dm_perm_new n :: (128, 's) dm_perm)\<lparr>dm_prg := h\<rparr>) = n" for h by (simp add: dm_size_def dm_perm_new_def)
  obtain b where b: "exchange_perms [?pa, ?pb] w = Some ([?pb, ?pa], w\<lparr>bytes_sent := b\<rparr>)"
    using exchange_perms_run [OF _ _ pm pm assms(5), of w g_0 g_1] q by (auto simp: quiet_def)
  from dm_impl_run [OF c m(2) sz pm pm]
  obtain A_0 B_0 A_1 B_1 C_0 C_1 g' where
    i: "\<And>rk perm m. group_prg_ok [0, 1] g m \<Longrightarrow> dm_size perm = n \<Longrightarrow> dm_getNextImpl aes rk ?pa ?pb (perm :: (128, 's) dm_perm) m =
        Some (if rk = 0 then perm\<lparr>dm_pi := ?pa, dm_A := A_1, dm_B := B_1, dm_C := C_0\<rparr>
              else perm\<lparr>dm_pi := ?pb, dm_A := A_0, dm_B := B_0, dm_C := C_1\<rparr>, m\<lparr>store := (store m)(GroupPRG [0, 1] := g')\<rparr>)"
    and l: "length A_0 = n" "length B_0 = n" "length A_1 = n" "length B_1 = n"
      "C_0 = vec_op (XOR) (permute ?pa A_0) B_0" "C_1 = vec_op (XOR) (permute ?pb A_1) B_1"
    by metis
  let ?n = "\<lambda>h. (dm_perm_new n)\<lparr>dm_prg := Some h\<rparr> :: (128, 's) dm_perm"
  let ?p = "[(?n (group_adv aes n g_0))\<lparr>dm_pi := ?pa, dm_A := A_1, dm_B := B_1, dm_C := C_0\<rparr>,
     (?n (group_adv aes n g_1))\<lparr>dm_pi := ?pb, dm_A := A_0, dm_B := B_0, dm_C := C_1\<rparr>]"
  let ?w = "w\<lparr>mgrs := [m0\<lparr>store := (store m0)(GroupPRG [0, 1] := g')\<rparr>, m1\<lparr>store := (store m1)(GroupPRG [0, 1] := g')\<rparr>], bytes_sent := b\<rparr>"
  have "dm_from_keys aes g_0 g_1 [?n g_0, ?n g_1] w = Some (?p, ?w)"
    unfolding dm_from_keys_def using m b gen_perm_run(1) [OF f] i [OF m(2) sz] i [OF m(3) sz] sz by simp
  moreover have "correlated True n ?pa ?pb ?p" using l by (intro correlated_pair pm) (simp_all add: dm_perm_new_def)
  moreover have "dm_synced (mgrs ?w)" "common_only (mgrs w) (mgrs ?w)"
    using common_advanced [OF m(2,3)] m(1) by simp_all
  ultimately show ?thesis by (intro exI [of _ ?p] exI [of _ ?w]) simp
qed

end
