(* ===== verification/Dishonest_Apply.thy ===== *)
theory Dishonest_Apply
  imports Dishonest_Proofs Beaver_2PC_Conv
begin

text \<open>
  Applying a two-party correlation permutes the secret, and applying the inverse restores it.  Each direction is first
  proved on the two parts: what the sender and the receiver compute are shares of the permuted sum.
\<close>

section \<open>The parts\<close>

lemma gather_dm:
  assumes "is_perm m pi" and "length u = m" and "length v = m"
  shows "gather pi (dm_add b u v) = dm_add b (gather pi u) (gather pi v)"
    and "gather pi (dm_sub b u v) = dm_sub b (gather pi u) (gather pi v)"
  using assms is_perm_length [OF assms(1)] by (auto intro!: nth_equalityI)

lemma permute_dm:
  assumes "is_perm m pi" and "length u = m" and "length v = m"
  shows "permute pi (dm_add b u v) = dm_add b (permute pi u) (permute pi v)"
    and "permute pi (dm_sub b u v) = dm_sub b (permute pi u) (permute pi v)"
  unfolding permute_def using gather_dm [OF is_perm_inverse [OF assms(1)] assms(2,3)] by simp_all

lemma permuted_parts:
  assumes p: "is_perm m pi" and l: "length s = m" "length r = m" "length A = m" "length B = m" "length C = m"
    and c: "permute pi A = dm_add b B C"
  shows "dm_add b (dm_add b (permute pi s) (dm_add b (permute pi (dm_sub b r A)) C)) B = permute pi (dm_add b s r)"
  unfolding permute_dm [OF p l(1,2)] permute_dm [OF p l(2,3)] c
  using l is_perm_length [OF p] by (auto intro!: nth_equalityI simp: ac_simps)

lemma gathered_parts:
  assumes p: "is_perm m pi" and l: "length s = m" "length r = m" "length A = m" "length B = m" "length C = m"
    and c: "permute pi A = dm_add b B C"
  shows "dm_add b (dm_add b (gather pi s) (gather pi (dm_sub b (dm_sub b r B) C))) A = gather pi (dm_add b s r)"
proof -
  have A: "A = dm_add b (gather pi B) (gather pi C)"
    using gather_permute [OF p l(3)] unfolding c gather_dm [OF p l(4,5)] by simp
  have bc: "length (dm_sub b r B) = m" using l by simp
  show ?thesis
    unfolding gather_dm [OF p l(1,2)] gather_dm [OF p bc l(5)] gather_dm [OF p l(2,4)]
    by (subst A) (use l is_perm_length [OF p] in \<open>auto intro!: nth_equalityI simp: ac_simps\<close>)
qed

section \<open>One direction\<close>

lemma revealed_2:
  assumes "length x0 = m" and "length x1 = m"
  shows "revealed b (share_out (Suc 0) q [x0, x1]) = dm_add b x0 x1"
  using reveal_2 [OF assms] by (simp add: revealed_def dm_add_def vec_op_def vadd_def vxor_def)

lemma dm_add_commute: "length u = length v \<Longrightarrow> dm_add b u v = dm_add b v u"
  by (auto intro!: nth_equalityI simp: ac_simps)

lemma send_receive:
  fixes w :: "('a::len, 's) world"
  assumes "quiet w" and "s < 2" and "length v = m"
  shows "\<exists>w'. receiveShares 2 s (replicate m 0) 1 (sendShares 2 (1 - s) v 1 w) = Some (v, w') \<and> quiet w' \<and> mgrs w' = mgrs w"
proof -
  let ?w1 = "sendShares 2 (1 - s) v 1 w"
  let ?w2 = "?w1\<lparr>chan := (chan ?w1)(1 - s := (chan ?w1 (1 - s))(s := []))\<rparr>"
  have ar: "abs_rank 2 s 1 = 1 - s" "abs_rank 2 (1 - s) 1 = s" using assms(2) by (auto simp: rank_simps less_2_cases_iff)
  have none: "chan w a b = []" for a b using assms(1) by (simp add: quiet_def)
  have "receiveShares 2 s (replicate m 0) 1 ?w1 = Some (v, ?w2)"
    using ar none assms(3) by (simp add: receiveShares_def valid_rank_geq Let_def)
  moreover have "quiet ?w2" using none ar by (auto simp: quiet_def fun_eq_iff)
  moreover have "mgrs ?w2 = mgrs w" by simp
  ultimately show ?thesis by blast
qed

lemma one_direction:
  fixes w :: "('a::len, 's) world"
  assumes "quiet w" and s: "s < 2" and rs: "r = 1 - s" and X: "is_sharing 2 (Suc 0) q m X" and pi: "is_perm m pi" and "dm_pi (p ! s) = pi"
    and e: "dm_encoding (p ! s) = b" "dm_encoding (p ! r) = b"
    and l: "length (dm_A (p ! r)) = m" "length (dm_B (p ! r)) = m" "length (dm_C (p ! s)) = m"
    and c: "permute pi (dm_A (p ! r)) = dm_add b (dm_B (p ! r)) (dm_C (p ! s))"
  shows "\<exists>Y w'. permute_and_share s p X w = Some (Y, w') \<and> quiet w' \<and> mgrs w' = mgrs w \<and> is_sharing 2 (Suc 0) q m Y \<and>
      revealed b Y = permute pi (revealed b X)"
    and "\<exists>Y w'. permute_and_share_inverse s p X w = Some (Y, w') \<and> quiet w' \<and> mgrs w' = mgrs w \<and> is_sharing 2 (Suc 0) q m Y \<and>
      revealed b Y = gather pi (revealed b X)"
proof -
  from X obtain x0 x1 where x: "X = share_out (Suc 0) q [x0, x1]" "length x0 = m" "length x1 = m" by (rule is_sharing_2E)
  let ?xs = "[x0, x1] ! s" and ?xr = "[x0, x1] ! r"
  have s': "s = 0 \<and> r = 1 \<or> s = 1 \<and> r = 0" using s rs by linarith
  have rr: "Suc 0 - s = r" using rs by simp
  have lx: "length ?xs = m" "length ?xr = m" using x s' by auto
  have lp: "length pi = m" using pi by (rule is_perm_length)
  have xs: "X ! s = \<lparr>cols = [?xs], prec = q\<rparr>" "X ! r = \<lparr>cols = [?xr], prec = q\<rparr>" using x s' by (auto simp: share_out_2)
  have rv: "revealed b X = dm_add b ?xs ?xr" using x s' dm_add_commute [of x0 x1 b] by (auto simp: revealed_2)
  have place: "is_sharing 2 (Suc 0) q m (X[r := \<lparr>cols = [u], prec = q\<rparr>, s := \<lparr>cols = [v], prec = q\<rparr>]) \<and>
      revealed b (X[r := \<lparr>cols = [u], prec = q\<rparr>, s := \<lparr>cols = [v], prec = q\<rparr>]) = dm_add b v u"
    if "length u = m" "length v = m" for u v
  proof -
    have "X[r := \<lparr>cols = [u], prec = q\<rparr>, s := \<lparr>cols = [v], prec = q\<rparr>] = share_out (Suc 0) q (placed s v u)"
      using s' x by (auto simp: share_out_2 placed_def)
    then show ?thesis using that s' dm_add_commute [of u v b] is_sharing_2 [OF that] is_sharing_2 [OF that(2,1)]
      by (auto simp: placed_def revealed_2)
  qed
  let ?v = "dm_sub b ?xr (dm_A (p ! r))"
  obtain w1 where w1: "receiveShares 2 s (replicate m 0) 1 (sendShares 2 r ?v 1 w) = Some (?v, w1)" "quiet w1" "mgrs w1 = mgrs w"
    using send_receive [OF assms(1) s, of ?v m] lx l rr by auto
  let ?d = "dm_add b (permute pi ?v) (dm_C (p ! s))"
  let ?Y = "X[r := \<lparr>cols = [dm_B (p ! r)], prec = q\<rparr>, s := \<lparr>cols = [dm_add b (permute pi ?xs) ?d], prec = q\<rparr>]"
  have "permute_and_share s p X w = Some (?Y, w1)"
    using w1(1) assms(6) e lx l pi
    by (simp add: permute_and_share_def xs col_def evec_size_def local_apply_perm_permute [OF pi] evec_apply_perm_share_out [OF pi] set_col0_def rr Let_def)
  moreover have "length (dm_add b (permute pi ?xs) ?d) = m" using lx l lp by simp
  ultimately show "\<exists>Y w'. permute_and_share s p X w = Some (Y, w') \<and> quiet w' \<and> mgrs w' = mgrs w \<and> is_sharing 2 (Suc 0) q m Y \<and>
      revealed b Y = permute pi (revealed b X)"
    using place [OF l(2)] w1(2,3) permuted_parts [OF pi lx l c] rv by (intro exI [of _ ?Y] exI [of _ w1]) simp
  let ?v = "dm_sub b ?xr (dm_B (p ! r))"
  obtain w1 where w1: "receiveShares 2 s (replicate m 0) 1 (sendShares 2 r ?v 1 w) = Some (?v, w1)" "quiet w1" "mgrs w1 = mgrs w"
    using send_receive [OF assms(1) s, of ?v m] lx l rr by auto
  let ?d = "gather pi (dm_sub b ?v (dm_C (p ! s)))"
  let ?Y = "X[r := \<lparr>cols = [dm_A (p ! r)], prec = q\<rparr>, s := \<lparr>cols = [dm_add b (gather pi ?xs) ?d], prec = q\<rparr>]"
  have "length (dm_sub b ?v (dm_C (p ! s))) = m" using lx l by simp
  then have "permute_and_share_inverse s p X w = Some (?Y, w1)"
    using w1(1) assms(6) e lx l pi
    by (simp add: permute_and_share_inverse_def xs col_def evec_size_def local_apply_inverse_gather [OF pi] evec_apply_inverse_share_out [OF pi]
        set_col0_def rr Let_def)
  moreover have "length (dm_add b (gather pi ?xs) ?d) = m" using lx l lp by simp
  ultimately show "\<exists>Y w'. permute_and_share_inverse s p X w = Some (Y, w') \<and> quiet w' \<and> mgrs w' = mgrs w \<and> is_sharing 2 (Suc 0) q m Y \<and>
      revealed b Y = gather pi (revealed b X)"
    using place [OF l(1)] w1(2,3) gathered_parts [OF pi lx l c] rv by (intro exI [of _ ?Y] exI [of _ w1]) simp
qed

section \<open>Both directions\<close>

lemma dm_apply_correct:
  fixes w :: "('a::len, 's) world"
  assumes q: "quiet w" and c: "correlated b m pi_0 pi_1 p" and X: "is_sharing 2 (Suc 0) q m X"
  shows "\<exists>Y w'. dm_oblivious_apply_sharded_perm p X w = Some (Y, w') \<and> quiet w' \<and> mgrs w' = mgrs w \<and> is_sharing 2 (Suc 0) q m Y \<and>
      revealed b Y = permute (gather pi_0 pi_1) (revealed b X)"
    and "\<exists>Y w'. dm_oblivious_apply_inverse_sharded_perm p X w = Some (Y, w') \<and> quiet w' \<and> mgrs w' = mgrs w \<and> is_sharing 2 (Suc 0) q m Y \<and>
      revealed b Y = gather (gather pi_0 pi_1) (revealed b X)"
proof -
  have p: "is_perm m pi_0" "is_perm m pi_1" using c by (simp_all add: correlated_def)
  have len: "length (revealed b Z) = m" if "is_sharing 2 (Suc 0) q m Z" for Z :: "'a sharing"
    using that by (simp add: revealed_def)
  have d0: "\<exists>Y w'. permute_and_share 0 p Z v = Some (Y, w') \<and> quiet w' \<and> mgrs w' = mgrs v \<and> is_sharing 2 (Suc 0) q m Y \<and>
      revealed b Y = permute pi_0 (revealed b Z)"
      "\<exists>Y w'. permute_and_share_inverse 0 p Z v = Some (Y, w') \<and> quiet w' \<and> mgrs w' = mgrs v \<and> is_sharing 2 (Suc 0) q m Y \<and>
      revealed b Y = gather pi_0 (revealed b Z)"
    if "quiet v" "is_sharing 2 (Suc 0) q m Z" for v :: "('a, 's) world" and Z
    using one_direction [OF that(1) _ _ that(2) p(1), of 0 1 p b] c by (simp_all add: correlated_def)
  have d1: "\<exists>Y w'. permute_and_share 1 p Z v = Some (Y, w') \<and> quiet w' \<and> mgrs w' = mgrs v \<and> is_sharing 2 (Suc 0) q m Y \<and>
      revealed b Y = permute pi_1 (revealed b Z)"
      "\<exists>Y w'. permute_and_share_inverse 1 p Z v = Some (Y, w') \<and> quiet w' \<and> mgrs w' = mgrs v \<and> is_sharing 2 (Suc 0) q m Y \<and>
      revealed b Y = gather pi_1 (revealed b Z)"
    if "quiet v" "is_sharing 2 (Suc 0) q m Z" for v :: "('a, 's) world" and Z
    using one_direction [OF that(1) _ _ that(2) p(2), of 1 0 p b] c by (simp_all add: correlated_def)
  obtain Y w1 where 1: "permute_and_share 0 p X w = Some (Y, w1)" "quiet w1" "mgrs w1 = mgrs w" "is_sharing 2 (Suc 0) q m Y"
    "revealed b Y = permute pi_0 (revealed b X)" using d0(1) [OF q X] by blast
  show "\<exists>Y w'. dm_oblivious_apply_sharded_perm p X w = Some (Y, w') \<and> quiet w' \<and> mgrs w' = mgrs w \<and> is_sharing 2 (Suc 0) q m Y \<and>
      revealed b Y = permute (gather pi_0 pi_1) (revealed b X)"
    using 1 d1(1) [OF 1(2,4)] permute_permute [OF p len [OF X]] by (auto simp: dm_oblivious_apply_sharded_perm_def)
  obtain Y w1 where 1: "permute_and_share_inverse 1 p X w = Some (Y, w1)" "quiet w1" "mgrs w1 = mgrs w" "is_sharing 2 (Suc 0) q m Y"
    "revealed b Y = gather pi_1 (revealed b X)" using d1(2) [OF q X] by blast
  show "\<exists>Y w'. dm_oblivious_apply_inverse_sharded_perm p X w = Some (Y, w') \<and> quiet w' \<and> mgrs w' = mgrs w \<and> is_sharing 2 (Suc 0) q m Y \<and>
      revealed b Y = gather (gather pi_0 pi_1) (revealed b X)"
    using 1 d0(2) [OF 1(2,4)] gather_gather [OF p] by (auto simp: dm_oblivious_apply_inverse_sharded_perm_def)
qed

end
