(* ===== verification/Permutation_Pairs.thy ===== *)
theory Permutation_Pairs
  imports Permutation_Manager
begin

text \<open>
  The permutation manager with two parties: it also stores pairs of correlations for one permutation, and every correlation
  it hands out is converted to the width and the encoding that the caller asks for.  The contract of the generator behind it is the
  locale \<open>pair_source\<close>: what it allocates is \<open>ready\<close>, setting up a pair makes two objects \<open>keyed\<close> for the same permutation,
  generation makes them \<open>valid\<close>, and conversion makes them act on sharings.
\<close>

locale pair_source =
  fixes pgen :: "('pm, 'st) perm_generator" and good :: "nat \<Rightarrow> bool" and ready :: "nat \<Rightarrow> 'pm \<Rightarrow> bool"
    and keyed :: "nat \<Rightarrow> nat list \<Rightarrow> 'pm \<Rightarrow> bool" and valid :: "nat \<Rightarrow> nat list \<Rightarrow> 'pm \<Rightarrow> bool"
    and acts :: "bool \<Rightarrow> nat \<Rightarrow> nat list \<Rightarrow> 'pm \<Rightarrow> bool" and ok :: "'st \<Rightarrow> bool"
  assumes valid_perm: "valid s T p \<Longrightarrow> is_perm s T"
    and size_law: "valid s T p \<Longrightarrow> g_size pgen p = s"
    and next_law: "good s \<Longrightarrow> ok st \<Longrightarrow> \<exists>p T st'. g_getNext pgen s st = Some (p, st') \<and> valid s T p \<and> ok st'"
    and alloc_law: "length (g_allocate pgen num s) = num" "p \<in> set (g_allocate pgen num s) \<Longrightarrow> ready s p"
    and setup_law: "good s \<Longrightarrow> ok st \<Longrightarrow> ready s p \<Longrightarrow> ready s q \<Longrightarrow>
      \<exists>p' q' T st'. g_setup_pair pgen p q st = Some ((p', q'), st') \<and> keyed s T p' \<and> keyed s T q' \<and> ok st'"
    and batch_law: "good s \<Longrightarrow> ok st \<Longrightarrow> \<forall>p \<in> set ps. ready s p \<or> (\<exists>T. keyed s T p) \<Longrightarrow>
      \<exists>qs st'. g_generateBatch pgen ps st = Some (qs, st') \<and> ok st' \<and>
        list_all2 (\<lambda>p q. (ready s p \<longrightarrow> (\<exists>T. valid s T q)) \<and> (\<forall>T. keyed s T p \<longrightarrow> valid s T q)) ps qs"
    and convert_law: "valid s T p \<Longrightarrow> ok st \<Longrightarrow> \<exists>q st'. g_convert pgen enc p st = Some (q, st') \<and> acts enc s T q \<and> ok st'"
begin

definition pairs_ok :: "'pm perm_manager \<Rightarrow> bool" where
  "pairs_ok pm \<longleftrightarrow> (\<forall>p \<in> set (queue pm). \<exists>T. valid (stored_size pm) T p) \<and>
     (\<forall>(p, q) \<in> set (pair_queue pm). \<exists>T. valid (stored_size pm) T p \<and> valid (stored_size pm) T q)"

lemma setup_pairs_correct:
  assumes "good s" and "ok st" and "distinct is"
    and "\<forall>i \<in> set is. 2 * i + 1 < length ret \<and> ready s (ret ! (2 * i)) \<and> ready s (ret ! (2 * i + 1))"
  shows "\<exists>ret' st'. setup_pairs pgen is ret st = Some (ret', st') \<and> ok st' \<and> length ret' = length ret \<and>
    (\<forall>i \<in> set is. \<exists>T. keyed s T (ret' ! (2 * i)) \<and> keyed s T (ret' ! (2 * i + 1))) \<and>
    (\<forall>j. j div 2 \<notin> set is \<longrightarrow> ret' ! j = ret ! j)"
  using assms(2-)
proof (induction "is" arbitrary: ret st)
  case (Cons i "is")
  obtain p q T st1 where p: "g_setup_pair pgen (ret ! (2 * i)) (ret ! (2 * i + 1)) st = Some ((p, q), st1)"
    "keyed s T p" "keyed s T q" "ok st1"
    using setup_law [OF assms(1) Cons.prems(1), of "ret ! (2 * i)" "ret ! (2 * i + 1)"] Cons.prems(3) by auto
  let ?r = "ret[2 * i := p, 2 * i + 1 := q]"
  have l: "2 * i + 1 < length ret" using Cons.prems(3) by simp
  have o: "?r ! j = ret ! j" if "j div 2 \<noteq> i" for j using that by (auto simp: nth_list_update)
  have d: "\<forall>j \<in> set is. 2 * j + 1 < length ?r \<and> ready s (?r ! (2 * j)) \<and> ready s (?r ! (2 * j + 1))"
  proof
    fix j assume j: "j \<in> set is"
    then have "j \<noteq> i" using Cons.prems(2) by auto
    then show "2 * j + 1 < length ?r \<and> ready s (?r ! (2 * j)) \<and> ready s (?r ! (2 * j + 1))"
      using Cons.prems(3) j o [of "2 * j"] o [of "2 * j + 1"] by simp
  qed
  obtain ret' st' where r: "setup_pairs pgen is ?r st1 = Some (ret', st')" "ok st'" "length ret' = length ?r"
    "\<forall>i \<in> set is. \<exists>T. keyed s T (ret' ! (2 * i)) \<and> keyed s T (ret' ! (2 * i + 1))"
    "\<forall>j. j div 2 \<notin> set is \<longrightarrow> ret' ! j = ?r ! j"
    using Cons.IH [OF p(4) _ d] Cons.prems(2) by auto
  have "ret' ! (2 * i) = p" "ret' ! (2 * i + 1) = q" using r(5) Cons.prems(2) l by simp_all
  moreover have "ret' ! j = ret ! j" if "j div 2 \<notin> set (i # is)" for j
    using that r(5) o [of j] by (metis list.set_intros(1,2))
  ultimately show ?case using p r(1-4) by (auto simp del: div_mult_self1_is_m)
qed simp

lemma reserve_correct:
  assumes "good s" and "ok st" and "pairs_ok pm"
  shows "\<exists>pm' st'. reserve pgen 2 s num pairs pm st = Some (pm', st') \<and> ok st' \<and> pairs_ok pm' \<and> stored_size pm' = s \<and>
    num \<le> length (queue pm') \<and> pairs \<le> length (pair_queue pm')"
proof -
  define pm0 where "pm0 = empty_other_size s pm"
  have pm0: "pairs_ok pm0" "stored_size pm0 = s" using assms(3) by (auto simp: pm0_def empty_other_size_def pairs_ok_def)
  show ?thesis
  proof (cases "num \<le> length (queue pm0) \<and> pairs \<le> length (pair_queue pm0)")
    case True
    then show ?thesis using pm0 assms(2) by (auto simp: reserve_def pm0_def [symmetric])
  next
    case False
    define a where "a = (if length (queue pm0) < num then num - length (queue pm0) else num)"
    define b where "b = (if length (pair_queue pm0) < pairs then pairs - length (pair_queue pm0) else pairs)"
    let ?n = "a + 2 * b"
    let ?al = "g_allocate pgen ?n s"
    have al: "length ?al = ?n" "\<And>i. i < ?n \<Longrightarrow> ready s (?al ! i)" using alloc_law by (metis nth_mem)+
    obtain ret st1 where r: "setup_pairs pgen [0..<b] ?al st = Some (ret, st1)" "ok st1" "length ret = ?n"
      "\<forall>i < b. \<exists>T. keyed s T (ret ! (2 * i)) \<and> keyed s T (ret ! (2 * i + 1))"
      "\<forall>j. b \<le> j div 2 \<longrightarrow> ret ! j = ?al ! j"
      using setup_pairs_correct [OF assms(1,2), of "[0..<b]" ?al] al by fastforce
    have k: "ready s p \<or> (\<exists>T. keyed s T p)" if p: "p \<in> set ret" for p
    proof -
      obtain j where j: "j < ?n" "p = ret ! j" using p r(3) by (auto simp: in_set_conv_nth)
      show ?thesis
      proof (cases "b \<le> j div 2")
        case True
        then show ?thesis using r(5) al(2) j by simp
      next
        case False
        have "j = 2 * (j div 2) \<or> j = 2 * (j div 2) + 1" by presburger
        then show ?thesis using r(4) False j(2) by (metis not_le_imp_less)
      qed
    qed
    then obtain qs st2 where q: "g_generateBatch pgen ret st1 = Some (qs, st2)" "ok st2"
      "list_all2 (\<lambda>p q. (ready s p \<longrightarrow> (\<exists>T. valid s T q)) \<and> (\<forall>T. keyed s T p \<longrightarrow> valid s T q)) ret qs"
      using batch_law [OF assms(1) r(2)] by blast
    have lq: "length qs = ?n" using q(3) r(3) by (simp add: list_all2_lengthD)
    have v: "\<exists>T. valid s T (qs ! (2 * i)) \<and> valid s T (qs ! (2 * i + 1))" if "i < b" for i
    proof -
      obtain T where "keyed s T (ret ! (2 * i))" "keyed s T (ret ! (2 * i + 1))" using r(4) \<open>i < b\<close> by blast
      moreover have "2 * i < length ret" "2 * i + 1 < length ret" using \<open>i < b\<close> r(3) by simp_all
      ultimately show ?thesis using q(3) unfolding list_all2_conv_all_nth by blast
    qed
    have w: "\<exists>T. valid s T (qs ! j)" if "j \<in> set [b * 2..<?n]" for j
    proof -
      have "b \<le> j div 2" "j < ?n" using that by auto
      then show ?thesis using q(3) r(3,5) al(2) by (auto simp: list_all2_conv_all_nth)
    qed
    let ?pm = "pm0\<lparr>pair_queue := pair_queue pm0 @ map (\<lambda>i. (qs ! (2 * i), qs ! (2 * i + 1))) [0..<b],
      queue := queue pm0 @ map ((!) qs) [b * 2..<?n]\<rparr>"
    have q0: "queue (pm0\<lparr>pair_queue := x\<rparr>) = queue pm0" for x by simp
    have "reserve pgen 2 s num pairs pm st = Some (?pm, st2)"
      unfolding reserve_def pm0_def [symmetric] using False r(1) q(1)
      by (simp only: Let_def case_prod_conv a_def [symmetric] b_def [symmetric] if_False bind.bind_lunit if_True simp_thms q0)
    moreover have "pairs_ok ?pm"
    proof -
      have "\<exists>T. valid s T p" if "p \<in> set (queue ?pm)" for p using that pm0 w by (auto simp: pairs_ok_def)
      moreover have "\<exists>T. valid s T (fst pq) \<and> valid s T (snd pq)" if "pq \<in> set (pair_queue ?pm)" for pq
        using that pm0 v by (fastforce simp: pairs_ok_def)
      ultimately show ?thesis using pm0(2) by (auto simp: pairs_ok_def)
    qed
    moreover have "num \<le> length (queue ?pm)" "pairs \<le> length (pair_queue ?pm)" by (auto simp: a_def b_def)
    ultimately show ?thesis using q(2) pm0(2) by (intro exI [of _ ?pm] exI [of _ st2]) simp
  qed
qed

lemma getNext_correct:
  assumes "good s" and "ok st" and "pairs_ok pm"
  shows "\<exists>q T pm' st'. pm_getNext pgen 2 s enc pm st = Some (q, pm', st') \<and> is_perm s T \<and> acts enc s T q \<and> ok st' \<and> pairs_ok pm' \<and>
    ((pair_queue pm \<noteq> [] \<or> queue pm \<noteq> [] \<longrightarrow> stored_size pm = s) \<longrightarrow>
     (pair_queue pm' \<noteq> [] \<or> queue pm' \<noteq> [] \<longrightarrow> stored_size pm' = s))"
proof (cases "queue pm = []")
  case True
  obtain p T st1 where p: "g_getNext pgen s st = Some (p, st1)" "valid s T p" "ok st1" using next_law [OF assms(1,2)] by blast
  obtain q st2 where "g_convert pgen enc p st1 = Some (q, st2)" "acts enc s T q" "ok st2" using convert_law [OF p(2,3)] by blast
  then show ?thesis using True p assms(3) valid_perm [OF p(2)]
    by (intro exI [of _ q] exI [of _ T] exI [of _ "pm\<lparr>have_shown_warning := True\<rparr>"] exI [of _ st2]) (simp add: pm_getNext_def pairs_ok_def)
next
  case False
  have "\<exists>pm1 st1. (if s \<noteq> stored_size pm then reserve pgen 2 s 1 0 pm st else Some (pm, st)) = Some (pm1, st1) \<and>
    ok st1 \<and> pairs_ok pm1 \<and> stored_size pm1 = s \<and> queue pm1 \<noteq> []"
  proof (cases "s = stored_size pm")
    case True
    then show ?thesis using False assms by auto
  next
    case other: False
    then show ?thesis using reserve_correct [OF assms, of 1 0] by fastforce
  qed
  then obtain pm1 st1 where r: "(if s \<noteq> stored_size pm then reserve pgen 2 s 1 0 pm st else Some (pm, st)) = Some (pm1, st1)"
    "ok st1" "pairs_ok pm1" "stored_size pm1 = s" "queue pm1 \<noteq> []" by blast
  then obtain p rest T where p: "queue pm1 = p # rest" "valid s T p" by (cases "queue pm1") (auto simp: pairs_ok_def)
  then have po: "pop_front pgen s pm1 = Some (p, pm1\<lparr>queue := rest\<rparr>)" using size_law by (simp add: pop_front_def)
  obtain q st2 where q: "g_convert pgen enc p st1 = Some (q, st2)" "acts enc s T q" "ok st2" using convert_law [OF p(2) r(2)] by blast
  have "pairs_ok (pm1\<lparr>queue := rest\<rparr>)" using r(3) p(1) by (simp add: pairs_ok_def)
  moreover have "pm_getNext pgen 2 s enc pm st = Some (q, pm1\<lparr>queue := rest\<rparr>, st2)"
    using False r(1) po q(1) by (simp add: pm_getNext_def)
  ultimately show ?thesis using q(2,3) valid_perm [OF p(2)] r(4)
    by (intro exI [of _ q] exI [of _ T] exI [of _ "pm1\<lparr>queue := rest\<rparr>"] exI [of _ st2]) simp
qed

lemma pair_front:
  assumes "ok st" and "pairs_ok pm" and "pair_queue pm \<noteq> []"
  shows "\<exists>q1 q2 T pm' st'. pm_getNextPair pgen 2 s enc1 enc2 pm st = Some ((q1, q2), pm', st') \<and> is_perm (stored_size pm) T \<and>
    acts enc1 (stored_size pm) T q1 \<and> acts enc2 (stored_size pm) T q2 \<and> ok st' \<and> pairs_ok pm' \<and> stored_size pm' = stored_size pm"
proof -
  obtain p1 p2 rest T where p: "pair_queue pm = (p1, p2) # rest" "valid (stored_size pm) T p1" "valid (stored_size pm) T p2"
    using assms(2,3) by (cases "pair_queue pm") (auto simp: pairs_ok_def)
  obtain q1 st1 where 1: "g_convert pgen enc1 p1 st = Some (q1, st1)" "acts enc1 (stored_size pm) T q1" "ok st1"
    using convert_law [OF p(2) assms(1)] by blast
  obtain q2 st2 where 2: "g_convert pgen enc2 p2 st1 = Some (q2, st2)" "acts enc2 (stored_size pm) T q2" "ok st2"
    using convert_law [OF p(3) 1(3)] by blast
  have "pairs_ok (pm\<lparr>pair_queue := rest\<rparr>)" using assms(2) p(1) by (simp add: pairs_ok_def)
  then show ?thesis using p 1 2 valid_perm [OF p(2)]
    by (intro exI [of _ q1] exI [of _ q2] exI [of _ T] exI [of _ "pm\<lparr>pair_queue := rest\<rparr>"] exI [of _ st2]) (simp add: pm_getNextPair_def)
qed

lemma getNextPair_correct:
  assumes "good s" and "ok st" and "pairs_ok pm" and "pair_queue pm \<noteq> [] \<or> queue pm \<noteq> [] \<longrightarrow> stored_size pm = s"
  shows "\<exists>q1 q2 T pm' st'. pm_getNextPair pgen 2 s enc1 enc2 pm st = Some ((q1, q2), pm', st') \<and> is_perm s T \<and>
    acts enc1 s T q1 \<and> acts enc2 s T q2 \<and> ok st' \<and> pairs_ok pm' \<and> stored_size pm' = s"
proof (cases "pair_queue pm = []")
  case False
  then show ?thesis using pair_front [OF assms(2,3) False, of s enc1 enc2] assms(4) by simp
next
  case True
  let ?pm = "pm\<lparr>have_shown_warning := True\<rparr>"
  have "pairs_ok ?pm" using assms(3) by (simp add: pairs_ok_def)
  from reserve_correct [OF assms(1,2) this, of 0 1] obtain pm1 st1 where r: "reserve pgen 2 s 0 1 ?pm st = Some (pm1, st1)" "ok st1"
    "pairs_ok pm1" "stored_size pm1 = s" "pair_queue pm1 \<noteq> []" by fastforce
  have "pm_getNextPair pgen 2 s enc1 enc2 pm st = pm_getNextPair pgen 2 s enc1 enc2 pm1 st1"
    using True r(1,5) by (simp add: pm_getNextPair_def)
  then show ?thesis using pair_front [OF r(2,3,5), of s enc1 enc2] r(4) by simp
qed

text \<open>With two parties the size is not checked: a stored pair of another size is handed out.\<close>

lemma getNextPair_ignores_size:
  assumes "ok st" and "pairs_ok pm" and "pair_queue pm \<noteq> []" and "stored_size pm \<noteq> s"
  shows "\<exists>q1 q2 T pm' st'. pm_getNextPair pgen 2 s enc1 enc2 pm st = Some ((q1, q2), pm', st') \<and>
    is_perm (stored_size pm) T \<and> acts enc1 (stored_size pm) T q1"
  using pair_front [OF assms(1-3)] by blast

end

end
