(* ===== verification/Shuffle_2PC.thy ===== *)
theory Shuffle_2PC
  imports Dishonest_Engine Dishonest_Apply Permutation_Pairs
begin

text \<open>
  Two parties: the dummy generator fulfils the contract of the permutation manager with pairs, and the two-party engine the contract
  of the operators on elementwise permutations.
\<close>

section \<open>Objects and the state\<close>

definition dm_ready :: "nat \<Rightarrow> ('a::len, 's) dm_object \<Rightarrow> bool" where
  "dm_ready s p \<longleftrightarrow> p = Inl [dm_perm_new s, dm_perm_new s]"

definition dm_keyed :: "'s cipher \<Rightarrow> nat \<Rightarrow> nat list \<Rightarrow> ('a::len, 's) dm_object \<Rightarrow> bool" where
  "dm_keyed aes s T p \<longleftrightarrow> (\<exists>g_0 g_1. p = Inl [(dm_perm_new s)\<lparr>dm_prg := Some g_0\<rparr>, (dm_perm_new s)\<lparr>dm_prg := Some g_1\<rparr>] \<and>
     T = gather (group_perm aes s g_0) (group_perm aes s g_1))"

definition dm_valid :: "nat \<Rightarrow> nat list \<Rightarrow> ('a::len, 's) dm_object \<Rightarrow> bool" where
  "dm_valid s T p \<longleftrightarrow> (\<exists>pi_0 pi_1 perm. p = Inl perm \<and> correlated True s pi_0 pi_1 perm \<and> T = gather pi_0 pi_1)"

definition dm_acts :: "bool \<Rightarrow> nat \<Rightarrow> nat list \<Rightarrow> ('a::len, 's) dm_object \<Rightarrow> bool" where
  "dm_acts enc s T p \<longleftrightarrow> (\<exists>pi_0 pi_1 perm. p = Inr perm \<and> correlated enc s pi_0 pi_1 perm \<and> T = gather pi_0 pi_1)"

definition dm_ok :: "'s cipher \<Rightarrow> 'a::len ole_source \<Rightarrow> ('a, 's) dm_state \<Rightarrow> bool" where
  "dm_ok aes ole st \<longleftrightarrow> bv_ok aes ole (dm_bv st) \<and> cipher_ok TYPE(128) aes \<and> dm_synced (mgrs (net (dm_bv st)))"

definition dm_good :: "'s cipher \<Rightarrow> nat \<Rightarrow> bool" where
  "dm_good aes s \<longleftrightarrow> fair_cipher aes s \<and> s \<le> 2 ^ 31"

lemma common_only_group: "common_only ms ms' \<Longrightarrow> \<forall>m \<in> set ms. get_group m [] = x \<Longrightarrow> \<forall>m \<in> set ms'. get_group m [] = x"
  by (auto simp: common_only_def get_group_def)

lemma dm_ok_net:
  fixes w' :: "('a::len, 's) world"
  assumes "dm_ok aes ole st" and "quiet w'" and "common_only (mgrs (net (dm_bv st))) (mgrs w')" and "dm_synced (mgrs w')"
  shows "dm_ok aes ole (st\<lparr>dm_bv := (dm_bv st)\<lparr>net := w'\<rparr>\<rparr>)"
  using assms common_only_group [OF assms(3)] by (auto simp: dm_ok_def bv_ok_def common_only_def)

lemma dm_ok_bv: "dm_ok aes ole st \<Longrightarrow> bv_ok aes ole b \<Longrightarrow> mgrs (net b) = mgrs (net (dm_bv st)) \<Longrightarrow> dm_ok aes ole (st\<lparr>dm_bv := b\<rparr>)"
  by (simp add: dm_ok_def)

lemma on_net_Some: "f (net (dm_bv st)) = Some (x, w) \<Longrightarrow> on_net f st = Some (x, st\<lparr>dm_bv := (dm_bv st)\<lparr>net := w\<rparr>\<rparr>)"
  by (simp add: on_net_def on_bv_def)

section \<open>Generation\<close>

lemma fill_correct:
  fixes w :: "('a::len, 's) world" and p :: "('a, 's) dm_object"
  assumes "cipher_ok TYPE(128) aes" and "dm_synced (mgrs w)" and "quiet w" and "dm_good aes s" and "dm_ready s p \<or> (\<exists>T. dm_keyed aes s T p)"
  shows "\<exists>perm perm' w'. p = Inl perm \<and> dm_fill aes perm w = Some (perm', w') \<and> quiet w' \<and> dm_synced (mgrs w') \<and>
    common_only (mgrs w) (mgrs w') \<and> (\<exists>T. dm_valid s T (Inl perm' :: ('a, 's) dm_object)) \<and>
    (\<forall>T. dm_keyed aes s T p \<longrightarrow> dm_valid s T (Inl perm' :: ('a, 's) dm_object))"
proof (cases "dm_ready s p")
  case True
  then have p: "p = Inl [dm_perm_new s, dm_perm_new s]" and n: "\<not> dm_keyed aes s T p" for T
    by (auto simp: dm_ready_def dm_keyed_def dm_perm_new_def)
  have "dm_fill aes [dm_perm_new s, dm_perm_new s] w = for_parties [0, 1] (dm_from_common aes [dm_perm_new s, dm_perm_new s]) w"
    by (simp add: dm_fill_def dm_perm_new_def)
  then show ?thesis using from_common_correct [OF assms(1,2), of s] assms(3,4) p n
    by (fastforce simp: dm_good_def dm_valid_def quiet_def)
next
  case False
  then obtain g_0 g_1 where p: "p = Inl [(dm_perm_new s)\<lparr>dm_prg := Some g_0\<rparr>, (dm_perm_new s)\<lparr>dm_prg := Some g_1\<rparr>]"
    using assms(5) by (auto simp: dm_keyed_def)
  have k: "T = gather (group_perm aes s g_0) (group_perm aes s g_1)" if "dm_keyed aes s T p" for T
    using that p by (auto simp: dm_keyed_def dm_perm_new_def)
  have "dm_fill aes [(dm_perm_new s)\<lparr>dm_prg := Some g_0\<rparr>, (dm_perm_new s)\<lparr>dm_prg := Some g_1\<rparr>] w =
    dm_from_keys aes g_0 g_1 [(dm_perm_new s)\<lparr>dm_prg := Some g_0\<rparr>, (dm_perm_new s)\<lparr>dm_prg := Some g_1\<rparr>] w"
    by (simp add: dm_fill_def)
  then show ?thesis using from_keys_correct [OF assms(1-3), of s g_0 g_1] assms(3,4) p k
    by (fastforce simp: dm_good_def dm_valid_def quiet_def)
qed

lemma batch_correct:
  fixes w :: "('a::len, 's) world" and ps :: "('a, 's) dm_object list"
  assumes "cipher_ok TYPE(128) aes" and "dm_synced (mgrs w)" and "quiet w" and "dm_good aes s" and "\<forall>p \<in> set ps. dm_ready s p \<or> (\<exists>T. dm_keyed aes s T p)"
  shows "\<exists>qs w'. dm_generateBatch aes ps w = Some (qs, w') \<and> quiet w' \<and> dm_synced (mgrs w') \<and> common_only (mgrs w) (mgrs w') \<and>
    list_all2 (\<lambda>p q. (\<exists>T. dm_valid s T q) \<and> (\<forall>T. dm_keyed aes s T p \<longrightarrow> dm_valid s T q)) ps qs"
  using assms(2,3,5)
proof (induction ps arbitrary: w)
  case Nil
  then show ?case by (simp add: common_only_refl)
next
  case (Cons p ps)
  obtain perm perm' w1 where p: "p = Inl perm" "dm_fill aes perm w = Some (perm', w1)" "quiet w1" "dm_synced (mgrs w1)"
    "common_only (mgrs w) (mgrs w1)" "\<exists>T. dm_valid s T (Inl perm' :: ('a, 's) dm_object)"
    "\<forall>T. dm_keyed aes s T p \<longrightarrow> dm_valid s T (Inl perm' :: ('a, 's) dm_object)"
    using fill_correct [OF assms(1) Cons.prems(1,2) assms(4)] Cons.prems(3) by (metis list.set_intros(1))
  obtain qs w' where q: "dm_generateBatch aes ps w1 = Some (qs, w')" "quiet w'" "dm_synced (mgrs w')" "common_only (mgrs w1) (mgrs w')"
    "list_all2 (\<lambda>p q. (\<exists>T. dm_valid s T q) \<and> (\<forall>T. dm_keyed aes s T p \<longrightarrow> dm_valid s T q)) ps qs"
    using Cons.IH [OF p(4,3)] Cons.prems(3) by auto
  then show ?case using p common_only_trans [OF p(5) q(4)] by auto
qed

lemma dm_next_correct:
  fixes st :: "('a::len, 's) dm_state"
  assumes "dm_good aes s" and "dm_ok aes ole st"
  shows "\<exists>p T st'. on_net (\<lambda>w. do { (p, w) \<leftarrow> dm_getNext aes s w; Some (Inl p, w) }) st = Some (p, st') \<and>
    dm_valid s T (p :: ('a, 's) dm_object) \<and> dm_ok aes ole st'"
proof -
  have st: "cipher_ok TYPE(128) aes" "dm_synced (mgrs (net (dm_bv st)))" "quiet (net (dm_bv st))"
    using assms(2) by (simp_all add: dm_ok_def bv_ok_def)
  have "dm_ready s (Inl [dm_perm_new s, dm_perm_new s] :: ('a, 's) dm_object)" by (simp add: dm_ready_def)
  then obtain perm' w' where f: "dm_fill aes [dm_perm_new s, dm_perm_new s] (net (dm_bv st)) = Some (perm', w')" "quiet w'" "dm_synced (mgrs w')"
    "common_only (mgrs (net (dm_bv st))) (mgrs w')" "\<exists>T. dm_valid s T (Inl perm' :: ('a, 's) dm_object)"
    using fill_correct [OF st assms(1), of "Inl [dm_perm_new s, dm_perm_new s]"] by auto
  then show ?thesis using dm_ok_net [OF assms(2) f(2,4,3)] by (auto simp: dm_getNext_def on_net_def on_bv_def)
qed

section \<open>Operations of the protocol leave the managers alone\<close>

lemma bv_open_mgrs: "bv_open f X st = Some (v, st') \<Longrightarrow> mgrs (net st') = mgrs (net st)"
  by (auto simp: bv_open_def bind_eq_Some_conv dest: exchange_mgrs)

lemma open_pair_mgrs: "open_pair f stacked U V st = Some (v, st') \<Longrightarrow> mgrs (net st') = mgrs (net st)"
  by (auto simp: open_pair_def Let_def bind_eq_Some_conv split: if_splits dest!: bv_open_mgrs)

lemma bv_and_b_mgrs: "bv_and_b ole wan X Y st = Some (Z, st') \<Longrightarrow> mgrs (net st') = mgrs (net st)"
  by (auto simp: bv_and_b_def BTANDgen_getNext_def Let_def bind_eq_Some_conv split: prod.splits dest!: open_pair_mgrs)

lemma bv_multiply_mgrs: "bv_multiply_a ole wan X Y st = Some (Z, st') \<Longrightarrow> mgrs (net st') = mgrs (net st)"
  by (auto simp: bv_multiply_a_def BTgen_getNext_def Let_def bind_eq_Some_conv split: prod.splits dest!: open_pair_mgrs)

lemma bv_b2a_bit_mgrs: "bv_b2a_bit ole wan X st = Some (Z, st') \<Longrightarrow> mgrs (net st') = mgrs (net st)"
  unfolding bv_b2a_bit_def Let_def by (rule bv_multiply_mgrs)

section \<open>Conversions\<close>

definition bv_at :: "'s cipher \<Rightarrow> 'a::len ole_source \<Rightarrow> 's manager list \<Rightarrow> ('a, 's) beaver_state \<Rightarrow> bool" where
  "bv_at aes ole M b \<longleftrightarrow> bv_ok aes ole b \<and> mgrs (net b) = M"

lemma getGroups_2: "getGroups 2 = []"
  by code_simp

lemma bv_public_share_correct:
  fixes x :: "'a::len vec"
  shows "is_sharing 2 (Suc 0) 0 (length x) (bv_public_share x [])" and "reveal_b (bv_public_share x []) = x" and "reveal_a (bv_public_share x []) = x"
proof -
  let ?z = "replicate (length x) 0 :: 'a vec"
  have e: "bv_public_share x [] = share_out (Suc 0) 0 [x, ?z]" by (simp add: bv_public_share_def share_out_2)
  have "vadd x ?z = x" "vxor x ?z = x" by (intro vec_eqI; simp)+
  then show "is_sharing 2 (Suc 0) 0 (length x) (bv_public_share x [])" "reveal_b (bv_public_share x []) = x" "reveal_a (bv_public_share x []) = x"
    unfolding e using is_sharing_2 [of x "length x" ?z 0] reveal_2 [of x "length x" ?z 0] by simp_all
qed

interpretation bvm: masking_protocol "beaver_2pc aes ole wan :: ('a::len, ('a, 's) beaver_state) protocol" 2 1 "bv_at aes ole M"
  "\<lambda>grp size_n b. do { (v, w) \<leftarrow> populateCommonRandom aes 2 grp size_n (net b); Some (v, b\<lparr>net := w\<rparr>) }"
  "\<lambda>x who_knows. Some (bv_public_share x who_knows)" bv_unchecked_open_b "getGroups 2"
proof unfold_locales
  fix X Y :: "'a sharing" and st :: "('a, 's) beaver_state" and q m
  assume ok: "bv_at aes ole M st" and X: "is_sharing 2 1 q m X"
  then have b: "bv_ok aes ole st" "mgrs (net st) = M" by (simp_all add: bv_at_def)
  show "\<exists>Z st'. v_and_b (beaver_2pc aes ole wan) X Y st = Some (Z, st') \<and> bv_at aes ole M st' \<and> is_sharing 2 1 q m Z \<and>
        reveal_b Z = map2 (AND) (reveal_b X) (reveal_b Y)" if "is_sharing 2 1 q m Y"
    using bv_and_b_correct [OF b(1), of q m X Y wan] X that bv_and_b_mgrs [of ole wan X Y st] b(2)
    by (fastforce simp: beaver_2pc_def bv_at_def)
  show "\<exists>st'. bv_unchecked_open_b X st = Some (replicate 2 (reveal_b X), st') \<and> bv_at aes ole M st'"
    using bv_open_correct(2) [OF b(1)] X b by (auto simp: bv_at_def)
qed (use bv_public_share_correct bv_not_b_correct [THEN conjunct1] bv_not_b_correct [THEN conjunct2] in \<open>auto simp: getGroups_2 beaver_2pc_def\<close>)

lemma bv_full_b2a_correct:
  fixes X :: "'a::len sharing" and b :: "('a, 's) beaver_state"
  assumes "bv_ok aes ole b" and "is_sharing 2 (Suc 0) q m X"
  shows "\<exists>R b'. bv_b2a aes ole wan use_rca X b = Some (R, b') \<and> bv_ok aes ole b' \<and> mgrs (net b') = mgrs (net b) \<and>
    is_sharing 2 (Suc 0) q m R \<and> reveal_a R = reveal_b X"
  using bvm.b2a_correct [of aes ole "mgrs (net b)" b q m X wan use_rca] assms by (simp add: bv_at_def bv_b2a_def)

lemma insecure_b2a_correct:
  fixes X :: "'a::len sharing" and b :: "('a, 's) beaver_state"
  assumes "bv_ok aes ole b" and "is_sharing 2 (Suc 0) q m X"
  shows "\<exists>R b'. insecure_b2a bv_unchecked_open_b X b = Some (R, b') \<and> bv_ok aes ole b' \<and> mgrs (net b') = mgrs (net b) \<and>
    is_sharing 2 (Suc 0) q m R \<and> reveal_a R = reveal_b X"
proof -
  from assms(2) obtain x0 x1 where x: "X = share_out (Suc 0) q [x0, x1]" "length x0 = m" "length x1 = m" by (rule is_sharing_2E)
  let ?v = "reveal_b X" and ?z = "replicate m 0 :: 'a vec"
  have v: "length ?v = m" using reveal_2(2) [OF x(2,3)] x by simp
  have c: "p_construct_like X m = share_out (Suc 0) q [?z, ?z]"
    using x by (simp add: p_construct_like_def construct_like_def evec_new_def share_out_2)
  have "insecure_b2a bv_unchecked_open_b X b = Some (share_out (Suc 0) q [?v, ?z], b\<lparr>net := tally 2 m (net b)\<rparr>)"
    using bv_open_correct(2) [OF assms] x c
    by (simp add: insecure_b2a_def share_out_2 sh_size_def evec_size_def col_def p_setPrecision_def setPrecision_def set_col0_def)
  moreover have "vadd ?v ?z = ?v" using v by (intro vec_eqI) simp_all
  ultimately show ?thesis using assms(1) is_sharing_2 [OF v, of ?z] reveal_2(1) [OF v, of ?z]
    by auto
qed

lemma convert_b2a_correct:
  fixes perm :: "('a::len, 's) dm_perm list" and b :: "('a, 's) beaver_state"
  assumes ok: "bv_ok aes ole b" and c: "correlated True m pi_0 pi_1 perm"
    and conv: "\<And>X b. bv_ok aes ole b \<Longrightarrow> is_sharing 2 (Suc 0) 0 m X \<Longrightarrow> \<exists>R b'. conv X b = Some (R, b') \<and> bv_ok aes ole b' \<and>
      mgrs (net b') = mgrs (net b) \<and> is_sharing 2 (Suc 0) 0 m R \<and> reveal_a R = reveal_b X"
  shows "\<exists>perm' b'. dm_perm_convert_b2a conv perm b = Some (perm', b') \<and> bv_ok aes ole b' \<and> mgrs (net b') = mgrs (net b) \<and>
    correlated False m pi_0 pi_1 perm'"
proof -
  have l: "length (dm_B (perm ! 0)) = m" "length (dm_C (perm ! 1)) = m" "length (dm_C (perm ! 0)) = m" "length (dm_B (perm ! 1)) = m"
    using c by (simp_all add: correlated_def)
  let ?B = "two_party_sharing (dm_B (perm ! 0)) (dm_C (perm ! 1))" and ?C = "two_party_sharing (dm_C (perm ! 0)) (dm_B (perm ! 1))"
  obtain R b1 where R: "conv ?B b = Some (R, b1)" "bv_ok aes ole b1" "mgrs (net b1) = mgrs (net b)" "is_sharing 2 (Suc 0) 0 m R"
    "reveal_a R = reveal_b ?B"
    using conv [OF ok] is_sharing_2 [OF l(1,2)] unfolding two_party_share_out by blast
  obtain S b2 where S: "conv ?C b1 = Some (S, b2)" "bv_ok aes ole b2" "mgrs (net b2) = mgrs (net b1)" "is_sharing 2 (Suc 0) 0 m S"
    "reveal_a S = reveal_b ?C"
    using conv [OF R(2)] is_sharing_2 [OF l(3,4)] unfolding two_party_share_out by blast
  from R(4) obtain r0 r1 where r: "R = share_out (Suc 0) 0 [r0, r1]" "length r0 = m" "length r1 = m" by (rule is_sharing_2E)
  from S(4) obtain s0 s1 where s: "S = share_out (Suc 0) 0 [s0, s1]" "length s0 = m" "length s1 = m" by (rule is_sharing_2E)
  have "dm_add False r0 r1 = dm_add True (dm_B (perm ! 0)) (dm_C (perm ! 1))"
    using R(5) revealed_2 [OF r(2,3), of False 0] revealed_2 [OF l(1,2), of True 0] unfolding r(1) two_party_share_out
    by (simp add: revealed_def)
  moreover have "dm_add False s1 s0 = dm_add True (dm_B (perm ! 1)) (dm_C (perm ! 0))"
    using S(5) revealed_2 [OF s(2,3), of False 0] revealed_2 [OF l(3,4), of True 0] dm_add_commute [of s1 s0 False]
      dm_add_commute [of "dm_B (perm ! 1)" "dm_C (perm ! 0)" True] s(2,3) l unfolding s(1) two_party_share_out
    by (simp add: revealed_def)
  ultimately show ?thesis using c R(1) S(1-3) R(3) r s
    by (simp add: dm_perm_convert_b2a_def correlated_def less_2_cases_iff share_out_2 col_def)
qed

lemma dm_convert_correct:
  fixes p :: "('a::len, 's) dm_object" and st :: "('a, 's) dm_state"
  assumes v: "dm_valid s T p" and ok: "dm_ok aes ole st"
  shows "\<exists>q st'. dm_convert aes ole wan use_rca use_libote enc p st = Some (q, st') \<and> dm_acts enc s T q \<and> dm_ok aes ole st'"
proof -
  obtain pi_0 pi_1 perm where p: "p = Inl perm" "correlated True s pi_0 pi_1 perm" "T = gather pi_0 pi_1"
    using v by (auto simp: dm_valid_def)
  let ?c = "map dm_perm_convert_type perm :: ('a, 's) dm_perm list"
  have c: "correlated True s pi_0 pi_1 ?c" by (rule correlated_convert [OF p(2)])
  let ?conv = "if use_libote then bv_b2a aes ole wan use_rca else insecure_b2a bv_unchecked_open_b"
  have b: "bv_ok aes ole (dm_bv st)" using ok by (simp add: dm_ok_def)
  have cv: "\<exists>R b'. ?conv X b = Some (R, b') \<and> bv_ok aes ole b' \<and> mgrs (net b') = mgrs (net b) \<and> is_sharing 2 (Suc 0) 0 s R \<and>
      reveal_a R = reveal_b X" if "bv_ok aes ole b" "is_sharing 2 (Suc 0) 0 s X" for X b
    using bv_full_b2a_correct [OF that, of wan use_rca] insecure_b2a_correct [OF that] by simp
  obtain perm' b' where "dm_perm_convert_b2a ?conv ?c (dm_bv st) = Some (perm', b')" "bv_ok aes ole b'"
    "mgrs (net b') = mgrs (net (dm_bv st))" "correlated False s pi_0 pi_1 perm'"
    using convert_b2a_correct [OF b c cv] by blast
  then show ?thesis using c p ok dm_ok_bv [OF ok] by (cases enc) (auto simp: dm_convert_def dm_acts_def on_bv_def)
qed

section \<open>The manager\<close>

interpretation dmp: pair_source "dm_generator aes fresh ole wan use_rca use_libote :: (('a::len, 's) dm_object, ('a, 's) dm_state) perm_generator"
  "dm_good aes" dm_ready "dm_keyed aes" dm_valid dm_acts "dm_ok aes ole"
proof unfold_locales
  fix s T num and p q :: "('a, 's) dm_object" and ps and st :: "('a, 's) dm_state" and enc
  let ?g = "dm_generator aes fresh ole wan use_rca use_libote :: (('a, 's) dm_object, ('a, 's) dm_state) perm_generator"
  show "dm_valid s T p \<Longrightarrow> is_perm s T" by (auto simp: dm_valid_def correlated_def is_perm_gather)
  show "dm_valid s T p \<Longrightarrow> g_size ?g p = s" by (auto simp: dm_valid_def correlated_def dm_generator_def dm_size_def is_perm_length)
  show "length (g_allocate ?g num s) = num" by (simp add: dm_generator_def dm_allocate_def)
  show "p \<in> set (g_allocate ?g num s) \<Longrightarrow> dm_ready s p" by (auto simp: dm_generator_def dm_allocate_def dm_ready_def)
  show "\<exists>p T st'. g_getNext ?g s st = Some (p, st') \<and> dm_valid s T p \<and> dm_ok aes ole st'" if "dm_good aes s" "dm_ok aes ole st"
    using dm_next_correct [OF that] by (simp add: dm_generator_def)
  show "\<exists>p' q' T st'. g_setup_pair ?g p q st = Some ((p', q'), st') \<and> dm_keyed aes s T p' \<and> dm_keyed aes s T q' \<and> dm_ok aes ole st'"
    if "dm_ok aes ole st" "dm_ready s p" "dm_ready s q"
    using that by (fastforce simp: dm_generator_def setup_dm_pair_def dm_ready_def with_seeds_def dm_keyed_def dm_ok_def)
  show "\<exists>q st'. g_convert ?g enc p st = Some (q, st') \<and> dm_acts enc s T q \<and> dm_ok aes ole st'" if "dm_valid s T p" "dm_ok aes ole st"
    using dm_convert_correct [OF that] by (simp add: dm_generator_def)
  show "\<exists>qs st'. g_generateBatch ?g ps st = Some (qs, st') \<and> dm_ok aes ole st' \<and>
        list_all2 (\<lambda>p q. (dm_ready s p \<longrightarrow> (\<exists>T. dm_valid s T q)) \<and> (\<forall>T. dm_keyed aes s T p \<longrightarrow> dm_valid s T q)) ps qs"
    if h: "dm_good aes s" "dm_ok aes ole st" "\<forall>p \<in> set ps. dm_ready s p \<or> (\<exists>T. dm_keyed aes s T p)"
  proof -
    have st: "cipher_ok TYPE(128) aes" "dm_synced (mgrs (net (dm_bv st)))" "quiet (net (dm_bv st))"
      using h(2) by (simp_all add: dm_ok_def bv_ok_def)
    obtain qs w' where q: "dm_generateBatch aes ps (net (dm_bv st)) = Some (qs, w')" "quiet w'" "dm_synced (mgrs w')"
      "common_only (mgrs (net (dm_bv st))) (mgrs w')"
      "list_all2 (\<lambda>p q. (\<exists>T. dm_valid s T q) \<and> (\<forall>T. dm_keyed aes s T p \<longrightarrow> dm_valid s T q)) ps qs"
      using batch_correct [OF st h(1,3)] by blast
    show ?thesis using dm_ok_net [OF h(2) q(2,4,3)] q(1) list_all2_mono [OF q(5)]
      by (auto simp: dm_generator_def on_net_Some)
  qed
qed

end
