(* ===== verification/Radix_2PC.thy ===== *)
theory Radix_2PC
  imports Shuffle_2PC Radix_Proofs
begin

text \<open>
  The two-party engine as an instance of the contracts of elementwise permutations and of the radix sort: its state is the protocol's, the
  drawn keys and the permutation manager, whose stored correlations all have the size of the sorted vectors.
\<close>

definition shuffle_ok_2 :: "'s cipher \<Rightarrow> 'a::len ole_source \<Rightarrow> nat \<Rightarrow> ('a, 's) shuffle_state_2 \<Rightarrow> bool" where
  "shuffle_ok_2 aes ole m st \<longleftrightarrow> dm_ok aes ole (fst st) \<and> dm_good aes m \<and> m \<le> 2 ^ (LENGTH('a) - 1) \<and> dmp.pairs_ok (snd st) \<and>
     (pair_queue (snd st) \<noteq> [] \<or> queue (snd st) \<noteq> [] \<longrightarrow> stored_size (snd st) = m)"

lemma dm_takes:
  fixes st :: "('a::len, 's) shuffle_state_2" and aes fresh ole wan use_rca use_libote
  defines "S \<equiv> dm_shuffler aes fresh ole wan use_rca use_libote :: ('a, ('a, 's) dm_object, ('a, 's) shuffle_state_2) shuffler"
  assumes "shuffle_ok_2 aes ole m st"
  shows "\<exists>pi T st'. s_getNext S m enc st = Some (pi, st') \<and> is_perm m T \<and> dm_acts enc m T pi \<and> shuffle_ok_2 aes ole m st'"
    and "\<exists>pi1 pi2 T st'. s_getNextPair S m enc1 enc2 st = Some ((pi1, pi2), st') \<and> is_perm m T \<and> dm_acts enc1 m T pi1 \<and>
      dm_acts enc2 m T pi2 \<and> shuffle_ok_2 aes ole m st'"
    and "\<exists>st'. s_reserve S m num pairs st = Some ((), st') \<and> shuffle_ok_2 aes ole m st'"
proof -
  have ok: "dm_good aes m" "dm_ok aes ole (fst st)" "dmp.pairs_ok (snd st)"
    "pair_queue (snd st) \<noteq> [] \<or> queue (snd st) \<noteq> [] \<longrightarrow> stored_size (snd st) = m" "m \<le> 2 ^ (LENGTH('a) - 1)"
    using assms(2) by (simp_all add: shuffle_ok_2_def)
  show "\<exists>pi T st'. s_getNext S m enc st = Some (pi, st') \<and> is_perm m T \<and> dm_acts enc m T pi \<and> shuffle_ok_2 aes ole m st'"
    using dmp.getNext_correct [OF ok(1-3), of fresh wan use_rca use_libote enc] ok
    unfolding S_def dm_shuffler_def Let_def by (fastforce simp: shuffle_ok_2_def)
  show "\<exists>pi1 pi2 T st'. s_getNextPair S m enc1 enc2 st = Some ((pi1, pi2), st') \<and> is_perm m T \<and> dm_acts enc1 m T pi1 \<and>
      dm_acts enc2 m T pi2 \<and> shuffle_ok_2 aes ole m st'"
    using dmp.getNextPair_correct [OF ok(1-4), of fresh wan use_rca use_libote enc1 enc2] ok
    unfolding S_def dm_shuffler_def Let_def by (fastforce simp: shuffle_ok_2_def)
  show "\<exists>st'. s_reserve S m num pairs st = Some ((), st') \<and> shuffle_ok_2 aes ole m st'"
    using dmp.reserve_correct [OF ok(1-3), of fresh wan use_rca use_libote num pairs] ok
    unfolding S_def dm_shuffler_def Let_def by (fastforce simp: shuffle_ok_2_def)
qed

text \<open>A stored pair is handed out whatever the size asked for.\<close>

lemma dm_pair_any_size:
  fixes st :: "('a::len, 's) shuffle_state_2" and aes fresh ole wan use_rca use_libote
  assumes "shuffle_ok_2 aes ole m st" and "size_n = m \<or> pair_queue (snd st) \<noteq> []"
  shows "\<exists>pi1 pi2 T st'. s_getNextPair (dm_shuffler aes fresh ole wan use_rca use_libote) size_n enc1 enc2 st = Some ((pi1, pi2), st') \<and>
    is_perm m T \<and> dm_acts enc1 m T pi1 \<and> dm_acts enc2 m T pi2 \<and> shuffle_ok_2 aes ole m st'"
proof (cases "pair_queue (snd st) = []")
  case True
  then show ?thesis using dm_takes(2) [OF assms(1)] assms(2) by simp
next
  case False
  then have "dm_ok aes ole (fst st)" "dmp.pairs_ok (snd st)" "stored_size (snd st) = m" using assms(1) by (simp_all add: shuffle_ok_2_def)
  then show ?thesis using dmp.pair_front [of aes ole "fst st" "snd st" fresh wan use_rca use_libote size_n enc1 enc2] False assms(1)
    unfolding dm_shuffler_def Let_def by (fastforce simp: shuffle_ok_2_def)
qed

lemma dm_acts_correct:
  fixes st :: "('a::len, 's) shuffle_state_2" and aes fresh ole wan use_rca use_libote and X :: "'a sharing"
  defines "S \<equiv> dm_shuffler aes fresh ole wan use_rca use_libote :: ('a, ('a, 's) dm_object, ('a, 's) shuffle_state_2) shuffler"
  assumes ok: "shuffle_ok_2 aes ole m st" and a: "dm_acts b m T pi" and X: "is_sharing 2 (Suc 0) q m X"
  shows "\<exists>Y st'. s_apply S b pi X st = Some (Y, st') \<and> shuffle_ok_2 aes ole m st' \<and> is_sharing 2 (Suc 0) q m Y \<and>
      revealed b Y = permute T (revealed b X)"
    and "\<exists>Y st'. s_apply_inverse S b pi X st = Some (Y, st') \<and> shuffle_ok_2 aes ole m st' \<and> is_sharing 2 (Suc 0) q m Y \<and>
      revealed b Y = gather T (revealed b X)"
proof -
  obtain pi_0 pi_1 perm where p: "pi = Inr perm" "correlated b m pi_0 pi_1 perm" "T = gather pi_0 pi_1"
    using a by (auto simp: dm_acts_def)
  have d: "dm_ok aes ole (fst st)" "quiet (net (dm_bv (fst st)))" using ok by (simp_all add: shuffle_ok_2_def dm_ok_def bv_ok_def)
  have again: "shuffle_ok_2 aes ole m ((fst st)\<lparr>dm_bv := (dm_bv (fst st))\<lparr>net := w'\<rparr>\<rparr>, snd st)"
    if "quiet w'" "mgrs w' = mgrs (net (dm_bv (fst st)))" for w'
    using ok that by (simp add: shuffle_ok_2_def dm_ok_def bv_ok_def)
  show "\<exists>Y st'. s_apply S b pi X st = Some (Y, st') \<and> shuffle_ok_2 aes ole m st' \<and> is_sharing 2 (Suc 0) q m Y \<and>
      revealed b Y = permute T (revealed b X)"
    using dm_apply_correct(1) [OF d(2) p(2) X] again
    by (auto simp: S_def dm_shuffler_def Let_def p(1,3) on_dm_def on_net_Some)
  show "\<exists>Y st'. s_apply_inverse S b pi X st = Some (Y, st') \<and> shuffle_ok_2 aes ole m st' \<and> is_sharing 2 (Suc 0) q m Y \<and>
      revealed b Y = gather T (revealed b X)"
    using dm_apply_correct(2) [OF d(2) p(2) X] again
    by (auto simp: S_def dm_shuffler_def Let_def p(1,3) on_dm_def on_net_Some)
qed

lemma shuffle_ok_2_bv:
  "shuffle_ok_2 aes ole m st \<Longrightarrow> bv_ok aes ole b \<Longrightarrow> mgrs (net b) = mgrs (net (dm_bv (fst st))) \<Longrightarrow>
    shuffle_ok_2 aes ole m ((fst st)\<lparr>dm_bv := b\<rparr>, snd st)"
  by (simp add: shuffle_ok_2_def dm_ok_bv)

interpretation rx2: sorting_engine
  "dm_shuffler aes fresh ole wan use_rca use_libote :: ('a::len, ('a, 's) dm_object, ('a, 's) shuffle_state_2) shuffler" 2 1 m
  "shuffle_ok_2 aes ole m" "\<lambda>enc. dm_acts enc m" "shuffle_2pc aes ole wan :: ('a, ('a, 's) shuffle_state_2) protocol"
proof (unfold_locales, unfold One_nat_def)
  fix st :: "('a, 's) shuffle_state_2" and enc enc1 enc2 b and pi :: "('a, 's) dm_object" and T q num pairs and X Y :: "'a sharing"
  let ?S = "dm_shuffler aes fresh ole wan use_rca use_libote :: ('a, ('a, 's) dm_object, ('a, 's) shuffle_state_2) shuffler"
  let ?P = "shuffle_2pc aes ole wan :: ('a, ('a, 's) shuffle_state_2) protocol"
  show "is_sharing 2 (Suc 0) q m (v_not_b ?P X) \<and> reveal_b (v_not_b ?P X) = map NOT (reveal_b X)" if "is_sharing 2 (Suc 0) q m X"
    using bv_not_b_correct [OF that] by (simp add: shuffle_2pc_def)
  assume ok: "shuffle_ok_2 aes ole m st"
  then show "m \<le> 2 ^ (LENGTH('a) - Suc 0)" by (simp add: shuffle_ok_2_def)
  show "\<exists>pi T st'. s_getNext ?S m enc st = Some (pi, st') \<and> is_perm m T \<and> dm_acts enc m T pi \<and> shuffle_ok_2 aes ole m st'"
    by (rule dm_takes(1) [OF ok])
  show "\<exists>pi1 pi2 T st'. s_getNextPair ?S m enc1 enc2 st = Some ((pi1, pi2), st') \<and> is_perm m T \<and> dm_acts enc1 m T pi1 \<and>
      dm_acts enc2 m T pi2 \<and> shuffle_ok_2 aes ole m st'"
    by (rule dm_takes(2) [OF ok])
  show "\<exists>st'. s_reserve ?S m num pairs st = Some ((), st') \<and> shuffle_ok_2 aes ole m st'"
    by (rule dm_takes(3) [OF ok])
  have w: "bv_ok aes ole (dm_bv (fst st))" using ok by (simp add: shuffle_ok_2_def dm_ok_def)
  show "\<exists>R st'. v_b2a_bit ?P X st = Some (R, st') \<and> shuffle_ok_2 aes ole m st' \<and> is_sharing 2 (Suc 0) 0 m R \<and>
        reveal_a R = map (\<lambda>x. x AND 1) (reveal_b X)" if "is_sharing 2 (Suc 0) q m X"
    using bv_b2a_correct [OF w that, of wan] shuffle_ok_2_bv [OF ok] bv_b2a_bit_mgrs [of ole wan X "dm_bv (fst st)"]
    by (fastforce simp: shuffle_2pc_def on_dm_def on_bv_def)
  show "\<exists>Z st'. v_multiply_a ?P X Y st = Some (Z, st') \<and> shuffle_ok_2 aes ole m st' \<and> is_sharing 2 (Suc 0) 0 m Z \<and>
        reveal_a Z = map2 (*) (reveal_a X) (reveal_a Y)" if "is_sharing 2 (Suc 0) 0 m X" "is_sharing 2 (Suc 0) 0 m Y"
    using bv_multiply_correct [OF w that, of wan] shuffle_ok_2_bv [OF ok] bv_multiply_mgrs [of ole wan X Y "dm_bv (fst st)"]
    by (fastforce simp: shuffle_2pc_def on_dm_def on_bv_def)
  assume X: "is_sharing 2 (Suc 0) q m X"
  show "\<exists>st'. s_open ?S b X st = Some (replicate 2 (revealed b X), st') \<and> shuffle_ok_2 aes ole m st'"
    using bv_open_correct [OF w X] shuffle_ok_2_bv [OF ok, of "(dm_bv (fst st))\<lparr>net := tally 2 m (net (dm_bv (fst st)))\<rparr>"] w
    by (cases b) (simp_all add: dm_shuffler_def Let_def on_dm_def on_bv_def revealed_def)
  assume T: "dm_acts b m T pi"
  show "\<exists>Y st'. s_apply ?S b pi X st = Some (Y, st') \<and> shuffle_ok_2 aes ole m st' \<and> is_sharing 2 (Suc 0) q m Y \<and>
      revealed b Y = permute T (revealed b X)"
    by (rule dm_acts_correct(1) [OF ok T X])
  show "\<exists>Y st'. s_apply_inverse ?S b pi X st = Some (Y, st') \<and> shuffle_ok_2 aes ole m st' \<and> is_sharing 2 (Suc 0) q m Y \<and>
      revealed b Y = gather T (revealed b X)"
    by (rule dm_acts_correct(2) [OF ok T X])
next
  fix x :: "'a vec"
  let ?S = "dm_shuffler aes fresh ole wan use_rca use_libote :: ('a, ('a, 's) dm_object, ('a, 's) shuffle_state_2) shuffler"
  show "\<exists>X. s_public_share ?S x = Some X \<and> is_sharing 2 (Suc 0) 0 (length x) X \<and> reveal_b X = x \<and> reveal_a X = x"
    using bv_public_share_correct [of x] by (simp add: dm_shuffler_def Let_def)
qed simp_all

text \<open>Sharing draws from the local generator only.\<close>

lemma bv_share_synced:
  fixes st st' :: "('a::len, 's) beaver_state"
  assumes "bv_ok aes ole st" and "dm_synced (mgrs (net st))" and "d < 2" and "bv_secret_share f aes data d st = Some (X, st')"
  shows "dm_synced (mgrs (net st'))"
proof -
  have l: "get_group (mgrs (net st) ! d) [] = Some LocalPRG" using bv_okD(5) [OF assms(1,3)] .
  obtain sh m where m: "bv_get_shares f aes data (mgrs (net st) ! d) = Some (sh, m)" "mgrs (net st') = (mgrs (net st))[d := m]"
    using assms(4) by (auto simp: bv_secret_share_def bind_eq_Some_conv Let_def dest!: receive_mgrs)
  obtain g where "m = (mgrs (net st) ! d)\<lparr>store := (store (mgrs (net st) ! d))(LocalPRG := g)\<rparr>"
    using m(1) l bv_okD(1) [OF assms(1)] by (auto simp: bv_get_shares_def draw_Some bind_eq_Some_conv)
  then have "group_prg_ok [0, 1] h m = group_prg_ok [0, 1] h (mgrs (net st) ! d)" for h by (auto simp: group_prg_ok_def get_group_def)
  moreover obtain h where "length (mgrs (net st)) = 2" "\<forall>p < 2. group_prg_ok [0, 1] h (mgrs (net st) ! p)"
    using assms(2) by (auto simp: dm_synced_def)
  ultimately show ?thesis using assms(3) unfolding m(2) dm_synced_def by (auto simp: nth_list_update intro!: exI [of _ h])
qed

section \<open>Elementwise permutations\<close>

lemma elem_b2a_2_correct:
  fixes st :: "('a::len, 's) shuffle_state_2"
  assumes ok: "shuffle_ok_2 aes ole m st" and e: "rx2.perm_shared m p e" and "encoding e"
  shows "\<exists>e' st'. elem_b2a_2 (\<lambda>X. on_dm (on_bv (bv_b2a aes ole wan use_rca X))) e st = Some (e', st') \<and> shuffle_ok_2 aes ole m st' \<and>
    rx2.perm_shared m p e' \<and> \<not> encoding e'"
proof -
  have p: "is_perm m p" "is_sharing 2 (Suc 0) 0 m (sharedVector e)" "reveal_b (sharedVector e) = map of_nat p"
    using e assms(3) unfolding rx2.perm_shared_def revealed_def by simp_all
  have w: "bv_ok aes ole (dm_bv (fst st))" using ok by (simp add: shuffle_ok_2_def dm_ok_def)
  obtain R b where R: "bv_b2a aes ole wan use_rca (sharedVector e) (dm_bv (fst st)) = Some (R, b)" "bv_ok aes ole b"
    "mgrs (net b) = mgrs (net (dm_bv (fst st)))" "is_sharing 2 (Suc 0) 0 m R" "reveal_a R = map of_nat p"
    using bv_full_b2a_correct [OF w p(2), of wan use_rca] unfolding p(3) by blast
  then show ?thesis using p(1) shuffle_ok_2_bv [OF ok R(2,3)] assms(3) unfolding rx2.perm_shared_def revealed_def
    by (simp add: elem_b2a_2_def on_dm_def on_bv_def)
qed

end
