(* ===== verification/Conversion_3PC.thy ===== *)
theory Conversion_3PC
  imports Full_Conversion Shuffle_3PC
begin

text \<open>
  The full-width conversion for three parties: the masks come from the generators of the groups, the adders from the neighbours'; both
  invariants hold throughout.
\<close>

definition rep3_b2a :: "'s cipher \<Rightarrow> bool \<Rightarrow> 'a::len sharing \<Rightarrow> ('a, 's) world \<Rightarrow> ('a sharing \<times> ('a, 's) world) option" where
  "rep3_b2a aes use_rca =
     b2a (replicated_3pc aes) use_rca (populateCommonRandom aes 3) rep3_public_share rep3_unchecked_open_b (getGroups 3)"

definition both_ok :: "'s cipher \<Rightarrow> ('a::len, 's) world \<Rightarrow> bool" where
  "both_ok aes w \<longleftrightarrow> rep3_ok aes w \<and> hm_ok aes 3 w"

lemma getNextBinary_steady:
  fixes v :: "'a::len vec" and m m' :: "'s manager"
  assumes "cipher_ok TYPE('a) aes" and "mgr3 p m" and "getNextBinary aes n m = Some (v, m')"
  shows "steady_mgr m m'"
proof -
  have "steady_mgr m (m\<lparr>store := (store m)(RelPRG 2 := g, RelPRG 1 := h)\<rparr>)" for g h
    unfolding steady_mgr_def by (rule exI [of _ "(store m)(RelPRG 2 := g, RelPRG 1 := h)"]) simp
  then show ?thesis using assms(3) getNextBinary_mgr3 [OF assms(2,1), of n] by auto
qed

lemma rep3_and_b_steady:
  fixes w w' :: "('a::len, 's) world"
  assumes c: "cipher_ok TYPE('a) aes" and "world_3 (mgrs w)" and "rep3_and_b aes X Y w = Some (Z, w')"
  shows "steady (mgrs w) (mgrs w')"
proof -
  obtain rs :: "'a vec list" and w1 where r: "for_parties [0, 1, 2] (\<lambda>p. getNextBinary aes (evec_size (X ! p))) w = Some (rs, w1)" "mgrs w' = mgrs w1"
    using assms(3) by (auto simp: rep3_and_b_def bind_eq_Some_conv Let_def simp del: for_parties.simps dest!: exchange_mgrs)
  show ?thesis unfolding r(2)
    by (rule for_parties_steady [OF _ _ assms(2) r(1)]) (auto intro: getNextBinary_steady [OF c])
qed

text \<open>The share that only the members of a group hold.\<close>

lemma shared_by_group:
  fixes r :: "'a::len vec"
  assumes "grp \<in> set (getGroups 3)" and l: "length r = m"
  shows "\<exists>A. share_each (\<lambda>x. rep3_public_share x grp) (map (\<lambda>p. if p \<in> set grp then r else replicate m 0) [0..<3]) = Some A \<and>
    is_sharing 3 2 0 m A \<and> reveal_a A = r \<and> reveal_b A = r"
proof -
  let ?z = "replicate m 0 :: 'a vec"
  have u: "[0..<3] = [0, 1, 2]" by (simp add: upt_rec)
  have v: "vadd r (vadd ?z ?z) = r" "vadd ?z (vadd r ?z) = r" "vadd ?z (vadd ?z r) = r"
    "vxor r (vxor ?z ?z) = r" "vxor ?z (vxor r ?z) = r" "vxor ?z (vxor ?z r) = r"
    using l by (intro vec_eqI; simp)+
  note s = is_sharing_3 [OF l length_replicate length_replicate] is_sharing_3 [OF length_replicate l length_replicate]
    is_sharing_3 [OF length_replicate length_replicate l] reveal_3 [OF l length_replicate length_replicate]
    reveal_3 [OF length_replicate l length_replicate] reveal_3 [OF length_replicate length_replicate l]
  have "grp = [0, 2] \<or> grp = [0, 1] \<or> grp = [1, 2]" using assms(1) by (auto simp: getGroups_3)
  then show ?thesis
  proof (elim disjE)
    assume g: "grp = [0, 2]"
    have "share_each (\<lambda>x. rep3_public_share x grp) (map (\<lambda>p. if p \<in> set grp then r else replicate m 0) [0..<3]) = Some (share_out 2 0 [r, ?z, ?z])"
      using l by (simp add: g share_each_def u rep3_public_share_def share_out_3)
    then show ?thesis using s v by simp
  next
    assume g: "grp = [0, 1]"
    have "share_each (\<lambda>x. rep3_public_share x grp) (map (\<lambda>p. if p \<in> set grp then r else replicate m 0) [0..<3]) = Some (share_out 2 0 [?z, r, ?z])"
      using l by (simp add: g share_each_def u rep3_public_share_def share_out_3)
    then show ?thesis using s v by simp
  next
    assume g: "grp = [1, 2]"
    have "share_each (\<lambda>x. rep3_public_share x grp) (map (\<lambda>p. if p \<in> set grp then r else replicate m 0) [0..<3]) = Some (share_out 2 0 [?z, ?z, r])"
      using l by (simp add: g share_each_def u rep3_public_share_def share_out_3)
    then show ?thesis using s v by simp
  qed
qed

lemma populate_correct:
  fixes w :: "('a::len, 's) world"
  assumes ok: "both_ok aes w" and grp: "grp \<in> set (getGroups 3)"
  shows "\<exists>w' r. populateCommonRandom aes 3 grp m w = Some (map (\<lambda>p. if p \<in> set grp then r else replicate m 0) [0..<3], w') \<and>
    both_ok aes w' \<and> length (r :: 'a vec) = m"
proof -
  have w: "rep3_ok aes w" "quiet w" "cipher_ok TYPE('a) aes" using ok by (simp_all add: both_ok_def hm_ok_def)
  obtain G where G: "groups_synced 3 G (mgrs w)" using ok by (auto simp: both_ok_def hm_ok_def)
  let ?r = "rnd aes m (G grp) :: 'a vec" and ?g = "adv TYPE('a) aes m (G grp)"
  let ?m = "\<lambda>p. if p \<in> set grp then (mgrs w ! p)\<lparr>store := (store (mgrs w ! p))(GroupPRG grp := ?g)\<rparr> else mgrs w ! p"
  have l: "length (mgrs w) = 3" using G by (simp add: groups_synced_def)
  have d: "(if p \<in> set grp then draw aes (get_group (mgrs w ! p) grp) m (mgrs w ! p) else Some (replicate m 0, mgrs w ! p)) =
      Some (if p \<in> set grp then ?r else replicate m 0, ?m p)" for p
    using G grp by (auto simp: groups_synced_def group_prg_ok_def draw_Some [OF w(3)])
  obtain ms where ms: "populateCommonRandom aes 3 grp m w = Some (map (\<lambda>p. if p \<in> set grp then ?r else replicate m 0) [0..<3], w\<lparr>mgrs := ms\<rparr>)"
    "length ms = 3" "\<forall>p < 3. ms ! p = ?m p"
    using for_parties_all [of "[0..<3]" w "\<lambda>p m'. if p \<in> set grp then draw aes (get_group m' grp) m m' else Some (replicate m 0, m')"
        "\<lambda>p. if p \<in> set grp then ?r else replicate m 0" ?m] l d by (auto simp: populateCommonRandom_def)
  have n: "\<exists>G. groups_synced 3 G ms" using groups_synced_update [OF G grp _ ms(2,3)] by auto
  have "group_only 3 (mgrs w) ms" using ms(2,3) l grp by (intro group_onlyI [of _ 3]) auto
  then have "both_ok aes (w\<lparr>mgrs := ms\<rparr>)"
    using group_only_rep3 [OF w(1), of "w\<lparr>mgrs := ms\<rparr>"] w n by (simp add: both_ok_def hm_ok_def quiet_def)
  then show ?thesis using ms(1) w(3) by (intro exI [of _ "w\<lparr>mgrs := ms\<rparr>"] exI [of _ ?r]) simp
qed

interpretation rep3m: masking_protocol "replicated_3pc aes :: ('a::len, ('a, 's) world) protocol" 3 2 "both_ok aes"
  "populateCommonRandom aes 3" rep3_public_share rep3_unchecked_open_b "getGroups 3"
proof unfold_locales
  fix X Y :: "'a sharing" and w :: "('a, 's) world" and q m and grp
  show "is_sharing 3 2 q m (v_not_b (replicated_3pc aes :: ('a, ('a, 's) world) protocol) X) \<and>
        reveal_b (v_not_b (replicated_3pc aes :: ('a, ('a, 's) world) protocol) X) = map NOT (reveal_b X)" if "is_sharing 3 2 q m X"
    using rep3_not_b_correct [OF that] by (simp add: replicated_3pc_def)
  assume ok: "both_ok aes w"
  then have w: "rep3_ok aes w" "hm_ok aes 3 w" "cipher_ok TYPE('a) aes" by (simp_all add: both_ok_def hm_ok_def)
  show "\<exists>Z w'. v_and_b (replicated_3pc aes) X Y w = Some (Z, w') \<and> both_ok aes w' \<and> is_sharing 3 2 q m Z \<and>
        reveal_b Z = map2 (AND) (reveal_b X) (reveal_b Y)" if "is_sharing 3 2 q m X" "is_sharing 3 2 q m Y"
    using rep3_and_b_correct [OF w(1) that] rep3_and_b_steady [OF w(3) rep3_world_3 [OF w(1)], of X Y] steady_rep3 [OF _ w(2)]
    by (fastforce simp: replicated_3pc_def both_ok_def)
  show "\<exists>w'. rep3_unchecked_open_b X w = Some (replicate 3 (reveal_b X), w') \<and> both_ok aes w'" if "is_sharing 3 2 q m X"
    using rep3_open_correct(2) [OF w(1) that] w by (auto simp: both_ok_def rep3_ok_def hm_ok_def tally_def quiet_def)
  show "\<exists>rs w' A r. populateCommonRandom aes 3 grp m w = Some (rs, w') \<and> both_ok aes w' \<and>
        share_each (\<lambda>x. rep3_public_share x grp) rs = Some A \<and> is_sharing 3 2 0 m A \<and> reveal_a A = r \<and> reveal_b A = r"
    if "grp \<in> set (getGroups 3)"
    using populate_correct [OF ok that, of m] shared_by_group [OF that] by blast
next
  fix x :: "'a vec"
  show "\<exists>A. rep3_public_share x [] = Some A \<and> is_sharing 3 2 0 (length x) A \<and> reveal_a A = x"
    using rep3_public_share_correct [of x] by blast
qed simp_all

end
