(* ===== verification/Quicksort.thy ===== *)
theory Quicksort
  imports Elementwise Sorting Vector_Algebra
begin

text \<open>
  Quicksort on a shared vector (\<open>core/operators/quicksort.h\<close>): the vector is shuffled, every element is compared with the pivot on its
  left, the results are opened, and every party partitions its own shares in the clear.  A round turns the pivots' positions, the pivots'
  right neighbours and what remains into the next pivots.  The loop runs until all elements are pivots; it is a
  \<open>partial_function\<close>, so a run that does not end is \<open>None\<close>.  Positions are \<open>int\<close> in the source, so a vector of
  \<open>2 ^ 31\<close> elements or more is \<open>None\<close> here.  Parties whose opened results lead to different pivots are out of step: \<open>None\<close>.
\<close>

section \<open>The partition of one party\<close>

fun partition_loop :: "'c::zero list \<Rightarrow> nat list \<Rightarrow> nat \<Rightarrow> 'b list list \<Rightarrow> nat \<times> 'b list list" where
  "partition_loop comparisons [] i cs = (i, cs)"
| "partition_loop comparisons (j # js) i cs =
     (if comparisons ! j = 0
      then let i = i + 1 in partition_loop comparisons js i (map (swap_at j i) cs)
      else partition_loop comparisons js i cs)"

definition qs_partition ::
  "'c::zero list \<Rightarrow> int \<Rightarrow> int \<Rightarrow> 'b list list \<Rightarrow> int list \<Rightarrow> ('b list list \<times> int list) option" where
  "qs_partition comparisons start stop cs pivots =
     (if start < 0 \<or> stop < start \<or> int (length pivots) \<le> stop then None
      else let (i, cs) = partition_loop comparisons [nat start + 1..<nat stop + 1] (nat start) cs;
               cs = map (swap_at (nat start) i) cs;
               pivots = pivots[i := int i];
               pivots = (if int i + 1 \<le> stop then pivots[i + 1 := int i + 1] else pivots)
           in Some (cs, pivots))"

fun qs_scan ::
  "'c::zero list \<Rightarrow> nat list \<Rightarrow> int \<Rightarrow> 'b list list \<Rightarrow> int list \<Rightarrow> (int \<times> 'b list list \<times> int list) option" where
  "qs_scan comparisons [] index cs pivots = Some (index, cs, pivots)"
| "qs_scan comparisons (p # ps) index cs pivots =
     (if pivots ! p < 0 then qs_scan comparisons ps index cs pivots
      else if int p - index = 1 then qs_scan comparisons ps (index + 1) cs pivots
      else do {
        (cs, pivots) \<leftarrow> qs_partition comparisons index (int p - 1) cs pivots;
        qs_scan comparisons ps (int p) cs pivots
      })"

definition qs_pass :: "'c::zero list \<Rightarrow> 'b list list \<Rightarrow> int list \<Rightarrow> ('b list list \<times> int list) option" where
  "qs_pass comparisons cs pivots = do {
     (index, cs, pivots) \<leftarrow> qs_scan comparisons [0..<length pivots] (- 1) cs pivots;
     qs_partition comparisons index (int (length pivots) - 1) cs pivots
   }"

section \<open>Rounds\<close>

definition prefix_max :: "int list \<Rightarrow> int list" where
  "prefix_max v = (case v of [] \<Rightarrow> [] | x # xs \<Rightarrow> x # inclusive_scan max x xs)"

definition num_pivots :: "int list \<Rightarrow> nat" where
  "num_pivots pivots = length (filter (\<lambda>x. x \<ge> 0) pivots)"

text \<open>The pivots for the compared elements: \<open>pivot_temp.included_reference(non_pivots)\<close> as a mapping.\<close>

definition pivot_views :: "int list \<Rightarrow> (view \<times> view) option" where
  "pivot_views pivots = do {
     let non_pivots = map (\<lambda>p. of_bool (p < 0) :: int) pivots;
     let pivot_temp = prefix_max pivots;
     sel \<leftarrow> included_reference non_pivots (base (length pivots));
     let m = view_get sel pivot_temp;
     pv \<leftarrow> (if \<exists>x \<in> set m. x < 0 then None else mapping_reference (map nat m) (base (length pivots)));
     Some (pv, sel)
   }"

definition qs_round ::
  "('a::len, 'st) protocol \<Rightarrow> ('a, 'pm, 'st) shuffler \<Rightarrow> 'a sharing \<Rightarrow> int list \<Rightarrow> 'a vec list \<Rightarrow> 'st
    \<Rightarrow> (('a sharing \<times> int list \<times> 'a vec list) \<times> 'st) option" where
  "qs_round P S v pivots exp_cmp st = do {
     (pv, sel) \<leftarrow> pivot_views pivots;
     let pivot_vec = sh_get pv v;
     let reduced_vec = sh_get sel v;
     ((temp, comparisons), st) \<leftarrow> sv_compare P reduced_vec pivot_vec st;
     (cmp_plaintext, st) \<leftarrow> s_open S True comparisons st;
     exp_cmp \<leftarrow> those (map2 (view_set sel) cmp_plaintext exp_cmp);
     rs \<leftarrow> those (map2 (\<lambda>c x. qs_pass c (cols x) pivots) exp_cmp v);
     if \<exists>r \<in> set rs. snd r \<noteq> snd (hd rs) then None
     else Some ((map2 (\<lambda>r x. x\<lparr>cols := fst r\<rparr>) rs v, snd (hd rs), exp_cmp), st)
   }"

partial_function (option) qs_loop ::
  "('a::len, 'st) protocol \<Rightarrow> ('a, 'pm, 'st) shuffler \<Rightarrow> 'a sharing \<Rightarrow> int list \<Rightarrow> 'a vec list \<Rightarrow> 'st
    \<Rightarrow> ('a sharing \<times> 'st) option" where
  "qs_loop P S v pivots exp_cmp st =
     Option.bind (qs_round P S v pivots exp_cmp st) (\<lambda>r.
       if sh_size v \<le> num_pivots (fst (snd (fst r))) then Some (fst (fst r), snd r)
       else qs_loop P S (fst (fst r)) (fst (snd (fst r))) (snd (snd (fst r))) (snd r))"

definition quicksort_body ::
  "('a::len, 'st) protocol \<Rightarrow> ('a, 'pm, 'st) shuffler \<Rightarrow> 'a sharing \<Rightarrow> 'st \<Rightarrow> ('a sharing \<times> 'st) option" where
  "quicksort_body P S v st = do {
     (v, st) \<leftarrow> sv_shuffle S True v st;
     let N = sh_size v;
     if N = 0 \<or> 2 ^ 31 \<le> N then None
     else qs_loop P S v ((replicate N (- 1))[0 := 0]) (replicate (length v) (replicate N 0)) st
   }"

end
