(* ===== verification/Quicksort_Plain.thy ===== *)
theory Quicksort_Plain
  imports Quicksort
begin

text \<open>
  The partition in the clear.  It only swaps positions, so on any number of columns it is one rearrangement \<open>t\<close> of the positions, which
  the functions below compute.  A pass keeps the invariant \<open>between\<close>: elements with a pivot between them are in order; it only adds
  pivots, and adds one whenever some element is not a pivot yet.
\<close>

section \<open>One rearrangement\<close>

definition lifted :: "'b list list \<Rightarrow> nat list \<Rightarrow> 'b list list" where
  "lifted cs t = map (\<lambda>c. map ((!) c) t) cs"

fun ploop :: "'c::zero list \<Rightarrow> nat list \<Rightarrow> nat \<Rightarrow> nat list \<Rightarrow> nat \<times> nat list" where
  "ploop cmp [] i t = (i, t)"
| "ploop cmp (j # js) i t = (if cmp ! j = 0 then ploop cmp js (i + 1) (swap_at j (i + 1) t) else ploop cmp js i t)"

definition psegment :: "'c::zero list \<Rightarrow> nat \<Rightarrow> nat \<Rightarrow> nat list \<Rightarrow> int list \<Rightarrow> nat list \<times> int list" where
  "psegment cmp s e t piv =
     (let (i, t) = ploop cmp [s + 1..<e + 1] s t; piv = piv[i := int i]
      in (swap_at s i t, if i + 1 \<le> e then piv[i + 1 := int (i + 1)] else piv))"

fun pscan :: "'c::zero list \<Rightarrow> nat list \<Rightarrow> nat \<Rightarrow> nat list \<Rightarrow> int list \<Rightarrow> nat \<times> nat list \<times> int list" where
  "pscan cmp [] s t piv = (s, t, piv)"
| "pscan cmp (p # ps) s t piv =
     (if piv ! p < 0 then pscan cmp ps s t piv
      else if p = Suc s then pscan cmp ps p t piv
      else (case psegment cmp s (p - 1) t piv of (t, piv) \<Rightarrow> pscan cmp ps p t piv))"

lemma swap_lifted: "i < length t \<Longrightarrow> j < length t \<Longrightarrow> map (swap_at i j) (lifted cs t) = lifted cs (swap_at i j t)"
  by (simp add: lifted_def swap_at_def map_update comp_def)

lemma partition_loop_lifted:
  "\<forall>j \<in> set js. j < length t \<Longrightarrow> i + length js < length t \<Longrightarrow>
    partition_loop cmp js i (lifted cs t) = (fst (ploop cmp js i t), lifted cs (snd (ploop cmp js i t)))"
  by (induction js arbitrary: i t) (auto simp: swap_lifted Let_def)

section \<open>The loop of a partition\<close>

text \<open>The elements of the segment are those of the segment before, and the others stay.\<close>

definition within :: "nat \<Rightarrow> nat \<Rightarrow> nat list \<Rightarrow> nat list \<Rightarrow> bool" where
  "within s e t t' \<longleftrightarrow> mset t' = mset t \<and> (\<forall>b. s \<le> b \<and> b \<le> e \<longrightarrow> (\<exists>c. s \<le> c \<and> c \<le> e \<and> t' ! b = t ! c)) \<and>
     (\<forall>b < length t. b < s \<or> e < b \<longrightarrow> t' ! b = t ! b)"

lemma within_refl: "within s e t t"
  by (auto simp: within_def)

lemma within_length: "within s e t t' \<Longrightarrow> length t' = length t"
  unfolding within_def by (metis size_mset)

lemma within_trans: "within s e t t' \<Longrightarrow> within s e t' t'' \<Longrightarrow> within s e t t''"
proof -
  assume a: "within s e t t'" and b: "within s e t' t''"
  have "\<exists>c. s \<le> c \<and> c \<le> e \<and> t'' ! x = t ! c" if x: "s \<le> x \<and> x \<le> e" for x
  proof -
    obtain c where "s \<le> c \<and> c \<le> e" "t'' ! x = t' ! c" using b x unfolding within_def by blast
    then show ?thesis using a unfolding within_def by metis
  qed
  then show ?thesis using a b within_length [OF a] by (simp add: within_def)
qed

lemma mset_swap_at: "i < length t \<Longrightarrow> j < length t \<Longrightarrow> mset (swap_at i j t) = mset t"
  by (simp add: swap_at_def mset_swap)

lemma within_swap:
  assumes "s \<le> i" "i \<le> e" "s \<le> j" "j \<le> e" "e < length t"
  shows "within s e t (swap_at i j t)"
  using assms by (auto simp: within_def mset_swap_at nth_swap_at)

lemma within_mono: "within s' e' t t' \<Longrightarrow> s \<le> s' \<Longrightarrow> e' \<le> e \<Longrightarrow> e < length t \<Longrightarrow> within s e t t'"
  unfolding within_def by (smt (verit, best) le_trans linorder_not_le order_le_less_trans)

lemma ploop_correct:
  assumes "s \<le> i" and "i < a" and "a \<le> e + 1" and "e < length t"
    and "\<forall>b. s < b \<and> b \<le> i \<longrightarrow> L (t ! b)" and "\<forall>b. i < b \<and> b < a \<longrightarrow> \<not> L (t ! b)"
    and "\<forall>j. a \<le> j \<and> j \<le> e \<longrightarrow> (cmp ! j = 0 \<longleftrightarrow> L (t ! j))" and "ploop cmp [a..<e + 1] i t = (i', t')"
  shows "s \<le> i' \<and> i' \<le> e \<and> (\<forall>b. s < b \<and> b \<le> i' \<longrightarrow> L (t' ! b)) \<and> (\<forall>b. i' < b \<and> b \<le> e \<longrightarrow> \<not> L (t' ! b)) \<and> within (Suc s) e t t'"
  using assms
proof (induction "e + 1 - a" arbitrary: a i t)
  case 0
  then show ?case by (auto simp: within_refl)
next
  case (Suc d)
  then have a: "a \<le> e" by linarith
  then have u: "[a..<e + 1] = a # [Suc a..<e + 1]" by (simp add: upt_conv_Cons)
  have d: "d = e + 1 - Suc a" using Suc.hyps(2) by simp
  show ?case
  proof (cases "cmp ! a = 0")
    case True
    let ?t = "swap_at a (i + 1) t"
    have l: "a < length t" "i + 1 < length t" "i + 1 \<le> a" using Suc.prems a by simp_all
    have n: "b < length t \<Longrightarrow> ?t ! b = (if b = a then t ! (i + 1) else if b = i + 1 then t ! a else t ! b)" for b
      using nth_swap_at [OF l(1,2)] by simp
    have run: "ploop cmp [Suc a..<e + 1] (i + 1) ?t = (i', t')" using Suc.prems(8) u True by simp
    have La: "L (t ! a)" using Suc.prems(7) a True by blast
    have p1: "\<forall>b. s < b \<and> b \<le> i + 1 \<longrightarrow> L (?t ! b)"
    proof (intro allI impI)
      fix b assume "s < b \<and> b \<le> i + 1"
      then show "L (?t ! b)" using n [of b] l La Suc.prems(5) by (cases "b = i + 1") auto
    qed
    have p2: "\<forall>b. i + 1 < b \<and> b < Suc a \<longrightarrow> \<not> L (?t ! b)"
    proof (intro allI impI)
      fix b assume b: "i + 1 < b \<and> b < Suc a"
      then have "?t ! b = (if b = a then t ! (i + 1) else t ! b)" using n [of b] l by auto
      then show "\<not> L (?t ! b)" using Suc.prems(6) b by (cases "b = a") auto
    qed
    have p3: "\<forall>j. Suc a \<le> j \<and> j \<le> e \<longrightarrow> (cmp ! j = 0 \<longleftrightarrow> L (?t ! j))" using n Suc.prems(4,7) l by auto
    have w: "within (Suc s) e t ?t" using Suc.prems a by (intro within_swap) simp_all
    from Suc.hyps(1) [OF d _ _ _ _ p1 p2 p3 run] Suc.prems(1-4) a show ?thesis
      using within_trans [OF w] within_length [OF w] by auto
  next
    case False
    then have run: "ploop cmp [Suc a..<e + 1] i t = (i', t')" using Suc.prems(8) u by simp
    have "\<not> L (t ! a)" using Suc.prems(7) a False by blast
    then have "\<forall>b. i < b \<and> b < Suc a \<longrightarrow> \<not> L (t ! b)" using Suc.prems(6) by (auto simp: less_Suc_eq)
    from Suc.hyps(1) [OF d Suc.prems(1) _ _ Suc.prems(4,5) this _ run] Suc.prems(2,7) a show ?thesis by auto
  qed
qed

section \<open>A segment\<close>

lemma psegment_correct:
  assumes "s \<le> e" and "e < length t" and "\<forall>j. s < j \<and> j \<le> e \<longrightarrow> (cmp ! j = 0 \<longleftrightarrow> L (t ! j))" and "L (t ! s)"
    and "psegment cmp s e t piv = (t', piv')"
  obtains i where "s \<le> i" and "i \<le> e" and "\<forall>b. s \<le> b \<and> b < i \<longrightarrow> L (t' ! b)" and "\<forall>b. i < b \<and> b \<le> e \<longrightarrow> \<not> L (t' ! b)"
    and "t' ! i = t ! s" and "within s e t t'" and "piv' = (if i + 1 \<le> e then piv[i := int i, i + 1 := int (i + 1)] else piv[i := int i])"
proof -
  obtain i u where u: "ploop cmp [s + 1..<e + 1] s t = (i, u)" by fastforce
  have c: "s \<le> i \<and> i \<le> e \<and> (\<forall>b. s < b \<and> b \<le> i \<longrightarrow> L (u ! b)) \<and> (\<forall>b. i < b \<and> b \<le> e \<longrightarrow> \<not> L (u ! b)) \<and> within (Suc s) e t u"
    by (rule ploop_correct [OF order_refl _ _ assms(2) _ _ _ u]) (use assms(1,3) in auto)
  have len: "length u = length t" using c within_length by blast
  then have l: "s < length u" "i < length u" "e < length u" using c assms(1,2) by simp_all
  have us: "u ! s = t ! s" using c assms(1,2) by (simp add: within_def)
  have t': "t' = swap_at s i u" using assms(5) u by (simp add: psegment_def Let_def)
  have n: "b < length u \<Longrightarrow> t' ! b = (if b = i then u ! s else if b = s then u ! i else u ! b)" for b
    using nth_swap_at [OF l(1,2)] t' by auto
  have w: "within s e t t'"
    unfolding t' by (rule within_trans [OF within_mono [of "Suc s" e]], use c len assms(1,2) in \<open>auto intro: within_swap\<close>)
  show thesis
  proof (rule that [of i])
    show "\<forall>b. s \<le> b \<and> b < i \<longrightarrow> L (t' ! b)" using n l c by (auto simp: le_less)
    show "\<forall>b. i < b \<and> b \<le> e \<longrightarrow> \<not> L (t' ! b)" using n l c by auto
    show "t' ! i = t ! s" using n [of i] l us by simp
    show "piv' = (if i + 1 \<le> e then piv[i := int i, i + 1 := int (i + 1)] else piv[i := int i])"
      using assms(5) u by (simp add: psegment_def Let_def)
  qed (use c w in simp_all)
qed

section \<open>The invariant\<close>

definition own_pivots :: "int list \<Rightarrow> bool" where
  "own_pivots piv \<longleftrightarrow> (\<forall>j < length piv. piv ! j = - 1 \<or> piv ! j = int j)"

definition between :: "('i \<Rightarrow> 'o::linorder) \<Rightarrow> 'i list \<Rightarrow> int list \<Rightarrow> bool" where
  "between K t piv \<longleftrightarrow> (\<forall>a p b. a < p \<and> p \<le> b \<and> b < length t \<and> 0 \<le> piv ! p \<longrightarrow> K (t ! a) \<le> K (t ! b))"

definition compared :: "('i \<Rightarrow> 'o::linorder) \<Rightarrow> 'c::zero list \<Rightarrow> nat \<Rightarrow> 'i list \<Rightarrow> int list \<Rightarrow> bool" where
  "compared K cmp s t piv \<longleftrightarrow> (\<forall>p j. s \<le> p \<and> p < j \<and> j < length t \<and> 0 \<le> piv ! p \<and> (\<forall>q. p < q \<and> q \<le> j \<longrightarrow> piv ! q < 0) \<longrightarrow>
     (cmp ! j = 0 \<longleftrightarrow> K (t ! j) \<le> K (t ! p)))"

definition advances :: "nat \<Rightarrow> nat \<Rightarrow> int list \<Rightarrow> int list \<Rightarrow> bool" where
  "advances s e piv piv' \<longleftrightarrow> length piv' = length piv \<and> (\<forall>j < length piv. 0 \<le> piv ! j \<longrightarrow> 0 \<le> piv' ! j) \<and>
     ((\<exists>j. s < j \<and> j \<le> e \<and> piv ! j < 0) \<longrightarrow> (\<exists>j < length piv. piv ! j < 0 \<and> 0 \<le> piv' ! j))"

lemma advances_trans:
  assumes a: "advances s e piv piv'" and b: "advances e f piv' piv''" and f: "f < length piv"
  shows "advances s f piv piv''"
proof -
  have keep: "piv ! k < 0" if "k < length piv" "piv' ! k < 0" for k using a that unfolding advances_def by (meson linorder_not_le)
  have "\<exists>k < length piv. piv ! k < 0 \<and> 0 \<le> piv'' ! k" if j: "s < j" "j \<le> f" "piv ! j < 0" for j
  proof (cases "j \<le> e \<or> 0 \<le> piv' ! j")
    case True
    then obtain k where "k < length piv" "piv ! k < 0" "0 \<le> piv' ! k"
      using a j f unfolding advances_def by (meson le_less_trans)
    then show ?thesis using a b unfolding advances_def by metis
  next
    case False
    then obtain k where "k < length piv'" "piv' ! k < 0" "0 \<le> piv'' ! k"
      using b j unfolding advances_def by (meson linorder_not_le)
    then show ?thesis using keep a unfolding advances_def by metis
  qed
  then show ?thesis using a b by (auto simp: advances_def)
qed

lemma advances_refl: "\<forall>j. s < j \<and> j \<le> e \<longrightarrow> 0 \<le> piv ! j \<Longrightarrow> advances s e piv piv"
  by (force simp: advances_def)

lemma psegment_step:
  assumes "s \<le> e" and "e < length t" and "length piv = length t" and "0 \<le> piv ! s"
    and none: "\<forall>j. s < j \<and> j \<le> e \<longrightarrow> piv ! j < 0" and stop: "e + 1 < length t \<longrightarrow> 0 \<le> piv ! (e + 1)"
    and b: "between K t piv" and o: "own_pivots piv" and c: "compared K cmp s t piv" and r: "psegment cmp s e t piv = (t', piv')"
  shows "between K t' piv' \<and> own_pivots piv' \<and> within s e t t' \<and> advances s e piv piv' \<and> (\<forall>j. e < j \<longrightarrow> piv' ! j = piv ! j)"
proof -
  have l: "\<forall>j. s < j \<and> j \<le> e \<longrightarrow> (cmp ! j = 0 \<longleftrightarrow> K (t ! j) \<le> K (t ! s))"
    using c assms(2,4) none unfolding compared_def by (meson le_less_trans le_trans order_refl)
  obtain i where i: "s \<le> i" "i \<le> e" and lo: "\<forall>b. s \<le> b \<and> b < i \<longrightarrow> K (t' ! b) \<le> K (t ! s)"
    and hi: "\<forall>b. i < b \<and> b \<le> e \<longrightarrow> \<not> K (t' ! b) \<le> K (t ! s)" and at: "t' ! i = t ! s" and w: "within s e t t'"
    and piv': "piv' = (if i + 1 \<le> e then piv[i := int i, i + 1 := int (i + 1)] else piv[i := int i])"
    by (rule psegment_correct [OF assms(1,2) l _ r]) simp_all
  have len: "length t' = length t" "length piv' = length piv" using within_length [OF w] piv' by simp_all
  have n: "piv' ! j = (if j = i \<or> j = i + 1 \<and> i + 1 \<le> e then int j else piv ! j)" if "j < length piv" for j
    using that piv' i assms(2,3) by (auto simp: nth_list_update)
  have src: "\<exists>c. t' ! x = t ! c \<and> c < length t \<and> (if s \<le> x \<and> x \<le> e then s \<le> c \<and> c \<le> e else c = x)" if "x < length t" for x
    using w that assms(2) unfolding within_def by (metis le_less_trans linorder_not_le)
  have "K (t' ! a) \<le> K (t' ! d)" if h: "a < p" "p \<le> d" "d < length t'" "0 \<le> piv' ! p" for a p d
  proof (cases "s \<le> a \<and> d \<le> e")
    case True
    then have "\<not> (s < p \<and> p \<le> e \<and> 0 \<le> piv ! p)" using none by force
    then have "p = i \<or> p = i + 1" using n [of p] h len assms(3) True by (auto split: if_splits)
    then have "a \<le> i" "i \<le> d" "a \<noteq> i \<or> i < d" using h by auto
    then have "K (t' ! a) \<le> K (t ! s)" "K (t ! s) \<le> K (t' ! d)"
      using lo hi at True by (metis order_refl le_neq_implies_less, metis linear order_refl le_neq_implies_less)
    then show ?thesis by simp
  next
    case False
    obtain x where x: "t' ! a = t ! x" "x < length t" "if s \<le> a \<and> a \<le> e then s \<le> x \<and> x \<le> e else x = a"
      using src [of a] h len by fastforce
    obtain y where y: "t' ! d = t ! y" "y < length t" "if s \<le> d \<and> d \<le> e then s \<le> y \<and> y \<le> e else y = d"
      using src [of d] h len by fastforce
    consider "d < s \<or> e < a" | "a < s" "s \<le> d" | "a \<le> e" "e < d" using False h by linarith
    then have "\<exists>q. x < q \<and> q \<le> y \<and> 0 \<le> piv ! q"
    proof cases
      case 1
      then have "x = a" "y = d" using x y h by auto
      moreover have "0 \<le> piv ! p" using n [of p] h len assms(3) 1 i by (auto split: if_splits)
      ultimately show ?thesis using h by blast
    next
      case 2
      then have "x = a" "s \<le> y" using x y by (auto split: if_splits)
      then show ?thesis using 2 assms(4) by blast
    next
      case 3
      then have "x \<le> e" "y = d" using x y by (auto split: if_splits)
      then show ?thesis using 3 h len stop by (metis Suc_eq_plus1 Suc_leI le_imp_less_Suc le_less_trans)
    qed
    then show ?thesis using b x y unfolding between_def by metis
  qed
  then have "between K t' piv'" by (auto simp: between_def)
  moreover have "own_pivots piv'" using o n len by (auto simp: own_pivots_def)
  moreover have "advances s e piv piv'"
  proof -
    have "\<exists>j < length piv. piv ! j < 0 \<and> 0 \<le> piv' ! j" if "s < j" "j \<le> e" for j
      using n [of "if i = s then i + 1 else i"] none i that assms(2,3) by (intro exI [of _ "if i = s then i + 1 else i"]) auto
    then show ?thesis using n len by (auto simp: advances_def)
  qed
  moreover have "\<forall>j. e < j \<longrightarrow> piv' ! j = piv ! j" using piv' i by (auto simp: nth_list_update_neq)
  ultimately show ?thesis using w by blast
qed

section \<open>A pass\<close>

lemma compared_mono:
  assumes "compared K cmp s t piv" and "s \<le> s'" and "length t' = length t"
    and "\<forall>j. s' \<le> j \<and> j < length t \<longrightarrow> t' ! j = t ! j \<and> piv' ! j = piv ! j"
  shows "compared K cmp s' t' piv'"
  unfolding compared_def
proof (intro allI impI)
  fix p j assume h: "s' \<le> p \<and> p < j \<and> j < length t' \<and> 0 \<le> piv' ! p \<and> (\<forall>q. p < q \<and> q \<le> j \<longrightarrow> piv' ! q < 0)"
  then have "s \<le> p" "p < j" "j < length t" "0 \<le> piv ! p" "\<forall>q. p < q \<and> q \<le> j \<longrightarrow> piv ! q < 0" using assms by auto
  then have "cmp ! j = 0 \<longleftrightarrow> K (t ! j) \<le> K (t ! p)" using assms(1) unfolding compared_def by blast
  then show "cmp ! j = 0 \<longleftrightarrow> K (t' ! j) \<le> K (t' ! p)" using h assms by auto
qed

lemma within_mset: "within s e t t' \<Longrightarrow> mset t' = mset t"
  by (simp add: within_def)

lemma within_above: "within s e t t' \<Longrightarrow> e < j \<Longrightarrow> j < length t \<Longrightarrow> t' ! j = t ! j"
  by (simp add: within_def)

lemma pscan_correct:
  assumes "s < q" and "q \<le> length t" and "length piv = length t" and "0 \<le> piv ! s" and "\<forall>j. s < j \<and> j < q \<longrightarrow> piv ! j < 0"
    and "between K t piv" and "own_pivots piv" and "compared K cmp s t piv" and "pscan cmp [q..<length t] s t piv = (s', t', piv')"
  shows "s' < length t' \<and> 0 \<le> piv' ! s' \<and> (\<forall>j. s' < j \<and> j < length t' \<longrightarrow> piv' ! j < 0) \<and> between K t' piv' \<and> own_pivots piv' \<and>
    compared K cmp s' t' piv' \<and> mset t' = mset t \<and> advances s s' piv piv'"
  using assms
proof (induction "length t - q" arbitrary: q s t piv)
  case 0
  then have "q = length t" by simp
  with 0 show ?case by (auto simp: advances_refl)
next
  case (Suc d)
  then have q: "q < length t" and d: "d = length t - Suc q" by simp_all
  then have u: "[q..<length t] = q # [Suc q..<length t]" by (simp add: upt_conv_Cons)
  note p = Suc.prems
  show ?case
  proof (cases "piv ! q < 0")
    case True
    then have "pscan cmp [Suc q..<length t] s t piv = (s', t', piv')" using p(9) u by simp
    moreover have "\<forall>j. s < j \<and> j < Suc q \<longrightarrow> piv ! j < 0" using p(5) True by (auto simp: less_Suc_eq)
    ultimately show ?thesis using Suc.hyps(1) [OF d, of s piv] p(1,3,4,6-8) q by (meson less_SucI Suc_leI)
  next
    case False
    show ?thesis
    proof (cases "q = Suc s")
      case adjacent: True
      then have run: "pscan cmp [Suc q..<length t] q t piv = (s', t', piv')" using p(9) u False by simp
      have c: "compared K cmp q t piv" using compared_mono [OF p(8)] adjacent by simp
      have r: "advances q s' piv piv'" and rest: "s' < length t' \<and> 0 \<le> piv' ! s' \<and> (\<forall>j. s' < j \<and> j < length t' \<longrightarrow> piv' ! j < 0) \<and>
          between K t' piv' \<and> own_pivots piv' \<and> compared K cmp s' t' piv' \<and> mset t' = mset t"
        using Suc.hyps(1) [OF d lessI _ p(3) _ _ p(6,7) c run] q False by auto
      have "advances s q piv piv" using adjacent False by (intro advances_refl) (auto simp: le_Suc_eq)
      moreover have "s' < length piv" using rest p(3) by (metis size_mset)
      ultimately have "advances s s' piv piv'" using advances_trans r by blast
      then show ?thesis using rest by blast
    next
      case far: False
      obtain t1 piv1 where seg: "psegment cmp s (q - 1) t piv = (t1, piv1)" by fastforce
      then have run: "pscan cmp [Suc q..<length t] q t1 piv1 = (s', t', piv')" using p(9) u False far by simp
      have "q - 1 + 1 = q" using p(1) by simp
      then have step: "between K t1 piv1 \<and> own_pivots piv1 \<and> within s (q - 1) t t1 \<and> advances s (q - 1) piv piv1 \<and>
          (\<forall>j. q - 1 < j \<longrightarrow> piv1 ! j = piv ! j)"
        by (intro psegment_step [OF _ _ p(3,4) _ _ p(6-8) seg]) (use p q False in auto)
      then have len: "length t1 = length t" "length piv1 = length t" using within_length p(3) by (auto simp: advances_def)
      have keep: "\<forall>j. q \<le> j \<and> j < length t \<longrightarrow> t1 ! j = t ! j \<and> piv1 ! j = piv ! j"
      proof (intro allI impI)
        fix j assume "q \<le> j \<and> j < length t"
        then have "q - 1 < j" "j < length t" using p(1) by auto
        then show "t1 ! j = t ! j \<and> piv1 ! j = piv ! j" using step within_above by blast
      qed
      have c: "compared K cmp q t1 piv1" using compared_mono [OF p(8) _ len(1) keep] p(1) by simp
      have "d = length t1 - Suc q" using d len by simp
      from Suc.hyps(1) [OF this lessI, of piv1] keep step c run q False len
      have r: "advances q s' piv1 piv'" and rest: "s' < length t' \<and> 0 \<le> piv' ! s' \<and> (\<forall>j. s' < j \<and> j < length t' \<longrightarrow> piv' ! j < 0) \<and>
          between K t' piv' \<and> own_pivots piv' \<and> compared K cmp s' t' piv' \<and> mset t' = mset t1"
        by auto
      have "advances (q - 1) q piv1 piv1" using False keep q by (intro advances_refl) (metis Suc_pred' le_SucE le_less_trans linorder_not_le p(1) zero_le order_refl Suc_leI)
      then have "advances s q piv piv1" using step advances_trans q p(3) by metis
      moreover have "mset t' = mset t" using rest step within_mset by metis
      moreover have "s' < length piv" using rest p(3) calculation(2) by (metis size_mset)
      ultimately show ?thesis using rest r advances_trans by blast
    qed
  qed
qed

definition ppass :: "'c::zero list \<Rightarrow> nat list \<Rightarrow> int list \<Rightarrow> nat list \<times> int list" where
  "ppass cmp t piv = (case pscan cmp [1..<length t] 0 t piv of (s, t, piv) \<Rightarrow> psegment cmp s (length t - 1) t piv)"

lemma num_pivots_card: "num_pivots piv = card {j. j < length piv \<and> 0 \<le> piv ! j}"
  by (simp add: num_pivots_def length_filter_conv_card)

lemma advances_num:
  assumes "advances s e piv piv'" and "\<exists>j. s < j \<and> j \<le> e \<and> piv ! j < 0"
  shows "num_pivots piv < num_pivots piv'"
proof -
  obtain j where "j < length piv" "piv ! j < 0" "0 \<le> piv' ! j" using assms unfolding advances_def by blast
  then have "{j. j < length piv \<and> 0 \<le> piv ! j} \<subset> {j. j < length piv' \<and> 0 \<le> piv' ! j}"
    using assms(1) unfolding advances_def by (intro psubsetI subsetI) (simp, metis (mono_tags, lifting) linorder_not_less mem_Collect_eq)
  then show ?thesis unfolding num_pivots_card by (rule psubset_card_mono [rotated]) (rule finite_subset [of _ "{..<length piv'}"], auto)
qed

lemma advances_mono: "advances s e piv piv' \<Longrightarrow> num_pivots piv \<le> num_pivots piv'"
  unfolding num_pivots_card advances_def by (intro card_mono) auto

lemma ppass_correct:
  assumes "t \<noteq> []" and "length piv = length t" and "0 \<le> piv ! 0" and "between K t piv" and "own_pivots piv"
    and "compared K cmp 0 t piv" and "ppass cmp t piv = (t', piv')"
  shows "mset t' = mset t" and "between K t' piv'" and "own_pivots piv'" and "advances 0 (length t - 1) piv piv'"
proof -
  obtain s u pu where scan: "pscan cmp [1..<length t] 0 t piv = (s, u, pu)" by (metis prod_cases3)
  have c: "s < length u \<and> 0 \<le> pu ! s \<and> (\<forall>j. s < j \<and> j < length u \<longrightarrow> pu ! j < 0) \<and> between K u pu \<and> own_pivots pu \<and>
      compared K cmp s u pu \<and> mset u = mset t \<and> advances 0 s piv pu"
    by (rule pscan_correct [OF _ _ assms(2,3) _ assms(4-6) scan]) (use assms(1) in \<open>auto simp: Suc_le_eq\<close>)
  then have len: "length u = length t" "length pu = length t" using assms(2) by (auto simp: advances_def dest: mset_eq_length)
  have run: "psegment cmp s (length u - 1) u pu = (t', piv')" using assms(7) scan by (simp add: ppass_def)
  have d: "between K t' piv' \<and> own_pivots piv' \<and> within s (length u - 1) u t' \<and> advances s (length u - 1) pu piv' \<and>
      (\<forall>j. length u - 1 < j \<longrightarrow> piv' ! j = pu ! j)"
    by (rule psegment_step [OF _ _ _ _ _ _ _ _ _ run]) (use c len in auto)
  show "mset t' = mset t" using c d within_mset by metis
  show "between K t' piv'" "own_pivots piv'" using d by simp_all
  have "length t - 1 < length piv" using assms(1,2) by (cases t) simp_all
  then show "advances 0 (length t - 1) piv piv'" using c d len advances_trans by metis
qed

lemma ppass_num:
  assumes "advances 0 (length piv - 1) piv piv'" and "0 \<le> piv ! 0" and "num_pivots piv < length piv"
  shows "num_pivots piv < num_pivots piv'"
proof -
  have "\<exists>j < length piv. piv ! j < 0"
  proof (rule ccontr)
    assume "\<not> (\<exists>j < length piv. piv ! j < 0)"
    then have "filter (\<lambda>x. 0 \<le> x) piv = piv" by (metis filter_True in_set_conv_nth linorder_not_less)
    then show False using assms(3) by (simp add: num_pivots_def)
  qed
  then obtain j where "j < length piv" "piv ! j < 0" by blast
  moreover from this assms(2) have "0 < j" by (cases j) auto
  ultimately show ?thesis using advances_num [OF assms(1)] by force
qed

lemma between_sorted:
  assumes "between K t piv" and "length piv = length t" and "length t \<le> num_pivots piv"
  shows "sorted (map K t)"
proof -
  have "length (filter (\<lambda>x. 0 \<le> x) piv) = length piv"
    using assms(2,3) length_filter_le [of "\<lambda>x. 0 \<le> x" piv] by (simp add: num_pivots_def)
  then have "\<forall>x \<in> set piv. 0 \<le> x" by (metis filter_id_conv length_filter_less less_irrefl)
  then have "\<forall>j < length t. 0 \<le> piv ! j" using assms(2) nth_mem by metis
  then show ?thesis using assms(1) by (auto simp: sorted_iff_nth_mono_less between_def)
qed

section \<open>The pass of the code\<close>

lemma ploop_bound: "fst (ploop cmp js i t) \<le> i + length js" "length (snd (ploop cmp js i t)) = length t"
  by (induction cmp js i t rule: ploop.induct) (auto simp: swap_at_def)

lemma qs_partition_lifted:
  assumes "s \<le> e" and "e < length t" and "length piv = length t"
  shows "qs_partition cmp (int s) (int e) (lifted cs t) piv =
    Some (lifted cs (fst (psegment cmp s e t piv)), snd (psegment cmp s e t piv))"
proof -
  let ?js = "[s + 1..<e + 1]"
  obtain i u where u: "ploop cmp ?js s t = (i, u)" by fastforce
  have l: "i \<le> e" "length u = length t" using ploop_bound [of cmp ?js s t] u assms(1) by (simp_all del: upt_Suc)
  have "\<forall>j \<in> set ?js. j < length t" "s + length ?js < length t" using assms by auto
  then have "partition_loop cmp ?js s (lifted cs t) = (i, lifted cs u)" using partition_loop_lifted [of ?js t s cmp cs] u by (simp del: upt_Suc)
  moreover have "nat (int s) + 1 = s + 1" "nat (int e) + 1 = e + 1" by simp_all
  moreover have "map (swap_at s i) (lifted cs u) = lifted cs (swap_at s i u)" using l assms by (intro swap_lifted) simp_all
  moreover have "int i + 1 \<le> int e \<longleftrightarrow> i + 1 \<le> e" "int i + 1 = int (i + 1)" by linarith+
  ultimately show ?thesis using assms u by (simp add: qs_partition_def psegment_def Let_def add.commute)
qed

lemma psegment_length: "length (fst (psegment cmp s e t piv)) = length t" "length (snd (psegment cmp s e t piv)) = length piv"
  using ploop_bound(2) [of cmp "[s + 1..<e + 1]" s t] by (auto simp: psegment_def Let_def swap_at_def split: prod.splits)

lemma qs_scan_lifted:
  assumes "s < q" and "q \<le> length t" and "length piv = length t" and "pscan cmp [q..<length t] s t piv = (s', t', piv')"
  shows "qs_scan cmp [q..<length t] (int s) (lifted cs t) piv = Some (int s', lifted cs t', piv') \<and> s' < length t' \<and>
    length t' = length t \<and> length piv' = length t"
  using assms
proof (induction "length t - q" arbitrary: q s t piv)
  case 0
  then show ?case by simp
next
  case (Suc d)
  then have q: "q < length t" and d: "d = length t - Suc q" by simp_all
  then have u: "[q..<length t] = q # [Suc q..<length t]" by (simp add: upt_conv_Cons)
  note p = Suc.prems
  show ?case
  proof (cases "piv ! q < 0")
    case True
    then show ?thesis using Suc.hyps(1) [OF d, of s piv] p u q by simp
  next
    case False
    obtain t1 piv1 where seg: "psegment cmp s (q - 1) t piv = (t1, piv1)" by fastforce
    then have len: "length t1 = length t" "length piv1 = length t" using psegment_length p(3) by (metis fst_conv, metis snd_conv)
    have "int q - 1 = int (q - 1)" using p(1) by simp
    then have qp: "qs_partition cmp (int s) (int q - 1) (lifted cs t) piv = Some (lifted cs t1, piv1)"
      using qs_partition_lifted [of s "q - 1" t piv cmp cs] seg p q by simp
    show ?thesis
    proof (cases "q = Suc s")
      case True
      then show ?thesis using Suc.hyps(1) [OF d lessI _ p(3)] p(4) u q False by (simp add: add.commute)
    next
      case far: False
      then have "int q - int s \<noteq> 1" by simp
      then show ?thesis using Suc.hyps(1) [of t1 "Suc q" q piv1] d len p(4) u q False far qp seg by simp
    qed
  qed
qed

lemma qs_pass_lifted:
  assumes "t \<noteq> []" and "length piv = length t" and "0 \<le> piv ! 0"
  shows "qs_pass cmp (lifted cs t) piv = Some (lifted cs (fst (ppass cmp t piv)), snd (ppass cmp t piv))"
proof -
  obtain s u pu where scan: "pscan cmp [1..<length t] 0 t piv = (s, u, pu)" by (metis prod_cases3)
  have n: "0 < length t" using assms(1) by simp
  then have first: "[0..<length piv] = 0 # [1..<length t]" using assms(2) by (simp add: upt_conv_Cons)
  have q: "qs_scan cmp [1..<length t] (int 0) (lifted cs t) piv = Some (int s, lifted cs u, pu) \<and> s < length u \<and>
      length u = length t \<and> length pu = length t"
    by (rule qs_scan_lifted [OF _ _ assms(2) scan]) (use n in \<open>auto simp: Suc_le_eq\<close>)
  have "int (length pu) - 1 = int (length u - 1)" using q n by simp
  moreover have "qs_partition cmp (int s) (int (length u - 1)) (lifted cs u) pu =
      Some (lifted cs (fst (psegment cmp s (length u - 1) u pu)), snd (psegment cmp s (length u - 1) u pu))"
    using q n by (intro qs_partition_lifted) auto
  ultimately show ?thesis using q assms(3) scan by (simp add: qs_pass_def first ppass_def)
qed

end
