(* ===== verification/Quicksort_Proofs.thy ===== *)
theory Quicksort_Proofs
  imports Quicksort_Plain Elementwise_Proofs Sorting_Proofs
begin

text \<open>
  Quicksort inside a contract that joins the boolean circuits with the shuffle: every round opens the comparisons of the remaining
  elements with the nearest pivot on their left, keeps the invariant \<open>between\<close> for the secret and adds a pivot, so the loop ends with the
  sorted secret.
\<close>

section \<open>The nearest pivot\<close>

lemma inclusive_scan_max:
  "j < length xs \<Longrightarrow> inclusive_scan max acc xs ! j \<in> insert acc (set (take (Suc j) xs)) \<and>
    (\<forall>x \<in> insert acc (set (take (Suc j) xs)). x \<le> inclusive_scan max acc xs ! j)"
  for acc :: int
proof (induction xs arbitrary: acc j)
  case (Cons y ys)
  show ?case
  proof (cases j)
    case (Suc i)
    then show ?thesis using Cons.IH [of i "max acc y"] Cons.prems by (auto simp: max_def split: if_splits)
  qed (simp add: max_def)
qed simp

lemma prefix_max_nth:
  assumes "j < length v"
  shows "prefix_max v ! j \<in> set (take (Suc j) v)" and "x \<in> set (take (Suc j) v) \<Longrightarrow> x \<le> prefix_max v ! j"
  using assms inclusive_scan_max [of "j - 1" "tl v" "hd v"]
  by (cases v; cases j; force simp: prefix_max_def)+

lemma nearest_pivot:
  assumes "own_pivots piv" and "0 \<le> piv ! 0" and "j < length piv"
  obtains p where "p \<le> j" and "prefix_max piv ! j = int p" and "0 \<le> piv ! p" and "\<forall>q. p < q \<and> q \<le> j \<longrightarrow> piv ! q < 0"
proof -
  obtain p where p: "p \<le> j" "prefix_max piv ! j = piv ! p"
    using prefix_max_nth(1) [OF assms(3)] assms(3) by (auto simp: in_set_conv_nth less_Suc_eq_le)
  have le: "piv ! q \<le> piv ! p" if "q \<le> j" for q
  proof -
    have "piv ! q \<in> set (take (Suc j) piv)" using that assms(3) nth_mem [of q "take (Suc j) piv"] by simp
    then show ?thesis using prefix_max_nth(2) [OF assms(3)] p(2) by simp
  qed
  then have g: "0 \<le> piv ! p" using assms(2) order_trans by blast
  then have own: "piv ! p = int p" using assms(1,3) p(1) unfolding own_pivots_def by (metis le_less_trans neg_0_le_iff_le not_one_le_zero)
  have "piv ! q < 0" if "p < q" "q \<le> j" for q
  proof -
    have "q < length piv" using that(2) assms(3) by (rule le_less_trans)
    then have "piv ! q = - 1 \<or> piv ! q = int q" using assms(1) by (simp add: own_pivots_def)
    then show ?thesis using le [OF that(2)] own that(1) by auto
  qed
  then show thesis using that p g own by metis
qed

definition near :: "int list \<Rightarrow> nat \<Rightarrow> nat" where
  "near piv j = nat (prefix_max piv ! j)"

definition open_positions :: "int list \<Rightarrow> nat list" where
  "open_positions piv = filter (\<lambda>j. piv ! j < 0) [0..<length piv]"

lemma pivot_views_correct:
  assumes "own_pivots piv" and "0 \<le> piv ! 0"
  shows "\<exists>pv sel. pivot_views piv = Some (pv, sel) \<and> positions pv = map (near piv) (open_positions piv) \<and>
    positions sel = open_positions piv \<and> total_size pv = length (open_positions piv) \<and> total_size sel = length (open_positions piv)"
proof -
  let ?f = "map (\<lambda>p. of_bool (p < 0) :: int) piv"
  let ?sel = "\<lparr>extent = length piv, mapping = Some (open_positions piv)\<rparr>"
  have js: "filter (\<lambda>fi. ?f ! fi \<noteq> 0) [0..<min (total_size (base (length piv))) (length ?f)] = open_positions piv"
    by (auto simp: open_positions_def base_def total_size_def intro!: filter_cong)
  have "map (mapped (base (length piv))) (open_positions piv) = map (\<lambda>j. Some j) (open_positions piv)"
    by (simp add: mapped_def base_def)
  then have "remapped (base (length piv)) (open_positions piv) = Some ?sel"
    unfolding remapped_def by (simp only: those_Some) (simp add: base_def)
  then have sel: "included_reference ?f (base (length piv)) = Some ?sel" unfolding included_reference_def js .
  have get: "view_get ?sel (prefix_max piv) = map ((!) (prefix_max piv)) (open_positions piv)" by (simp add: view_get_def positions_def)
  have nonneg: "(\<exists>x \<in> set (view_get ?sel (prefix_max piv)). x < 0) = False"
  proof -
    have "0 \<le> prefix_max piv ! j" if "j \<in> set (open_positions piv)" for j
    proof -
      have "j < length piv" using that by (simp add: open_positions_def)
      then show ?thesis by (rule nearest_pivot [OF assms]) simp
    qed
    then show ?thesis unfolding get by (auto simp: not_less)
  qed
  then have "pivot_views piv = Some (\<lparr>extent = length piv, mapping = Some (map (near piv) (open_positions piv))\<rparr>, ?sel)"
    unfolding pivot_views_def Let_def sel bind.bind_lunit nonneg if_False get
    by (simp add: mapping_reference_def base_def near_def comp_def)
  then show ?thesis by (simp add: positions_def total_size_def)
qed

section \<open>The contract\<close>

locale quicksort_engine = shuffling_protocol S n k m ok acts + bp: boolean_protocol P n k ok
  for S :: "('a::len, 'pm, 'st) shuffler" and n k m :: nat and ok :: "'st \<Rightarrow> bool" and acts :: "bool \<Rightarrow> nat list \<Rightarrow> 'pm \<Rightarrow> bool"
    and P :: "('a, 'st) protocol" +
  assumes open_any: "ok st \<Longrightarrow> is_sharing n k q l X \<Longrightarrow> \<exists>st'. s_open S True X st = Some (replicate n (reveal_b X), st') \<and> ok st'"
begin

abbreviation keyed :: "'a vec \<Rightarrow> nat \<Rightarrow> int" where
  "keyed x \<equiv> \<lambda>i. sint (x ! i)"

lemma comparisons_correct:
  assumes "ok st" and X: "is_sharing n k q m X" and piv: "own_pivots piv" "0 \<le> piv ! 0" "length piv = m" and e: "length e = m"
  shows "\<exists>pv sel T C r st1 st2 e'. pivot_views piv = Some (pv, sel) \<and> sv_compare P (sh_get sel X) (sh_get pv X) st = Some ((T, C), st1) \<and>
    s_open S True C st1 = Some (replicate n r, st2) \<and> ok st2 \<and> view_set sel r e = Some e' \<and> length e' = m \<and>
    compared (keyed (reveal_b X)) e' 0 [0..<m] piv"
proof -
  let ?js = "open_positions piv" and ?x = "reveal_b X"
  obtain pv sel where v: "pivot_views piv = Some (pv, sel)" "positions pv = map (near piv) ?js" "positions sel = ?js"
    "total_size pv = length ?js" "total_size sel = length ?js" using pivot_views_correct [OF piv(1,2)] by blast
  have js: "\<forall>j \<in> set ?js. j < m" "distinct ?js" using piv(3) by (auto simp: open_positions_def)
  have "near piv j < m" if "j \<in> set ?js" for j
    using nearest_pivot [OF piv(1,2), of j] js(1) that piv(3) by (metis le_less_trans nat_int near_def)
  then have ps: "\<forall>j \<in> set (positions pv). j < m" "\<forall>j \<in> set (positions sel). j < m" using js(1) v(2,3) by auto
  note gp = get_sharing [OF X k_pos n_pos ps(1)] and gs = get_sharing [OF X k_pos n_pos ps(2)]
  obtain T C st1 where C: "sv_compare P (sh_get sel X) (sh_get pv X) st = Some ((T, C), st1)" "ok st1" "is_sharing n k 0 (length ?js) C"
    "reveal_b C = map2 (\<lambda>x y. of_bool (sint y < sint x)) (view_get sel ?x) (view_get pv ?x)"
    using bp.sv_compare_correct [OF assms(1) gs(1) [unfolded v(5)] gp(1) [unfolded v(4)]] unfolding gs(2) gp(2) by blast
  obtain st2 where o: "s_open S True C st1 = Some (replicate n (reveal_b C), st2)" "ok st2" using open_any [OF C(2,3)] by blast
  let ?e = "scatter ?js (reveal_b C) e"
  have lc: "length (reveal_b C) = length ?js" using C(4) v(2,3) by (simp add: view_get_def)
  then have set: "view_set sel (reveal_b C) e = Some ?e" using v(3,5) by (simp add: view_set_def)
  have "?e ! j = 0 \<longleftrightarrow> keyed ?x j \<le> keyed ?x p"
    if p: "p < j" "j < m" "0 \<le> piv ! p" "\<forall>q. p < q \<and> q \<le> j \<longrightarrow> piv ! q < 0" for p j
  proof -
    have "near piv j = p"
    proof -
      obtain p' where "p' \<le> j" "prefix_max piv ! j = int p'" "0 \<le> piv ! p'" "\<forall>q. p' < q \<and> q \<le> j \<longrightarrow> piv ! q < 0"
        using nearest_pivot [OF piv(1,2), of j] p(2) piv(3) by metis
      then show ?thesis using p unfolding near_def by (metis linorder_neqE_nat linorder_not_le nat_int less_imp_le)
    qed
    moreover have "j \<in> set ?js" using p piv(3) by (auto simp: open_positions_def)
    then obtain i where i: "i < length ?js" "j = ?js ! i" by (metis in_set_conv_nth)
    then have "?e ! j = reveal_b C ! i" using nth_scatter [OF js(2) lc i(1)] js(1) e by simp
    ultimately show ?thesis using i unfolding C(4) view_get_def v(2,3) by (auto simp: not_less)
  qed
  then have "compared (keyed ?x) ?e 0 [0..<m] piv" by (auto simp: compared_def)
  moreover have "length ?e = m" using e by simp
  ultimately show ?thesis using v(1) C(1) o set by blast
qed

lemma pass_sharing:
  assumes X: "is_sharing n k q m X" and "0 < m" and "length piv = m" and "0 \<le> piv ! 0" and p: "ppass e [0..<m] piv = (t, piv')"
    and "mset t = mset [0..<m]"
  defines "rs \<equiv> map (\<lambda>x. (lifted (cols x) t, piv')) X"
  shows "those (map2 (\<lambda>c x. qs_pass c (cols x) piv) (replicate n e) X) = Some rs"
    and "is_sharing n k q m (map2 (\<lambda>r x. x\<lparr>cols := fst r\<rparr>) rs X)"
    and "reveal_b (map2 (\<lambda>r x. x\<lparr>cols := fst r\<rparr>) rs X) = map ((!) (reveal_b X)) t"
proof -
  have lX: "length X = n" using is_sharing_length [OF X] .
  have id: "lifted (cols x) [0..<m] = cols x" if "x \<in> set X" for x
  proof -
    have "\<forall>c \<in> set (cols x). length c = m" using that column_length [OF X] by blast
    then have "map (\<lambda>c. map ((!) c) [0..<m]) (cols x) = map (\<lambda>c. c) (cols x)" by (intro map_cong refl) (metis map_nth)
    then show ?thesis by (simp add: lifted_def)
  qed
  have "qs_pass e (cols x) piv = Some (lifted (cols x) t, piv')" if "x \<in> set X" for x
    using qs_pass_lifted [of "[0..<m]" piv e "cols x"] assms(2-4) p id [OF that] by simp
  then have "map2 (\<lambda>c x. qs_pass c (cols x) piv) (replicate n e) X = map (\<lambda>x. Some (lifted (cols x) t, piv')) X"
    using lX by (intro nth_equalityI) simp_all
  then show "those (map2 (\<lambda>c x. qs_pass c (cols x) piv) (replicate n e) X) = Some rs" unfolding rs_def by (simp only: those_Some)
  have eq: "map2 (\<lambda>r x. x\<lparr>cols := fst r\<rparr>) rs X = map (apply_to (\<lambda>c. map ((!) c) t)) X"
    unfolding rs_def by (intro nth_equalityI) (simp_all add: apply_to_def lifted_def)
  have "\<forall>i \<in> set t. i < m" "length t = m" using assms(6) by (metis atLeastLessThan_iff mset_eq_setD set_upt, metis length_upt minus_nat.diff_0 size_mset)
  then have "is_sharing n k q m (map (apply_to (\<lambda>c. map ((!) c) t)) X) \<and>
      reveal_b (map (apply_to (\<lambda>c. map ((!) c) t)) X) = map ((!) (reveal_b X)) t"
    using gather_sharing [OF X k_pos n_pos refl _ disjI2 [OF refl], of t] by simp
  then show "is_sharing n k q m (map2 (\<lambda>r x. x\<lparr>cols := fst r\<rparr>) rs X)"
    "reveal_b (map2 (\<lambda>r x. x\<lparr>cols := fst r\<rparr>) rs X) = map ((!) (reveal_b X)) t" unfolding eq by simp_all
qed

lemma qs_round_correct:
  assumes "ok st" and X: "is_sharing n k q m X" and "0 < m"
    and piv: "own_pivots piv" "0 \<le> piv ! 0" "length piv = m" and e: "length e = m"
    and b: "between (keyed (reveal_b X)) [0..<m] piv"
  shows "\<exists>X' piv' e' st'. qs_round P S X piv (replicate n e) st = Some ((X', piv', replicate n e'), st') \<and> ok st' \<and>
    is_sharing n k q m X' \<and> mset (reveal_b X') = mset (reveal_b X) \<and> own_pivots piv' \<and> 0 \<le> piv' ! 0 \<and> length piv' = m \<and>
    length e' = m \<and> between (keyed (reveal_b X')) [0..<m] piv' \<and> (m \<le> num_pivots piv' \<or> num_pivots piv < num_pivots piv')"
proof -
  obtain pv sel T C r st1 st2 e' where c: "pivot_views piv = Some (pv, sel)" "sv_compare P (sh_get sel X) (sh_get pv X) st = Some ((T, C), st1)"
    "s_open S True C st1 = Some (replicate n r, st2)" "ok st2" "view_set sel r e = Some e'" "length e' = m"
    "compared (keyed (reveal_b X)) e' 0 [0..<m] piv" using comparisons_correct [OF assms(1) X piv e] by blast
  obtain t piv' where p: "ppass e' [0..<m] piv = (t, piv')" by fastforce
  have "[0..<m] \<noteq> []" "length piv = length [0..<m]" using assms(3) piv(3) by simp_all
  note pass = ppass_correct [OF this piv(2) b piv(1) c(7) p]
  let ?rs = "map (\<lambda>x. (lifted (cols x) t, piv')) X"
  let ?X = "map2 (\<lambda>r x. x\<lparr>cols := fst r\<rparr>) ?rs X"
  note q = pass_sharing [OF X assms(3) piv(3,2) p pass(1)]
  have n: "hd ?rs = (lifted (cols (hd X)) t, piv')" "X \<noteq> []" using is_sharing_length [OF X] n_pos by (auto simp: hd_map)
  have "those (replicate n (Some e')) = Some (replicate n e')" by (induction n) simp_all
  then have set: "those (replicate n (view_set sel r e)) = Some (replicate n e')" using c(5) by simp
  have agree: "(\<exists>r \<in> set ?rs. snd r \<noteq> snd (hd ?rs)) = False" using n by simp
  have run: "qs_round P S X piv (replicate n e) st = Some ((?X, piv', replicate n e'), st2)"
    unfolding qs_round_def using c(1-3) q(1) n(1) by (simp add: Let_def set agree [unfolded n(1)])
  have lt: "length t = m" using pass(1) by (metis length_upt minus_nat.diff_0 size_mset)
  have "between (keyed (reveal_b ?X)) [0..<m] piv'" using pass(2) lt unfolding between_def q(3) by simp
  moreover have "mset (reveal_b ?X) = mset (reveal_b X)"
  proof -
    have "mset (map ((!) (reveal_b X)) t) = mset (map ((!) (reveal_b X)) [0..<m])" using pass(1) by (simp only: mset_map)
    also have "map ((!) (reveal_b X)) [0..<m] = reveal_b X" using map_nth [of "reveal_b X"] len [OF X, of True] by (simp add: revealed_def)
    finally show ?thesis unfolding q(3) .
  qed
  moreover have a: "advances 0 (length piv - 1) piv piv'" using pass(4) piv(3) by simp
  then have "length piv' = m" "0 \<le> piv' ! 0" using piv assms(3) by (auto simp: advances_def)
  moreover have "m \<le> num_pivots piv' \<or> num_pivots piv < num_pivots piv'"
  proof (cases "num_pivots piv < length piv")
    case True
    then show ?thesis using ppass_num [OF a piv(2)] by blast
  next
    case False
    then show ?thesis using advances_mono [OF a] piv(3) by simp
  qed
  ultimately show ?thesis using run c(4,6) q(2) pass(3) by blast
qed

lemma qs_loop_correct:
  assumes "ok st" and "is_sharing n k q m X" and "0 < m" and "own_pivots piv" "0 \<le> piv ! 0" "length piv = m" and "length e = m"
    and "between (keyed (reveal_b X)) [0..<m] piv"
  shows "\<exists>Y st'. qs_loop P S X piv (replicate n e) st = Some (Y, st') \<and> ok st' \<and> is_sharing n k q m Y \<and>
    mset (reveal_b Y) = mset (reveal_b X) \<and> sorted (map sint (reveal_b Y))"
  using assms
proof (induction "m - num_pivots piv" arbitrary: piv X e st rule: less_induct)
  case less
  obtain X' piv' e' st' where r: "qs_round P S X piv (replicate n e) st = Some ((X', piv', replicate n e'), st')" "ok st'"
    "is_sharing n k q m X'" "mset (reveal_b X') = mset (reveal_b X)" "own_pivots piv'" "0 \<le> piv' ! 0" "length piv' = m" "length e' = m"
    "between (keyed (reveal_b X')) [0..<m] piv'" "m \<le> num_pivots piv' \<or> num_pivots piv < num_pivots piv'"
    using qs_round_correct [OF less.prems] by blast
  have sz: "sh_size X = m" using size_of [OF less.prems(2)] .
  show ?case
  proof (cases "m \<le> num_pivots piv'")
    case True
    then have "sorted (map (keyed (reveal_b X')) [0..<m])" using between_sorted [OF r(9)] r(7) by simp
    moreover have "map (keyed (reveal_b X')) [0..<m] = map sint (reveal_b X')"
      using len [OF r(3), of True] by (intro nth_equalityI) (simp_all add: revealed_def)
    ultimately show ?thesis using r(1-4) True sz by (subst qs_loop.simps) simp
  next
    case False
    then have "m - num_pivots piv' < m - num_pivots piv" using r(10) by linarith
    from less.hyps [OF this r(2,3) less.prems(3) r(5-9)] show ?thesis using r(1,4) False sz by (subst qs_loop.simps) simp
  qed
qed

theorem quicksort_correct:
  assumes "ok st" and X: "is_sharing n k q m X" and "0 < m" and "m < 2 ^ 31"
  shows "\<exists>Y st'. quicksort_body P S X st = Some (Y, st') \<and> ok st' \<and> is_sharing n k q m Y \<and>
    mset (reveal_b Y) = mset (reveal_b X) \<and> sorted (map sint (reveal_b Y))"
proof -
  obtain V T st1 where V: "sv_shuffle S True X st = Some (V, st1)" "ok st1" "is_sharing n k q m V" "is_perm m T"
    "reveal_b V = permute T (reveal_b X)" using shuffle_correct [OF assms(1,2), of True] by (auto simp: revealed_def)
  let ?piv = "(replicate m (- 1))[0 := 0 :: int]"
  have piv: "own_pivots ?piv" "0 \<le> ?piv ! 0" "length ?piv = m" using assms(3) by (auto simp: own_pivots_def nth_list_update)
  have "between (keyed (reveal_b V)) [0..<m] ?piv" by (auto simp: between_def nth_list_update split: if_splits)
  from qs_loop_correct [OF V(2,3) assms(3) piv _ this, of "replicate m 0"] obtain Y st2 where
    Y: "qs_loop P S V ?piv (replicate n (replicate m 0)) st1 = Some (Y, st2)" "ok st2" "is_sharing n k q m Y"
    "mset (reveal_b Y) = mset (reveal_b V)" "sorted (map sint (reveal_b Y))" by auto
  have "mset (reveal_b V) = mset (reveal_b X)"
    unfolding V(5) using V(4) len [OF X, of True] by (simp add: mset_permute revealed_def)
  then show ?thesis using V(1) Y size_of [OF V(3)] is_sharing_length [OF V(3)] assms(3,4) by (simp add: quicksort_body_def)
qed

end

end
