(* ===== verification/Quicksort_Engines.thy ===== *)
theory Quicksort_Engines
  imports Quicksort_Proofs Radix_3PC Radix_2PC Conversion_3PC
begin

text \<open>Quicksort over the three-party and the two-party engine: both keep their generators in step through the conjunctions of a comparison.\<close>

interpretation qs3: quicksort_engine "rep3_shuffler aes :: ('a::len, hm_perm list, ('a, 's) shuffle_state) shuffler" 3 2 m
  "shuffle_ok_3 aes m" "\<lambda>_. acts_3 m" "shuffle_3pc aes :: ('a, ('a, 's) shuffle_state) protocol"
proof unfold_locales
  fix st :: "('a, 's) shuffle_state" and q l and X Y :: "'a sharing"
  show "is_sharing 3 2 q l (v_not_b (shuffle_3pc aes :: ('a, ('a, 's) shuffle_state) protocol) X) \<and>
        reveal_b (v_not_b (shuffle_3pc aes :: ('a, ('a, 's) shuffle_state) protocol) X) = map NOT (reveal_b X)"
    if "is_sharing 3 2 q l X"
    using rep3_not_b_correct [OF that] by (simp add: shuffle_3pc_def)
  assume ok: "shuffle_ok_3 aes m st"
  then have w: "rep3_ok aes (fst st)" "hm_ok aes 3 (fst st)" "cipher_ok TYPE('a) aes" by (simp_all add: shuffle_ok_3_def rep3_ok_def)
  have again: "shuffle_ok_3 aes m (w', snd st)" if "rep3_ok aes w'" "steady (mgrs (fst st)) (mgrs w')" for w' :: "('a, 's) world"
    using that ok steady_rep3 [OF that(1) w(2) that(2)] by (simp add: shuffle_ok_3_def)
  show "\<exists>Z st'. v_and_b (shuffle_3pc aes) X Y st = Some (Z, st') \<and> shuffle_ok_3 aes m st' \<and> is_sharing 3 2 q l Z \<and>
        reveal_b Z = map2 (AND) (reveal_b X) (reveal_b Y)" if "is_sharing 3 2 q l X" "is_sharing 3 2 q l Y"
    using rep3_and_b_correct [OF w(1) that] again rep3_and_b_steady [OF w(3) rep3_world_3 [OF w(1)]]
    by (fastforce simp: shuffle_3pc_def on_world_def)
  show "\<exists>st'. s_open (rep3_shuffler aes) True X st = Some (replicate 3 (reveal_b X), st') \<and> shuffle_ok_3 aes m st'"
    if "is_sharing 3 2 q l X"
    using rep3_open_correct(2) [OF w(1) that] ok
    by (auto simp: rep3_shuffler_def on_world_def shuffle_ok_3_def rep3_ok_def hm_ok_def tally_def quiet_def)
qed simp_all

interpretation qs2: quicksort_engine
  "dm_shuffler aes fresh ole wan use_rca use_libote :: ('a::len, ('a, 's) dm_object, ('a, 's) shuffle_state_2) shuffler" 2 1 m
  "shuffle_ok_2 aes ole m" "\<lambda>enc. dm_acts enc m" "shuffle_2pc aes ole wan :: ('a, ('a, 's) shuffle_state_2) protocol"
proof (unfold_locales, unfold One_nat_def)
  fix st :: "('a, 's) shuffle_state_2" and q l and X Y :: "'a sharing"
  show "is_sharing 2 (Suc 0) q l (v_not_b (shuffle_2pc aes ole wan :: ('a, ('a, 's) shuffle_state_2) protocol) X) \<and>
        reveal_b (v_not_b (shuffle_2pc aes ole wan :: ('a, ('a, 's) shuffle_state_2) protocol) X) = map NOT (reveal_b X)"
    if "is_sharing 2 (Suc 0) q l X"
    using bv_not_b_correct [OF that] by (simp add: shuffle_2pc_def)
  assume ok: "shuffle_ok_2 aes ole m st"
  then have w: "bv_ok aes ole (dm_bv (fst st))" by (simp add: shuffle_ok_2_def dm_ok_def)
  show "\<exists>Z st'. v_and_b (shuffle_2pc aes ole wan) X Y st = Some (Z, st') \<and> shuffle_ok_2 aes ole m st' \<and> is_sharing 2 (Suc 0) q l Z \<and>
        reveal_b Z = map2 (AND) (reveal_b X) (reveal_b Y)" if "is_sharing 2 (Suc 0) q l X" "is_sharing 2 (Suc 0) q l Y"
    using bv_and_b_correct [OF w that, of wan] shuffle_ok_2_bv [OF ok] bv_and_b_mgrs [of ole wan X Y "dm_bv (fst st)"]
    by (fastforce simp: shuffle_2pc_def on_dm_def on_bv_def)
  show "\<exists>st'. s_open (dm_shuffler aes fresh ole wan use_rca use_libote) True X st = Some (replicate 2 (reveal_b X), st') \<and>
        shuffle_ok_2 aes ole m st'" if "is_sharing 2 (Suc 0) q l X"
    using bv_open_correct [OF w that] shuffle_ok_2_bv [OF ok, of "(dm_bv (fst st))\<lparr>net := tally 2 l (net (dm_bv (fst st)))\<rparr>"] w
    by (simp add: dm_shuffler_def Let_def on_dm_def on_bv_def)
qed simp_all

end
