(* ===== verification/Spec2Isabelle.thy ===== *)
theory Spec2Isabelle
  imports Setup_Sync Operator_Instances View_Proofs Radix_3PC Group_By Network_Scan Plaintext_1PC Radix_2PC Conversion_3PC Quicksort_Engines
begin

text \<open>
  A model of CryptDough, a framework for secure multi-party computation on secret-shared vectors (C++ headers
  under \<open>src/include\<close>).  A vector of \<open>w\<close>-bit machine words is split into as many additive (arithmetic) or
  exclusive-or (boolean) shares as there are parties; every party holds a group of consecutive shares.  Local
  operations act on a party's shares, interactive ones exchange messages or draw common randomness, and circuits
  and relational operators are composed of them.

  \<^bold>\<open>How the model corresponds to the code.\<close>
  A plaintext vector is a list of words (\<open>vec\<close>), one party's shares are an \<open>evec\<close> (columns and a precision), and a
  \<open>sharing\<close> is the list of all parties' shares.  \<open>is_sharing n k q m X\<close> says that the \<open>n\<close> parties hold \<open>k\<close> shares each,
  replicated consistently, of a vector of \<open>m\<close> elements at precision \<open>q\<close>; \<open>reveal_a\<close> and \<open>reveal_b\<close> are the values that
  opening would give.  A program is run by all parties in lock step, so an operation of the code becomes one definition that
  takes the shares and the state of all parties: each party's step is the code of that party (the branches on the party id are separate
  definitions such as \<open>truncate_P0\<close>), and the messages pass through first-in-first-out channels.  Everything that can fail returns
  an \<open>option\<close>: a failed assertion, an out-of-range access, a receive that waits for ever, a message longer than
  its buffer and undefined C++ behaviour are \<open>None\<close>; theorems about a run state that it returns \<open>Some\<close>.

  \<^bold>\<open>Theories, from the bottom.\<close>
  \<^item> \<open>Prelude\<close>: elementwise vectors, exclusive-or and sum of lists of vectors, the option monad.
  \<^item> \<open>Bit_Primitives\<close>, \<open>Vector_Ops\<close>, \<open>Vector_Algebra\<close>, \<open>Vector_Views\<close>, \<open>View_Proofs\<close>: \<open>Vector<T>\<close>
    (\<open>core/containers/mapping_access_vector.h\<close>): bit helpers, elementwise operators, shifts, bit packing and decomposition, sums,
    dot and matrix products, and the views with their access patterns (slices, alternating, included, repeated, cyclic, reversed
    subsets), whose lemmas say which sublist each pattern shows and that writing and reading through a view agree.
  \<^item> \<open>EVector\<close>: \<open>core/containers/e_vector.h\<close>, sharings, and the lemmas that local linear operations commute with opening.
  \<^item> \<open>Carry\<close>, \<open>Fixed_Point\<close>: arithmetic of carries, signed comparison, and of rounding two additive parts.
  \<^item> \<open>Protocol\<close>: the abstract class \<open>Protocol\<close> (\<open>core/protocols/interface/protocol.h\<close>) as a record of operations, its local methods
    and the default methods built on them.
  \<^item> \<open>Circuits\<close>, \<open>Circuit_Proofs\<close>, \<open>Compare_Proofs\<close>, \<open>Comparison\<close>: \<open>core/protocols/interface/protocol_circuits.h\<close>: both
    adders, the packed-sign variants, equality and both comparisons, over any protocol.  The locale \<open>boolean_protocol\<close> is the
    contract they rely on (conjunction, negation, an invariant \<open>ok\<close> of the protocol state).
  \<^item> \<open>Shared_Vectors\<close>, \<open>Division\<close>: the operators of \<open>BSharedVector\<close> and \<open>ASharedVector\<close>, \<open>multiplex\<close>, and the private division of
    \<open>core/operators/circuits.h\<close>.  The locales \<open>conversion_protocol\<close>, \<open>dividing_protocol\<close> and \<open>subtracting_protocol\<close> extend the contract by
    conversions, division by a constant, and exact subtraction.  An operator on shared vectors reaches the protocol through tasks that
    hold their output by value, so the precision a protocol method sets on a fresh vector is lost; the \<open>sv_\<close> definitions
    (\<open>sv_not_b\<close>, \<open>sv_compare\<close>, \<open>sv_extend_lsb\<close>, ...) are the calls as the shared vectors see them.  The locale \<open>precision_checking\<close> has the runs
    that fail because such a result meets an operand of another precision.
  \<^item> \<open>Randomness\<close>: \<open>core/random/prg\<close>, the managers of common generators and the zero sharings; \<open>Communication\<close>: the channels of
    \<open>core/communication/mpi_communicator.h\<close> with byte counts.
  \<^item> \<open>Replicated_3PC\<close> with \<open>_Proofs\<close>, \<open>_Arith\<close>, \<open>_Conv\<close>: \<open>core/protocols/replicated_3pc.h\<close>, the invariant \<open>rep3_ok\<close> (the managers that
    share a key agree, the channels are empty), and the interpretations of the contracts.
  \<^item> \<open>Beaver_2PC\<close> with \<open>_Proofs\<close>, \<open>_Conv\<close>: \<open>core/protocols/beaver_2pc.h\<close> and the triple generator, likewise.
  \<^item> \<open>Setup\<close>, \<open>Setup_Sync\<close>: \<open>backend/common/rand_setup.h\<close>: agreement on group keys and relative keys of two, three and four parties;
    the set-up establishes the invariants that the protocols start from.
  \<^item> \<open>Protocol_Base\<close>, \<open>Reshare\<close>: share maps, groups and resharing assignments (\<open>protocol_base.h\<close>) and \<open>Protocol::reshare\<close>, for any number
    of parties and any replication factor.
  \<^item> \<open>Sorting\<close>, \<open>Sorting_Network\<close>, \<open>Pairwise_Network\<close>, \<open>Sorting_Proofs\<close>, \<open>Network_Proofs\<close>: \<open>core/operators/sorting.h\<close>, \<open>merge.h\<close> and
    \<open>sorting_network.h\<close>.  The plain networks are proved to sort by the zero-one principle; each round over shared columns is one
    stage of the plain network over the opened rows (a refinement), for multi-column keys with directions and data columns of
    both kinds.  \<open>arithmetic_protocol\<close> is the contract of the swap on arithmetic columns.
  \<^item> \<open>Segmented_Scan\<close>, \<open>Prefix_Network\<close>: \<open>core/operators/prefix_network.h\<close>.  The scan of the groups of a vector is specified once
    (\<open>full_at\<close>); the levels of Brent-Kung and Hillis-Steele show pairs of positions whose combination leads to it for every
    associative operation.
  \<^item> \<open>Aggregation\<close>, \<open>Aggregation_Proofs\<close>: \<open>core/operators/aggregation.h\<close> and \<open>distinct.h\<close>, with the aggregation functions over shared
    columns; each level refines a step of the plain scan on the opened rows.  \<open>Network_Scan\<close> states both networks as programs over
    plain vectors, \<open>Prefix_Sums\<close> has \<open>tree_prefix_sum\<close> and \<open>distinct\<close>, and \<open>Group_By\<close> composes sorting and aggregation.
  \<^item> \<open>Plaintext_1PC\<close>: \<open>core/protocols/plaintext_1pc.h\<close>, one party on plain values, interpreted on the same contracts.
  \<^item> \<open>Operator_Instances\<close>: the operators' contracts interpreted on both multi-party protocols.
  \<^item> \<open>Permutations\<close>, \<open>Permutation_Proofs\<close>: local permutations (\<open>gen_perm\<close>, \<open>local_apply_perm\<close> of \<open>core/operators/shuffle.h\<close> and
    \<open>core/random/permutations\<close>) and the algebra of permutations as lists of destinations.
  \<^item> \<open>Shuffle\<close>, \<open>Shuffle_Proofs\<close>, \<open>Shuffle_Generation\<close>: sharded permutations of an honest majority, their generation and application, for any
    number of parties.  \<open>Permutation_Manager\<close> is the queue of stored permutations over any generator, with the contract
    \<open>permutation_source\<close>; \<open>Permutation_Source\<close> interprets it on the generator.  \<open>Permutation_Pairs\<close> is the same queue with two parties and its
    pairs, under the contract \<open>pair_source\<close>.
  \<^item> \<open>Elementwise\<close>, \<open>Elementwise_Proofs\<close>: \<open>core/containers/permutation.h\<close> and the operators on secret-shared permutations over the
    engine's interface \<open>shuffler\<close>, with the contract \<open>shuffling_protocol\<close>; \<open>Shuffle_3PC\<close> interprets it for three parties.
  \<^item> \<open>Full_Conversion\<close>, \<open>Conversion_3PC\<close>: \<open>BSharedVector::b2a\<close> over the contract \<open>masking_protocol\<close>, interpreted for three parties and, in
    \<open>Shuffle_2PC\<close>, for two.
  \<^item> \<open>Dishonest_Majority\<close>, \<open>Dishonest_Proofs\<close>, \<open>Dishonest_Apply\<close>: permutation correlations of two parties (\<open>core/random/permutations/dm_*\<close>), the
    relation \<open>correlated\<close> that generation establishes and conversion keeps, and their application.  \<open>Dishonest_Engine\<close> is the generator and the
    engine over them; \<open>Shuffle_2PC\<close> and \<open>Radix_2PC\<close> interpret \<open>pair_source\<close>, \<open>shuffling_protocol\<close> and \<open>sorting_engine\<close> for two parties.
  \<^item> \<open>Radix_Sort\<close>, \<open>Stable_Partition\<close>, \<open>Radix_Proofs\<close>, \<open>Radix_3PC\<close>: \<open>radix_sort_ccs\<close> of \<open>core/operators/radixsort.h\<close> refines the stable sort of the
    opened vector; \<open>sorting_engine\<close> is the contract of its engine.
  \<^item> \<open>Quicksort\<close>, \<open>Quicksort_Plain\<close>, \<open>Quicksort_Proofs\<close>, \<open>Quicksort_Engines\<close>: \<open>quicksort_body\<close> of \<open>core/operators/quicksort.h\<close>, the partition of one
    party in the clear and its invariant, and the sort under the contract \<open>quicksort_engine\<close>, interpreted for three and two parties.
  \<^item> This theory: whole sessions from key set-up to opening, and the properties C1 onwards, each with a witness where it has hypotheses.

  \<^bold>\<open>Parameters and their hypotheses.\<close>
  Code outside the repository is an argument of the definitions.  \<open>aes\<close> is the block generator of libsodium: \<open>cipher_ok\<close> asks for the requested
  number of bytes and for at most the buffer bound per word size.  \<open>keygen\<close> yields the random keys (\<open>keys_ok\<close>: of the key length).
  \<open>ole\<close> is the generator of correlated randomness (libOTe or secure-join behind \<open>core/random/correlation\<close>): \<open>ole_ok\<close> is the documented
  relation \<open>A + B = C * D\<close> of oblivious linear evaluation.  \<open>fresh\<close> yields the keys that two parties draw for a pair of permutations, and \<open>use_libote\<close> is
  the build flag that selects the conversion of correlations.  \<open>use_rca\<close> and \<open>wan\<close> are the run-time choices of
  the adder and of stacked openings.  \<open>fair_cipher\<close> is needed where words are rejected: every buffer holds a word that the mask sends to
  zero, so the rejection loop (a \<open>partial_function\<close>) ends.  Secrecy is not modelled (C34 only identifies the value that is opened); correctness holds for every cipher, key and random value.

  \<^bold>\<open>Bounds and fuel.\<close>
  Word widths are arbitrary (\<open>'a::len\<close>), sizes and numbers of parties are natural numbers, and no definition uses fuel: loops
  recurse on lists, bit positions or decreasing sizes with termination proofs.  Permutations are vectors of the width of the data; their
  positions must be non-negative as signed words, so shuffled vectors have at most \<open>2 ^ (LENGTH('a) - 1)\<close> elements.  The
  gaps of a prefix network are computed in \<open>int\<close>, so aggregations and networks have at most \<open>2 ^ 31\<close> rows; for the same reason
  \<open>bitonic_sort\<close> has at most \<open>2 ^ 31\<close> rows, \<open>pairwise_sort\<close> at most \<open>2 ^ 15\<close> and \<open>quicksort_body\<close> fewer than \<open>2 ^ 31\<close> (more are \<open>None\<close>).  A relative
  rank is reduced by the truncating \<open>%\<close>: ranks below minus the number of parties are invalid (\<open>valid_rank\<close>).  A column is a
  value, so an output of an aggregation is assumed to share no storage with the input of another.  Sizes are not bounded by the width of
  \<open>VectorSizeType\<close>; shifts of \<open>int\<close> literals are noted in the findings.

  \<^bold>\<open>Not modelled.\<close>
  The four-party and SPDZ protocols (their checks rest on commitments and hashes), external generators of correlations,
  vectors wider than their permutation (the padded entry points of radix sort and quicksort), joins and the machine-learning layers, tables and matrices
  (wrappers), file input and output, the run-time with its thread pool and batches, and the socket communicators.
\<close>

section \<open>Whole sessions\<close>

text \<open>After the set-up the same randomness managers serve the channels that carry shares.\<close>

definition proto_world :: "(8, key) world \<Rightarrow> ('a::len, key) world" where
  "proto_world w = \<lparr>mgrs = mgrs w, chan = (\<lambda>_ _. []), bytes_sent = bytes_sent w\<rparr>"

definition gt_session ::
  "key cipher \<Rightarrow> keygen \<Rightarrow> nat list list \<Rightarrow> nat \<Rightarrow> nat \<Rightarrow> 'a::len vec \<Rightarrow> 'a vec
    \<Rightarrow> ('a vec list \<times> ('a, key) world) option" where
  "gt_session aes keygen groups d e x y = do {
     w \<leftarrow> setup_random_generation 3 keygen groups;
     (X, w) \<leftarrow> rep3_secret_share_b_internal aes x d (proto_world w);
     (Y, w) \<leftarrow> rep3_secret_share_b_internal aes y e w;
     (R, w) \<leftarrow> b_gt (replicated_3pc aes) X Y w;
     rep3_unchecked_open_b R w
   }"

definition product_session ::
  "bool \<Rightarrow> key cipher \<Rightarrow> keygen \<Rightarrow> nat list list \<Rightarrow> nat \<Rightarrow> nat \<Rightarrow> 'a::len vec \<Rightarrow> 'a vec
    \<Rightarrow> ('a vec list \<times> ('a, key) world) option" where
  "product_session use_rca aes keygen groups d e x y = do {
     w \<leftarrow> setup_random_generation 3 keygen groups;
     (X, w) \<leftarrow> rep3_secret_share_a_internal aes x d (proto_world w);
     (Y, w) \<leftarrow> rep3_secret_share_a_internal aes y e w;
     (Z, w) \<leftarrow> rep3_multiply_a aes X Y w;
     (B, w) \<leftarrow> a2b use_rca (replicated_3pc aes) Z w;
     rep3_unchecked_open_b B w
   }"

lemma session_start:
  assumes "keys_ok keygen" and "\<forall>g \<in> set groups. group_ok 3 g" and "cipher_ok TYPE('a::len) aes"
  shows "\<exists>w. setup_random_generation 3 keygen groups = Some w \<and> rep3_ok aes (proto_world w :: ('a, key) world)"
  using setup_3pc_synced [OF assms(1,2)] assms(3) by (auto simp: rep3_ok_def proto_world_def quiet_def)

lemma rotated_sharing:
  assumes "length a = m" and "length b = m" and "length e = m"
  shows "is_sharing 3 2 q m (share_out 2 q (rotated d a b e))"
    and "reveal_a (share_out 2 q (rotated d a b e)) = vadd a (vadd b e)"
    and "reveal_b (share_out 2 q (rotated d a b e)) = vxor a (vxor b e)"
proof -
  have "vxor e (vxor a b) = vxor a (vxor b e)" "vxor b (vxor e a) = vxor a (vxor b e)"
    by (auto intro!: vec_eqI simp: ac_simps)
  then show "is_sharing 3 2 q m (share_out 2 q (rotated d a b e))"
    "reveal_a (share_out 2 q (rotated d a b e)) = vadd a (vadd b e)"
    "reveal_b (share_out 2 q (rotated d a b e)) = vxor a (vxor b e)"
    using assms by (simp_all add: rotated_def is_sharing_3 reveal_3 [where m = m] vadd_ac)
qed

lemma rep3_secret_share_correct:
  fixes w :: "('a::len, 's) world" and data :: "'a vec"
  assumes "rep3_ok aes w" and "d < 3"
  shows "\<exists>X w'. rep3_secret_share_a_internal aes data d w = Some (X, w') \<and> rep3_ok aes w' \<and>
      is_sharing 3 2 0 (length data) X \<and> reveal_a X = data"
    and "\<exists>X w'. rep3_secret_share_b_internal aes data d w = Some (X, w') \<and> rep3_ok aes w' \<and>
      is_sharing 3 2 0 (length data) X \<and> reveal_b X = data"
proof -
  obtain a b X w' where 1: "rep3_secret_share (-) aes data d w = Some (X, w')" "rep3_ok aes w'"
    "length a = length data" "length b = length data"
    "X = share_out 2 0 (rotated d a b (vec_op (-) (vec_op (-) data a) b))"
    using rep3_secret_share_run [OF assms, of "(-)" data] by blast
  have "length (vec_op (-) (vec_op (-) data a) b) = length data" using 1(3,4) by (simp add: vec_op_def)
  moreover have "vadd a (vadd b (vec_op (-) (vec_op (-) data a) b)) = data"
    using 1(3,4) by (intro vec_eqI) (simp_all add: vec_op_def)
  ultimately show "\<exists>X w'. rep3_secret_share_a_internal aes data d w = Some (X, w') \<and> rep3_ok aes w' \<and>
      is_sharing 3 2 0 (length data) X \<and> reveal_a X = data"
    unfolding rep3_secret_share_a_internal_def using 1 rotated_sharing [OF 1(3,4)] by simp
  obtain a b X w' where 2: "rep3_secret_share (XOR) aes data d w = Some (X, w')" "rep3_ok aes w'"
    "length a = length data" "length b = length data"
    "X = share_out 2 0 (rotated d a b (vec_op (XOR) (vec_op (XOR) data a) b))"
    using rep3_secret_share_run [OF assms, of "(XOR)" data] by blast
  have "length (vec_op (XOR) (vec_op (XOR) data a) b) = length data" using 2(3,4) by simp
  moreover have "vxor a (vxor b (vec_op (XOR) (vec_op (XOR) data a) b)) = data"
    using 2(3,4) by (intro vec_eqI) (simp_all add: xor.assoc xor.left_commute xor.commute)
  ultimately show "\<exists>X w'. rep3_secret_share_b_internal aes data d w = Some (X, w') \<and> rep3_ok aes w' \<and>
      is_sharing 3 2 0 (length data) X \<and> reveal_b X = data"
    unfolding rep3_secret_share_b_internal_def using 2 rotated_sharing [OF 2(3,4)] by simp
qed

definition sort_session ::
  "key cipher \<Rightarrow> keygen \<Rightarrow> nat \<Rightarrow> 'a::len vec \<Rightarrow> ('a vec list \<times> ('a, key) shuffle_state) option" where
  "sort_session aes keygen d x = do {
     w \<leftarrow> setup_random_generation 3 keygen (getGroups 3);
     (X, w) \<leftarrow> rep3_secret_share_b_internal aes x d (proto_world w);
     ((Y, order), st) \<leftarrow> radix_sort_ccs (rep3_shuffler aes) (shuffle_3pc aes) X LENGTH('a) True (w, perm_manager_new);
     s_open (rep3_shuffler aes) True Y st
   }"

lemma sort_start:
  assumes "keys_ok keygen" and "cipher_ok TYPE('a::len) aes" and "fair_cipher aes m" and "m \<le> 2 ^ (LENGTH('a) - 1)"
  shows "\<exists>w. setup_random_generation 3 keygen (getGroups 3) = Some w \<and>
    rep3_ok aes (proto_world w :: ('a, key) world) \<and> hm_ok aes 3 (proto_world w :: ('a, key) world)"
proof -
  have g: "\<forall>g \<in> set (getGroups 3). group_ok 3 g" by (simp add: getGroups_3 group_ok_def)
  obtain w where w: "setup_random_generation 3 keygen (getGroups 3) = Some w" "quiet w" "rep3_synced (mgrs w)"
    "\<forall>g \<in> set (getGroups 3). \<forall>p \<in> set g. common_prg_group_map (mgrs w ! p) g = Some (GroupPRG g) \<and>
       store (mgrs w ! p) (GroupPRG g) = store (mgrs w ! hd g) (GroupPRG g)"
    using setup_3pc_groups [OF assms(1) g] by blast
  have "groups_synced 3 (\<lambda>g. store (mgrs w ! hd g) (GroupPRG g)) (mgrs w)"
    using w(3,4) by (auto simp: groups_synced_def group_prg_ok_def get_group_def rep3_synced_def getGroups_3 split: list.splits)
  then show ?thesis using w(1-3) assms(2)
    by (auto simp: rep3_ok_def hm_ok_def proto_world_def quiet_def)
qed

lemma shared_start:
  fixes x :: "'a::len vec"
  assumes "keys_ok keygen" and "cipher_ok TYPE('a) aes" and "fair_cipher aes (length x)" and "length x \<le> 2 ^ (LENGTH('a) - 1)" and "d < 3"
  obtains w0 X w1 where "setup_random_generation 3 keygen (getGroups 3) = Some w0"
    and "rep3_secret_share_b_internal aes x d (proto_world w0) = Some (X, w1)" and "shuffle_ok_3 aes (length x) (w1, perm_manager_new)"
    and "is_sharing 3 2 0 (length x) X" and "reveal_b X = x"
proof -
  obtain w0 where w0: "setup_random_generation 3 keygen (getGroups 3) = Some w0"
    "rep3_ok aes (proto_world w0 :: ('a, key) world)" "hm_ok aes 3 (proto_world w0 :: ('a, key) world)"
    using sort_start [OF assms(1-4)] by blast
  obtain X w1 where X: "rep3_secret_share_b_internal aes x d (proto_world w0) = Some (X, w1)" "rep3_ok aes w1"
    "is_sharing 3 2 0 (length x) X" "reveal_b X = x" using rep3_secret_share_correct(2) [OF w0(2) assms(5)] by blast
  have "steady (mgrs (proto_world w0 :: ('a, key) world)) (mgrs w1)"
    using X(1) unfolding rep3_secret_share_b_internal_def by (rule rep3_secret_share_steady [OF rep3_world_3 [OF w0(2)] assms(5)])
  then have "shuffle_ok_3 aes (length x) (w1, perm_manager_new)"
    using steady_rep3 [OF X(2) w0(3)] X(2) assms(3,4) by (simp add: shuffle_ok_3_def manager_ok_def perm_manager_new_def)
  then show thesis using that w0(1) X(1,3,4) by blast
qed

definition quicksort_session_run ::
  "key cipher \<Rightarrow> keygen \<Rightarrow> nat \<Rightarrow> 'a::len vec \<Rightarrow> ('a vec list \<times> ('a, key) shuffle_state) option" where
  "quicksort_session_run aes keygen d x = do {
     w \<leftarrow> setup_random_generation 3 keygen (getGroups 3);
     (X, w) \<leftarrow> rep3_secret_share_b_internal aes x d (proto_world w);
     (Y, st) \<leftarrow> quicksort_body (shuffle_3pc aes) (rep3_shuffler aes) X (w, perm_manager_new);
     s_open (rep3_shuffler aes) True Y st
   }"

lemma sorted_words: "mset ys = mset xs \<Longrightarrow> sorted (map sint ys) \<Longrightarrow> ys = sort_key sint xs"
  for xs ys :: "'a::len vec"
  by (rule sort_key_inj_key_eq [symmetric]) (auto intro!: inj_onI signed_word_eqI)

definition sort_session_2 ::
  "key cipher \<Rightarrow> keygen \<Rightarrow> (nat \<Rightarrow> nat \<Rightarrow> key) \<Rightarrow> 'a::len ole_source \<Rightarrow> bool \<Rightarrow> bool \<Rightarrow> bool \<Rightarrow> nat \<Rightarrow> 'a vec
    \<Rightarrow> ('a vec list \<times> ('a, key) shuffle_state_2) option" where
  "sort_session_2 aes keygen fresh ole wan use_rca use_libote d x = do {
     w \<leftarrow> setup_random_generation 2 keygen (getGroups 2);
     (X, b) \<leftarrow> bv_secret_share_b_internal aes x d \<lparr>net = proto_world w, mul_calls = 0, and_calls = 0\<rparr>;
     ((Y, tp), st) \<leftarrow> radix_sort_ccs (dm_shuffler aes fresh ole wan use_rca use_libote) (shuffle_2pc aes ole wan) X LENGTH('a) True
       (\<lparr>dm_bv = b, seed_calls = 0\<rparr>, perm_manager_new);
     s_open (dm_shuffler aes fresh ole wan use_rca use_libote) True Y st
   }"

lemma sort_start_2:
  assumes "keys_ok keygen" and "cipher_ok TYPE('a::len) aes" and "ole_ok ole"
  shows "\<exists>w. setup_random_generation 2 keygen (getGroups 2) = Some w \<and> dm_synced (mgrs w) \<and>
    bv_ok aes ole \<lparr>net = proto_world w :: ('a, key) world, mul_calls = 0, and_calls = 0\<rparr>"
  using setup_2pc_synced [OF assms(1), of "getGroups 2"] assms(2,3)
  by (force simp: getGroups_2 bv_ok_def proto_world_def quiet_def dm_synced_def less_2_cases_iff group_prg_ok_def)

section \<open>States and inputs of the witnesses\<close>

definition demo_aes :: "'s cipher" where
  "demo_aes s c len = map (\<lambda>i. of_nat (i + 7 * unat c)) [0..<len]"

definition demo_keygen :: keygen where
  "demo_keygen p c = replicate KEYBYTES (of_nat p)"

definition demo_manager :: "nat \<Rightarrow> nat \<Rightarrow> unit manager" where
  "demo_manager n p =
     \<lparr>num_parties = n, rank = p, store = (\<lambda>_. \<lparr>seed = (), nonce = 0\<rparr>),
      common_prgs = Some LocalPRG # map (\<lambda>i. Some (RelPRG i)) [1..<n],
      common_prg_group_map = (\<lambda>g. Some (GroupPRG g))\<rparr>"

definition demo_world :: "nat \<Rightarrow> ('a::len, unit) world" where
  "demo_world n = \<lparr>mgrs = map (demo_manager n) [0..<n], chan = (\<lambda>_ _. []), bytes_sent = (\<lambda>_. 0)\<rparr>"

definition demo_ole :: "'a::len ole_source" where
  "demo_ole = \<lparr>ole_mul = (\<lambda>call n. ((replicate n 3, replicate n 5), (replicate n 4, replicate n 7))),
     ole_and = (\<lambda>call n. ((replicate n 6, replicate n 1), (replicate n 3, replicate n 3)))\<rparr>"

definition demo_state :: "('a::len, unit) beaver_state" where
  "demo_state = \<lparr>net = demo_world 2, mul_calls = 0, and_calls = 0\<rparr>"

definition demo_table :: "8 shared_table" where
  "demo_table = \<lparr>keys = [share_out 2 0 [ [5, 1], [0, 0], [0, 0] ]], data_a = [share_out 2 0 [ [1, 2], [1, 0], [1, 0] ]], data_b = []\<rparr>"

lemma demo_cipher: "cipher_ok TYPE(8) demo_aes"
  by (simp add: cipher_ok_def demo_aes_def sizeof_def MAX_AES_QUERY_BYTES_def)

lemma demo_keys: "keys_ok demo_keygen"
  by (simp add: keys_ok_def demo_keygen_def)

lemma demo_rep3: "rep3_ok demo_aes (demo_world 3 :: (8, unit) world)"
  using demo_cipher
  by (simp add: rep3_ok_def rep3_synced_def demo_world_def demo_manager_def quiet_def mgr3_def upt_rec)

lemma demo_ole: "ole_ok (demo_ole :: 8 ole_source)"
  by (auto simp: ole_ok_def ole_rel_def demo_ole_def intro!: nth_equalityI)

lemma demo_bv: "bv_ok demo_aes demo_ole (demo_state :: (8, unit) beaver_state)"
  using demo_cipher demo_ole
  by (simp add: bv_ok_def demo_state_def demo_world_def demo_manager_def quiet_def get_group_def upt_rec)

lemma demo_table_ok: "table_ok 3 2 0 (2 ^ 1) demo_table" "table_rows (2 ^ 1) demo_table = [([5], [3], []), ([1], [2], [])]"
  by (simp_all add: demo_table_def table_ok_def is_sharing_3 table_rows_def reveal_3 [where m = 2] vxor_def vadd_def upt_rec)

definition fair_aes :: "'s cipher" where
  "fair_aes s c len = take len (replicate 4 0 @ map (\<lambda>i. of_nat (3 * i + 7 * unat c)) [0..<len])"

lemma fair_aes_cipher: "cipher_ok TYPE(32) fair_aes" "cipher_ok TYPE(8) fair_aes" "cipher_ok TYPE(128) fair_aes"
  by (auto simp: cipher_ok_def fair_aes_def sizeof_def MAX_AES_QUERY_BYTES_def)

lemma fair_first_bytes: "4 \<le> bytes \<Longrightarrow> take 4 (fst (fillBytes fair_aes bytes g)) = replicate 4 0"
proof -
  assume b: "4 \<le> bytes"
  then obtain k where k: "bytes div MAX_AES_QUERY_BYTES + (if bytes mod MAX_AES_QUERY_BYTES \<noteq> 0 then 1 else 0) = Suc k"
    by (cases "bytes div MAX_AES_QUERY_BYTES + (if bytes mod MAX_AES_QUERY_BYTES \<noteq> 0 then 1 else 0)")
      (auto simp: MAX_AES_QUERY_BYTES_def split: if_splits)
  have "4 \<le> min bytes MAX_AES_QUERY_BYTES" using b by (simp add: MAX_AES_QUERY_BYTES_def)
  then show ?thesis
    unfolding fillBytes_def k by (simp add: aesGenerateValues_def Let_def split_beta fair_aes_def)
qed

lemma fair_demo: "fair_cipher fair_aes m"
proof -
  have "(rnd fair_aes MAX_AES_QUERY_BYTES g :: 32 vec) ! 0 = 0" for g :: "'s prg"
  proof -
    have m: "max_elements_in_buffer TYPE(32) = 262144" "sizeof TYPE(32) = 4" "MAX_AES_QUERY_BYTES = 1048576"
      by (simp_all add: max_elements_in_buffer_def sizeof_def MAX_AES_QUERY_BYTES_def)
    have "(rnd fair_aes MAX_AES_QUERY_BYTES g :: 32 vec) ! 0 = of_bytes (take 4 (fst (fillBytes fair_aes 1048576 g)))"
      unfolding rnd_def m by (subst getNextBuffered.simps) (simp add: m Let_def split_beta nth_append)
    also have "take 4 (fst (fillBytes fair_aes 1048576 g)) = replicate 4 0" by (rule fair_first_bytes) simp
    finally show ?thesis by (simp add: numeral_eq_Suc)
  qed
  moreover have "length (rnd fair_aes MAX_AES_QUERY_BYTES g :: 32 vec) = MAX_AES_QUERY_BYTES" for g :: "'s prg"
    by (rule length_rnd) (rule fair_aes_cipher(1))
  moreover have "0 < MAX_AES_QUERY_BYTES" by (simp add: MAX_AES_QUERY_BYTES_def)
  ultimately have "fair_words (fair_aes :: 's cipher) MAX_AES_QUERY_BYTES (perm_mask m)"
    unfolding fair_words_def by (metis and.left_neutral and.commute and_zero_eq zero_and_eq nth_mem)
  then show ?thesis by (simp add: fair_cipher_def fair_aes_cipher)
qed

definition demo_shuffle :: "('a::len, unit) shuffle_state" where
  "demo_shuffle = (demo_world 3, perm_manager_new)"

lemma demo_hm: "hm_ok fair_aes 3 (demo_world 3 :: (8, unit) world)"
  using fair_aes_cipher
  by (auto simp: hm_ok_def demo_world_def demo_manager_def quiet_def groups_synced_def group_prg_ok_def get_group_def getGroups_3 upt_rec
      intro!: exI [of _ "\<lambda>_. \<lparr>seed = (), nonce = 0\<rparr>"])

lemma demo_rep3_fair: "rep3_ok fair_aes (demo_world 3 :: (8, unit) world)"
  using fair_aes_cipher
  by (simp add: rep3_ok_def rep3_synced_def demo_world_def demo_manager_def quiet_def mgr3_def upt_rec)

lemma demo_shuffle_ok: "m \<le> 128 \<Longrightarrow> shuffle_ok_3 fair_aes m (demo_shuffle :: (8, unit) shuffle_state)"
  using demo_hm demo_rep3_fair fair_demo
  by (simp add: shuffle_ok_3_def demo_shuffle_def manager_ok_def perm_manager_new_def)

definition demo_shuffle_2 :: "('a::len, unit) shuffle_state_2" where
  "demo_shuffle_2 = (\<lparr>dm_bv = demo_state, seed_calls = 0\<rparr>, perm_manager_new)"

lemma demo_shuffle_2_ok: "m \<le> 128 \<Longrightarrow> shuffle_ok_2 fair_aes demo_ole m (demo_shuffle_2 :: (8, unit) shuffle_state_2)"
  using demo_ole
  by (auto simp: fair_aes_cipher fair_demo shuffle_ok_2_def dm_ok_def dm_good_def bv_ok_def demo_shuffle_2_def demo_state_def demo_world_def demo_manager_def quiet_def
      get_group_def upt_rec dm_synced_def group_prg_ok_def less_2_cases_iff dmp.pairs_ok_def perm_manager_new_def)

definition demo_perm :: "8 elem_perm" where
  "demo_perm = \<lparr>sharedVector = share_out 2 0 [ [2, 0, 1], [0, 0, 0], [0, 0, 0] ], encoding = False\<rparr>"

lemma demo_perm_ok: "is_perm 3 [2, 0, 1]" "is_sharing 3 2 0 3 (sharedVector demo_perm)" "encoding demo_perm = False"
  "revealed (encoding demo_perm) (sharedVector demo_perm) = map of_nat [2, 0, 1]"
  by (simp_all add: demo_perm_def is_perm_def is_sharing_3 revealed_def reveal_3 [where m = 3] vadd_def)

lemma public_one_3pc:
  obtains X :: "'a::len sharing" where "rep3_public_share [1] [] = Some X" and "is_sharing 3 2 0 1 X" and "reveal_b X = [1]" and "reveal_a X = [1]"
  using rep3_public_share_correct [of "[1] :: 'a vec"] by auto

lemma public_one_2pc:
  "is_sharing 2 1 0 1 (bv_public_share [1 :: 'a::len word] [])" "reveal_b (bv_public_share [1 :: 'a word] []) = [1]"
proof -
  have "bv_public_share [1 :: 'a word] [] = share_out 1 0 [ [1], [0] ]"
    by (simp add: bv_public_share_def share_out_def upt_rec)
  then show "is_sharing 2 1 0 1 (bv_public_share [1 :: 'a word] [])" "reveal_b (bv_public_share [1 :: 'a word] []) = [1]"
    by (simp_all add: is_sharing_2 reveal_2 [where m = 1] vxor_def)
qed

section \<open>Properties\<close>

text \<open>C1: A whole session of three parties: set up the keys, let party \<open>d\<close> share \<open>x\<close> and party \<open>e\<close>
  share \<open>y\<close>, compare with \<open>operator>\<close> and open.  Every party ends with the signed comparison of the
  plaintexts, whatever the keys, the groups and the random values were.\<close>

theorem gt_session_correct:
  fixes x y :: "'a::len vec"
  assumes "keys_ok keygen" and "\<forall>g \<in> set groups. group_ok 3 g" and "cipher_ok TYPE('a) aes"
    and "d < 3" and "e < 3" and "length x = length y"
  shows "\<exists>w. gt_session aes keygen groups d e x y
    = Some (replicate 3 (map2 (\<lambda>a b. of_bool (sint b < sint a)) x y), w)"
proof -
  obtain w0 where w0: "setup_random_generation 3 keygen groups = Some w0" "rep3_ok aes (proto_world w0 :: ('a, key) world)"
    using session_start [OF assms(1-3)] by blast
  obtain X w1 where X: "rep3_secret_share_b_internal aes x d (proto_world w0) = Some (X, w1)" "rep3_ok aes w1"
    "is_sharing 3 2 0 (length x) X" "reveal_b X = x" using rep3_secret_share_correct(2) [OF w0(2) assms(4)] by blast
  obtain Y w2 where Y: "rep3_secret_share_b_internal aes y e w1 = Some (Y, w2)" "rep3_ok aes w2"
    "is_sharing 3 2 0 (length y) Y" "reveal_b Y = y" using rep3_secret_share_correct(2) [OF X(2) assms(5)] by blast
  obtain R w3 where R: "b_gt (replicated_3pc aes) X Y w2 = Some (R, w3)" "rep3_ok aes w3" "is_sharing 3 2 0 (length x) R"
    "reveal_b R = map2 (\<lambda>a b. of_bool (sint b < sint a)) x y"
    using rep3.b_gt_correct [OF Y(2) X(3) Y(3) [folded assms(6)]] unfolding X(4) Y(4) by blast
  show ?thesis
    using w0(1) X(1) Y(1) R(1) rep3_open_correct(2) [OF R(2,3)] by (simp add: gt_session_def R(4))
qed

theorem gt_session_witness:
  "\<exists>w. gt_session demo_aes demo_keygen [ [0, 1], [1, 2] ] 0 2 [5, 200, 7 :: 8 word] [3, 100, 7]
    = Some (replicate 3 [1, 0, 0], w)"
  using gt_session_correct [OF demo_keys _ demo_cipher, of "[ [0, 1], [1, 2] ]" 0 2 "[5, 200, 7]" "[3, 100, 7]"]
  by (simp add: group_ok_def)

text \<open>C2: A whole session on arithmetic shares: share two vectors additively, multiply them, convert the
  product to boolean shares with either adder and open.  Every party ends with the product of the plaintexts
  modulo \<open>2 ^ LENGTH('a)\<close>.\<close>

theorem product_session_correct:
  fixes x y :: "'a::len vec"
  assumes "keys_ok keygen" and "\<forall>g \<in> set groups. group_ok 3 g" and "cipher_ok TYPE('a) aes"
    and "d < 3" and "e < 3" and "length x = length y"
  shows "\<exists>w. product_session use_rca aes keygen groups d e x y = Some (replicate 3 (map2 (*) x y), w)"
proof -
  obtain w0 where w0: "setup_random_generation 3 keygen groups = Some w0" "rep3_ok aes (proto_world w0 :: ('a, key) world)"
    using session_start [OF assms(1-3)] by blast
  obtain X w1 where X: "rep3_secret_share_a_internal aes x d (proto_world w0) = Some (X, w1)" "rep3_ok aes w1"
    "is_sharing 3 2 0 (length x) X" "reveal_a X = x" using rep3_secret_share_correct(1) [OF w0(2) assms(4)] by blast
  obtain Y w2 where Y: "rep3_secret_share_a_internal aes y e w1 = Some (Y, w2)" "rep3_ok aes w2"
    "is_sharing 3 2 0 (length y) Y" "reveal_a Y = y" using rep3_secret_share_correct(1) [OF X(2) assms(5)] by blast
  obtain Z w3 where Z: "rep3_multiply_a aes X Y w2 = Some (Z, w3)" "rep3_ok aes w3" "is_sharing 3 2 0 (length x) Z"
    "reveal_a Z = map2 (*) x y"
    using rep3_multiply_correct [OF Y(2) X(3) Y(3) [folded assms(6)]] unfolding X(4) Y(4) by auto
  obtain B w4 where B: "a2b use_rca (replicated_3pc aes) Z w3 = Some (B, w4)" "rep3_ok aes w4"
    "is_sharing 3 2 0 (length x) B" "reveal_b B = map2 (*) x y"
    using rep3d.a2b_correct [OF Z(2,3)] unfolding Z(4) by blast
  show ?thesis
    using w0(1) X(1) Y(1) Z(1) B(1) rep3_open_correct(2) [OF B(2,3)] by (simp add: product_session_def B(4))
qed

theorem product_session_witness:
  "\<exists>w. product_session False demo_aes demo_keygen [] 1 2 [5, 20 :: 8 word] [3, 10] = Some (replicate 3 [15, 200], w)"
  using product_session_correct [OF demo_keys _ demo_cipher, of "[]" 1 2 "[5, 20]" "[3, 10]" False] by simp

text \<open>C3: Both adders of \<open>BSharedVector\<close> (ripple-carry and parallel-prefix) add two boolean sharings of three
  parties with a carry-in, modulo the word size, and keep the protocol's state invariant.\<close>

theorem adder_3pc:
  fixes A B :: "'a::len sharing" and w :: "('a, 's) world"
  assumes "rep3_ok aes w" and "is_sharing 3 2 q m A" and "is_sharing 3 2 q m B"
  shows "\<exists>R w'. binary_adder use_rca (replicated_3pc aes) A B c w = Some (R, w') \<and> rep3_ok aes w' \<and>
    is_sharing 3 2 q m R \<and> reveal_b R = map2 (\<lambda>x y. x + y + of_bool c) (reveal_b A) (reveal_b B)"
  using rep3.binary_adder_correct [OF assms, of use_rca c] by simp

theorem adder_3pc_witness:
  "\<exists>R w'. binary_adder False (replicated_3pc demo_aes) (share_out 2 0 [ [1, 2], [3, 4], [5, 55 :: 8 word] ])
      (share_out 2 0 [ [9, 8], [0, 1], [7, 0] ]) True (demo_world 3 :: (8, unit) world) = Some (R, w') \<and>
    reveal_b R = [22, 59]"
  using adder_3pc [OF demo_rep3, of 0 2 "share_out 2 0 [ [1, 2], [3, 4], [5, 55] ]" "share_out 2 0 [ [9, 8], [0, 1], [7, 0] ]"
      False True] by (simp add: is_sharing_3 reveal_3 [where m = 2] vxor_def) blast

text \<open>C4: Subtraction of boolean sharings of two parties, at any precision.  With the ripple-carry adder the result is the difference, at
  the precision of the minuend.  With the parallel-prefix adder and precision \<open>0\<close> the least significant bit of the difference is
  inverted, because the carry-in is added by \<open>p = p ^ 1\<close> at every party and an even number of shares cancels it; with any other
  precision the run fails, because \<open>~other\<close> has precision \<open>0\<close> and \<open>and_b\<close> refuses operands of different precision.\<close>

theorem b_minus_2pc:
  fixes A B :: "'a::len sharing" and st :: "('a, 's) beaver_state"
  assumes "bv_ok aes ole st" and "is_sharing 2 1 q m A" and "is_sharing 2 1 q' m B"
  shows "(use_rca \<or> q = 0 \<longrightarrow> (\<exists>R st'. b_minus use_rca (beaver_2pc aes ole wan) A B st = Some (R, st') \<and> bv_ok aes ole st' \<and>
      is_sharing 2 1 q m R \<and>
      reveal_b R = map2 (\<lambda>x y. if use_rca then x - y else (x - y) XOR 1) (reveal_b A) (reveal_b B))) \<and>
    (\<not> use_rca \<and> q \<noteq> 0 \<and> 0 < m \<longrightarrow> b_minus use_rca (beaver_2pc aes ole wan) A B st = None)"
  using bv.b_minus_correct [OF assms, of use_rca wan] bvp.b_minus_mismatch [OF assms(2,3), of aes ole wan st]
  by (cases use_rca) simp_all

theorem b_minus_2pc_witness:
  "(\<exists>R st'. b_minus False (beaver_2pc demo_aes demo_ole True) (share_out 1 0 [ [9 :: 8 word], [3] ])
      (share_out 1 0 [ [1], [5] ]) (demo_state :: (8, unit) beaver_state) = Some (R, st') \<and> reveal_b R = [7]) \<and>
    b_minus False (beaver_2pc demo_aes demo_ole True) (share_out 1 4 [ [9 :: 8 word], [3] ])
      (share_out 1 4 [ [1], [5] ]) (demo_state :: (8, unit) beaver_state) = None"
  using b_minus_2pc [OF demo_bv, of 0 1 "share_out 1 0 [ [9], [3] ]" 0 "share_out 1 0 [ [1], [5] ]" False True]
    b_minus_2pc [OF demo_bv, of 4 1 "share_out 1 4 [ [9], [3] ]" 4 "share_out 1 4 [ [1], [5] ]" False True]
  by (simp add: is_sharing_2 reveal_2 [where m = 1] vxor_def) blast

text \<open>C5: The protocols agree: \<open>compare\<close> run on sharings of the same two vectors under one party (plaintext), under two-party
  Beaver triples in either network setting, and under three-party replicated sharing returns in all three, and the
  equality and signed greater-than bits they open to are the same and are those of the plaintexts.\<close>

theorem protocols_agree:
  fixes X1 Y1 X2 Y2 X3 Y3 :: "'a::len sharing" and st :: "('a, 's) beaver_state" and w :: "('a, 's) world"
  assumes "bv_ok aes ole st" and "rep3_ok aes w"
    and "is_sharing 1 1 q1 m X1" and "is_sharing 1 1 q1 m Y1" and "is_sharing 2 1 q2 m X2" and "is_sharing 2 1 q2 m Y2"
    and "is_sharing 3 2 q3 m X3" and "is_sharing 3 2 q3 m Y3"
    and "reveal_b X1 = x" and "reveal_b X2 = x" and "reveal_b X3 = x"
    and "reveal_b Y1 = y" and "reveal_b Y2 = y" and "reveal_b Y3 = y"
  shows "\<exists>E1 G1 s1 E2 G2 s2 E3 G3 s3. compare plaintext_1pc X1 Y1 pst = Some ((E1, G1), s1) \<and>
    compare (beaver_2pc aes ole wan) X2 Y2 st = Some ((E2, G2), s2) \<and> bv_ok aes ole s2 \<and>
    compare (replicated_3pc aes) X3 Y3 w = Some ((E3, G3), s3) \<and> rep3_ok aes s3 \<and>
    (\<forall>E \<in> {E1, E2, E3}. reveal_b E = map2 (\<lambda>x y. of_bool (x = y)) x y) \<and>
    (\<forall>G \<in> {G1, G2, G3}. reveal_b G = map2 (\<lambda>x y. of_bool (sint y < sint x)) x y)"
proof -
  have "pt_ok pst" by (simp add: pt_ok_def)
  from pt.compare_correct [OF this assms(3,4)] bv.compare_correct [OF assms(1,5,6), of wan] rep3.compare_correct [OF assms(2,7,8)]
  show ?thesis unfolding assms(9-14) by fastforce
qed

theorem protocols_agree_witness:
  "\<exists>E1 G1 s1 E2 G2 s2 E3 G3 s3. compare plaintext_1pc (share_out 1 0 [ [7, 1 :: 8 word] ]) (share_out 1 0 [ [2, 1] ]) pt_new
      = Some ((E1, G1), s1) \<and>
    compare (beaver_2pc demo_aes demo_ole True) (share_out 1 0 [ [5, 3], [2, 2] ]) (share_out 1 0 [ [2, 0], [0, 1] ])
      (demo_state :: (8, unit) beaver_state) = Some ((E2, G2), s2) \<and>
    compare (replicated_3pc demo_aes) (share_out 2 0 [ [5, 3], [2, 2], [0, 0] ]) (share_out 2 0 [ [2, 0], [0, 0], [0, 1] ])
      (demo_world 3 :: (8, unit) world) = Some ((E3, G3), s3) \<and>
    (\<forall>E \<in> {E1, E2, E3}. reveal_b E = [0, 1]) \<and> (\<forall>G \<in> {G1, G2, G3}. reveal_b G = [1, 0])"
proof -
  have a: "is_sharing 1 1 0 2 (share_out 1 0 [ [7, 1 :: 8 word] ])" "is_sharing 1 1 0 2 (share_out 1 0 [ [2, 1 :: 8 word] ])"
    "reveal_b (share_out 1 0 [ [7, 1 :: 8 word] ]) = [7, 1]" "reveal_b (share_out 1 0 [ [2, 1 :: 8 word] ]) = [2, 1]"
    by (simp_all add: is_sharing_share_out reveal_b_share_out [where m = 2] vxor_all_def vxor_def numeral_2_eq_2)
  show ?thesis
    using protocols_agree [OF demo_bv demo_rep3 a(1,2), of 0 "share_out 1 0 [ [5, 3], [2, 2] ]" "share_out 1 0 [ [2, 0], [0, 1] ]" 0
        "share_out 2 0 [ [5, 3], [2, 2], [0, 0] ]" "share_out 2 0 [ [2, 0], [0, 0], [0, 1] ]" "[7, 1]" "[2, 1]" pt_new True] a(3,4)
    by (simp add: is_sharing_2 reveal_2 [where m = 2] is_sharing_3 reveal_3 [where m = 2] vxor_def) blast
qed

text \<open>C6: The linear-round comparison computes the same bits as the logarithmic one, for three parties: both
  return the plaintext equality and signed order.\<close>

theorem linear_compare_3pc:
  fixes X Y E0 :: "'a::len sharing" and w :: "('a, 's) world"
  assumes "rep3_ok aes w" and "is_sharing 3 2 q m X" and "is_sharing 3 2 q m Y" and "is_sharing 3 2 q m E0"
  shows "\<exists>E G w1 E' G' w2. linear_compare (replicated_3pc aes) X Y E0 w = Some ((E, G), w1) \<and>
    compare (replicated_3pc aes) X Y w = Some ((E', G'), w2) \<and> rep3_ok aes w1 \<and> rep3_ok aes w2 \<and>
    reveal_b E = reveal_b E' \<and> reveal_b G = reveal_b G' \<and>
    reveal_b E = map2 (\<lambda>x y. of_bool (x = y)) (reveal_b X) (reveal_b Y) \<and>
    reveal_b G = map2 (\<lambda>x y. of_bool (sint y < sint x)) (reveal_b X) (reveal_b Y)"
  using rep3.linear_compare_correct [OF assms] rep3.compare_correct [OF assms(1-3)] by fastforce

theorem linear_compare_3pc_witness:
  "\<exists>E G w'. linear_compare (replicated_3pc demo_aes) (share_out 2 0 [ [1, 2], [3, 4], [5, 255 :: 8 word] ])
      (share_out 2 0 [ [9, 8], [0, 1], [7, 0] ]) (share_out 2 0 [ [0, 0], [0, 0], [0, 0] ])
      (demo_world 3 :: (8, unit) world) = Some ((E, G), w') \<and> reveal_b E = [0, 0] \<and> reveal_b G = [0, 0]"
  using linear_compare_3pc [OF demo_rep3, of 0 2 "share_out 2 0 [ [1, 2], [3, 4], [5, 255] ]"
      "share_out 2 0 [ [9, 8], [0, 1], [7, 0] ]" "share_out 2 0 [ [0, 0], [0, 0], [0, 0] ]"]
  by (simp add: is_sharing_3 reveal_3 [where m = 2] vxor_def) blast

text \<open>C7: Group-by of three parties, for columns of precision \<open>0\<close> and at most \<open>2 ^ 30\<close> rows: sort a table by its key columns (\<open>bitonic_sort\<close>), then \<open>aggregate\<close> its
  arithmetic columns with \<open>sum\<close>.  The sorted table has the rows of the input, and where a run of equal keys ends, every aggregated
  column holds the sum of that column over all rows of the input that have the key.\<close>

theorem group_by_sum_3pc:
  fixes t :: "'a::len shared_table" and w :: "('a, 's) world"
  assumes "rep3_ok aes w" and "0 < r" and "r \<le> 30" and "keys t \<noteq> []" and "length order = length (keys t)" and "table_ok 3 2 0 (2 ^ r) t"
  shows "\<exists>t' w' as w''. bitonic_sort (replicated_3pc aes) t order w = Some (t', w') \<and>
    aggregate (replicated_3pc aes) (\<lambda>x. rep3_public_share x []) (\<lambda>x. rep3_public_share x []) (keys t') []
      (sum_specs (data_a t')) Forward None w' = Some (([], as), w'') \<and> rep3_ok aes w'' \<and>
    mset (table_rows (2 ^ r) t') = mset (table_rows (2 ^ r) t) \<and> length as = length (data_a t) \<and>
    (\<forall>c < length as. is_sharing 3 2 0 (2 ^ r) (fst (as ! c)) \<and>
      (\<forall>i < 2 ^ r. Suc i = 2 ^ r \<or> fst (table_rows (2 ^ r) t' ! Suc i) \<noteq> fst (table_rows (2 ^ r) t' ! i) \<longrightarrow>
        reveal_a (fst (as ! c)) ! i =
          (\<Sum>row \<leftarrow> table_rows (2 ^ r) t. if fst row = fst (table_rows (2 ^ r) t' ! i) then fst (snd row) ! c else 0)))"
proof -
  obtain X :: "'a sharing" where X: "rep3_public_share [1] [] = Some X" "is_sharing 3 2 0 1 X" "reveal_b X = [1]" "reveal_a X = [1]"
    by (rule public_one_3pc)
  show ?thesis
    using rep3a.group_by_sum_correct [OF assms, where pub_b = "\<lambda>x. rep3_public_share x []" and pub_a = "\<lambda>x. rep3_public_share x []"] X by blast
qed

theorem group_by_sum_3pc_witness:
  "\<exists>t' w' as w''. bitonic_sort (replicated_3pc demo_aes) demo_table [ASC] (demo_world 3 :: (8, unit) world) = Some (t', w') \<and>
    aggregate (replicated_3pc demo_aes) (\<lambda>x. rep3_public_share x []) (\<lambda>x. rep3_public_share x []) (keys t') []
      (sum_specs (data_a t')) Forward None w' = Some (([], as), w'') \<and>
    mset (table_rows 2 t') = mset [([5], [3], []), ([1], [2], [])]"
proof -
  have "(0 :: nat) < 1" "(1 :: nat) \<le> 30" "keys demo_table \<noteq> []" "length [ASC] = length (keys demo_table)" by (simp_all add: demo_table_def)
  from group_by_sum_3pc [OF demo_rep3 this demo_table_ok(1)] show ?thesis unfolding demo_table_ok(2) by auto
qed

text \<open>C8: Arithmetic-to-boolean conversion for two parties: redistribute the two additive shares as boolean sharings
  and add them inside the protocol; the boolean sharing opens to the value of the arithmetic one and keeps its
  precision.\<close>

theorem a2b_2pc:
  fixes X :: "'a::len sharing" and st :: "('a, 's) beaver_state"
  assumes "bv_ok aes ole st" and "is_sharing 2 1 q m X"
  shows "\<exists>R st'. a2b use_rca (beaver_2pc aes ole wan) X st = Some (R, st') \<and> bv_ok aes ole st' \<and>
    is_sharing 2 1 q m R \<and> reveal_b R = reveal_a X"
  using assms by (rule bvd.a2b_correct)

theorem a2b_2pc_witness:
  "\<exists>R st'. a2b True (beaver_2pc demo_aes demo_ole False) (share_out 1 4 [ [9 :: 8 word, 1], [3, 2] ])
      (demo_state :: (8, unit) beaver_state) = Some (R, st') \<and> reveal_b R = [12, 3]"
  using a2b_2pc [OF demo_bv, of 4 2 "share_out 1 4 [ [9, 1], [3, 2] ]" True False]
  by (simp add: is_sharing_2 reveal_2 [where m = 2] vadd_def) blast

text \<open>C9: \<open>aggregate\<close> of three parties over a number of rows that is a power of two, at most \<open>2 ^ 30\<close>, with any key columns, boolean
  and arithmetic aggregations, direction and selection bits, all columns at precision \<open>0\<close>: it returns, and every output opens to the
  segmented scan of its input over the runs of rows with equal keys (and, but for copies, equal selection), provided that equal rows
  are adjacent.  Without key columns the arithmetic aggregations ignore the selection, as the code does: their group is then all rows.\<close>

theorem aggregate_3pc:
  fixes ks :: "'a::len sharing list" and w :: "('a, 's) world"
  assumes "rep3_ok aes w" and "0 < r" and "r \<le> 30" and "agg_inputs 3 2 (2 ^ r) ks sb sa sel" and "agg_grouped (2 ^ r) ks sb sa sel"
  shows "\<exists>bs as w'. aggregate (replicated_3pc aes) (\<lambda>x. rep3_public_share x []) (\<lambda>x. rep3_public_share x []) ks sb sa dir sel w
      = Some ((bs, as), w') \<and> rep3_ok aes w' \<and>
    (\<forall>x \<in> set bs. is_sharing 3 2 0 (2 ^ r) (fst x)) \<and> (\<forall>x \<in> set as. is_sharing 3 2 0 (2 ^ r) (fst x)) \<and>
    map (\<lambda>x. (reveal_b (fst x), snd x)) bs = map (\<lambda>s. (scanned_b (dir = Reverse) ks sel s, snd (snd s))) sb \<and>
    map (\<lambda>x. (reveal_a (fst x), snd x)) as = map (\<lambda>s. (scanned_a (dir = Reverse) ks sel s, snd (snd s))) sa"
proof -
  obtain X :: "'a sharing" where X: "rep3_public_share [1] [] = Some X" "is_sharing 3 2 0 1 X" "reveal_b X = [1]" "reveal_a X = [1]"
    by (rule public_one_3pc)
  show ?thesis
    using rep3a.aggregate_correct [OF assms(1,2,4,5), where pub_b = "\<lambda>x. rep3_public_share x []" and pub_a = "\<lambda>x. rep3_public_share x []"] X by blast
qed

theorem aggregate_3pc_witness:
  "\<exists>as w'. aggregate (replicated_3pc demo_aes) (\<lambda>x. rep3_public_share x []) (\<lambda>x. rep3_public_share x [])
      [share_out 2 0 [ [5, 5], [0, 0], [0, 0 :: 8 word] ] ] []
      [(share_out 2 0 [ [3, 4], [0, 0], [0, 0] ], share_out 2 0 [ [0, 0], [0, 0], [0, 0] ], Sum_a),
       (share_out 2 0 [ [3, 4], [0, 0], [0, 0] ], share_out 2 0 [ [0, 0], [0, 0], [0, 0] ], Count_a)] Forward None
      (demo_world 3 :: (8, unit) world) = Some (([], as), w') \<and>
    map (\<lambda>x. reveal_a (fst x)) as = [ [3, 7], [1, 2] ]"
proof -
  let ?k = "share_out 2 0 [ [5, 5], [0, 0], [0, 0 :: 8 word] ]" and ?x = "share_out 2 0 [ [3, 4], [0, 0], [0, 0 :: 8 word] ]"
    and ?z = "share_out 2 0 [ [0, 0], [0, 0], [0, 0 :: 8 word] ]"
  let ?sa = "[(?x, ?z, Sum_a), (?x, ?z, Count_a)]"
  have s: "is_sharing 3 2 0 2 ?k" "is_sharing 3 2 0 2 ?x" "is_sharing 3 2 0 2 ?z"
    "reveal_b ?k = [5, 5]" "reveal_a ?x = [3, 4]"
    by (simp_all add: is_sharing_3 reveal_3 [where m = 2] vxor_def vadd_def)
  have z: "sh_size ?z = 2" "a_prec ?z = 0" by (rule rep3a.size_is [OF s(3)], rule rep3.is_sharing_a_prec [OF s(3)])
  have i: "agg_inputs 3 2 (2 ^ 1) [?k] [] ?sa None" using s z by (simp add: agg_inputs_def)
  have g: "agg_grouped (2 ^ 1) [?k] [] ?sa None" by (auto simp: agg_grouped_def contiguous_def)
  have v: "scanned_a False [?k] None (?x, ?z, Sum_a) = [3, 7]" "scanned_a False [?k] None (?x, ?z, Count_a) = [1, 2]"
    using s by (simp_all add: scanned_a_def group_scan_def input_a_def label_a_def row_label_def in_dir_def upt_rec)
  from aggregate_3pc [OF demo_rep3 _ _ i g, of Forward] show ?thesis using v by (auto simp: map_eq_Cons_conv)
qed

text \<open>C10: Multiplication with fixed-point truncation for three parties.  Without precision the product is exact
  modulo the word size.  With precision \<open>q\<close> every element is the product shifted right by \<open>q\<close>, minus at most one, plus
  a multiple (\<open>-1\<close>, \<open>0\<close> or \<open>1\<close>) of \<open>2 ^ (LENGTH('a) - q)\<close> when the two locally shifted parts wrap around.\<close>

theorem multiply_a_3pc:
  fixes X Y :: "'a::len sharing" and w :: "('a, 's) world"
  assumes "rep3_ok aes w" and "is_sharing 3 2 q m X" and "is_sharing 3 2 q m Y" and "q \<le> LENGTH('a)"
  shows "\<exists>R w'. rep3_multiply_a aes X Y w = Some (R, w') \<and> rep3_ok aes w' \<and> is_sharing 3 2 q m R \<and>
    (q = 0 \<longrightarrow> reveal_a R = map2 (*) (reveal_a X) (reveal_a Y)) \<and>
    (\<forall>i < m. \<exists>e \<in> {- 1, 0, 1}. \<exists>d \<in> {0, 1}. reveal_a R ! i =
       word_of_int (sint (reveal_a X ! i * reveal_a Y ! i) div 2 ^ q + e * 2 ^ (LENGTH('a) - q) - d))"
proof -
  obtain R w' where R: "rep3_multiply_a aes X Y w = Some (R, w')" "rep3_ok aes w'" "is_sharing 3 2 q m R"
    "if q = 0 then reveal_a R = map2 (*) (reveal_a X) (reveal_a Y)
     else truncated q (map2 (*) (reveal_a X) (reveal_a Y)) (reveal_a R)"
    using rep3_multiply_correct [OF assms(1-3)] by blast
  have l: "length (reveal_a X) = m" "length (reveal_a Y) = m" using assms(2,3) by simp_all
  have "\<exists>e \<in> {- 1, 0, 1}. \<exists>d \<in> {0, 1}. reveal_a R ! i =
       word_of_int (sint (reveal_a X ! i * reveal_a Y ! i) div 2 ^ q + e * 2 ^ (LENGTH('a) - q) - d)" if i: "i < m" for i
  proof (cases "q = 0")
    case True
    then show ?thesis using R(4) l i by (intro bexI [of _ 0]) simp_all
  next
    case False
    then show ?thesis using truncated_error [of q "map2 (*) (reveal_a X) (reveal_a Y)" "reveal_a R" i] R(4) l i assms(4) by simp
  qed
  then show ?thesis using R by auto
qed

theorem multiply_a_3pc_witness:
  "\<exists>R w'. rep3_multiply_a demo_aes (share_out 2 0 [ [1], [3], [5 :: 8 word] ]) (share_out 2 0 [ [2], [1], [1] ])
      (demo_world 3 :: (8, unit) world) = Some (R, w') \<and> reveal_a R = [36]"
  using multiply_a_3pc [OF demo_rep3, of 0 1 "share_out 2 0 [ [1], [3], [5] ]" "share_out 2 0 [ [2], [1], [1] ]"]
  by (simp add: is_sharing_3 reveal_3 [where m = 1] vadd_def) blast

text \<open>C11: Division of an arithmetic sharing by a positive public constant, with correction, for three parties.  The
  value splits into the parts \<open>a = x\<^sub>0 + x\<^sub>1\<close> and \<open>b = x\<^sub>2\<close> that two parties divide locally; where the parts do not wrap
  around, the result is the floor of the signed quotient, one less exactly when both parts are negative multiples of
  the divisor.\<close>

theorem a_div_const_3pc:
  fixes X :: "'a::len sharing" and w :: "('a, 's) world"
  assumes "rep3_ok aes w" and "is_sharing 3 2 q m X" and "0 < sint c" and "rep3_parts X = (a, b)"
  shows "\<exists>R w'. a_div_const use_rca (replicated_3pc aes) X c w = Some (R, w') \<and> rep3_ok aes w' \<and>
    is_sharing 3 2 q m R \<and> vadd a b = reveal_a X \<and>
    (\<forall>i < m. sint (reveal_a X ! i) = sint (a ! i) + sint (b ! i) \<longrightarrow>
       reveal_a R ! i = word_of_int (sint (reveal_a X ! i) div sint c)
         - of_bool (sint (a ! i) < 0 \<and> sint c dvd sint (a ! i) \<and> sint (b ! i) < 0 \<and> sint c dvd sint (b ! i)))"
proof -
  obtain R w' where R: "a_div_const use_rca (replicated_3pc aes) X c w = Some (R, w')" "rep3_ok aes w'"
    "is_sharing 3 2 q m R" "length a = m" "length b = m" "vadd a b = reveal_a X"
    "\<And>i. i < m \<Longrightarrow> reveal_a R ! i = quot_part c (a ! i) + quot_part c (b ! i)
        + of_bool (0 \<le> sint (rem_part c (a ! i) + rem_part c (b ! i) - c))"
    using rep3d.a_div_const_correct [OF assms(1,2), of use_rca c] assms(4) by auto
  have "reveal_a R ! i = word_of_int (sint (reveal_a X ! i) div sint c)
         - of_bool (sint (a ! i) < 0 \<and> sint c dvd sint (a ! i) \<and> sint (b ! i) < 0 \<and> sint c dvd sint (b ! i))"
    if i: "i < m" and s: "sint (reveal_a X ! i) = sint (a ! i) + sint (b ! i)" for i
  proof -
    have "reveal_a X ! i = a ! i + b ! i" using i R(4,5) unfolding R(6) [symmetric] by simp
    then show ?thesis using corrected_quotient [of "a ! i" "b ! i" c] s assms(3) R(7) [OF i] by simp
  qed
  then show ?thesis using R(1,2,3,6) by blast
qed

theorem a_div_const_3pc_witness:
  "\<exists>R w'. a_div_const True (replicated_3pc demo_aes) (share_out 2 0 [ [1], [3], [5 :: 8 word] ]) 2
      (demo_world 3 :: (8, unit) world) = Some (R, w') \<and> reveal_a R ! 0 = 4"
proof -
  let ?X = "share_out 2 0 [ [1], [3], [5 :: 8 word] ]"
  have X: "is_sharing 3 2 0 1 ?X" "reveal_a ?X = [9]" "0 < sint (2 :: 8 word)"
    by (simp_all add: is_sharing_3 reveal_3 [where m = 1] vadd_def)
  have "rep3_parts ?X = ([4], [5])" by (simp add: rep3_parts_def share_out_3 col_def vadd_def)
  from a_div_const_3pc [OF demo_rep3 X(1,3) this, of True] show ?thesis unfolding X(2) by auto
qed

text \<open>C12: The secure matrix product of three parties: with zero precision the opened result is the matrix product that
  the plaintext routine computes (row times column-major matrix); with precision \<open>q\<close> it is that product truncated in two
  parts.\<close>

theorem matrix_product_3pc:
  fixes X Y :: "'a::len sharing" and w :: "('a, 's) world"
  assumes "rep3_ok aes w" and "is_sharing 3 2 q (r * c) X" and "is_sharing 3 2 q (c * c') Y"
  shows "\<exists>R w'. rep3_matrix_product_a aes (r * c') r c c c' X Y w = Some (R, w') \<and> rep3_ok aes w' \<and>
    is_sharing 3 2 q (r * c') R \<and>
    (if q = 0 then reveal_a R = matrixRightMultiplyWithColumnMatrixVectorized r c c c' (reveal_a X) (reveal_a Y)
     else truncated q (matrixRightMultiplyWithColumnMatrixVectorized r c c c' (reveal_a X) (reveal_a Y)) (reveal_a R))"
  using assms by (rule rep3_matrix_product_correct)

theorem matrix_product_3pc_witness:
  "\<exists>R w'. rep3_matrix_product_a demo_aes 1 1 2 2 1 (share_out 2 0 [ [1, 0], [3, 1], [5 :: 8 word, 1] ])
      (share_out 2 0 [ [2, 1], [1, 1], [1, 1] ]) (demo_world 3 :: (8, unit) world) = Some (R, w') \<and> reveal_a R = [42]"
  using matrix_product_3pc [OF demo_rep3, of 0 1 2 "share_out 2 0 [ [1, 0], [3, 1], [5, 1] ]" 1
      "share_out 2 0 [ [2, 1], [1, 1], [1, 1] ]"]
  by (simp add: is_sharing_3 reveal_3 [where m = 2] vadd_def matrixRightMultiplyWithColumnMatrixVectorized_def upt_rec) blast

text \<open>C13: Radix sort of a boolean-shared vector by three parties, on any number of low bits and with or without the
  inverted sign bit: the result is the stable sort by those bits, and the elementwise permutation that comes with it
  opens to the permutation that takes the input to the result.\<close>

theorem radix_sort_permutation:
  fixes v :: "'a::len sharing" and st :: "('a, 's) shuffle_state"
  assumes "shuffle_ok_3 aes m st" and "is_sharing 3 2 q m v" and "bits \<le> LENGTH('a)"
  shows "\<exists>v' tp T st'. radix_sort_ccs (rep3_shuffler aes) (shuffle_3pc aes) v bits full st = Some ((v', tp), st') \<and>
    shuffle_ok_3 aes m st' \<and> is_sharing 3 2 q m v' \<and> is_perm m T \<and>
    revealed (encoding tp) (sharedVector tp) = map of_nat T \<and> permute T (reveal_b v) = reveal_b v' \<and>
    reveal_b v' = sort_key (radix_key full bits bits) (reveal_b v)"
  using rx3.radix_sort_correct [OF assms, of full] unfolding sh3.perm_shared_def by blast

theorem radix_sort_permutation_witness:
  "\<exists>v' tp T st'. radix_sort_ccs (rep3_shuffler fair_aes) (shuffle_3pc fair_aes)
      (share_out 2 0 [ [7, 8, 1], [0, 0, 0], [0, 0, 0 :: 8 word] ]) 4 False demo_shuffle = Some ((v', tp), st') \<and>
    permute T [7, 8, 1] = reveal_b v' \<and> sorted (map (\<lambda>x. unat (take_bit 4 x)) (reveal_b v'))"
proof -
  let ?X = "share_out 2 0 [ [7, 8, 1], [0, 0, 0], [0, 0, 0 :: 8 word] ]"
  have X: "is_sharing 3 2 0 3 ?X" "reveal_b ?X = [7, 8, 1]"
    by (simp_all add: is_sharing_3 reveal_3 [where m = 3] vxor_def)
  have "\<exists>v' tp T st'. radix_sort_ccs (rep3_shuffler fair_aes) (shuffle_3pc fair_aes) ?X 4 False demo_shuffle = Some ((v', tp), st') \<and>
    permute T [7, 8, 1] = reveal_b v' \<and> reveal_b v' = sort_key (\<lambda>x. unat (take_bit 4 x)) [7, 8, 1]"
    using radix_sort_permutation [OF demo_shuffle_ok X(1), of 4 False] unfolding X(2) radix_key_unsigned by auto
  then show ?thesis by (metis sorted_sort_key)
qed

text \<open>C14: Sharing and opening for three parties: whatever party \<open>d\<close> shares, arithmetically or as booleans, every
  party reads back after opening; opening costs each party one vector of bytes.\<close>

theorem share_open_3pc:
  fixes data :: "'a::len vec" and w :: "('a, 's) world"
  assumes "rep3_ok aes w" and "d < 3"
  shows "\<exists>X w1 Y w2. rep3_secret_share_a_internal aes data d w = Some (X, w1) \<and>
    rep3_unchecked_open_a X w1 = Some (replicate 3 data, tally 3 (length data) w1) \<and>
    rep3_secret_share_b_internal aes data d w = Some (Y, w2) \<and>
    rep3_unchecked_open_b Y w2 = Some (replicate 3 data, tally 3 (length data) w2)"
proof -
  obtain X w1 where X: "rep3_secret_share_a_internal aes data d w = Some (X, w1)" "rep3_ok aes w1"
      "is_sharing 3 2 0 (length data) X" "reveal_a X = data"
    using rep3_secret_share_correct(1) [OF assms] by blast
  obtain Y w2 where Y: "rep3_secret_share_b_internal aes data d w = Some (Y, w2)" "rep3_ok aes w2"
      "is_sharing 3 2 0 (length data) Y" "reveal_b Y = data"
    using rep3_secret_share_correct(2) [OF assms] by blast
  show ?thesis using X Y rep3_open_correct(1) [OF X(2,3)] rep3_open_correct(2) [OF Y(2,3)] by auto
qed

theorem share_open_3pc_witness:
  "\<exists>X w1. rep3_secret_share_a_internal demo_aes [7, 8 :: 8 word] 1 (demo_world 3 :: (8, unit) world) = Some (X, w1) \<and>
    rep3_unchecked_open_a X w1 = Some (replicate 3 [7, 8], tally 3 2 w1)"
  using share_open_3pc [OF demo_rep3, of 1 "[7, 8]"] by (auto simp: numeral_2_eq_2)

text \<open>C15: \<open>shuffle\<close> of a table's columns by three parties: all arithmetic and boolean columns are permuted by one and
  the same permutation, so rows stay together, and the engine's state invariant holds afterwards.\<close>

theorem shuffle_columns_3pc:
  fixes cas cbs :: "'a::len sharing list" and st :: "('a, 's) shuffle_state"
  assumes "shuffle_ok_3 aes m st" and "\<forall>c \<in> set cas \<union> set cbs. \<exists>q. is_sharing 3 2 q m c" and "cas \<noteq> []"
  shows "\<exists>cas' cbs' T st'. shuffle_columns (rep3_shuffler aes) cas cbs m st = Some ((cas', cbs'), st') \<and>
    shuffle_ok_3 aes m st' \<and> is_perm m T \<and>
    map reveal_a cas' = map (\<lambda>c. permute T (reveal_a c)) cas \<and> map reveal_b cbs' = map (\<lambda>c. permute T (reveal_b c)) cbs"
  using sh3.shuffle_columns_correct [OF assms(1) _ _ assms(3), of cbs] assms(2) by blast

theorem shuffle_columns_3pc_witness:
  "\<exists>a b T st'. shuffle_columns (rep3_shuffler fair_aes) [share_out 2 0 [ [7, 8, 1], [0, 0, 0], [0, 0, 0 :: 8 word] ]]
      [share_out 2 0 [ [1, 2, 3], [0, 0, 0], [0, 0, 0] ]] 3 demo_shuffle = Some (([a], [b]), st') \<and> is_perm 3 T \<and>
    reveal_a a = permute T [7, 8, 1] \<and> reveal_b b = permute T [1, 2, 3]"
proof -
  let ?a = "share_out 2 0 [ [7, 8, 1], [0, 0, 0], [0, 0, 0 :: 8 word] ]" and ?b = "share_out 2 0 [ [1, 2, 3], [0, 0, 0], [0, 0, 0 :: 8 word] ]"
  have X: "is_sharing 3 2 0 3 ?a" "is_sharing 3 2 0 3 ?b" "reveal_a ?a = [7, 8, 1]" "reveal_b ?b = [1, 2, 3]"
    by (simp_all add: is_sharing_3 reveal_3 [where m = 3] vxor_def vadd_def)
  then have "\<forall>c \<in> set [?a] \<union> set [?b]. \<exists>q. is_sharing 3 2 q 3 c" by auto
  from shuffle_columns_3pc [OF demo_shuffle_ok this] X(3,4) show ?thesis by (auto simp: map_eq_Cons_conv)
qed

text \<open>C16: A whole session of two parties: they set up their keys, party \<open>d\<close> shares a vector, the parties radix-sort it with
  permutation correlations (converted to arithmetic shares with either conversion) and open.  Both parties end with the plaintext sorted by the
  signed order.\<close>

theorem radix_sort_2pc:
  fixes x :: "'a::len vec"
  assumes "keys_ok keygen" and "cipher_ok TYPE('a) aes" and "cipher_ok TYPE(128) aes" and "fair_cipher aes (length x)" and "ole_ok ole"
    and "length x \<le> 2 ^ (LENGTH('a) - 1)" and "length x \<le> 2 ^ 31" and "d < 2"
  shows "\<exists>st. sort_session_2 aes keygen fresh ole wan use_rca use_libote d x = Some (replicate 2 (sort_key sint x), st)"
proof -
  let ?b = "\<lambda>w :: ('a, key) world. \<lparr>net = w, mul_calls = 0, and_calls = 0\<rparr>"
  let ?S = "dm_shuffler aes fresh ole wan use_rca use_libote :: ('a, ('a, key) dm_object, ('a, key) shuffle_state_2) shuffler"
  obtain w0 where w0: "setup_random_generation 2 keygen (getGroups 2) = Some w0" "bv_ok aes ole (?b (proto_world w0))" "dm_synced (mgrs w0)"
    using sort_start_2 [OF assms(1,2,5)] by blast
  have s0: "dm_synced (mgrs (net (?b (proto_world w0))))" using w0(3) by (simp add: proto_world_def)
  obtain X b where X: "bv_secret_share_b_internal aes x d (?b (proto_world w0)) = Some (X, b)" "bv_ok aes ole b"
    "is_sharing 2 1 0 (length x) X" "reveal_b X = x" using bv_secret_share_correct(2) [OF w0(2) assms(8), of x] by auto
  have "dm_synced (mgrs (net b))"
    using bv_share_synced [OF w0(2) s0 assms(8) X(1) [unfolded bv_secret_share_b_internal_def]] .
  then have ok: "shuffle_ok_2 aes ole (length x) (\<lparr>dm_bv = b, seed_calls = 0\<rparr>, perm_manager_new)"
    using X(2) assms(3,4,6,7) by (simp add: shuffle_ok_2_def dm_ok_def dm_good_def dmp.pairs_ok_def perm_manager_new_def)
  obtain Y tp st where Y: "radix_sort_ccs ?S (shuffle_2pc aes ole wan) X LENGTH('a) True (\<lparr>dm_bv = b, seed_calls = 0\<rparr>, perm_manager_new) =
      Some ((Y, tp), st)" "shuffle_ok_2 aes ole (length x) st" "is_sharing 2 1 0 (length x) Y" "reveal_b Y = sort_key sint x"
    using rx2.radix_sort_correct [OF ok X(3), of "LENGTH('a)" fresh wan use_rca use_libote True] unfolding X(4) radix_sort_signed by blast
  obtain st' where "s_open ?S True Y st = Some (replicate 2 (sort_key sint x), st')"
    using rx2.open_law [OF Y(2,3), of fresh wan use_rca use_libote True] Y(4) by (auto simp: revealed_def)
  then show ?thesis using w0(1) X(1) Y(1) by (simp add: sort_session_2_def)
qed

theorem radix_sort_2pc_witness:
  "\<exists>st. sort_session_2 fair_aes demo_keygen (\<lambda>_ _. []) demo_ole True True False 1 [5, 200, 7, 5 :: 8 word] = Some (replicate 2 [200, 5, 5, 7], st)"
  using radix_sort_2pc [OF demo_keys fair_aes_cipher(2,3) fair_demo demo_ole, of "[5, 200, 7, 5]" 1] by simp

text \<open>C17: Beaver multiplication of two parties.  From oblivious linear evaluations that satisfy \<open>A + B = C * D\<close> the
  generator cuts multiplication triples, and \<open>multiply_a\<close> opens to the product; with precision the product is truncated
  share by share.\<close>

theorem multiply_a_2pc:
  fixes X Y :: "'a::len sharing" and st :: "('a, 's) beaver_state"
  assumes "bv_ok aes ole st" and "is_sharing 2 1 q m X" and "is_sharing 2 1 q m Y"
  shows "\<exists>R st'. bv_multiply_a ole wan X Y st = Some (R, st') \<and> bv_ok aes ole st' \<and> is_sharing 2 1 q m R \<and>
    (if q = 0 then reveal_a R = map2 (*) (reveal_a X) (reveal_a Y)
     else truncated q (map2 (*) (reveal_a X) (reveal_a Y)) (reveal_a R))"
  using bv_multiply_correct [of aes ole st q m X Y wan] assms by simp

theorem multiply_a_2pc_witness:
  "\<exists>R st'. bv_multiply_a demo_ole True (share_out 1 0 [ [9 :: 8 word], [3] ]) (share_out 1 0 [ [1], [5] ])
      (demo_state :: (8, unit) beaver_state) = Some (R, st') \<and> reveal_a R = [72]"
  using multiply_a_2pc [OF demo_bv, of 0 1 "share_out 1 0 [ [9], [3] ]" "share_out 1 0 [ [1], [5] ]" True]
  by (simp add: is_sharing_2 reveal_2 [where m = 1] vadd_def) blast

text \<open>C18: The full-width conversion \<open>b2a\<close> of three parties: with masks drawn by every group, added in both domains, the boolean value is
  opened under the masks' sum and becomes an arithmetic sharing of the same vector at the same precision; the generators of neighbours and of groups stay
  synchronised, so conversions can be repeated.\<close>

theorem b2a_3pc:
  fixes X :: "'a::len sharing" and w :: "('a, 's) world"
  assumes "both_ok aes w" and "is_sharing 3 2 q m X"
  shows "\<exists>R w'. rep3_b2a aes use_rca X w = Some (R, w') \<and> both_ok aes w' \<and> is_sharing 3 2 q m R \<and> reveal_a R = reveal_b X"
  unfolding rep3_b2a_def using assms by (rule rep3m.b2a_correct)

theorem b2a_3pc_witness:
  "\<exists>R w'. rep3_b2a fair_aes False (share_out 2 0 [ [1, 4], [3, 1], [5 :: 8 word, 1] ]) (demo_world 3 :: (8, unit) world) = Some (R, w') \<and>
    reveal_a R = [7, 4]"
proof -
  have "both_ok fair_aes (demo_world 3 :: (8, unit) world)" using demo_hm demo_rep3_fair by (simp add: both_ok_def)
  from b2a_3pc [OF this, of 0 2 "share_out 2 0 [ [1, 4], [3, 1], [5, 1] ]" False] show ?thesis
    by (simp add: is_sharing_3 reveal_3 [where m = 2] vxor_def) blast
qed

text \<open>C19: The set-up of three parties ends, leaves no message in flight and establishes the invariant of the replicated
  protocol: neighbours hold the same generator for every key they share, and all hold the group generator.\<close>

theorem setup_3pc:
  assumes "keys_ok keygen" and "\<forall>g \<in> set groups. group_ok 3 g"
  shows "\<exists>w. setup_random_generation 3 keygen groups = Some w \<and> quiet w \<and> rep3_synced (mgrs w)"
  using assms by (rule setup_3pc_synced)

theorem setup_3pc_witness: "\<exists>w. setup_random_generation 3 demo_keygen [ [0, 2] ] = Some w \<and> rep3_synced (mgrs w)"
  using setup_3pc [OF demo_keys, of "[ [0, 2] ]"] by (auto simp: group_ok_def)

text \<open>C20: The set-up of four parties ends, leaves no message in flight, and every key is held in the same state by the
  three parties that are to know it, under the table entry of the fourth.\<close>

theorem setup_4pc:
  assumes "keys_ok keygen" and "\<forall>g \<in> set groups. group_ok 4 g"
  shows "\<exists>w. setup_random_generation 4 keygen groups = Some w \<and> quiet w \<and> synced_4 (mgrs w)"
  using assms by (rule setup_4pc_synced)

theorem setup_4pc_witness: "\<exists>w. setup_random_generation 4 demo_keygen [ [0, 1, 3] ] = Some w \<and> synced_4 (mgrs w)"
  using setup_4pc [OF demo_keys, of "[ [0, 1, 3] ]"] by (auto simp: group_ok_def)

text \<open>C21: A matched exchange (\<open>to_id + from_id\<close> divisible by the number of parties, neither below minus that number) from quiet channels delivers to every
  party the vector of the party at relative rank \<open>from_id\<close>, leaves the channels empty and counts the bytes sent.\<close>

theorem exchange_delivers:
  fixes sent bufs :: "'a::len vec list" and w :: "('a, 's) world"
  assumes "int n dvd to_id + from_id" and "- int n \<le> to_id" and "- int n \<le> from_id" and "0 < n" and "quiet w" and "length sent = n" and "length bufs = n"
    and "\<forall>v \<in> set sent. length v = m" and "\<forall>v \<in> set bufs. length v = m"
  shows "exchangeShares n sent bufs to_id from_id w =
     Some (map (\<lambda>p. sent ! abs_rank n p from_id) [0..<n], tally n m w)"
  using assms by (rule exchange_rotate)

theorem exchange_delivers_witness:
  "exchangeShares 2 [ [1 :: 8 word], [2] ] [ [0], [0] ] 1 1 (demo_world 2 :: (8, unit) world)
    = Some ([ [2], [1] ], tally 2 1 (demo_world 2))"
  using exchange_delivers [of 2 1 1 "demo_world 2" "[ [1 :: 8 word], [2] ]" "[ [0], [0] ]" 1]
  by (simp add: demo_world_def quiet_def rank_simps upt_rec)

text \<open>C22: Zero sharings of three parties: the three vectors that \<open>getNextArithmetic\<close> hands out add up to zero, the three of
  \<open>getNextBinary\<close> XOR to zero, and the generators stay synchronised.\<close>

theorem zero_sharing_3pc:
  fixes w :: "('a::len, 's) world"
  assumes "rep3_ok aes w"
  shows "(\<exists>r0 r1 r2 w'. for_parties [0, 1, 2] (\<lambda>p m. getNextArithmetic aes n m) w = Some ([r0, r1, r2 :: 'a vec], w') \<and>
      rep3_ok aes w' \<and> vadd r0 (vadd r1 r2) = replicate n 0) \<and>
    (\<exists>r0 r1 r2 w'. for_parties [0, 1, 2] (\<lambda>p m. getNextBinary aes n m) w = Some ([r0, r1, r2 :: 'a vec], w') \<and>
      rep3_ok aes w' \<and> vxor r0 (vxor r1 r2) = replicate n 0)"
proof (intro conjI)
  obtain a b c w' where z: "for_parties [0, 1, 2] (\<lambda>p m. getNextArithmetic aes n m) w =
      Some ([map2 (-) c a, map2 (-) a b, map2 (-) b (c :: 'a vec)], w')" "rep3_ok aes w'"
      "length a = n" "length b = n" "length c = n" using zero_sharing_3(1) [OF assms] by blast
  have "vadd (map2 (-) c a) (vadd (map2 (-) a b) (map2 (-) b c)) = replicate n 0"
    using z(3-5) by (intro vec_eqI) simp_all
  with z show "\<exists>r0 r1 r2 w'. for_parties [0, 1, 2] (\<lambda>p m. getNextArithmetic aes n m) w = Some ([r0, r1, r2 :: 'a vec], w') \<and>
      rep3_ok aes w' \<and> vadd r0 (vadd r1 r2) = replicate n 0" by blast
  obtain a b c w' where z: "for_parties [0, 1, 2] (\<lambda>p m. getNextBinary aes n m) w =
      Some ([map2 (XOR) c a, map2 (XOR) a b, map2 (XOR) b (c :: 'a vec)], w')" "rep3_ok aes w'"
      "length a = n" "length b = n" "length c = n" using zero_sharing_3(2) [OF assms] by blast
  have "vxor (map2 (XOR) c a) (vxor (map2 (XOR) a b) (map2 (XOR) b c)) = replicate n 0"
    using z(3-5) by (intro vec_eqI) (simp_all add: ac_simps)
  with z show "\<exists>r0 r1 r2 w'. for_parties [0, 1, 2] (\<lambda>p m. getNextBinary aes n m) w = Some ([r0, r1, r2 :: 'a vec], w') \<and>
      rep3_ok aes w' \<and> vxor r0 (vxor r1 r2) = replicate n 0" by blast
qed

theorem zero_sharing_3pc_witness:
  "\<exists>(r0 :: 8 word list) r1 r2 w'. for_parties [0, 1, 2] (\<lambda>p m. getNextArithmetic demo_aes 4 m) (demo_world 3 :: (8, unit) world)
      = Some ([r0, r1, r2], w') \<and> vadd r0 (vadd r1 r2) = replicate 4 0"
  using zero_sharing_3pc [OF demo_rep3, of 4] by blast

text \<open>C23: A draw of \<open>n\<close> elements returns \<open>n\<close> elements, keeps the seed and advances the nonce by the number of buffers
  of at most \<open>2 ^ 20\<close> bytes it took, modulo \<open>2 ^ 64\<close>.\<close>

theorem getNext_nonce:
  fixes aes :: "'s cipher" and g :: "'s prg"
  assumes "cipher_ok TYPE('a::len) aes"
  shows "\<exists>nums :: 'a vec. \<exists>g'. getNext aes n g = Some (nums, g') \<and> length nums = n \<and> seed g' = seed g \<and>
    nonce g' = nonce g + of_nat (div_ceil n (max_elements_in_buffer TYPE('a)))"
  using getNextBuffered_facts [of aes n g] assms unfolding getNext_def cipher_ok_def
  by (metis (no_types) prod.collapse)

theorem getNext_nonce_witness:
  "\<exists>nums :: 8 word list. \<exists>g'. getNext demo_aes 3 \<lparr>seed = (), nonce = 5\<rparr> = Some (nums, g') \<and> length nums = 3 \<and> nonce g' = 6"
  using getNext_nonce [OF demo_cipher, of 3 "\<lparr>seed = (), nonce = 5\<rparr>"]
  by (simp add: max_elements_in_buffer_def MAX_AES_QUERY_BYTES_def sizeof_def div_ceil_def)

text \<open>C24: Both prefix networks compute the segmented scan: running an associative operation through the views of the levels of the
  Brent-Kung network (in either direction) and of the Hillis-Steele network gives, over \<open>2 ^ r\<close> elements, the scan of every
  run of equal labels; so the two networks are equivalent.\<close>

theorem prefix_networks_agree:
  fixes f :: "'b \<Rightarrow> 'b \<Rightarrow> 'b"
  assumes "0 < r" and "length ls = 2 ^ r" and "length xs = 2 ^ r" and "\<forall>x y z. f (f x y) z = f x (f y z)"
    and "contiguous (2 ^ r) ((!) ls)"
  shows "\<exists>nw nr. prefix_network_new Forward (2 ^ r) = Some nw \<and> prefix_network_new Reverse (2 ^ r) = Some nr \<and>
    run_network bk_level (bk_depth nw) nw ls f [0..<nat (bk_depth nw)] xs = Some (map (seg_scan ((!) ls) f xs) [0..<2 ^ r]) \<and>
    run_network hs_level (int (hs_depth nw)) nw ls f [0..<hs_depth nw] xs = Some (map (seg_scan ((!) ls) f xs) [0..<2 ^ r]) \<and>
    run_network bk_level (bk_depth nr) nr ls f [0..<nat (bk_depth nr)] xs
      = Some (rev (map (seg_scan ((!) (rev ls)) f (rev xs)) [0..<2 ^ r]))"
proof -
  have "prefix_network_new Forward (2 ^ r) = Some (prefix_net r False)" "prefix_network_new Reverse (2 ^ r) = Some (prefix_net r True)"
    by (simp_all add: prefix_network_new_def is_power_of_two_def log2_floor_power)
  moreover have "contiguous (2 ^ r) ((!) (rev ls))"
    by (rule contiguous_cong [OF contiguous_dir [OF assms(5), of True]]) (use assms(2) in \<open>simp add: at_dir_def rev_nth\<close>)
  ultimately show ?thesis
    using networks_scan [of r False ls f xs] networks_scan(1) [of r True ls f xs] assms by (simp add: in_dir_def group_scan_def)
qed

theorem prefix_networks_agree_witness:
  "\<exists>nw. prefix_network_new Forward 4 = Some nw \<and>
    run_network bk_level (bk_depth nw) nw [1, 1, 1, 2 :: nat] (+) [0..<nat (bk_depth nw)] [1, 2, 3, 4 :: nat] = Some [1, 3, 6, 4] \<and>
    run_network hs_level (int (hs_depth nw)) nw [1, 1, 1, 2 :: nat] (+) [0..<hs_depth nw] [1, 2, 3, 4 :: nat] = Some [1, 3, 6, 4]"
proof -
  have c: "contiguous (2 ^ 2) ((!) [1, 1, 1, 2 :: nat])"
  proof (rule contiguous_cong)
    show "contiguous (2 ^ 2) (\<lambda>j. if j < 3 then 1 else 2 :: nat)" by (auto simp: contiguous_def)
    show "(if j < 3 then 1 else 2) = [1, 1, 1, 2 :: nat] ! j" if "j < 2 ^ 2" for j using that by (auto simp: less_Suc_eq numeral_eq_Suc)
  qed
  have v: "map (seg_scan ((!) [1, 1, 1, 2 :: nat]) (+) [1, 2, 3, 4 :: nat]) [0..<2 ^ 2] = [1, 3, 6, 4]" by code_simp
  have "(0 :: nat) < 2" "length [1, 1, 1, 2 :: nat] = 2 ^ 2" "length [1, 2, 3, 4 :: nat] = 2 ^ 2"
    "\<forall>x y z :: nat. x + y + z = x + (y + z)" by simp_all
  from prefix_networks_agree [OF this c] show ?thesis unfolding v by simp blast
qed

text \<open>C25: Resharing: a group of parties that together hold every share rerandomises a vector and hands the others their
  new shares.  For every number of parties and every replication factor all parties end with a well-formed sharing of the same
  secret, no message is left over, and the members still agree on their common generator.\<close>

theorem reshare_preserves:
  fixes X :: "'a::len sharing" and w :: "('a, 's) world"
  assumes "cipher_ok TYPE('a) aes" and "grp \<in> set (getGroups n)" and "2 \<le> n" and "0 < k" and "k \<le> n"
    and "n < length grp + k" and "is_sharing n k q m X" and "quiet w" and "length (mgrs w) = n"
    and "\<forall>p \<in> set grp. group_prg_ok grp g (mgrs w ! p)"
  shows "\<exists>Y w' g'. reshare binary aes n k grp X w = Some (Y, w') \<and> is_sharing n k q m Y \<and>
    (if binary then reveal_b Y = reveal_b X else reveal_a Y = reveal_a X) \<and>
    quiet w' \<and> length (mgrs w') = n \<and> (\<forall>p \<in> set grp. group_prg_ok grp g' (mgrs w' ! p))"
  using assms by (rule reshare_correct)

theorem reshare_preserves_witness:
  "\<exists>Y w' g'. reshare True demo_aes 3 2 [0, 2] (share_out 2 0 [ [1], [2], [4 :: 8 word] ]) (demo_world 3 :: (8, unit) world) = Some (Y, w') \<and>
    is_sharing 3 2 0 1 Y \<and> reveal_b Y = [7] \<and> quiet w' \<and> group_prg_ok [0, 2] g' (mgrs w' ! 2)"
proof -
  have a: "is_sharing 3 2 0 1 (share_out 2 0 [ [1], [2], [4 :: 8 word] ])"
    "reveal_b (share_out 2 0 [ [1], [2], [4 :: 8 word] ]) = [7]"
    by (simp_all add: is_sharing_3 reveal_3 [where m = 1] vxor_def)
  have b: "[0, 2] \<in> set (getGroups 3)"
    by code_simp
  have c: "\<forall>p \<in> set [0, 2]. group_prg_ok [0, 2] \<lparr>seed = (), nonce = 0\<rparr> (mgrs (demo_world 3 :: (8, unit) world) ! p)"
    by (simp add: group_prg_ok_def get_group_def demo_world_def demo_manager_def upt_rec)
  have "quiet (demo_world 3 :: (8, unit) world)" "length (mgrs (demo_world 3 :: (8, unit) world)) = 3"
    by (simp_all add: quiet_def demo_world_def)
  from reshare_preserves [OF demo_cipher b _ _ _ _ a(1) this c, of True] a(2) show ?thesis by auto
qed

text \<open>C26: \<open>tree_prefix_sum\<close> (Hillis-Steele, local for additive sharings) over \<open>2 ^ r\<close> elements returns for every protocol, and
  element \<open>j\<close> opens to the sum of the elements up to \<open>j\<close>, or from \<open>j\<close> on when reversed.\<close>

theorem tree_prefix_sum_all:
  fixes v :: "'a::len sharing"
  assumes "is_sharing n k q (2 ^ r) v" and "0 < k" and "0 < n"
  shows "\<exists>w. tree_prefix_sum v reverse = Some w \<and> is_sharing n k q (2 ^ r) w \<and>
    (\<forall>j < 2 ^ r. reveal_a w ! j = (if reverse then sum_list (drop j (reveal_a v)) else sum_list (take (Suc j) (reveal_a v))))"
proof -
  obtain w where w: "tree_prefix_sum v reverse = Some w" "is_sharing n k q (2 ^ r) w"
    "reveal_a w = in_dir reverse (map (\<lambda>j. sum_list (take (Suc j) (in_dir reverse (reveal_a v)))) [0..<2 ^ r])"
    using tree_prefix_sum_correct [OF assms] by blast
  have l: "length (reveal_a v) = 2 ^ r" using length_reveal(2) [OF assms] .
  have "sum_list (take (Suc (2 ^ r - Suc j)) (rev (reveal_a v))) = sum_list (drop j (reveal_a v))" if "j < 2 ^ r" for j
    using that l by (simp add: take_rev Suc_diff_Suc sum_list_rev)
  then show ?thesis using w l by (auto simp: in_dir_def rev_nth)
qed

theorem tree_prefix_sum_all_witness:
  "\<exists>w. tree_prefix_sum (share_out 1 0 [ [1, 2], [3, 250 :: 8 word] ]) True = Some w \<and> reveal_a w ! 0 = 0 \<and> reveal_a w ! 1 = 252"
proof -
  have "is_sharing 2 1 0 (2 ^ 1) (share_out 1 0 [ [1, 2], [3, 250 :: 8 word] ])"
    "reveal_a (share_out 1 0 [ [1, 2], [3, 250 :: 8 word] ]) = [4, 252]"
    by (simp_all add: is_sharing_2 reveal_2 [where m = 2] vadd_def)
  from tree_prefix_sum_all [OF this(1), of True] this(2) show ?thesis by (auto simp: less_2_cases_iff)
qed

text \<open>C27: The resharing assignments of different parties match: what a member sends to an outsider is, in the same order, what
  the outsider expects from that member, so no receive takes a message meant for another share and none waits for ever.\<close>

theorem assignments_match:
  assumes "p < n" and "q < n" and "k \<le> n" and "p \<in> set grp" and "q \<notin> set grp"
    and "\<forall>r \<in> set grp. r < n" and "distinct grp" and "n < length grp + k"
  shows "sends_to n k grp p q = map fst (filter (\<lambda>(s, r). r = int p - int q)
    (zip (generatePartyShareMappings n k ! q) (ranks (generate_recv_assignment n k q grp)))) \<and>
    length (ranks (generate_recv_assignment n k q grp)) = k"
proof -
  have c: "\<forall>s < n. lowest_holder n k grp s \<noteq> None" using group_covers assms by blast
  then have "\<forall>s \<in> set (generatePartyShareMappings n k ! q). lowest_holder n k grp s \<noteq> None"
    using p2s_less [OF assms(2)] by blast
  then have "length (ranks (generate_recv_assignment n k q grp)) = k"
    using assms(2) by (simp add: recv_ranks filter_id_conv nth_p2s del: not_None_eq)
  then show ?thesis using matched_assignments [OF assms(1-5) c] by blast
qed

theorem assignments_match_witness:
  "sends_to 3 2 [0, 2] 0 1 = [1] \<and> sends_to 3 2 [0, 2] 2 1 = [2] \<and> ranks (generate_recv_assignment 3 2 1 [0, 2]) = [- 1, 1]"
proof -
  have r: "ranks (generate_recv_assignment 3 2 1 [0, 2]) = [- 1, 1]" "generatePartyShareMappings 3 2 ! 1 = [1, 2]"
    by code_simp+
  show ?thesis using assignments_match [of 0 3 1 2 "[0, 2]"] assignments_match [of 2 3 1 2 "[0, 2]"] r by simp
qed

text \<open>C28: Bitonic sort of a shared table by three parties, on any number of key columns with a direction per column and any
  number of boolean and arithmetic data columns, for a power-of-two number of rows up to \<open>2 ^ 31\<close>.  At precision \<open>0\<close> the run never
  fails, the opened rows come out sorted lexicographically by the signed keys (negated for descending columns), and they are the
  input rows rearranged: every data value stays with its key.  With two rows or more of any other precision the run fails: the
  comparison bits have precision \<open>0\<close>, and the swap multiplies them with the keys.\<close>

theorem bitonic_sort_3pc:
  fixes t :: "'a::len shared_table" and w :: "('a, 's) world"
  assumes "rep3_ok aes w" and "keys t \<noteq> []" and "length order = length (keys t)" and "table_ok 3 2 q (2 ^ r) t" and "r \<le> 31"
  shows "(q = 0 \<longrightarrow> (\<exists>t' w'. bitonic_sort (replicated_3pc aes) t order w = Some (t', w') \<and> rep3_ok aes w' \<and> table_ok 3 2 0 (2 ^ r) t' \<and>
      sorted (map (row_key order) (table_rows (2 ^ r) t')) \<and> mset (table_rows (2 ^ r) t') = mset (table_rows (2 ^ r) t))) \<and>
    (q \<noteq> 0 \<and> 0 < r \<longrightarrow> bitonic_sort (replicated_3pc aes) t order w = None)"
proof (intro conjI impI)
  show "\<exists>t' w'. bitonic_sort (replicated_3pc aes) t order w = Some (t', w') \<and> rep3_ok aes w' \<and> table_ok 3 2 0 (2 ^ r) t' \<and>
      sorted (map (row_key order) (table_rows (2 ^ r) t')) \<and> mset (table_rows (2 ^ r) t') = mset (table_rows (2 ^ r) t)" if "q = 0"
    using rep3a.bitonic_sort_correct [OF assms(1-3) _ assms(5)] assms(4) that by simp
  assume q: "q \<noteq> 0 \<and> 0 < r"
  then obtain r' where "r = Suc r'" by (cases r) auto
  then show "bitonic_sort (replicated_3pc aes) t order w = None"
    using rep3a.bitonic_sort_mismatch [OF _ assms(1-3), of q r'] rep3p.and_mismatch q assms(4) by (metis (no_types))
qed

theorem bitonic_sort_3pc_witness:
  "\<exists>t' w'. bitonic_sort (replicated_3pc demo_aes) demo_table [ASC] (demo_world 3 :: (8, unit) world) = Some (t', w') \<and>
    sorted (map (row_key [ASC]) (table_rows (2 ^ 1) t')) \<and> mset (table_rows (2 ^ 1) t') = {#([1], [2], []), ([5], [3], [])#}"
proof -
  have "keys demo_table \<noteq> []" "length [ASC] = length (keys demo_table)" by (simp_all add: demo_table_def)
  from bitonic_sort_3pc [OF demo_rep3 this demo_table_ok(1)] show ?thesis
    unfolding demo_table_ok(2) by (auto simp: add_mset_commute)
qed

text \<open>C29: Permutation correlations of two parties: a request for a pair returns two correlations of one permutation; shuffling by the first and
  undoing it with the second restores the secret, in either encoding and with either conversion.  While a pair is stored the requested size is
  ignored: whatever the size asked for, the pair has the stored size.\<close>

theorem pair_roundtrip_2pc:
  fixes X :: "'a::len sharing" and st :: "('a, 's) shuffle_state_2"
  assumes "shuffle_ok_2 aes ole m st" and "is_sharing 2 1 q m X" and "size_n = m \<or> pair_queue (snd st) \<noteq> []"
  shows "\<exists>pi1 pi2 T st1 Y st2 Z st3. s_getNextPair (dm_shuffler aes fresh ole wan use_rca use_libote) size_n b b st = Some ((pi1, pi2), st1) \<and> is_perm m T \<and>
    s_apply (dm_shuffler aes fresh ole wan use_rca use_libote) b pi1 X st1 = Some (Y, st2) \<and> revealed b Y = permute T (revealed b X) \<and>
    s_apply_inverse (dm_shuffler aes fresh ole wan use_rca use_libote) b pi2 Y st2 = Some (Z, st3) \<and> revealed b Z = revealed b X \<and> shuffle_ok_2 aes ole m st3"
proof -
  let ?S = "dm_shuffler aes fresh ole wan use_rca use_libote :: ('a, ('a, 's) dm_object, ('a, 's) shuffle_state_2) shuffler"
  obtain pi1 pi2 T st1 where p: "s_getNextPair ?S size_n b b st = Some ((pi1, pi2), st1)" "is_perm m T" "dm_acts b m T pi1" "dm_acts b m T pi2"
    "shuffle_ok_2 aes ole m st1"
    using dm_pair_any_size [OF assms(1,3), of fresh wan use_rca use_libote b b] by blast
  obtain Y st2 where Y: "s_apply ?S b pi1 X st1 = Some (Y, st2)" "shuffle_ok_2 aes ole m st2" "is_sharing 2 1 q m Y"
    "revealed b Y = permute T (revealed b X)" using rx2.apply_law [OF p(5,2,3) assms(2)] by blast
  obtain Z st3 where Z: "s_apply_inverse ?S b pi2 Y st2 = Some (Z, st3)" "shuffle_ok_2 aes ole m st3"
    "revealed b Z = gather T (revealed b Y)" using rx2.inverse_law [OF Y(2) p(2,4) Y(3)] by blast
  have "length (revealed b X) = m" using assms(2) by (simp add: revealed_def)
  then have "revealed b Z = revealed b X" using Z(3) Y(4) gather_permute [OF p(2)] by simp
  then show ?thesis using p(1,2) Y(1,4) Z(1,2) by blast
qed

theorem pair_roundtrip_2pc_witness:
  "\<exists>pi1 pi2 T st1 Y st2 Z st3.
    s_getNextPair (dm_shuffler fair_aes (\<lambda>_ _. ()) demo_ole True True False) 3 False False demo_shuffle_2 = Some ((pi1, pi2), st1) \<and> is_perm 3 T \<and>
    s_apply (dm_shuffler fair_aes (\<lambda>_ _. ()) demo_ole True True False) False pi1 (share_out 1 0 [ [7, 8, 1], [1, 0, 0 :: 8 word] ]) st1 = Some (Y, st2) \<and>
    reveal_a Y = permute T [8, 8, 1] \<and>
    s_apply_inverse (dm_shuffler fair_aes (\<lambda>_ _. ()) demo_ole True True False) False pi2 Y st2 = Some (Z, st3) \<and> reveal_a Z = [8, 8, 1]"
proof -
  let ?X = "share_out 1 0 [ [7, 8, 1], [1, 0, 0 :: 8 word] ]"
  have X: "is_sharing 2 1 0 3 ?X" "reveal_a ?X = [8, 8, 1]" by (simp_all add: is_sharing_2 reveal_2 [where m = 3] vadd_def)
  have "3 \<le> (128 :: nat)" by simp
  from pair_roundtrip_2pc [OF demo_shuffle_2_ok [OF this] X(1) disjI1 [OF refl], where b = False and fresh = "\<lambda>_ _. ()" and wan = True and
      use_rca = True and use_libote = False] show ?thesis
    unfolding revealed_def if_False X(2) by blast
qed

text \<open>C30: The private division of boolean sharings (non-restoring, on double-width words) by three parties yields the signed
  quotient of the opened words rounded towards minus infinity, for every dividend and every positive divisor, with either adder.  The
  operands are copied into fresh vectors of double width, so their precision is lost: the quotient has precision \<open>0\<close>.\<close>

theorem b_div_3pc:
  fixes X Y :: "'c::len sharing" and w :: "('a::len, 's) world"
  assumes "rep3_ok aes w" and "is_sharing 3 2 q m X" and "is_sharing 3 2 q' m Y" and "LENGTH('a) = 2 * LENGTH('c)"
  shows "\<exists>R w'. b_div use_rca (replicated_3pc aes) X Y w = Some (R, w') \<and> rep3_ok aes w' \<and> is_sharing 3 2 0 m R \<and>
    (\<forall>j < m. 0 < sint (reveal_b Y ! j) \<longrightarrow> reveal_b R ! j = word_of_int (sint (reveal_b X ! j) div sint (reveal_b Y ! j)))"
  using assms by (rule rep3s.b_div_correct)

theorem b_div_3pc_witness:
  "\<exists>R w'. b_div True (replicated_3pc demo_aes) (share_out 2 0 [ [6 :: 4 word, 13], [0, 0], [0, 0] ]) (share_out 2 0 [ [4, 4], [0, 0], [0, 0] ])
      (demo_world 3 :: (8, unit) world) = Some (R, w') \<and> reveal_b R ! 0 = 1 \<and> reveal_b R ! 1 = - 1"
proof -
  let ?X = "share_out 2 0 [ [6 :: 4 word, 13], [0, 0], [0, 0] ]" and ?Y = "share_out 2 0 [ [4 :: 4 word, 4], [0, 0], [0, 0] ]"
  have a: "is_sharing 3 2 0 2 ?X" "is_sharing 3 2 0 2 ?Y" by (simp_all add: is_sharing_3)
  have r: "reveal_b ?X = [6, 13]" "reveal_b ?Y = [4, 4]" by (simp_all add: reveal_3 [where m = 2] vxor_def)
  have v: "sint (6 :: 4 word) div sint (4 :: 4 word) = 1" "sint (13 :: 4 word) div sint (4 :: 4 word) = - 1" "0 < sint (4 :: 4 word)"
    by code_simp+
  obtain R w' where R: "b_div True (replicated_3pc demo_aes) ?X ?Y (demo_world 3 :: (8, unit) world) = Some (R, w')"
    "\<forall>j < 2. 0 < sint (reveal_b ?Y ! j) \<longrightarrow> reveal_b R ! j = word_of_int (sint (reveal_b ?X ! j) div sint (reveal_b ?Y ! j))"
    using b_div_3pc [OF demo_rep3 a, of True] by auto
  have "reveal_b R ! 0 = word_of_int 1" "reveal_b R ! 1 = word_of_int (- 1)"
    using R(2) [rule_format, of 0] R(2) [rule_format, of 1] v unfolding r by simp_all
  then show ?thesis using R(1) by (intro exI [of _ R] exI [of _ w']) simp
qed

text \<open>C31: The access patterns of a vector refine list operations: reading through an alternating subset is the sublist of the
  indices \<open>j\<close> with \<open>j mod (inc + exc) < inc\<close>, through a flag filter the sublist at the nonzero flags, through repetition, cycling and
  the reverse direction the concatenations and the reversed list, whatever view the pattern is applied to; and no pattern leaves the
  storage.\<close>

theorem views_refine_lists:
  assumes "valid_view v" and "0 < inc + e"
  shows "\<exists>a i r c d. alternating_subset_reference inc (Some e) v = Some a \<and> included_reference flag v = Some i \<and>
    repeated_subset_reference m v = Some r \<and> cyclic_subset_reference n v = Some c \<and> directed_subset_reference (- 1) v = Some d \<and>
    (\<forall>u \<in> {a, i, r, c, d}. valid_view u) \<and>
    (\<forall>xs :: 'x list. view_get a xs = nths (view_get v xs) {j. j mod (inc + e) < inc} \<and>
      view_get i xs = nths (view_get v xs) {j. j < length flag \<and> flag ! j \<noteq> 0} \<and>
      view_get r xs = concat (map (replicate m) (view_get v xs)) \<and>
      view_get c xs = concat (replicate n (view_get v xs)) \<and> view_get d xs = rev (view_get v xs))"
proof -
  obtain a i r c d where "alternating_subset_reference inc (Some e) v = Some a" "valid_view a"
      "\<forall>xs :: 'x list. view_get a xs = nths (view_get v xs) {j. j mod (inc + e) < inc}"
    and "included_reference flag v = Some i" "valid_view i"
      "\<forall>xs :: 'x list. view_get i xs = nths (view_get v xs) {j. j < length flag \<and> flag ! j \<noteq> 0}"
    and "repeated_subset_reference m v = Some r" "valid_view r"
      "\<forall>xs :: 'x list. view_get r xs = concat (map (replicate m) (view_get v xs))"
    and "cyclic_subset_reference n v = Some c" "valid_view c" "\<forall>xs :: 'x list. view_get c xs = concat (replicate n (view_get v xs))"
    and "directed_subset_reference (- 1) v = Some d" "valid_view d" "\<forall>xs :: 'x list. view_get d xs = rev (view_get v xs)"
    using alternating_view [OF assms] included_view [OF assms(1), of flag] repeated_view [OF assms(1), of m]
      cyclic_view [OF assms(1), of n] reversed_view [OF assms(1)] by metis
  then show ?thesis by (intro exI [of _ a] exI [of _ i] exI [of _ r] exI [of _ c] exI [of _ d]) simp
qed

theorem views_refine_lists_witness:
  "\<exists>a. alternating_subset_reference 2 (Some 1) (base 5) = Some a \<and> view_get a [10, 11, 12, 13, 14 :: nat] = [10, 11, 13, 14]"
proof -
  have "nths [10, 11, 12, 13, 14 :: nat] {j. j mod (2 + 1) < 2} = [10, 11, 13, 14]"
    by (simp add: nths_Cons)
  moreover have "view_get (base 5) [10, 11, 12, 13, 14 :: nat] = [10, 11, 12, 13, 14]" by code_simp
  moreover obtain a where "alternating_subset_reference 2 (Some 1) (base 5) = Some a"
    "\<forall>xs :: nat list. view_get a xs = nths (view_get (base 5) xs) {j. j mod (2 + 1) < 2}"
    using views_refine_lists [of "base 5" 2 1 "[1 :: nat]" 1 1] by auto
  ultimately show ?thesis by (metis (lifting))
qed

text \<open>C32: Marking distinct rows with two parties: \<open>distinct\<close> over any number of key columns, of any precision, returns a bit per row that is
  set for the first row and for every row that differs from its predecessor in some key, whatever the result vector held before, if the
  result vector has precision \<open>0\<close>.  For another precision and two rows or more the run fails: the bits of \<open>a != b\<close> have precision \<open>0\<close>.\<close>

theorem distinct_2pc:
  fixes ks :: "'a::len sharing list" and st :: "('a, 's) beaver_state"
  assumes "bv_ok aes ole st" and "ks \<noteq> []" and "\<forall>c \<in> set ks. is_sharing 2 1 q N c" and "0 < N" and "is_sharing 2 1 q' N res"
  shows "(q' = 0 \<longrightarrow> (\<exists>R st'. distinct_rows (beaver_2pc aes ole wan) (\<lambda>x. Some (bv_public_share x [])) ks res st = Some (R, st') \<and>
      bv_ok aes ole st' \<and> is_sharing 2 1 0 N R \<and>
      reveal_b R = map (\<lambda>j. of_bool (j = 0 \<or> (\<exists>c \<in> set ks. reveal_b c ! (j - 1) \<noteq> reveal_b c ! j))) [0..<N])) \<and>
    (q' \<noteq> 0 \<and> 1 < N \<longrightarrow> distinct_rows (beaver_2pc aes ole wan) (\<lambda>x. Some (bv_public_share x [])) ks res st = None)"
proof -
  obtain X :: "'a sharing" where X: "Some (bv_public_share [1] []) = Some X" "is_sharing 2 1 0 1 X" "reveal_b X = [1]"
    using public_one_2pc by blast
  let ?pub = "\<lambda>x. Some (bv_public_share x [])"
  have "\<exists>R st'. distinct_rows (beaver_2pc aes ole wan) ?pub ks res st = Some (R, st') \<and> bv_ok aes ole st' \<and> is_sharing 2 1 0 N R \<and>
      reveal_b R = map (\<lambda>j. of_bool (j = 0 \<or> (\<exists>c \<in> set ks. reveal_b c ! (j - 1) \<noteq> reveal_b c ! j))) [0..<N]" if "q' = 0"
    using bva.distinct_correct [OF assms(1-4) assms(5) [unfolded that], where pub_b = ?pub] X by blast
  moreover have "distinct_rows (beaver_2pc aes ole wan) ?pub ks res st = None" if "q' \<noteq> 0" "1 < N"
  proof (rule bva.distinct_mismatch [where pub_b = ?pub, OF _ assms(1-3) that(2) assms(5) _ X(2)])
    show "v_and_b (beaver_2pc aes ole wan) U V s = None" if "is_sharing 2 1 q' l U" "is_sharing 2 1 0 l V" "0 < l"
      for l and U V :: "'a sharing" and s :: "('a, 's) beaver_state"
      using bvp.and_mismatch that \<open>q' \<noteq> 0\<close> by blast
  qed (rule X(1))
  ultimately show ?thesis by blast
qed

theorem distinct_2pc_witness:
  "\<exists>R st'. distinct_rows (beaver_2pc demo_aes demo_ole True) (\<lambda>x. Some (bv_public_share x []))
      [share_out 1 4 [ [4, 4, 5], [1, 1, 1 :: 8 word] ], share_out 1 4 [ [2, 2, 2], [0, 0, 0] ] ] (share_out 1 0 [ [9, 9, 9], [0, 0, 0] ])
      (demo_state :: (8, unit) beaver_state) = Some (R, st') \<and> reveal_b R = [1, 0, 1]"
  using distinct_2pc [OF demo_bv, of "[share_out 1 4 [ [4, 4, 5], [1, 1, 1] ], share_out 1 4 [ [2, 2, 2], [0, 0, 0] ] ]" 4 3 0
      "share_out 1 0 [ [9, 9, 9], [0, 0, 0] ]" True]
  by (simp add: is_sharing_2 reveal_2 [where m = 3] vxor_def upt_rec) blast

text \<open>C33: The pairwise sorting network sorts a shared table of precision \<open>0\<close> with any positive number of rows up to \<open>2 ^ 15\<close> (beyond,
  the code's \<open>int\<close> arithmetic overflows), a power of two or not: the
  network generated for \<open>n\<close> rows is the one for the next power of two without the comparators that would leave the table, and
  every data value stays with its key.\<close>

theorem pairwise_sort_3pc:
  fixes t :: "'a::len shared_table" and w :: "('a, 's) world"
  assumes "rep3_ok aes w" and "keys t \<noteq> []" and "length order = length (keys t)" and "table_ok 3 2 0 N t" and "0 < N" and "N \<le> 2 ^ 15"
  shows "\<exists>t' w'. pairwise_sort (replicated_3pc aes) t order w = Some (t', w') \<and> rep3_ok aes w' \<and> table_ok 3 2 0 N t' \<and>
    sorted (map (row_key order) (table_rows N t')) \<and> mset (table_rows N t') = mset (table_rows N t)"
  using assms by (rule rep3a.pairwise_sort_correct)

theorem pairwise_sort_3pc_witness:
  "\<exists>t' w'. pairwise_sort (replicated_3pc demo_aes)
      \<lparr>keys = [share_out 2 0 [ [5, 1, 3], [0, 0, 0], [0, 0, 0] ]], data_a = [], data_b = []\<rparr> [DESC] (demo_world 3 :: (8, unit) world) = Some (t', w') \<and>
    sorted (map (row_key [DESC]) (table_rows 3 t')) \<and> mset (table_rows 3 t') = {#([5], [], []), ([1], [], []), ([3], [], [])#}"
proof -
  let ?t = "\<lparr>keys = [share_out 2 0 [ [5 :: 8 word, 1, 3], [0, 0, 0], [0, 0, 0] ]], data_a = [], data_b = []\<rparr>"
  have ok: "table_ok 3 2 0 3 ?t" by (simp add: table_ok_def is_sharing_3)
  have rows: "table_rows 3 ?t = [([5], [], []), ([1], [], []), ([3], [], [])]"
    by (simp add: table_rows_def reveal_3 [where m = 3] vxor_def upt_rec)
  from pairwise_sort_3pc [OF demo_rep3 _ _ ok, of "[DESC]"] show ?thesis
    unfolding rows by (auto simp: add_mset_commute)
qed

text \<open>C34: The full-width conversion with two parties: there is no group to draw masks from, so the conversion is correct, but the one vector it
  opens is shared exactly as the secret; whatever the opening function, it is called on a sharing of the secret itself.\<close>

theorem b2a_2pc_unmasked:
  fixes X :: "'a::len sharing" and st :: "('a, 's) beaver_state"
  assumes "bv_ok aes ole st" and "is_sharing 2 1 q m X"
  shows "(\<exists>R st'. bv_b2a aes ole wan use_rca X st = Some (R, st') \<and> bv_ok aes ole st' \<and> is_sharing 2 1 q m R \<and> reveal_a R = reveal_b X) \<and>
    (\<exists>masked st1 finish. is_sharing 2 1 q m masked \<and> reveal_b masked = reveal_b X \<and>
      (\<forall>open_b. b2a (beaver_2pc aes ole wan) use_rca common pub open_b (getGroups 2) X st = open_b masked st1 \<bind> finish))"
proof
  show "\<exists>R st'. bv_b2a aes ole wan use_rca X st = Some (R, st') \<and> bv_ok aes ole st' \<and> is_sharing 2 1 q m R \<and> reveal_a R = reveal_b X"
    using bv_full_b2a_correct [OF assms(1), of q m X wan use_rca] assms(2) by auto
  show "\<exists>masked st1 finish. is_sharing 2 1 q m masked \<and> reveal_b masked = reveal_b X \<and>
      (\<forall>open_b. b2a (beaver_2pc aes ole wan) use_rca common pub open_b (getGroups 2) X st = open_b masked st1 \<bind> finish)"
    using bvm.b2a_without_groups [of aes ole "mgrs (net st)" st q m X] assms unfolding getGroups_2 bv_at_def by blast
qed

theorem b2a_2pc_unmasked_witness:
  "\<exists>R st'. bv_b2a demo_aes demo_ole True False (share_out 1 4 [ [9 :: 8 word, 1], [3, 2] ]) (demo_state :: (8, unit) beaver_state) = Some (R, st') \<and>
    reveal_a R = [10, 3]"
  using b2a_2pc_unmasked [OF demo_bv, of 4 2 "share_out 1 4 [ [9, 1], [3, 2] ]" True False]
  by (simp add: is_sharing_2 reveal_2 [where m = 2] vxor_def) blast

text \<open>C35: An exchange whose relative ranks do not match (\<open>to_id + from_id\<close> not divisible by the number of parties) never
  completes: from quiet channels party 0 waits for a party that sends its vector elsewhere, or a rank is negative and no party has it.\<close>

theorem unmatched_exchange_blocks:
  fixes sent bufs :: "'a::len vec list" and w :: "('a, 's) world"
  assumes "\<not> int n dvd to_id + from_id" and "0 < n" and "quiet w" and "length sent = n" and "length bufs = n"
  shows "exchangeShares n sent bufs to_id from_id w = None"
  using assms by (rule exchange_unmatched)

theorem unmatched_exchange_blocks_witness:
  "exchangeShares 3 [ [1 :: 8 word], [2], [3] ] [ [0], [0], [0] ] 1 1 (demo_world 3 :: (8, unit) world) = None"
  using unmatched_exchange_blocks [of 3 1 1 "demo_world 3" "[ [1 :: 8 word], [2], [3] ]" "[ [0], [0], [0] ]"]
  by (simp add: demo_world_def quiet_def)

text \<open>C36: A whole session: three parties set up the keys of their groups, party \<open>d\<close> shares a vector, the parties
  radix-sort it with permutations drawn on the way, and open.  Every party ends with the plaintext sorted by the signed
  order, provided that the generator yields a word with low bits zero in every buffer.\<close>

theorem radix_sort_session:
  fixes x :: "'a::len vec"
  assumes "keys_ok keygen" and "cipher_ok TYPE('a) aes" and "fair_cipher aes (length x)" and "length x \<le> 2 ^ (LENGTH('a) - 1)"
    and "d < 3"
  shows "\<exists>st. sort_session aes keygen d x = Some (replicate 3 (sort_key sint x), st)"
proof -
  obtain w0 X w1 where w0: "setup_random_generation 3 keygen (getGroups 3) = Some w0"
    and X: "rep3_secret_share_b_internal aes x d (proto_world w0) = Some (X, w1)" and ok: "shuffle_ok_3 aes (length x) (w1, perm_manager_new)"
    and s: "is_sharing 3 2 0 (length x) X" "reveal_b X = x" by (rule shared_start [OF assms])
  obtain Y tp T st where Y: "radix_sort_ccs (rep3_shuffler aes) (shuffle_3pc aes) X LENGTH('a) True (w1, perm_manager_new) = Some ((Y, tp), st)"
    "shuffle_ok_3 aes (length x) st" "is_sharing 3 2 0 (length x) Y" "reveal_b Y = sort_key sint x"
    using rx3.radix_sort_correct [OF ok s(1), of "LENGTH('a)" True] unfolding s(2) radix_sort_signed by blast
  obtain st' where "s_open (rep3_shuffler aes) True Y st = Some (replicate 3 (sort_key sint x), st')"
    using sh3.open_law [OF Y(2,3), of True] Y(4) by (auto simp: revealed_def)
  then show ?thesis using w0 X Y(1) by (simp add: sort_session_def)
qed

theorem radix_sort_session_witness:
  "\<exists>st. sort_session fair_aes demo_keygen 1 [5, 200, 7, 5 :: 8 word] = Some (replicate 3 [200, 5, 5, 7], st)"
  using radix_sort_session [OF demo_keys fair_aes_cipher(2) fair_demo, of "[5, 200, 7, 5]" 1] by simp

text \<open>C37: Shuffling by sharded permutations, for any number of parties and any replication factor that \<open>reshare\<close>
  supports: the members of each group draw a common permutation, applying all of them permutes the secret by one permutation of the
  whole vector, and applying the inverse (groups in the opposite order) restores it.\<close>

theorem sharded_shuffle_roundtrip:
  fixes X :: "'a::len sharing" and w :: "('a, 's) world"
  assumes "hm_params n k" and "hm_ok aes n w" and "fair_cipher aes m" and "is_sharing n k q m X"
  shows "\<exists>pi w1 T Y w2 Z w3. all_getNext aes n m w = Some (pi, w1) \<and> is_perm m T \<and>
    hm_oblivious_apply_sharded_perm binary aes n k pi X w1 = Some (Y, w2) \<and> is_sharing n k q m Y \<and>
    revealed binary Y = permute T (revealed binary X) \<and>
    hm_oblivious_apply_inverse_sharded_perm binary aes n k pi Y w2 = Some (Z, w3) \<and> is_sharing n k q m Z \<and>
    revealed binary Z = revealed binary X \<and> hm_ok aes n w3"
proof -
  have n: "2 \<le> n" using assms(1) by (simp add: hm_params_def)
  obtain P pi w1 where pi: "all_getNext aes n m w = Some (pi, w1)" "sharded n m P pi" "hm_ok aes n w1"
    using all_getNext_correct [OF assms(2) n assms(3)] by blast
  let ?T = "composed_perm m P (getGroups n)"
  have T: "is_perm m ?T" by (rule is_perm_composed [OF sharded_perms [OF pi(2)]])
  obtain Y w2 where Y: "hm_oblivious_apply_sharded_perm binary aes n k pi X w1 = Some (Y, w2)" "hm_ok aes n w2"
    "is_sharing n k q m Y" "revealed binary Y = permute ?T (revealed binary X)"
    using hm_apply_correct [OF assms(1) pi(2,3) assms(4)] by blast
  obtain Z w3 where Z: "hm_oblivious_apply_inverse_sharded_perm binary aes n k pi Y w2 = Some (Z, w3)" "hm_ok aes n w3"
    "is_sharing n k q m Z" "revealed binary Z = gather ?T (revealed binary Y)"
    using hm_apply_inverse_correct [OF assms(1) pi(2) Y(2,3)] by blast
  have "revealed binary Z = revealed binary X"
    unfolding Z(4) Y(4) by (rule gather_permute [OF T length_revealed [OF assms(4,1)]])
  then show ?thesis using pi(1) T Y(1,3,4) Z(1-3) by blast
qed

theorem sharded_shuffle_roundtrip_witness:
  "\<exists>pi w1 T Y w2 Z w3. all_getNext fair_aes 4 2 (demo_world 4 :: (8, unit) world) = Some (pi, w1) \<and>
    hm_oblivious_apply_sharded_perm True fair_aes 4 3 pi (share_out 3 0 [ [7, 8], [0, 0], [1, 0], [0, 0] ]) w1 = Some (Y, w2) \<and>
    is_perm 2 T \<and> revealed True Y = permute T [6, 8] \<and>
    hm_oblivious_apply_inverse_sharded_perm True fair_aes 4 3 pi Y w2 = Some (Z, w3) \<and> revealed True Z = [6, 8]"
proof -
  let ?X = "share_out 3 0 [ [7, 8], [0, 0], [1, 0], [0, 0 :: 8 word] ]"
  have g: "getGroups 4 = [ [0, 1], [2, 3] ]" by code_simp
  have p: "hm_params 4 3" by (simp add: hm_params_def g)
  have w: "hm_ok fair_aes 4 (demo_world 4 :: (8, unit) world)"
    using fair_aes_cipher
    by (auto simp: hm_ok_def demo_world_def demo_manager_def quiet_def groups_synced_def group_prg_ok_def get_group_def g upt_rec
        intro!: exI [of _ "\<lambda>_. \<lparr>seed = (), nonce = 0\<rparr>"])
  have X: "is_sharing 4 3 0 2 ?X" "revealed True ?X = [6, 8]"
    by (simp_all add: is_sharing_share_out revealed_def reveal_b_share_out [where m = 2] vxor_all_def vxor_def numeral_2_eq_2)
  show ?thesis using sharded_shuffle_roundtrip [OF p w fair_demo X(1), of True] unfolding X(2) by blast
qed

text \<open>C38: A whole session of quicksort: three parties set up the keys of their groups, party \<open>d\<close> shares a non-empty vector, the parties shuffle it,
  and in every round compare the remaining elements with their pivots, open the results and partition their shares; then they open.  The loop ends, and
  every party holds the plaintext sorted by the signed order, provided that the generator yields a word with low bits zero in every buffer.\<close>

theorem quicksort_session_3pc:
  fixes x :: "'a::len vec"
  assumes "keys_ok keygen" and "cipher_ok TYPE('a) aes" and "fair_cipher aes (length x)" and "length x \<le> 2 ^ (LENGTH('a) - 1)"
    and "d < 3" and "0 < length x" and "length x < 2 ^ 31"
  shows "\<exists>st. quicksort_session_run aes keygen d x = Some (replicate 3 (sort_key sint x), st)"
proof -
  obtain w0 X w1 where w0: "setup_random_generation 3 keygen (getGroups 3) = Some w0"
    and X: "rep3_secret_share_b_internal aes x d (proto_world w0) = Some (X, w1)" and ok: "shuffle_ok_3 aes (length x) (w1, perm_manager_new)"
    and s: "is_sharing 3 2 0 (length x) X" "reveal_b X = x" by (rule shared_start [OF assms(1-5)])
  obtain Y st where Y: "quicksort_body (shuffle_3pc aes) (rep3_shuffler aes) X (w1, perm_manager_new) = Some (Y, st)"
    "shuffle_ok_3 aes (length x) st" "is_sharing 3 2 0 (length x) Y" "mset (reveal_b Y) = mset x" "sorted (map sint (reveal_b Y))"
    using qs3.quicksort_correct [OF ok s(1) assms(6,7)] unfolding s(2) by blast
  obtain st' where "s_open (rep3_shuffler aes) True Y st = Some (replicate 3 (sort_key sint x), st')"
    using sh3.open_law [OF Y(2,3), of True] sorted_words [OF Y(4,5)] by (auto simp: revealed_def)
  then show ?thesis using w0 X Y(1) by (simp add: quicksort_session_run_def)
qed

theorem quicksort_session_3pc_witness:
  "\<exists>st. quicksort_session_run fair_aes demo_keygen 2 [5, 200, 7, 5 :: 8 word] = Some (replicate 3 [200, 5, 5, 7], st)"
  using quicksort_session_3pc [OF demo_keys fair_aes_cipher(2) fair_demo, of "[5, 200, 7, 5]" 2] by simp

text \<open>C39: The permutation manager with three or more parties: \<open>reserve\<close> leaves permutations of the new size only, as
  many as were asked for and no fewer than were there; then \<open>getNextPair\<close> returns a pair of equal permutations of that
  size, \<open>getNext\<close> returns one of any other size, and \<open>getNextPair\<close> at another size fails its assertion.\<close>

theorem manager_sizes:
  fixes w :: "('a::len, 's) world"
  assumes "fair_cipher aes s" and "fair_cipher aes s'" and "hm_ok aes (n + 3) w" and "manager_ok (hm_valid (n + 3)) pm"
    and "s \<noteq> s'" and "0 < num + pairs"
  shows "\<exists>pm1 w1. reserve (hm_generator aes (n + 3)) (n + 3) s num pairs pm w = Some (pm1, w1) \<and>
    stored_size pm1 = s \<and> length (queue pm1) = max (if stored_size pm = s then length (queue pm) else 0) (num + pairs) \<and>
    (\<exists>p pm2 w2. pm_getNextPair (hm_generator aes (n + 3)) (n + 3) s enc1 enc2 pm1 w1 = Some ((p, p), pm2, w2) \<and>
       hm_valid (n + 3) s p) \<and>
    (\<exists>p pm2 w2. pm_getNext (hm_generator aes (n + 3)) (n + 3) s' enc pm1 w1 = Some (p, pm2, w2) \<and> hm_valid (n + 3) s' p) \<and>
    pm_getNextPair (hm_generator aes (n + 3)) (n + 3) s' enc1 enc2 pm1 w1 = None"
proof -
  let ?g = "hm_generator aes (n + 3) :: (hm_perm list, ('a, 's) world) perm_generator"
  have w: "hm_from aes (n + 3) w w" using assms(3) by (simp add: hm_from_def)
  obtain pm1 w1 where r: "reserve ?g (n + 3) s num pairs pm w = Some (pm1, w1)" "hm_from aes (n + 3) w w1"
    "manager_ok (hm_valid (n + 3)) pm1" "stored_size pm1 = s"
    "length (queue pm1) = max (if stored_size pm = s then length (queue pm) else 0) (num + pairs)"
    using hms.reserve_correct [OF assms(1) w assms(4), of num pairs] by blast
  have ne: "queue pm1 \<noteq> []" using r(5) assms(6) by auto
  obtain p pm2 w2 where "pm_getNextPair ?g (n + 3) s enc1 enc2 pm1 w1 = Some ((p, p), pm2, w2)" "hm_valid (n + 3) s p"
    using hms.getNextPair_correct [OF assms(1) r(2,3), of enc1 enc2] r(4) by blast
  moreover obtain p' pm3 w3 where "pm_getNext ?g (n + 3) s' enc pm1 w1 = Some (p', pm3, w3)" "hm_valid (n + 3) s' p'"
    using hms.getNext_correct [OF assms(2) r(2,3), of enc] by blast
  moreover have "pm_getNextPair ?g (n + 3) s' enc1 enc2 pm1 w1 = None"
    using r(4) assms(5) by (intro hms.getNextPair_wrong_size [OF r(3) ne]) simp
  ultimately show ?thesis using r(1,4,5) by blast
qed

theorem manager_sizes_witness:
  "\<exists>pm1 w1. reserve (hm_generator fair_aes (0 + 3)) (0 + 3) 5 1 1 perm_manager_new (demo_world 3 :: (8, unit) world) = Some (pm1, w1) \<and>
    length (queue pm1) = 2 \<and> pm_getNextPair (hm_generator fair_aes (0 + 3)) (0 + 3) 6 True True pm1 w1 = None"
proof -
  have "manager_ok (hm_valid (0 + 3)) perm_manager_new" by (simp add: manager_ok_def perm_manager_new_def)
  moreover have "hm_ok fair_aes (0 + 3) (demo_world 3 :: (8, unit) world)" using demo_hm by simp
  ultimately obtain pm1 :: "hm_perm list perm_manager" and w1 where
    "reserve (hm_generator fair_aes (0 + 3)) (0 + 3) 5 1 1 perm_manager_new (demo_world 3 :: (8, unit) world) = Some (pm1, w1)"
    "length (queue pm1) = max (if stored_size (perm_manager_new :: hm_perm list perm_manager) = 5
       then length (queue (perm_manager_new :: hm_perm list perm_manager)) else 0) (1 + 1)"
    "pm_getNextPair (hm_generator fair_aes (0 + 3)) (0 + 3) 6 True True pm1 w1 = None"
    using manager_sizes [OF fair_demo fair_demo, of 0 "demo_world 3" perm_manager_new 5 6 1 1 True True True] by force
  then show ?thesis by (intro exI [of _ pm1] exI [of _ w1]) (simp add: perm_manager_new_def)
qed

text \<open>C40: Elementwise permutations of three parties, in either encoding: applying one permutes the secret, \<open>invert\<close> opens to
  the inverse, applying the inverse restores the secret, and composing the two gives the identity.\<close>

theorem elementwise_roundtrip_3pc:
  fixes X :: "'a::len sharing" and st :: "('a, 's) shuffle_state"
  assumes "shuffle_ok_3 aes m st" and "is_sharing 3 2 q m X"
    and "is_perm m p" and "is_sharing 3 2 0 m (sharedVector e)" and "revealed (encoding e) (sharedVector e) = map of_nat p"
  shows "\<exists>Y s1 e' s2 Z s3 R t s4.
    oblivious_apply_elementwise_perm (rep3_shuffler aes) b X e st = Some (Y, s1) \<and> revealed b Y = permute p (revealed b X) \<and>
    elem_invert (rep3_shuffler aes) e s1 = Some (e', s2) \<and>
    revealed (encoding e') (sharedVector e') = map of_nat (inverse_perm p) \<and>
    oblivious_apply_elementwise_perm (rep3_shuffler aes) b Y e' s2 = Some (Z, s3) \<and> revealed b Z = revealed b X \<and>
    compose_permutations (rep3_shuffler aes) e e' s3 = Some (R, t, s4) \<and>
    revealed (encoding R) (sharedVector R) = map of_nat [0..<m] \<and> shuffle_ok_3 aes m s4"
proof -
  have e: "sh3.perm_shared m p e" using assms(3-5) by (simp add: sh3.perm_shared_def)
  have l: "length (revealed b X) = m" using assms(2) by (simp add: revealed_def)
  obtain Y s1 where Y: "oblivious_apply_elementwise_perm (rep3_shuffler aes) b X e st = Some (Y, s1)" "shuffle_ok_3 aes m s1"
    "is_sharing 3 2 q m Y" "revealed b Y = permute p (revealed b X)"
    using sh3.elementwise_correct [OF assms(1,2) e] by blast
  obtain e' s2 where i: "elem_invert (rep3_shuffler aes) e s1 = Some (e', s2)" "shuffle_ok_3 aes m s2"
    "sh3.perm_shared m (inverse_perm p) e'" "encoding e' = encoding e"
    using sh3.invert_correct [OF Y(2) e] by blast
  obtain Z s3 where Z: "oblivious_apply_elementwise_perm (rep3_shuffler aes) b Y e' s2 = Some (Z, s3)" "shuffle_ok_3 aes m s3"
    "revealed b Z = permute (inverse_perm p) (revealed b Y)"
    using sh3.elementwise_correct [OF i(2) Y(3) i(3)] by blast
  obtain R t s4 where "compose_permutations (rep3_shuffler aes) e e' s3 = Some (R, t, s4)" "shuffle_ok_3 aes m s4"
    "sh3.perm_shared m (gather p (inverse_perm p)) R"
    using sh3.compose_correct [OF Z(2) e i(3)] i(4) by blast
  moreover have "revealed b Z = revealed b X"
    using assms(3) l by (simp add: Z(3) Y(4) permute_inverse gather_permute is_perm_length)
  ultimately show ?thesis
    using Y(1,4) i(1) i(3) [unfolded sh3.perm_shared_def] Z(1)
    unfolding sh3.perm_shared_def gather_inverse [OF assms(3)] by blast
qed

theorem elementwise_roundtrip_3pc_witness:
  "\<exists>Y s1 e' s2. oblivious_apply_elementwise_perm (rep3_shuffler fair_aes) True
      (share_out 2 0 [ [7, 8, 9], [0, 0, 0], [0, 0, 0 :: 8 word] ]) demo_perm demo_shuffle = Some (Y, s1) \<and>
    revealed True Y = [8, 9, 7] \<and> elem_invert (rep3_shuffler fair_aes) demo_perm s1 = Some (e', s2) \<and>
    revealed (encoding e') (sharedVector e') = [1, 2, 0]"
proof -
  let ?X = "share_out 2 0 [ [7, 8, 9], [0, 0, 0], [0, 0, 0 :: 8 word] ]"
  have X: "is_sharing 3 2 0 3 ?X" "revealed True ?X = [7, 8, 9]"
    by (simp_all add: is_sharing_3 revealed_def reveal_3 [where m = 3] vxor_def)
  have "permute [2, 0, 1] [7, 8, 9 :: 8 word] = [8, 9, 7]" "inverse_perm [2, 0, 1] = [1, 2, 0]" by code_simp+
  then show ?thesis
    using elementwise_roundtrip_3pc [OF demo_shuffle_ok X(1) demo_perm_ok(1,2,4), of True] unfolding X(2) by auto
qed

section \<open>Further operations\<close>

text \<open>Quicksort of two parties, with permutation correlations for the shuffle.\<close>

theorem quicksort_2pc:
  fixes X :: "'a::len sharing" and st :: "('a, 's) shuffle_state_2"
  assumes "shuffle_ok_2 aes ole m st" and "is_sharing 2 1 q m X" and "0 < m" and "m < 2 ^ 31"
  shows "\<exists>Y st'. quicksort_body (shuffle_2pc aes ole wan) (dm_shuffler aes fresh ole wan use_rca use_libote) X st = Some (Y, st') \<and>
    shuffle_ok_2 aes ole m st' \<and> is_sharing 2 1 q m Y \<and> reveal_b Y = sort_key sint (reveal_b X)"
  using qs2.quicksort_correct [OF assms, where fresh = fresh and wan = wan and use_rca = use_rca and use_libote = use_libote]
    sorted_words by blast

text \<open>\<open>dot_product_a\<close> of three parties over chunks of \<open>a\<close> elements, for a chunk size that divides the length.\<close>

theorem dot_product_3pc:
  fixes X Y :: "'a::len sharing" and w :: "('a, 's) world"
  assumes "rep3_ok aes w" and "is_sharing 3 2 q m X" and "is_sharing 3 2 q m Y" and "0 < a" and "a dvd m"
  shows "\<exists>R w'. rep3_dot_product_a aes a X Y w = Some (R, w') \<and> rep3_ok aes w' \<and> is_sharing 3 2 q (m div a) R \<and>
    (if q = 0 then reveal_a R = dot_product a (reveal_a X) (reveal_a Y)
     else truncated q (dot_product a (reveal_a X) (reveal_a Y)) (reveal_a R))"
  using assms by (rule rep3_dot_product_correct)

theorem dot_product_3pc_witness:
  "\<exists>R w'. rep3_dot_product_a demo_aes 2 (share_out 2 0 [ [1, 0], [3, 1], [5 :: 8 word, 1] ])
      (share_out 2 0 [ [2, 1], [1, 1], [1, 1] ]) (demo_world 3 :: (8, unit) world) = Some (R, w') \<and> reveal_a R = [42]"
  using dot_product_3pc [OF demo_rep3, of 0 2 "share_out 2 0 [ [1, 0], [3, 1], [5, 1] ]"
      "share_out 2 0 [ [2, 1], [1, 1], [1, 1] ]" 2]
  by (simp add: is_sharing_3 reveal_3 [where m = 2] vadd_def dot_product_def aggSize'_def div_ceil_def upt_rec) blast

text \<open>Sharing and opening by two parties.\<close>

theorem share_open_2pc:
  fixes data :: "'a::len vec" and st :: "('a, 's) beaver_state"
  assumes "bv_ok aes ole st" and "d < 2"
  shows "\<exists>X s1 s1' Y s2 s2'. bv_secret_share_a_internal aes data d st = Some (X, s1) \<and>
    bv_unchecked_open_a X s1 = Some (replicate 2 data, s1') \<and> bv_ok aes ole s1' \<and>
    bv_secret_share_b_internal aes data d st = Some (Y, s2) \<and>
    bv_unchecked_open_b Y s2 = Some (replicate 2 data, s2') \<and> bv_ok aes ole s2'"
proof -
  obtain X s1 where X: "bv_secret_share_a_internal aes data d st = Some (X, s1)" "bv_ok aes ole s1"
      "is_sharing 2 (Suc 0) 0 (length data) X" "reveal_a X = data"
    using bv_secret_share_correct(1) [OF assms] by blast
  obtain Y s2 where Y: "bv_secret_share_b_internal aes data d st = Some (Y, s2)" "bv_ok aes ole s2"
      "is_sharing 2 (Suc 0) 0 (length data) Y" "reveal_b Y = data"
    using bv_secret_share_correct(2) [OF assms] by blast
  have "bv_ok aes ole (s1\<lparr>net := tally 2 (length data) (net s1)\<rparr>)" "bv_ok aes ole (s2\<lparr>net := tally 2 (length data) (net s2)\<rparr>)"
    using X(2) Y(2) by simp_all
  then show ?thesis
    using X Y bv_open_correct(1) [OF X(2,3)] bv_open_correct(2) [OF Y(2,3)] by metis
qed

theorem share_open_2pc_witness:
  "\<exists>X s1 s1'. bv_secret_share_a_internal demo_aes [7, 8 :: 8 word] 1 (demo_state :: (8, unit) beaver_state) = Some (X, s1) \<and>
    bv_unchecked_open_a X s1 = Some (replicate 2 [7, 8], s1')"
  using share_open_2pc [OF demo_bv, of 1 "[7, 8]"] by auto

text \<open>\<open>compare\<close> under two-party Beaver triples yields the equality bit and the signed greater-than bit of
  every pair of elements, in both network settings.\<close>

theorem compare_2pc:
  fixes X Y :: "'a::len sharing" and st :: "('a, 's) beaver_state"
  assumes "bv_ok aes ole st" and "is_sharing 2 1 q m X" and "is_sharing 2 1 q m Y"
  shows "\<exists>E G st'. compare (beaver_2pc aes ole wan) X Y st = Some ((E, G), st') \<and> bv_ok aes ole st' \<and>
    is_sharing 2 1 q m E \<and> is_sharing 2 1 q m G \<and>
    reveal_b E = map2 (\<lambda>x y. of_bool (x = y)) (reveal_b X) (reveal_b Y) \<and>
    reveal_b G = map2 (\<lambda>x y. of_bool (sint y < sint x)) (reveal_b X) (reveal_b Y)"
  using assms by (rule bv.compare_correct)

theorem compare_2pc_witness:
  "\<exists>E G st'. compare (beaver_2pc demo_aes demo_ole True) (share_out 1 0 [ [9 :: 8 word, 1], [3, 2] ])
      (share_out 1 0 [ [1, 1], [4, 2] ]) (demo_state :: (8, unit) beaver_state) = Some ((E, G), st') \<and>
    reveal_b E = [0, 1] \<and> reveal_b G = [1, 0]"
  using compare_2pc [OF demo_bv, of 0 2 "share_out 1 0 [ [9, 1], [3, 2] ]" "share_out 1 0 [ [1, 1], [4, 2] ]" True]
  by (simp add: is_sharing_2 reveal_2 [where m = 2] vxor_def) blast

text \<open>\<open>multiplex\<close> on boolean sharings of three parties selects elementwise by the least significant bit of the
  selector, whatever its other bits are.\<close>

theorem multiplex_b_3pc:
  fixes S A B :: "'a::len sharing" and w :: "('a, 's) world"
  assumes "rep3_ok aes w" and "is_sharing 3 2 q m S" and "is_sharing 3 2 q' m A" and "is_sharing 3 2 0 m B"
  shows "\<exists>R w'. multiplex_b (replicated_3pc aes) S A B w = Some (R, w') \<and> rep3_ok aes w' \<and> is_sharing 3 2 q' m R \<and>
    (\<forall>j < m. reveal_b R ! j = (if bit (reveal_b S ! j) 0 then reveal_b B ! j else reveal_b A ! j))"
  using assms by (rule rep3.multiplex_b_correct)

theorem multiplex_b_3pc_witness:
  "\<exists>R w'. multiplex_b (replicated_3pc demo_aes) (share_out 2 0 [ [1 :: 8 word], [3], [3] ])
      (share_out 2 0 [ [1], [2], [4] ]) (share_out 2 0 [ [9], [0], [0] ]) (demo_world 3 :: (8, unit) world) = Some (R, w') \<and>
    reveal_b R ! 0 = 9"
  using multiplex_b_3pc [OF demo_rep3, of 0 1 "share_out 2 0 [ [1], [3], [3] ]" 0 "share_out 2 0 [ [1], [2], [4] ]"
      "share_out 2 0 [ [9], [0], [0] ]"]
  by (simp add: is_sharing_3 reveal_3 [where m = 1] vxor_def) blast

text \<open>\<open>gtez_a\<close> for three parties turns an arithmetic sharing into an arithmetic sharing of the bit that says
  whether the signed value is non-negative, through the packed sign circuit.\<close>

theorem gtez_a_3pc:
  fixes X :: "'a::len sharing" and w :: "('a, 's) world"
  assumes "rep3_ok aes w" and "is_sharing 3 2 q m X"
  shows "\<exists>R w'. gtez_a (replicated_3pc aes) X w = Some (R, w') \<and> rep3_ok aes w' \<and> is_sharing 3 2 0 m R \<and>
    reveal_a R = map (\<lambda>x. of_bool (0 \<le> sint x)) (reveal_a X)"
  using assms by (rule rep3d.gtez_a_correct)

theorem gtez_a_3pc_witness:
  "\<exists>R w'. gtez_a (replicated_3pc demo_aes) (share_out 2 0 [ [1, 100], [3, 20], [5, 9 :: 8 word] ])
      (demo_world 3 :: (8, unit) world) = Some (R, w') \<and> reveal_a R = [1, 0]"
  using gtez_a_3pc [OF demo_rep3, of 0 2 "share_out 2 0 [ [1, 100], [3, 20], [5, 9] ]"]
  by (simp add: is_sharing_3 reveal_3 [where m = 2] vadd_def) blast

text \<open>The scalar overload of the arithmetic zero sharing does not deliver a zero sharing: it leaves the caller's
  value in place (two generators are advanced and their outputs dropped), so three parties that start from 1 hold
  values that add up to 3.\<close>

theorem scalar_zero_sharing_broken:
  fixes w :: "('a::len, 's) world"
  assumes "rep3_ok aes w"
  shows "\<exists>w'. for_parties [0, 1, 2] (\<lambda>p m. getNextArithmetic1 aes (num :: 'a word) m) w = Some ([num, num, num], w')"
proof -
  from assms obtain m0 m1 m2 where m: "mgrs w = [m0, m1, m2]" "rep3_synced [m0, m1, m2]" by (rule rep3_okE)
  then have s: "mgr3 0 m0" "mgr3 1 m1" "mgr3 2 m2" by (simp_all add: rep3_synced_def)
  have "\<exists>m'. getNextArithmetic1 aes num mg = Some (num, m')" if "mgr3 p mg" for p and mg :: "'s manager"
    using that by (simp add: getNextArithmetic1_def draw1_def case_prod_beta)
  then obtain n0 n1 n2 where "getNextArithmetic1 aes num m0 = Some (num, n0)" "getNextArithmetic1 aes num m1 = Some (num, n1)"
    "getNextArithmetic1 aes num m2 = Some (num, n2)" using s by metis
  then show ?thesis using for_parties_3 [OF m(1), of "\<lambda>p m. getNextArithmetic1 aes num m"] by blast
qed

theorem scalar_zero_sharing_broken_witness:
  "\<exists>w'. for_parties [0, 1, 2] (\<lambda>p m. getNextArithmetic1 demo_aes (1 :: 8 word) m) (demo_world 3 :: (8, unit) world)
    = Some ([1, 1, 1], w')"
  using scalar_zero_sharing_broken [OF demo_rep3, of 1] .

text \<open>Outside the one-adversary optimisation the groups are all ascending lists of \<open>num_parties - num_adversaries\<close>
  parties, each exactly once.\<close>

theorem groups_are_combinations:
  assumes "2 \<le> n" and "n < 4 \<or> t \<noteq> 1" and "t \<le> n" and "n - t \<noteq> 1"
  shows "set (generateGroups n r t) = {g. ascending g \<and> set g \<subseteq> {0..<n} \<and> length g = n - t} \<and>
    distinct (generateGroups n r t)"
  using assms combinations_set [of "[0..<n]" "[]" "n - t"] combinations_distinct [of "[0..<n]" "[]" "n - t"]
  by (auto simp: generateGroups_def ascending_def Let_def)

theorem groups_are_combinations_witness:
  "set (generateGroups 3 2 1) = {g. ascending g \<and> set g \<subseteq> {0..<3} \<and> length g = 2} \<and> generateGroups 3 2 1 = [ [0, 1], [0, 2], [1, 2] ]"
proof -
  have "generateGroups 3 2 1 = [ [0, 1], [0, 2], [1, 2] ]" by code_simp
  then show ?thesis using groups_are_combinations [of 3 1 2] by simp
qed

text \<open>Writing through an alternating subset and reading it back: the assignment stores the given elements at the shown
  positions of the underlying storage, keeps every other position and the size, and a read returns what was written.\<close>

theorem alternating_write_read:
  assumes "valid_view v" and "distinct (positions v)" and "0 < inc + e" and "length d = extent v"
    and "alternating_subset_reference inc (Some e) v = Some a" and "length u = total_size a"
  shows "\<exists>d'. view_set a u d = Some d' \<and> length d' = length d \<and> view_get a d' = u \<and>
    (\<forall>j. j \<notin> set (positions a) \<longrightarrow> d' ! j = d ! j)"
  using view_set_get [of a d u] alternating_view [OF assms(1,3)] assms by auto

theorem alternating_write_read_witness:
  "\<exists>a d'. alternating_subset_reference 1 (Some 1) (base 4) = Some a \<and> view_set a [7, 9] [1, 2, 3, 4 :: nat] = Some d' \<and>
    view_get a d' = [7, 9] \<and> d' ! 1 = 2"
proof -
  define a where "a = (base 4)\<lparr>mapping := Some [0, 2]\<rparr>"
  have a: "alternating_subset_reference 1 (Some 1) (base 4) = Some a" unfolding a_def by code_simp
  have s: "total_size a = 2" "set (positions a) = {0, 2}" by (simp_all add: a_def)
  from alternating_write_read [OF _ _ _ _ a, of "[1, 2, 3, 4 :: nat]" "[7, 9]"] s a show ?thesis by force
qed

text \<open>Bitwise AND of three parties is one round in which every party sends one vector; the result opens to the AND
  of the opened inputs and the generators stay synchronised.\<close>

theorem and_b_3pc:
  fixes X Y :: "'a::len sharing" and w :: "('a, 's) world"
  assumes "rep3_ok aes w" and "is_sharing 3 2 q m X" and "is_sharing 3 2 q m Y"
  shows "\<exists>Z w'. rep3_and_b aes X Y w = Some (Z, w') \<and> rep3_ok aes w' \<and> is_sharing 3 2 q m Z \<and>
    reveal_b Z = map2 (AND) (reveal_b X) (reveal_b Y) \<and>
    (\<forall>p. bytes_sent w' p = bytes_sent w p + (if p < 3 then sizeof TYPE('a) * m else 0))"
  using rep3_and_b_correct [OF assms] by (auto simp: tally_def)

theorem and_b_3pc_witness:
  "\<exists>Z w'. rep3_and_b demo_aes (share_out 2 0 [ [1], [3], [5 :: 8 word] ]) (share_out 2 0 [ [2], [1], [1] ])
      (demo_world 3 :: (8, unit) world) = Some (Z, w') \<and> reveal_b Z = [2] \<and> bytes_sent w' 0 = 1"
proof -
  let ?X = "share_out 2 0 [ [1], [3], [5 :: 8 word] ]" and ?Y = "share_out 2 0 [ [2], [1], [1 :: 8 word] ]"
  have X: "is_sharing 3 2 0 1 ?X" "is_sharing 3 2 0 1 ?Y" "map2 (AND) (reveal_b ?X) (reveal_b ?Y) = [2]"
    by (simp_all add: is_sharing_3 reveal_3 [where m = 1] vxor_def)
  obtain Z w' where z: "rep3_and_b demo_aes ?X ?Y (demo_world 3 :: (8, unit) world) = Some (Z, w')"
    "reveal_b Z = [2]" "\<And>p. bytes_sent w' p
      = bytes_sent (demo_world 3 :: (8, unit) world) p + (if p < 3 then sizeof TYPE(8) * 1 else 0)"
    using and_b_3pc [OF demo_rep3 X(1,2)] unfolding X(3) by blast
  have "bytes_sent w' 0 = 1" by (simp add: z(3) demo_world_def sizeof_def)
  with z(1,2) show ?thesis by blast
qed

text \<open>Bit conversion \<open>b2a_bit\<close> of three parties: the least significant bit of every boolean element becomes an
  arithmetic sharing of that bit.\<close>

theorem b2a_bit_3pc:
  fixes X :: "'a::len sharing" and w :: "('a, 's) world"
  assumes "rep3_ok aes w" and "is_sharing 3 2 q m X"
  shows "\<exists>R w'. rep3_b2a_bit aes X w = Some (R, w') \<and> rep3_ok aes w' \<and> is_sharing 3 2 0 m R \<and>
    reveal_a R = map (\<lambda>x. x AND 1) (reveal_b X)"
  using assms by (rule rep3_b2a_correct)

theorem b2a_bit_3pc_witness:
  "\<exists>R w'. rep3_b2a_bit demo_aes (share_out 2 0 [ [1, 4], [3, 1], [5 :: 8 word, 1] ]) (demo_world 3 :: (8, unit) world) = Some (R, w') \<and>
    reveal_a R = [1, 0]"
  using b2a_bit_3pc [OF demo_rep3, of 0 2 "share_out 2 0 [ [1, 4], [3, 1], [5, 1] ]"]
  by (simp add: is_sharing_3 reveal_3 [where m = 2] vxor_def) blast

text \<open>Bitonic merge by two parties: a table whose two halves are each sorted becomes sorted as a whole, with the same rows.\<close>

theorem bitonic_merge_2pc:
  fixes t :: "'a::len shared_table" and st :: "('a, 's) beaver_state"
  assumes "bv_ok aes ole st" and "keys t \<noteq> []" and "length order = length (keys t)" and "table_ok 2 1 0 (2 ^ Suc r) t"
    and "sorted (map (row_key order) (take (2 ^ r) (table_rows (2 ^ Suc r) t)))"
    and "sorted (map (row_key order) (drop (2 ^ r) (table_rows (2 ^ Suc r) t)))"
  shows "\<exists>t' st'. bitonic_merge (beaver_2pc aes ole wan) t order st = Some (t', st') \<and> bv_ok aes ole st' \<and>
    table_ok 2 1 0 (2 ^ Suc r) t' \<and> sorted (map (row_key order) (table_rows (2 ^ Suc r) t')) \<and>
    mset (table_rows (2 ^ Suc r) t') = mset (table_rows (2 ^ Suc r) t)"
  using assms by (rule bva.bitonic_merge_correct)

theorem bitonic_merge_2pc_witness:
  "\<exists>t' st'. bitonic_merge (beaver_2pc demo_aes demo_ole False)
      \<lparr>keys = [share_out 1 0 [ [5 :: 8 word, 7, 1, 9], [0, 0, 0, 0] ]], data_a = [], data_b = []\<rparr> [ASC]
      (demo_state :: (8, unit) beaver_state) = Some (t', st') \<and>
    sorted (map (row_key [ASC]) (table_rows (2 ^ Suc 1) t')) \<and>
    mset (table_rows (2 ^ Suc 1) t') = {#([5], [], []), ([7], [], []), ([1], [], []), ([9], [], [])#}"
proof -
  let ?t = "\<lparr>keys = [share_out 1 0 [ [5 :: 8 word, 7, 1, 9], [0, 0, 0, 0] ]], data_a = [], data_b = []\<rparr>"
  have ok: "table_ok 2 1 0 (2 ^ Suc 1) ?t" by (simp add: table_ok_def is_sharing_2)
  have rows: "table_rows (2 ^ Suc 1) ?t = [([5], [], []), ([7], [], []), ([1], [], []), ([9], [], [])]"
    by (simp add: table_rows_def reveal_2 [where m = 4] vxor_def upt_rec)
  have "sorted (map (row_key [ASC]) (take (2 ^ 1) (table_rows (2 ^ Suc 1) ?t)))"
    "sorted (map (row_key [ASC]) (drop (2 ^ 1) (table_rows (2 ^ Suc 1) ?t)))"
    unfolding rows by (simp_all add: row_key_def signed_key_def)
  from bitonic_merge_2pc [OF demo_bv _ _ ok this, of False] show ?thesis
    unfolding rows by (auto simp: add_mset_commute)
qed

text \<open>The odd-even merge by two parties: a shared vector whose two halves are each sorted in the signed order becomes
  sorted, with the same elements.\<close>

theorem odd_even_merge_2pc:
  fixes X :: "'a::len sharing" and st :: "('a, 's) beaver_state"
  assumes "bv_ok aes ole st" and "is_sharing 2 1 0 (2 ^ Suc l) X"
    and "sorted (map sint (take (2 ^ l) (reveal_b X)))" and "sorted (map sint (drop (2 ^ l) (reveal_b X)))"
  shows "\<exists>Y st'. odd_even_merge (beaver_2pc aes ole wan) X st = Some (Y, st') \<and> bv_ok aes ole st' \<and>
    is_sharing 2 1 0 (2 ^ Suc l) Y \<and> sorted (map sint (reveal_b Y)) \<and> mset (reveal_b Y) = mset (reveal_b X)"
  using assms by (rule bva.odd_even_merge_correct)

theorem odd_even_merge_2pc_witness:
  "\<exists>Y st'. odd_even_merge (beaver_2pc demo_aes demo_ole False) (share_out 1 0 [ [5 :: 8 word, 7, 255, 9], [0, 0, 0, 0] ])
      (demo_state :: (8, unit) beaver_state) = Some (Y, st') \<and> sorted (map sint (reveal_b Y)) \<and> mset (reveal_b Y) = {#5, 7, 255, 9#}"
proof -
  let ?X = "share_out 1 0 [ [5 :: 8 word, 7, 255, 9], [0, 0, 0, 0] ]"
  have ok: "is_sharing 2 1 0 (2 ^ Suc 1) ?X" by (simp add: is_sharing_2)
  have r: "reveal_b ?X = [5, 7, 255, 9]" by (simp add: reveal_2 [where m = 4] vxor_def)
  have "sorted (map sint (take (2 ^ 1) (reveal_b ?X)))" "sorted (map sint (drop (2 ^ 1) (reveal_b ?X)))"
    unfolding r by simp_all
  from odd_even_merge_2pc [OF demo_bv ok this, of False] show ?thesis
    unfolding r by (auto simp: add_mset_commute)
qed

end
